(* ===== verification/Muduo_Prelude.thy ===== *)
theory Muduo_Prelude
  imports Main "HOL-Library.Word"
begin

text \<open>
  Shared vocabulary of the development: the fault values that an \<open>assert\<close>, an
  \<open>abort()\<close>, a thrown exception or an out-of-range memory access of the C++ code becomes
  (the default build type of the repository is Debug, so every \<open>assert\<close> is
  live), the result type that carries them, C integer conversions, the pieces of the
  C++ standard library that several components use (\<open>std::find\<close>, \<open>std::search\<close>,
  \<open>std::copy\<close>, \<open>vector::resize\<close>), and an event-system skeleton with its
  invariant rule for the state machines.
\<close>

subsection \<open>Faults and results\<close>

datatype fault =
    AssertFailed string
  | Aborted string
  | Thrown string
  | BadAccess string

type_synonym 'a res = "fault + 'a"

named_theorems res_simps "unfolding of the result combinators"

definition bindR :: "'a res \<Rightarrow> ('a \<Rightarrow> 'b res) \<Rightarrow> 'b res" where
  "bindR m k = (case m of Inl e \<Rightarrow> Inl e | Inr x \<Rightarrow> k x)"

definition ensure :: "bool \<Rightarrow> string \<Rightarrow> 'a res \<Rightarrow> 'a res" where
  "ensure P lbl k = (if P then k else Inl (AssertFailed lbl))"

definition is_ok :: "'a res \<Rightarrow> bool" where
  "is_ok r = (case r of Inl _ \<Rightarrow> False | Inr _ \<Rightarrow> True)"

lemma bindR_Inr [simp, res_simps]: "bindR (Inr x) k = k x"
  by (simp add: bindR_def)

lemma bindR_Inl [simp, res_simps]: "bindR (Inl e) k = Inl e"
  by (simp add: bindR_def)

lemma bindR_eq_Inr: "bindR m k = Inr y \<longleftrightarrow> (\<exists>x. m = Inr x \<and> k x = Inr y)"
  by (cases m) auto

lemma bindR_InrE:
  assumes "bindR m k = Inr y"
  obtains x where "m = Inr x" and "k x = Inr y"
  using assms by (auto simp: bindR_eq_Inr)

lemma bindR_assoc: "bindR (bindR m f) g = bindR m (\<lambda>x. bindR (f x) g)"
  by (cases m) auto

lemma bindR_cong [fundef_cong]:
  "m = m' \<Longrightarrow> (\<And>x. m' = Inr x \<Longrightarrow> k x = k' x) \<Longrightarrow> bindR m k = bindR m' k'"
  by (cases m') auto

lemma ensure_cong [fundef_cong]:
  "P = P' \<Longrightarrow> l = l' \<Longrightarrow> (P' \<Longrightarrow> k = k') \<Longrightarrow> ensure P l k = ensure P' l' k'"
  by (simp add: ensure_def)

lemma ensure_True [simp, res_simps]: "P \<Longrightarrow> ensure P l k = k"
  by (simp add: ensure_def)

lemma ensure_False [simp, res_simps]: "\<not> P \<Longrightarrow> ensure P l k = Inl (AssertFailed l)"
  by (simp add: ensure_def)

lemma ensure_eq_Inr: "ensure P l k = Inr y \<longleftrightarrow> P \<and> k = Inr y"
  by (simp add: ensure_def)

lemma is_ok_simps [simp]: "is_ok (Inr x)" "\<not> is_ok (Inl e)"
  by (simp_all add: is_ok_def)

lemma is_ok_iff: "is_ok r \<longleftrightarrow> (\<exists>x. r = Inr x)"
  by (cases r) auto

text \<open>Running a list of fallible operations, stopping at the first fault.\<close>

fun foldR :: "('a \<Rightarrow> 's \<Rightarrow> 's res) \<Rightarrow> 'a list \<Rightarrow> 's \<Rightarrow> 's res" where
  "foldR f [] s = Inr s"
| "foldR f (x # xs) s = bindR (f x s) (foldR f xs)"

lemma foldR_append: "foldR f (xs @ ys) s = bindR (foldR f xs s) (foldR f ys)"
proof (induction xs arbitrary: s)
  case (Cons x xs)
  then show ?case by (cases "f x s") auto
qed simp

lemma foldR_invariant:
  assumes step: "\<And>x s. x \<in> set xs \<Longrightarrow> I s \<Longrightarrow> \<exists>s'. f x s = Inr s' \<and> I s'"
    and "I s"
  shows "\<exists>s'. foldR f xs s = Inr s' \<and> I s'"
  using assms
proof (induction xs arbitrary: s)
  case (Cons x xs)
  from Cons.prems obtain s' where "f x s = Inr s'" "I s'" by force
  with Cons.IH[of s'] Cons.prems(1) show ?case by auto
qed simp

lemma foldR_preserves:
  assumes "foldR f xs s = Inr s'" and "I s"
    and "\<And>x s s'. x \<in> set xs \<Longrightarrow> I s \<Longrightarrow> f x s = Inr s' \<Longrightarrow> I s'"
  shows "I s'"
  using assms
proof (induction xs arbitrary: s)
  case (Cons x xs)
  from Cons.prems(1) obtain t where t: "f x s = Inr t" "foldR f xs t = Inr s'"
    by (auto elim: bindR_InrE)
  have "I t" using Cons.prems(2,3) t(1) by auto
  with Cons.IH[OF t(2)] Cons.prems(3) show ?case by auto
qed simp

text \<open>Partial correctness up to a set of tolerated faults (a failed allocation, say): the result is
  one of these, or a value that satisfies \<open>P\<close>.\<close>

definition holds :: "fault set \<Rightarrow> 'a res \<Rightarrow> ('a \<Rightarrow> bool) \<Rightarrow> bool" where
  "holds F r P \<longleftrightarrow> (case r of Inl e \<Rightarrow> e \<in> F | Inr x \<Rightarrow> P x)"

lemma holds_Inr [simp]: "holds F (Inr x) P \<longleftrightarrow> P x"
  by (simp add: holds_def)

lemma holds_Inl [simp]: "holds F (Inl e) P \<longleftrightarrow> e \<in> F"
  by (simp add: holds_def)

lemma holds_bindR: "holds F m Q \<Longrightarrow> (\<And>x. Q x \<Longrightarrow> holds F (k x) P) \<Longrightarrow> holds F (bindR m k) P"
  by (cases m) auto

lemma holds_mono: "holds F r P \<Longrightarrow> (\<And>x. P x \<Longrightarrow> Q x) \<Longrightarrow> holds F r Q"
  by (cases r) auto

lemma holds_any:
  "(b \<Longrightarrow> holds UNIV r P) \<Longrightarrow> (\<not> b \<Longrightarrow> holds UNIV r' P) \<Longrightarrow> holds UNIV (if b then r else r') P"
  "(b \<Longrightarrow> holds UNIV r P) \<Longrightarrow> holds UNIV (ensure b l r) P"
  "(\<And>x. m = Inr x \<Longrightarrow> holds UNIV (k x) P) \<Longrightarrow> holds UNIV (bindR m k) P"
  by (simp_all add: ensure_def) (cases m; simp)

lemma holds_InrD: "holds F r P \<Longrightarrow> r = Inr x \<Longrightarrow> P x"
  by simp

lemma holds_foldR:
  assumes "\<And>x s. x \<in> set xs \<Longrightarrow> I s \<Longrightarrow> holds F (f x s) I" and "I s"
  shows "holds F (foldR f xs s) I"
  using assms
proof (induction xs arbitrary: s)
  case (Cons x xs)
  have "holds F (f x s) I" using Cons.prems by simp
  then show ?case using Cons by (auto intro: holds_bindR)
qed simp

subsection \<open>C integers\<close>

text \<open>
  Sizes are \<open>size_t\<close> values. They are modelled as \<open>nat\<close>; subtraction, the one
  operation the code uses that can leave the range of sizes of objects in memory, wraps
  modulo \<open>2^64\<close> as \<open>size_t\<close> does.
\<close>

definition size_sub :: "nat \<Rightarrow> nat \<Rightarrow> nat" where
  "size_sub a b = (if b \<le> a then a - b else 2 ^ 64 + a - b)"

lemma size_sub_le [simp]: "b \<le> a \<Longrightarrow> size_sub a b = a - b"
  by (simp add: size_sub_def)

text \<open>Conversion of a size to \<open>int\<close> keeps the low 32 bits as a two's complement value.\<close>

definition int32_of_size :: "nat \<Rightarrow> int" where
  "int32_of_size n = signed_take_bit 31 (int n)"

lemma int32_of_size_small: "n < 2 ^ 31 \<Longrightarrow> int32_of_size n = int n"
  by (simp add: int32_of_size_def signed_take_bit_int_eq_self)

text \<open>C's integer division and remainder truncate towards zero.\<close>

definition c_div :: "int \<Rightarrow> int \<Rightarrow> int" where
  "c_div a b = sgn a * sgn b * (\<bar>a\<bar> div \<bar>b\<bar>)"

definition c_mod :: "int \<Rightarrow> int \<Rightarrow> int" where
  "c_mod a b = sgn a * (\<bar>a\<bar> mod \<bar>b\<bar>)"

lemma c_div_nonneg [simp]: "0 \<le> a \<Longrightarrow> 0 < b \<Longrightarrow> c_div a b = a div b"
  by (cases "a = 0") (simp_all add: c_div_def)

lemma c_mod_nonneg [simp]: "0 \<le> a \<Longrightarrow> 0 < b \<Longrightarrow> c_mod a b = a mod b"
  by (cases "a = 0") (simp_all add: c_mod_def)

lemma c_div_c_mod: "b \<noteq> 0 \<Longrightarrow> c_div a b * b + c_mod a b = a"
proof -
  assume "b \<noteq> 0"
  have "c_div a b * b = sgn a * (\<bar>a\<bar> div \<bar>b\<bar> * \<bar>b\<bar>)"
    by (simp add: c_div_def abs_sgn ac_simps)
  then have "c_div a b * b + c_mod a b = sgn a * (\<bar>a\<bar> div \<bar>b\<bar> * \<bar>b\<bar> + \<bar>a\<bar> mod \<bar>b\<bar>)"
    by (simp only: c_mod_def distrib_left)
  then show ?thesis by (simp add: sgn_mult_abs)
qed

subsection \<open>Pieces of the C++ standard library\<close>

text \<open>\<open>std::find\<close> and \<open>std::search\<close> on the range a list holds: the offset of the
  first hit, or the length of the range (the end iterator).\<close>

fun std_find :: "'a \<Rightarrow> 'a list \<Rightarrow> nat" where
  "std_find c [] = 0"
| "std_find c (x # xs) = (if x = c then 0 else Suc (std_find c xs))"

fun std_search :: "'a list \<Rightarrow> 'a list \<Rightarrow> nat" where
  "std_search pat [] = 0"
| "std_search pat (x # xs) =
     (if take (length pat) (x # xs) = pat then 0 else Suc (std_search pat xs))"

text \<open>\<open>std::copy\<close> of \<open>d\<close> to offset \<open>i\<close> of an array; writing past its end is a bad access.\<close>

definition std_copy :: "'a list \<Rightarrow> nat \<Rightarrow> 'a list \<Rightarrow> 'a list res" where
  "std_copy d i xs =
     (if i + length d \<le> length xs then Inr (take i xs @ d @ drop (i + length d) xs)
      else Inl (BadAccess ''std::copy''))"

definition vec_resize :: "'a \<Rightarrow> nat \<Rightarrow> 'a list \<Rightarrow> 'a list" where
  "vec_resize z n xs = take n xs @ replicate (n - length xs) z"

lemma std_find_le [simp]: "std_find c xs \<le> length xs"
  by (induction xs) auto

lemma std_find_less_iff: "std_find c xs < length xs \<longleftrightarrow> c \<in> set xs"
  by (induction xs) auto

lemma std_find_neq_iff [simp]: "std_find c xs = length xs \<longleftrightarrow> c \<notin> set xs"
  using std_find_less_iff[of c xs] std_find_le[of c xs] by linarith

lemma nth_std_find: "c \<in> set xs \<Longrightarrow> xs ! std_find c xs = c"
  by (induction xs) auto

lemma std_find_before: "c \<notin> set (take (std_find c xs) xs)"
  by (induction xs) auto

lemma std_find_append [simp]: "c \<notin> set xs \<Longrightarrow> std_find c (xs @ ys) = length xs + std_find c ys"
  by (induction xs) auto

lemma std_find_split:
  "c \<in> set xs \<Longrightarrow> xs = take (std_find c xs) xs @ c # drop (Suc (std_find c xs)) xs"
  by (induction xs) auto

lemma std_search_le [simp]: "std_search pat xs \<le> length xs"
  by (induction xs) auto

lemma std_search_hit:
  "std_search pat xs < length xs \<Longrightarrow> take (length pat) (drop (std_search pat xs) xs) = pat"
  by (induction xs) (auto split: if_splits)

lemma std_search_first:
  "i < std_search pat xs \<Longrightarrow> take (length pat) (drop i xs) \<noteq> pat"
proof (induction xs arbitrary: i)
  case (Cons x xs)
  then show ?case by (cases i) (auto split: if_splits)
qed simp

lemma std_search_eqI:
  assumes "take (length pat) (drop i xs) = pat" and "i < length xs"
    and "\<And>j. j < i \<Longrightarrow> take (length pat) (drop j xs) \<noteq> pat"
  shows "std_search pat xs = i"
proof (rule ccontr)
  assume neq: "std_search pat xs \<noteq> i"
  show False
  proof (cases "std_search pat xs < i")
    case True
    with assms(2) have "std_search pat xs < length xs" by simp
    from std_search_hit[OF this] assms(3)[OF True] show False by simp
  next
    case False
    with neq have "i < std_search pat xs" by simp
    from std_search_first[OF this] assms(1) show False by simp
  qed
qed

lemma std_copy_ok [simp]:
  "i + length d \<le> length xs \<Longrightarrow> std_copy d i xs = Inr (take i xs @ d @ drop (i + length d) xs)"
  by (simp add: std_copy_def)

lemma count_list_distinct: "distinct xs \<Longrightarrow> count_list xs x = (if x \<in> set xs then 1 else 0)"
  by (induction xs) auto

lemma length_vec_resize [simp]: "length (vec_resize z n xs) = n"
  by (simp add: vec_resize_def)

lemma take_vec_resize: "m \<le> length xs \<Longrightarrow> m \<le> n \<Longrightarrow> take m (vec_resize z n xs) = take m xs"
  by (simp add: vec_resize_def min_def)

subsection \<open>Event systems\<close>

text \<open>Reachability from an initial predicate through a step relation, and the invariant rule
  the component theories use.\<close>

inductive reach :: "('s \<Rightarrow> bool) \<Rightarrow> ('s \<Rightarrow> 's \<Rightarrow> bool) \<Rightarrow> 's \<Rightarrow> bool"
  for init :: "'s \<Rightarrow> bool" and step :: "'s \<Rightarrow> 's \<Rightarrow> bool" where
  reach_init: "init s \<Longrightarrow> reach init step s"
| reach_step: "reach init step s \<Longrightarrow> step s t \<Longrightarrow> reach init step t"

lemma reach_invariant:
  assumes "reach init step s"
    and "\<And>s. init s \<Longrightarrow> I s"
    and "\<And>s t. I s \<Longrightarrow> step s t \<Longrightarrow> I t"
  shows "I s"
  using assms by (induction rule: reach.induct) auto

end
