(* ===== verification/Endian.thy ===== *)
theory Endian
  imports Muduo_Prelude
begin

text \<open>
  Byte order: the conversions of \<open>muduo/net/Endian.h\<close> and the memory image of an integer.
  The host is little-endian (x86-64 Linux), so \<open>htobe32\<close> and its kin reverse the bytes
  and the object representation of an integer lists its bytes from the least significant
  one. Bytes are \<open>char\<close>s, as in \<open>std::vector<char>\<close>.
\<close>

text \<open>The memory image of an integer of \<open>n\<close> bytes, and the integer a memory image holds.\<close>

definition store_le :: "nat \<Rightarrow> 'a::len word \<Rightarrow> char list" where
  "store_le n w = map (\<lambda>i. char_of (unat w div 256 ^ i)) [0..<n]"

fun bytes_nat :: "char list \<Rightarrow> nat" where
  "bytes_nat [] = 0"
| "bytes_nat (c # cs) = of_char c + 256 * bytes_nat cs"

definition load_le :: "char list \<Rightarrow> 'a::len word" where
  "load_le cs = word_of_nat (bytes_nat cs)"

definition hostToNetwork64 :: "64 word \<Rightarrow> 64 word" where
  "hostToNetwork64 host64 = load_le (rev (store_le 8 host64))"

definition hostToNetwork32 :: "32 word \<Rightarrow> 32 word" where
  "hostToNetwork32 host32 = load_le (rev (store_le 4 host32))"

definition hostToNetwork16 :: "16 word \<Rightarrow> 16 word" where
  "hostToNetwork16 host16 = load_le (rev (store_le 2 host16))"

definition networkToHost64 :: "64 word \<Rightarrow> 64 word" where
  "networkToHost64 net64 = load_le (rev (store_le 8 net64))"

definition networkToHost32 :: "32 word \<Rightarrow> 32 word" where
  "networkToHost32 net32 = load_le (rev (store_le 4 net32))"

definition networkToHost16 :: "16 word \<Rightarrow> 16 word" where
  "networkToHost16 net16 = load_le (rev (store_le 2 net16))"

subsection \<open>Memory images\<close>

lemma length_store_le [simp]: "length (store_le n w) = n"
  by (simp add: store_le_def)

lemma bytes_nat_less: "bytes_nat cs < 256 ^ length cs"
proof (induction cs)
  case (Cons c cs)
  define p where "p = (256::nat) ^ length cs"
  have "(of_char c :: nat) < 256" by simp
  moreover from Cons have "bytes_nat cs + 1 \<le> p" by (simp add: p_def)
  ultimately have "of_char c + 256 * bytes_nat cs < 256 * p" by linarith
  then show ?case by (simp add: p_def)
qed simp

lemma bytes_nat_digits: "bytes_nat (map (\<lambda>i. char_of (v div 256 ^ i)) [0..<n]) = v mod 256 ^ n"
proof (induction n arbitrary: v)
  case (Suc n)
  have "map (\<lambda>i. char_of (v div 256 ^ i) :: char) [0..<Suc n]
      = char_of v # map (\<lambda>i. char_of ((v div 256) div 256 ^ i)) [0..<n]"
    by (simp add: upt_conv_Cons map_Suc_upt[symmetric] div_mult2_eq comp_def del: upt_Suc)
  with Suc[of "v div 256"] show ?case
    by (simp add: mod_mult2_eq del: upt_Suc)
qed simp

lemma digit_bytes_nat:
  "i < length cs \<Longrightarrow> char_of (bytes_nat cs div 256 ^ i) = cs ! i"
proof (induction cs arbitrary: i)
  case (Cons c cs)
  show ?case
  proof (cases i)
    case 0
    have "char_of (of_char c + 256 * bytes_nat cs) = char_of (of_char c :: nat)"
      by (simp only: char_of_quasi_inj mod_mult_self2)
    with 0 show ?thesis by simp
  next
    case (Suc j)
    have "(of_char c + 256 * bytes_nat cs) div 256 = bytes_nat cs" by simp
    with Suc Cons show ?thesis by (simp add: div_mult2_eq)
  qed
qed simp

lemma power_256: "8 * n = m \<Longrightarrow> (256::nat) ^ n = 2 ^ m"
  using power_mult[of "2::nat" 8 n] by simp

lemma load_store_le [simp]:
  fixes w :: "'a::len word"
  assumes "8 * n = LENGTH('a)"
  shows "load_le (store_le n w) = w"
proof -
  have "unat w mod 256 ^ n = unat w"
    using unsigned_less[of w, where 'a = nat] by (simp add: power_256[OF assms])
  then show ?thesis
    by (simp add: load_le_def store_le_def bytes_nat_digits)
qed

lemma store_load_le [simp]:
  assumes "8 * n = LENGTH('a)" and "length cs = n"
  shows "store_le n (load_le cs :: 'a::len word) = cs"
proof (rule nth_equalityI)
  have "bytes_nat cs < 2 ^ LENGTH('a)"
    using bytes_nat_less[of cs] assms by (simp add: power_256[OF assms(1)])
  then have u: "unat (load_le cs :: 'a word) = bytes_nat cs"
    by (simp add: load_le_def unat_of_nat)
  fix i assume "i < length (store_le n (load_le cs :: 'a word))"
  then show "store_le n (load_le cs :: 'a word) ! i = cs ! i"
    using assms(2) by (simp add: store_le_def u digit_bytes_nat)
qed (use assms in simp)

subsection \<open>Conversions\<close>

text \<open>What \<open>append(&be32, 4)\<close> stores after \<open>hostToNetwork32\<close>: the big-endian image.\<close>

lemma store_hostToNetwork32 [simp]: "store_le 4 (hostToNetwork32 w) = rev (store_le 4 w)"
  by (simp add: hostToNetwork32_def)

lemma store_hostToNetwork16 [simp]: "store_le 2 (hostToNetwork16 w) = rev (store_le 2 w)"
  by (simp add: hostToNetwork16_def)

lemma store_hostToNetwork64 [simp]: "store_le 8 (hostToNetwork64 w) = rev (store_le 8 w)"
  by (simp add: hostToNetwork64_def)

lemma networkToHost_roundtrip [simp]:
  "networkToHost64 (hostToNetwork64 a) = a"
  "networkToHost32 (hostToNetwork32 b) = b"
  "networkToHost16 (hostToNetwork16 c) = c"
  by (simp_all add: networkToHost64_def networkToHost32_def networkToHost16_def)

lemma networkToHost32_load:
  "length cs = 4 \<Longrightarrow> networkToHost32 (load_le cs) = load_le (rev cs)"
  by (simp add: networkToHost32_def)

lemma networkToHost16_load:
  "length cs = 2 \<Longrightarrow> networkToHost16 (load_le cs) = load_le (rev cs)"
  by (simp add: networkToHost16_def)

end
