(* ===== verification/NetBuffer.thy ===== *)
theory NetBuffer
  imports Endian
begin

text \<open>
  \<open>muduo::net::Buffer\<close> (\<open>muduo/net/Buffer.h\<close>, \<open>Buffer.cc\<close>): a byte vector with a reader
  and a writer index. A pointer into the vector is modelled by its offset from
  \<open>begin()\<close>. \<open>readv(2)\<close> is the one system call: the bytes the peer has pending, or the
  error number, are an argument of \<open>readFd\<close>.

  The theorems show that every operation called within its documented precondition
  raises no fault and keeps \<open>buf_wf\<close>, and what it does to the readable bytes, so that the
  two-index implementation is a byte FIFO (locale \<open>byte_fifo\<close>) with cheap prepending.
\<close>

subsection \<open>State and operations\<close>

record netbuf =
  bufData :: "char list"
  readerIndex :: nat
  writerIndex :: nat

definition kCheapPrepend :: nat where "kCheapPrepend = 8"

definition kInitialSize :: nat where "kInitialSize = 1024"

definition nul :: char where "nul = CHR 0x00"

definition kCRLF :: "char list" where "kCRLF = [CHR 0x0D, CHR 0x0A]"

definition newBuffer :: netbuf where
  "newBuffer = \<lparr>bufData = replicate (kCheapPrepend + kInitialSize) nul,
     readerIndex = kCheapPrepend, writerIndex = kCheapPrepend\<rparr>"

definition buf_swap :: "netbuf \<times> netbuf \<Rightarrow> netbuf \<times> netbuf" where
  "buf_swap p = (case p of (a, b) \<Rightarrow>
     (a\<lparr>bufData := bufData b, readerIndex := readerIndex b, writerIndex := writerIndex b\<rparr>,
      b\<lparr>bufData := bufData a, readerIndex := readerIndex a, writerIndex := writerIndex a\<rparr>))"

definition readableBytes :: "netbuf \<Rightarrow> nat" where
  "readableBytes b = size_sub (writerIndex b) (readerIndex b)"

definition writableBytes :: "netbuf \<Rightarrow> nat" where
  "writableBytes b = size_sub (length (bufData b)) (writerIndex b)"

definition prependableBytes :: "netbuf \<Rightarrow> nat" where
  "prependableBytes b = readerIndex b"

definition peek :: "netbuf \<Rightarrow> nat" where
  "peek b = readerIndex b"

definition beginWrite :: "netbuf \<Rightarrow> nat" where
  "beginWrite b = writerIndex b"

text \<open>The bytes of the range \<open>[from, to)\<close> of the vector.\<close>

definition range_at :: "netbuf \<Rightarrow> nat \<Rightarrow> nat \<Rightarrow> char list" where
  "range_at b from to = take (to - from) (drop from (bufData b))"

definition findCRLF :: "netbuf \<Rightarrow> nat option" where
  "findCRLF b =
     (let crlf = peek b + std_search kCRLF (range_at b (peek b) (beginWrite b))
      in if crlf = beginWrite b then None else Some crlf)"

definition findCRLF_from :: "netbuf \<Rightarrow> nat \<Rightarrow> nat option res" where
  "findCRLF_from b start =
     ensure (peek b \<le> start) ''findCRLF: peek() <= start''
    (ensure (start \<le> beginWrite b) ''findCRLF: start <= beginWrite()''
    (let crlf = start + std_search kCRLF (range_at b start (beginWrite b))
     in Inr (if crlf = beginWrite b then None else Some crlf)))"

definition retrieveAll :: "netbuf \<Rightarrow> netbuf" where
  "retrieveAll b = b\<lparr>readerIndex := kCheapPrepend, writerIndex := kCheapPrepend\<rparr>"

definition retrieve :: "netbuf \<Rightarrow> nat \<Rightarrow> netbuf res" where
  "retrieve b len =
     ensure (len \<le> readableBytes b) ''retrieve: len <= readableBytes()''
     (Inr (if len < readableBytes b then b\<lparr>readerIndex := readerIndex b + len\<rparr>
           else retrieveAll b))"

definition retrieveUntil :: "netbuf \<Rightarrow> nat \<Rightarrow> netbuf res" where
  "retrieveUntil b end =
     ensure (peek b \<le> end) ''retrieveUntil: peek() <= end''
    (ensure (end \<le> beginWrite b) ''retrieveUntil: end <= beginWrite()''
     (retrieve b (end - peek b)))"

definition retrieveInt32 :: "netbuf \<Rightarrow> netbuf res" where
  "retrieveInt32 b = retrieve b 4"

definition retrieveInt16 :: "netbuf \<Rightarrow> netbuf res" where
  "retrieveInt16 b = retrieve b 2"

definition retrieveInt8 :: "netbuf \<Rightarrow> netbuf res" where
  "retrieveInt8 b = retrieve b 1"

definition retrieveAsString :: "netbuf \<Rightarrow> nat \<Rightarrow> (char list \<times> netbuf) res" where
  "retrieveAsString b len =
     ensure (len \<le> readableBytes b) ''retrieveAsString: len <= readableBytes()''
     (let result = range_at b (peek b) (peek b + len)
      in bindR (retrieve b len) (\<lambda>b'. Inr (result, b')))"

definition retrieveAllAsString :: "netbuf \<Rightarrow> (char list \<times> netbuf) res" where
  "retrieveAllAsString b = retrieveAsString b (readableBytes b)"

definition makeSpace :: "netbuf \<Rightarrow> nat \<Rightarrow> netbuf res" where
  "makeSpace b len =
     (if writableBytes b + prependableBytes b < len + kCheapPrepend
      then Inr (b\<lparr>bufData := vec_resize nul (writerIndex b + len) (bufData b)\<rparr>)
      else
        ensure (kCheapPrepend < readerIndex b) ''makeSpace: kCheapPrepend < readerIndex_''
        (let readable = readableBytes b in
         bindR (std_copy (range_at b (readerIndex b) (writerIndex b)) kCheapPrepend (bufData b))
         (\<lambda>d. let b' = b\<lparr>bufData := d, readerIndex := kCheapPrepend,
                         writerIndex := kCheapPrepend + readable\<rparr>
              in ensure (readable = readableBytes b') ''makeSpace: readable == readableBytes()''
                 (Inr b'))))"

definition ensureWritableBytes :: "netbuf \<Rightarrow> nat \<Rightarrow> netbuf res" where
  "ensureWritableBytes b len =
     bindR (if writableBytes b < len then makeSpace b len else Inr b)
     (\<lambda>b'. ensure (len \<le> writableBytes b') ''ensureWritableBytes: writableBytes() >= len''
             (Inr b'))"

definition hasWritten :: "netbuf \<Rightarrow> nat \<Rightarrow> netbuf" where
  "hasWritten b len = b\<lparr>writerIndex := writerIndex b + len\<rparr>"

definition bufAppend :: "netbuf \<Rightarrow> char list \<Rightarrow> netbuf res" where
  "bufAppend b data =
     bindR (ensureWritableBytes b (length data)) (\<lambda>b'.
     bindR (std_copy data (beginWrite b') (bufData b')) (\<lambda>d.
     Inr (hasWritten (b'\<lparr>bufData := d\<rparr>) (length data))))"

definition prepend :: "netbuf \<Rightarrow> char list \<Rightarrow> netbuf res" where
  "prepend b data =
     ensure (length data \<le> prependableBytes b) ''prepend: len <= prependableBytes()''
     (let b' = b\<lparr>readerIndex := readerIndex b - length data\<rparr> in
      bindR (std_copy data (readerIndex b') (bufData b')) (\<lambda>d. Inr (b'\<lparr>bufData := d\<rparr>)))"

definition appendInt32 :: "netbuf \<Rightarrow> 32 word \<Rightarrow> netbuf res" where
  "appendInt32 b x = bufAppend b (store_le 4 (hostToNetwork32 x))"

definition appendInt16 :: "netbuf \<Rightarrow> 16 word \<Rightarrow> netbuf res" where
  "appendInt16 b x = bufAppend b (store_le 2 (hostToNetwork16 x))"

definition appendInt8 :: "netbuf \<Rightarrow> 8 word \<Rightarrow> netbuf res" where
  "appendInt8 b x = bufAppend b (store_le 1 x)"

definition peekInt32 :: "netbuf \<Rightarrow> 32 word res" where
  "peekInt32 b =
     ensure (4 \<le> readableBytes b) ''peekInt32: readableBytes() >= sizeof(int32_t)''
     (Inr (networkToHost32 (load_le (range_at b (peek b) (peek b + 4)))))"

definition peekInt16 :: "netbuf \<Rightarrow> 16 word res" where
  "peekInt16 b =
     ensure (2 \<le> readableBytes b) ''peekInt16: readableBytes() >= sizeof(int16_t)''
     (Inr (networkToHost16 (load_le (range_at b (peek b) (peek b + 2)))))"

definition peekInt8 :: "netbuf \<Rightarrow> 8 word res" where
  "peekInt8 b =
     ensure (1 \<le> readableBytes b) ''peekInt8: readableBytes() >= sizeof(int8_t)''
     (Inr (load_le (range_at b (peek b) (peek b + 1))))"

definition readInt32 :: "netbuf \<Rightarrow> (32 word \<times> netbuf) res" where
  "readInt32 b = bindR (peekInt32 b) (\<lambda>x. bindR (retrieveInt32 b) (\<lambda>b'. Inr (x, b')))"

definition readInt16 :: "netbuf \<Rightarrow> (16 word \<times> netbuf) res" where
  "readInt16 b = bindR (peekInt16 b) (\<lambda>x. bindR (retrieveInt16 b) (\<lambda>b'. Inr (x, b')))"

definition readInt8 :: "netbuf \<Rightarrow> (8 word \<times> netbuf) res" where
  "readInt8 b = bindR (peekInt8 b) (\<lambda>x. bindR (retrieveInt8 b) (\<lambda>b'. Inr (x, b')))"

definition prependInt32 :: "netbuf \<Rightarrow> 32 word \<Rightarrow> netbuf res" where
  "prependInt32 b x = prepend b (store_le 4 (hostToNetwork32 x))"

definition prependInt16 :: "netbuf \<Rightarrow> 16 word \<Rightarrow> netbuf res" where
  "prependInt16 b x = prepend b (store_le 2 (hostToNetwork16 x))"

definition prependInt8 :: "netbuf \<Rightarrow> 8 word \<Rightarrow> netbuf res" where
  "prependInt8 b x = prepend b (store_le 1 x)"

text \<open>
  \<open>toStringPiece()\<close> converts the length to \<open>int\<close>. \<open>append\<close> of a piece whose length came
  out negative asks for more memory than \<open>vector::max_size()\<close>, which throws.
\<close>

definition toStringPiece :: "netbuf \<Rightarrow> nat \<times> int" where
  "toStringPiece b = (peek b, int32_of_size (readableBytes b))"

definition append_piece :: "netbuf \<Rightarrow> netbuf \<Rightarrow> nat \<times> int \<Rightarrow> netbuf res" where
  "append_piece b src piece = (case piece of (p, n) \<Rightarrow>
     if n < 0 then Inl (Thrown ''std::length_error'')
     else bufAppend b (range_at src p (p + nat n)))"

definition shrink :: "netbuf \<Rightarrow> nat \<Rightarrow> netbuf res" where
  "shrink b reserve =
     bindR (ensureWritableBytes newBuffer (readableBytes b + reserve)) (\<lambda>other.
     bindR (append_piece other b (toStringPiece b)) (\<lambda>other'.
     Inr (fst (buf_swap (b, other')))))"

text \<open>What \<open>readv\<close> found: an error number, or the bytes pending on the descriptor, of which it
  takes as many as the two blocks hold.\<close>

datatype read_result = ReadError int | ReadPending "char list"

definition extrabuf_size :: nat where "extrabuf_size = 65536"

text \<open>Result: the value \<open>readFd\<close> returns, the error number it saves, the buffer after.\<close>

definition readFd :: "netbuf \<Rightarrow> read_result \<Rightarrow> (int \<times> int option \<times> netbuf) res" where
  "readFd b r =
     (let writable = writableBytes b in
      case r of
        ReadError e \<Rightarrow> Inr (- 1, Some e, b)
      | ReadPending pending \<Rightarrow>
          (let got = take (writable + extrabuf_size) pending;
               n = length got;
               first = take writable got;
               extra = drop writable got
           in bindR (std_copy first (writerIndex b) (bufData b)) (\<lambda>d.
              let b1 = b\<lparr>bufData := d\<rparr> in
              if n \<le> writable
              then Inr (int n, None, b1\<lparr>writerIndex := writerIndex b + n\<rparr>)
              else bindR (bufAppend (b1\<lparr>writerIndex := length (bufData b1)\<rparr>) extra) (\<lambda>b2.
                   Inr (int n, None, b2)))))"


subsection \<open>Invariant and abstraction\<close>

text \<open>\<open>0 <= readerIndex <= writerIndex <= size\<close>, as the class comment draws it, and room for
  the cheap prepend.\<close>

definition buf_wf :: "netbuf \<Rightarrow> bool" where
  "buf_wf b \<longleftrightarrow> readerIndex b \<le> writerIndex b \<and> writerIndex b \<le> length (bufData b)
     \<and> kCheapPrepend \<le> length (bufData b)"

definition readable :: "netbuf \<Rightarrow> char list" where
  "readable b = range_at b (readerIndex b) (writerIndex b)"

lemmas buf_consts = kCheapPrepend_def kInitialSize_def extrabuf_size_def

lemma buf_wfD:
  assumes "buf_wf b"
  shows "readerIndex b \<le> writerIndex b" "writerIndex b \<le> length (bufData b)"
    "kCheapPrepend \<le> length (bufData b)"
    "readableBytes b = writerIndex b - readerIndex b"
    "writableBytes b = length (bufData b) - writerIndex b"
  using assms by (simp_all add: buf_wf_def readableBytes_def writableBytes_def)

lemma length_readable [simp]: "buf_wf b \<Longrightarrow> length (readable b) = readableBytes b"
  by (auto simp: readable_def range_at_def buf_wf_def readableBytes_def)

lemma readableBytes_readable: "buf_wf b \<Longrightarrow> readableBytes b = length (readable b)"
  by simp

lemma readable_swap:
  assumes "buf_swap (a, b) = (a', b')"
  shows "readable a' = readable b" "readable b' = readable a"
    "buf_wf b \<Longrightarrow> buf_wf a'" "buf_wf a \<Longrightarrow> buf_wf b'"
  using assms by (auto simp: buf_swap_def readable_def range_at_def buf_wf_def)

text \<open>A prefix of the readable bytes, as the code reads it through \<open>peek()\<close>.\<close>

lemma range_at_peek:
  assumes "buf_wf b" "n \<le> readableBytes b"
  shows "range_at b (peek b) (peek b + n) = take n (readable b)"
  using assms by (simp add: range_at_def peek_def readable_def buf_wfD min_def)

lemma range_at_sub:
  assumes "buf_wf b" "i \<le> j" "j \<le> readableBytes b"
  shows "range_at b (peek b + i) (peek b + j) = drop i (take j (readable b))"
  using assms by (simp add: range_at_def peek_def readable_def buf_wfD drop_take add.commute)

lemma newBuffer_wf [simp]: "buf_wf newBuffer"
  by (simp add: buf_wf_def newBuffer_def buf_consts)

lemma newBuffer_readable [simp]: "readable newBuffer = []"
  by (simp add: readable_def range_at_def newBuffer_def)

lemma newBuffer_indices [simp]:
  "readerIndex newBuffer = kCheapPrepend" "readableBytes newBuffer = 0"
  "writableBytes newBuffer = kInitialSize" "prependableBytes newBuffer = kCheapPrepend"
  by (simp_all add: newBuffer_def readableBytes_def writableBytes_def prependableBytes_def)

lemma retrieveAll_ok [simp]:
  "buf_wf b \<Longrightarrow> buf_wf (retrieveAll b)" "readable (retrieveAll b) = []"
  by (simp_all add: retrieveAll_def buf_wf_def readable_def range_at_def)

subsection \<open>Behaviour of the operations\<close>

lemma retrieve_ok:
  assumes "buf_wf b" "len \<le> length (readable b)"
  obtains b' where "retrieve b len = Inr b'" "buf_wf b'" "readable b' = drop len (readable b)"
    "kCheapPrepend \<le> readerIndex b \<Longrightarrow> kCheapPrepend \<le> readerIndex b'"
proof -
  have len: "len \<le> readableBytes b" using assms by simp
  show thesis
  proof (cases "len < readableBytes b")
    case True
    let ?b = "b\<lparr>readerIndex := readerIndex b + len\<rparr>"
    show thesis
    proof (rule that[of ?b])
      show "retrieve b len = Inr ?b" using True by (simp add: retrieve_def)
      show "buf_wf ?b" using True assms(1) buf_wfD(4)[OF assms(1)] by (simp add: buf_wf_def)
      show "readable ?b = drop len (readable b)"
        by (simp add: readable_def range_at_def drop_take add.commute)
    qed simp
  next
    case False
    then have all: "retrieve b len = Inr (retrieveAll b)" "length (readable b) \<le> len"
      using len assms(1) by (auto simp: retrieve_def)
    show thesis
      by (rule that[of "retrieveAll b"]) (use all assms(1) in \<open>simp_all, simp add: retrieveAll_def\<close>)
  qed
qed

lemma retrieveUntil_ok:
  assumes "buf_wf b" "peek b + n = e" "n \<le> length (readable b)"
  obtains b' where "retrieveUntil b e = Inr b'" "buf_wf b'" "readable b' = drop n (readable b)"
    "kCheapPrepend \<le> readerIndex b \<Longrightarrow> kCheapPrepend \<le> readerIndex b'"
proof -
  have "peek b \<le> e" "e \<le> beginWrite b" "e - peek b = n"
    using assms buf_wfD(1,4)[OF assms(1)] by (auto simp: peek_def beginWrite_def)
  then have "retrieveUntil b e = retrieve b n" by (simp add: retrieveUntil_def)
  with retrieve_ok[OF assms(1,3)] that show thesis by metis
qed

lemma retrieveAsString_ok:
  assumes "buf_wf b" "len \<le> length (readable b)"
  obtains b' where "retrieveAsString b len = Inr (take len (readable b), b')" "buf_wf b'"
    "readable b' = drop len (readable b)"
proof -
  obtain b' where b': "retrieve b len = Inr b'" "buf_wf b'" "readable b' = drop len (readable b)"
    using retrieve_ok[OF assms] by metis
  show thesis
    by (rule that[of b'])
       (use assms b' in \<open>auto simp: retrieveAsString_def range_at_peek Let_def\<close>)
qed

lemma makeSpace_ok:
  assumes wf: "buf_wf b" and need: "writableBytes b < len"
  obtains b' where "makeSpace b len = Inr b'" "buf_wf b'" "readable b' = readable b"
    "len \<le> writableBytes b'" "kCheapPrepend \<le> readerIndex b \<Longrightarrow> kCheapPrepend \<le> readerIndex b'"
proof (cases "writableBytes b + prependableBytes b < len + kCheapPrepend")
  case True
  let ?b = "b\<lparr>bufData := vec_resize nul (writerIndex b + len) (bufData b)\<rparr>"
  have grow: "length (bufData b) \<le> writerIndex b + len" using need wf by (simp add: buf_wfD)
  show thesis
  proof (rule that[of ?b])
    show "makeSpace b len = Inr ?b" using True by (simp add: makeSpace_def)
    show "buf_wf ?b" using wf grow by (auto simp: buf_wf_def)
    have "take (writerIndex b) (vec_resize nul (writerIndex b + len) (bufData b))
        = take (writerIndex b) (bufData b)"
      using wf by (intro take_vec_resize) (auto simp: buf_wf_def)
    then show "readable ?b = readable b"
      by (simp add: readable_def range_at_def take_drop[symmetric] drop_take[symmetric])
    show "len \<le> writableBytes ?b" by (simp add: writableBytes_def)
  qed simp
next
  case False
  then have r: "kCheapPrepend < readerIndex b"
    using need by (simp add: prependableBytes_def)
  let ?d = "take kCheapPrepend (bufData b) @ readable b
              @ drop (kCheapPrepend + readableBytes b) (bufData b)"
  let ?b = "b\<lparr>bufData := ?d, readerIndex := kCheapPrepend,
              writerIndex := kCheapPrepend + readableBytes b\<rparr>"
  have fits: "kCheapPrepend + readableBytes b \<le> length (bufData b)"
    using buf_wfD(1,2,4)[OF wf] r by linarith
  have lenb: "length ?d = length (bufData b)" using fits wf by simp
  show thesis
  proof (rule that[of ?b])
    show "makeSpace b len = Inr ?b"
      using False r fits wf
      by (simp add: makeSpace_def Let_def readable_def[symmetric] readableBytes_def)
    show "buf_wf ?b" using wf fits lenb by (simp add: buf_wf_def)
    show "readable ?b = readable b"
      using wf fits by (simp add: readable_def[of ?b] range_at_def min_def buf_wf_def)
    show "len \<le> writableBytes ?b"
    proof -
      have "writableBytes ?b = length (bufData b) - (kCheapPrepend + readableBytes b)"
        using lenb fits by (simp add: writableBytes_def)
      with False buf_wfD[OF wf] show ?thesis by (simp add: prependableBytes_def)
    qed
  qed simp
qed

lemma ensureWritableBytes_ok:
  assumes "buf_wf b"
  obtains b' where "ensureWritableBytes b len = Inr b'" "buf_wf b'" "readable b' = readable b"
    "len \<le> writableBytes b'" "kCheapPrepend \<le> readerIndex b \<Longrightarrow> kCheapPrepend \<le> readerIndex b'"
proof (cases "writableBytes b < len")
  case True
  obtain b' where b': "makeSpace b len = Inr b'" "buf_wf b'" "readable b' = readable b"
    "len \<le> writableBytes b'" "kCheapPrepend \<le> readerIndex b \<Longrightarrow> kCheapPrepend \<le> readerIndex b'"
    using makeSpace_ok[OF assms True] by metis
  show thesis by (rule that[of b']) (use True b' in \<open>auto simp: ensureWritableBytes_def\<close>)
next
  case False
  show thesis by (rule that[of b]) (use False assms in \<open>auto simp: ensureWritableBytes_def\<close>)
qed

lemma readable_write:
  assumes "buf_wf b" "writerIndex b + length d \<le> length (bufData b)"
  shows "readable (b\<lparr>bufData := take (writerIndex b) (bufData b) @ d
            @ drop (writerIndex b + length d) (bufData b), writerIndex := writerIndex b + length d\<rparr>)
       = readable b @ d"
proof -
  have w: "writerIndex b + length d - readerIndex b = (writerIndex b - readerIndex b) + length d"
    using assms(1) by (simp add: buf_wf_def)
  have "readerIndex b \<le> writerIndex b" "writerIndex b \<le> length (bufData b)"
    using assms(1) by (simp_all add: buf_wf_def)
  with w show ?thesis
    by (simp add: readable_def range_at_def min_absorb2 drop_take)
qed

lemma bufAppend_ok:
  assumes "buf_wf b"
  obtains b' where "bufAppend b d = Inr b'" "buf_wf b'" "readable b' = readable b @ d"
    "kCheapPrepend \<le> readerIndex b \<Longrightarrow> kCheapPrepend \<le> readerIndex b'"
proof -
  obtain b1 where b1: "ensureWritableBytes b (length d) = Inr b1" "buf_wf b1"
      "readable b1 = readable b" "length d \<le> writableBytes b1"
      "kCheapPrepend \<le> readerIndex b \<Longrightarrow> kCheapPrepend \<le> readerIndex b1"
    using ensureWritableBytes_ok[OF assms] by metis
  have fits: "writerIndex b1 + length d \<le> length (bufData b1)"
    using b1(4) buf_wfD(2,5)[OF b1(2)] by linarith
  let ?b = "b1\<lparr>bufData := take (writerIndex b1) (bufData b1) @ d
              @ drop (writerIndex b1 + length d) (bufData b1), writerIndex := writerIndex b1 + length d\<rparr>"
  show thesis
  proof (rule that[of ?b])
    show "bufAppend b d = Inr ?b"
      using b1(1) fits by (simp add: bufAppend_def beginWrite_def hasWritten_def)
    show "buf_wf ?b" using b1(2) fits by (auto simp: buf_wf_def)
    show "readable ?b = readable b @ d" using readable_write[OF b1(2) fits] b1(3) by simp
    show "kCheapPrepend \<le> readerIndex b \<Longrightarrow> kCheapPrepend \<le> readerIndex ?b" using b1(5) by simp
  qed
qed

lemma prepend_ok:
  assumes "buf_wf b" "length d \<le> prependableBytes b"
  obtains b' where "prepend b d = Inr b'" "buf_wf b'" "readable b' = d @ readable b"
proof -
  let ?r = "readerIndex b - length d"
  have r: "?r + length d = readerIndex b" "readerIndex b \<le> length (bufData b)"
    using assms by (auto simp: prependableBytes_def buf_wf_def)
  let ?b = "b\<lparr>readerIndex := ?r, bufData := take ?r (bufData b) @ d @ drop (readerIndex b) (bufData b)\<rparr>"
  show thesis
  proof (rule that[of ?b])
    show "prepend b d = Inr ?b"
      using assms r by (simp add: prepend_def Let_def)
    show "buf_wf ?b" using assms(1) r by (auto simp: buf_wf_def)
    have "writerIndex b - ?r = length d + (writerIndex b - readerIndex b)"
      using assms(1) r by (simp add: buf_wf_def)
    with r show "readable ?b = d @ readable b"
      by (simp add: readable_def range_at_def min_def)
  qed
qed

lemma readable_append_swap [simp]:
  "readable (b\<lparr>bufData := d, readerIndex := r, writerIndex := w\<rparr>) = take (w - r) (drop r d)"
  by (simp add: readable_def range_at_def)

lemma shrink_ok:
  assumes "buf_wf b" "readableBytes b < 2 ^ 31"
  obtains b' where "shrink b reserve = Inr b'" "buf_wf b'" "readable b' = readable b"
proof -
  obtain o1 where o1: "ensureWritableBytes newBuffer (readableBytes b + reserve) = Inr o1" "buf_wf o1"
      "readable o1 = []"
    using ensureWritableBytes_ok[OF newBuffer_wf] newBuffer_readable by metis
  have whole: "range_at b (peek b) (peek b + readableBytes b) = readable b"
    using range_at_peek[OF assms(1), of "readableBytes b"] assms(1) by simp
  obtain o2 where o2: "bufAppend o1 (readable b) = Inr o2" "buf_wf o2"
      "readable o2 = readable o1 @ readable b"
    using bufAppend_ok[OF o1(2)] by metis
  have "append_piece o1 b (toStringPiece b) = Inr o2"
    using o2(1) whole assms(2) by (simp add: append_piece_def toStringPiece_def int32_of_size_small)
  with o1(1) have "shrink b reserve = Inr (fst (buf_swap (b, o2)))"
    by (simp add: shrink_def)
  then show thesis
    using readable_swap[of b o2, OF surjective_pairing] o1(3) o2
    by (intro that[of "fst (buf_swap (b, o2))"]) simp_all
qed

lemma readFd_ok:
  assumes wf: "buf_wf b"
  obtains b' where
    "readFd b (ReadPending p) = Inr (int (length (take (writableBytes b + extrabuf_size) p)), None, b')"
    "buf_wf b'" "readable b' = readable b @ take (writableBytes b + extrabuf_size) p"
proof -
  define got where "got = take (writableBytes b + extrabuf_size) p"
  define f where "f = take (writableBytes b) got"
  define e where "e = drop (writableBytes b) got"
  let ?d = "take (writerIndex b) (bufData b) @ f @ drop (writerIndex b + length f) (bufData b)"
  let ?b1 = "b\<lparr>bufData := ?d, writerIndex := writerIndex b + length f\<rparr>"
  have run: "readFd b (ReadPending p) =
      bindR (std_copy f (writerIndex b) (bufData b)) (\<lambda>d.
        if length got \<le> writableBytes b
        then Inr (int (length got), None, b\<lparr>bufData := d, writerIndex := writerIndex b + length got\<rparr>)
        else bindR (bufAppend (b\<lparr>bufData := d, writerIndex := length d\<rparr>) e)
               (\<lambda>b2. Inr (int (length got), None, b2)))"
    by (simp add: readFd_def Let_def got_def f_def e_def cong: if_cong)
  have fits: "writerIndex b + length f \<le> length (bufData b)"
    using buf_wfD(2,5)[OF wf] by (simp add: f_def)
  have b1: "buf_wf ?b1" "readable ?b1 = readable b @ f"
    using wf fits readable_write[OF wf fits] by (simp_all add: buf_wf_def)
  have parts: "f @ e = got" by (simp add: f_def e_def)
  have "\<exists>b'. readFd b (ReadPending p) = Inr (int (length got), None, b') \<and> buf_wf b'
      \<and> readable b' = readable b @ got"
  proof (cases "length got \<le> writableBytes b")
    case True
    then have "f = got" by (simp add: f_def)
    with True fits b1 show ?thesis by (simp add: run)
  next
    case False
    then have "writerIndex b + length f = length ?d"
      using fits buf_wfD(2,5)[OF wf] by (simp add: f_def)
    moreover obtain b2 where "bufAppend ?b1 e = Inr b2" "buf_wf b2" "readable b2 = readable ?b1 @ e"
      using bufAppend_ok[OF b1(1)] by metis
    ultimately show ?thesis using False fits b1(2) parts by (simp add: run)
  qed
  with that show thesis by (auto simp: got_def)
qed

lemma readFd_error: "readFd b (ReadError e) = Inr (- 1, Some e, b)"
  by (simp add: readFd_def)

subsection \<open>Integers in network byte order\<close>

lemma peekInt32_ok:
  assumes "buf_wf b" "4 \<le> length (readable b)"
  shows "peekInt32 b = Inr (load_le (rev (take 4 (readable b))))"
  using assms by (simp add: peekInt32_def range_at_peek networkToHost32_load min_def)

lemma peekInt16_ok:
  assumes "buf_wf b" "2 \<le> length (readable b)"
  shows "peekInt16 b = Inr (load_le (rev (take 2 (readable b))))"
  using assms range_at_peek[OF assms(1), of 2]
  by (simp add: peekInt16_def networkToHost16_load min_def)

lemma peekInt8_ok:
  assumes "buf_wf b" "1 \<le> length (readable b)"
  shows "peekInt8 b = Inr (load_le (take 1 (readable b)))"
  using assms range_at_peek[OF assms(1), of 1] by (simp add: peekInt8_def)

lemma peekInt32_prefix:
  "buf_wf b \<Longrightarrow> readable b = rev (store_le 4 x) @ rest \<Longrightarrow> peekInt32 b = Inr x"
  by (subst peekInt32_ok) auto

lemma peekInt16_prefix:
  "buf_wf b \<Longrightarrow> readable b = rev (store_le 2 x) @ rest \<Longrightarrow> peekInt16 b = Inr x"
  by (subst peekInt16_ok) auto

lemma peekInt8_prefix:
  "buf_wf b \<Longrightarrow> readable b = store_le 1 x @ rest \<Longrightarrow> peekInt8 b = Inr x"
  by (subst peekInt8_ok) auto

subsection \<open>Line ends\<close>

definition find_crlf :: "char list \<Rightarrow> nat option" where
  "find_crlf xs = (let i = std_search kCRLF xs in if i = length xs then None else Some i)"

lemma findCRLF_readable:
  assumes "buf_wf b"
  shows "findCRLF b = map_option (\<lambda>n. peek b + n) (find_crlf (readable b))"
  using buf_wfD(1,4)[OF assms] length_readable[OF assms]
  by (auto simp: findCRLF_def find_crlf_def Let_def readable_def[symmetric] peek_def beginWrite_def)

lemma findCRLF_from_readable:
  assumes "buf_wf b" "n \<le> length (readable b)"
  shows "findCRLF_from b (peek b + n)
       = Inr (map_option (\<lambda>k. peek b + n + k) (find_crlf (drop n (readable b))))"
proof -
  have w: "writerIndex b = readerIndex b + length (readable b)"
    using buf_wfD(1,4)[OF assms(1)] length_readable[OF assms(1)] by simp
  have "range_at b (peek b + n) (beginWrite b) = drop n (readable b)"
    by (simp add: range_at_def readable_def peek_def beginWrite_def drop_take add.commute)
  with assms(2) w show ?thesis
    by (auto simp: findCRLF_from_def find_crlf_def Let_def peek_def beginWrite_def)
qed

lemma find_crlf_Some:
  assumes "find_crlf xs = Some n"
  shows "n + 2 \<le> length xs" "take 2 (drop n xs) = kCRLF"
    "\<And>j. j < n \<Longrightarrow> take 2 (drop j xs) \<noteq> kCRLF"
    "xs = take n xs @ kCRLF @ drop (n + 2) xs"
proof -
  have n: "std_search kCRLF xs = n" "n < length xs"
    using assms std_search_le[of kCRLF xs]
    by (auto simp: find_crlf_def Let_def le_less split: if_splits)
  have len: "length kCRLF = 2" by (simp add: kCRLF_def)
  show hit: "take 2 (drop n xs) = kCRLF"
    using std_search_hit[of kCRLF xs] n by (simp add: len)
  have "length (take 2 (drop n xs)) = 2" using hit len by simp
  then show "n + 2 \<le> length xs" by simp
  show "\<And>j. j < n \<Longrightarrow> take 2 (drop j xs) \<noteq> kCRLF"
    using std_search_first[of _ kCRLF xs] n len by auto
  show "xs = take n xs @ kCRLF @ drop (n + 2) xs"
  proof -
    have "drop n xs = kCRLF @ drop (n + 2) xs"
      using append_take_drop_id[of 2 "drop n xs"] hit by (simp add: add.commute)
    then show ?thesis using append_take_drop_id[of n xs] by metis
  qed
qed

lemma find_crlf_line:
  assumes "CHR 0x0D \<notin> set line"
  shows "find_crlf (line @ kCRLF @ rest) = Some (length line)"
proof -
  have "std_search kCRLF (line @ kCRLF @ rest) = length line"
    using assms by (induction line) (auto simp: kCRLF_def)
  then show ?thesis by (simp add: find_crlf_def kCRLF_def)
qed

subsection \<open>The FIFO interface\<close>

locale byte_fifo =
  fixes empty :: 'b
    and append :: "'b \<Rightarrow> char list \<Rightarrow> 'b res"
    and retrieve :: "'b \<Rightarrow> nat \<Rightarrow> 'b res"
    and content :: "'b \<Rightarrow> char list"
    and inv :: "'b \<Rightarrow> bool"
  assumes inv_empty: "inv empty"
    and content_empty: "content empty = []"
    and append_law: "inv b \<Longrightarrow> \<exists>b'. append b d = Inr b' \<and> inv b' \<and> content b' = content b @ d"
    and retrieve_law: "inv b \<Longrightarrow> n \<le> length (content b) \<Longrightarrow>
          \<exists>b'. retrieve b n = Inr b' \<and> inv b' \<and> content b' = drop n (content b)"
begin

lemma append_inv: "inv b \<Longrightarrow> append b d = Inr b' \<Longrightarrow> inv b' \<and> content b' = content b @ d"
  using append_law[of b d] by auto

lemma retrieve_inv:
  "inv b \<Longrightarrow> n \<le> length (content b) \<Longrightarrow> retrieve b n = Inr b'
     \<Longrightarrow> inv b' \<and> content b' = drop n (content b)"
  using retrieve_law[of b n] by auto

lemma appends_content:
  "inv b \<Longrightarrow> \<exists>b'. foldR (\<lambda>d b. append b d) ds b = Inr b' \<and> inv b' \<and> content b' = content b @ concat ds"
proof (induction ds arbitrary: b)
  case (Cons d ds)
  obtain b1 where b1: "append b d = Inr b1" "inv b1" "content b1 = content b @ d"
    using append_law[OF Cons.prems, of d] by auto
  from Cons.IH[OF b1(2)] b1 show ?case by auto
qed simp

lemma fifo_order:
  assumes "inv b"
  shows "\<exists>b1 b2. foldR (\<lambda>d b. append b d) ds b = Inr b1 \<and> retrieve b1 (length (content b)) = Inr b2
           \<and> inv b2 \<and> content b2 = concat ds"
proof -
  obtain b1 where b1: "foldR (\<lambda>d b. append b d) ds b = Inr b1" "inv b1" "content b1 = content b @ concat ds"
    using appends_content[OF assms] by auto
  from retrieve_law[OF b1(2), of "length (content b)"] b1 show ?thesis by auto
qed

end

interpretation nb: byte_fifo newBuffer bufAppend NetBuffer.retrieve readable buf_wf
proof unfold_locales
  show "\<exists>b'. bufAppend b d = Inr b' \<and> buf_wf b' \<and> readable b' = readable b @ d" if "buf_wf b" for b d
    using bufAppend_ok[OF that] by metis
  show "\<exists>b'. NetBuffer.retrieve b n = Inr b' \<and> buf_wf b' \<and> readable b' = drop n (readable b)"
    if "buf_wf b" "n \<le> length (readable b)" for b n
    using retrieve_ok[OF that] by metis
qed simp_all

subsection \<open>Refinement of a byte list\<close>

text \<open>The calls a client makes, and what each does to the bytes an ideal unbounded FIFO
  holds; a call outside its precondition has no ideal result.\<close>

datatype buf_call =
    CallAppend "char list"
  | CallAppendInt32 "32 word"
  | CallAppendInt16 "16 word"
  | CallAppendInt8 "8 word"
  | CallRetrieve nat
  | CallRetrieveAll
  | CallReadInt32
  | CallEnsureWritable nat
  | CallShrink nat
  | CallReadFd read_result

fun buf_do :: "buf_call \<Rightarrow> netbuf \<Rightarrow> netbuf res" where
  "buf_do (CallAppend d) b = bufAppend b d"
| "buf_do (CallAppendInt32 x) b = appendInt32 b x"
| "buf_do (CallAppendInt16 x) b = appendInt16 b x"
| "buf_do (CallAppendInt8 x) b = appendInt8 b x"
| "buf_do (CallRetrieve n) b = NetBuffer.retrieve b n"
| "buf_do CallRetrieveAll b = Inr (retrieveAll b)"
| "buf_do CallReadInt32 b = bindR (readInt32 b) (\<lambda>(_, b'). Inr b')"
| "buf_do (CallEnsureWritable n) b = ensureWritableBytes b n"
| "buf_do (CallShrink n) b = shrink b n"
| "buf_do (CallReadFd r) b = bindR (readFd b r) (\<lambda>(_, _, b'). Inr b')"

text \<open>The relation between the ideal contents before and after a call. \<open>readFd\<close> takes all the
  pending bytes when they fit its second block, and at least that many otherwise.\<close>

fun ideal_step :: "buf_call \<Rightarrow> char list \<Rightarrow> char list \<Rightarrow> bool" where
  "ideal_step (CallAppend d) xs ys = (ys = xs @ d)"
| "ideal_step (CallAppendInt32 x) xs ys = (ys = xs @ rev (store_le 4 x))"
| "ideal_step (CallAppendInt16 x) xs ys = (ys = xs @ rev (store_le 2 x))"
| "ideal_step (CallAppendInt8 x) xs ys = (ys = xs @ store_le 1 x)"
| "ideal_step (CallRetrieve n) xs ys = (ys = drop n xs)"
| "ideal_step CallRetrieveAll xs ys = (ys = [])"
| "ideal_step CallReadInt32 xs ys = (ys = drop 4 xs)"
| "ideal_step (CallEnsureWritable n) xs ys = (ys = xs)"
| "ideal_step (CallShrink n) xs ys = (ys = xs)"
| "ideal_step (CallReadFd (ReadError e)) xs ys = (ys = xs)"
| "ideal_step (CallReadFd (ReadPending p)) xs ys =
     (\<exists>n. ys = xs @ take n p \<and> extrabuf_size \<le> n)"

fun call_pre :: "buf_call \<Rightarrow> char list \<Rightarrow> bool" where
  "call_pre (CallRetrieve n) xs = (n \<le> length xs)"
| "call_pre CallReadInt32 xs = (4 \<le> length xs)"
| "call_pre (CallShrink n) xs = (length xs < 2 ^ 31)"
| "call_pre _ xs = True"

lemma readInt32_ok:
  assumes "buf_wf b" "4 \<le> length (readable b)"
  obtains b' where "readInt32 b = Inr (load_le (rev (take 4 (readable b))), b')" "buf_wf b'"
    "readable b' = drop 4 (readable b)"
proof -
  obtain b' where "NetBuffer.retrieve b 4 = Inr b'" "buf_wf b'" "readable b' = drop 4 (readable b)"
    using retrieve_ok[OF assms] by metis
  with peekInt32_ok[OF assms] that show thesis by (simp add: readInt32_def retrieveInt32_def)
qed

lemma buf_do_refines:
  assumes "buf_wf b" "call_pre c (readable b)"
  shows "\<exists>b'. buf_do c b = Inr b' \<and> buf_wf b' \<and> ideal_step c (readable b) (readable b')"
proof (cases c)
  case (CallReadFd r)
  show ?thesis
  proof (cases r)
    case (ReadError e)
    with CallReadFd assms show ?thesis by (simp add: readFd_error)
  next
    case (ReadPending p)
    obtain b' where "readFd b r = Inr (int (length (take (writableBytes b + extrabuf_size) p)), None, b')"
        "buf_wf b'" "readable b' = readable b @ take (writableBytes b + extrabuf_size) p"
      using readFd_ok[OF assms(1), of p] ReadPending by blast
    with CallReadFd ReadPending show ?thesis
      by (auto intro: exI[of _ "writableBytes b + extrabuf_size"])
  qed
next
  case CallReadInt32
  then have "4 \<le> length (readable b)" using assms by simp
  from readInt32_ok[OF assms(1) this] obtain b' where
    "readInt32 b = Inr (load_le (rev (take 4 (readable b))), b')" "buf_wf b'"
    "readable b' = drop 4 (readable b)" by blast
  with CallReadInt32 show ?thesis by simp
next
  case (CallShrink n)
  with assms have "readableBytes b < 2 ^ 31" by simp
  from shrink_ok[OF assms(1) this, of n] obtain b' where
    "shrink b n = Inr b'" "buf_wf b'" "readable b' = readable b" by blast
  with CallShrink show ?thesis by simp
next
  case (CallEnsureWritable n)
  from ensureWritableBytes_ok[OF assms(1), of n] obtain b' where
    "ensureWritableBytes b n = Inr b'" "buf_wf b'" "readable b' = readable b" by blast
  with CallEnsureWritable show ?thesis by simp
qed (use assms nb.append_law[OF assms(1)] nb.retrieve_law[OF assms(1)] in
      \<open>auto simp: appendInt32_def appendInt16_def appendInt8_def\<close>)

text \<open>A run of ideal steps, and a run of calls each within its precondition.\<close>

fun ideal_run :: "buf_call list \<Rightarrow> char list \<Rightarrow> char list \<Rightarrow> bool" where
  "ideal_run [] xs ys = (xs = ys)"
| "ideal_run (c # cs) xs ys = (\<exists>zs. call_pre c xs \<and> ideal_step c xs zs \<and> ideal_run cs zs ys)"

text \<open>Running calls, each checked against the precondition the header documents.\<close>

fun buf_run :: "buf_call list \<Rightarrow> netbuf \<Rightarrow> netbuf res option" where
  "buf_run [] b = Some (Inr b)"
| "buf_run (c # cs) b =
     (if call_pre c (readable b)
      then (case buf_do c b of Inl e \<Rightarrow> Some (Inl e) | Inr b' \<Rightarrow> buf_run cs b')
      else None)"

lemma buf_run_refines:
  "buf_wf b \<Longrightarrow> buf_run cs b = Some r \<Longrightarrow>
     \<exists>b'. r = Inr b' \<and> buf_wf b' \<and> ideal_run cs (readable b) (readable b')"
proof (induction cs arbitrary: b)
  case (Cons c cs)
  then have pre: "call_pre c (readable b)" by (auto split: if_splits)
  obtain b1 where b1: "buf_do c b = Inr b1" "buf_wf b1" "ideal_step c (readable b) (readable b1)"
    using buf_do_refines[OF Cons.prems(1) pre] by blast
  from Cons.IH[OF b1(2)] Cons.prems(2) pre b1 show ?case by auto
qed auto

text \<open>
  Property C7. Any sequence of \<open>append\<close>, \<open>appendInt8/16/32\<close>, \<open>retrieve\<close>, \<open>retrieveAll\<close>,
  \<open>readInt32\<close>, \<open>ensureWritableBytes\<close>, \<open>shrink\<close> and \<open>readFd\<close> calls on a new buffer, each made within
  its documented precondition, runs without an assertion failure, an exception or an
  out-of-range copy, keeps \<open>readerIndex <= writerIndex <= size\<close>, and has the effect of the
  same calls on an unbounded byte list: no byte is lost, duplicated or reordered.
\<close>

theorem buffer_refines_byte_list:
  assumes "buf_run cs newBuffer = Some r"
  shows "\<exists>b. r = Inr b \<and> buf_wf b \<and> ideal_run cs [] (readable b)"
  using buf_run_refines[OF newBuffer_wf assms] by simp

theorem buffer_refines_byte_list_witness:
  "\<exists>r. buf_run [CallAppend ''abc'', CallRetrieve 2] newBuffer = Some r
     \<and> (\<exists>b. r = Inr b \<and> buf_wf b \<and> ideal_run [CallAppend ''abc'', CallRetrieve 2] [] (readable b))"
proof -
  obtain b1 where b1: "bufAppend newBuffer ''abc'' = Inr b1" "buf_wf b1" "readable b1 = ''abc''"
    using nb.append_law[OF newBuffer_wf, of "''abc''"] by auto
  obtain b2 where b2: "NetBuffer.retrieve b1 2 = Inr b2"
    using nb.retrieve_law[OF b1(2), of 2] b1(3) by auto
  have run: "buf_run [CallAppend ''abc'', CallRetrieve 2] newBuffer = Some (Inr b2)"
    using b1 b2 by simp
  show ?thesis using run buffer_refines_byte_list[OF run] by blast
qed

text \<open>
  \<open>prepend\<close> within the prependable bytes puts its data in front of the readable
  bytes without moving them, and a buffer that only ever appended and retrieved has at least
  \<open>kCheapPrepend\<close> bytes of room for it: after any appends to a new buffer an 8-byte header can be
  prepended, and the readable bytes are the header followed by the appended data.
\<close>

theorem prepend_after_appends:
  assumes "length hdr \<le> kCheapPrepend"
  shows "\<exists>b1 b2. foldR (\<lambda>d b. bufAppend b d) ds newBuffer = Inr b1 \<and> prepend b1 hdr = Inr b2
     \<and> buf_wf b2 \<and> readable b2 = hdr @ concat ds"
proof -
  have "\<exists>b'. foldR (\<lambda>d b. bufAppend b d) ds b = Inr b' \<and> buf_wf b' \<and> kCheapPrepend \<le> readerIndex b'
      \<and> readable b' = readable b @ concat ds" if "buf_wf b" "kCheapPrepend \<le> readerIndex b" for b
    using that
  proof (induction ds arbitrary: b)
    case (Cons d ds)
    obtain b1 where b1: "bufAppend b d = Inr b1" "buf_wf b1" "readable b1 = readable b @ d"
        "kCheapPrepend \<le> readerIndex b1"
      using bufAppend_ok[OF Cons.prems(1), of d] Cons.prems(2) by metis
    from Cons.IH[OF b1(2,4)] b1 show ?case by auto
  qed simp
  from this[of newBuffer] obtain b1 where b1: "foldR (\<lambda>d b. bufAppend b d) ds newBuffer = Inr b1"
      "buf_wf b1" "kCheapPrepend \<le> readerIndex b1" "readable b1 = concat ds" by auto
  have "length hdr \<le> prependableBytes b1" using assms b1(3) by (simp add: prependableBytes_def)
  from prepend_ok[OF b1(2) this] b1 show ?thesis by metis
qed

theorem prepend_after_appends_witness:
  "length ''hdr'' \<le> kCheapPrepend \<and>
   (\<exists>b1 b2. foldR (\<lambda>d b. bufAppend b d) [''ab'', ''c''] newBuffer = Inr b1 \<and> prepend b1 ''hdr'' = Inr b2
     \<and> buf_wf b2 \<and> readable b2 = ''hdr'' @ concat [''ab'', ''c''])"
  using prepend_after_appends[of "''hdr''" "[''ab'', ''c'']"] by (simp add: kCheapPrepend_def)

end
