(* ===== verification/Framing.thy ===== *)
theory Framing
  imports NetBuffer
begin

text \<open>
  Message framing over a byte stream. Several components cut messages out of a TCP byte
  stream with the same loop: look at the bytes received so far, take a complete frame, wait
  for more, or reject the stream. \<open>frames\<close> is that loop over a one-frame parser; the locale
  \<open>framing\<close> states what the loop needs of the parser (a frame is a non-empty prefix, and
  what was decided on a prefix stays decided when more bytes arrive) and proves that the
  messages delivered do not depend on how the network cuts the stream into segments.
\<close>

datatype ('m, 'e) frame = NeedMore | Malformed 'e | Frame 'm nat

function frames :: "(char list \<Rightarrow> ('m, 'e) frame) \<Rightarrow> char list \<Rightarrow> 'm list \<times> 'e option \<times> char list" where
  "frames nxt xs =
     (case nxt xs of
        NeedMore \<Rightarrow> ([], None, xs)
      | Malformed e \<Rightarrow> ([], Some e, xs)
      | Frame m n \<Rightarrow>
          if 0 < n \<and> n \<le> length xs
          then (case frames nxt (drop n xs) of (ms, e, r) \<Rightarrow> (m # ms, e, r))
          else ([], None, xs))"
  by pat_completeness auto
termination
  by (relation "measure (\<lambda>(nxt, xs). length xs)") auto

declare frames.simps [simp del]

text \<open>Segments arrive one after the other; the undecoded rest is kept in between.\<close>

fun feed :: "(char list \<Rightarrow> ('m, 'e) frame) \<Rightarrow> char list list \<Rightarrow> char list \<Rightarrow> 'm list \<times> 'e option \<times> char list" where
  "feed nxt [] rest = ([], None, rest)"
| "feed nxt (seg # segs) rest =
     (case frames nxt (rest @ seg) of
        (ms, Some e, r) \<Rightarrow> (ms, Some e, r)
      | (ms, None, r) \<Rightarrow> (case feed nxt segs r of (ms', e, r') \<Rightarrow> (ms @ ms', e, r')))"

locale framing =
  fixes nxt :: "char list \<Rightarrow> ('m, 'e) frame"
  assumes frame_bounds: "nxt xs = Frame m n \<Longrightarrow> 0 < n \<and> n \<le> length xs"
    and frame_stable: "nxt xs = Frame m n \<Longrightarrow> nxt (xs @ ys) = Frame m n"
    and bad_stable: "nxt xs = Malformed e \<Longrightarrow> nxt (xs @ ys) = Malformed e"
begin

lemma frames_Frame:
  assumes "nxt xs = Frame m n" "frames nxt (drop n xs) = (ms, e, r)"
  shows "frames nxt xs = (m # ms, e, r)"
  using assms frame_bounds[OF assms(1)] by (subst frames.simps) simp

lemma frames_cases:
  obtains (idle) "nxt xs = NeedMore" "frames nxt xs = ([], None, xs)"
  | (bad) e where "nxt xs = Malformed e" "frames nxt xs = ([], Some e, xs)"
  | (frame) m n ms e r where "nxt xs = Frame m n" "length (drop n xs) < length xs"
      "frames nxt (drop n xs) = (ms, e, r)" "frames nxt xs = (m # ms, e, r)"
proof (cases "nxt xs")
  case (Frame m n)
  obtain ms e r where "frames nxt (drop n xs) = (ms, e, r)" by (metis prod_cases3)
  with frames_Frame[OF Frame this] frame_bounds[OF Frame] Frame frame show thesis by auto
qed (use idle bad in \<open>auto simp: frames.simps[of nxt xs]\<close>)

lemma frames_rest_idle: "frames nxt xs = (ms, None, r) \<Longrightarrow> frames nxt r = ([], None, r)"
proof (induction "length xs" arbitrary: xs ms rule: less_induct)
  case less
  show ?case
  proof (cases xs rule: frames_cases)
    case (frame m n ms1 e1 r1)
    with less.hyps[of "drop n xs" ms1] less.prems show ?thesis by auto
  qed (use less.prems in auto)
qed

text \<open>What was delivered on a prefix is delivered again, first, on the longer stream.\<close>

lemma frames_append:
  "frames nxt xs = (ms, None, r) \<Longrightarrow> frames nxt (r @ ys) = (ms', e, r')
     \<Longrightarrow> frames nxt (xs @ ys) = (ms @ ms', e, r')"
proof (induction "length xs" arbitrary: xs ms rule: less_induct)
  case less
  show ?case
  proof (cases xs rule: frames_cases)
    case (frame m n ms1 e1 r1)
    then have "frames nxt (drop n xs @ ys) = (ms1 @ ms', e, r')" using less by auto
    with frame frame_stable[OF frame(1), of ys] frame_bounds[OF frame(1)]
      frames_Frame[of "xs @ ys" m n] less.prems(1) show ?thesis by auto
  qed (use less.prems in auto)
qed

lemma frames_append_bad:
  "frames nxt xs = (ms, Some e, r) \<Longrightarrow> frames nxt (xs @ ys) = (ms, Some e, r @ ys)"
proof (induction "length xs" arbitrary: xs ms rule: less_induct)
  case less
  show ?case
  proof (cases xs rule: frames_cases)
    case (bad e')
    with less.prems bad_stable[OF bad(1), of ys] show ?thesis by (auto simp: frames.simps[of nxt "r @ ys"])
  next
    case (frame m n ms1 e1 r1)
    then have "frames nxt (drop n xs @ ys) = (ms1, Some e, r @ ys)" using less by auto
    with frame frame_stable[OF frame(1), of ys] frame_bounds[OF frame(1)]
      frames_Frame[of "xs @ ys" m n] less.prems(1) show ?thesis by auto
  qed (use less.prems in auto)
qed

text \<open>Segmentation does not matter.\<close>

lemma feed_segments:
  "frames nxt rest = ([], None, rest) \<Longrightarrow> frames nxt (rest @ concat segs) = (ms, None, r)
     \<Longrightarrow> feed nxt segs rest = (ms, None, r)"
proof (induction segs arbitrary: rest ms)
  case (Cons seg segs)
  obtain ms1 e1 r1 where one: "frames nxt (rest @ seg) = (ms1, e1, r1)" by (metis prod_cases3)
  have e1: "e1 = None"
  proof (rule ccontr)
    assume "e1 \<noteq> None"
    then obtain e where "e1 = Some e" by auto
    from frames_append_bad[OF one[unfolded this], of "concat segs"] Cons.prems(2) show False by simp
  qed
  obtain ms2 e2 r2 where two: "frames nxt (r1 @ concat segs) = (ms2, e2, r2)" by (metis prod_cases3)
  from frames_append[OF one[unfolded e1] two] Cons.prems(2)
  have whole: "ms = ms1 @ ms2" "e2 = None" "r2 = r" by simp_all
  from Cons.IH[OF frames_rest_idle[OF one[unfolded e1]]] two whole
  have "feed nxt segs r1 = (ms2, None, r)" by simp
  with one e1 whole show ?case by simp
qed simp

text \<open>A stream of encoded messages decodes to those messages, provided one encoded message
  at the front of the stream is taken as one frame.\<close>

lemma frames_encoded:
  assumes "\<And>m rest. m \<in> set ms \<Longrightarrow> nxt (enc m @ rest) = Frame m (length (enc m))"
    and "nxt [] = NeedMore"
  shows "frames nxt (concat (map enc ms)) = (ms, None, [])"
  using assms(1)
proof (induction ms)
  case Nil
  then show ?case by (simp add: frames.simps assms(2))
next
  case (Cons m ms)
  then show ?case by (auto intro!: frames_Frame)
qed

end

lemma readableBytes_retrieve:
  "NetBuffer.retrieve b n = Inr b' \<Longrightarrow> readableBytes b' = readableBytes b - n"
  by (auto simp: retrieve_def retrieveAll_def readableBytes_def size_sub_def ensure_def split: if_splits)

subsection \<open>Codecs on a connection's input buffer\<close>

text \<open>The input side of a connection: each segment the socket delivers is appended to the input
  buffer, then the codec runs on it. \<open>None\<close> stands for a fault, a codec that does not return, or
  one that gave the stream up.\<close>

fun deliver ::
  "(netbuf \<Rightarrow> ('m list \<times> netbuf) option) \<Rightarrow> char list list \<Rightarrow> netbuf \<Rightarrow> ('m list \<times> netbuf) option" where
  "deliver recv [] buf = Some ([], buf)"
| "deliver recv (seg # segs) buf =
     (case bufAppend buf seg of
        Inl _ \<Rightarrow> None
      | Inr b1 \<Rightarrow>
          (case recv b1 of
             None \<Rightarrow> None
           | Some (ms, b2) \<Rightarrow>
               (case deliver recv segs b2 of
                  None \<Rightarrow> None
                | Some (ms', b3) \<Rightarrow> Some (ms @ ms', b3))))"

locale framed_codec = framing nxt
  for nxt :: "char list \<Rightarrow> ('m, 'e) frame" +
  fixes recv :: "netbuf \<Rightarrow> ('m list \<times> netbuf) option"
  assumes recv_frames: "buf_wf b \<Longrightarrow> frames nxt (readable b) = (ms, None, r) \<Longrightarrow>
      \<exists>b'. recv b = Some (ms, b') \<and> buf_wf b' \<and> readable b' = r"
begin

lemma deliver_feed:
  "buf_wf b \<Longrightarrow> feed nxt segs (readable b) = (ms, None, r) \<Longrightarrow>
     \<exists>b'. deliver recv segs b = Some (ms, b') \<and> buf_wf b' \<and> readable b' = r"
proof (induction segs arbitrary: b ms)
  case (Cons seg segs)
  obtain b1 where b1: "bufAppend b seg = Inr b1" "buf_wf b1" "readable b1 = readable b @ seg"
    using bufAppend_ok[OF Cons.prems(1)] by metis
  obtain ms1 e1 r1 where one: "frames nxt (readable b @ seg) = (ms1, e1, r1)" by (metis prod_cases3)
  with Cons.prems(2) have e1: "e1 = None" by (auto split: option.splits)
  obtain ms2 e2 r2 where two: "feed nxt segs r1 = (ms2, e2, r2)" by (metis prod_cases3)
  have whole: "ms = ms1 @ ms2" "e2 = None" "r2 = r" using Cons.prems(2) one e1 two by auto
  obtain b2 where b2: "recv b1 = Some (ms1, b2)" "buf_wf b2" "readable b2 = r1"
    using recv_frames[OF b1(2)] one e1 b1(3) by metis
  from Cons.IH[OF b2(2), of ms2] two whole b2(3) obtain b3 where
    "deliver recv segs b2 = Some (ms2, b3)" "buf_wf b3" "readable b3 = r" by auto
  with b1 b2 whole show ?case by simp
qed simp

lemma deliver_all:
  assumes "\<And>m rest. m \<in> set ms \<Longrightarrow> nxt (enc m @ rest) = Frame m (length (enc m))"
    and "nxt [] = NeedMore" and "concat segs = concat (map enc ms)"
  shows "\<exists>b. deliver recv segs newBuffer = Some (ms, b) \<and> buf_wf b \<and> readable b = []"
proof (rule deliver_feed[OF newBuffer_wf])
  have "frames nxt (concat segs) = (ms, None, [])" unfolding assms(3) by (rule frames_encoded[OF assms(1,2)])
  then show "feed nxt segs (readable newBuffer) = (ms, None, [])"
    by (intro feed_segments) (simp_all add: frames.simps[of nxt "[]"] assms(2))
qed

end

end
