(* ===== verification/LengthCodec.thy ===== *)
theory LengthCodec
  imports Framing
begin

text \<open>
  \<open>LengthHeaderCodec\<close> of the chat example (\<open>examples/asio/chat/codec.h\<close>): a 4-byte big-endian
  length followed by the message. \<open>onMessage\<close> returns the messages it passed to the
  callback, whether it called \<open>conn->shutdown()\<close>, and the buffer it leaves; \<open>send\<close> returns
  the buffer handed to \<open>conn->send\<close>. The loop is proved to compute \<open>frames\<close> of the framing
  interface, so messages survive any segmentation of the stream.
\<close>

definition lhcHeaderLen :: nat where "lhcHeaderLen = 4"

function lhc_onMessage :: "netbuf \<Rightarrow> (char list list \<times> bool \<times> netbuf) res" where
  "lhc_onMessage buf =
     (if readableBytes buf < lhcHeaderLen then Inr ([], False, buf)
      else let be32 = load_le (range_at buf (peek buf) (peek buf + 4));
               len = sint (networkToHost32 be32)
        in if len > 65536 \<or> len < 0 then Inr ([], True, buf)
        else if readableBytes buf \<ge> nat len + lhcHeaderLen then
          bindR (NetBuffer.retrieve buf lhcHeaderLen) (\<lambda>b1.
          let message = range_at b1 (peek b1) (peek b1 + nat len) in
          bindR (NetBuffer.retrieve b1 (nat len)) (\<lambda>b2.
          bindR (lhc_onMessage b2) (\<lambda>(ms, sd, b3). Inr (message # ms, sd, b3))))
        else Inr ([], False, buf))"
  by pat_completeness auto
termination
  by (relation "measure readableBytes")
     (auto dest!: readableBytes_retrieve simp: lhcHeaderLen_def)

declare lhc_onMessage.simps [simp del]

text \<open>The message's size is an \<open>int\<close> (\<open>StringPiece::size\<close>), sent as \<open>int32_t\<close>.\<close>

definition lhc_send :: "char list \<Rightarrow> netbuf res" where
  "lhc_send message =
     bindR (bufAppend newBuffer message) (\<lambda>buf.
     let be32 = hostToNetwork32 (word_of_int (int32_of_size (length message)))
     in prepend buf (store_le 4 be32))"

subsection \<open>The codec as a framing\<close>

definition lhc_next :: "char list \<Rightarrow> (char list, unit) frame" where
  "lhc_next xs =
     (if length xs < 4 then NeedMore
      else let len = sint (load_le (rev (take 4 xs)) :: 32 word)
        in if len > 65536 \<or> len < 0 then Malformed ()
        else if length xs \<ge> nat len + 4 then Frame (take (nat len) (drop 4 xs)) (nat len + 4)
        else NeedMore)"

interpretation lhc: framing lhc_next
  by unfold_locales (auto simp: lhc_next_def Let_def split: if_splits)

lemma lhc_onMessage_frames:
  "buf_wf buf \<Longrightarrow> frames lhc_next (readable buf) = (ms, e, r) \<Longrightarrow>
     \<exists>b'. lhc_onMessage buf = Inr (ms, e \<noteq> None, b') \<and> buf_wf b' \<and> readable b' = r"
proof (induction "readableBytes buf" arbitrary: buf ms rule: less_induct)
  case less
  let ?R = "readable buf"
  have R: "readableBytes buf = length ?R" using less.prems(1) by simp
  have hdr: "networkToHost32 (load_le (range_at buf (peek buf) (peek buf + 4)))
      = (load_le (rev (take 4 ?R)) :: 32 word)" if "4 \<le> length ?R"
    using that R range_at_peek[OF less.prems(1), of 4] by (simp add: networkToHost32_load)
  have unfold_one: "lhc_onMessage buf = (case lhc_next ?R of NeedMore \<Rightarrow> Inr ([], False, buf)
      | Malformed _ \<Rightarrow> Inr ([], True, buf)
      | Frame m n \<Rightarrow> lhc_onMessage buf)"
  proof (cases "4 \<le> length ?R")
    case True
    define len where "len = sint (load_le (rev (take 4 ?R)) :: 32 word)"
    show ?thesis using True
      by (cases "nat len + 4 \<le> length ?R"; cases "len > 65536 \<or> len < 0";
          subst (1 2) lhc_onMessage.simps)
         (simp_all add: hdr[OF True] R lhc_next_def lhcHeaderLen_def Let_def flip: len_def)
  next
    case False
    then show ?thesis by (subst lhc_onMessage.simps) (simp add: R lhc_next_def lhcHeaderLen_def)
  qed
  show ?case
  proof (cases ?R rule: lhc.frames_cases)
    case idle
    then have "lhc_onMessage buf = Inr ([], False, buf)" by (simp add: unfold_one)
    with idle less.prems show ?thesis by auto
  next
    case (bad e')
    then have "lhc_onMessage buf = Inr ([], True, buf)" by (simp add: unfold_one)
    with bad less.prems show ?thesis by auto
  next
    case (frame m n ms' e' r')
    define len where "len = sint (load_le (rev (take 4 ?R)) :: 32 word)"
    have f: "4 \<le> length ?R" "len \<le> 65536" "0 \<le> len" "nat len + 4 \<le> length ?R"
        "m = take (nat len) (drop 4 ?R)" "n = nat len + 4"
      using frame(1) by (auto simp: lhc_next_def len_def Let_def split: if_splits)
    obtain b1 where b1: "NetBuffer.retrieve buf 4 = Inr b1" "buf_wf b1" "readable b1 = drop 4 ?R"
      using retrieve_ok[OF less.prems(1) f(1)] by blast
    have l1: "nat len \<le> length (readable b1)" using b1(3) f(4) by simp
    obtain b2 where b2: "NetBuffer.retrieve b1 (nat len) = Inr b2" "buf_wf b2"
        "readable b2 = drop n ?R"
      using retrieve_ok[OF b1(2) l1] b1(3) f(6) by (auto simp: add.commute)
    have msg: "range_at b1 (peek b1) (peek b1 + nat len) = m"
      using range_at_peek[OF b1(2), of "nat len"] l1 b1 f(5) readableBytes_readable[OF b1(2)] by simp
    have "readableBytes b2 < readableBytes buf"
      using b1 b2 f R by (simp add: readableBytes_readable)
    moreover have "e' = e" "r' = r" "ms = m # ms'" using frame(4) less.prems(2) by simp_all
    ultimately obtain b3 where
      b3: "lhc_onMessage b2 = Inr (ms', e' \<noteq> None, b3)" "buf_wf b3" "readable b3 = r'"
      using less.hyps[OF _ b2(2)] frame(3) b2(3) by auto
    have "lhc_onMessage buf = Inr (m # ms', e' \<noteq> None, b3)"
      using hdr[OF f(1)] R f b1(1) b2(1) b3(1) msg
      by (subst lhc_onMessage.simps) (simp add: lhcHeaderLen_def Let_def len_def[symmetric])
    with b3 frame less.prems(2) show ?thesis by auto
  qed
qed

subsection \<open>Sending\<close>

definition lhc_encode :: "char list \<Rightarrow> char list" where
  "lhc_encode m = rev (store_le 4 (word_of_nat (length m) :: 32 word)) @ m"

lemma lhc_send_ok:
  assumes "length m < 2 ^ 31"
  shows "\<exists>b. lhc_send m = Inr b \<and> buf_wf b \<and> readable b = lhc_encode m"
proof -
  let ?hdr = "rev (store_le 4 (word_of_nat (length m) :: 32 word))"
  obtain b1 where b1: "bufAppend newBuffer m = Inr b1" "buf_wf b1" "readable b1 = m"
      "kCheapPrepend \<le> readerIndex b1"
    using bufAppend_ok[OF newBuffer_wf, of m] by auto
  then have "length ?hdr \<le> prependableBytes b1" by (simp add: prependableBytes_def kCheapPrepend_def)
  from prepend_ok[OF b1(2) this] obtain b2 where
    "prepend b1 ?hdr = Inr b2" "buf_wf b2" "readable b2 = ?hdr @ readable b1" by blast
  with b1 assms show ?thesis
    by (simp add: lhc_send_def Let_def lhc_encode_def int32_of_size_small)
qed

lemma sint_length_word:
  "n < 2 ^ 31 \<Longrightarrow> sint (word_of_nat n :: 32 word) = int n"
  by (simp add: signed_of_nat signed_take_bit_int_eq_self)

lemma lhc_next_encode:
  assumes "length m \<le> 65536"
  shows "lhc_next (lhc_encode m @ rest) = Frame m (length (lhc_encode m))"
  using assms by (simp add: lhc_next_def lhc_encode_def sint_length_word Let_def)

subsection \<open>Delivery over a segmented stream\<close>

text \<open>The connection's input side: each segment the socket delivers is appended to the input
  buffer, then \<open>onMessage\<close> runs; delivery stops once \<open>shutdown\<close> was called.\<close>

fun lhc_deliver :: "char list list \<Rightarrow> netbuf \<Rightarrow> (char list list \<times> bool \<times> netbuf) res" where
  "lhc_deliver [] buf = Inr ([], False, buf)"
| "lhc_deliver (seg # segs) buf =
     bindR (bufAppend buf seg) (\<lambda>b1.
     bindR (lhc_onMessage b1) (\<lambda>(ms, sd, b2).
     if sd then Inr (ms, True, b2)
     else bindR (lhc_deliver segs b2) (\<lambda>(ms', sd', b3). Inr (ms @ ms', sd', b3))))"

lemma lhc_deliver_feed:
  "buf_wf buf \<Longrightarrow> feed lhc_next segs (readable buf) = (ms, e, r) \<Longrightarrow>
     \<exists>b'. lhc_deliver segs buf = Inr (ms, e \<noteq> None, b') \<and> buf_wf b' \<and> readable b' = r"
proof (induction segs arbitrary: buf ms)
  case (Cons seg segs)
  obtain b1 where b1: "bufAppend buf seg = Inr b1" "buf_wf b1" "readable b1 = readable buf @ seg"
    using nb.append_law[OF Cons.prems(1)] by blast
  obtain ms1 e1 r1 where one: "frames lhc_next (readable b1) = (ms1, e1, r1)" by (metis prod_cases3)
  obtain b2 where b2: "lhc_onMessage b1 = Inr (ms1, e1 \<noteq> None, b2)" "buf_wf b2" "readable b2 = r1"
    using lhc_onMessage_frames[OF b1(2) one] by blast
  show ?case
  proof (cases e1)
    case None
    obtain ms2 e2 r2 where two: "feed lhc_next segs r1 = (ms2, e2, r2)" by (metis prod_cases3)
    from Cons.IH[OF b2(2), of ms2] two b2(3) Cons.prems(2) b1 b2 one None show ?thesis by auto
  next
    case (Some e')
    with Cons.prems(2) b1 b2 one show ?thesis by auto
  qed
qed auto

text \<open>
  Property C13. Messages of at most 65536 bytes sent with \<open>LengthHeaderCodec::send\<close>, cut into
  arbitrary segments by the network, are delivered by \<open>onMessage\<close> exactly once, whole, in
  order, with nothing left in the buffer and no connection shut down.
\<close>

theorem length_codec_roundtrip:
  assumes "\<forall>m \<in> set ms. length m \<le> 65536"
    and "\<forall>m \<in> set ms. \<exists>b. lhc_send m = Inr b \<and> readable b = enc m"
    and "concat segs = concat (map enc ms)"
  shows "\<exists>b. lhc_deliver segs newBuffer = Inr (ms, False, b) \<and> readable b = []"
proof -
  have enc: "enc m = lhc_encode m" if "m \<in> set ms" for m
    using that assms(1,2) lhc_send_ok[of m] by fastforce
  then have "concat segs = concat (map lhc_encode ms)" using assms(3) by (simp cong: map_cong)
  moreover have "frames lhc_next (concat (map lhc_encode ms)) = (ms, None, [])"
  proof (rule lhc.frames_encoded)
    show "lhc_next (lhc_encode m @ rest) = Frame m (length (lhc_encode m))" if "m \<in> set ms" for m rest
      using that assms(1) by (simp add: lhc_next_encode)
  qed (simp add: lhc_next_def)
  ultimately have "feed lhc_next segs [] = (ms, None, [])"
    by (intro lhc.feed_segments) (simp_all add: frames.simps lhc_next_def)
  then show ?thesis using lhc_deliver_feed[OF newBuffer_wf, of segs ms None "[]"] by auto
qed

theorem length_codec_roundtrip_witness:
  "\<exists>enc. (\<forall>m \<in> set [''hi'', '''']. \<exists>b. lhc_send m = Inr b \<and> readable b = enc m)
    \<and> (\<exists>b. lhc_deliver (map (\<lambda>c. [c]) (concat (map enc [''hi'', '''']))) newBuffer
             = Inr ([''hi'', ''''], False, b) \<and> readable b = [])"
proof -
  have sent: "\<forall>m \<in> set [''hi'', '''']. \<exists>b. lhc_send m = Inr b \<and> readable b = lhc_encode m"
    using lhc_send_ok[of "''hi''"] lhc_send_ok[of "[]"] by auto
  have "concat (map (\<lambda>c. [c]) xs) = (xs :: char list)" for xs by (induction xs) auto
  then show ?thesis
    using sent length_codec_roundtrip[OF _ sent, of "map (\<lambda>c. [c]) (concat (map lhc_encode [''hi'', '''']))"]
    by (intro exI[of _ lhc_encode]) simp
qed

end
