(* ===== verification/Channel.thy ===== *)
theory Channel
  imports Muduo_Prelude
begin

text \<open>
  \<open>muduo::net::Channel\<close> (\<open>muduo/net/Channel.h\<close>, \<open>Channel.cc\<close>): the interest mask, the active
  mask, and the dispatch of active events to the four callbacks. A callback runs on the
  channel together with the rest of the world (\<open>chan_cb \<Rightarrow> channel \<times> 'w \<Rightarrow> (channel \<times> 'w) res\<close>),
  so every condition of \<open>handleEventWithGuard\<close> reads the channel as the earlier callbacks
  left it. The poll(2) constants are those of Linux.
\<close>

unbundle bit_operations_syntax

definition POLLIN :: "32 word" where "POLLIN = 0x001"
definition POLLPRI :: "32 word" where "POLLPRI = 0x002"
definition POLLOUT :: "32 word" where "POLLOUT = 0x004"
definition POLLERR :: "32 word" where "POLLERR = 0x008"
definition POLLHUP :: "32 word" where "POLLHUP = 0x010"
definition POLLNVAL :: "32 word" where "POLLNVAL = 0x020"
definition POLLRDHUP :: "32 word" where "POLLRDHUP = 0x2000"

lemmas poll_consts = POLLIN_def POLLPRI_def POLLOUT_def POLLERR_def POLLHUP_def POLLNVAL_def POLLRDHUP_def

definition kNoneEvent :: "32 word" where "kNoneEvent = 0"
definition kReadEvent :: "32 word" where "kReadEvent = POLLIN OR POLLPRI"
definition kWriteEvent :: "32 word" where "kWriteEvent = POLLOUT"

text \<open>A callback slot holds whether a \<open>boost::function\<close> was stored; a weak pointer is the
  identity of the object it was taken from.\<close>

record channel =
  chFd :: int
  chEvents :: "32 word"
  chRevents :: "32 word"
  chIndex :: int
  logHup :: bool
  chTie :: "nat option"
  tied :: bool
  eventHandling :: bool
  hasReadCallback :: bool
  hasWriteCallback :: bool
  hasCloseCallback :: bool
  hasErrorCallback :: bool

definition newChannel :: "int \<Rightarrow> channel" where
  "newChannel fd = \<lparr>chFd = fd, chEvents = 0, chRevents = 0, chIndex = -1, logHup = True,
     chTie = None, tied = False, eventHandling = False, hasReadCallback = False,
     hasWriteCallback = False, hasCloseCallback = False, hasErrorCallback = False\<rparr>"

definition destroyChannel :: "channel \<Rightarrow> unit res" where
  "destroyChannel ch = ensure (\<not> eventHandling ch) ''~Channel: !eventHandling_'' (Inr ())"

definition tie :: "nat \<Rightarrow> channel \<Rightarrow> channel" where
  "tie obj ch = ch\<lparr>chTie := Some obj, tied := True\<rparr>"

definition isNoneEvent :: "channel \<Rightarrow> bool" where
  "isNoneEvent ch \<longleftrightarrow> chEvents ch = kNoneEvent"

definition isWriting :: "channel \<Rightarrow> bool" where
  "isWriting ch \<longleftrightarrow> chEvents ch AND kWriteEvent \<noteq> 0"

text \<open>The mask changes of \<open>enableReading\<close> and its siblings; each is followed by \<open>update()\<close>, which
  the pollers' theory adds.\<close>

definition events_enableReading :: "channel \<Rightarrow> channel" where
  "events_enableReading ch = ch\<lparr>chEvents := chEvents ch OR kReadEvent\<rparr>"

definition events_disableReading :: "channel \<Rightarrow> channel" where
  "events_disableReading ch = ch\<lparr>chEvents := chEvents ch AND NOT kReadEvent\<rparr>"

definition events_enableWriting :: "channel \<Rightarrow> channel" where
  "events_enableWriting ch = ch\<lparr>chEvents := chEvents ch OR kWriteEvent\<rparr>"

definition events_disableWriting :: "channel \<Rightarrow> channel" where
  "events_disableWriting ch = ch\<lparr>chEvents := chEvents ch AND NOT kWriteEvent\<rparr>"

definition events_disableAll :: "channel \<Rightarrow> channel" where
  "events_disableAll ch = ch\<lparr>chEvents := kNoneEvent\<rparr>"

lemmas events_defs = events_enableReading_def events_disableReading_def events_enableWriting_def
  events_disableWriting_def events_disableAll_def

subsection \<open>Event dispatch\<close>

datatype chan_cb = CloseCb | ErrorCb | ReadCb | WriteCb

definition handleEventWithGuard ::
  "(chan_cb \<Rightarrow> channel \<times> 'w \<Rightarrow> (channel \<times> 'w) res) \<Rightarrow> channel \<times> 'w \<Rightarrow> (channel \<times> 'w) res" where
  "handleEventWithGuard run s0 =
    (let s1 = ((fst s0)\<lparr>eventHandling := True\<rparr>, snd s0) in
     bindR (if chRevents (fst s1) AND POLLHUP \<noteq> 0 \<and> chRevents (fst s1) AND POLLIN = 0
              \<and> hasCloseCallback (fst s1)
            then run CloseCb s1 else Inr s1) (\<lambda>s2.
     bindR (if chRevents (fst s2) AND (POLLERR OR POLLNVAL) \<noteq> 0 \<and> hasErrorCallback (fst s2)
            then run ErrorCb s2 else Inr s2) (\<lambda>s3.
     bindR (if chRevents (fst s3) AND (POLLIN OR POLLPRI OR POLLRDHUP) \<noteq> 0 \<and> hasReadCallback (fst s3)
            then run ReadCb s3 else Inr s3) (\<lambda>s4.
     bindR (if chRevents (fst s4) AND POLLOUT \<noteq> 0 \<and> hasWriteCallback (fst s4)
            then run WriteCb s4 else Inr s4) (\<lambda>s5.
     Inr ((fst s5)\<lparr>eventHandling := False\<rparr>, snd s5))))))"

text \<open>\<open>alive\<close> says whether the object with a given identity still has a strong owner, i.e. whether
  \<open>weak_ptr::lock\<close> yields a non-null guard.\<close>

definition handleEvent ::
  "(nat \<Rightarrow> bool) \<Rightarrow> (chan_cb \<Rightarrow> channel \<times> 'w \<Rightarrow> (channel \<times> 'w) res) \<Rightarrow> channel \<times> 'w \<Rightarrow> (channel \<times> 'w) res" where
  "handleEvent alive run s =
     (if tied (fst s)
      then (case chTie (fst s) of
              Some obj \<Rightarrow> if alive obj then handleEventWithGuard run s else Inr s
            | None \<Rightarrow> Inr s)
      else handleEventWithGuard run s)"

text \<open>The text of \<open>reventsToString\<close>, the descriptor printed by the stream.\<close>

definition reventsToString :: "(int \<Rightarrow> string) \<Rightarrow> channel \<Rightarrow> string" where
  "reventsToString show_int ch =
     show_int (chFd ch) @ '': '' @
     (if chRevents ch AND POLLIN \<noteq> 0 then ''IN '' else []) @
     (if chRevents ch AND POLLPRI \<noteq> 0 then ''PRI '' else []) @
     (if chRevents ch AND POLLOUT \<noteq> 0 then ''OUT '' else []) @
     (if chRevents ch AND POLLHUP \<noteq> 0 then ''HUP '' else []) @
     (if chRevents ch AND POLLRDHUP \<noteq> 0 then ''RDHUP '' else []) @
     (if chRevents ch AND POLLERR \<noteq> 0 then ''ERR '' else []) @
     (if chRevents ch AND POLLNVAL \<noteq> 0 then ''NVAL '' else [])"

subsection \<open>What a dispatch calls\<close>

text \<open>The callbacks a mask asks for, in the order the code calls them.\<close>

definition wanted_cbs :: "channel \<Rightarrow> chan_cb list" where
  "wanted_cbs ch =
     (if chRevents ch AND POLLHUP \<noteq> 0 \<and> chRevents ch AND POLLIN = 0 \<and> hasCloseCallback ch then [CloseCb] else [])
   @ (if chRevents ch AND (POLLERR OR POLLNVAL) \<noteq> 0 \<and> hasErrorCallback ch then [ErrorCb] else [])
   @ (if chRevents ch AND (POLLIN OR POLLPRI OR POLLRDHUP) \<noteq> 0 \<and> hasReadCallback ch then [ReadCb] else [])
   @ (if chRevents ch AND POLLOUT \<noteq> 0 \<and> hasWriteCallback ch then [WriteCb] else [])"

text \<open>The part of a channel that dispatch decides on.\<close>

definition dispatch_key :: "channel \<Rightarrow> 32 word \<times> bool \<times> bool \<times> bool \<times> bool" where
  "dispatch_key ch = (chRevents ch, hasCloseCallback ch, hasErrorCallback ch, hasReadCallback ch, hasWriteCallback ch)"

definition keeps_dispatch :: "(chan_cb \<Rightarrow> channel \<times> 'w \<Rightarrow> (channel \<times> 'w) res) \<Rightarrow> bool" where
  "keeps_dispatch run \<longleftrightarrow> (\<forall>cb s s'. run cb s = Inr s' \<longrightarrow> dispatch_key (fst s') = dispatch_key (fst s))"

lemma wanted_cbs_key: "dispatch_key ch = dispatch_key ch' \<Longrightarrow> wanted_cbs ch = wanted_cbs ch'"
  by (simp add: dispatch_key_def wanted_cbs_def)

lemma keeps_dispatchD:
  "keeps_dispatch run \<Longrightarrow> run cb s = Inr s' \<Longrightarrow> dispatch_key (fst s') = dispatch_key (fst s)"
  unfolding keeps_dispatch_def by blast

lemma run_if_foldR:
  "bindR (if c then run cb s else Inr s) k = bindR (foldR run (if c then [cb] else []) s) k"
  by (cases "run cb s") auto

lemma bindR_foldR_cong:
  assumes "\<And>s'. foldR run cbs s = Inr s' \<Longrightarrow> k s' = k' s'"
  shows "bindR (foldR run cbs s) k = bindR (foldR run cbs s) k'"
  using assms by (cases "foldR run cbs s") auto

lemma foldR_keeps_dispatch:
  assumes "keeps_dispatch run" "foldR run cbs s = Inr s'"
  shows "dispatch_key (fst s') = dispatch_key (fst s)"
  by (rule foldR_preserves[where I = "\<lambda>t. dispatch_key (fst t) = dispatch_key (fst s)", OF assms(2)])
     (auto dest: keeps_dispatchD[OF assms(1)])

lemma handleEventWithGuard_foldR:
  assumes keep: "keeps_dispatch run"
  shows "handleEventWithGuard run (ch, w) =
    bindR (foldR run (wanted_cbs ch) (ch\<lparr>eventHandling := True\<rparr>, w))
      (\<lambda>s. Inr ((fst s)\<lparr>eventHandling := False\<rparr>, snd s))"
proof -
  let ?ch = "ch\<lparr>eventHandling := True\<rparr>"
  let ?c = "\<lambda>ch. if chRevents ch AND POLLHUP \<noteq> 0 \<and> chRevents ch AND POLLIN = 0 \<and> hasCloseCallback ch then [CloseCb] else []"
  let ?e = "\<lambda>ch. if chRevents ch AND (POLLERR OR POLLNVAL) \<noteq> 0 \<and> hasErrorCallback ch then [ErrorCb] else []"
  let ?r = "\<lambda>ch. if chRevents ch AND (POLLIN OR POLLPRI OR POLLRDHUP) \<noteq> 0 \<and> hasReadCallback ch then [ReadCb] else []"
  let ?w = "\<lambda>ch. if chRevents ch AND POLLOUT \<noteq> 0 \<and> hasWriteCallback ch then [WriteCb] else []"
  let ?fin = "\<lambda>s. Inr ((fst s)\<lparr>eventHandling := False\<rparr>, snd s)"
  note fix_key = foldR_keeps_dispatch[OF keep, unfolded dispatch_key_def]
  have "handleEventWithGuard run (ch, w) =
      bindR (foldR run (?c ?ch) (?ch, w)) (\<lambda>s2. bindR (foldR run (?e (fst s2)) s2) (\<lambda>s3.
      bindR (foldR run (?r (fst s3)) s3) (\<lambda>s4. bindR (foldR run (?w (fst s4)) s4) ?fin)))"
    by (simp add: handleEventWithGuard_def run_if_foldR)
  also have "\<dots> = bindR (foldR run (?c ?ch) (?ch, w)) (\<lambda>s2. bindR (foldR run (?e ?ch) s2) (\<lambda>s3.
      bindR (foldR run (?r ?ch) s3) (\<lambda>s4. bindR (foldR run (?w ?ch) s4) ?fin)))"
  proof (rule bindR_foldR_cong, goal_cases)
    case (1 s2)
    note k2 = fix_key[OF 1]
    have "bindR (foldR run (?e ?ch) s2) (\<lambda>s3. bindR (foldR run (?r (fst s3)) s3) (\<lambda>s4. bindR (foldR run (?w (fst s4)) s4) ?fin))
        = bindR (foldR run (?e ?ch) s2) (\<lambda>s3. bindR (foldR run (?r ?ch) s3) (\<lambda>s4. bindR (foldR run (?w ?ch) s4) ?fin))"
    proof (rule bindR_foldR_cong, goal_cases)
      case (1 s3)
      note k3 = fix_key[OF 1] k2
      have "bindR (foldR run (?r ?ch) s3) (\<lambda>s4. bindR (foldR run (?w (fst s4)) s4) ?fin)
          = bindR (foldR run (?r ?ch) s3) (\<lambda>s4. bindR (foldR run (?w ?ch) s4) ?fin)"
        by (rule bindR_foldR_cong, drule fix_key) (use k3 in simp)
      then show ?case using k3 by simp
    qed
    then show ?case using k2 by simp
  qed
  also have "\<dots> = bindR (foldR run (wanted_cbs ?ch) (?ch, w)) ?fin"
    by (simp only: wanted_cbs_def foldR_append bindR_assoc)
  also have "wanted_cbs ?ch = wanted_cbs ch" by (rule wanted_cbs_key) (simp add: dispatch_key_def)
  finally show ?thesis .
qed

text \<open>
  Dispatch is exact. When callbacks leave the channel's active mask and callback
  slots alone (only pollers write the mask), \<open>handleEvent\<close> runs precisely the callbacks
  the mask asks for, in the order close, error, read, write, with the handling flag up during
  them and down afterwards; a channel tied to an owner that is gone runs none at all.
\<close>

theorem handleEvent_exact:
  assumes "keeps_dispatch run"
  shows "handleEvent alive run (ch, w) =
    (if tied ch \<and> \<not> (\<exists>obj. chTie ch = Some obj \<and> alive obj) then Inr (ch, w)
     else bindR (foldR run (wanted_cbs ch) (ch\<lparr>eventHandling := True\<rparr>, w))
            (\<lambda>s. Inr ((fst s)\<lparr>eventHandling := False\<rparr>, snd s)))"
  by (cases "chTie ch") (auto simp: handleEvent_def handleEventWithGuard_foldR[OF assms])

text \<open>A handler that records its callbacks, for the witness.\<close>

definition record_cb :: "chan_cb \<Rightarrow> channel \<times> chan_cb list \<Rightarrow> (channel \<times> chan_cb list) res" where
  "record_cb cb s = Inr (fst s, snd s @ [cb])"

theorem handleEvent_exact_witness:
  "keeps_dispatch record_cb \<and>
   handleEvent (\<lambda>_. True) record_cb
     ((newChannel 5)\<lparr>chRevents := POLLIN OR POLLOUT, hasReadCallback := True, hasWriteCallback := True\<rparr>, [])
   = Inr ((newChannel 5)\<lparr>chRevents := POLLIN OR POLLOUT, hasReadCallback := True, hasWriteCallback := True\<rparr>,
          [ReadCb, WriteCb])"
proof -
  have keep: "keeps_dispatch record_cb" by (simp add: keeps_dispatch_def record_cb_def)
  show ?thesis using keep
    by (simp add: handleEvent_exact[OF keep] wanted_cbs_def newChannel_def record_cb_def poll_consts)
qed

subsection \<open>Interest masks\<close>

text \<open>The masks a channel takes are the four combinations of reading and writing; enabling and
  disabling one leaves the other as it was.\<close>

definition rw_mask :: "bool \<Rightarrow> bool \<Rightarrow> 32 word" where
  "rw_mask r w = (if r then kReadEvent else 0) OR (if w then kWriteEvent else 0)"

lemma rw_mask_ops:
  "rw_mask r w OR kReadEvent = rw_mask True w" "rw_mask r w AND NOT kReadEvent = rw_mask False w"
  "rw_mask r w OR kWriteEvent = rw_mask r True" "rw_mask r w AND NOT kWriteEvent = rw_mask r False"
  "rw_mask r w = 0 \<longleftrightarrow> \<not> r \<and> \<not> w" "rw_mask r w AND kWriteEvent \<noteq> 0 \<longleftrightarrow> w"
  "kNoneEvent = rw_mask False False"
  by (cases r; cases w; simp add: rw_mask_def kReadEvent_def kWriteEvent_def kNoneEvent_def poll_consts)+

lemma events_masks [simp]:
  assumes "chEvents ch = rw_mask r w"
  shows "chEvents (events_enableReading ch) = rw_mask True w"
    "chEvents (events_disableReading ch) = rw_mask False w"
    "chEvents (events_enableWriting ch) = rw_mask r True"
    "chEvents (events_disableWriting ch) = rw_mask r False"
    "chEvents (events_disableAll ch) = rw_mask False False"
    "isWriting ch \<longleftrightarrow> w" "isNoneEvent ch \<longleftrightarrow> \<not> r \<and> \<not> w"
  using assms by (simp_all add: events_defs isWriting_def isNoneEvent_def rw_mask_ops)
     (cases r; cases w; simp add: rw_mask_def kReadEvent_def kWriteEvent_def poll_consts)

end
