(* ===== verification/PollerContract.thy ===== *)
theory PollerContract
  imports Channel
begin

text \<open>
  \<open>muduo::net::Poller\<close> (\<open>muduo/net/Poller.h\<close>): the interface the two IO multiplexers implement.
  A channel is a pointer (a number) into a heap of \<open>channel\<close> records. The abstract state of a
  poller is the map from descriptors to registered channels and each channel's interest mask;
  the locale \<open>poller_contract\<close> says what \<open>updateChannel\<close> and \<open>removeChannel\<close> promise against it,
  and \<open>reenabling_poller\<close> adds the promise for channels that were switched off with \<open>disableAll\<close> or
  removed and come back.
\<close>

datatype interest_op = EnableReading | DisableReading | EnableWriting | DisableWriting | DisableAll

fun apply_interest :: "interest_op \<Rightarrow> channel \<Rightarrow> channel" where
  "apply_interest EnableReading ch = events_enableReading ch"
| "apply_interest DisableReading ch = events_disableReading ch"
| "apply_interest EnableWriting ch = events_enableWriting ch"
| "apply_interest DisableWriting ch = events_disableWriting ch"
| "apply_interest DisableAll ch = events_disableAll ch"

fun apply_mask :: "interest_op \<Rightarrow> 32 word \<Rightarrow> 32 word" where
  "apply_mask EnableReading m = m OR kReadEvent"
| "apply_mask DisableReading m = m AND NOT kReadEvent"
| "apply_mask EnableWriting m = m OR kWriteEvent"
| "apply_mask DisableWriting m = m AND NOT kWriteEvent"
| "apply_mask DisableAll m = kNoneEvent"

lemma apply_interest_update: "apply_interest op ch = ch\<lparr>chEvents := apply_mask op (chEvents ch)\<rparr>"
  by (cases op) (simp_all add: events_defs)

definition is_rw_mask :: "32 word \<Rightarrow> bool" where
  "is_rw_mask m \<longleftrightarrow> m \<in> {0, kReadEvent, kWriteEvent, kReadEvent OR kWriteEvent}"

lemma is_rw_mask_apply: "is_rw_mask m \<Longrightarrow> is_rw_mask (apply_mask op m)"
  by (cases op) (auto simp: is_rw_mask_def kReadEvent_def kWriteEvent_def kNoneEvent_def poll_consts)

definition heap_interest :: "interest_op \<Rightarrow> nat \<Rightarrow> (nat \<Rightarrow> channel) \<Rightarrow> nat \<Rightarrow> channel" where
  "heap_interest op c h = h(c := apply_interest op (h c))"

definition heap_index :: "nat \<Rightarrow> int \<Rightarrow> (nat \<Rightarrow> channel) \<Rightarrow> nat \<Rightarrow> channel" where
  "heap_index c i h = h(c := (h c)\<lparr>chIndex := i\<rparr>)"

definition heap_revents :: "nat \<Rightarrow> 32 word \<Rightarrow> (nat \<Rightarrow> channel) \<Rightarrow> nat \<Rightarrow> channel" where
  "heap_revents c r h = h(c := (h c)\<lparr>chRevents := r\<rparr>)"

lemmas heap_defs = heap_interest_def heap_index_def heap_revents_def

text \<open>\<open>EventLoop::assertInLoopThread\<close>: the calling thread must be the loop's, or the process aborts.\<close>

definition assertInLoopThread :: "int \<Rightarrow> int \<Rightarrow> 'a res \<Rightarrow> 'a res" where
  "assertInLoopThread owner cur k =
     (if owner = cur then k else Inl (Aborted ''EventLoop::abortNotInLoopThread''))"

lemma assertInLoopThread_same [simp]: "assertInLoopThread t t k = k"
  by (simp add: assertInLoopThread_def)

subsection \<open>The abstract poller\<close>

datatype poller_call = Interest nat interest_op | Unregister nat

type_synonym poller_spec = "(int \<rightharpoonup> nat) \<times> (nat \<Rightarrow> 32 word)"

fun spec_step :: "(nat \<Rightarrow> int) \<Rightarrow> poller_call \<Rightarrow> poller_spec \<Rightarrow> poller_spec" where
  "spec_step fd (Interest c op) (R, M) = (R(fd c \<mapsto> c), M(c := apply_mask op (M c)))"
| "spec_step fd (Unregister c) (R, M) = (R(fd c := None), M)"

definition spec_watched :: "poller_spec \<Rightarrow> int \<rightharpoonup> 32 word" where
  "spec_watched RM f = (case fst RM f of None \<Rightarrow> None
     | Some c \<Rightarrow> if snd RM c = 0 then None else Some (snd RM c))"

text \<open>The calls the clients make: a channel is first registered with some interest, its interest
  changes while it has some, and it is removed once it has none. \<open>U\<close> are the channels that were
  removed before: they are not registered a second time.\<close>

fun legal :: "(nat \<Rightarrow> int) \<Rightarrow> nat set \<Rightarrow> poller_call \<Rightarrow> poller_spec \<Rightarrow> bool" where
  "legal fd U (Interest c op) (R, M) \<longleftrightarrow>
     R (fd c) = None \<and> c \<notin> U \<and> apply_mask op (M c) \<noteq> 0 \<or> R (fd c) = Some c \<and> M c \<noteq> 0"
| "legal fd U (Unregister c) (R, M) \<longleftrightarrow> R (fd c) = Some c \<and> M c = 0"

text \<open>The same, but interest may come back after it was switched off, and a removed channel may be
  registered again.\<close>

fun legal_again :: "(nat \<Rightarrow> int) \<Rightarrow> nat set \<Rightarrow> poller_call \<Rightarrow> poller_spec \<Rightarrow> bool" where
  "legal_again fd U (Interest c op) (R, M) \<longleftrightarrow>
     R (fd c) = None \<and> apply_mask op (M c) \<noteq> 0
   \<or> R (fd c) = Some c \<and> (M c \<noteq> 0 \<or> apply_mask op (M c) \<noteq> 0)"
| "legal_again fd U (Unregister c) (R, M) \<longleftrightarrow> R (fd c) = Some c \<and> M c = 0"

fun retire :: "poller_call \<Rightarrow> nat set \<Rightarrow> nat set" where
  "retire (Interest c op) U = U"
| "retire (Unregister c) U = insert c U"

fun legal_run ::
  "((nat \<Rightarrow> int) \<Rightarrow> nat set \<Rightarrow> poller_call \<Rightarrow> poller_spec \<Rightarrow> bool) \<Rightarrow> (nat \<Rightarrow> int) \<Rightarrow> nat set \<Rightarrow> poller_call list
     \<Rightarrow> poller_spec \<Rightarrow> bool" where
  "legal_run ok fd U [] RM \<longleftrightarrow> True"
| "legal_run ok fd U (x # xs) RM \<longleftrightarrow> ok fd U x RM \<and> legal_run ok fd (retire x U) xs (spec_step fd x RM)"

definition spec_run :: "(nat \<Rightarrow> int) \<Rightarrow> poller_call list \<Rightarrow> poller_spec \<Rightarrow> poller_spec" where
  "spec_run fd xs RM = fold (spec_step fd) xs RM"

lemma spec_run_append: "spec_run fd (xs @ ys) RM = spec_run fd ys (spec_run fd xs RM)"
  by (simp add: spec_run_def)

lemma legal_run_append:
  "legal_run ok fd U (xs @ ys) RM \<longleftrightarrow> legal_run ok fd U xs RM \<and> legal_run ok fd (fold retire xs U) ys (spec_run fd xs RM)"
  by (induction xs arbitrary: U RM) (auto simp: spec_run_def)

fun target :: "poller_call \<Rightarrow> nat" where
  "target (Interest c op) = c"
| "target (Unregister c) = c"

definition do_call ::
  "(nat \<Rightarrow> interest_op \<Rightarrow> 's \<Rightarrow> 's res) \<Rightarrow> (nat \<Rightarrow> 's \<Rightarrow> 's res) \<Rightarrow> poller_call \<Rightarrow> 's \<Rightarrow> 's res" where
  "do_call interest unregister x s =
     (case x of Interest c op \<Rightarrow> interest c op s | Unregister c \<Rightarrow> unregister c s)"

subsection \<open>Several clients of one poller\<close>

text \<open>Each client makes the calls for its own channel. A descriptor is the client's own from its
  first call to its removal; afterwards the kernel may give the number to another client. Whether
  a call is legal and what it leads to then depends on the calls for the same channel only, so
  clients that are each legal alone are legal in any such interleaving. \<open>A\<close> are the clients that are
  registered.\<close>

definition calls_of :: "nat \<Rightarrow> poller_call list \<Rightarrow> poller_call list" where
  "calls_of c xs = filter (\<lambda>x. target x = c) xs"

fun enrol :: "poller_call \<Rightarrow> nat set \<Rightarrow> nat set" where
  "enrol (Interest c op) A = insert c A"
| "enrol (Unregister c) A = A - {c}"

fun fds_own :: "(nat \<Rightarrow> int) \<Rightarrow> nat set \<Rightarrow> poller_call list \<Rightarrow> bool" where
  "fds_own fd A [] \<longleftrightarrow> True"
| "fds_own fd A (x # xs) \<longleftrightarrow> (\<forall>a \<in> A - {target x}. fd a \<noteq> fd (target x)) \<and> fds_own fd (enrol x A) xs"

definition enrolled :: "(nat \<Rightarrow> int) \<Rightarrow> nat set \<Rightarrow> poller_spec \<Rightarrow> bool" where
  "enrolled fd A RM \<longleftrightarrow> (\<forall>f a. fst RM f = Some a \<longleftrightarrow> a \<in> A \<and> fd a = f)"

definition own_view :: "(nat \<Rightarrow> int) \<Rightarrow> nat set \<Rightarrow> nat \<Rightarrow> poller_spec \<Rightarrow> poller_spec \<Rightarrow> bool" where
  "own_view fd A c RM RM' \<longleftrightarrow> fst RM' (fd c) = (if c \<in> A then Some c else None) \<and> snd RM c = snd RM' c"

lemma enrolled_step:
  assumes "enrolled fd A RM" and "\<forall>a \<in> A - {target x}. fd a \<noteq> fd (target x)"
  shows "enrolled fd (enrol x A) (spec_step fd x RM)"
  using assms by (cases x; cases RM) (auto simp: enrolled_def)

lemma own_view_step:
  assumes "own_view fd A c RM RM'" and "target x = c"
  shows "own_view fd (enrol x A) c (spec_step fd x RM) (spec_step (\<lambda>_. fd c) x RM')"
  using assms by (cases x; cases RM; cases RM') (auto simp: own_view_def)

lemma own_view_other:
  assumes "own_view fd A c RM RM'" and "target x \<noteq> c"
  shows "own_view fd (enrol x A) c (spec_step fd x RM) RM'"
  using assms by (cases x; cases RM; cases RM') (auto simp: own_view_def)

lemma enrolled_at:
  assumes "enrolled fd A RM" and "\<forall>a \<in> A - {c}. fd a \<noteq> fd c"
  shows "fst RM (fd c) = (if c \<in> A then Some c else None)"
proof (cases "fst RM (fd c)")
  case None
  have "fst RM (fd c) = Some c" if "c \<in> A" using assms(1) that by (simp add: enrolled_def)
  then show ?thesis using None by auto
next
  case (Some a)
  then have "a \<in> A" "fd a = fd c" using assms(1) by (auto simp: enrolled_def)
  then show ?thesis using assms(2) Some by auto
qed

lemma legal_own_view:
  assumes "enrolled fd A RM" and "\<forall>a \<in> A - {c}. fd a \<noteq> fd c"
    and "own_view fd A c RM RM'" and "target x = c" and "c \<in> U \<longrightarrow> c \<in> U'"
  shows "legal (\<lambda>_. fd c) U' x RM' \<Longrightarrow> legal fd U x RM"
  using enrolled_at[OF assms(1,2)] assms(3-5) by (cases x; cases RM; cases RM') (auto simp: own_view_def split: if_splits)

lemma legal_run_interleave:
  assumes "fds_own fd A xs" and "enrolled fd A RM"
    and "\<And>c. c \<in> target ` set xs \<Longrightarrow>
      \<exists>U' RM'. own_view fd A c RM RM' \<and> (c \<in> U \<longrightarrow> c \<in> U') \<and> legal_run legal (\<lambda>_. fd c) U' (calls_of c xs) RM'"
  shows "legal_run legal fd U xs RM"
  using assms
proof (induction xs arbitrary: U RM A)
  case (Cons x xs)
  let ?t = "target x"
  obtain U' RM' where t: "own_view fd A ?t RM RM'" "?t \<in> U \<longrightarrow> ?t \<in> U'"
      "legal_run legal (\<lambda>_. fd ?t) U' (calls_of ?t (x # xs)) RM'"
    using Cons.prems(3)[of ?t] by auto
  from t(3) have lx: "legal (\<lambda>_. fd ?t) U' x RM'"
    and rest: "legal_run legal (\<lambda>_. fd ?t) (retire x U') (calls_of ?t xs) (spec_step (\<lambda>_. fd ?t) x RM')"
    by (simp_all add: calls_of_def)
  have own: "\<forall>a \<in> A - {?t}. fd a \<noteq> fd ?t" "fds_own fd (enrol x A) xs" using Cons.prems(1) by simp_all
  have "legal fd U x RM" by (rule legal_own_view[OF Cons.prems(2) own(1) t(1) refl t(2) lx])
  moreover have "legal_run legal fd (retire x U) xs (spec_step fd x RM)"
  proof (rule Cons.IH[OF own(2) enrolled_step[OF Cons.prems(2) own(1)]])
    fix d assume d: "d \<in> target ` set xs"
    show "\<exists>U' RM'. own_view fd (enrol x A) d (spec_step fd x RM) RM' \<and> (d \<in> retire x U \<longrightarrow> d \<in> U')
        \<and> legal_run legal (\<lambda>_. fd d) U' (calls_of d xs) RM'"
    proof (cases "d = ?t")
      case True
      have "?t \<in> retire x U \<longrightarrow> ?t \<in> retire x U'" using t(2) by (cases x) auto
      with True rest own_view_step[OF t(1) refl] show ?thesis by blast
    next
      case False
      from Cons.prems(3)[of d] d obtain U1 RM1 where d1: "own_view fd A d RM RM1" "d \<in> U \<longrightarrow> d \<in> U1"
          "legal_run legal (\<lambda>_. fd d) U1 (calls_of d (x # xs)) RM1" by auto
      have "own_view fd (enrol x A) d (spec_step fd x RM) RM1" by (rule own_view_other[OF d1(1)]) (use False in simp)
      moreover have "d \<in> retire x U \<longrightarrow> d \<in> U1" using False d1(2) by (cases x) auto
      moreover have "legal_run legal (\<lambda>_. fd d) U1 (calls_of d xs) RM1" using d1(3) False by (simp add: calls_of_def)
      ultimately show ?thesis by blast
    qed
  qed
  ultimately show ?case by simp
qed simp

lemma spec_run_enrolled:
  assumes "fds_own fd A xs" and "enrolled fd A RM" and "own_view fd A c RM RM'"
  shows "enrolled fd (fold enrol xs A) (spec_run fd xs RM)
    \<and> own_view fd (fold enrol xs A) c (spec_run fd xs RM) (spec_run (\<lambda>_. fd c) (calls_of c xs) RM')"
  using assms
proof (induction xs arbitrary: RM RM' A)
  case (Cons x xs)
  have own: "fds_own fd (enrol x A) xs" using Cons.prems(1) by simp
  have en: "enrolled fd (enrol x A) (spec_step fd x RM)"
    by (rule enrolled_step[OF Cons.prems(2)]) (use Cons.prems(1) in simp)
  show ?case
  proof (cases "target x = c")
    case True
    with Cons.IH[OF own en own_view_step[OF Cons.prems(3) True]] show ?thesis by (simp add: calls_of_def spec_run_def)
  next
    case False
    with Cons.IH[OF own en own_view_other[OF Cons.prems(3) False]] show ?thesis by (simp add: calls_of_def spec_run_def)
  qed
qed (simp add: spec_run_def calls_of_def)

text \<open>What the poller watches in the end, client by client.\<close>

lemma spec_watched_enrolled:
  assumes "enrolled fd A RM" and view: "\<And>c. own_view fd A c RM (RM' c)"
  shows "spec_watched (RM' c) (fd c) = Some m \<Longrightarrow> spec_watched RM (fd c) = Some m"
    and "spec_watched RM f = Some m \<Longrightarrow> \<exists>c. fd c = f \<and> spec_watched (RM' c) (fd c) = Some m"
proof -
  assume "spec_watched (RM' c) (fd c) = Some m"
  with view[of c] have "c \<in> A" "snd RM c \<noteq> 0" "m = snd RM c"
    by (auto simp: own_view_def spec_watched_def split: option.splits if_splits)
  moreover have "fst RM (fd c) = Some c" using assms(1) \<open>c \<in> A\<close> by (simp add: enrolled_def)
  ultimately show "spec_watched RM (fd c) = Some m" by (simp add: spec_watched_def)
next
  assume w: "spec_watched RM f = Some m"
  then obtain c where c: "fst RM f = Some c" "snd RM c \<noteq> 0" "m = snd RM c"
    by (auto simp: spec_watched_def split: option.splits if_splits)
  then have "c \<in> A" "fd c = f" using assms(1) by (auto simp: enrolled_def)
  then show "\<exists>c. fd c = f \<and> spec_watched (RM' c) (fd c) = Some m"
    using view[of c] c by (auto simp: own_view_def spec_watched_def)
qed

lemma legal_imp_legal_again:
  "legal_run legal fd U xs RM \<Longrightarrow> legal_run legal_again fd U xs RM"
proof (induction xs arbitrary: U RM)
  case (Cons x xs)
  then show ?case by (cases x; cases RM) auto
qed simp

subsection \<open>The contract\<close>

locale poller_contract =
  fixes interest :: "nat \<Rightarrow> interest_op \<Rightarrow> 's \<Rightarrow> 's res"
    and unregister :: "nat \<Rightarrow> 's \<Rightarrow> 's res"
    and fd_of :: "'s \<Rightarrow> nat \<Rightarrow> int"
    and state_of :: "'s \<Rightarrow> poller_spec"
    and watched :: "'s \<Rightarrow> int \<rightharpoonup> 32 word"
    and fresh :: "'s \<Rightarrow> nat set"
    and inv :: "'s \<Rightarrow> bool"
  assumes watched_law: "inv s \<Longrightarrow> watched s = spec_watched (state_of s)"
    and call_law: "inv s \<Longrightarrow> legal (fd_of s) (- fresh s) x (state_of s) \<Longrightarrow>
          \<exists>s'. do_call interest unregister x s = Inr s' \<and> inv s' \<and> fd_of s' = fd_of s
             \<and> state_of s' = spec_step (fd_of s) x (state_of s)
             \<and> fresh s - {target x} \<subseteq> fresh s'"
begin

text \<open>A channel that is neither registered nor retired is still fresh.\<close>

definition fresh_upto :: "nat set \<Rightarrow> 's \<Rightarrow> bool" where
  "fresh_upto U s \<longleftrightarrow> (\<forall>c. c \<in> U \<or> c \<in> fresh s \<or> fst (state_of s) (fd_of s c) = Some c)"

lemma call_law_upto:
  assumes "inv s" "legal (fd_of s) U x (state_of s)" "fresh_upto U s"
  shows "\<exists>s'. do_call interest unregister x s = Inr s' \<and> inv s' \<and> fd_of s' = fd_of s
           \<and> state_of s' = spec_step (fd_of s) x (state_of s) \<and> fresh_upto (retire x U) s'"
proof -
  obtain R M where RM: "state_of s = (R, M)" by (cases "state_of s")
  have "legal (fd_of s) (- fresh s) x (state_of s)"
    using assms(2,3) RM by (cases x) (auto simp: fresh_upto_def)
  from call_law[OF assms(1) this] obtain s' where s': "do_call interest unregister x s = Inr s'" "inv s'"
      "fd_of s' = fd_of s" "state_of s' = spec_step (fd_of s) x (state_of s)" "fresh s - {target x} \<subseteq> fresh s'"
    by blast
  have "c \<in> retire x U \<or> c \<in> fresh s' \<or> fst (state_of s') (fd_of s' c) = Some c" for c
  proof (cases "c = target x")
    case True
    then show ?thesis using s'(3,4) RM by (cases x) auto
  next
    case False
    then show ?thesis
      using assms(2,3) s'(3-5) RM by (cases x) (auto simp: fresh_upto_def)
  qed
  with s' show ?thesis by (auto simp: fresh_upto_def)
qed

lemma run_refines:
  assumes "inv s" "legal_run legal (fd_of s) U xs (state_of s)" "fresh_upto U s"
  shows "\<exists>s'. foldR (do_call interest unregister) xs s = Inr s' \<and> inv s'
           \<and> state_of s' = spec_run (fd_of s) xs (state_of s)"
  using assms
proof (induction xs arbitrary: s U)
  case (Cons x xs)
  then obtain s1 where s1: "do_call interest unregister x s = Inr s1" "inv s1" "fd_of s1 = fd_of s"
      "state_of s1 = spec_step (fd_of s) x (state_of s)" "fresh_upto (retire x U) s1"
    using call_law_upto by (metis legal_run.simps(2))
  from Cons.IH[OF s1(2) _ s1(5)] Cons.prems(2) s1 show ?case by (auto simp: spec_run_def)
qed (simp add: spec_run_def)

lemma run_watched:
  assumes "inv s" "legal_run legal (fd_of s) {} xs (state_of s)" "fresh_upto {} s"
  shows "\<exists>s'. foldR (do_call interest unregister) xs s = Inr s' \<and> inv s'
           \<and> watched s' = spec_watched (spec_run (fd_of s) xs (state_of s))"
  using run_refines[OF assms] watched_law by metis

end

locale reenabling_poller = poller_contract +
  assumes again_law: "inv s \<Longrightarrow> legal_again (fd_of s) (- fresh s) x (state_of s) \<Longrightarrow>
      \<exists>s'. do_call interest unregister x s = Inr s' \<and> inv s' \<and> fd_of s' = fd_of s
         \<and> state_of s' = spec_step (fd_of s) x (state_of s)"
begin

lemma run_refines_again:
  assumes "inv s" "legal_run legal_again (fd_of s) U xs (state_of s)"
  shows "\<exists>s'. foldR (do_call interest unregister) xs s = Inr s' \<and> inv s'
           \<and> state_of s' = spec_run (fd_of s) xs (state_of s)"
  using assms
proof (induction xs arbitrary: s U)
  case (Cons x xs)
  have "legal_again (fd_of s) (- fresh s) x (state_of s)"
    using Cons.prems(2) by (cases x; cases "state_of s") auto
  then obtain s1 where s1: "do_call interest unregister x s = Inr s1" "inv s1" "fd_of s1 = fd_of s"
      "state_of s1 = spec_step (fd_of s) x (state_of s)"
    using again_law[OF Cons.prems(1)] by blast
  from Cons.IH[OF s1(2)] Cons.prems(2) s1 show ?case by (auto simp: spec_run_def)
qed (simp add: spec_run_def)

lemma run_watched_again:
  assumes "inv s" "legal_run legal_again (fd_of s) {} xs (state_of s)"
  shows "\<exists>s'. foldR (do_call interest unregister) xs s = Inr s' \<and> inv s'
           \<and> watched s' = spec_watched (spec_run (fd_of s) xs (state_of s))"
  using run_refines_again[OF assms] watched_law by metis

end

end
