(* ===== verification/EPollPoller.thy ===== *)
theory EPollPoller
  imports PollerContract
begin

text \<open>
  \<open>muduo::net::EPollPoller\<close> (\<open>muduo/net/poller/EPollPoller.cc\<close>). The kernel's epoll instance is a
  parameter: \<open>ctl\<close> is \<open>epoll_ctl(2)\<close> on a kernel state, \<open>reg\<close> reads the interest list, and
  \<open>epoll_ctl_spec\<close> is the documented behaviour (ADD of a new descriptor, MOD and DEL of a
  registered one succeed; the opposite fails and changes nothing). The events that
  \<open>epoll_wait(2)\<close> returns are an argument of \<open>poll\<close>.
\<close>

datatype ctl_op = EPOLL_CTL_ADD | EPOLL_CTL_MOD | EPOLL_CTL_DEL

type_synonym epoll_data = "32 word \<times> nat"

definition epoll_ctl_spec ::
  "(ctl_op \<Rightarrow> int \<Rightarrow> epoll_data \<Rightarrow> 'k \<Rightarrow> 'k \<times> bool) \<Rightarrow> ('k \<Rightarrow> int \<rightharpoonup> epoll_data) \<Rightarrow> bool" where
  "epoll_ctl_spec ctl reg \<longleftrightarrow> (\<forall>k fd ev.
     (reg k fd = None \<longrightarrow> snd (ctl EPOLL_CTL_ADD fd ev k) \<and> reg (fst (ctl EPOLL_CTL_ADD fd ev k)) = (reg k)(fd \<mapsto> ev)
        \<and> \<not> snd (ctl EPOLL_CTL_MOD fd ev k) \<and> reg (fst (ctl EPOLL_CTL_MOD fd ev k)) = reg k
        \<and> \<not> snd (ctl EPOLL_CTL_DEL fd ev k) \<and> reg (fst (ctl EPOLL_CTL_DEL fd ev k)) = reg k)
   \<and> (reg k fd \<noteq> None \<longrightarrow> \<not> snd (ctl EPOLL_CTL_ADD fd ev k) \<and> reg (fst (ctl EPOLL_CTL_ADD fd ev k)) = reg k
        \<and> snd (ctl EPOLL_CTL_MOD fd ev k) \<and> reg (fst (ctl EPOLL_CTL_MOD fd ev k)) = (reg k)(fd \<mapsto> ev)
        \<and> snd (ctl EPOLL_CTL_DEL fd ev k) \<and> reg (fst (ctl EPOLL_CTL_DEL fd ev k)) = (reg k)(fd := None)))"

definition kNew :: int where "kNew = -1"
definition kAdded :: int where "kAdded = 1"
definition kDeleted :: int where "kDeleted = 2"

definition kInitEventListSize :: nat where "kInitEventListSize = 16"

lemmas index_consts = kNew_def kAdded_def kDeleted_def

record 'k epoller =
  epOwner :: int
  epHeap :: "nat \<Rightarrow> channel"
  epChannels :: "int \<rightharpoonup> nat"
  epEvents :: nat
  epKern :: 'k

definition newEPollPoller :: "int \<Rightarrow> (nat \<Rightarrow> channel) \<Rightarrow> 'k \<Rightarrow> 'k epoller" where
  "newEPollPoller owner h k = \<lparr>epOwner = owner, epHeap = h, epChannels = Map.empty,
     epEvents = kInitEventListSize, epKern = k\<rparr>"

subsection \<open>Waiting\<close>

datatype wait_result = WaitError int | WaitEvents "(32 word \<times> nat) list"

fun ep_fill :: "(32 word \<times> nat) list \<Rightarrow> 'k epoller \<Rightarrow> (nat list \<times> 'k epoller) res" where
  "ep_fill [] s = Inr ([], s)"
| "ep_fill ((revents, c) # evs) s =
     ensure (epChannels s (chFd (epHeap s c)) \<noteq> None) ''fillActiveChannels: it != channels_.end()''
    (ensure (epChannels s (chFd (epHeap s c)) = Some c) ''fillActiveChannels: it->second == channel''
    (bindR (ep_fill evs (s\<lparr>epHeap := heap_revents c revents (epHeap s)\<rparr>)) (\<lambda>(cs, s').
     Inr (c # cs, s'))))"

definition ep_fillActiveChannels :: "(32 word \<times> nat) list \<Rightarrow> 'k epoller \<Rightarrow> (nat list \<times> 'k epoller) res" where
  "ep_fillActiveChannels evs s =
     ensure (length evs \<le> epEvents s) ''fillActiveChannels: numEvents <= events_.size()'' (ep_fill evs s)"

definition ep_poll :: "wait_result \<Rightarrow> 'k epoller \<Rightarrow> (nat list \<times> 'k epoller) res" where
  "ep_poll r s =
     (case r of
        WaitError _ \<Rightarrow> Inr ([], s)
      | WaitEvents evs \<Rightarrow>
          if evs = [] then Inr ([], s)
          else bindR (ep_fillActiveChannels evs s) (\<lambda>(cs, s').
               Inr (cs, if length evs = epEvents s' then s'\<lparr>epEvents := epEvents s' * 2\<rparr> else s')))"

subsection \<open>Changing the interest list\<close>

definition ep_update ::
  "(ctl_op \<Rightarrow> int \<Rightarrow> epoll_data \<Rightarrow> 'k \<Rightarrow> 'k \<times> bool) \<Rightarrow> ctl_op \<Rightarrow> nat \<Rightarrow> 'k epoller \<Rightarrow> 'k epoller res" where
  "ep_update ctl operation c s =
     (let ch = epHeap s c;
          (k', ok) = ctl operation (chFd ch) (chEvents ch, c) (epKern s);
          s' = s\<lparr>epKern := k'\<rparr>
      in if ok then Inr s'
         else if operation = EPOLL_CTL_DEL then Inr s'
         else Inl (Aborted ''epoll_ctl''))"

definition ep_updateChannel ::
  "(ctl_op \<Rightarrow> int \<Rightarrow> epoll_data \<Rightarrow> 'k \<Rightarrow> 'k \<times> bool) \<Rightarrow> int \<Rightarrow> nat \<Rightarrow> 'k epoller \<Rightarrow> 'k epoller res" where
  "ep_updateChannel ctl cur c s =
     assertInLoopThread (epOwner s) cur
     (let ch = epHeap s c; index = chIndex ch; fd = chFd ch in
      if index = kNew \<or> index = kDeleted then
        bindR (if index = kNew
               then ensure (epChannels s fd = None) ''updateChannel: channels_.find(fd) == channels_.end()''
                      (Inr (s\<lparr>epChannels := (epChannels s)(fd \<mapsto> c)\<rparr>))
               else ensure (epChannels s fd \<noteq> None) ''updateChannel: channels_.find(fd) != channels_.end()''
                   (ensure (epChannels s fd = Some c) ''updateChannel: channels_[fd] == channel'' (Inr s)))
        (\<lambda>s1. ep_update ctl EPOLL_CTL_ADD c (s1\<lparr>epHeap := heap_index c kAdded (epHeap s1)\<rparr>))
      else
        ensure (epChannels s fd \<noteq> None) ''updateChannel: channels_.find(fd) != channels_.end()''
       (ensure (epChannels s fd = Some c) ''updateChannel: channels_[fd] == channel''
       (ensure (index = kAdded) ''updateChannel: index == kAdded''
       (if isNoneEvent ch
        then bindR (ep_update ctl EPOLL_CTL_DEL c s) (\<lambda>s1.
               Inr (s1\<lparr>epHeap := heap_index c kDeleted (epHeap s1)\<rparr>))
        else ep_update ctl EPOLL_CTL_MOD c s))))"

definition ep_removeChannel ::
  "(ctl_op \<Rightarrow> int \<Rightarrow> epoll_data \<Rightarrow> 'k \<Rightarrow> 'k \<times> bool) \<Rightarrow> int \<Rightarrow> nat \<Rightarrow> 'k epoller \<Rightarrow> 'k epoller res" where
  "ep_removeChannel ctl cur c s =
     assertInLoopThread (epOwner s) cur
     (let ch = epHeap s c; fd = chFd ch; index = chIndex ch in
      ensure (epChannels s fd \<noteq> None) ''removeChannel: channels_.find(fd) != channels_.end()''
     (ensure (epChannels s fd = Some c) ''removeChannel: channels_[fd] == channel''
     (ensure (isNoneEvent ch) ''removeChannel: isNoneEvent()''
     (ensure (index = kAdded \<or> index = kDeleted) ''removeChannel: index''
     (let s1 = s\<lparr>epChannels := (epChannels s)(fd := None)\<rparr> in
      bindR (if index = kAdded then ep_update ctl EPOLL_CTL_DEL c s1 else Inr s1) (\<lambda>s2.
      Inr (s2\<lparr>epHeap := heap_index c kNew (epHeap s2)\<rparr>)))))))"

text \<open>\<open>Channel::enableReading\<close> and its siblings, and \<open>Channel::remove\<close>, as they reach this poller.\<close>

definition ep_interest ::
  "(ctl_op \<Rightarrow> int \<Rightarrow> epoll_data \<Rightarrow> 'k \<Rightarrow> 'k \<times> bool) \<Rightarrow> int \<Rightarrow> nat \<Rightarrow> interest_op \<Rightarrow> 'k epoller \<Rightarrow> 'k epoller res" where
  "ep_interest ctl cur c op s =
     ep_updateChannel ctl cur c (s\<lparr>epHeap := heap_interest op c (epHeap s)\<rparr>)"

definition ep_remove ::
  "(ctl_op \<Rightarrow> int \<Rightarrow> epoll_data \<Rightarrow> 'k \<Rightarrow> 'k \<times> bool) \<Rightarrow> int \<Rightarrow> nat \<Rightarrow> 'k epoller \<Rightarrow> 'k epoller res" where
  "ep_remove ctl cur c s =
     ensure (isNoneEvent (epHeap s c)) ''Channel::remove: isNoneEvent()'' (ep_removeChannel ctl cur c s)"

subsection \<open>Invariant\<close>

definition ep_state :: "'k epoller \<Rightarrow> poller_spec" where
  "ep_state s = (epChannels s, \<lambda>c. chEvents (epHeap s c))"

definition ep_fd_of :: "'k epoller \<Rightarrow> nat \<Rightarrow> int" where
  "ep_fd_of s c = chFd (epHeap s c)"

definition ep_watched :: "('k \<Rightarrow> int \<rightharpoonup> epoll_data) \<Rightarrow> 'k epoller \<Rightarrow> int \<rightharpoonup> 32 word" where
  "ep_watched reg s fd = map_option fst (reg (epKern s) fd)"

definition ep_inv :: "int \<Rightarrow> ('k \<Rightarrow> int \<rightharpoonup> epoll_data) \<Rightarrow> 'k epoller \<Rightarrow> bool" where
  "ep_inv cur reg s \<longleftrightarrow> epOwner s = cur \<and> 0 < epEvents s
   \<and> (\<forall>fd c. epChannels s fd = Some c \<longrightarrow> chFd (epHeap s c) = fd)
   \<and> (\<forall>c. (if epChannels s (chFd (epHeap s c)) = Some c
           then chIndex (epHeap s c) = (if chEvents (epHeap s c) = 0 then kDeleted else kAdded)
           else chIndex (epHeap s c) = kNew))
   \<and> (\<forall>fd. reg (epKern s) fd = (case epChannels s fd of None \<Rightarrow> None
        | Some c \<Rightarrow> if chEvents (epHeap s c) = 0 then None else Some (chEvents (epHeap s c), c)))"

lemma ep_invD:
  assumes "ep_inv cur reg s"
  shows "epOwner s = cur" "0 < epEvents s"
    "\<And>fd c. epChannels s fd = Some c \<Longrightarrow> chFd (epHeap s c) = fd"
    "\<And>c. epChannels s (chFd (epHeap s c)) = Some c \<Longrightarrow>
       chIndex (epHeap s c) = (if chEvents (epHeap s c) = 0 then kDeleted else kAdded)"
    "\<And>c. epChannels s (chFd (epHeap s c)) \<noteq> Some c \<Longrightarrow> chIndex (epHeap s c) = kNew"
    "\<And>fd. reg (epKern s) fd = (case epChannels s fd of None \<Rightarrow> None
        | Some c \<Rightarrow> if chEvents (epHeap s c) = 0 then None else Some (chEvents (epHeap s c), c))"
proof -
  note I = assms[unfolded ep_inv_def]
  show "epOwner s = cur" "0 < epEvents s" using I by simp_all
  show "chFd (epHeap s c) = fd" if "epChannels s fd = Some c" for fd c using I that by blast
  from I have idx: "if epChannels s (chFd (epHeap s c)) = Some c
      then chIndex (epHeap s c) = (if chEvents (epHeap s c) = 0 then kDeleted else kAdded)
      else chIndex (epHeap s c) = kNew" for c by blast
  show "chIndex (epHeap s c) = (if chEvents (epHeap s c) = 0 then kDeleted else kAdded)"
    if "epChannels s (chFd (epHeap s c)) = Some c" for c using idx[of c] that by simp
  show "chIndex (epHeap s c) = kNew" if "epChannels s (chFd (epHeap s c)) \<noteq> Some c" for c
    using idx[of c] that by simp
  show "reg (epKern s) fd = (case epChannels s fd of None \<Rightarrow> None
      | Some c \<Rightarrow> if chEvents (epHeap s c) = 0 then None else Some (chEvents (epHeap s c), c))" for fd
    using I by blast
qed

lemma ctl_specD:
  assumes "epoll_ctl_spec ctl reg"
  shows "reg k fd = None \<Longrightarrow> \<exists>k'. ctl EPOLL_CTL_ADD fd ev k = (k', True) \<and> reg k' = (reg k)(fd \<mapsto> ev)"
    "reg k fd \<noteq> None \<Longrightarrow> \<exists>k'. ctl EPOLL_CTL_MOD fd ev k = (k', True) \<and> reg k' = (reg k)(fd \<mapsto> ev)"
    "reg k fd \<noteq> None \<Longrightarrow> \<exists>k'. ctl EPOLL_CTL_DEL fd ev k = (k', True) \<and> reg k' = (reg k)(fd := None)"
proof -
  note I = assms[unfolded epoll_ctl_spec_def, THEN spec[of _ k], THEN spec[of _ fd], THEN spec[of _ ev]]
  show "\<exists>k'. ctl EPOLL_CTL_ADD fd ev k = (k', True) \<and> reg k' = (reg k)(fd \<mapsto> ev)" if "reg k fd = None"
    using I that by (intro exI[of _ "fst (ctl EPOLL_CTL_ADD fd ev k)"]) (simp add: prod_eq_iff)
  show "\<exists>k'. ctl EPOLL_CTL_MOD fd ev k = (k', True) \<and> reg k' = (reg k)(fd \<mapsto> ev)" if "reg k fd \<noteq> None"
    using I that by (intro exI[of _ "fst (ctl EPOLL_CTL_MOD fd ev k)"]) (simp add: prod_eq_iff)
  show "\<exists>k'. ctl EPOLL_CTL_DEL fd ev k = (k', True) \<and> reg k' = (reg k)(fd := None)" if "reg k fd \<noteq> None"
    using I that by (intro exI[of _ "fst (ctl EPOLL_CTL_DEL fd ev k)"]) (simp add: prod_eq_iff)
qed


text \<open>Writing one registration into the channel map, the heap and the kernel keeps them in step.\<close>

lemma ep_inv_register:
  assumes inv: "ep_inv cur reg s" and fd: "fd = chFd (epHeap s c)"
    and free: "epChannels s fd = None \<or> epChannels s fd = Some c"
    and s': "epOwner s' = epOwner s" "epEvents s' = epEvents s"
      "epChannels s' = (epChannels s)(fd \<mapsto> c)"
      "epHeap s' = (epHeap s)(c := (epHeap s c)\<lparr>chEvents := m, chIndex := if m = 0 then kDeleted else kAdded\<rparr>)"
      "reg (epKern s') = (reg (epKern s))(fd := if m = 0 then None else Some (m, c))"
  shows "ep_inv cur reg s'" "ep_fd_of s' = ep_fd_of s"
    "ep_state s' = ((fst (ep_state s))(fd \<mapsto> c), (snd (ep_state s))(c := m))"
proof -
  note D = ep_invD[OF inv]
  have other: "chFd (epHeap s d) \<noteq> fd" if "epChannels s (chFd (epHeap s d)) = Some d" "d \<noteq> c" for d
    using that free by auto
  show "ep_inv cur reg s'"
    unfolding ep_inv_def
  proof (intro conjI allI impI)
    show "epOwner s' = cur" "0 < epEvents s'" using s' D(1,2) by simp_all
    show "chFd (epHeap s' d) = f" if "epChannels s' f = Some d" for f d
      using that s' D(3)[of f d] fd by (cases "f = fd") auto
    show "if epChannels s' (chFd (epHeap s' d)) = Some d
           then chIndex (epHeap s' d) = (if chEvents (epHeap s' d) = 0 then kDeleted else kAdded)
           else chIndex (epHeap s' d) = kNew" for d
    proof (cases "d = c")
      case False
      then have "epChannels s' (chFd (epHeap s' d)) = Some d \<longleftrightarrow> epChannels s (chFd (epHeap s d)) = Some d"
        using s' free by auto
      with False show ?thesis using s' D(4,5)[of d] by simp
    qed (use s' fd in simp)
    show "reg (epKern s') f = (case epChannels s' f of None \<Rightarrow> None
        | Some c \<Rightarrow> if chEvents (epHeap s' c) = 0 then None else Some (chEvents (epHeap s' c), c))" for f
    proof (cases "f = fd")
      case False
      then have "d \<noteq> c" if "epChannels s f = Some d" for d using that D(3)[of f d] fd by auto
      with False show ?thesis using s' D(6)[of f] by (simp split: option.split)
    qed (use s' in simp)
  qed
qed (use s' fd in \<open>auto simp: ep_fd_of_def ep_state_def\<close>)

lemma ep_inv_unregister:
  assumes inv: "ep_inv cur reg s" and c: "epChannels s (chFd (epHeap s c)) = Some c"
    and zero: "chEvents (epHeap s c) = 0"
    and s': "s' = s\<lparr>epChannels := (epChannels s)(chFd (epHeap s c) := None),
                    epHeap := heap_index c kNew (epHeap s)\<rparr>"
  shows "ep_inv cur reg s'" "ep_fd_of s' = ep_fd_of s"
    "ep_state s' = ((fst (ep_state s))(chFd (epHeap s c) := None), snd (ep_state s))"
proof -
  note D = ep_invD[OF inv]
  show "ep_inv cur reg s'"
    unfolding ep_inv_def
  proof (intro conjI allI impI)
    show "epOwner s' = cur" "0 < epEvents s'" using s' D(1,2) by simp_all
    show "chFd (epHeap s' d) = f" if "epChannels s' f = Some d" for f d
      using that s' D(3)[of f d] by (auto simp: heap_defs split: if_splits)
    show "if epChannels s' (chFd (epHeap s' d)) = Some d
           then chIndex (epHeap s' d) = (if chEvents (epHeap s' d) = 0 then kDeleted else kAdded)
           else chIndex (epHeap s' d) = kNew" for d
      using s' c D(4,5)[of d] by (auto simp: heap_defs)
    show "reg (epKern s') f = (case epChannels s' f of None \<Rightarrow> None
        | Some c \<Rightarrow> if chEvents (epHeap s' c) = 0 then None else Some (chEvents (epHeap s' c), c))" for f
      using s' D(6)[of f] zero c by (simp add: heap_defs split: option.split)
  qed
qed (use s' in \<open>auto simp: ep_fd_of_def ep_state_def heap_defs\<close>)

lemma ep_interest_law:
  assumes spec: "epoll_ctl_spec ctl reg" and inv: "ep_inv cur reg s"
    and pre: "epChannels s (chFd (epHeap s c)) = None \<and> apply_mask op (chEvents (epHeap s c)) \<noteq> 0
      \<or> epChannels s (chFd (epHeap s c)) = Some c \<and>
        (chEvents (epHeap s c) \<noteq> 0 \<or> apply_mask op (chEvents (epHeap s c)) \<noteq> 0)"
  shows "\<exists>s'. ep_interest ctl cur c op s = Inr s' \<and> ep_inv cur reg s' \<and> ep_fd_of s' = ep_fd_of s
           \<and> ep_state s' = spec_step (ep_fd_of s) (Interest c op) (ep_state s)"
proof -
  define ch fd m where "ch = epHeap s c" and "fd = chFd ch" and "m = apply_mask op (chEvents ch)"
  note D = ep_invD[OF inv]
  note register = ep_inv_register[OF inv fd_def[unfolded ch_def]]
  have goal: ?thesis if "ep_interest ctl cur c op s = Inr s'" "epOwner s' = epOwner s" "epEvents s' = epEvents s"
      "epChannels s' = (epChannels s)(fd \<mapsto> c)"
      "epHeap s' = (epHeap s)(c := ch\<lparr>chEvents := m, chIndex := if m = 0 then kDeleted else kAdded\<rparr>)"
      "reg (epKern s') = (reg (epKern s))(fd := if m = 0 then None else Some (m, c))" for s'
  proof -
    have free: "epChannels s fd = None \<or> epChannels s fd = Some c" using pre by (auto simp: ch_def fd_def)
    note r = register[OF free that(2-4) that(5)[unfolded ch_def] that(6)]
    have "ep_state s' = spec_step (ep_fd_of s) (Interest c op) (ep_state s)"
      by (subst r(3)) (simp add: ch_def fd_def m_def ep_state_def ep_fd_of_def)
    with r(1,2) that(1) show ?thesis by blast
  qed
  have unf: "ep_interest ctl cur c op s = ep_updateChannel ctl cur c
      (s\<lparr>epHeap := (epHeap s)(c := ch\<lparr>chEvents := m\<rparr>)\<rparr>)"
    by (simp add: ep_interest_def heap_defs apply_interest_update ch_def m_def)
  consider (new) "epChannels s fd = None" "m \<noteq> 0" "chIndex ch = kNew"
    | (again) "epChannels s fd = Some c" "chEvents ch = 0" "m \<noteq> 0" "chIndex ch = kDeleted"
    | (live) "epChannels s fd = Some c" "chEvents ch \<noteq> 0" "chIndex ch = kAdded"
    using pre D(4)[of c] D(5)[of c] by (cases "chEvents ch = 0") (auto simp: ch_def fd_def m_def)
  then show ?thesis
  proof cases
    case new
    then have "reg (epKern s) fd = None" using D(6)[of fd] by simp
    from ctl_specD(1)[OF spec this, of "(m, c)"] obtain k' where
      k': "ctl EPOLL_CTL_ADD fd (m, c) (epKern s) = (k', True)" "reg k' = (reg (epKern s))(fd \<mapsto> (m, c))" by blast
    have "ep_interest ctl cur c op s = Inr (s\<lparr>epChannels := (epChannels s)(fd \<mapsto> c),
        epHeap := (epHeap s)(c := ch\<lparr>chEvents := m, chIndex := kAdded\<rparr>), epKern := k'\<rparr>)"
      using new k'(1) D(1)
      by (simp add: unf ep_updateChannel_def ep_update_def heap_defs fd_def Let_def)
    from goal[OF this] new k' show ?thesis by simp
  next
    case again
    then have "reg (epKern s) fd = None" using D(6)[of fd] by (simp add: ch_def)
    from ctl_specD(1)[OF spec this, of "(m, c)"] obtain k' where
      k': "ctl EPOLL_CTL_ADD fd (m, c) (epKern s) = (k', True)" "reg k' = (reg (epKern s))(fd \<mapsto> (m, c))" by blast
    have "ep_interest ctl cur c op s = Inr (s\<lparr>
        epHeap := (epHeap s)(c := ch\<lparr>chEvents := m, chIndex := kAdded\<rparr>), epKern := k'\<rparr>)"
      using again k'(1) D(1)
      by (simp add: unf ep_updateChannel_def ep_update_def heap_defs fd_def Let_def index_consts)
    from goal[OF this] again k' show ?thesis by (simp add: fun_upd_idem)
  next
    case live
    then have "reg (epKern s) fd \<noteq> None" using D(6)[of fd] by (simp add: ch_def)
    from ctl_specD(2)[OF spec this, of "(m, c)"] ctl_specD(3)[OF spec this, of "(m, c)"] obtain k1 k2 where
      k: "ctl EPOLL_CTL_MOD fd (m, c) (epKern s) = (k1, True)" "reg k1 = (reg (epKern s))(fd \<mapsto> (m, c))"
        "ctl EPOLL_CTL_DEL fd (m, c) (epKern s) = (k2, True)" "reg k2 = (reg (epKern s))(fd := None)" by blast
    have keep: "ch\<lparr>chEvents := m, chIndex := 1\<rparr> = ch\<lparr>chEvents := m\<rparr>"
      using live(3) by (simp add: kAdded_def)
    have "ep_interest ctl cur c op s = Inr (s\<lparr>
        epHeap := (epHeap s)(c := ch\<lparr>chEvents := m, chIndex := if m = 0 then kDeleted else kAdded\<rparr>),
        epKern := if m = 0 then k2 else k1\<rparr>)"
      using live k(1,3) D(1)
      by (auto simp: keep unf ep_updateChannel_def ep_update_def heap_defs fd_def Let_def index_consts
          isNoneEvent_def kNoneEvent_def)
    from goal[OF this] live k show ?thesis by (simp add: fun_upd_idem)
  qed
qed

lemma ep_remove_law:
  assumes inv: "ep_inv cur reg s" and c: "epChannels s (chFd (epHeap s c)) = Some c"
    and zero: "chEvents (epHeap s c) = 0"
  shows "\<exists>s'. ep_remove ctl cur c s = Inr s' \<and> ep_inv cur reg s' \<and> ep_fd_of s' = ep_fd_of s
           \<and> ep_state s' = spec_step (ep_fd_of s) (Unregister c) (ep_state s)"
proof -
  let ?s' = "s\<lparr>epChannels := (epChannels s)(chFd (epHeap s c) := None), epHeap := heap_index c kNew (epHeap s)\<rparr>"
  note D = ep_invD[OF inv]
  have "ep_remove ctl cur c s = Inr ?s'"
    using D(1,2) D(4)[OF c] c zero
    by (simp add: ep_remove_def ep_removeChannel_def isNoneEvent_def kNoneEvent_def index_consts Let_def)
  with ep_inv_unregister[OF inv c zero refl] show ?thesis by (simp add: ep_state_def ep_fd_of_def)
qed


subsection \<open>The contract\<close>

text \<open>The documented kernel, with the registrations themselves as its state: the provider the
  contract is interpreted on. The properties below hold for every kernel that satisfies
  \<open>epoll_ctl_spec\<close>.\<close>

definition map_ctl :: "ctl_op \<Rightarrow> int \<Rightarrow> epoll_data \<Rightarrow> (int \<rightharpoonup> epoll_data) \<Rightarrow> (int \<rightharpoonup> epoll_data) \<times> bool" where
  "map_ctl op fd ev k =
     (case op of
        EPOLL_CTL_ADD \<Rightarrow> if k fd = None then (k(fd \<mapsto> ev), True) else (k, False)
      | EPOLL_CTL_MOD \<Rightarrow> if k fd = None then (k, False) else (k(fd \<mapsto> ev), True)
      | EPOLL_CTL_DEL \<Rightarrow> if k fd = None then (k, False) else (k(fd := None), True))"

lemma map_ctl_spec: "epoll_ctl_spec map_ctl (\<lambda>k. k)"
  by (simp add: epoll_ctl_spec_def map_ctl_def)

definition ep_fresh :: "'k epoller \<Rightarrow> nat set" where
  "ep_fresh s = {c. chIndex (epHeap s c) = kNew}"

lemma ep_fresh_iff: "ep_inv cur reg s \<Longrightarrow> c \<in> ep_fresh s \<longleftrightarrow> fst (ep_state s) (ep_fd_of s c) \<noteq> Some c"
  using ep_invD(4,5)[of cur reg s c]
  by (cases "epChannels s (chFd (epHeap s c)) = Some c")
     (auto simp: ep_fresh_def ep_state_def ep_fd_of_def index_consts)

lemma ep_call_law:
  assumes "epoll_ctl_spec ctl reg" and inv: "ep_inv cur reg s"
    and pre: "legal_again (ep_fd_of s) U x (ep_state s)"
  shows "\<exists>s'. do_call (ep_interest ctl cur) (ep_remove ctl cur) x s = Inr s' \<and> ep_inv cur reg s'
     \<and> ep_fd_of s' = ep_fd_of s \<and> ep_state s' = spec_step (ep_fd_of s) x (ep_state s)"
proof (cases x)
  case (Interest c op)
  have "\<exists>s'. ep_interest ctl cur c op s = Inr s' \<and> ep_inv cur reg s' \<and> ep_fd_of s' = ep_fd_of s
           \<and> ep_state s' = spec_step (ep_fd_of s) (Interest c op) (ep_state s)"
    by (rule ep_interest_law[OF assms(1) inv])
       (use pre Interest in \<open>simp add: ep_state_def ep_fd_of_def\<close>)
  with Interest show ?thesis by (simp add: do_call_def)
next
  case (Unregister c)
  have "\<exists>s'. ep_remove ctl cur c s = Inr s' \<and> ep_inv cur reg s' \<and> ep_fd_of s' = ep_fd_of s
           \<and> ep_state s' = spec_step (ep_fd_of s) (Unregister c) (ep_state s)"
    by (rule ep_remove_law[OF inv]) (use pre Unregister in \<open>simp_all add: ep_state_def ep_fd_of_def\<close>)
  with Unregister show ?thesis by (simp add: do_call_def)
qed

lemma ep_contract:
  assumes "epoll_ctl_spec ctl reg"
  shows "reenabling_poller (ep_interest ctl cur) (ep_remove ctl cur) ep_fd_of ep_state (ep_watched reg)
    ep_fresh (ep_inv cur reg)"
proof unfold_locales
  fix s :: "'a epoller" and x
  assume inv: "ep_inv cur reg s"
  show "ep_watched reg s = spec_watched (ep_state s)"
  proof
    fix f show "ep_watched reg s f = spec_watched (ep_state s) f"
      using ep_invD(6)[OF inv, of f]
      by (simp add: ep_watched_def spec_watched_def ep_state_def split: option.split)
  qed
  show "\<exists>s'. do_call (ep_interest ctl cur) (ep_remove ctl cur) x s = Inr s' \<and> ep_inv cur reg s'
     \<and> ep_fd_of s' = ep_fd_of s \<and> ep_state s' = spec_step (ep_fd_of s) x (ep_state s)"
    if "legal_again (ep_fd_of s) (- ep_fresh s) x (ep_state s)"
    by (rule ep_call_law[OF assms inv that])
  show "\<exists>s'. do_call (ep_interest ctl cur) (ep_remove ctl cur) x s = Inr s' \<and> ep_inv cur reg s'
     \<and> ep_fd_of s' = ep_fd_of s \<and> ep_state s' = spec_step (ep_fd_of s) x (ep_state s)
     \<and> ep_fresh s - {target x} \<subseteq> ep_fresh s'"
    if l: "legal (ep_fd_of s) (- ep_fresh s) x (ep_state s)"
  proof -
    have "legal_again (ep_fd_of s) (- ep_fresh s) x (ep_state s)"
      using l by (cases x; cases "ep_state s") auto
    from ep_call_law[OF assms inv this] obtain s' where s':
      "do_call (ep_interest ctl cur) (ep_remove ctl cur) x s = Inr s'" "ep_inv cur reg s'"
      "ep_fd_of s' = ep_fd_of s" "ep_state s' = spec_step (ep_fd_of s) x (ep_state s)" by blast
    have "d \<in> ep_fresh s'" if "d \<in> ep_fresh s" "d \<noteq> target x" for d
      using that s'(3,4) unfolding ep_fresh_iff[OF inv] ep_fresh_iff[OF s'(2)]
      by (cases x; cases "ep_state s") auto
    with s' show ?thesis by blast
  qed
qed

interpretation epoll: reenabling_poller
  "ep_interest map_ctl cur" "ep_remove map_ctl cur" ep_fd_of ep_state "ep_watched (\<lambda>k. k)" ep_fresh "ep_inv cur (\<lambda>k. k)"
  for cur
  by (rule ep_contract[OF map_ctl_spec])

lemma newEPollPoller_inv:
  assumes "reg k = Map.empty" "\<And>c. chIndex (h c) = kNew"
  shows "ep_inv cur reg (newEPollPoller cur h k)"
  using assms by (simp add: ep_inv_def newEPollPoller_def kInitEventListSize_def)

text \<open>
  Property C8. On a new \<open>EPollPoller\<close> and any kernel with the documented \<open>epoll_ctl\<close>, every sequence
  of interest changes and removals that follows the rules of \<open>Channel\<close> (register with some
  interest, switch off, possibly on again, remove once off, possibly register again) runs in the loop thread without a
  failed assertion or a fatal \<open>epoll_ctl\<close>, and afterwards the kernel watches exactly the
  registered descriptors with a non-empty mask, each with its channel's current mask.
\<close>

theorem epoll_tracks_interest:
  assumes spec: "epoll_ctl_spec ctl reg" and k: "reg k = Map.empty" and new: "\<And>c. chIndex (h c) = kNew"
    and run: "legal_run legal_again (\<lambda>c. chFd (h c)) {} xs (Map.empty, \<lambda>c. chEvents (h c))"
  shows "\<exists>s. foldR (do_call (ep_interest ctl cur) (ep_remove ctl cur)) xs (newEPollPoller cur h k) = Inr s
    \<and> ep_inv cur reg s
    \<and> ep_watched reg s = spec_watched (spec_run (\<lambda>c. chFd (h c)) xs (Map.empty, \<lambda>c. chEvents (h c)))"
proof -
  have start: "ep_state (newEPollPoller cur h k) = (Map.empty, \<lambda>c. chEvents (h c))"
    "ep_fd_of (newEPollPoller cur h k) = (\<lambda>c. chFd (h c))"
    by (auto simp: ep_state_def ep_fd_of_def newEPollPoller_def)
  from reenabling_poller.run_watched_again[OF ep_contract[OF spec, of cur] newEPollPoller_inv[of reg k h, OF k new], unfolded start, OF run]
  show ?thesis .
qed

theorem epoll_tracks_interest_witness:
  "\<exists>s. foldR (do_call (ep_interest map_ctl 1) (ep_remove map_ctl 1))
        [Interest 3 EnableReading, Interest 3 EnableWriting, Interest 3 DisableAll, Interest 3 EnableReading]
        (newEPollPoller 1 (\<lambda>c. newChannel (int c)) Map.empty) = Inr s
     \<and> ep_watched (\<lambda>k. k) s 3 = Some kReadEvent"
proof -
  let ?xs = "[Interest 3 EnableReading, Interest 3 EnableWriting, Interest 3 DisableAll, Interest 3 EnableReading]"
  let ?h = "\<lambda>c. newChannel (int c)"
  have new: "\<And>c. chIndex (?h c) = kNew" by (simp add: newChannel_def kNew_def)
  have run: "legal_run legal_again (\<lambda>c. chFd (?h c)) {} ?xs (Map.empty, \<lambda>c. chEvents (?h c))"
    by (simp add: newChannel_def kReadEvent_def kWriteEvent_def kNoneEvent_def poll_consts)
  from epoll_tracks_interest[where cur = 1 and k = Map.empty, OF map_ctl_spec _ new run] show ?thesis
    by (auto simp: spec_run_def spec_watched_def newChannel_def kReadEvent_def kNoneEvent_def poll_consts)
qed


subsection \<open>Delivery of active events\<close>

definition set_revents_all :: "(32 word \<times> nat) list \<Rightarrow> (nat \<Rightarrow> channel) \<Rightarrow> nat \<Rightarrow> channel" where
  "set_revents_all evs h = fold (\<lambda>(r, c). heap_revents c r) evs h"

lemma set_revents_all_other:
  "c \<notin> snd ` set evs \<Longrightarrow> set_revents_all evs h c = h c"
  by (induction evs arbitrary: h) (auto simp: set_revents_all_def heap_defs)

lemma set_revents_all_keeps:
  "set_revents_all evs h c = (h c)\<lparr>chRevents := chRevents (set_revents_all evs h c)\<rparr>"
proof (induction evs arbitrary: h)
  case (Cons ev evs)
  obtain r d where ev: "ev = (r, d)" by (cases ev)
  have "set_revents_all evs (heap_revents d r h) c
      = (heap_revents d r h c)\<lparr>chRevents := chRevents (set_revents_all evs (heap_revents d r h) c)\<rparr>"
    by (rule Cons.IH)
  also have "\<dots> = (h c)\<lparr>chRevents := chRevents (set_revents_all evs (heap_revents d r h) c)\<rparr>"
    by (simp add: heap_defs)
  finally show ?case by (simp add: ev set_revents_all_def)
qed (simp add: set_revents_all_def)

lemma set_revents_all_hit:
  "distinct (map snd evs) \<Longrightarrow> (r, c) \<in> set evs \<Longrightarrow> chRevents (set_revents_all evs h c) = r"
proof (induction evs arbitrary: h)
  case (Cons ev evs)
  show ?case
  proof (cases "ev = (r, c)")
    case True
    with Cons.prems(1) have "c \<notin> snd ` set evs" by simp
    from set_revents_all_other[OF this, of "heap_revents c r h"] True show ?thesis
      by (simp add: set_revents_all_def heap_defs)
  next
    case False
    with Cons.prems Cons.IH[of "heap_revents (snd ev) (fst ev) h"] show ?thesis
      by (simp add: set_revents_all_def case_prod_beta)
  qed
qed simp

lemma ep_fill_ok:
  assumes "\<And>c. c \<in> snd ` set evs \<Longrightarrow> epChannels s (chFd (epHeap s c)) = Some c"
  shows "ep_fill evs s = Inr (map snd evs, s\<lparr>epHeap := set_revents_all evs (epHeap s)\<rparr>)"
  using assms
proof (induction evs arbitrary: s)
  case (Cons ev evs)
  let ?s1 = "s\<lparr>epHeap := heap_revents (snd ev) (fst ev) (epHeap s)\<rparr>"
  have "ep_fill evs ?s1 = Inr (map snd evs, ?s1\<lparr>epHeap := set_revents_all evs (epHeap ?s1)\<rparr>)"
    by (rule Cons.IH) (use Cons.prems in \<open>auto simp: heap_defs\<close>)
  with Cons.prems[of "snd ev"] show ?case
    by (cases ev) (simp add: set_revents_all_def)
qed (simp add: set_revents_all_def)

lemma ep_inv_revents:
  assumes inv: "ep_inv cur reg s" and keep: "\<And>c. \<exists>r. h c = (epHeap s c)\<lparr>chRevents := r\<rparr>" and "0 < n"
  shows "ep_inv cur reg (s\<lparr>epHeap := h, epEvents := n\<rparr>)"
proof -
  note D = ep_invD[OF inv]
  have same: "chFd (h c) = chFd (epHeap s c)" "chEvents (h c) = chEvents (epHeap s c)"
    "chIndex (h c) = chIndex (epHeap s c)" for c using keep[of c] by auto
  let ?s' = "s\<lparr>epHeap := h, epEvents := n\<rparr>"
  show ?thesis
    unfolding ep_inv_def
  proof (intro conjI allI impI)
    show "epOwner ?s' = cur" "0 < epEvents ?s'" using D(1) \<open>0 < n\<close> by simp_all
    show "chFd (epHeap ?s' c) = fd" if "epChannels ?s' fd = Some c" for fd c
      using that D(3)[of fd c] by (simp add: same)
    show "if epChannels ?s' (chFd (epHeap ?s' c)) = Some c
       then chIndex (epHeap ?s' c) = (if chEvents (epHeap ?s' c) = 0 then kDeleted else kAdded)
       else chIndex (epHeap ?s' c) = kNew" for c
      using D(4,5)[of c] by (simp add: same)
    show "reg (epKern ?s') fd = (case epChannels ?s' fd of None \<Rightarrow> None
        | Some c \<Rightarrow> if chEvents (epHeap ?s' c) = 0 then None else Some (chEvents (epHeap ?s' c), c))" for fd
      using D(6)[of fd] by (simp add: same split: option.split)
  qed
qed

text \<open>
  When \<open>epoll_wait\<close> fills at most \<open>events_.size()\<close> entries with channels the kernel has
  registered, each at most once, \<open>EPollPoller::poll\<close> raises no assertion, appends exactly those
  channels in that order to the active list, stores each channel's returned mask in \<open>revents_\<close> and
  changes no other channel, and doubles the event array precisely when it was filled.
\<close>

theorem epoll_poll_delivers:
  assumes inv: "ep_inv cur reg s" and fits: "length evs \<le> epEvents s"
    and reg: "\<forall>ev \<in> set evs. \<exists>m. reg (epKern s) (chFd (epHeap s (snd ev))) = Some (m, snd ev)"
    and dist: "distinct (map snd evs)"
  shows "\<exists>s'. ep_poll (WaitEvents evs) s = Inr (map snd evs, s') \<and> ep_inv cur reg s'
    \<and> (\<forall>(r, c) \<in> set evs. epHeap s' c = (epHeap s c)\<lparr>chRevents := r\<rparr>)
    \<and> (\<forall>c. c \<notin> snd ` set evs \<longrightarrow> epHeap s' c = epHeap s c)
    \<and> epEvents s' = (if length evs = epEvents s then 2 * epEvents s else epEvents s)"
proof (cases "evs = []")
  case True
  then show ?thesis using ep_invD(2)[OF inv] inv by (auto simp: ep_poll_def)
next
  case False
  let ?h = "set_revents_all evs (epHeap s)"
  let ?n = "if length evs = epEvents s then 2 * epEvents s else epEvents s"
  have "epChannels s (chFd (epHeap s c)) = Some c" if "c \<in> snd ` set evs" for c
  proof -
    from that reg obtain m where "reg (epKern s) (chFd (epHeap s c)) = Some (m, c)" by auto
    with ep_invD(6)[OF inv] show ?thesis by (auto split: option.splits if_splits)
  qed
  from ep_fill_ok[OF this, of evs] have
    "ep_poll (WaitEvents evs) s = Inr (map snd evs, s\<lparr>epHeap := ?h, epEvents := ?n\<rparr>)"
    using False fits by (simp add: ep_poll_def ep_fillActiveChannels_def)
  moreover have "ep_inv cur reg (s\<lparr>epHeap := ?h, epEvents := ?n\<rparr>)"
    using ep_invD(2)[OF inv] set_revents_all_keeps by (intro ep_inv_revents[OF inv]) auto
  moreover have "?h c = (epHeap s c)\<lparr>chRevents := r\<rparr>" if "(r, c) \<in> set evs" for r c
    using set_revents_all_hit[OF dist that, of "epHeap s"] set_revents_all_keeps[of evs "epHeap s" c] by simp
  ultimately show ?thesis by (auto simp: set_revents_all_other)
qed

theorem epoll_poll_delivers_witness:
  "\<exists>s. ep_inv 1 (\<lambda>k. k) s \<and> s = (newEPollPoller 1 ((\<lambda>c. newChannel (int c))
        (3 := (newChannel 3)\<lparr>chEvents := POLLIN, chIndex := kAdded\<rparr>)) ([3 \<mapsto> (POLLIN, 3)] :: int \<rightharpoonup> epoll_data))\<lparr>epChannels := [3 \<mapsto> 3]\<rparr>
     \<and> (\<exists>s'. ep_poll (WaitEvents [(POLLIN, 3)]) s = Inr ([3], s') \<and> chRevents (epHeap s' 3) = POLLIN)"
proof -
  let ?s = "(newEPollPoller 1 ((\<lambda>c. newChannel (int c))
        (3 := (newChannel 3)\<lparr>chEvents := POLLIN, chIndex := kAdded\<rparr>)) ([3 \<mapsto> (POLLIN, 3)] :: int \<rightharpoonup> epoll_data))\<lparr>epChannels := [3 \<mapsto> 3]\<rparr>"
  have inv: "ep_inv 1 (\<lambda>k. k) ?s"
    by (auto simp: ep_inv_def newEPollPoller_def newChannel_def kInitEventListSize_def index_consts poll_consts)
  have "\<exists>s'. ep_poll (WaitEvents [(POLLIN, 3)]) ?s = Inr ([3], s') \<and> chRevents (epHeap s' 3) = POLLIN"
    using epoll_poll_delivers[OF inv, of "[(POLLIN, 3)]"]
    by (auto simp: newEPollPoller_def newChannel_def kInitEventListSize_def)
  with inv show ?thesis by blast
qed

text \<open>A second \<open>disableAll\<close> (or any update that leaves the mask empty) on a channel that is already
  off registers the descriptor with the kernel again, with an empty mask.\<close>

lemma disableAll_twice_re_adds:
  "\<exists>s. foldR (do_call (ep_interest map_ctl 1) (ep_remove map_ctl 1))
        [Interest 3 EnableReading, Interest 3 DisableAll, Interest 3 DisableAll]
        (newEPollPoller 1 (\<lambda>c. newChannel (int c)) Map.empty) = Inr s
     \<and> ep_watched (\<lambda>k. k) s 3 = Some 0"
  by (simp add: do_call_def ep_interest_def ep_updateChannel_def ep_update_def newEPollPoller_def
      newChannel_def heap_defs events_defs index_consts isNoneEvent_def map_ctl_def Let_def
      kReadEvent_def kNoneEvent_def poll_consts ep_watched_def)

end
