(* ===== verification/PollPoller.thy ===== *)
theory PollPoller
  imports PollerContract
begin

text \<open>
  \<open>muduo::net::PollPoller\<close> (\<open>muduo/net/poller/PollPoller.cc\<close>): the descriptor array that
  \<open>poll(2)\<close> takes, kept in step with the channel map by storing each channel's array position in
  its \<open>index_\<close>. Removal swaps the last entry into the hole. A switched-off entry holds
  \<open>-fd-1\<close>, which \<open>poll(2)\<close> ignores. What \<open>poll(2)\<close> returns (the count and one mask per entry) is
  an argument.
\<close>

record pollfd =
  pfdFd :: int
  pfdEvents :: "16 word"
  pfdRevents :: "16 word"

record ppoller =
  ppOwner :: int
  ppHeap :: "nat \<Rightarrow> channel"
  ppChannels :: "int \<rightharpoonup> nat"
  pollfds :: "pollfd list"

definition newPollPoller :: "int \<Rightarrow> (nat \<Rightarrow> channel) \<Rightarrow> ppoller" where
  "newPollPoller owner h = \<lparr>ppOwner = owner, ppHeap = h, ppChannels = Map.empty, pollfds = []\<rparr>"

subsection \<open>Waiting\<close>

fun pp_fillActiveChannels :: "nat \<Rightarrow> pollfd list \<Rightarrow> ppoller \<Rightarrow> (nat list \<times> ppoller) res" where
  "pp_fillActiveChannels numEvents [] s = Inr ([], s)"
| "pp_fillActiveChannels numEvents (pfd # pfds) s =
     (if numEvents = 0 then Inr ([], s)
      else if 0 < sint (pfdRevents pfd) then
        (case ppChannels s (pfdFd pfd) of
           None \<Rightarrow> Inl (AssertFailed ''fillActiveChannels: ch != channels_.end()'')
         | Some c \<Rightarrow>
             ensure (chFd (ppHeap s c) = pfdFd pfd) ''fillActiveChannels: channel->fd() == pfd->fd''
             (bindR (pp_fillActiveChannels (numEvents - 1) pfds
                      (s\<lparr>ppHeap := heap_revents c (scast (pfdRevents pfd)) (ppHeap s)\<rparr>)) (\<lambda>(cs, s').
              Inr (c # cs, s'))))
      else pp_fillActiveChannels numEvents pfds s)"

datatype poll_result = PollError int | PollReady nat "16 word list"

text \<open>The kernel overwrites the \<open>revents\<close> of every entry.\<close>

definition pp_poll :: "poll_result \<Rightarrow> ppoller \<Rightarrow> (nat list \<times> ppoller) res" where
  "pp_poll r s =
     (case r of
        PollError _ \<Rightarrow> Inr ([], s)
      | PollReady numEvents revs \<Rightarrow>
          let s1 = s\<lparr>pollfds := map2 (\<lambda>p r. p\<lparr>pfdRevents := r\<rparr>) (pollfds s) revs\<rparr>
          in if 0 < numEvents then pp_fillActiveChannels numEvents (pollfds s1) s1 else Inr ([], s1))"

subsection \<open>Changing the array\<close>

definition pp_updateChannel :: "int \<Rightarrow> nat \<Rightarrow> ppoller \<Rightarrow> ppoller res" where
  "pp_updateChannel cur c s =
     assertInLoopThread (ppOwner s) cur
     (let ch = ppHeap s c; fd = chFd ch in
      if chIndex ch < 0 then
        ensure (ppChannels s fd = None) ''updateChannel: channels_.find(fd) == channels_.end()''
        (let pfd = \<lparr>pfdFd = fd, pfdEvents = ucast (chEvents ch), pfdRevents = 0\<rparr>;
             pfds = pollfds s @ [pfd];
             idx = int (length pfds) - 1
         in Inr (s\<lparr>pollfds := pfds, ppHeap := heap_index c idx (ppHeap s),
                   ppChannels := (ppChannels s)(fd \<mapsto> c)\<rparr>))
      else
        ensure (ppChannels s fd \<noteq> None) ''updateChannel: channels_.find(fd) != channels_.end()''
       (ensure (ppChannels s fd = Some c) ''updateChannel: channels_[fd] == channel''
       (let idx = chIndex ch in
        ensure (0 \<le> idx \<and> idx < int (length (pollfds s))) ''updateChannel: idx in range''
       (let pfd = pollfds s ! nat idx in
        ensure (pfdFd pfd = fd \<or> pfdFd pfd = - fd - 1) ''updateChannel: pfd.fd''
       (let pfd1 = pfd\<lparr>pfdEvents := ucast (chEvents ch), pfdRevents := 0\<rparr>;
            pfd2 = (if isNoneEvent ch then pfd1\<lparr>pfdFd := - fd - 1\<rparr> else pfd1)
        in Inr (s\<lparr>pollfds := (pollfds s)[nat idx := pfd2]\<rparr>))))))"

definition pp_removeChannel :: "int \<Rightarrow> nat \<Rightarrow> ppoller \<Rightarrow> ppoller res" where
  "pp_removeChannel cur c s =
     assertInLoopThread (ppOwner s) cur
     (let ch = ppHeap s c; fd = chFd ch in
      ensure (ppChannels s fd \<noteq> None) ''removeChannel: channels_.find(fd) != channels_.end()''
     (ensure (ppChannels s fd = Some c) ''removeChannel: channels_[fd] == channel''
     (ensure (isNoneEvent ch) ''removeChannel: isNoneEvent()''
     (let idx = chIndex ch in
      ensure (0 \<le> idx \<and> idx < int (length (pollfds s))) ''removeChannel: idx in range''
     (let pfd = pollfds s ! nat idx in
      ensure (pfdFd pfd = - fd - 1 \<and> scast (pfdEvents pfd) = chEvents ch) ''removeChannel: pfd''
     (let s1 = s\<lparr>ppChannels := (ppChannels s)(fd := None)\<rparr> in
      if nat idx = length (pollfds s) - 1 then Inr (s1\<lparr>pollfds := butlast (pollfds s)\<rparr>)
      else
        let atEnd = pfdFd (last (pollfds s));
            pfds = (pollfds s)[nat idx := last (pollfds s), length (pollfds s) - 1 := pfd];
            channelAtEnd = (if atEnd < 0 then - atEnd - 1 else atEnd)
        in (case ppChannels s1 channelAtEnd of
              None \<Rightarrow> Inl (BadAccess ''removeChannel: channels_[channelAtEnd]'')
            | Some d \<Rightarrow> Inr (s1\<lparr>ppHeap := heap_index d idx (ppHeap s1), pollfds := butlast pfds\<rparr>))))))))"

definition pp_interest :: "int \<Rightarrow> nat \<Rightarrow> interest_op \<Rightarrow> ppoller \<Rightarrow> ppoller res" where
  "pp_interest cur c op s = pp_updateChannel cur c (s\<lparr>ppHeap := heap_interest op c (ppHeap s)\<rparr>)"

definition pp_remove :: "int \<Rightarrow> nat \<Rightarrow> ppoller \<Rightarrow> ppoller res" where
  "pp_remove cur c s =
     ensure (isNoneEvent (ppHeap s c)) ''Channel::remove: isNoneEvent()'' (pp_removeChannel cur c s)"

subsection \<open>Invariant\<close>

definition pp_state :: "ppoller \<Rightarrow> poller_spec" where
  "pp_state s = (ppChannels s, \<lambda>c. chEvents (ppHeap s c))"

definition pp_fd_of :: "ppoller \<Rightarrow> nat \<Rightarrow> int" where
  "pp_fd_of s c = chFd (ppHeap s c)"

definition pp_fresh :: "ppoller \<Rightarrow> nat set" where
  "pp_fresh s = {c. chIndex (ppHeap s c) < 0}"

text \<open>What \<open>poll(2)\<close> watches: the entries with a non-negative descriptor.\<close>

definition pp_watched :: "ppoller \<Rightarrow> int \<rightharpoonup> 32 word" where
  "pp_watched s fd = (if fd < 0 then None
     else map_of (map (\<lambda>p. (pfdFd p, ucast (pfdEvents p))) (pollfds s)) fd)"

definition entry_of :: "channel \<Rightarrow> pollfd \<Rightarrow> bool" where
  "entry_of ch p \<longleftrightarrow> pfdFd p = (if chEvents ch = 0 then - chFd ch - 1 else chFd ch)
     \<and> pfdEvents p = ucast (chEvents ch)"

definition registered :: "ppoller \<Rightarrow> nat \<Rightarrow> bool" where
  "registered s c \<longleftrightarrow> ppChannels s (chFd (ppHeap s c)) = Some c"

definition pp_inv :: "int \<Rightarrow> ppoller \<Rightarrow> bool" where
  "pp_inv cur s \<longleftrightarrow> ppOwner s = cur
   \<and> (\<forall>c. 0 \<le> chFd (ppHeap s c) \<and> is_rw_mask (chEvents (ppHeap s c)))
   \<and> (\<forall>fd c. ppChannels s fd = Some c \<longrightarrow> chFd (ppHeap s c) = fd)
   \<and> (\<forall>c. registered s c \<longrightarrow> 0 \<le> chIndex (ppHeap s c) \<and> nat (chIndex (ppHeap s c)) < length (pollfds s)
        \<and> entry_of (ppHeap s c) (pollfds s ! nat (chIndex (ppHeap s c))))
   \<and> (\<forall>i < length (pollfds s). \<exists>c. registered s c \<and> chIndex (ppHeap s c) = int i)"

lemma pp_invD:
  assumes "pp_inv cur s"
  shows "ppOwner s = cur" "\<And>c. 0 \<le> chFd (ppHeap s c)" "\<And>c. is_rw_mask (chEvents (ppHeap s c))"
    "\<And>fd c. ppChannels s fd = Some c \<Longrightarrow> chFd (ppHeap s c) = fd"
    "\<And>c. registered s c \<Longrightarrow> 0 \<le> chIndex (ppHeap s c)"
    "\<And>c. registered s c \<Longrightarrow> nat (chIndex (ppHeap s c)) < length (pollfds s)"
    "\<And>c. registered s c \<Longrightarrow> entry_of (ppHeap s c) (pollfds s ! nat (chIndex (ppHeap s c)))"
    "\<And>i. i < length (pollfds s) \<Longrightarrow> \<exists>c. registered s c \<and> chIndex (ppHeap s c) = int i"
  using assms unfolding pp_inv_def by blast+

text \<open>Positions and registered channels correspond one to one.\<close>

lemma pp_index_inj:
  assumes inv: "pp_inv cur s" and c: "registered s c" and d: "registered s d"
    and same: "chIndex (ppHeap s c) = chIndex (ppHeap s d)"
  shows "c = d"
proof -
  note D = pp_invD[OF inv]
  have "chFd (ppHeap s c) = chFd (ppHeap s d)"
    using D(7)[OF c] D(7)[OF d] same D(2)[of c] D(2)[of d] unfolding entry_of_def
    by (auto split: if_splits)
  with c d show ?thesis by (simp add: registered_def)
qed

lemma is_rw_mask_16:
  "is_rw_mask m \<Longrightarrow> ucast (ucast m :: 16 word) = m" "is_rw_mask m \<Longrightarrow> scast (ucast m :: 16 word) = m"
  by (auto simp: is_rw_mask_def kReadEvent_def kWriteEvent_def poll_consts)

lemma pp_entry_owner:
  assumes inv: "pp_inv cur s" and p: "p \<in> set (pollfds s)"
  obtains c where "registered s c" "entry_of (ppHeap s c) p"
proof -
  from p obtain i where i: "i < length (pollfds s)" "pollfds s ! i = p" by (auto simp: in_set_conv_nth)
  with pp_invD(8)[OF inv i(1)] pp_invD(7)[OF inv] that show thesis by (metis nat_int)
qed

lemma map_of_uniqueI: "(k, v) \<in> set xs \<Longrightarrow> (\<And>w. (k, w) \<in> set xs \<Longrightarrow> w = v) \<Longrightarrow> map_of xs k = Some v"
  by (metis map_of_SomeD weak_map_of_SomeI)

lemma pp_watched_law:
  assumes inv: "pp_inv cur s"
  shows "pp_watched s = spec_watched (pp_state s)"
proof
  fix fd
  note D = pp_invD[OF inv]
  have owner: "\<exists>c. ppChannels s fd = Some c \<and> chEvents (ppHeap s c) \<noteq> 0 \<and> ucast (pfdEvents p) = chEvents (ppHeap s c)"
    if p: "p \<in> set (pollfds s)" "pfdFd p = fd" "0 \<le> fd" for p
  proof -
    obtain c where "registered s c" "entry_of (ppHeap s c) p" using pp_entry_owner[OF inv p(1)] .
    with p(2,3) D(2)[of c] D(3)[of c] show ?thesis
      by (auto simp: registered_def entry_of_def is_rw_mask_16 split: if_splits)
  qed
  have none: "pp_watched s fd = None" if "\<And>p. p \<in> set (pollfds s) \<Longrightarrow> 0 \<le> fd \<Longrightarrow> pfdFd p \<noteq> fd"
    using that by (force simp: pp_watched_def map_of_eq_None_iff)
  show "pp_watched s fd = spec_watched (pp_state s) fd"
  proof (cases "ppChannels s fd")
    case None
    with none owner show ?thesis by (force simp: spec_watched_def pp_state_def)
  next
    case (Some c)
    then have c: "registered s c" "chFd (ppHeap s c) = fd" using D(4)[OF Some] by (simp_all add: registered_def)
    show ?thesis
    proof (cases "chEvents (ppHeap s c) = 0")
      case True
      with none owner Some show ?thesis by (force simp: spec_watched_def pp_state_def)
    next
      case False
      let ?p = "pollfds s ! nat (chIndex (ppHeap s c))"
      have p: "?p \<in> set (pollfds s)" "pfdFd ?p = fd" "0 \<le> fd"
        using D(6)[OF c(1)] D(7)[OF c(1)] c(2) False D(2)[of c] by (auto simp: entry_of_def)
      have "map_of (map (\<lambda>p. (pfdFd p, ucast (pfdEvents p))) (pollfds s)) fd = Some (chEvents (ppHeap s c))"
        using owner[OF p] p owner Some by (intro map_of_uniqueI) force+
      with Some False p(3) show ?thesis by (simp add: pp_watched_def spec_watched_def pp_state_def)
    qed
  qed
qed

lemma pp_register_law:
  assumes inv: "pp_inv cur s" and free: "ppChannels s (chFd (ppHeap s c)) = None"
    and idx: "chIndex (ppHeap s c) < 0" and m: "m = apply_mask op (chEvents (ppHeap s c))" "m \<noteq> 0"
    and s': "s' = s\<lparr>pollfds := pollfds s @ [\<lparr>pfdFd = chFd (ppHeap s c), pfdEvents = ucast m, pfdRevents = 0\<rparr>],
       ppHeap := (ppHeap s)(c := (ppHeap s c)\<lparr>chEvents := m, chIndex := int (length (pollfds s))\<rparr>),
       ppChannels := (ppChannels s)(chFd (ppHeap s c) \<mapsto> c)\<rparr>"
  shows "pp_interest cur c op s = Inr s'" "pp_inv cur s'"
proof -
  note D = pp_invD[OF inv]
  show "pp_interest cur c op s = Inr s'"
    using D(1) free idx
    by (simp add: pp_interest_def pp_updateChannel_def heap_defs apply_interest_update m(1) s' Let_def)
  have fd: "chFd (ppHeap s' d) = chFd (ppHeap s d)" for d by (simp add: s')
  have reg: "registered s' d \<longleftrightarrow> d = c \<or> registered s d" for d
    using free by (auto simp: registered_def s')
  have old: "ppHeap s' d = ppHeap s d" if "registered s d" for d
    using that free by (auto simp: registered_def s')
  show "pp_inv cur s'"
    unfolding pp_inv_def
  proof (intro conjI allI impI)
    show "ppOwner s' = cur" "0 \<le> chFd (ppHeap s' d)" "is_rw_mask (chEvents (ppHeap s' d))" for d
      using D(1) D(2)[of d] D(3)[of d] D(3)[of c] by (auto simp: s' m(1) is_rw_mask_apply)
    show "chFd (ppHeap s' d) = f" if "ppChannels s' f = Some d" for f d
    proof (cases "f = chFd (ppHeap s c)")
      case True
      with that show ?thesis by (auto simp: s')
    next
      case False
      with that have "ppChannels s f = Some d" by (simp add: s')
      from D(4)[OF this] show ?thesis by (simp add: fd)
    qed
    show "0 \<le> chIndex (ppHeap s' d)" "nat (chIndex (ppHeap s' d)) < length (pollfds s')"
      "entry_of (ppHeap s' d) (pollfds s' ! nat (chIndex (ppHeap s' d)))" if d: "registered s' d" for d
    proof -
      consider "d = c" | "registered s d" "d \<noteq> c" using d reg by blast
      then have "0 \<le> chIndex (ppHeap s' d) \<and> nat (chIndex (ppHeap s' d)) < length (pollfds s')
          \<and> entry_of (ppHeap s' d) (pollfds s' ! nat (chIndex (ppHeap s' d)))"
      proof cases
        case 1
        then show ?thesis using m(2) by (simp add: s' entry_of_def)
      next
        case 2
        then show ?thesis using D(5-7)[OF 2(1)] by (simp add: s' nth_append)
      qed
      then show "0 \<le> chIndex (ppHeap s' d)" "nat (chIndex (ppHeap s' d)) < length (pollfds s')"
        "entry_of (ppHeap s' d) (pollfds s' ! nat (chIndex (ppHeap s' d)))" by simp_all
    qed
    show "\<exists>d. registered s' d \<and> chIndex (ppHeap s' d) = int i" if "i < length (pollfds s')" for i
    proof (cases "i < length (pollfds s)")
      case True
      from D(8)[OF this] obtain d where "registered s d" "chIndex (ppHeap s d) = int i" by blast
      then show ?thesis using reg old by (intro exI[of _ d]) simp
    next
      case False
      with that have "i = length (pollfds s)" by (simp add: s')
      then show ?thesis using reg by (intro exI[of _ c]) (simp add: s')
    qed
  qed
qed

lemma pp_modify_law:
  assumes inv: "pp_inv cur s" and c: "registered s c" and live: "chEvents (ppHeap s c) \<noteq> 0"
    and m: "m = apply_mask op (chEvents (ppHeap s c))"
    and i: "i = nat (chIndex (ppHeap s c))"
    and s': "s' = s\<lparr>pollfds := (pollfds s)[i := \<lparr>pfdFd = if m = 0 then - chFd (ppHeap s c) - 1 else chFd (ppHeap s c),
          pfdEvents = ucast m, pfdRevents = 0\<rparr>],
       ppHeap := (ppHeap s)(c := (ppHeap s c)\<lparr>chEvents := m\<rparr>)\<rparr>"
  shows "pp_interest cur c op s = Inr s'" "pp_inv cur s'"
proof -
  note D = pp_invD[OF inv]
  have pfd: "pfdFd (pollfds s ! i) = chFd (ppHeap s c)" "i < length (pollfds s)" "chIndex (ppHeap s c) = int i"
    using D(5-7)[OF c] live i by (auto simp: entry_of_def)
  have upd: "(pollfds s ! i)\<lparr>pfdEvents := e, pfdRevents := 0, pfdFd := f\<rparr> = \<lparr>pfdFd = f, pfdEvents = e, pfdRevents = 0\<rparr>"
    "(pollfds s ! i)\<lparr>pfdEvents := e, pfdRevents := 0\<rparr> = \<lparr>pfdFd = chFd (ppHeap s c), pfdEvents = e, pfdRevents = 0\<rparr>" for e f
    using pfd(1) by simp_all
  show "pp_interest cur c op s = Inr s'"
    using D(1) c pfd
    by (simp add: pp_interest_def pp_updateChannel_def heap_defs apply_interest_update m s' Let_def
        registered_def upd isNoneEvent_def kNoneEvent_def)
  have same: "chFd (ppHeap s' d) = chFd (ppHeap s d)" "chIndex (ppHeap s' d) = chIndex (ppHeap s d)"
    "registered s' d = registered s d" for d by (simp_all add: s' registered_def)
  have at: "pollfds s' ! nat (chIndex (ppHeap s d)) = pollfds s ! nat (chIndex (ppHeap s d))" "ppHeap s' d = ppHeap s d"
    if "registered s d" "d \<noteq> c" for d
  proof -
    have "nat (chIndex (ppHeap s d)) \<noteq> i"
      using pp_index_inj[OF inv c that(1)] that D(5)[OF that(1)] pfd(3) by auto
    then show "pollfds s' ! nat (chIndex (ppHeap s d)) = pollfds s ! nat (chIndex (ppHeap s d))" by (simp add: s')
    show "ppHeap s' d = ppHeap s d" using that(2) by (simp add: s')
  qed
  show "pp_inv cur s'"
    unfolding pp_inv_def same
  proof (intro conjI allI impI)
    show "ppOwner s' = cur" "0 \<le> chFd (ppHeap s d)" "is_rw_mask (chEvents (ppHeap s' d))" for d
      using D(1) D(2)[of d] D(3)[of d] D(3)[of c] by (auto simp: s' m(1) is_rw_mask_apply)
    show "chFd (ppHeap s d) = f" if "ppChannels s' f = Some d" for f d
      using that D(4)[of f d] by (simp add: s')
    show "0 \<le> chIndex (ppHeap s d)" "nat (chIndex (ppHeap s d)) < length (pollfds s')" if "registered s d" for d
      using D(5,6)[OF that] by (simp_all add: s')
    show "entry_of (ppHeap s' d) (pollfds s' ! nat (chIndex (ppHeap s d)))" if "registered s d" for d
    proof (cases "d = c")
      case True
      then show ?thesis using pfd by (simp add: s' entry_of_def)
    qed (use at[OF that] D(7)[OF that] in simp)
    show "\<exists>d. registered s d \<and> chIndex (ppHeap s d) = int j" if "j < length (pollfds s')" for j
      using D(8)[of j] that by (simp add: s')
  qed
qed

text \<open>Removal: the channel \<open>d\<close> of the last entry moves to the hole (and is the removed channel itself
  when the hole is the last entry).\<close>

definition pp_hole :: "ppoller \<Rightarrow> nat \<Rightarrow> nat \<Rightarrow> nat \<Rightarrow> ppoller" where
  "pp_hole s c d i = s\<lparr>ppChannels := (ppChannels s)(chFd (ppHeap s c) := None),
     ppHeap := (ppHeap s)(d := (ppHeap s d)\<lparr>chIndex := int i\<rparr>),
     pollfds := (butlast (pollfds s))[i := last (pollfds s)]\<rparr>"

lemma pp_last_entry:
  assumes "pp_inv cur s" "registered s d" "chIndex (ppHeap s d) = int (length (pollfds s) - 1)" "pollfds s \<noteq> []"
  shows "entry_of (ppHeap s d) (last (pollfds s))"
  using pp_invD(7)[OF assms(1,2)] assms(3,4) by (simp add: last_conv_nth)

lemma pp_hole_inv:
  assumes inv: "pp_inv cur s" and c: "registered s c" "chIndex (ppHeap s c) = int i"
    and d: "registered s d" "chIndex (ppHeap s d) = int (length (pollfds s) - 1)"
  shows "pp_inv cur (pp_hole s c d i)"
proof -
  note D = pp_invD[OF inv]
  let ?s = "pp_hole s c d i" and ?n = "length (pollfds s) - 1"
  have len: "i < length (pollfds s)" "length (pollfds ?s) = ?n"
    using D(6)[OF c(1)] c(2) by (simp_all add: pp_hole_def)
  have same: "chFd (ppHeap ?s e) = chFd (ppHeap s e)" "chEvents (ppHeap ?s e) = chEvents (ppHeap s e)" for e
    by (simp_all add: pp_hole_def)
  have idx: "chIndex (ppHeap ?s e) = (if e = d then int i else chIndex (ppHeap s e))" for e
    by (simp add: pp_hole_def)
  have entry: "entry_of (ppHeap ?s e) p \<longleftrightarrow> entry_of (ppHeap s e) p" for e p by (simp add: entry_of_def same)
  have reg: "registered ?s e \<longleftrightarrow> registered s e \<and> e \<noteq> c" for e
    using c(1) by (auto simp: registered_def pp_hole_def)
  have last: "entry_of (ppHeap s d) (last (pollfds s))"
    by (rule pp_last_entry[OF inv d]) (use len(1) in auto)
  have dc: "d \<noteq> c \<longleftrightarrow> i < ?n"
  proof (cases "i = ?n")
    case True
    then show ?thesis using c(2) d(2) pp_index_inj[OF inv c(1) d(1)] by auto
  next
    case False
    then show ?thesis using c(2) d(2) len(1) by auto
  qed
  have pos: "\<exists>j. chIndex (ppHeap ?s e) = int j \<and> j < ?n \<and> entry_of (ppHeap s e) (pollfds ?s ! j)"
    if e: "registered s e" "e \<noteq> c" for e
  proof (cases "e = d")
    case True
    with e dc last show ?thesis by (intro exI[of _ i]) (simp add: idx pp_hole_def)
  next
    case False
    define j where "j = nat (chIndex (ppHeap s e))"
    have j: "chIndex (ppHeap s e) = int j" "j < length (pollfds s)" "entry_of (ppHeap s e) (pollfds s ! j)"
      using D(5-7)[OF e(1)] by (simp_all add: j_def)
    have "j \<noteq> i" "j \<noteq> ?n"
      using pp_index_inj[OF inv e(1) c(1)] pp_index_inj[OF inv e(1) d(1)] e(2) False j(1) c(2) d(2) by auto
    with j False show ?thesis by (intro exI[of _ j]) (simp add: idx pp_hole_def nth_butlast)
  qed
  show ?thesis
    unfolding pp_inv_def same entry reg len(2)
  proof (intro conjI allI impI)
    show "ppOwner ?s = cur" "0 \<le> chFd (ppHeap s e)" "is_rw_mask (chEvents (ppHeap s e))" for e
      using D(1) D(2)[of e] D(3)[of e] by (simp_all add: pp_hole_def)
    show "chFd (ppHeap s e) = f" if "ppChannels ?s f = Some e" for f e
      using D(4)[of f e] that by (simp add: pp_hole_def split: if_splits)
    show "0 \<le> chIndex (ppHeap ?s e)" "nat (chIndex (ppHeap ?s e)) < ?n"
      "entry_of (ppHeap s e) (pollfds ?s ! nat (chIndex (ppHeap ?s e)))" if "registered s e \<and> e \<noteq> c" for e
      using pos[of e] that by auto
    show "\<exists>e. (registered s e \<and> e \<noteq> c) \<and> chIndex (ppHeap ?s e) = int k" if k: "k < ?n" for k
    proof (cases "k = i")
      case True
      with k dc d(1) show ?thesis by (intro exI[of _ d]) (simp add: idx)
    next
      case False
      from k have "k < length (pollfds s)" by simp
      from D(8)[OF this] obtain e where "registered s e" "chIndex (ppHeap s e) = int k" by blast
      with False k c(2) d(2) show ?thesis by (intro exI[of _ e]) (auto simp: idx)
    qed
  qed
qed

lemma butlast_swap:
  "i < length xs - 1 \<Longrightarrow> butlast (xs[i := last xs, length xs - 1 := y]) = (butlast xs)[i := last xs]"
  by (rule nth_equalityI) (simp_all add: nth_butlast nth_list_update)

lemma pp_remove_law:
  assumes inv: "pp_inv cur s" and c: "registered s c" and zero: "chEvents (ppHeap s c) = 0"
  shows "\<exists>d i. pp_remove cur c s = Inr (pp_hole s c d i) \<and> pp_inv cur (pp_hole s c d i) \<and> registered s d"
proof -
  note D = pp_invD[OF inv]
  let ?n = "length (pollfds s) - 1"
  define i where "i = nat (chIndex (ppHeap s c))"
  have i: "chIndex (ppHeap s c) = int i" "i < length (pollfds s)" "entry_of (ppHeap s c) (pollfds s ! i)"
    using D(5-7)[OF c] by (simp_all add: i_def)
  then have "?n < length (pollfds s)" by simp
  from D(8)[OF this] obtain d where d: "registered s d" "chIndex (ppHeap s d) = int ?n" by blast
  have last: "entry_of (ppHeap s d) (last (pollfds s))"
    by (rule pp_last_entry[OF inv d]) (use i(2) in auto)
  have atEnd: "(if pfdFd (last (pollfds s)) < 0 then - pfdFd (last (pollfds s)) - 1 else pfdFd (last (pollfds s)))
      = chFd (ppHeap s d)"
    using last D(2)[of d] by (auto simp: entry_of_def)
  have guards: "ppOwner s = cur" "ppChannels s (chFd (ppHeap s c)) = Some c" "isNoneEvent (ppHeap s c)"
    "pfdFd (pollfds s ! i) = - chFd (ppHeap s c) - 1" "scast (pfdEvents (pollfds s ! i)) = chEvents (ppHeap s c)"
    using D(1) c zero i(3) by (simp_all add: registered_def isNoneEvent_def kNoneEvent_def entry_of_def)
  have "pp_remove cur c s = Inr (pp_hole s c d i)"
  proof (cases "i = ?n")
    case True
    then have "d = c" using pp_index_inj[OF inv c d(1)] i(1) d(2) by simp
    moreover have "length (pollfds s) = Suc i" using True i(2) by simp
    moreover have "(ppHeap s c)\<lparr>chIndex := int i\<rparr> = ppHeap s c" using i(1) by simp
    ultimately have "pp_hole s c d i = s\<lparr>ppChannels := (ppChannels s)(chFd (ppHeap s c) := None),
        pollfds := butlast (pollfds s)\<rparr>" and n: "length (pollfds s) = Suc i"
      by (simp_all add: pp_hole_def list_update_beyond)
    then show ?thesis using guards i(1)
      by (simp add: pp_remove_def pp_removeChannel_def Let_def)
  next
    case False
    then have "chFd (ppHeap s d) \<noteq> chFd (ppHeap s c)" using c d i by (auto simp: registered_def)
    moreover have "i < ?n" using False i(2) by simp
    ultimately show ?thesis using guards i(1,2) d(1) butlast_swap[of i "pollfds s" "pollfds s ! i"]
      by (simp add: pp_remove_def pp_removeChannel_def Let_def pp_hole_def atEnd registered_def
          heap_defs)
  qed
  with pp_hole_inv[OF inv c i(1) d] d(1) show ?thesis by blast
qed

subsection \<open>The contract\<close>

lemma pp_interest_step:
  assumes inv: "pp_inv cur s" and l: "legal (pp_fd_of s) (- pp_fresh s) (Interest c op) (pp_state s)"
  shows "\<exists>s'. pp_interest cur c op s = Inr s' \<and> pp_inv cur s' \<and> pp_fd_of s' = pp_fd_of s
     \<and> pp_state s' = spec_step (pp_fd_of s) (Interest c op) (pp_state s) \<and> pp_fresh s - {c} \<subseteq> pp_fresh s'"
proof -
  let ?m = "apply_mask op (chEvents (ppHeap s c))"
  consider (new) "ppChannels s (chFd (ppHeap s c)) = None" "chIndex (ppHeap s c) < 0" "?m \<noteq> 0"
    | (live) "registered s c" "chEvents (ppHeap s c) \<noteq> 0"
    using l by (auto simp: pp_state_def pp_fd_of_def pp_fresh_def registered_def)
  then show ?thesis
  proof cases
    case new
    note r = pp_register_law[OF inv new(1,2) refl new(3) refl]
    show ?thesis
      by (rule exI, intro conjI, rule r(1), rule r(2))
         (auto simp: pp_fd_of_def pp_state_def pp_fresh_def fun_eq_iff)
  next
    case live
    note r = pp_modify_law[OF inv live refl refl refl]
    show ?thesis
      by (rule exI, intro conjI, rule r(1), rule r(2))
         (use live(1) in \<open>auto simp: pp_fd_of_def pp_state_def pp_fresh_def registered_def fun_eq_iff\<close>)
  qed
qed

lemma pp_remove_step:
  assumes inv: "pp_inv cur s" and l: "legal (pp_fd_of s) U (Unregister c) (pp_state s)"
  shows "\<exists>s'. pp_remove cur c s = Inr s' \<and> pp_inv cur s' \<and> pp_fd_of s' = pp_fd_of s
     \<and> pp_state s' = spec_step (pp_fd_of s) (Unregister c) (pp_state s) \<and> pp_fresh s - {c} \<subseteq> pp_fresh s'"
proof -
  have c: "registered s c" "chEvents (ppHeap s c) = 0"
    using l by (simp_all add: pp_state_def pp_fd_of_def registered_def)
  from pp_remove_law[OF inv c] obtain d i where
    r: "pp_remove cur c s = Inr (pp_hole s c d i)" "pp_inv cur (pp_hole s c d i)"
      "registered s d" by blast
  show ?thesis
    by (rule exI, intro conjI, rule r(1), rule r(2))
       (use pp_invD(5)[OF inv r(3)] in \<open>auto simp: pp_hole_def pp_fd_of_def pp_state_def pp_fresh_def fun_eq_iff\<close>)
qed

interpretation pollp: poller_contract "pp_interest cur" "pp_remove cur" pp_fd_of pp_state pp_watched pp_fresh "pp_inv cur"
  for cur
proof unfold_locales
  fix s x assume inv: "pp_inv cur s"
  show "pp_watched s = spec_watched (pp_state s)" by (rule pp_watched_law[OF inv])
  show "\<exists>s'. do_call (pp_interest cur) (pp_remove cur) x s = Inr s' \<and> pp_inv cur s' \<and> pp_fd_of s' = pp_fd_of s
      \<and> pp_state s' = spec_step (pp_fd_of s) x (pp_state s) \<and> pp_fresh s - {target x} \<subseteq> pp_fresh s'"
    if "legal (pp_fd_of s) (- pp_fresh s) x (pp_state s)"
    using that pp_interest_step[OF inv] pp_remove_step[OF inv] by (cases x) (simp_all add: do_call_def)
qed

lemma newPollPoller_inv:
  assumes "\<And>c. 0 \<le> chFd (h c)" "\<And>c. is_rw_mask (chEvents (h c))"
  shows "pp_inv cur (newPollPoller cur h)"
  using assms by (simp add: pp_inv_def newPollPoller_def registered_def)



text \<open>Where this poller falls short of the stronger contract: a channel switched off with
  \<open>disableAll\<close> and on again keeps the ignored descriptor, so \<open>poll(2)\<close> no longer watches it; and a
  removed channel keeps its stale index, so that registering it again fails an assertion.\<close>

lemma poll_reenable_not_watched:
  "\<exists>s. foldR (do_call (pp_interest 1) (pp_remove 1))
        [Interest 3 EnableReading, Interest 3 DisableAll, Interest 3 EnableReading]
        (newPollPoller 1 (\<lambda>c. newChannel (int c))) = Inr s
     \<and> chEvents (ppHeap s 3) = kReadEvent \<and> pp_watched s 3 = None"
  by (simp add: do_call_def pp_interest_def pp_updateChannel_def newPollPoller_def newChannel_def
      heap_defs events_defs isNoneEvent_def Let_def kReadEvent_def kNoneEvent_def poll_consts pp_watched_def)

lemma poll_register_again_asserts:
  "foldR (do_call (pp_interest 1) (pp_remove 1))
     [Interest 3 EnableReading, Interest 3 DisableAll, Unregister 3, Interest 3 EnableReading]
     (newPollPoller 1 (\<lambda>c. newChannel (int c)))
   = Inl (AssertFailed ''updateChannel: channels_.find(fd) != channels_.end()'')"
  by (simp add: do_call_def pp_interest_def pp_remove_def pp_removeChannel_def pp_updateChannel_def
      newPollPoller_def newChannel_def heap_defs events_defs isNoneEvent_def Let_def
      kReadEvent_def kNoneEvent_def poll_consts)

end
