(* ===== verification/TimerQueue.thy ===== *)
theory TimerQueue
  imports Muduo_Prelude "HOL-Library.Product_Lexorder"
begin

text \<open>
  \<open>muduo::net::TimerQueue\<close> with \<open>Timer\<close> and \<open>TimerId\<close> (\<open>muduo/net/TimerQueue.cc\<close>, \<open>Timer.h\<close>,
  \<open>Timer.cc\<close>, \<open>TimerId.h\<close>) and the arithmetic of \<open>Timestamp\<close> (\<open>muduo/base/Timestamp.h\<close>).

  Timers live in a heap (address to \<open>timer\<close>), so that \<open>delete\<close>, a use after it, and the reuse of
  an address by a later \<open>new\<close> are all visible; \<open>alloc\<close> is the allocator. \<open>timers_\<close> is a
  \<open>std::set\<close> of pairs, a strictly sorted list here; \<open>activeTimers_\<close> and \<open>cancelingTimers_\<close> are sets.
  A callback is a list of calls on the queue (it runs in the loop thread, where \<open>runInLoop\<close>
  executes at once), supplied per expired timer. Clock readings are arguments, in microseconds.
  A \<open>double\<close> interval appears as the outcome of \<open>interval > 0.0\<close> and of the conversion of
  \<open>interval * 1000000\<close> to \<open>int64_t\<close>.
\<close>

subsection \<open>Time stamps\<close>

type_synonym timestamp = int

definition kMicroSecondsPerSecond :: int where "kMicroSecondsPerSecond = 1000000"

definition ts_valid :: "timestamp \<Rightarrow> bool" where "ts_valid t \<longleftrightarrow> 0 < t"

definition ts_invalid :: timestamp where "ts_invalid = 0"

definition secondsSinceEpoch :: "timestamp \<Rightarrow> int" where
  "secondsSinceEpoch t = c_div t kMicroSecondsPerSecond"

definition addTime :: "timestamp \<Rightarrow> int \<Rightarrow> timestamp" where
  "addTime t delta = t + delta"

text \<open>\<open>timeDifference\<close> in microseconds, before the division that makes it a \<open>double\<close>.\<close>

definition timeDifference_us :: "timestamp \<Rightarrow> timestamp \<Rightarrow> int" where
  "timeDifference_us high low = high - low"

definition timestamp_now :: "int \<Rightarrow> int \<Rightarrow> timestamp" where
  "timestamp_now tv_sec tv_usec = tv_sec * kMicroSecondsPerSecond + tv_usec"

subsection \<open>Timers\<close>

record timer =
  tmCallback :: nat
  tmExpiration :: timestamp
  tmDelta :: int
  tmRepeat :: bool
  tmSequence :: int

record timer_id =
  tidTimer :: nat
  tidSequence :: int

definition restart :: "timestamp \<Rightarrow> timer \<Rightarrow> timer" where
  "restart now t = t\<lparr>tmExpiration := if tmRepeat t then addTime now (tmDelta t) else ts_invalid\<rparr>"

record timer_queue =
  tqHeap :: "nat \<rightharpoonup> timer"
  tqTimers :: "(timestamp \<times> nat) list"
  tqActive :: "(nat \<times> int) set"
  tqCalling :: bool
  tqCanceling :: "(nat \<times> int) set"
  tqNumCreated :: int
  tqArmed :: "timestamp option"

text \<open>\<open>tqArmed\<close> is the timerfd: the absolute moment at which the last \<open>timerfd_settime\<close> makes it
  readable, if it did not fire since.\<close>

definition newTimerQueue :: timer_queue where
  "newTimerQueue = \<lparr>tqHeap = Map.empty, tqTimers = [], tqActive = {}, tqCalling = False,
     tqCanceling = {}, tqNumCreated = 0, tqArmed = None\<rparr>"

definition howMuchTimeFromNow :: "timestamp \<Rightarrow> timestamp \<Rightarrow> int \<times> int" where
  "howMuchTimeFromNow clock when =
     (let diff = when - clock;
          microseconds = (if diff < 100 then 100 else diff)
      in (c_div microseconds kMicroSecondsPerSecond, c_mod microseconds kMicroSecondsPerSecond * 1000))"

definition resetTimerfd :: "timestamp \<Rightarrow> timestamp \<Rightarrow> timer_queue \<Rightarrow> timer_queue" where
  "resetTimerfd clock expiration q =
     (case howMuchTimeFromNow clock expiration of (tv_sec, tv_nsec) \<Rightarrow>
        q\<lparr>tqArmed := Some (clock + tv_sec * kMicroSecondsPerSecond + tv_nsec div 1000)\<rparr>)"

text \<open>Dereferencing a timer pointer.\<close>

definition deref :: "timer_queue \<Rightarrow> nat \<Rightarrow> timer res" where
  "deref q p = (case tqHeap q p of Some t \<Rightarrow> Inr t | None \<Rightarrow> Inl (BadAccess ''Timer*''))"

subsection \<open>Operations\<close>

definition size_eq :: "timer_queue \<Rightarrow> bool" where
  "size_eq q \<longleftrightarrow> length (tqTimers q) = card (tqActive q)"

definition tq_insert :: "nat \<Rightarrow> timer_queue \<Rightarrow> (bool \<times> timer_queue) res" where
  "tq_insert p q =
     ensure (size_eq q) ''insert: timers_.size() == activeTimers_.size()''
    (bindR (deref q p) (\<lambda>t.
     let when = tmExpiration t;
         earliestChanged = (tqTimers q = [] \<or> when < fst (hd (tqTimers q)))
     in ensure ((when, p) \<notin> set (tqTimers q)) ''insert: result.second (timers_)''
       (let q1 = q\<lparr>tqTimers := insort (when, p) (tqTimers q)\<rparr>
        in ensure ((p, tmSequence t) \<notin> tqActive q1) ''insert: result.second (activeTimers_)''
          (let q2 = q1\<lparr>tqActive := insert (p, tmSequence t) (tqActive q1)\<rparr>
           in ensure (size_eq q2) ''insert: timers_.size() == activeTimers_.size()''
             (Inr (earliestChanged, q2))))))"

definition addTimerInLoop :: "timestamp \<Rightarrow> nat \<Rightarrow> timer_queue \<Rightarrow> timer_queue res" where
  "addTimerInLoop clock p q =
     bindR (tq_insert p q) (\<lambda>(earliestChanged, q1).
     if earliestChanged then bindR (deref q1 p) (\<lambda>t. Inr (resetTimerfd clock (tmExpiration t) q1))
     else Inr q1)"

definition newTimer ::
  "(nat set \<Rightarrow> nat option) \<Rightarrow> nat \<Rightarrow> timestamp \<Rightarrow> bool \<Rightarrow> int \<Rightarrow> timer_queue \<Rightarrow> (nat \<times> timer_queue) res" where
  "newTimer alloc cb when rep delta q =
     (case alloc (dom (tqHeap q)) of
        None \<Rightarrow> Inl (Thrown ''std::bad_alloc'')
      | Some p \<Rightarrow> let n = tqNumCreated q + 1
          in Inr (p, q\<lparr>tqHeap := (tqHeap q)(p \<mapsto> \<lparr>tmCallback = cb, tmExpiration = when, tmDelta = delta,
               tmRepeat = rep, tmSequence = n\<rparr>), tqNumCreated := n\<rparr>))"

definition addTimer ::
  "(nat set \<Rightarrow> nat option) \<Rightarrow> timestamp \<Rightarrow> nat \<Rightarrow> timestamp \<Rightarrow> bool \<Rightarrow> int \<Rightarrow> timer_queue \<Rightarrow> (timer_id \<times> timer_queue) res" where
  "addTimer alloc clock cb when rep delta q =
     bindR (newTimer alloc cb when rep delta q) (\<lambda>(p, q1).
     bindR (addTimerInLoop clock p q1) (\<lambda>q2.
     bindR (deref q2 p) (\<lambda>t. Inr (\<lparr>tidTimer = p, tidSequence = tmSequence t\<rparr>, q2))))"

definition cancelInLoop :: "timer_id \<Rightarrow> timer_queue \<Rightarrow> timer_queue res" where
  "cancelInLoop tid q =
     ensure (size_eq q) ''cancelInLoop: timers_.size() == activeTimers_.size()''
     (let timer = (tidTimer tid, tidSequence tid) in
      bindR (if timer \<in> tqActive q then
               bindR (deref q (tidTimer tid)) (\<lambda>t.
               ensure ((tmExpiration t, tidTimer tid) \<in> set (tqTimers q)) ''cancelInLoop: n == 1''
               (Inr (q\<lparr>tqTimers := remove1 (tmExpiration t, tidTimer tid) (tqTimers q),
                       tqHeap := (tqHeap q)(tidTimer tid := None),
                       tqActive := tqActive q - {timer}\<rparr>)))
             else if tqCalling q then Inr (q\<lparr>tqCanceling := insert timer (tqCanceling q)\<rparr>)
             else Inr q) (\<lambda>q1.
      ensure (size_eq q1) ''cancelInLoop: timers_.size() == activeTimers_.size()'' (Inr q1)))"

text \<open>The address that no timer has: the sentry of \<open>getExpired\<close>.\<close>

definition UINTPTR_MAX :: nat where "UINTPTR_MAX = 2 ^ 64 - 1"

definition eraseActive :: "timestamp \<times> nat \<Rightarrow> timer_queue \<Rightarrow> timer_queue res" where
  "eraseActive e q =
     bindR (deref q (snd e)) (\<lambda>t.
     ensure ((snd e, tmSequence t) \<in> tqActive q) ''getExpired: n == 1''
     (Inr (q\<lparr>tqActive := tqActive q - {(snd e, tmSequence t)}\<rparr>)))"

definition getExpired :: "timestamp \<Rightarrow> timer_queue \<Rightarrow> ((timestamp \<times> nat) list \<times> timer_queue) res" where
  "getExpired now q =
     ensure (size_eq q) ''getExpired: timers_.size() == activeTimers_.size()''
     (let sentry = (now, UINTPTR_MAX);
          expired = takeWhile (\<lambda>e. e < sentry) (tqTimers q);
          rest = dropWhile (\<lambda>e. e < sentry) (tqTimers q)
      in ensure (rest = [] \<or> now < fst (hd rest)) ''getExpired: end == timers_.end() || now < end->first''
        (bindR (foldR eraseActive expired (q\<lparr>tqTimers := rest\<rparr>)) (\<lambda>q1.
         ensure (size_eq q1) ''getExpired: timers_.size() == activeTimers_.size()''
         (Inr (expired, q1)))))"

definition resetOne :: "timestamp \<Rightarrow> timestamp \<times> nat \<Rightarrow> timer_queue \<Rightarrow> timer_queue res" where
  "resetOne now e q =
     bindR (deref q (snd e)) (\<lambda>t.
     if tmRepeat t \<and> (snd e, tmSequence t) \<notin> tqCanceling q then
       bindR (tq_insert (snd e) (q\<lparr>tqHeap := (tqHeap q)(snd e \<mapsto> restart now t)\<rparr>)) (\<lambda>(_, q1). Inr q1)
     else Inr (q\<lparr>tqHeap := (tqHeap q)(snd e := None)\<rparr>))"

definition tq_reset :: "timestamp \<Rightarrow> (timestamp \<times> nat) list \<Rightarrow> timestamp \<Rightarrow> timer_queue \<Rightarrow> timer_queue res" where
  "tq_reset clock expired now q =
     bindR (foldR (resetOne now) expired q) (\<lambda>q1.
     bindR (if tqTimers q1 = [] then Inr ts_invalid
            else bindR (deref q1 (snd (hd (tqTimers q1)))) (\<lambda>t. Inr (tmExpiration t))) (\<lambda>nextExpire.
     Inr (if ts_valid nextExpire then resetTimerfd clock nextExpire q1 else q1)))"

text \<open>What a callback does with the queue: \<open>addTimer\<close> (with the clock it reads) and \<open>cancel\<close>.\<close>

datatype timer_call =
    CallAdd timestamp nat timestamp bool int
  | CallCancel timer_id

fun timer_do :: "(nat set \<Rightarrow> nat option) \<Rightarrow> timer_call \<Rightarrow> timer_queue \<Rightarrow> timer_queue res" where
  "timer_do alloc (CallAdd clock cb when rep delta) q =
     bindR (addTimer alloc clock cb when rep delta q) (\<lambda>(_, q1). Inr q1)"
| "timer_do alloc (CallCancel tid) q = cancelInLoop tid q"

text \<open>Running the expired timers: \<open>beh\<close> lists, for each in turn, what its callback does. The result
  lists the callbacks run.\<close>

fun run_expired ::
  "(nat set \<Rightarrow> nat option) \<Rightarrow> timer_call list list \<Rightarrow> (timestamp \<times> nat) list \<Rightarrow> timer_queue \<Rightarrow> (nat list \<times> timer_queue) res" where
  "run_expired alloc beh [] q = Inr ([], q)"
| "run_expired alloc beh (e # es) q =
     bindR (deref q (snd e)) (\<lambda>t.
     bindR (foldR (timer_do alloc) (case beh of [] \<Rightarrow> [] | acts # _ \<Rightarrow> acts) q) (\<lambda>q1.
     bindR (run_expired alloc (tl beh) es q1) (\<lambda>(cbs, q2). Inr (tmCallback t # cbs, q2))))"

text \<open>\<open>fired\<close> says whether the \<open>read\<close> of the timerfd returned an expiration count.\<close>

definition tq_handleRead ::
  "(nat set \<Rightarrow> nat option) \<Rightarrow> timer_call list list \<Rightarrow> bool \<Rightarrow> timestamp \<Rightarrow> timestamp \<Rightarrow> timer_queue \<Rightarrow> (nat list \<times> timer_queue) res" where
  "tq_handleRead alloc beh fired now clock q =
     (let q0 = (if fired then q\<lparr>tqArmed := None\<rparr> else q) in
      bindR (getExpired now q0) (\<lambda>(expired, q1).
      bindR (run_expired alloc beh expired (q1\<lparr>tqCalling := True, tqCanceling := {}\<rparr>)) (\<lambda>(cbs, q2).
      bindR (tq_reset clock expired now (q2\<lparr>tqCalling := False\<rparr>)) (\<lambda>q3.
      Inr (cbs, q3)))))"

text \<open>The destructor deletes the timers that are left.\<close>

definition tq_destroy :: "timer_queue \<Rightarrow> timer_queue res" where
  "tq_destroy q = foldR (\<lambda>e q. bindR (deref q (snd e)) (\<lambda>_.
     Inr (q\<lparr>tqHeap := (tqHeap q)(snd e := None)\<rparr>))) (tqTimers q) q"


subsection \<open>Invariant\<close>

text \<open>\<open>tq_wf X q\<close>: the two views of the queue agree, every queued pointer is allocated, and the heap
  holds exactly the queued timers and those in \<open>X\<close>, the expired ones being processed and those that
  other threads have made and the loop has not inserted yet.\<close>

definition tq_wf :: "nat set \<Rightarrow> timer_queue \<Rightarrow> bool" where
  "tq_wf X q \<longleftrightarrow> sorted (tqTimers q) \<and> distinct (map snd (tqTimers q))
   \<and> (\<forall>(e, p) \<in> set (tqTimers q). \<exists>t. tqHeap q p = Some t \<and> tmExpiration t = e)
   \<and> tqActive q = (\<lambda>p. (p, tmSequence (the (tqHeap q p)))) ` snd ` set (tqTimers q)
   \<and> dom (tqHeap q) = snd ` set (tqTimers q) \<union> X \<and> X \<inter> snd ` set (tqTimers q) = {} \<and> finite X
   \<and> (\<forall>p \<in> dom (tqHeap q). p < UINTPTR_MAX)
   \<and> (\<forall>p t. tqHeap q p = Some t \<longrightarrow> tmSequence t \<le> tqNumCreated q)"

lemma tq_wfD:
  assumes "tq_wf X q"
  shows "sorted (tqTimers q)" "distinct (map snd (tqTimers q))"
    "\<And>e p. (e, p) \<in> set (tqTimers q) \<Longrightarrow> \<exists>t. tqHeap q p = Some t \<and> tmExpiration t = e"
    "tqActive q = (\<lambda>p. (p, tmSequence (the (tqHeap q p)))) ` snd ` set (tqTimers q)"
    "dom (tqHeap q) = snd ` set (tqTimers q) \<union> X" "X \<inter> snd ` set (tqTimers q) = {}" "finite X"
    "\<And>p. p \<in> dom (tqHeap q) \<Longrightarrow> p < UINTPTR_MAX"
    "\<And>p t. tqHeap q p = Some t \<Longrightarrow> tmSequence t \<le> tqNumCreated q"
  using assms unfolding tq_wf_def by blast+

lemma tq_wf_size: "tq_wf X q \<Longrightarrow> size_eq q"
  using tq_wfD(2,4)[of X q] distinct_card[of "map snd (tqTimers q)"]
  by (simp add: size_eq_def card_image inj_on_def)

lemma tq_wf_active:
  assumes "tq_wf X q"
  shows "(p, s) \<in> tqActive q \<longleftrightarrow> (\<exists>t. tqHeap q p = Some t \<and> tmSequence t = s \<and> (tmExpiration t, p) \<in> set (tqTimers q))"
proof -
  have "(p, s) \<in> tqActive q \<longleftrightarrow> p \<in> snd ` set (tqTimers q) \<and> s = tmSequence (the (tqHeap q p))"
    by (auto simp: tq_wfD(4)[OF assms])
  also have "\<dots> \<longleftrightarrow> (\<exists>t. tqHeap q p = Some t \<and> tmSequence t = s \<and> (tmExpiration t, p) \<in> set (tqTimers q))"
    using tq_wfD(3)[OF assms] by force
  finally show ?thesis .
qed

lemma newTimerQueue_wf: "tq_wf {} newTimerQueue"
  by (simp add: tq_wf_def newTimerQueue_def)

text \<open>The fields the invariant does not mention may change freely.\<close>

lemma tq_wf_flags [simp]:
  "tq_wf X (q\<lparr>tqArmed := a\<rparr>) = tq_wf X q" "tq_wf X (q\<lparr>tqCalling := c\<rparr>) = tq_wf X q"
  "tq_wf X (q\<lparr>tqCanceling := cs\<rparr>) = tq_wf X q"
  by (simp_all add: tq_wf_def)

lemma resetTimerfd_upd: "\<exists>a. resetTimerfd clock when q = q\<lparr>tqArmed := Some a\<rparr>"
  by (auto simp: resetTimerfd_def split: prod.split)

lemma tq_insert_ok:
  assumes wf: "tq_wf X q" and p: "p \<in> X" "tqHeap q p = Some t"
  shows "tq_insert p q = Inr (tqTimers q = [] \<or> tmExpiration t < fst (hd (tqTimers q)),
      q\<lparr>tqTimers := insort (tmExpiration t, p) (tqTimers q), tqActive := insert (p, tmSequence t) (tqActive q)\<rparr>)"
    "tq_wf (X - {p}) (q\<lparr>tqTimers := insort (tmExpiration t, p) (tqTimers q),
        tqActive := insert (p, tmSequence t) (tqActive q)\<rparr>)"
proof -
  note D = tq_wfD[OF wf]
  let ?q = "q\<lparr>tqTimers := insort (tmExpiration t, p) (tqTimers q), tqActive := insert (p, tmSequence t) (tqActive q)\<rparr>"
  have notin: "p \<notin> snd ` set (tqTimers q)" using p(1) D(6) by auto
  then have new: "(e, p) \<notin> set (tqTimers q)" "(p, s) \<notin> tqActive q" for e s
    by (force simp: D(4))+
  have "distinct (map snd (insort (tmExpiration t, p) (tqTimers q)))"
    using D(2) notin new(1) by (auto simp: distinct_map distinct_insort set_insort_key inj_on_insert)
  then show wf': "tq_wf (X - {p}) ?q"
    using D(1,3,4) D(5-9) p notin unfolding tq_wf_def
    by (auto simp: sorted_insort set_insort_key)
  show "tq_insert p q = Inr (tqTimers q = [] \<or> tmExpiration t < fst (hd (tqTimers q)), ?q)"
    using new p tq_wf_size[OF wf] tq_wf_size[OF wf']
    by (simp add: tq_insert_def deref_def Let_def)
qed

subsection \<open>Each operation keeps the invariant\<close>

definition oom :: "fault set" where "oom = {Thrown ''std::bad_alloc''}"

text \<open>What the allocator promises: an address not in use, below the largest pointer value.\<close>

definition alloc_ok :: "(nat set \<Rightarrow> nat option) \<Rightarrow> bool" where
  "alloc_ok alloc \<longleftrightarrow> (\<forall>A p. alloc A = Some p \<longrightarrow> p \<notin> A \<and> p < UINTPTR_MAX)"

text \<open>What every call on the queue keeps while the timers in \<open>X\<close> are being processed: they stay
  allocated and unchanged, sequence numbers grow, and the ones asked to be cancelled are noted.\<close>

definition seq_origin :: "timer_queue \<Rightarrow> timer_queue \<Rightarrow> bool" where
  "seq_origin q q' \<longleftrightarrow> tqNumCreated q \<le> tqNumCreated q' \<and> (\<forall>p t'. tqHeap q' p = Some t' \<longrightarrow>
     (\<exists>t. tqHeap q p = Some t \<and> tmSequence t = tmSequence t') \<or> tqNumCreated q < tmSequence t')"

lemma seq_origin_refl: "seq_origin q q"
  by (auto simp: seq_origin_def)

lemma seq_origin_trans:
  assumes "seq_origin q q'" "seq_origin q' q''"
  shows "seq_origin q q''"
  unfolding seq_origin_def
proof (intro conjI allI impI)
  show "tqNumCreated q \<le> tqNumCreated q''" using assms by (auto simp: seq_origin_def)
  fix p t'' assume "tqHeap q'' p = Some t''"
  with assms(2) consider t' where "tqHeap q' p = Some t'" "tmSequence t' = tmSequence t''" | "tqNumCreated q' < tmSequence t''"
    unfolding seq_origin_def by blast
  then show "(\<exists>t. tqHeap q p = Some t \<and> tmSequence t = tmSequence t'') \<or> tqNumCreated q < tmSequence t''"
  proof cases
    case 1
    with assms(1) show ?thesis unfolding seq_origin_def by (metis 1)
  qed (use assms(1) in \<open>auto simp: seq_origin_def\<close>)
qed

definition keeps_held :: "nat set \<Rightarrow> timer_id set \<Rightarrow> timer_queue \<Rightarrow> timer_queue \<Rightarrow> bool" where
  "keeps_held X C q q' \<longleftrightarrow> tq_wf X q' \<and> tqCalling q' = tqCalling q \<and> (\<forall>p \<in> X. tqHeap q' p = tqHeap q p)
   \<and> seq_origin q q'
   \<and> (tqCalling q \<longrightarrow> (\<forall>p \<in> X. \<forall>s. (p, s) \<in> tqCanceling q' \<longleftrightarrow>
        (p, s) \<in> tqCanceling q \<or> \<lparr>tidTimer = p, tidSequence = s\<rparr> \<in> C))"

lemma keeps_held_refl: "tq_wf X q \<Longrightarrow> keeps_held X {} q q"
  by (simp add: keeps_held_def seq_origin_refl)

lemma keeps_held_armed [simp]: "keeps_held X C q (q'\<lparr>tqArmed := a\<rparr>) = keeps_held X C q q'"
  by (simp add: keeps_held_def seq_origin_def)

lemma keeps_held_trans:
  "keeps_held X C q q' \<Longrightarrow> keeps_held X D q' q'' \<Longrightarrow> keeps_held X (C \<union> D) q q''"
  by (auto simp: keeps_held_def intro: seq_origin_trans)

lemma newTimer_wf:
  assumes wf: "tq_wf X q" and alloc: "alloc_ok alloc" and "newTimer alloc cb wh rep delta q = Inr (p, q1)"
  shows "tq_wf (insert p X) q1" "p \<notin> X" "p \<notin> dom (tqHeap q)"
    "tqHeap q1 = (tqHeap q)(p \<mapsto> \<lparr>tmCallback = cb, tmExpiration = wh, tmDelta = delta, tmRepeat = rep,
       tmSequence = tqNumCreated q + 1\<rparr>)"
    "q1 = q\<lparr>tqHeap := tqHeap q1, tqNumCreated := tqNumCreated q + 1\<rparr>"
proof -
  note D = tq_wfD[OF wf]
  from assms(3) have p: "alloc (dom (tqHeap q)) = Some p"
    and q1: "q1 = q\<lparr>tqHeap := (tqHeap q)(p \<mapsto> \<lparr>tmCallback = cb, tmExpiration = wh, tmDelta = delta,
       tmRepeat = rep, tmSequence = tqNumCreated q + 1\<rparr>), tqNumCreated := tqNumCreated q + 1\<rparr>"
    by (auto simp: newTimer_def Let_def split: option.splits)
  have fresh: "p \<notin> dom (tqHeap q)" "p < UINTPTR_MAX" using alloc p unfolding alloc_ok_def by blast+
  then show "p \<notin> X" "p \<notin> dom (tqHeap q)" using D(5) by auto
  have other: "r \<noteq> p" if "r \<in> snd ` set (tqTimers q)" for r using that fresh(1) D(5) by blast
  show "tqHeap q1 = (tqHeap q)(p \<mapsto> \<lparr>tmCallback = cb, tmExpiration = wh, tmDelta = delta, tmRepeat = rep,
       tmSequence = tqNumCreated q + 1\<rparr>)" by (simp add: q1)
  show "q1 = q\<lparr>tqHeap := tqHeap q1, tqNumCreated := tqNumCreated q + 1\<rparr>" by (simp add: q1)
  show "tq_wf (insert p X) q1"
    unfolding tq_wf_def
  proof (intro conjI)
    show "\<forall>(e, r) \<in> set (tqTimers q1). \<exists>t. tqHeap q1 r = Some t \<and> tmExpiration t = e"
      using D(3) other by (force simp: q1)
    show "tqActive q1 = (\<lambda>p. (p, tmSequence (the (tqHeap q1 p)))) ` snd ` set (tqTimers q1)"
      using D(4) other by (auto simp: q1 intro!: image_cong)
    show "\<forall>r t. tqHeap q1 r = Some t \<longrightarrow> tmSequence t \<le> tqNumCreated q1"
    proof (intro allI impI)
      fix r t assume "tqHeap q1 r = Some t"
      then show "tmSequence t \<le> tqNumCreated q1"
        using D(9)[of r t] by (auto simp: q1 split: if_splits)
    qed
    show "insert p X \<inter> snd ` set (tqTimers q1) = {}" using D(6) other by (auto simp: q1)
  qed (use D(1,2,5,7,8) fresh in \<open>auto simp: q1\<close>)
qed

lemma addTimer_held:
  assumes wf: "tq_wf X q" and alloc: "alloc_ok alloc"
  shows "holds oom (addTimer alloc clock cb wh rep delta q) (\<lambda>(tid, q'). keeps_held X {} q q'
    \<and> tidSequence tid = tqNumCreated q + 1 \<and> (tidTimer tid, tidSequence tid) \<in> tqActive q')"
proof (cases "newTimer alloc cb wh rep delta q")
  case (Inl e)
  then show ?thesis by (auto simp: addTimer_def newTimer_def oom_def Let_def split: option.splits)
next
  case (Inr pq)
  obtain p q1 where pq: "pq = (p, q1)" by (cases pq)
  define t where "t = \<lparr>tmCallback = cb, tmExpiration = wh, tmDelta = delta, tmRepeat = rep, tmSequence = tqNumCreated q + 1\<rparr>"
  note N = newTimer_wf[OF wf alloc Inr[unfolded pq], folded t_def]
  have t: "tqHeap q1 p = Some t" by (simp add: N(4))
  define q2 where "q2 = q1\<lparr>tqTimers := insort (tmExpiration t, p) (tqTimers q1), tqActive := insert (p, tmSequence t) (tqActive q1)\<rparr>"
  obtain b where ins: "tq_insert p q1 = Inr (b, q2)" and wf2: "tq_wf X q2"
    using tq_insert_ok[OF N(1) _ t] N(2) by (auto simp: q2_def)
  have add: "addTimer alloc clock cb wh rep delta q =
      Inr (\<lparr>tidTimer = p, tidSequence = tmSequence t\<rparr>, if b then resetTimerfd clock wh q2 else q2)"
    using Inr pq ins t resetTimerfd_upd[of clock wh q2]
    by (auto simp: addTimer_def addTimerInLoop_def deref_def q2_def t_def)
  have keep: "keeps_held X {} q q2"
  proof -
    have same: "tqCalling q1 = tqCalling q" "tqCanceling q1 = tqCanceling q" "tqNumCreated q1 = tqNumCreated q + 1"
      by (subst N(5), simp)+
    have "seq_origin q q2" by (auto simp: seq_origin_def q2_def N(4) same t_def)
    with wf2 N(2) same show ?thesis unfolding keeps_held_def by (auto simp: q2_def N(4))
  qed
  then show ?thesis
    using add resetTimerfd_upd[of clock wh q2] by (auto simp: t_def) (simp_all add: q2_def t_def)
qed

lemma tq_wf_remove:
  assumes wf: "tq_wf X q" and t: "tqHeap q p = Some t" "(tmExpiration t, p) \<in> set (tqTimers q)"
  shows "tq_wf X (q\<lparr>tqTimers := remove1 (tmExpiration t, p) (tqTimers q), tqHeap := (tqHeap q)(p := None),
      tqActive := tqActive q - {(p, tmSequence t)}\<rparr>)"
proof -
  note D = tq_wfD[OF wf]
  have dist: "distinct (tqTimers q)" using D(2) by (simp add: distinct_map)
  have rest: "snd ` (set (tqTimers q) - {(tmExpiration t, p)}) = snd ` set (tqTimers q) - {p}"
  proof -
    have "inj_on snd (set (tqTimers q))" using D(2) by (simp add: distinct_map)
    from inj_on_image_set_diff[OF this, of "set (tqTimers q)" "{(tmExpiration t, p)}"] t(2) show ?thesis by auto
  qed
  have p: "p \<in> snd ` set (tqTimers q)" using t(2) by force
  have uniq: "e = tmExpiration t" if "(e, p) \<in> set (tqTimers q)" for e using D(3)[OF that] t(1) by simp
  have "tqActive q - {(p, tmSequence t)}
      = (\<lambda>r. (r, tmSequence (the (((tqHeap q)(p := None)) r)))) ` (snd ` set (tqTimers q) - {p})"
    using t(1) by (auto simp: D(4) image_iff)
  moreover have "\<forall>(e, r) \<in> set (tqTimers q) - {(tmExpiration t, p)}. r \<noteq> p" using rest by force
  moreover have "distinct (map snd (remove1 (tmExpiration t, p) (tqTimers q)))"
    using D(2) dist by (simp add: distinct_map set_remove1_eq[OF dist] inj_on_diff)
  ultimately show ?thesis
    using D(1,3) D(5-9) p unfolding tq_wf_def
    by (auto simp: sorted_remove1 set_remove1_eq[OF dist] rest dest: uniq)
qed

lemma cancelInLoop_cases:
  assumes wf: "tq_wf X q"
  obtains (queued) t where "tqHeap q (tidTimer tid) = Some t" "tmSequence t = tidSequence tid"
      "(tmExpiration t, tidTimer tid) \<in> set (tqTimers q)"
      "cancelInLoop tid q = Inr (q\<lparr>tqTimers := remove1 (tmExpiration t, tidTimer tid) (tqTimers q),
         tqHeap := (tqHeap q)(tidTimer tid := None), tqActive := tqActive q - {(tidTimer tid, tidSequence tid)}\<rparr>)"
      "tq_wf X (q\<lparr>tqTimers := remove1 (tmExpiration t, tidTimer tid) (tqTimers q),
         tqHeap := (tqHeap q)(tidTimer tid := None), tqActive := tqActive q - {(tidTimer tid, tidSequence tid)}\<rparr>)"
  | (unknown) "(tidTimer tid, tidSequence tid) \<notin> tqActive q"
      "cancelInLoop tid q = Inr (if tqCalling q then q\<lparr>tqCanceling := insert (tidTimer tid, tidSequence tid) (tqCanceling q)\<rparr> else q)"
proof (cases "(tidTimer tid, tidSequence tid) \<in> tqActive q")
  case True
  then obtain t where t: "tqHeap q (tidTimer tid) = Some t" "tmSequence t = tidSequence tid"
      "(tmExpiration t, tidTimer tid) \<in> set (tqTimers q)"
    by (auto simp: tq_wf_active[OF wf])
  note wf' = tq_wf_remove[OF wf t(1,3)]
  show thesis
    by (rule queued[OF t])
       (use True t tq_wf_size[OF wf] tq_wf_size[OF wf'] wf' in \<open>simp_all add: cancelInLoop_def deref_def Let_def\<close>)
next
  case False
  have "size_eq (q\<lparr>tqCanceling := c\<rparr>) = size_eq q" for c by (simp add: size_eq_def)
  with False show thesis
    by (intro unknown) (simp_all add: cancelInLoop_def tq_wf_size[OF wf] Let_def)
qed

lemma cancel_held:
  assumes wf: "tq_wf X q"
  shows "holds oom (cancelInLoop tid q) (keeps_held X {tid} q)"
  using wf
proof (cases rule: cancelInLoop_cases[where tid = tid])
  case (queued t)
  then have "tidTimer tid \<notin> X" using tq_wfD(6)[OF wf] by force
  then have "\<lparr>tidTimer = p, tidSequence = s\<rparr> \<noteq> tid" if "p \<in> X" for p s using that by auto
  with queued \<open>tidTimer tid \<notin> X\<close> show ?thesis by (auto simp: keeps_held_def seq_origin_def)
next
  case unknown
  have "\<lparr>tidTimer = p, tidSequence = s\<rparr> = tid \<longleftrightarrow> p = tidTimer tid \<and> s = tidSequence tid" for p s
    by (cases tid) auto
  with unknown wf show ?thesis by (auto simp: keeps_held_def seq_origin_def)
qed

fun cancels :: "timer_call \<Rightarrow> timer_id set" where
  "cancels (CallAdd clock cb wh rep delta) = {}"
| "cancels (CallCancel tid) = {tid}"

lemma timer_do_held:
  assumes "tq_wf X q" "alloc_ok alloc"
  shows "holds oom (timer_do alloc c q) (keeps_held X (cancels c) q)"
proof (cases c)
  case (CallAdd clock cb wh rep delta)
  have "holds oom (bindR (addTimer alloc clock cb wh rep delta q) (\<lambda>(_, q1). Inr q1)) (keeps_held X {} q)"
    by (rule holds_bindR[OF addTimer_held[OF assms]]) auto
  with CallAdd show ?thesis by simp
qed (use cancel_held[OF assms(1)] in simp)

lemma timer_dos_held:
  assumes "tq_wf X q" "alloc_ok alloc"
  shows "holds oom (foldR (timer_do alloc) cs q) (keeps_held X (\<Union> (cancels ` set cs)) q)"
  using assms(1)
proof (induction cs arbitrary: q)
  case (Cons c cs)
  show ?case
    unfolding foldR.simps
  proof (rule holds_bindR[OF timer_do_held[OF Cons.prems assms(2), of c]])
    fix q1 assume q1: "keeps_held X (cancels c) q q1"
    then have "tq_wf X q1" by (simp add: keeps_held_def)
    from Cons.IH[OF this]
    show "holds oom (foldR (timer_do alloc) cs q1) (keeps_held X (\<Union> (cancels ` set (c # cs))) q)"
      by (rule holds_mono) (use keeps_held_trans[OF q1] in auto)
  qed
qed (simp add: keeps_held_refl)

lemma run_expired_held:
  assumes "tq_wf X q" "alloc_ok alloc" "snd ` set es \<subseteq> X"
  shows "holds oom (run_expired alloc beh es q) (\<lambda>(cbs, q'). cbs = map (\<lambda>e. tmCallback (the (tqHeap q (snd e)))) es
     \<and> keeps_held X (\<Union> (cancels ` set (concat (take (length es) beh)))) q q')"
  using assms(1,3)
proof (induction es arbitrary: q beh)
  case (Cons e es)
  let ?acts = "case beh of [] \<Rightarrow> [] | acts # _ \<Rightarrow> acts"
  have "snd e \<in> dom (tqHeap q)" using Cons.prems tq_wfD(5)[OF Cons.prems(1)] by auto
  then obtain t where t: "tqHeap q (snd e) = Some t" by auto
  have acts: "set (concat (take (length (e # es)) beh)) = set ?acts \<union> set (concat (take (length es) (tl beh)))"
    by (cases beh) auto
  have "holds oom (bindR (foldR (timer_do alloc) ?acts q) (\<lambda>q1.
      bindR (run_expired alloc (tl beh) es q1) (\<lambda>(cbs, q2). Inr (tmCallback t # cbs, q2))))
    (\<lambda>(cbs, q'). cbs = map (\<lambda>e. tmCallback (the (tqHeap q (snd e)))) (e # es)
      \<and> keeps_held X (\<Union> (cancels ` set (concat (take (length (e # es)) beh)))) q q')"
  proof (rule holds_bindR[OF timer_dos_held[OF Cons.prems(1) assms(2), of ?acts]])
    fix q1 assume q1: "keeps_held X (\<Union> (cancels ` set ?acts)) q q1"
    then have wf1: "tq_wf X q1" and same: "\<And>p. p \<in> X \<Longrightarrow> tqHeap q1 p = tqHeap q p" by (simp_all add: keeps_held_def)
    have cbs: "map (\<lambda>e. tmCallback (the (tqHeap q1 (snd e)))) es = map (\<lambda>e. tmCallback (the (tqHeap q (snd e)))) es"
      using Cons.prems(2) same by (auto simp: image_subset_iff)
    show "holds oom (bindR (run_expired alloc (tl beh) es q1) (\<lambda>(cbs, q2). Inr (tmCallback t # cbs, q2)))
      (\<lambda>(cbs, q'). cbs = map (\<lambda>e. tmCallback (the (tqHeap q (snd e)))) (e # es)
        \<and> keeps_held X (\<Union> (cancels ` set (concat (take (length (e # es)) beh)))) q q')"
      unfolding acts image_Un Union_Un_distrib
      by (rule holds_bindR[OF Cons.IH[OF wf1]])
         (use Cons.prems(2) t cbs keeps_held_trans[OF q1] in auto)
  qed
  with t show ?case by (simp add: deref_def)
qed (simp add: keeps_held_refl)

subsection \<open>Expiry\<close>

definition due :: "timestamp \<Rightarrow> timer_queue \<Rightarrow> (timestamp \<times> nat) list" where
  "due now q = filter (\<lambda>e. fst e \<le> now) (tqTimers q)"

lemma sorted_takeWhile_filter:
  fixes xs :: "(timestamp \<times> nat) list"
  assumes "sorted xs"
  shows "takeWhile (\<lambda>e. fst e \<le> now) xs = filter (\<lambda>e. fst e \<le> now) xs"
    "dropWhile (\<lambda>e. fst e \<le> now) xs = filter (\<lambda>e. \<not> fst e \<le> now) xs"
proof -
  have "\<not> fst y \<le> now" if "sorted (x # ys)" "\<not> fst x \<le> now" "y \<in> set ys" for x y and ys :: "(timestamp \<times> nat) list"
    using that by (auto simp: less_eq_prod_def)
  with assms show "takeWhile (\<lambda>e. fst e \<le> now) xs = filter (\<lambda>e. fst e \<le> now) xs"
    "dropWhile (\<lambda>e. fst e \<le> now) xs = filter (\<lambda>e. \<not> fst e \<le> now) xs"
    by (induction xs) (auto simp: filter_empty_conv filter_id_conv)
qed

lemma eraseActive_all:
  assumes "\<And>e. e \<in> set es \<Longrightarrow> \<exists>t. tqHeap q (snd e) = Some t \<and> (snd e, tmSequence t) \<in> tqActive q"
    and "distinct (map snd es)"
  shows "foldR eraseActive es q = Inr (q\<lparr>tqActive := tqActive q -
    (\<lambda>p. (p, tmSequence (the (tqHeap q p)))) ` snd ` set es\<rparr>)"
  using assms
proof (induction es arbitrary: q)
  case (Cons e es)
  obtain t where t: "tqHeap q (snd e) = Some t" "(snd e, tmSequence t) \<in> tqActive q" using Cons.prems(1)[of e] by auto
  let ?q1 = "q\<lparr>tqActive := tqActive q - {(snd e, tmSequence t)}\<rparr>"
  have "foldR eraseActive es ?q1 = Inr (?q1\<lparr>tqActive := tqActive ?q1 -
    (\<lambda>p. (p, tmSequence (the (tqHeap ?q1 p)))) ` snd ` set es\<rparr>)"
  proof (rule Cons.IH)
    fix x assume "x \<in> set es"
    moreover from this have "snd x \<noteq> snd e" using Cons.prems(2) by (metis distinct.simps(2) image_eqI list.simps(9) set_map)
    ultimately show "\<exists>t. tqHeap ?q1 (snd x) = Some t \<and> (snd x, tmSequence t) \<in> tqActive ?q1"
      using Cons.prems(1)[of x] by auto
  qed (use Cons.prems(2) in simp)
  moreover have "eraseActive e q = Inr ?q1" using t by (simp add: eraseActive_def deref_def)
  ultimately show ?case using t(1) by (simp add: Diff_insert2[symmetric])
qed simp

lemma getExpired_ok:
  assumes wf: "tq_wf Y q"
  shows "\<exists>q'. getExpired now q = Inr (due now q, q') \<and> tq_wf (snd ` set (due now q) \<union> Y) q'
     \<and> tqTimers q' = filter (\<lambda>e. now < fst e) (tqTimers q) \<and> q' = q\<lparr>tqTimers := tqTimers q', tqActive := tqActive q'\<rparr>"
proof -
  note D = tq_wfD[OF wf]
  let ?X = "snd ` set (due now q)" and ?rest = "filter (\<lambda>e. now < fst e) (tqTimers q)"
  let ?q' = "q\<lparr>tqTimers := ?rest, tqActive := (\<lambda>p. (p, tmSequence (the (tqHeap q p)))) ` snd ` set ?rest\<rparr>"
  have below: "e < (now, UINTPTR_MAX) \<longleftrightarrow> fst e \<le> now" if "e \<in> set (tqTimers q)" for e
  proof -
    from that have "snd e \<in> dom (tqHeap q)" using D(5) by auto
    from D(8)[OF this] show ?thesis by (auto simp: less_prod_def)
  qed
  have tk: "takeWhile (\<lambda>e. e < (now, UINTPTR_MAX)) (tqTimers q) = due now q"
    using below sorted_takeWhile_filter(1)[OF D(1), of now] by (simp add: due_def cong: takeWhile_cong)
  have dr: "dropWhile (\<lambda>e. e < (now, UINTPTR_MAX)) (tqTimers q) = ?rest"
    using below sorted_takeWhile_filter(2)[OF D(1), of now] by (simp add: not_le cong: dropWhile_cong)
  have first: "?rest = [] \<or> now < fst (hd ?rest)" using hd_in_set[of ?rest] by auto
  have inj: "inj_on snd (set (tqTimers q))" using D(2) by (simp add: distinct_map)
  have split: "snd ` set (tqTimers q) = ?X \<union> snd ` set ?rest" "?X \<inter> snd ` set ?rest = {}"
  proof -
    have whole: "set (tqTimers q) = set (due now q) \<union> set ?rest" by (auto simp: due_def)
    show "snd ` set (tqTimers q) = ?X \<union> snd ` set ?rest" unfolding whole by (rule image_Un)
    have "set (due now q) \<inter> set ?rest = {}" by (auto simp: due_def)
    then show "?X \<inter> snd ` set ?rest = {}"
      using inj_on_image_Int[OF inj, of "set (due now q)" "set ?rest"] by (simp add: whole[symmetric] due_def)
  qed
  have act: "tqActive q - (\<lambda>p. (p, tmSequence (the (tqHeap q p)))) ` ?X
      = (\<lambda>p. (p, tmSequence (the (tqHeap q p)))) ` snd ` set ?rest"
    using split by (auto simp: D(4) split(1) image_Un simp del: set_filter)
  have erase: "foldR eraseActive (due now q) (q\<lparr>tqTimers := ?rest\<rparr>) = Inr ?q'"
  proof (subst eraseActive_all)
    show "\<exists>t. tqHeap (q\<lparr>tqTimers := ?rest\<rparr>) (snd e) = Some t \<and> (snd e, tmSequence t) \<in> tqActive (q\<lparr>tqTimers := ?rest\<rparr>)"
      if "e \<in> set (due now q)" for e
    proof -
      from that have e: "(fst e, snd e) \<in> set (tqTimers q)" by (simp add: due_def)
      from D(3)[OF this] e show ?thesis by (auto simp: tq_wf_active[OF wf])
    qed
    show "distinct (map snd (due now q))" using D(2) by (simp add: due_def distinct_map_filter)
  qed (use act in simp)
  have wf': "tq_wf (?X \<union> Y) ?q'"
    unfolding tq_wf_def
  proof (intro conjI)
    show "dom (tqHeap ?q') = snd ` set (tqTimers ?q') \<union> (?X \<union> Y)" using D(5) split(1) by (simp add: ac_simps del: set_filter)
    show "(?X \<union> Y) \<inter> snd ` set (tqTimers ?q') = {}" using split D(6) by auto
    show "finite (?X \<union> Y)" using D(7) by simp
    show "\<forall>(e, p)\<in>set (tqTimers ?q'). \<exists>t. tqHeap ?q' p = Some t \<and> tmExpiration t = e" using D(3) by auto
    show "\<forall>p t. tqHeap ?q' p = Some t \<longrightarrow> tmSequence t \<le> tqNumCreated ?q'" using D(9) by simp
    show "\<forall>p\<in>dom (tqHeap ?q'). p < UINTPTR_MAX" using D(8) by simp
  qed (use D(1,2) in \<open>simp_all add: sorted_filter[of "\<lambda>x. x", simplified] distinct_map_filter\<close>)
  have "getExpired now q = Inr (due now q, ?q')"
    unfolding getExpired_def Let_def tk dr
    using tq_wf_size[OF wf] tq_wf_size[OF wf'] first erase by (simp del: set_filter)
  with wf' show ?thesis by (intro exI[of _ ?q']) simp
qed

subsection \<open>Restarting\<close>

text \<open>Whether an expired timer goes back into the queue.\<close>

definition restarts :: "timer_queue \<Rightarrow> timer \<Rightarrow> nat \<Rightarrow> bool" where
  "restarts q t p \<longleftrightarrow> tmRepeat t \<and> (p, tmSequence t) \<notin> tqCanceling q"

lemma resetOne_ok:
  assumes wf: "tq_wf X q" and e: "snd e \<in> X"
  obtains t q' where "tqHeap q (snd e) = Some t" "resetOne now e q = Inr q'" "tq_wf (X - {snd e}) q'"
    "tqHeap q' = (tqHeap q)(snd e := if restarts q t (snd e) then Some (restart now t) else None)"
    "set (tqTimers q') = (if restarts q t (snd e) then insert (addTime now (tmDelta t), snd e) else id) (set (tqTimers q))"
    "tqCanceling q' = tqCanceling q" "tqArmed q' = tqArmed q" "tqNumCreated q' = tqNumCreated q"
    "tqCalling q' = tqCalling q"
proof -
  note D = tq_wfD[OF wf]
  let ?p = "snd e"
  obtain t where t: "tqHeap q ?p = Some t" using e D(5) by blast
  have other: "r \<noteq> ?p" if "r \<in> snd ` set (tqTimers q)" for r using that e D(6) by blast
  have act: "tqActive q = (\<lambda>p. (p, tmSequence (the (((tqHeap q)(?p := v)) p)))) ` snd ` set (tqTimers q)" for v
    using D(4) other by (auto intro!: image_cong)
  have old: "\<forall>(x, r) \<in> set (tqTimers q). \<exists>t. ((tqHeap q)(?p := v)) r = Some t \<and> tmExpiration t = x" for v
    using D(3) other by force
  show thesis
  proof (cases "restarts q t ?p")
    case True
    let ?q1 = "q\<lparr>tqHeap := (tqHeap q)(?p \<mapsto> restart now t)\<rparr>"
    have wf1: "tq_wf X ?q1"
      unfolding tq_wf_def
    proof (intro conjI)
      show "\<forall>p ta. tqHeap ?q1 p = Some ta \<longrightarrow> tmSequence ta \<le> tqNumCreated ?q1"
      proof (intro allI impI)
        fix p ta assume "tqHeap ?q1 p = Some ta"
        then show "tmSequence ta \<le> tqNumCreated ?q1" using D(9)[of p ta] D(9)[OF t]
          by (auto simp: restart_def split: if_splits)
      qed
    qed (use D(1,2,5-8) e act old in auto)
    have t1: "tqHeap ?q1 ?p = Some (restart now t)" by simp
    have rep: "tmExpiration (restart now t) = addTime now (tmDelta t)" using True by (simp add: restart_def restarts_def)
    from tq_insert_ok[OF wf1 e t1] that[OF t] True t rep show thesis
      by (simp add: resetOne_def deref_def restarts_def set_insort_key)
  next
    case False
    let ?q1 = "q\<lparr>tqHeap := (tqHeap q)(?p := None)\<rparr>"
    have "tq_wf (X - {?p}) ?q1"
      unfolding tq_wf_def
    proof (intro conjI)
      show "\<forall>p ta. tqHeap ?q1 p = Some ta \<longrightarrow> tmSequence ta \<le> tqNumCreated ?q1" using D(9) by simp
    qed (use D(1,2,5-8) e act old other in auto)
    then show thesis
      by (intro that[OF t, of ?q1]) (use False t in \<open>simp_all add: resetOne_def deref_def flip: restarts_def\<close>)
  qed
qed

text \<open>The whole of \<open>reset\<close>: each expired timer is restarted in place or freed.\<close>

lemma resetOnes_ok:
  assumes "tq_wf X q" "snd ` set es \<subseteq> X" "distinct (map snd es)"
  shows "\<exists>q'. foldR (resetOne now) es q = Inr q' \<and> tq_wf (X - snd ` set es) q'
    \<and> tqHeap q' = (\<lambda>p. if p \<in> snd ` set es
         then (case tqHeap q p of Some t \<Rightarrow> if restarts q t p then Some (restart now t) else None | None \<Rightarrow> None)
         else tqHeap q p)
    \<and> set (tqTimers q') = set (tqTimers q) \<union> {(addTime now (tmDelta t), p) | p t.
         p \<in> snd ` set es \<and> tqHeap q p = Some t \<and> restarts q t p}
    \<and> tqNumCreated q' = tqNumCreated q \<and> tqArmed q' = tqArmed q \<and> tqCalling q' = tqCalling q"
  using assms
proof (induction es arbitrary: q X)
  case (Cons e es)
  have "snd e \<in> X" using Cons.prems(2) by simp
  then obtain t q1 where t: "tqHeap q (snd e) = Some t" and q1: "resetOne now e q = Inr q1" "tq_wf (X - {snd e}) q1"
    and h1: "tqHeap q1 = (tqHeap q)(snd e := if restarts q t (snd e) then Some (restart now t) else None)"
    and s1: "set (tqTimers q1) = (if restarts q t (snd e) then insert (addTime now (tmDelta t), snd e) else id) (set (tqTimers q))"
    and k1: "tqCanceling q1 = tqCanceling q" "tqArmed q1 = tqArmed q" "tqNumCreated q1 = tqNumCreated q" "tqCalling q1 = tqCalling q"
    using resetOne_ok[OF Cons.prems(1)] by metis
  have e: "snd e \<notin> snd ` set es" "distinct (map snd es)" using Cons.prems(3) by simp_all
  have "snd ` set es \<subseteq> X - {snd e}" using Cons.prems(2) e(1) unfolding list.set by blast
  from Cons.IH[OF q1(2) this e(2)] obtain q2 where
    q2: "foldR (resetOne now) es q1 = Inr q2" "tq_wf (X - {snd e} - snd ` set es) q2"
    and h2: "tqHeap q2 = (\<lambda>p. if p \<in> snd ` set es
         then (case tqHeap q1 p of Some t \<Rightarrow> if restarts q1 t p then Some (restart now t) else None | None \<Rightarrow> None)
         else tqHeap q1 p)"
    and s2: "set (tqTimers q2) = set (tqTimers q1) \<union> {(addTime now (tmDelta t), p) | p t.
         p \<in> snd ` set es \<and> tqHeap q1 p = Some t \<and> restarts q1 t p}"
    and k2: "tqNumCreated q2 = tqNumCreated q1" "tqArmed q2 = tqArmed q1" "tqCalling q2 = tqCalling q1" by blast
  have same: "tqHeap q1 p = tqHeap q p" if "p \<in> snd ` set es" for p
  proof -
    have "p \<noteq> snd e" using that e(1) by blast
    then show ?thesis by (simp add: h1)
  qed
  have res: "restarts q1 = restarts q" by (simp add: restarts_def k1 fun_eq_iff)
  have "X - snd ` set (e # es) = X - {snd e} - snd ` set es" by auto
  moreover have "tqHeap q2 = (\<lambda>p. if p \<in> snd ` set (e # es)
       then (case tqHeap q p of Some t \<Rightarrow> if restarts q t p then Some (restart now t) else None | None \<Rightarrow> None)
       else tqHeap q p)"
  proof
    fix p
    show "tqHeap q2 p = (if p \<in> snd ` set (e # es)
       then (case tqHeap q p of Some t \<Rightarrow> if restarts q t p then Some (restart now t) else None | None \<Rightarrow> None)
       else tqHeap q p)"
      using h1 h2[unfolded res] t e(1) same[of p] by (cases "p = snd e") auto
  qed
  moreover have "set (tqTimers q2) = set (tqTimers q) \<union> {(addTime now (tmDelta t), p) | p t.
       p \<in> snd ` set (e # es) \<and> tqHeap q p = Some t \<and> restarts q t p}"
  proof -
    let ?N = "\<lambda>es. {(addTime now (tmDelta t), p) | p t. p \<in> snd ` set es \<and> tqHeap q p = Some t \<and> restarts q t p}"
    have "{(addTime now (tmDelta t), p) | p t. p \<in> snd ` set es \<and> tqHeap q1 p = Some t \<and> restarts q1 t p} = ?N es"
      unfolding res by (intro Collect_cong ex_cong1) (metis same)
    moreover have "?N (e # es) = (if restarts q t (snd e) then {(addTime now (tmDelta t), snd e)} else {}) \<union> ?N es"
      using t by auto
    ultimately show ?thesis using s1 s2 by simp
  qed
  ultimately show ?case using q1(1) q2 k1 k2 by simp
qed simp

lemma howMuchTimeFromNow_value:
  "howMuchTimeFromNow clock wh = (sec, nsec) \<Longrightarrow>
     0 \<le> sec \<and> 0 \<le> nsec \<and> nsec < 1000000000
   \<and> sec * kMicroSecondsPerSecond + nsec div 1000 = max (wh - clock) 100 \<and> nsec mod 1000 = 0"
  by (auto simp: howMuchTimeFromNow_def Let_def kMicroSecondsPerSecond_def max_def)

lemma resetTimerfd_armed: "resetTimerfd clock wh q = q\<lparr>tqArmed := Some (max wh (clock + 100))\<rparr>"
proof -
  obtain sec nsec where h: "howMuchTimeFromNow clock wh = (sec, nsec)" by (cases "howMuchTimeFromNow clock wh")
  from howMuchTimeFromNow_value[OF h] have
    "clock + sec * kMicroSecondsPerSecond + nsec div 1000 = clock + max (wh - clock) 100" by simp
  also have "\<dots> = max wh (clock + 100)" by (simp add: max_def)
  finally have "clock + sec * kMicroSecondsPerSecond + nsec div 1000 = max wh (clock + 100)" .
  with h show ?thesis by (simp add: resetTimerfd_def)
qed

lemma tq_reset_ok:
  assumes "tq_wf X q" "snd ` set es \<subseteq> X" "distinct (map snd es)"
  shows "\<exists>q1 q'. foldR (resetOne now) es q = Inr q1 \<and> tq_reset clock es now q = Inr q' \<and> tq_wf (X - snd ` set es) q'
     \<and> q' = (if tqTimers q1 \<noteq> [] \<and> 0 < fst (hd (tqTimers q1))
             then q1\<lparr>tqArmed := Some (max (fst (hd (tqTimers q1))) (clock + 100))\<rparr> else q1)"
proof -
  obtain q1 where q1: "foldR (resetOne now) es q = Inr q1" "tq_wf (X - snd ` set es) q1"
    using resetOnes_ok[OF assms, of now] by blast
  have first: "\<exists>t. tqHeap q1 (snd (hd (tqTimers q1))) = Some t \<and> tmExpiration t = fst (hd (tqTimers q1))"
    if "tqTimers q1 \<noteq> []"
    using tq_wfD(3)[OF q1(2), of "fst (hd (tqTimers q1))" "snd (hd (tqTimers q1))"] hd_in_set[OF that] by simp
  show ?thesis
  proof (cases "tqTimers q1 = []")
    case True
    with q1 show ?thesis by (simp add: tq_reset_def ts_valid_def ts_invalid_def)
  next
    case False
    with first q1 show ?thesis by (auto simp: tq_reset_def ts_valid_def deref_def resetTimerfd_armed)
  qed
qed

subsection \<open>The alarm\<close>

text \<open>The outcome of \<open>handleRead\<close>: the due timers' callbacks ran once each, in order, and each due
  timer is either back in the queue, restarted from \<open>now\<close>, or freed.\<close>

lemma tq_handleRead_ok:
  assumes wf: "tq_wf Y q" and alloc: "alloc_ok alloc"
  shows "holds oom (tq_handleRead alloc beh fired now clock q) (\<lambda>(cbs, q'). tq_wf Y q'
    \<and> (\<forall>p \<in> Y. tqHeap q' p = tqHeap q p)
    \<and> cbs = map (\<lambda>e. tmCallback (the (tqHeap q (snd e)))) (due now q)
    \<and> (\<forall>e \<in> set (due now q). \<forall>t. tqHeap q (snd e) = Some t \<longrightarrow>
         (if tmRepeat t \<and> CallCancel \<lparr>tidTimer = snd e, tidSequence = tmSequence t\<rparr>
               \<notin> set (concat (take (length (due now q)) beh))
          then tqHeap q' (snd e) = Some (restart now t) \<and> (addTime now (tmDelta t), snd e) \<in> set (tqTimers q')
          else tqHeap q' (snd e) = None))
    \<and> (tqTimers q' \<noteq> [] \<longrightarrow> 0 < fst (hd (tqTimers q')) \<longrightarrow>
         tqArmed q' = Some (max (fst (hd (tqTimers q'))) (clock + 100))))"
proof -
  let ?q0 = "if fired then q\<lparr>tqArmed := None\<rparr> else q"
  let ?X = "snd ` set (due now q)" and ?C = "\<Union> (cancels ` set (concat (take (length (due now q)) beh)))"
  have "tq_wf Y ?q0" and due0: "due now ?q0 = due now q" and h0: "tqHeap ?q0 = tqHeap q" using wf by (simp_all add: due_def)
  from getExpired_ok[OF this(1), of now] obtain q1 where q1: "getExpired now ?q0 = Inr (due now q, q1)"
      "tq_wf (?X \<union> Y) q1" "q1 = ?q0\<lparr>tqTimers := tqTimers q1, tqActive := tqActive q1\<rparr>" by (auto simp: due0)
  have h1: "tqHeap q1 = tqHeap q" using h0 q1(3) by (metis timer_queue.select_convs(1) timer_queue.surjective timer_queue.update_convs(2,3))
  have dist: "distinct (map snd (due now q))" using tq_wfD(2)[OF wf] by (simp add: due_def distinct_map_filter)
  let ?q1 = "q1\<lparr>tqCalling := True, tqCanceling := {}\<rparr>"
  have wf1: "tq_wf (?X \<union> Y) ?q1" using q1(2) by simp
  have dj: "?X \<inter> Y = {}" using tq_wfD(6)[OF wf] by (auto simp: due_def)
  then have left: "?X \<union> Y - ?X = Y" by blast
  have cancels: "\<lparr>tidTimer = p, tidSequence = s\<rparr> \<in> ?C \<longleftrightarrow>
      CallCancel \<lparr>tidTimer = p, tidSequence = s\<rparr> \<in> set (concat (take (length (due now q)) beh))" for p s
  proof -
    have "tid \<in> cancels c \<longleftrightarrow> c = CallCancel tid" for tid c by (cases c) auto
    then show ?thesis by auto
  qed
  have body: "holds oom (bindR (run_expired alloc beh (due now q) ?q1) (\<lambda>(cbs, q2).
      bindR (tq_reset clock (due now q) now (q2\<lparr>tqCalling := False\<rparr>)) (\<lambda>q3. Inr (cbs, q3))))
    (\<lambda>(cbs, q'). tq_wf Y q'
    \<and> (\<forall>p \<in> Y. tqHeap q' p = tqHeap q p)
    \<and> cbs = map (\<lambda>e. tmCallback (the (tqHeap q (snd e)))) (due now q)
    \<and> (\<forall>e \<in> set (due now q). \<forall>t. tqHeap q (snd e) = Some t \<longrightarrow>
         (if tmRepeat t \<and> CallCancel \<lparr>tidTimer = snd e, tidSequence = tmSequence t\<rparr>
               \<notin> set (concat (take (length (due now q)) beh))
          then tqHeap q' (snd e) = Some (restart now t) \<and> (addTime now (tmDelta t), snd e) \<in> set (tqTimers q')
          else tqHeap q' (snd e) = None))
    \<and> (tqTimers q' \<noteq> [] \<longrightarrow> 0 < fst (hd (tqTimers q')) \<longrightarrow>
         tqArmed q' = Some (max (fst (hd (tqTimers q'))) (clock + 100))))"
  proof (rule holds_bindR[OF run_expired_held[OF wf1 alloc Un_upper1, of beh]], goal_cases)
    case (1 r)
    obtain cbs q2 where r: "r = (cbs, q2)" by (cases r)
    from 1 r have cbs: "cbs = map (\<lambda>e. tmCallback (the (tqHeap q (snd e)))) (due now q)"
      and keep: "keeps_held (?X \<union> Y) ?C ?q1 q2" by (simp_all add: h1)
    let ?q2 = "q2\<lparr>tqCalling := False\<rparr>"
    note K = keep[unfolded keeps_held_def]
    have wf2: "tq_wf (?X \<union> Y) ?q2" using K by simp
    have "tqHeap q2 p = tqHeap ?q1 p" if "p \<in> ?X \<union> Y" for p using K that by blast
    then have h2: "tqHeap q2 p = tqHeap q p" if "p \<in> ?X \<union> Y" for p using that by (simp add: h1)
    have "(p, s) \<in> tqCanceling q2 \<longleftrightarrow> (p, s) \<in> tqCanceling ?q1 \<or> \<lparr>tidTimer = p, tidSequence = s\<rparr> \<in> ?C"
      if "p \<in> ?X" for p s using K that by simp
    then have c2: "(p, s) \<in> tqCanceling q2 \<longleftrightarrow> \<lparr>tidTimer = p, tidSequence = s\<rparr> \<in> ?C" if "p \<in> ?X" for p s
      using that by simp
    from tq_reset_ok[OF wf2 Un_upper1 dist, of now clock] obtain q3 q' where
      q3: "foldR (resetOne now) (due now q) ?q2 = Inr q3" and q': "tq_reset clock (due now q) now ?q2 = Inr q'" "tq_wf Y q'"
        "q' = (if tqTimers q3 \<noteq> [] \<and> 0 < fst (hd (tqTimers q3))
             then q3\<lparr>tqArmed := Some (max (fst (hd (tqTimers q3))) (clock + 100))\<rparr> else q3)" unfolding left by blast
    from resetOnes_ok[OF wf2 Un_upper1 dist, of now] q3 have
      h3: "tqHeap q3 = (\<lambda>p. if p \<in> ?X then (case tqHeap ?q2 p of Some t \<Rightarrow>
            if restarts ?q2 t p then Some (restart now t) else None | None \<Rightarrow> None) else tqHeap ?q2 p)" and
      s3: "set (tqTimers q3) = set (tqTimers ?q2) \<union> {(addTime now (tmDelta t), p) | p t.
         p \<in> ?X \<and> tqHeap ?q2 p = Some t \<and> restarts ?q2 t p}" by auto
    have same: "tqHeap q' = tqHeap q3" "tqTimers q' = tqTimers q3" using q'(3) by simp_all
    have fin: "(if tmRepeat t \<and> CallCancel \<lparr>tidTimer = snd e, tidSequence = tmSequence t\<rparr>
               \<notin> set (concat (take (length (due now q)) beh))
          then tqHeap q' (snd e) = Some (restart now t) \<and> (addTime now (tmDelta t), snd e) \<in> set (tqTimers q')
          else tqHeap q' (snd e) = None)" if e: "e \<in> set (due now q)" and t: "tqHeap q (snd e) = Some t" for e t
    proof -
      have X: "snd e \<in> ?X" using e by simp
      have "restarts ?q2 t (snd e) \<longleftrightarrow> tmRepeat t \<and> CallCancel \<lparr>tidTimer = snd e, tidSequence = tmSequence t\<rparr>
               \<notin> set (concat (take (length (due now q)) beh))"
        unfolding restarts_def cancels[symmetric] using c2[OF X] by simp
      with h2[of "snd e"] X t show ?thesis unfolding same h3 s3 by auto
    qed
    have arm: "tqTimers q' \<noteq> [] \<longrightarrow> 0 < fst (hd (tqTimers q')) \<longrightarrow>
        tqArmed q' = Some (max (fst (hd (tqTimers q'))) (clock + 100))" using q'(3) by simp
    have keepY: "\<forall>p \<in> Y. tqHeap q' p = tqHeap q p" using dj h2 unfolding same h3 by auto
    show ?case unfolding r using q'(1,2) cbs fin arm keepY by (simp del: set_concat)
  qed
  then show ?thesis using q1(1) by (simp add: tq_handleRead_def Let_def)
qed

subsection \<open>Runs of the queue\<close>

text \<open>What the loop thread does with the queue: a call from outside a callback, or an alarm.\<close>

datatype timer_event =
    EvCall timer_call
  | EvAlarm "timer_call list list" bool timestamp timestamp

fun tq_event :: "(nat set \<Rightarrow> nat option) \<Rightarrow> timer_event \<Rightarrow> timer_queue \<Rightarrow> timer_queue res" where
  "tq_event alloc (EvCall c) q = timer_do alloc c q"
| "tq_event alloc (EvAlarm beh fired now clock) q =
     bindR (tq_handleRead alloc beh fired now clock q) (\<lambda>(_, q'). Inr q')"

lemma tq_event_wf:
  assumes "tq_wf Y q" "alloc_ok alloc"
  shows "holds oom (tq_event alloc ev q) (\<lambda>q'. tq_wf Y q' \<and> (\<forall>p \<in> Y. tqHeap q' p = tqHeap q p))"
proof (cases ev)
  case (EvCall c)
  with timer_do_held[OF assms, of c] show ?thesis by (auto intro: holds_mono simp: keeps_held_def)
next
  case (EvAlarm beh fired now clock)
  have "holds oom (bindR (tq_handleRead alloc beh fired now clock q) (\<lambda>(_, q'). Inr q'))
      (\<lambda>q'. tq_wf Y q' \<and> (\<forall>p \<in> Y. tqHeap q' p = tqHeap q p))"
    by (rule holds_bindR[OF tq_handleRead_ok[OF assms]]) auto
  with EvAlarm show ?thesis by simp
qed

text \<open>An allocator over a bounded arena, for the witnesses.\<close>

definition arena_alloc :: "nat set \<Rightarrow> nat option" where
  "arena_alloc A = find (\<lambda>p. p \<notin> A) [1, 2, 3, 4]"

lemma arena_alloc_ok: "alloc_ok arena_alloc"
  by (auto simp: alloc_ok_def arena_alloc_def UINTPTR_MAX_def find_Some_iff split: if_splits)

lemmas tq_eval = newTimerQueue_def addTimer_def newTimer_def addTimerInLoop_def tq_insert_def deref_def
  size_eq_def cancelInLoop_def arena_alloc_def resetTimerfd_armed

text \<open>
  Property C10. An alarm at time \<open>now\<close> runs the callback of every queued timer whose expiration is
  not after \<open>now\<close>, once each, in order of expiration, and no other. Afterwards a due timer
  is back in the queue, restarted to \<open>now + interval\<close>, exactly when it repeats and no callback of
  this batch cancelled it (itself included); every other due timer has been freed.
\<close>

theorem alarm_runs_due_timers:
  assumes "tq_wf Y q" "alloc_ok alloc" "tq_handleRead alloc beh fired now clock q = Inr (cbs, q')"
  shows "cbs = map (\<lambda>e. tmCallback (the (tqHeap q (snd e)))) (filter (\<lambda>e. fst e \<le> now) (tqTimers q))
    \<and> (\<forall>e \<in> set (filter (\<lambda>e. fst e \<le> now) (tqTimers q)). \<forall>t. tqHeap q (snd e) = Some t \<longrightarrow>
       (if tmRepeat t \<and> CallCancel \<lparr>tidTimer = snd e, tidSequence = tmSequence t\<rparr>
             \<notin> set (concat (take (length (filter (\<lambda>e. fst e \<le> now) (tqTimers q))) beh))
        then tqHeap q' (snd e) = Some (restart now t) \<and> (addTime now (tmDelta t), snd e) \<in> set (tqTimers q')
        else tqHeap q' (snd e) = None))"
  using tq_handleRead_ok[OF assms(1,2), of beh fired now clock, unfolded assms(3) holds_Inr case_prod_conv due_def]
  by blast

text \<open>A queue with one repeating and one single-shot timer, both due; the repeating timer's callback
  cancels itself.\<close>

definition two_timers :: timer_queue where
  "two_timers = newTimerQueue\<lparr>
     tqHeap := [1 \<mapsto> \<lparr>tmCallback = 7, tmExpiration = 500, tmDelta = 300, tmRepeat = True, tmSequence = 1\<rparr>,
                2 \<mapsto> \<lparr>tmCallback = 8, tmExpiration = 900, tmDelta = 0, tmRepeat = False, tmSequence = 2\<rparr>],
     tqTimers := [(500, 1), (900, 2)], tqActive := {(1, 1), (2, 2)}, tqNumCreated := 2\<rparr>"

lemma two_timers_wf: "tq_wf {} two_timers"
proof -
  have "dom [1 \<mapsto> a, (2::nat) \<mapsto> b] = {1, 2}" for a b :: timer by auto
  then show ?thesis
    by (auto simp: tq_wf_def two_timers_def newTimerQueue_def UINTPTR_MAX_def less_eq_prod_def split: if_splits)
qed

lemmas tq_alarm_eval = tq_handleRead_def getExpired_def eraseActive_def tq_reset_def resetOne_def
  UINTPTR_MAX_def ts_valid_def ts_invalid_def restart_def addTime_def less_prod_def Let_def

theorem alarm_runs_due_timers_witness:
  "\<exists>q'. tq_handleRead arena_alloc [[CallCancel \<lparr>tidTimer = 1, tidSequence = 1\<rparr>]] True 1000 1001 two_timers = Inr ([7, 8], q')
     \<and> tqHeap q' 1 = None"
proof -
  let ?run = "tq_handleRead arena_alloc [[CallCancel \<lparr>tidTimer = 1, tidSequence = 1\<rparr>]] True 1000 1001 two_timers"
  obtain cbs q' where run: "?run = Inr (cbs, q')"
    by (simp add: tq_alarm_eval tq_eval two_timers_def)
  from alarm_runs_due_timers[OF two_timers_wf arena_alloc_ok run] run show ?thesis
    by (simp add: two_timers_def newTimerQueue_def)
qed

subsection \<open>Cancellation is final\<close>

lemma resetOnes_origin:
  assumes "foldR (resetOne now) es q = Inr q'"
  shows "seq_origin q q'"
proof (rule foldR_preserves[OF assms seq_origin_refl])
  fix e q1 q2 assume 1: "seq_origin q q1" and "resetOne now e q1 = Inr q2"
  then have "seq_origin q1 q2"
    by (auto simp: resetOne_def bindR_eq_Inr tq_insert_def ensure_eq_Inr deref_def Let_def seq_origin_def restart_def
        split: if_splits option.splits)
  with 1 show "seq_origin q q2" by (rule seq_origin_trans)
qed

lemma handleRead_origin:
  assumes wf: "tq_wf Y q" and alloc: "alloc_ok alloc" and run: "tq_handleRead alloc beh fired now clock q = Inr (cbs, q')"
  shows "seq_origin q q'"
proof -
  let ?q0 = "if fired then q\<lparr>tqArmed := None\<rparr> else q"
  have "tq_wf Y ?q0" using wf by simp
  from getExpired_ok[OF this, of now] obtain q1 where q1: "getExpired now ?q0 = Inr (due now ?q0, q1)"
      "tq_wf (snd ` set (due now ?q0) \<union> Y) q1" "q1 = ?q0\<lparr>tqTimers := tqTimers q1, tqActive := tqActive q1\<rparr>" by auto
  then obtain q2 where q2: "run_expired alloc beh (due now ?q0) (q1\<lparr>tqCalling := True, tqCanceling := {}\<rparr>) = Inr (cbs, q2)"
      "tq_reset clock (due now ?q0) now (q2\<lparr>tqCalling := False\<rparr>) = Inr q'"
    using run by (auto simp: tq_handleRead_def Let_def bindR_eq_Inr)
  have "keeps_held (snd ` set (due now ?q0) \<union> Y) (\<Union> (cancels ` set (concat (take (length (due now ?q0)) beh))))
      (q1\<lparr>tqCalling := True, tqCanceling := {}\<rparr>) q2"
    using run_expired_held[OF _ alloc Un_upper1, of "due now ?q0" Y "q1\<lparr>tqCalling := True, tqCanceling := {}\<rparr>" beh] q1(2) q2(1)
    by simp
  then have mid: "seq_origin (q1\<lparr>tqCalling := True, tqCanceling := {}\<rparr>) (q2\<lparr>tqCalling := False\<rparr>)"
    by (simp add: keeps_held_def seq_origin_def)
  from q2(2) obtain q3 where q3: "foldR (resetOne now) (due now ?q0) (q2\<lparr>tqCalling := False\<rparr>) = Inr q3" "seq_origin q3 q'"
    by (auto simp: tq_reset_def bindR_eq_Inr seq_origin_def resetTimerfd_armed split: if_splits)
  have "seq_origin q (q1\<lparr>tqCalling := True, tqCanceling := {}\<rparr>)"
    by (subst q1(3)) (auto simp: seq_origin_def)
  from seq_origin_trans[OF this mid] resetOnes_origin[OF q3(1)] q3(2) show ?thesis
    by (blast intro: seq_origin_trans)
qed

lemma tq_event_origin:
  assumes "tq_wf Y q" "alloc_ok alloc" "tq_event alloc ev q = Inr q'"
  shows "seq_origin q q'"
proof (cases ev)
  case (EvCall c)
  with timer_do_held[OF assms(1,2), of c] assms(3) show ?thesis by (simp add: keeps_held_def)
next
  case (EvAlarm beh fired now clock)
  with assms(3) obtain cbs where "tq_handleRead alloc beh fired now clock q = Inr (cbs, q')" by (auto simp: bindR_eq_Inr)
  from handleRead_origin[OF assms(1,2) this] show ?thesis .
qed

text \<open>A timer is gone when no allocated timer has its address and number, except one that waits in \<open>X\<close>.\<close>

definition gone :: "nat set \<Rightarrow> timer_id \<Rightarrow> timer_queue \<Rightarrow> bool" where
  "gone X tid q \<longleftrightarrow> (\<forall>t. tqHeap q (tidTimer tid) = Some t \<longrightarrow> tmSequence t = tidSequence tid \<longrightarrow> tidTimer tid \<in> X)"

lemma gone_later:
  assumes "gone X tid q" "seq_origin q q'" "tidSequence tid \<le> tqNumCreated q"
  shows "gone X tid q'"
  unfolding gone_def
proof (intro allI impI)
  fix t assume t: "tqHeap q' (tidTimer tid) = Some t" "tmSequence t = tidSequence tid"
  with assms(2,3) obtain t0 where "tqHeap q (tidTimer tid) = Some t0" "tmSequence t0 = tidSequence tid"
    unfolding seq_origin_def by fastforce
  with assms(1) show "tidTimer tid \<in> X" by (simp add: gone_def)
qed

lemma cancelInLoop_gone:
  assumes wf: "tq_wf X q" and q1: "cancelInLoop tid q = Inr q1"
  shows "gone X tid q1"
  using wf
proof (cases rule: cancelInLoop_cases[where tid = tid])
  case (queued t)
  then show ?thesis using q1 by (auto simp: gone_def)
next
  case unknown
  have "tidTimer tid \<in> X" if t: "tqHeap q (tidTimer tid) = Some t" "tmSequence t = tidSequence tid" for t
  proof (rule ccontr)
    assume "tidTimer tid \<notin> X"
    then have "tidTimer tid \<in> snd ` set (tqTimers q)" using t tq_wfD(5)[OF wf] by auto
    with t unknown(1) tq_wfD(4)[OF wf] show False by force
  qed
  with unknown q1 show ?thesis by (auto simp: gone_def split: if_splits)
qed

lemma calls_gone:
  assumes "tq_wf X q" "alloc_ok alloc" "tidSequence tid \<le> tqNumCreated q"
    and "foldR (timer_do alloc) cs q = Inr q'" "CallCancel tid \<in> set cs \<or> gone X tid q"
  shows "gone X tid q'"
  using assms
proof (induction cs arbitrary: q)
  case (Cons c cs)
  then obtain q1 where q1: "timer_do alloc c q = Inr q1" "foldR (timer_do alloc) cs q1 = Inr q'" by (auto simp: bindR_eq_Inr)
  have k: "keeps_held X (cancels c) q q1" using timer_do_held[OF Cons.prems(1,2), of c] q1(1) by simp
  have "CallCancel tid \<in> set cs \<or> gone X tid q1"
  proof (cases "c = CallCancel tid")
    case True
    then show ?thesis using cancelInLoop_gone[OF Cons.prems(1)] q1(1) by simp
  next
    case False
    then show ?thesis using Cons.prems(3,5) k gone_later by (auto simp: keeps_held_def)
  qed
  moreover have "tq_wf X q1" "tidSequence tid \<le> tqNumCreated q1"
    using k Cons.prems(3) by (auto simp: keeps_held_def seq_origin_def)
  ultimately show ?case using Cons.IH[OF _ Cons.prems(2) _ q1(2)] by blast
qed simp

lemma run_expired_gone:
  assumes "tq_wf X q" "alloc_ok alloc" "tidSequence tid \<le> tqNumCreated q"
    and "run_expired alloc beh es q = Inr (cbs, q')" "CallCancel tid \<in> set (concat (take (length es) beh)) \<or> gone X tid q"
  shows "gone X tid q'"
  using assms
proof (induction es arbitrary: q beh cbs)
  case (Cons e es)
  let ?acts = "case beh of [] \<Rightarrow> [] | acts # _ \<Rightarrow> acts"
  from Cons.prems(4) obtain q1 cbs' where
    q1: "foldR (timer_do alloc) ?acts q = Inr q1" "run_expired alloc (tl beh) es q1 = Inr (cbs', q')"
    by (auto simp: bindR_eq_Inr)
  have k: "keeps_held X (\<Union> (cancels ` set ?acts)) q q1" using timer_dos_held[OF Cons.prems(1,2), of ?acts] q1(1) by simp
  have "CallCancel tid \<in> set (concat (take (length es) (tl beh))) \<or> gone X tid q1"
  proof (cases "CallCancel tid \<in> set ?acts \<or> gone X tid q")
    case True
    then show ?thesis using calls_gone[OF Cons.prems(1-3) q1(1)] by blast
  next
    case False
    then show ?thesis using Cons.prems(5) by (cases beh) auto
  qed
  moreover have "tq_wf X q1" "tidSequence tid \<le> tqNumCreated q1"
    using k Cons.prems(3) by (auto simp: keeps_held_def seq_origin_def)
  ultimately show ?case using Cons.IH[OF _ Cons.prems(2) _ q1(2)] by blast
qed simp

text \<open>A cancel in a callback of an alarm: at once when the timer is queued; when it is one of the due
  ones, by \<open>cancelingTimers_\<close>, which keeps it from being restarted.\<close>

lemma alarm_cancel_gone:
  assumes wf: "tq_wf Y q" and alloc: "alloc_ok alloc" and old: "tidSequence tid \<le> tqNumCreated q"
    and run: "tq_handleRead alloc beh fired now clock q = Inr (cbs, q')"
    and cancel: "CallCancel tid \<in> set (concat (take (length (due now q)) beh))"
  shows "gone Y tid q'"
proof -
  let ?p = "tidTimer tid" and ?q0 = "if fired then q\<lparr>tqArmed := None\<rparr> else q"
  have orig: "seq_origin q q'" by (rule handleRead_origin[OF wf alloc run])
  show ?thesis
  proof (cases "\<exists>t. tqHeap q ?p = Some t \<and> tmSequence t = tidSequence tid \<and> (tmExpiration t, ?p) \<in> set (due now q)")
    case True
    then obtain t where t: "tqHeap q ?p = Some t" "tmSequence t = tidSequence tid" "(tmExpiration t, ?p) \<in> set (due now q)" by blast
    have tid: "\<lparr>tidTimer = ?p, tidSequence = tmSequence t\<rparr> = tid" using t(2) by simp
    from tq_handleRead_ok[OF wf alloc, of beh fired now clock, unfolded run holds_Inr case_prod_conv] t
    have "if tmRepeat t \<and> CallCancel \<lparr>tidTimer = ?p, tidSequence = tmSequence t\<rparr> \<notin> set (concat (take (length (due now q)) beh))
        then tqHeap q' ?p = Some (restart now t) \<and> (addTime now (tmDelta t), ?p) \<in> set (tqTimers q') else tqHeap q' ?p = None"
      by (metis snd_conv)
    then have "tqHeap q' ?p = None" using cancel unfolding tid by simp
    then show ?thesis by (simp add: gone_def)
  next
    case False
    have "tq_wf Y ?q0" and d0: "due now ?q0 = due now q" using wf by (simp_all add: due_def)
    from getExpired_ok[OF this(1), of now] obtain q1 where q1: "getExpired now ?q0 = Inr (due now q, q1)"
        "tq_wf (snd ` set (due now q) \<union> Y) q1" "q1 = ?q0\<lparr>tqTimers := tqTimers q1, tqActive := tqActive q1\<rparr>" unfolding d0 by blast
    let ?X = "snd ` set (due now q) \<union> Y" and ?q1 = "q1\<lparr>tqCalling := True, tqCanceling := {}\<rparr>"
    from run q1(1) obtain q2 q3 where
      q2: "run_expired alloc beh (due now q) ?q1 = Inr (cbs, q2)" and
      q3: "foldR (resetOne now) (due now q) (q2\<lparr>tqCalling := False\<rparr>) = Inr q3" and q': "tqHeap q' = tqHeap q3"
      by (auto simp: tq_handleRead_def Let_def bindR_eq_Inr tq_reset_def resetTimerfd_armed split: if_splits)
    have "tqNumCreated q1 = tqNumCreated q" "tqHeap q1 = tqHeap q" by (subst q1(3), simp)+
    then have old1: "tidSequence tid \<le> tqNumCreated ?q1" using old by simp
    have g2: "gone ?X tid q2" by (rule run_expired_gone[OF _ alloc old1 q2]) (use q1(2) cancel in auto)
    have k2: "keeps_held ?X (\<Union> (cancels ` set (concat (take (length (due now q)) beh)))) ?q1 q2"
      using run_expired_held[OF _ alloc Un_upper1, of "due now q" Y ?q1 beh] q1(2) q2 by simp
    show ?thesis unfolding gone_def
    proof (intro allI impI, rule ccontr)
      fix t assume t: "tqHeap q' ?p = Some t" "tmSequence t = tidSequence tid" and nY: "?p \<notin> Y"
      have "tidSequence tid \<le> tqNumCreated q2" using old1 k2 by (simp add: keeps_held_def seq_origin_def)
      moreover have "(\<exists>t0. tqHeap q2 ?p = Some t0 \<and> tmSequence t0 = tmSequence t) \<or> tqNumCreated q2 < tmSequence t"
        using resetOnes_origin[OF q3] t(1) unfolding q' seq_origin_def by simp
      ultimately obtain t2 where t2: "tqHeap q2 ?p = Some t2" "tmSequence t2 = tidSequence tid" using t(2) by auto
      then have X: "?p \<in> snd ` set (due now q)" using g2 nY by (auto simp: gone_def)
      then have "tqHeap q2 ?p = tqHeap q ?p" using k2 \<open>tqHeap q1 = tqHeap q\<close> by (simp add: keeps_held_def)
      moreover obtain x where x: "(x, ?p) \<in> set (due now q)" using X by auto
      moreover have "\<exists>t. tqHeap q ?p = Some t \<and> tmExpiration t = x"
        using tq_wfD(3)[OF wf] x by (auto simp: due_def)
      ultimately show False using False t2 by auto
    qed
  qed
qed

subsection \<open>No timer is forgotten\<close>

text \<open>The timerfd is set to fire no later than the earliest queued timer, or than \<open>B\<close> if that is later.\<close>

definition alarm_set :: "timestamp \<Rightarrow> timer_queue \<Rightarrow> bool" where
  "alarm_set B q \<longleftrightarrow> tqTimers q = [] \<or> (\<exists>a. tqArmed q = Some a \<and> a \<le> max (fst (hd (tqTimers q))) B)"

text \<open>Positive times: no timer is set to the invalid time stamp, and a repeating one has an interval
  that is not negative.\<close>

definition tq_pos :: "timer_queue \<Rightarrow> bool" where
  "tq_pos q \<longleftrightarrow> (\<forall>e \<in> set (tqTimers q). 0 < fst e) \<and> (\<forall>p t. tqHeap q p = Some t \<longrightarrow> tmRepeat t \<longrightarrow> 0 \<le> tmDelta t)"

fun call_sane :: "timestamp \<Rightarrow> timer_call \<Rightarrow> bool" where
  "call_sane T (CallAdd clock cb wh rep delta) \<longleftrightarrow> clock \<le> T \<and> 0 < wh \<and> (rep \<longrightarrow> 0 \<le> delta)"
| "call_sane T (CallCancel tid) \<longleftrightarrow> True"

fun event_sane :: "timestamp \<Rightarrow> timer_event \<Rightarrow> bool" where
  "event_sane T (EvCall c) \<longleftrightarrow> call_sane T c"
| "event_sane T (EvAlarm beh fired now clock) \<longleftrightarrow> 0 < now \<and> clock \<le> T \<and> (\<forall>acts \<in> set beh. \<forall>c \<in> set acts. call_sane T c)"

lemma addTimer_shape:
  assumes "addTimer alloc clock cb wh rep delta q = Inr (tid, q')"
  obtains p where "tqTimers q' = insort (wh, p) (tqTimers q)"
    "tqHeap q' = (tqHeap q)(p \<mapsto> \<lparr>tmCallback = cb, tmExpiration = wh, tmDelta = delta, tmRepeat = rep,
       tmSequence = tqNumCreated q + 1\<rparr>)"
    "tqArmed q' = (if tqTimers q = [] \<or> wh < fst (hd (tqTimers q)) then Some (max wh (clock + 100)) else tqArmed q)"
proof -
  from assms obtain p q1 where q1: "newTimer alloc cb wh rep delta q = Inr (p, q1)"
    and loop: "addTimerInLoop clock p q1 = Inr q'" by (auto simp: addTimer_def bindR_eq_Inr)
  have new: "tqTimers q1 = tqTimers q" "tqArmed q1 = tqArmed q"
    "tqHeap q1 = (tqHeap q)(p \<mapsto> \<lparr>tmCallback = cb, tmExpiration = wh, tmDelta = delta, tmRepeat = rep,
       tmSequence = tqNumCreated q + 1\<rparr>)"
    using q1 by (auto simp: newTimer_def Let_def split: option.splits)
  from loop obtain b q2 where q2: "tq_insert p q1 = Inr (b, q2)"
    and q': "(if b then bindR (deref q2 p) (\<lambda>t. Inr (resetTimerfd clock (tmExpiration t) q2)) else Inr q2) = Inr q'"
    by (auto simp: addTimerInLoop_def bindR_eq_Inr)
  have ins: "tqTimers q2 = insort (wh, p) (tqTimers q)" "tqArmed q2 = tqArmed q" "tqHeap q2 = tqHeap q1"
      "b \<longleftrightarrow> tqTimers q = [] \<or> wh < fst (hd (tqTimers q))"
    using q2 new by (auto simp: tq_insert_def bindR_eq_Inr ensure_eq_Inr deref_def Let_def)
  from q' ins(3) new(3) have "q' = (if b then q2\<lparr>tqArmed := Some (max wh (clock + 100))\<rparr> else q2)"
    by (cases b) (simp_all add: deref_def resetTimerfd_armed)
  with ins new that[of p] show thesis by simp
qed

lemma timer_do_pos:
  assumes "tq_pos q" "call_sane T c" "timer_do alloc c q = Inr q'"
  shows "tq_pos q'"
proof (cases c)
  case (CallAdd clock cb wh rep delta)
  with assms(3) obtain tid where "addTimer alloc clock cb wh rep delta q = Inr (tid, q')" by (auto simp: bindR_eq_Inr)
  then show ?thesis
    by (rule addTimer_shape) (use assms(1,2) CallAdd in \<open>auto simp: tq_pos_def set_insort_key\<close>)
next
  case (CallCancel tid)
  then show ?thesis using assms
    by (auto simp: cancelInLoop_def bindR_eq_Inr ensure_eq_Inr deref_def Let_def tq_pos_def
        dest: set_remove1_subset[THEN subsetD] split: option.splits if_splits)
qed

lemma run_expired_pos:
  "run_expired alloc beh es q = Inr (cbs, q') \<Longrightarrow> tq_pos q \<Longrightarrow> \<forall>acts \<in> set beh. \<forall>c \<in> set acts. call_sane T c \<Longrightarrow> tq_pos q'"
proof (induction es arbitrary: beh q cbs)
  case (Cons e es)
  let ?acts = "case beh of [] \<Rightarrow> [] | acts # _ \<Rightarrow> acts"
  from Cons.prems(1) obtain q1 cbs' where
    q1: "foldR (timer_do alloc) ?acts q = Inr q1" "run_expired alloc (tl beh) es q1 = Inr (cbs', q')"
    by (auto simp: bindR_eq_Inr)
  have "\<forall>c \<in> set ?acts. call_sane T c" using Cons.prems(3) by (cases beh) auto
  then have "tq_pos q1"
    by (intro foldR_preserves[where I = tq_pos, OF q1(1) Cons.prems(2)]) (meson timer_do_pos)
  moreover have "\<forall>acts \<in> set (tl beh). \<forall>c \<in> set acts. call_sane T c" using Cons.prems(3) by (cases beh) auto
  ultimately show ?case using Cons.IH[OF q1(2)] by blast
qed simp

lemma resetOnes_pos:
  assumes "foldR (resetOne now) es q = Inr q'" "tq_pos q" "0 < now"
  shows "tq_pos q'"
proof (rule foldR_preserves[where I = tq_pos, OF assms(1,2)])
  fix e q1 q2 assume "tq_pos q1" "resetOne now e q1 = Inr q2"
  then show "tq_pos q2" using assms(3)
    by (auto simp: resetOne_def bindR_eq_Inr tq_insert_def ensure_eq_Inr deref_def Let_def tq_pos_def restart_def
        addTime_def set_insort_key add_pos_nonneg split: if_splits option.splits)
qed

lemma alarm_pos:
  assumes "tq_handleRead alloc beh fired now clock q = Inr (cbs, q')" "tq_pos q" "tq_wf {} q"
    and "event_sane T (EvAlarm beh fired now clock)"
  shows "tq_pos q'"
proof -
  let ?q0 = "if fired then q\<lparr>tqArmed := None\<rparr> else q"
  have "tq_wf {} ?q0" using assms(3) by simp
  from getExpired_ok[OF this, of now] obtain q1 where q1: "getExpired now ?q0 = Inr (due now ?q0, q1)"
    "tqTimers q1 = filter (\<lambda>e. now < fst e) (tqTimers ?q0)" "q1 = ?q0\<lparr>tqTimers := tqTimers q1, tqActive := tqActive q1\<rparr>" by blast
  have "tqHeap q1 = tqHeap q" by (subst q1(3)) simp
  then have p1: "tq_pos (q1\<lparr>tqCalling := True, tqCanceling := {}\<rparr>)" using assms(2) q1(2) by (auto simp: tq_pos_def)
  from assms(1) q1(1) obtain q2 q3 where
    q2: "run_expired alloc beh (due now ?q0) (q1\<lparr>tqCalling := True, tqCanceling := {}\<rparr>) = Inr (cbs, q2)" and
    q3: "foldR (resetOne now) (due now ?q0) (q2\<lparr>tqCalling := False\<rparr>) = Inr q3" and
    q': "tq_pos q3 \<longleftrightarrow> tq_pos q'"
    by (auto simp: tq_handleRead_def Let_def bindR_eq_Inr tq_reset_def tq_pos_def resetTimerfd_armed split: if_splits)
  have "tq_pos q2" using run_expired_pos[OF q2 p1] assms(4) by auto
  then have "tq_pos (q2\<lparr>tqCalling := False\<rparr>)" by (simp add: tq_pos_def)
  from resetOnes_pos[OF q3 this] assms(4) q' show ?thesis by simp
qed

lemma hd_insort_fst:
  fixes xs :: "(timestamp \<times> nat) list"
  shows "sorted xs \<Longrightarrow> xs \<noteq> [] \<Longrightarrow> fst (hd (insort x xs)) = min (fst x) (fst (hd xs))"
  by (cases xs) (auto simp: less_eq_prod_def min_def)

lemma hd_remove1_fst:
  fixes xs :: "(timestamp \<times> nat) list"
  shows "sorted xs \<Longrightarrow> remove1 x xs \<noteq> [] \<Longrightarrow> fst (hd xs) \<le> fst (hd (remove1 x xs))"
  by (cases xs; cases "tl xs") (auto simp: less_eq_prod_def)

lemma timer_do_alarm:
  assumes wf: "tq_wf {} q" and alarm: "alarm_set (T + 100) q" and c: "call_sane T c" and run: "timer_do alloc c q = Inr q'"
  shows "alarm_set (T + 100) q'"
proof (cases c)
  case (CallAdd clock cb wh rep delta)
  with run obtain tid where "addTimer alloc clock cb wh rep delta q = Inr (tid, q')" by (auto simp: bindR_eq_Inr)
  then obtain p where q': "tqTimers q' = insort (wh, p) (tqTimers q)"
    "tqArmed q' = (if tqTimers q = [] \<or> wh < fst (hd (tqTimers q)) then Some (max wh (clock + 100)) else tqArmed q)"
    by (rule addTimer_shape)
  show ?thesis
  proof (cases "tqTimers q = []")
    case True
    then show ?thesis using q' c CallAdd by (auto simp: alarm_set_def)
  next
    case False
    then have "fst (hd (tqTimers q')) = min wh (fst (hd (tqTimers q)))"
      using hd_insort_fst[OF tq_wfD(1)[OF wf] False, of "(wh, p)"] q'(1) by simp
    then show ?thesis using False q' c CallAdd alarm by (auto simp: alarm_set_def)
  qed
next
  case (CallCancel tid)
  from run CallCancel consider "q' = q\<lparr>tqCanceling := tqCanceling q'\<rparr>" | "q' = q"
    | x where "tqTimers q' = remove1 x (tqTimers q)" "tqArmed q' = tqArmed q"
    by (auto simp: cancelInLoop_def bindR_eq_Inr ensure_eq_Inr deref_def Let_def split: option.splits if_splits)
  then show ?thesis
  proof cases
    case 1
    then have "tqTimers q' = tqTimers q" "tqArmed q' = tqArmed q" by (metis timer_queue.surjective timer_queue.update_convs(5) timer_queue.select_convs(2,7))+
    with alarm show ?thesis by (simp add: alarm_set_def)
  next
    case 3
    then show ?thesis using alarm hd_remove1_fst[OF tq_wfD(1)[OF wf], of x]
      by (cases "tqTimers q' = []") (auto simp: alarm_set_def)
  qed (use alarm in simp)
qed

text \<open>
  Property C12. No timer is forgotten. After any events with clock readings up to \<open>T\<close>, as long as a
  timer is queued the timerfd is set to become readable at the latest at the earliest queued
  expiration (or 100 microseconds after the last clock reading, the smallest delay the code
  asks for), including when the earliest timer was just cancelled or callbacks added new ones.
\<close>

theorem earliest_timer_is_armed:
  assumes "alloc_ok alloc" "\<forall>ev \<in> set evs. event_sane T ev"
    and "foldR (tq_event alloc) evs newTimerQueue = Inr q" and "tqTimers q \<noteq> []"
  shows "\<exists>a. tqArmed q = Some a \<and> a \<le> max (fst (hd (tqTimers q))) (T + 100)"
proof -
  let ?I = "\<lambda>q. tq_wf {} q \<and> tq_pos q \<and> alarm_set (T + 100) q"
  have "?I q"
  proof (rule foldR_preserves[OF assms(3)])
    show "?I newTimerQueue" using newTimerQueue_wf by (simp add: tq_pos_def alarm_set_def newTimerQueue_def)
    fix ev q1 q2 assume ev: "ev \<in> set evs" and I: "?I q1" and run: "tq_event alloc ev q1 = Inr q2"
    have wf2: "tq_wf {} q2" using tq_event_wf[of "{}" q1 alloc ev] I assms(1) run by simp
    show "?I q2"
    proof (cases ev)
      case (EvCall c)
      with ev assms(2) have c: "call_sane T c" by force
      from EvCall run have r: "timer_do alloc c q1 = Inr q2" by simp
      show ?thesis using I wf2 timer_do_pos[OF _ c r] timer_do_alarm[OF _ _ c r] by blast
    next
      case (EvAlarm beh fired now clock)
      with run obtain cbs where r: "tq_handleRead alloc beh fired now clock q1 = Inr (cbs, q2)" by (auto simp: bindR_eq_Inr)
      have sane: "event_sane T (EvAlarm beh fired now clock)" using ev EvAlarm assms(2) by metis
      have pos: "tq_pos q2" using alarm_pos[OF r _ _ sane] I by blast
      from I tq_handleRead_ok[of "{}" q1 alloc beh fired now clock] assms(1) r have
        arm: "tqTimers q2 \<noteq> [] \<longrightarrow> 0 < fst (hd (tqTimers q2)) \<longrightarrow> tqArmed q2 = Some (max (fst (hd (tqTimers q2))) (clock + 100))"
        by simp
      have "alarm_set (T + 100) q2"
        using arm pos sane hd_in_set[of "tqTimers q2"] by (auto simp: alarm_set_def tq_pos_def)
      with wf2 pos show ?thesis by blast
    qed
  qed
  with assms(4) show ?thesis by (simp add: alarm_set_def)
qed

theorem earliest_timer_is_armed_witness:
  "\<exists>q. foldR (tq_event arena_alloc) [EvCall (CallAdd 10 7 1000 False 0), EvCall (CallAdd 20 8 5000 False 0),
       EvCall (CallCancel \<lparr>tidTimer = 1, tidSequence = 1\<rparr>)] newTimerQueue = Inr q
     \<and> tqTimers q = [(5000, 2)] \<and> (\<exists>a. tqArmed q = Some a \<and> a \<le> max 5000 (20 + 100))"
proof -
  let ?evs = "[EvCall (CallAdd 10 7 1000 False 0), EvCall (CallAdd 20 8 5000 False 0),
       EvCall (CallCancel \<lparr>tidTimer = 1, tidSequence = 1\<rparr>)]"
  obtain q where run: "foldR (tq_event arena_alloc) ?evs newTimerQueue = Inr q" and left: "tqTimers q = [(5000, 2)]"
    by (simp add: tq_eval less_eq_prod_def Let_def)
  have "\<forall>ev \<in> set ?evs. event_sane 20 ev" by simp
  from earliest_timer_is_armed[OF arena_alloc_ok this run] run left show ?thesis by simp
qed

end
