(* ===== verification/TimerThreads.thy ===== *)
theory TimerThreads
  imports TimerQueue
begin

text \<open>
  The timer queue between its loop's thread and others (\<open>TimerQueue::addTimer\<close> and \<open>cancel\<close> in
  \<open>muduo/net/TimerQueue.cc\<close>, which "usually" are called from other threads). There \<open>addTimer\<close> makes the
  \<open>Timer\<close> at once and leaves \<open>addTimerInLoop\<close> to a functor of the loop; it then reads the number of
  the timer to return, which the loop may have inserted, fired and deleted by then. \<open>cancel\<close> leaves
  \<open>cancelInLoop\<close> to a functor. The steps of other threads fall between those of the loop's thread.
\<close>

datatype timer_functor = FAddTimer nat | FCancelTimer timer_id

text \<open>\<open>twCallers\<close>: the threads between \<open>runInLoop\<close> and \<open>return\<close> of \<open>addTimer\<close>, each with its timer (the
  address and, as history, the number it was made with). \<open>twReturned\<close>: the ids \<open>addTimer\<close> returned.\<close>

record timer_world =
  twQueue :: timer_queue
  twFunctors :: "timer_functor list"
  twCallers :: "timer_id list"
  twReturned :: "timer_id list"

definition newTimerWorld :: timer_world where
  "newTimerWorld = \<lparr>twQueue = newTimerQueue, twFunctors = [], twCallers = [], twReturned = []\<rparr>"

definition late_read :: fault where
  "late_read = BadAccess ''addTimer: timer->sequence() of a deleted Timer''"

definition addTimer_post ::
  "(nat set \<Rightarrow> nat option) \<Rightarrow> nat \<Rightarrow> timestamp \<Rightarrow> bool \<Rightarrow> int \<Rightarrow> timer_world \<Rightarrow> timer_world res" where
  "addTimer_post alloc cb when rep delta w =
     bindR (newTimer alloc cb when rep delta (twQueue w)) (\<lambda>(p, q).
     Inr (w\<lparr>twQueue := q, twFunctors := twFunctors w @ [FAddTimer p],
            twCallers := twCallers w @ [\<lparr>tidTimer = p, tidSequence = tqNumCreated q\<rparr>]\<rparr>))"

text \<open>A read through the pointer is a fault once the timer it pointed to was deleted, also when the
  address has been given out again.\<close>

definition addTimer_return :: "nat \<Rightarrow> timer_world \<Rightarrow> timer_world res" where
  "addTimer_return i w =
     (if i < length (twCallers w) then
        let c = twCallers w ! i
        in case tqHeap (twQueue w) (tidTimer c) of
             None \<Rightarrow> Inl late_read
           | Some t \<Rightarrow>
               if tmSequence t = tidSequence c
               then Inr (w\<lparr>twCallers := take i (twCallers w) @ drop (Suc i) (twCallers w),
                           twReturned := twReturned w @ [\<lparr>tidTimer = tidTimer c, tidSequence = tmSequence t\<rparr>]\<rparr>)
               else Inl late_read
      else Inr w)"

definition cancel_post :: "timer_id \<Rightarrow> timer_world \<Rightarrow> timer_world" where
  "cancel_post tid w = w\<lparr>twFunctors := twFunctors w @ [FCancelTimer tid]\<rparr>"

definition run_functor :: "timestamp \<Rightarrow> timer_world \<Rightarrow> timer_world res" where
  "run_functor clock w =
     (case twFunctors w of
        [] \<Rightarrow> Inr w
      | FAddTimer p # fs \<Rightarrow> bindR (addTimerInLoop clock p (twQueue w)) (\<lambda>q. Inr (w\<lparr>twQueue := q, twFunctors := fs\<rparr>))
      | FCancelTimer tid # fs \<Rightarrow> bindR (cancelInLoop tid (twQueue w)) (\<lambda>q. Inr (w\<lparr>twQueue := q, twFunctors := fs\<rparr>)))"

datatype world_event =
    TwLoop timer_event
  | TwAdd nat timestamp bool int
  | TwReturn nat
  | TwCancel timer_id
  | TwFunctor timestamp

fun tw_step :: "(nat set \<Rightarrow> nat option) \<Rightarrow> world_event \<Rightarrow> timer_world \<Rightarrow> timer_world res" where
  "tw_step alloc (TwLoop ev) w = bindR (tq_event alloc ev (twQueue w)) (\<lambda>q. Inr (w\<lparr>twQueue := q\<rparr>))"
| "tw_step alloc (TwAdd cb when rep delta) w = addTimer_post alloc cb when rep delta w"
| "tw_step alloc (TwReturn i) w = addTimer_return i w"
| "tw_step alloc (TwCancel tid) w = Inr (cancel_post tid w)"
| "tw_step alloc (TwFunctor clock) w = run_functor clock w"

text \<open>A run in which the loop inserts no timer before the thread that made it has returned from
  \<open>addTimer\<close>.\<close>

fun tw_prompt :: "(nat set \<Rightarrow> nat option) \<Rightarrow> world_event list \<Rightarrow> timer_world \<Rightarrow> bool" where
  "tw_prompt alloc [] w \<longleftrightarrow> True"
| "tw_prompt alloc (ev # evs) w \<longleftrightarrow>
     (case (ev, twFunctors w) of (TwFunctor clock, FAddTimer p # fs) \<Rightarrow> p \<notin> tidTimer ` set (twCallers w) | _ \<Rightarrow> True)
   \<and> (case tw_step alloc ev w of Inl _ \<Rightarrow> True | Inr w' \<Rightarrow> tw_prompt alloc evs w')"

subsection \<open>Invariant\<close>

fun adds :: "timer_functor list \<Rightarrow> nat list" where
  "adds [] = []"
| "adds (FAddTimer p # fs) = p # adds fs"
| "adds (FCancelTimer tid # fs) = adds fs"

lemma adds_append [simp]: "adds (fs @ gs) = adds fs @ adds gs"
  by (induction fs rule: adds.induct) auto

definition waiting :: "timer_world \<Rightarrow> nat set" where
  "waiting w = set (adds (twFunctors w))"

definition tw_inv :: "timer_world \<Rightarrow> bool" where
  "tw_inv w \<longleftrightarrow> tq_wf (waiting w) (twQueue w) \<and> distinct (adds (twFunctors w))"

text \<open>Every thread still inside \<open>addTimer\<close> has its timer waiting.\<close>

definition callers_wait :: "timer_world \<Rightarrow> bool" where
  "callers_wait w \<longleftrightarrow> (\<forall>c \<in> set (twCallers w). tidTimer c \<in> waiting w
     \<and> (\<exists>t. tqHeap (twQueue w) (tidTimer c) = Some t \<and> tmSequence t = tidSequence c))"

lemma tw_inv_new: "tw_inv newTimerWorld" "callers_wait newTimerWorld"
  using newTimerQueue_wf by (simp_all add: tw_inv_def newTimerWorld_def waiting_def callers_wait_def)

lemma addTimerInLoop_ok:
  assumes wf: "tq_wf X q" and p: "p \<in> X"
  shows "\<exists>q'. addTimerInLoop clock p q = Inr q' \<and> tq_wf (X - {p}) q' \<and> tqHeap q' = tqHeap q \<and> tqNumCreated q' = tqNumCreated q"
proof -
  obtain t where t: "tqHeap q p = Some t" using tq_wfD(5)[OF wf] p by blast
  note I = tq_insert_ok[OF wf p t]
  show ?thesis using I t by (auto simp: addTimerInLoop_def deref_def resetTimerfd_armed)
qed

lemma tw_step_inv:
  assumes inv: "tw_inv w" and alloc: "alloc_ok alloc"
  shows "holds (insert late_read oom) (tw_step alloc ev w) (\<lambda>w'. tw_inv w' \<and> seq_origin (twQueue w) (twQueue w'))"
proof -
  have wf: "tq_wf (waiting w) (twQueue w)" and dist: "distinct (adds (twFunctors w))" using inv by (simp_all add: tw_inv_def)
  show ?thesis
  proof (cases ev)
    case (TwLoop e)
    show ?thesis
    proof (cases "tq_event alloc e (twQueue w)")
      case (Inl x)
      then show ?thesis using tq_event_wf[OF wf alloc, of e] TwLoop by simp
    next
      case (Inr q')
      then show ?thesis using tq_event_wf[OF wf alloc, of e] tq_event_origin[OF wf alloc Inr] dist TwLoop
        by (simp add: tw_inv_def waiting_def)
    qed
  next
    case (TwAdd cb wh rep delta)
    show ?thesis
    proof (cases "newTimer alloc cb wh rep delta (twQueue w)")
      case (Inl x)
      then show ?thesis using TwAdd by (auto simp: addTimer_post_def newTimer_def oom_def Let_def split: option.splits)
    next
      case (Inr pq)
      obtain p q1 where pq: "pq = (p, q1)" by (cases pq)
      note N = newTimer_wf[OF wf alloc Inr[unfolded pq]]
      have "tqNumCreated q1 = tqNumCreated (twQueue w) + 1" by (subst N(5)) simp
      then have "seq_origin (twQueue w) q1" by (auto simp: seq_origin_def N(4))
      then show ?thesis using TwAdd Inr pq N(1,2) dist by (simp add: addTimer_post_def tw_inv_def waiting_def)
    qed
  next
    case (TwReturn i)
    then show ?thesis using inv
      by (auto simp: addTimer_return_def Let_def tw_inv_def waiting_def seq_origin_refl split: option.splits)
  next
    case (TwCancel tid)
    then show ?thesis using inv by (simp add: cancel_post_def tw_inv_def waiting_def seq_origin_refl)
  next
    case (TwFunctor clock)
    show ?thesis
    proof (cases "twFunctors w")
      case Nil
      then show ?thesis using TwFunctor inv by (simp add: run_functor_def seq_origin_refl)
    next
      case (Cons f fs)
      show ?thesis
      proof (cases f)
        case (FAddTimer p)
        then have p: "p \<in> waiting w" "waiting w - {p} = set (adds fs)" using Cons dist by (auto simp: waiting_def)
        from addTimerInLoop_ok[OF wf p(1), of clock] obtain q' where
          q': "addTimerInLoop clock p (twQueue w) = Inr q'" "tq_wf (set (adds fs)) q'" "tqHeap q' = tqHeap (twQueue w)"
            "tqNumCreated q' = tqNumCreated (twQueue w)" unfolding p(2) by blast
        then show ?thesis using TwFunctor Cons FAddTimer dist
          by (simp add: run_functor_def tw_inv_def waiting_def seq_origin_def)
      next
        case (FCancelTimer tid)
        then show ?thesis using cancel_held[OF wf, of tid] TwFunctor Cons dist
          by (cases "cancelInLoop tid (twQueue w)") (auto simp: run_functor_def tw_inv_def waiting_def keeps_held_def)
      qed
    qed
  qed
qed

text \<open>In a prompt run every thread reads the number of a timer that is there.\<close>

lemma callers_wait_keep:
  assumes "callers_wait w" and "set (twCallers w') \<subseteq> set (twCallers w)"
    and "\<And>c. c \<in> set (twCallers w') \<Longrightarrow> tidTimer c \<in> waiting w \<Longrightarrow>
      tidTimer c \<in> waiting w' \<and> tqHeap (twQueue w') (tidTimer c) = tqHeap (twQueue w) (tidTimer c)"
  shows "callers_wait w'"
  unfolding callers_wait_def
proof
  fix c assume c: "c \<in> set (twCallers w')"
  then obtain t where "tidTimer c \<in> waiting w" "tqHeap (twQueue w) (tidTimer c) = Some t" "tmSequence t = tidSequence c"
    using assms(1,2) unfolding callers_wait_def by blast
  with assms(3)[OF c] show "tidTimer c \<in> waiting w' \<and> (\<exists>t. tqHeap (twQueue w') (tidTimer c) = Some t \<and> tmSequence t = tidSequence c)"
    by simp
qed

lemma post_callers:
  assumes wf: "tq_wf (waiting w) (twQueue w)" and cw: "callers_wait w" and alloc: "alloc_ok alloc"
    and run: "addTimer_post alloc cb wh rep delta w = Inr w'"
  shows "callers_wait w'"
proof -
  obtain p q1 where q1: "newTimer alloc cb wh rep delta (twQueue w) = Inr (p, q1)"
    and w': "w' = w\<lparr>twQueue := q1, twFunctors := twFunctors w @ [FAddTimer p],
            twCallers := twCallers w @ [\<lparr>tidTimer = p, tidSequence = tqNumCreated q1\<rparr>]\<rparr>"
    using run by (auto simp: addTimer_post_def bindR_eq_Inr)
  note N = newTimer_wf[OF wf alloc q1]
  have n: "tqNumCreated q1 = tqNumCreated (twQueue w) + 1" by (subst N(5)) simp
  have wait: "waiting w' = insert p (waiting w)" by (simp add: waiting_def w')
  show ?thesis unfolding callers_wait_def
  proof
    fix c assume "c \<in> set (twCallers w')"
    then consider "c = \<lparr>tidTimer = p, tidSequence = tqNumCreated q1\<rparr>" | "c \<in> set (twCallers w)" by (auto simp: w')
    then show "tidTimer c \<in> waiting w' \<and> (\<exists>t. tqHeap (twQueue w') (tidTimer c) = Some t \<and> tmSequence t = tidSequence c)"
    proof cases
      case 1
      then show ?thesis unfolding wait by (simp add: w' N(4) n)
    next
      case 2
      then obtain t where t: "tidTimer c \<in> waiting w" "tqHeap (twQueue w) (tidTimer c) = Some t" "tmSequence t = tidSequence c"
        using cw unfolding callers_wait_def by blast
      then have "tidTimer c \<noteq> p" using N(3) by auto
      with t show ?thesis unfolding wait by (simp add: w' N(4))
    qed
  qed
qed

lemma tw_step_prompt:
  assumes inv: "tw_inv w" and cw: "callers_wait w" and alloc: "alloc_ok alloc"
    and prompt: "\<And>clock p fs. ev = TwFunctor clock \<Longrightarrow> twFunctors w = FAddTimer p # fs \<Longrightarrow> p \<notin> tidTimer ` set (twCallers w)"
  shows "holds oom (tw_step alloc ev w) callers_wait"
proof -
  have wf: "tq_wf (waiting w) (twQueue w)" and dist: "distinct (adds (twFunctors w))" using inv by (simp_all add: tw_inv_def)
  show ?thesis
  proof (cases ev)
    case (TwLoop e)
    show ?thesis
    proof (cases "tq_event alloc e (twQueue w)")
      case (Inl x)
      then show ?thesis using tq_event_wf[OF wf alloc, of e] TwLoop by simp
    next
      case (Inr q')
      then have "callers_wait (w\<lparr>twQueue := q'\<rparr>)"
        using tq_event_wf[OF wf alloc, of e] by (intro callers_wait_keep[OF cw]) (auto simp: waiting_def)
      then show ?thesis using TwLoop Inr by simp
    qed
  next
    case (TwAdd cb wh rep delta)
    show ?thesis
    proof (cases "addTimer_post alloc cb wh rep delta w")
      case (Inl x)
      then show ?thesis using TwAdd by (auto simp: addTimer_post_def newTimer_def oom_def Let_def split: option.splits)
    qed (use TwAdd post_callers[OF wf cw alloc] in simp)
  next
    case (TwReturn i)
    show ?thesis
    proof (cases "i < length (twCallers w)")
      case True
      then obtain t where t: "tqHeap (twQueue w) (tidTimer (twCallers w ! i)) = Some t" "tmSequence t = tidSequence (twCallers w ! i)"
        using cw unfolding callers_wait_def by (metis nth_mem)
      let ?w = "w\<lparr>twCallers := take i (twCallers w) @ drop (Suc i) (twCallers w),
          twReturned := twReturned w @ [\<lparr>tidTimer = tidTimer (twCallers w ! i), tidSequence = tmSequence t\<rparr>]\<rparr>"
      have "callers_wait ?w"
        by (rule callers_wait_keep[OF cw]) (auto simp: waiting_def dest: in_set_takeD in_set_dropD)
      then show ?thesis using TwReturn True t by (simp add: addTimer_return_def Let_def)
    qed (use TwReturn cw in \<open>simp add: addTimer_return_def\<close>)
  next
    case (TwCancel tid)
    have "callers_wait (cancel_post tid w)"
      by (rule callers_wait_keep[OF cw]) (auto simp: waiting_def cancel_post_def)
    then show ?thesis using TwCancel by simp
  next
    case (TwFunctor clock)
    show ?thesis
    proof (cases "twFunctors w")
      case Nil
      then show ?thesis using TwFunctor cw by (simp add: run_functor_def)
    next
      case (Cons f fs)
      show ?thesis
      proof (cases f)
        case (FAddTimer p)
        then have p: "p \<in> waiting w" "p \<notin> tidTimer ` set (twCallers w)" "waiting w = insert p (set (adds fs))"
          using Cons prompt[OF TwFunctor] by (auto simp: waiting_def)
        obtain q' where q': "addTimerInLoop clock p (twQueue w) = Inr q'" "tqHeap q' = tqHeap (twQueue w)"
          using addTimerInLoop_ok[OF wf p(1), of clock] by blast
        have "callers_wait (w\<lparr>twQueue := q', twFunctors := fs\<rparr>)"
          using p(2,3) q'(2) by (intro callers_wait_keep[OF cw]) (auto simp: waiting_def[of "w\<lparr>twQueue := q', twFunctors := fs\<rparr>"])
        then show ?thesis using TwFunctor Cons FAddTimer q'(1) by (simp add: run_functor_def)
      next
        case (FCancelTimer tid)
        show ?thesis
        proof (cases "cancelInLoop tid (twQueue w)")
          case (Inl x)
          then show ?thesis using cancel_held[OF wf, of tid] TwFunctor Cons FCancelTimer by (simp add: run_functor_def)
        next
          case (Inr q')
          have k: "keeps_held (waiting w) {tid} (twQueue w) q'" using cancel_held[OF wf, of tid] Inr by simp
          have "callers_wait (w\<lparr>twQueue := q', twFunctors := fs\<rparr>)"
            using k Cons FCancelTimer by (intro callers_wait_keep[OF cw]) (auto simp: waiting_def keeps_held_def)
          then show ?thesis using TwFunctor Cons FCancelTimer Inr by (simp add: run_functor_def)
        qed
      qed
    qed
  qed
qed

lemma tw_run_prompt:
  assumes "tw_inv w" and "callers_wait w" and "alloc_ok alloc" and "tw_prompt alloc evs w"
  shows "holds oom (foldR (tw_step alloc) evs w) (\<lambda>w'. True)"
  using assms(1,2,4)
proof (induction evs arbitrary: w)
  case (Cons ev evs)
  have step: "holds oom (tw_step alloc ev w) callers_wait"
    by (rule tw_step_prompt[OF Cons.prems(1,2) assms(3)]) (use Cons.prems(3) in auto)
  show ?case
  proof (cases "tw_step alloc ev w")
    case (Inr w1)
    have "tw_inv w1" using tw_step_inv[OF Cons.prems(1) assms(3), of ev] Inr by simp
    with Cons.IH[of w1] step Cons.prems(3) Inr show ?thesis by simp
  qed (use step in simp)
qed simp

lemma tw_run_inv:
  assumes "tw_inv w" and "alloc_ok alloc"
  shows "holds (insert late_read oom) (foldR (tw_step alloc) evs w) (\<lambda>w'. tw_inv w' \<and> seq_origin (twQueue w) (twQueue w'))"
  using assms(1)
proof (induction evs arbitrary: w)
  case (Cons ev evs)
  show ?case unfolding foldR.simps
  proof (rule holds_bindR[OF tw_step_inv[OF Cons.prems assms(2), of ev]])
    fix w1 assume w1: "tw_inv w1 \<and> seq_origin (twQueue w) (twQueue w1)"
    from Cons.IH[of w1] w1 show "holds (insert late_read oom) (foldR (tw_step alloc) evs w1)
        (\<lambda>w'. tw_inv w' \<and> seq_origin (twQueue w) (twQueue w'))"
      by (auto elim!: holds_mono intro: seq_origin_trans)
  qed
qed (simp add: seq_origin_refl)

subsection \<open>Properties\<close>

text \<open>
  Property C6. Whatever timers are added, cancelled and fired, from inside or outside timer
  callbacks, by the loop's thread or by others, in whatever order, and with any reuse of freed addresses by the allocator, the timer queue
  raises no assertion, never touches a deleted \<open>Timer\<close> and never deletes one twice; \<open>timers_\<close>
  and \<open>activeTimers_\<close> stay two views of one set, and the heap holds exactly the
  queued timers and those on their way to the loop, so none leaks. The faults that can stop it are a failed allocation, and
  in another thread the read of \<open>timer->sequence()\<close> that ends \<open>addTimer\<close>, when the timer has been
  deleted by then; that one cannot come when no timer is inserted before its \<open>addTimer\<close> returned.
\<close>

theorem timer_queue_safe:
  assumes "alloc_ok alloc"
  shows "holds (insert late_read oom) (foldR (tw_step alloc) evs newTimerWorld)
      (\<lambda>w. tq_wf (waiting w) (twQueue w) \<and> dom (tqHeap (twQueue w)) = snd ` set (tqTimers (twQueue w)) \<union> waiting w)
    \<and> (tw_prompt alloc evs newTimerWorld \<longrightarrow> foldR (tw_step alloc) evs newTimerWorld \<noteq> Inl late_read)"
proof
  have "holds (insert late_read oom) (foldR (tw_step alloc) evs newTimerWorld) tw_inv"
    by (rule holds_mono[OF tw_run_inv[OF tw_inv_new(1) assms]]) simp
  then show "holds (insert late_read oom) (foldR (tw_step alloc) evs newTimerWorld)
      (\<lambda>w. tq_wf (waiting w) (twQueue w) \<and> dom (tqHeap (twQueue w)) = snd ` set (tqTimers (twQueue w)) \<union> waiting w)"
    by (rule holds_mono) (use tq_wfD(5) in \<open>auto simp: tw_inv_def\<close>)
  have "late_read \<notin> oom" by (simp add: late_read_def oom_def)
  then show "tw_prompt alloc evs newTimerWorld \<longrightarrow> foldR (tw_step alloc) evs newTimerWorld \<noteq> Inl late_read"
    using tw_run_prompt[OF tw_inv_new assms] by (metis holds_Inl)
qed

lemmas tw_eval = newTimerWorld_def addTimer_post_def addTimer_return_def cancel_post_def run_functor_def tq_eval

text \<open>A timer of another thread, returned promptly, inserted and cancelled.\<close>

definition posted_run :: "world_event list" where
  "posted_run = [TwAdd 7 1000 False 0, TwReturn 0, TwFunctor 10, TwCancel \<lparr>tidTimer = 1, tidSequence = 1\<rparr>, TwFunctor 20]"

lemma posted_run_result:
  "\<exists>w. foldR (tw_step arena_alloc) posted_run newTimerWorld = Inr w \<and> twReturned w = [\<lparr>tidTimer = 1, tidSequence = 1\<rparr>]"
  by (simp add: posted_run_def tw_eval Let_def)

theorem timer_queue_safe_witness:
  "alloc_ok arena_alloc \<and> (\<exists>w. foldR (tw_step arena_alloc) posted_run newTimerWorld = Inr w
     \<and> tq_wf (waiting w) (twQueue w) \<and> dom (tqHeap (twQueue w)) = snd ` set (tqTimers (twQueue w)) \<union> waiting w)"
  using timer_queue_safe[OF arena_alloc_ok, of posted_run] arena_alloc_ok posted_run_result by auto

text \<open>The fault is real: the loop inserts and fires a single-shot timer before the thread that added it
  reads its number.\<close>

lemma late_return_reads_deleted_timer:
  "foldR (tw_step arena_alloc) [TwAdd 7 1000 False 0, TwFunctor 10, TwLoop (EvAlarm [] True 2000 2001), TwReturn 0] newTimerWorld
   = Inl late_read"
  by (simp add: tw_eval tq_alarm_eval Let_def)

fun step_cancels :: "timer_id \<Rightarrow> world_event \<Rightarrow> timer_world \<Rightarrow> bool" where
  "step_cancels tid (TwLoop (EvCall c)) w \<longleftrightarrow> c = CallCancel tid"
| "step_cancels tid (TwLoop (EvAlarm beh fired now clock)) w \<longleftrightarrow>
     CallCancel tid \<in> set (concat (take (length (due now (twQueue w))) beh))"
| "step_cancels tid (TwFunctor clock) w \<longleftrightarrow> (case twFunctors w of FCancelTimer t # fs \<Rightarrow> t = tid | _ \<Rightarrow> False)"
| "step_cancels tid ev w \<longleftrightarrow> False"

lemma step_cancels_gone:
  assumes inv: "tw_inv w" and alloc: "alloc_ok alloc" and old: "tidSequence tid \<le> tqNumCreated (twQueue w)"
    and c: "step_cancels tid ev w" and run: "tw_step alloc ev w = Inr w'"
  shows "gone (waiting w) tid (twQueue w')"
proof -
  have wf: "tq_wf (waiting w) (twQueue w)" using inv by (simp add: tw_inv_def)
  show ?thesis
  proof (cases ev)
    case (TwLoop e)
    show ?thesis
    proof (cases e)
      case (EvCall call)
      then have "cancelInLoop tid (twQueue w) = Inr (twQueue w')" using c run TwLoop by (auto simp: bindR_eq_Inr)
      then show ?thesis by (rule cancelInLoop_gone[OF wf])
    next
      case (EvAlarm beh fired now clock)
      then obtain cbs where "tq_handleRead alloc beh fired now clock (twQueue w) = Inr (cbs, twQueue w')"
        using run TwLoop by (auto simp: bindR_eq_Inr)
      then show ?thesis by (rule alarm_cancel_gone[OF wf alloc old]) (use c TwLoop EvAlarm in simp)
    qed
  next
    case (TwFunctor clock)
    then obtain fs where "twFunctors w = FCancelTimer tid # fs" using c by (auto split: list.splits timer_functor.splits)
    then have "cancelInLoop tid (twQueue w) = Inr (twQueue w')" using run TwFunctor by (auto simp: run_functor_def bindR_eq_Inr)
    then show ?thesis by (rule cancelInLoop_gone[OF wf])
  qed (use c in simp_all)
qed

text \<open>
  Property C11. Cancellation is final. A timer that was made before and is not still on its way to the
  loop, cancelled by the loop's thread outside callbacks, by a callback of an alarm (its own or
  another's, the timer being due in the same alarm or not), or by the functor of a \<open>cancel\<close> in another thread, is never active again
  after that step, whatever is added, cancelled and fired afterwards by any thread,
  even when its freed address is reused for a new timer (the sequence number tells them apart).
\<close>

theorem cancelled_timer_stays_inactive:
  assumes "alloc_ok alloc" and "foldR (tw_step alloc) before newTimerWorld = Inr w"
    and "tidSequence tid \<le> tqNumCreated (twQueue w)" and "tidTimer tid \<notin> waiting w"
    and "step_cancels tid ev w" and "foldR (tw_step alloc) (ev # evs) w = Inr w'"
  shows "(tidTimer tid, tidSequence tid) \<notin> tqActive (twQueue w')"
proof -
  have inv: "tw_inv w" using tw_run_inv[OF tw_inv_new(1) assms(1), of before] assms(2) by simp
  obtain w1 where w1: "tw_step alloc ev w = Inr w1" "foldR (tw_step alloc) evs w1 = Inr w'"
    using assms(6) by (auto simp: bindR_eq_Inr)
  have "gone (waiting w) tid (twQueue w1)" by (rule step_cancels_gone[OF inv assms(1,3,5) w1(1)])
  then have g: "gone {} tid (twQueue w1)" using assms(4) by (simp add: gone_def)
  have s1: "tw_inv w1" "seq_origin (twQueue w) (twQueue w1)" using tw_step_inv[OF inv assms(1), of ev] w1(1) by simp_all
  have s2: "tw_inv w'" "seq_origin (twQueue w1) (twQueue w')" using tw_run_inv[OF s1(1) assms(1), of evs] w1(2) by simp_all
  have "gone {} tid (twQueue w')" by (rule gone_later[OF g s2(2)]) (use assms(3) s1(2) in \<open>simp add: seq_origin_def\<close>)
  then show ?thesis using s2(1) tq_wf_active[of "waiting w'" "twQueue w'"] by (auto simp: tw_inv_def gone_def)
qed

text \<open>A repeating timer is cancelled by its own callback; its address is then given to another timer.\<close>

theorem cancelled_timer_stays_inactive_witness:
  "\<exists>w w'. foldR (tw_step arena_alloc) [TwLoop (EvCall (CallAdd 10 7 1000 True 300))] newTimerWorld = Inr w
     \<and> foldR (tw_step arena_alloc) [TwLoop (EvAlarm [[CallCancel \<lparr>tidTimer = 1, tidSequence = 1\<rparr>]] True 1000 1001),
         TwAdd 8 5000 False 0, TwFunctor 2000] w = Inr w'
     \<and> (1, 1) \<notin> tqActive (twQueue w') \<and> (1, 2) \<in> tqActive (twQueue w')"
proof -
  let ?tid = "\<lparr>tidTimer = 1, tidSequence = 1\<rparr>"
  let ?ev = "TwLoop (EvAlarm [[CallCancel ?tid]] True 1000 1001)"
  obtain w w' where w: "foldR (tw_step arena_alloc) [TwLoop (EvCall (CallAdd 10 7 1000 True 300))] newTimerWorld = Inr w"
    and w': "foldR (tw_step arena_alloc) (?ev # [TwAdd 8 5000 False 0, TwFunctor 2000]) w = Inr w'"
    and reused: "(1, 2) \<in> tqActive (twQueue w')"
    and at: "tqNumCreated (twQueue w) = 1" "twFunctors w = []" "tqTimers (twQueue w) = [(1000, 1)]"
    by (simp add: tw_eval tq_alarm_eval Let_def)
  have "tidSequence ?tid \<le> tqNumCreated (twQueue w)" "tidTimer ?tid \<notin> waiting w" "step_cancels ?tid ?ev w"
    using at by (simp_all add: waiting_def due_def)
  from cancelled_timer_stays_inactive[OF arena_alloc_ok w this w'] w w' reused show ?thesis by auto
qed

text \<open>The condition on timers that are on their way matters: the loop's thread may cancel a timer of
  another thread before it has been inserted, and the cancel is lost.\<close>

lemma cancel_overtakes_add:
  "\<exists>w. foldR (tw_step arena_alloc) [TwAdd 7 1000 False 0, TwReturn 0,
      TwLoop (EvCall (CallCancel \<lparr>tidTimer = 1, tidSequence = 1\<rparr>)), TwFunctor 10] newTimerWorld = Inr w
    \<and> (1, 1) \<in> tqActive (twQueue w)"
  by (simp add: tw_eval Let_def)

end
