(* ===== verification/TcpConnection.thy ===== *)
theory TcpConnection
  imports NetBuffer PollerContract
begin

text \<open>
  \<open>muduo::net::TcpConnection\<close> (\<open>muduo/net/TcpConnection.h\<close>, \<open>TcpConnection.cc\<close>): one connection, as
  its loop thread and other threads use it. Results of \<open>read\<close> and \<open>write\<close> are arguments. The
  user's callbacks are lists of calls on the connection. Functors queued in the loop for this
  connection (a \<open>sendInLoop\<close> or \<open>shutdownInLoop\<close> from another thread, a write-complete or
  high-water-mark notification) wait in \<open>cnQueue\<close> and run one by one. The calls on the poller are
  recorded in \<open>cnPoller\<close>. Two history variables, \<open>cnWire\<close> (the bytes the kernel took) and \<open>cnSent\<close>
  (the bytes \<open>sendInLoop\<close> accepted), serve to state what reaches the peer. \<open>cnShutters\<close> counts the
  other threads that are inside \<open>shutdown\<close>, between its test of the state and its assignment.
\<close>

datatype conn_state = kDisconnected | kConnecting | kConnected | kDisconnecting

datatype write_result = Accepts nat | WriteFailed int

datatype conn_functor =
    FSendInLoop "char list"
  | FShutdownInLoop
  | FWriteComplete
  | FHighWaterMark nat

text \<open>Calls of user callbacks that the log records: the connection callback with what
  \<open>connected()\<close> tells it, the message callback, the close callback.\<close>

datatype conn_note = NoteConnection bool | NoteMessage | NoteClose | NoteError

record conn =
  cnId :: nat
  cnState :: conn_state
  cnChannel :: channel
  cnInput :: netbuf
  cnOutput :: netbuf
  cnHighWaterMark :: nat
  cnHasWriteComplete :: bool
  cnHasHighWater :: bool
  cnQueue :: "conn_functor list"
  cnPoller :: "poller_call list"
  cnShutdownWrite :: bool
  cnNotes :: "conn_note list"
  cnWire :: "char list"
  cnSent :: "char list"
  cnShutters :: nat

definition EWOULDBLOCK :: int where "EWOULDBLOCK = 11"
definition EPIPE :: int where "EPIPE = 32"

definition newConn :: "nat \<Rightarrow> int \<Rightarrow> conn" where
  "newConn cid sockfd = \<lparr>cnId = cid, cnState = kConnecting,
     cnChannel = (newChannel sockfd)\<lparr>hasReadCallback := True, hasWriteCallback := True,
        hasCloseCallback := True, hasErrorCallback := True\<rparr>,
     cnInput = newBuffer, cnOutput = newBuffer, cnHighWaterMark = 64 * 1024 * 1024,
     cnHasWriteComplete = False, cnHasHighWater = False, cnQueue = [], cnPoller = [],
     cnShutdownWrite = False, cnNotes = [], cnWire = [], cnSent = [], cnShutters = 0\<rparr>"

definition setWriteCompleteCallback :: "conn \<Rightarrow> conn" where
  "setWriteCompleteCallback c = c\<lparr>cnHasWriteComplete := True\<rparr>"

definition setHighWaterMarkCallback :: "nat \<Rightarrow> conn \<Rightarrow> conn" where
  "setHighWaterMarkCallback mark c = c\<lparr>cnHasHighWater := True, cnHighWaterMark := mark\<rparr>"

definition connected :: "conn \<Rightarrow> bool" where
  "connected c \<longleftrightarrow> cnState c = kConnected"

text \<open>A mask change of the connection's channel, told to the poller.\<close>

definition chan_interest :: "interest_op \<Rightarrow> conn \<Rightarrow> conn" where
  "chan_interest op c = c\<lparr>cnChannel := apply_interest op (cnChannel c),
     cnPoller := cnPoller c @ [Interest (cnId c) op]\<rparr>"

definition queueInLoop :: "conn_functor \<Rightarrow> conn \<Rightarrow> conn" where
  "queueInLoop f c = c\<lparr>cnQueue := cnQueue c @ [f]\<rparr>"

text \<open>\<open>write(2)\<close> takes at most as many bytes as it is given.\<close>

definition sockets_write :: "write_result \<Rightarrow> char list \<Rightarrow> int" where
  "sockets_write wr data = (case wr of Accepts n \<Rightarrow> int (min n (length data)) | WriteFailed _ \<Rightarrow> -1)"

definition write_errno :: "write_result \<Rightarrow> int" where
  "write_errno wr = (case wr of Accepts _ \<Rightarrow> 0 | WriteFailed e \<Rightarrow> e)"

subsection \<open>Sending\<close>

definition sendInLoop :: "write_result \<Rightarrow> char list \<Rightarrow> conn \<Rightarrow> conn res" where
  "sendInLoop wr data c =
     (if cnState c = kDisconnected then Inr c
      else
        let len = length data;
            direct = (\<not> isWriting (cnChannel c) \<and> readableBytes (cnOutput c) = 0);
            n = (if direct then sockets_write wr data else 0);
            nwrote = (if 0 \<le> n then nat n else 0);
            remaining = (if direct \<and> 0 \<le> n then size_sub len (nat n) else len);
            error = (direct \<and> n < 0 \<and> write_errno wr \<noteq> EWOULDBLOCK \<and> write_errno wr = EPIPE);
            c1 = c\<lparr>cnWire := cnWire c @ take nwrote data,
                   cnSent := cnSent c @ (if error then [] else data)\<rparr>;
            c2 = (if direct \<and> 0 \<le> n \<and> remaining = 0 \<and> cnHasWriteComplete c
                  then queueInLoop FWriteComplete c1 else c1)
        in ensure (remaining \<le> len) ''sendInLoop: remaining <= len''
          (if \<not> error \<and> 0 < remaining then
             let oldLen = readableBytes (cnOutput c2);
                 c3 = (if cnHighWaterMark c2 \<le> oldLen + remaining \<and> oldLen < cnHighWaterMark c2 \<and> cnHasHighWater c2
                       then queueInLoop (FHighWaterMark (oldLen + remaining)) c2 else c2)
             in bindR (bufAppend (cnOutput c3) (take remaining (drop nwrote data))) (\<lambda>out.
                let c4 = c3\<lparr>cnOutput := out\<rparr>
                in Inr (if \<not> isWriting (cnChannel c4) then chan_interest EnableWriting c4 else c4))
           else Inr c2))"

text \<open>\<open>send\<close> in the loop thread and in another thread; the three overloads differ in where the
  bytes come from.\<close>

definition conn_send :: "bool \<Rightarrow> write_result \<Rightarrow> char list \<Rightarrow> conn \<Rightarrow> conn res" where
  "conn_send inLoop wr data c =
     (if cnState c = kConnected
      then if inLoop then sendInLoop wr data c else Inr (queueInLoop (FSendInLoop data) c)
      else Inr c)"

definition conn_send_buffer :: "bool \<Rightarrow> write_result \<Rightarrow> netbuf \<Rightarrow> conn \<Rightarrow> (netbuf \<times> conn) res" where
  "conn_send_buffer inLoop wr buf c =
     (if cnState c = kConnected
      then if inLoop
           then bindR (sendInLoop wr (range_at buf (peek buf) (peek buf + readableBytes buf)) c) (\<lambda>c'.
                Inr (retrieveAll buf, c'))
           else bindR (retrieveAllAsString buf) (\<lambda>(s, buf'). Inr (buf', queueInLoop (FSendInLoop s) c))
      else Inr (buf, c))"

definition shutdownInLoop :: "conn \<Rightarrow> conn" where
  "shutdownInLoop c = (if \<not> isWriting (cnChannel c) then c\<lparr>cnShutdownWrite := True\<rparr> else c)"

definition conn_shutdown :: "bool \<Rightarrow> conn \<Rightarrow> conn" where
  "conn_shutdown inLoop c =
     (if cnState c = kConnected then
        let c1 = c\<lparr>cnState := kDisconnecting\<rparr>
        in if inLoop then shutdownInLoop c1 else queueInLoop FShutdownInLoop c1
      else c)"

text \<open>In another thread the test and the assignment are two steps ("FIXME: use compare and swap"):
  the loop's thread and other callers may come in between.\<close>

definition conn_shutdown_test :: "conn \<Rightarrow> conn" where
  "conn_shutdown_test c = (if cnState c = kConnected then c\<lparr>cnShutters := cnShutters c + 1\<rparr> else c)"

definition conn_shutdown_set :: "conn \<Rightarrow> conn" where
  "conn_shutdown_set c = queueInLoop FShutdownInLoop (c\<lparr>cnState := kDisconnecting, cnShutters := cnShutters c - 1\<rparr>)"

subsection \<open>User callbacks\<close>

datatype conn_act = ActSend write_result "char list" | ActShutdown | ActRetrieve nat

fun conn_do :: "conn_act \<Rightarrow> conn \<Rightarrow> conn res" where
  "conn_do (ActSend wr data) c = conn_send True wr data c"
| "conn_do ActShutdown c = Inr (conn_shutdown True c)"
| "conn_do (ActRetrieve n) c =
     bindR (NetBuffer.retrieve (cnInput c) (min n (readableBytes (cnInput c)))) (\<lambda>b. Inr (c\<lparr>cnInput := b\<rparr>))"

definition conn_callback :: "conn_note \<Rightarrow> conn_act list \<Rightarrow> conn \<Rightarrow> conn res" where
  "conn_callback note acts c = foldR conn_do acts (c\<lparr>cnNotes := cnNotes c @ [note]\<rparr>)"

subsection \<open>Life cycle and event handlers\<close>

definition connectEstablished :: "conn_act list \<Rightarrow> conn \<Rightarrow> conn res" where
  "connectEstablished acts c =
     ensure (cnState c = kConnecting) ''connectEstablished: state_ == kConnecting''
     (let c1 = c\<lparr>cnState := kConnected, cnChannel := tie (cnId c) (cnChannel c)\<rparr>;
          c2 = chan_interest EnableReading c1
      in conn_callback (NoteConnection (connected c2)) acts c2)"

definition connectDestroyed :: "conn_act list \<Rightarrow> conn \<Rightarrow> conn res" where
  "connectDestroyed acts c =
     bindR (if cnState c = kConnected
            then let c1 = chan_interest DisableAll (c\<lparr>cnState := kDisconnected\<rparr>)
                 in conn_callback (NoteConnection (connected c1)) acts c1
            else Inr c) (\<lambda>c2.
     ensure (isNoneEvent (cnChannel c2)) ''Channel::remove: isNoneEvent()''
     (Inr (c2\<lparr>cnPoller := cnPoller c2 @ [Unregister (cnId c2)]\<rparr>)))"

definition handleClose :: "conn_act list \<Rightarrow> conn \<Rightarrow> conn res" where
  "handleClose acts c =
     ensure (cnState c = kConnected \<or> cnState c = kDisconnecting) ''handleClose: state_''
     (let c1 = chan_interest DisableAll (c\<lparr>cnState := kDisconnected\<rparr>)
      in bindR (conn_callback (NoteConnection (connected c1)) acts c1) (\<lambda>c2.
         conn_callback NoteClose [] c2))"

definition handleError :: "conn \<Rightarrow> conn" where
  "handleError c = c\<lparr>cnNotes := cnNotes c @ [NoteError]\<rparr>"

definition handleRead :: "read_result \<Rightarrow> conn_act list \<Rightarrow> conn \<Rightarrow> conn res" where
  "handleRead r acts c =
     bindR (readFd (cnInput c) r) (\<lambda>(n, savedErrno, buf).
     let c1 = c\<lparr>cnInput := buf\<rparr>
     in if 0 < n then conn_callback NoteMessage acts c1
        else if n = 0 then handleClose acts c1
        else Inr (handleError c1))"

definition handleWrite :: "write_result \<Rightarrow> conn \<Rightarrow> conn res" where
  "handleWrite wr c =
     (if isWriting (cnChannel c) then
        let data = range_at (cnOutput c) (peek (cnOutput c)) (peek (cnOutput c) + readableBytes (cnOutput c));
            n = sockets_write wr data
        in if 0 < n then
             bindR (NetBuffer.retrieve (cnOutput c) (nat n)) (\<lambda>out.
             let c1 = c\<lparr>cnOutput := out, cnWire := cnWire c @ take (nat n) data\<rparr>
             in if readableBytes (cnOutput c1) = 0 then
                  let c2 = chan_interest DisableWriting c1;
                      c3 = (if cnHasWriteComplete c2 then queueInLoop FWriteComplete c2 else c2)
                  in Inr (if cnState c3 = kDisconnecting then shutdownInLoop c3 else c3)
                else Inr c1)
           else Inr c
      else Inr c)"

subsection \<open>Events\<close>

text \<open>What one dispatch may meet: the results of \<open>read\<close> and \<open>write\<close>, and what the callbacks do.\<close>

record conn_io =
  ioRead :: read_result
  ioWrite :: write_result
  ioActs :: "conn_act list"

text \<open>The channel's callbacks are the handlers, as the constructor binds them.\<close>

definition conn_run :: "conn_io \<Rightarrow> chan_cb \<Rightarrow> channel \<times> conn \<Rightarrow> (channel \<times> conn) res" where
  "conn_run io cb s =
     (let c = (snd s)\<lparr>cnChannel := fst s\<rparr> in
      bindR (case cb of
               CloseCb \<Rightarrow> handleClose (ioActs io) c
             | ErrorCb \<Rightarrow> Inr (handleError c)
             | ReadCb \<Rightarrow> handleRead (ioRead io) (ioActs io) c
             | WriteCb \<Rightarrow> handleWrite (ioWrite io) c)
      (\<lambda>c'. Inr (cnChannel c', c')))"

datatype conn_event =
    EvEstablished "conn_act list"
  | EvPoll "32 word" conn_io
  | EvCall bool conn_act
  | EvFunctor write_result "conn_act list"
  | EvShutdownTest
  | EvShutdownSet
  | EvSetWriteComplete
  | EvSetHighWater nat
  | EvDestroyed "conn_act list"

text \<open>\<open>EvCall\<close> is a \<open>send\<close> or \<open>shutdown\<close> from the loop thread or (\<open>False\<close>) another one that is not
  interrupted; \<open>EvShutdownTest\<close> and \<open>EvShutdownSet\<close> are the two halves of a \<open>shutdown\<close> from another
  thread; \<open>EvFunctor\<close> runs the oldest queued functor of the connection, with what its user callback does.\<close>

fun conn_event_do :: "conn_event \<Rightarrow> conn \<Rightarrow> conn res" where
  "conn_event_do (EvEstablished acts) c = connectEstablished acts c"
| "conn_event_do (EvPoll revents io) c =
     bindR (handleEvent (\<lambda>_. True) (conn_run io) ((cnChannel c)\<lparr>chRevents := revents\<rparr>, c)) (\<lambda>(ch, c').
     Inr (c'\<lparr>cnChannel := ch\<rparr>))"
| "conn_event_do (EvCall inLoop (ActSend wr data)) c = conn_send inLoop wr data c"
| "conn_event_do (EvCall inLoop ActShutdown) c = Inr (conn_shutdown inLoop c)"
| "conn_event_do (EvCall inLoop (ActRetrieve n)) c = conn_do (ActRetrieve n) c"
| "conn_event_do (EvFunctor wr acts) c =
     (case cnQueue c of
        [] \<Rightarrow> Inr c
      | f # fs \<Rightarrow>
          let c1 = c\<lparr>cnQueue := fs\<rparr>
          in case f of
               FSendInLoop data \<Rightarrow> sendInLoop wr data c1
             | FShutdownInLoop \<Rightarrow> Inr (shutdownInLoop c1)
             | FWriteComplete \<Rightarrow> foldR conn_do acts c1
             | FHighWaterMark n \<Rightarrow> foldR conn_do acts c1)"
| "conn_event_do EvShutdownTest c = Inr (conn_shutdown_test c)"
| "conn_event_do EvShutdownSet c = Inr (conn_shutdown_set c)"
| "conn_event_do EvSetWriteComplete c = Inr (setWriteCompleteCallback c)"
| "conn_event_do (EvSetHighWater mark) c = Inr (setHighWaterMarkCallback mark c)"
| "conn_event_do (EvDestroyed acts) c = connectDestroyed acts c"

subsection \<open>Invariant\<close>

text \<open>The calls made on the poller so far are legal, and leave it with this channel registered and
  its current mask.\<close>

definition poller_tracks :: "conn \<Rightarrow> bool" where
  "poller_tracks c \<longleftrightarrow> legal_run legal (\<lambda>_. chFd (cnChannel c)) {} (cnPoller c) (Map.empty, \<lambda>_. 0)
   \<and> spec_run (\<lambda>_. chFd (cnChannel c)) (cnPoller c) (Map.empty, \<lambda>_. 0)
       = ([chFd (cnChannel c) \<mapsto> cnId c], (\<lambda>_. 0)(cnId c := chEvents (cnChannel c)))"

definition has_callbacks :: "channel \<Rightarrow> bool" where
  "has_callbacks ch \<longleftrightarrow> hasReadCallback ch \<and> hasWriteCallback ch \<and> hasCloseCallback ch \<and> hasErrorCallback ch
     \<and> (tied ch \<longrightarrow> chTie ch \<noteq> None)"

definition pending :: "conn \<Rightarrow> bool" where
  "pending c \<longleftrightarrow> readable (cnOutput c) \<noteq> []"

definition conn_inv :: "conn \<Rightarrow> bool" where
  "conn_inv c \<longleftrightarrow> buf_wf (cnInput c) \<and> buf_wf (cnOutput c) \<and> has_callbacks (cnChannel c)
   \<and> cnSent c = cnWire c @ readable (cnOutput c)
   \<and> (if cnState c = kConnecting
      then cnPoller c = [] \<and> chEvents (cnChannel c) = 0 \<and> \<not> pending c \<and> cnQueue c = []
      else poller_tracks c)
   \<and> (cnState c = kConnected \<or> cnState c = kDisconnecting \<longrightarrow> chEvents (cnChannel c) = rw_mask True (pending c))
   \<and> (cnState c = kDisconnected \<longrightarrow> chEvents (cnChannel c) = 0)
   \<and> (cnShutdownWrite c \<longrightarrow> cnState c = kDisconnecting \<or> cnState c = kDisconnected)
   \<and> (cnState c = kDisconnecting \<longrightarrow> cnShutdownWrite c \<or> pending c \<or> FShutdownInLoop \<in> set (cnQueue c))
   \<and> (FShutdownInLoop \<in> set (cnQueue c) \<longrightarrow> cnState c = kDisconnecting \<or> cnState c = kDisconnected)"

lemma newConn_inv: "conn_inv (newConn cid fd)"
  by (simp add: conn_inv_def newConn_def has_callbacks_def pending_def newChannel_def)

lemma newConn_wc_inv: "conn_inv (setWriteCompleteCallback (newConn cid fd))"
  by (simp add: setWriteCompleteCallback_def conn_inv_def newConn_def has_callbacks_def pending_def newChannel_def)

lemma conn_invD:
  assumes "conn_inv c"
  shows "buf_wf (cnInput c)" "buf_wf (cnOutput c)" "has_callbacks (cnChannel c)"
    "cnSent c = cnWire c @ readable (cnOutput c)"
    "cnState c \<noteq> kConnecting \<Longrightarrow> poller_tracks c"
    "cnState c = kConnected \<or> cnState c = kDisconnecting \<Longrightarrow> chEvents (cnChannel c) = rw_mask True (pending c)"
    "cnState c = kDisconnected \<Longrightarrow> chEvents (cnChannel c) = 0"
    "cnShutdownWrite c \<Longrightarrow> cnState c = kDisconnecting \<or> cnState c = kDisconnected"
    "cnState c = kDisconnecting \<Longrightarrow> cnShutdownWrite c \<or> pending c \<or> FShutdownInLoop \<in> set (cnQueue c)"
    "cnState c = kConnecting \<Longrightarrow> cnPoller c = [] \<and> chEvents (cnChannel c) = 0 \<and> \<not> pending c \<and> cnQueue c = []"
    "FShutdownInLoop \<in> set (cnQueue c) \<Longrightarrow> cnState c = kDisconnecting \<or> cnState c = kDisconnected"
  using assms by (auto simp: conn_inv_def)

lemma conn_inv_writing:
  assumes "conn_inv c" "cnState c = kConnected \<or> cnState c = kDisconnecting"
  shows "isWriting (cnChannel c) \<longleftrightarrow> pending c" "chEvents (cnChannel c) \<noteq> 0"
  using conn_invD(6)[OF assms] by (auto simp: rw_mask_ops)

text \<open>A mask change of a registered channel with some interest is legal and keeps the poller in step.\<close>

lemma chan_interest_sel [simp]:
  "cnId (chan_interest op c) = cnId c" "cnState (chan_interest op c) = cnState c"
  "cnInput (chan_interest op c) = cnInput c" "cnOutput (chan_interest op c) = cnOutput c"
  "cnQueue (chan_interest op c) = cnQueue c" "cnShutdownWrite (chan_interest op c) = cnShutdownWrite c"
  "cnWire (chan_interest op c) = cnWire c" "cnSent (chan_interest op c) = cnSent c"
  "chEvents (cnChannel (chan_interest op c)) = apply_mask op (chEvents (cnChannel c))"
  "chFd (cnChannel (chan_interest op c)) = chFd (cnChannel c)"
  "dispatch_key (cnChannel (chan_interest op c)) = dispatch_key (cnChannel c)"
  "has_callbacks (cnChannel (chan_interest op c)) = has_callbacks (cnChannel c)"
  "cnHasWriteComplete (chan_interest op c) = cnHasWriteComplete c"
  by (simp_all add: chan_interest_def apply_interest_update dispatch_key_def has_callbacks_def)

lemma chan_interest_pending [simp]: "pending (chan_interest op c) = pending c"
  by (simp add: pending_def)

lemma chan_interest_tracks:
  assumes "poller_tracks c" "chEvents (cnChannel c) \<noteq> 0"
  shows "poller_tracks (chan_interest op c)"
  using assms
  by (simp add: poller_tracks_def chan_interest_def apply_interest_update legal_run_append spec_run_append)
     (simp add: spec_run_def)

lemma poller_tracks_cong:
  "cnPoller c' = cnPoller c \<Longrightarrow> cnId c' = cnId c \<Longrightarrow> chFd (cnChannel c') = chFd (cnChannel c) \<Longrightarrow>
   chEvents (cnChannel c') = chEvents (cnChannel c) \<Longrightarrow> poller_tracks c' = poller_tracks c"
  by (simp add: poller_tracks_def)

lemma queueInLoop_sel [simp]:
  "cnId (queueInLoop f c) = cnId c" "cnState (queueInLoop f c) = cnState c" "cnChannel (queueInLoop f c) = cnChannel c"
  "cnInput (queueInLoop f c) = cnInput c" "cnOutput (queueInLoop f c) = cnOutput c"
  "cnPoller (queueInLoop f c) = cnPoller c" "cnShutdownWrite (queueInLoop f c) = cnShutdownWrite c"
  "cnWire (queueInLoop f c) = cnWire c" "cnSent (queueInLoop f c) = cnSent c"
  "cnQueue (queueInLoop f c) = cnQueue c @ [f]" "cnHighWaterMark (queueInLoop f c) = cnHighWaterMark c"
  by (simp_all add: queueInLoop_def)

lemma apply_mask_rw:
  "apply_mask EnableReading (rw_mask r w) = rw_mask True w" "apply_mask EnableWriting (rw_mask r w) = rw_mask r True"
  "apply_mask DisableWriting (rw_mask r w) = rw_mask r False" "apply_mask DisableAll m = 0"
  by (simp_all add: rw_mask_ops(1-4)) (simp add: kNoneEvent_def)

subsection \<open>Sending keeps the invariant\<close>

text \<open>What a call on the connection from a callback leaves alone.\<close>

definition act_frame :: "conn \<Rightarrow> conn \<Rightarrow> bool" where
  "act_frame c c' \<longleftrightarrow> dispatch_key (cnChannel c') = dispatch_key (cnChannel c) \<and> cnId c' = cnId c
   \<and> chFd (cnChannel c') = chFd (cnChannel c)
   \<and> (if cnState c = kConnected then cnState c' = kConnected \<or> cnState c' = kDisconnecting
      else cnState c' = cnState c \<and> cnOutput c' = cnOutput c \<and> cnShutdownWrite c' = cnShutdownWrite c
         \<and> chEvents (cnChannel c') = chEvents (cnChannel c) \<and> cnWire c' = cnWire c \<and> cnSent c' = cnSent c)
   \<and> (cnShutdownWrite c' \<longrightarrow> cnShutdownWrite c \<or> \<not> pending c')"

lemma act_frame_refl [simp]: "act_frame c c"
  by (simp add: act_frame_def)

lemma act_frame_trans: "conn_inv c' \<Longrightarrow> act_frame c c' \<Longrightarrow> act_frame c' c'' \<Longrightarrow> act_frame c c''"
  using conn_invD(8)[of c'] by (auto simp: act_frame_def pending_def split: if_splits)

lemma bufAppend_readable:
  assumes "buf_wf b"
  obtains b' where "bufAppend b d = Inr b'" "buf_wf b'" "readable b' = readable b @ d"
  using nb.append_law[OF assms, of d] by blast

definition send_frame :: "conn \<Rightarrow> conn \<Rightarrow> bool" where
  "send_frame c c' \<longleftrightarrow> dispatch_key (cnChannel c') = dispatch_key (cnChannel c) \<and> cnId c' = cnId c
   \<and> chFd (cnChannel c') = chFd (cnChannel c) \<and> cnState c' = cnState c \<and> cnShutdownWrite c' = cnShutdownWrite c
   \<and> set (cnQueue c) \<subseteq> set (cnQueue c') \<and> has_callbacks (cnChannel c') = has_callbacks (cnChannel c)
   \<and> cnInput c' = cnInput c"

text \<open>Bytes that go to the output buffer switch write interest on.\<close>

lemma buffer_rest_inv:
  assumes inv: "conn_inv c" and live: "cnState c = kConnected \<or> cnState c = kDisconnecting" and rest: "rest \<noteq> []"
    and c': "conn_inv c'" "send_frame c c'" "cnPoller c' = cnPoller c" "chEvents (cnChannel c') = chEvents (cnChannel c)"
    and out: "buf_wf out" "readable out = readable (cnOutput c') @ rest"
    and c4: "c4 = c'\<lparr>cnOutput := out, cnSent := cnSent c' @ rest\<rparr>"
    and r: "r = (if \<not> isWriting (cnChannel c4) then chan_interest EnableWriting c4 else c4)"
  shows "conn_inv r" "send_frame c r"
proof -
  have live': "cnState c' = kConnected \<or> cnState c' = kDisconnecting" using live c'(2) by (simp add: send_frame_def)
  have mask: "chEvents (cnChannel c4) = rw_mask True (pending c')" "chEvents (cnChannel c4) \<noteq> 0"
    using conn_invD(6)[OF c'(1) live'] by (simp_all add: c4 rw_mask_ops)
  have tracks: "poller_tracks c4"
    using conn_invD(5)[OF c'(1)] live' poller_tracks_cong[of c4 c'] by (auto simp: c4)
  have maskr: "chEvents (cnChannel r) = rw_mask True True"
    using mask(1) by (auto simp: r isWriting_def rw_mask_ops apply_mask_rw)
  have tr: "poller_tracks r" using tracks chan_interest_tracks[OF tracks mask(2)] by (simp add: r)
  have pend: "pending r" using out(2) rest by (simp add: r c4 pending_def)
  note D = conn_invD[OF c'(1)]
  show "conn_inv r"
    unfolding conn_inv_def
    using D(1-4,8,9,11) out tr maskr pend live' by (auto simp: r c4)
  show "send_frame c r" using c'(2) by (auto simp: send_frame_def r c4)
qed

lemma conn_inv_queue:
  "conn_inv c \<Longrightarrow> cnState c \<noteq> kConnecting \<Longrightarrow> f \<noteq> FShutdownInLoop \<Longrightarrow> conn_inv (queueInLoop f c)"
  using poller_tracks_cong[of "queueInLoop f c" c] by (auto simp: conn_inv_def pending_def)

lemma conn_inv_wire:
  assumes "conn_inv c" "\<not> pending c"
  shows "conn_inv (c\<lparr>cnWire := cnWire c @ d, cnSent := cnSent c @ d\<rparr>)"
  using assms poller_tracks_cong[of "c\<lparr>cnWire := cnWire c @ d, cnSent := cnSent c @ d\<rparr>" c]
  by (auto simp: conn_inv_def pending_def)

lemma sendInLoop_ok:
  assumes inv: "conn_inv c" and st: "cnState c \<noteq> kConnecting"
  shows "\<exists>c'. sendInLoop wr data c = Inr c' \<and> conn_inv c' \<and> send_frame c c'
    \<and> (cnSent c' = cnSent c @ data \<or> cnSent c' = cnSent c
         \<and> (cnState c = kDisconnected \<or> wr = WriteFailed EPIPE \<and> \<not> pending c))"
proof (cases "cnState c = kDisconnected")
  case True
  with inv show ?thesis by (simp add: sendInLoop_def send_frame_def)
next
  case False
  then have live: "cnState c = kConnected \<or> cnState c = kDisconnecting" using st by (cases "cnState c") auto
  note D = conn_invD[OF inv]
  have wr: "isWriting (cnChannel c) \<longleftrightarrow> pending c" by (rule conn_inv_writing[OF inv live])
  have rd: "readableBytes (cnOutput c) = 0 \<longleftrightarrow> \<not> pending c" using length_readable[OF D(2)] by (auto simp: pending_def)
  show ?thesis
  proof (cases "pending c")
    case True
    show ?thesis
    proof (cases "data = []")
      case True
      with \<open>pending c\<close> False inv wr rd show ?thesis by (simp add: sendInLoop_def Let_def send_frame_def)
    next
      case data: False
      define hw where "hw = (if cnHighWaterMark c \<le> readableBytes (cnOutput c) + length data
          \<and> readableBytes (cnOutput c) < cnHighWaterMark c \<and> cnHasHighWater c
          then queueInLoop (FHighWaterMark (readableBytes (cnOutput c) + length data)) c else c)"
      obtain out where out: "bufAppend (cnOutput c) data = Inr out" "buf_wf out" "readable out = readable (cnOutput c) @ data"
        using bufAppend_readable[OF D(2)] by blast
      have hw': "conn_inv hw" "send_frame c hw" "cnPoller hw = cnPoller c" "chEvents (cnChannel hw) = chEvents (cnChannel c)"
        "cnOutput hw = cnOutput c" "cnSent hw = cnSent c"
        using conn_inv_queue[OF inv st] inv by (auto simp: hw_def send_frame_def)
      define r where "r = (let c4 = hw\<lparr>cnOutput := out, cnSent := cnSent hw @ data\<rparr>
        in if \<not> isWriting (cnChannel c4) then chan_interest EnableWriting c4 else c4)"
      have "conn_inv r" "send_frame c r"
        using buffer_rest_inv[OF inv live data hw'(1-4) out(2) _ refl, of r] out(3) hw'(5) by (auto simp: r_def Let_def)
      moreover have "sendInLoop wr data c = Inr r"
        using False True data wr rd out(1)
        by (auto simp: sendInLoop_def Let_def r_def hw_def queueInLoop_def chan_interest_def)
      moreover have "cnSent r = cnSent c @ data" by (simp add: r_def Let_def hw'(6))
      ultimately show ?thesis by blast
    qed
  next
    case idle: False
    define n where "n = (case wr of Accepts n \<Rightarrow> min n (length data) | WriteFailed _ \<Rightarrow> 0)"
    define w where "w = c\<lparr>cnWire := cnWire c @ take n data, cnSent := cnSent c @ take n data\<rparr>"
    have n: "n \<le> length data" by (cases wr) (simp_all add: n_def)
    have w: "conn_inv w" "send_frame c w" "cnPoller w = cnPoller c" "chEvents (cnChannel w) = chEvents (cnChannel c)"
      "cnOutput w = cnOutput c" "cnState w = cnState c" "cnChannel w = cnChannel c"
      using conn_inv_wire[OF inv idle] by (simp_all add: w_def send_frame_def)
    consider (error) "wr = WriteFailed EPIPE" | (all) "wr \<noteq> WriteFailed EPIPE" "drop n data = []"
      | (rest) "wr \<noteq> WriteFailed EPIPE" "drop n data \<noteq> []" by blast
    then show ?thesis
    proof cases
      case error
      have "sendInLoop wr data c = Inr c" using error idle False wr rd
        by (simp add: sendInLoop_def Let_def sockets_write_def write_errno_def EPIPE_def EWOULDBLOCK_def)
      with inv error idle show ?thesis by (simp add: send_frame_def)
    next
      case all
      define r where "r = (if (\<exists>k. wr = Accepts k) \<and> cnHasWriteComplete c then queueInLoop FWriteComplete w else w)"
      have len: "n = length data" using all(2) n by simp
      have "sendInLoop wr data c = Inr r"
        using all(1) idle False wr rd len
        by (cases wr) (auto simp: sendInLoop_def Let_def sockets_write_def write_errno_def n_def r_def w_def queueInLoop_def)
      moreover have "conn_inv r" "send_frame c r"
        using w conn_inv_queue[OF w(1)] st by (auto simp: r_def send_frame_def)
      moreover have "cnSent r = cnSent c @ data" using len by (simp add: r_def w_def)
      ultimately show ?thesis by blast
    next
      case rest
      let ?m = "length data - n"
      have m: "0 < ?m" "n < length data" using rest(2) by auto
      define hw where "hw = (if cnHighWaterMark c \<le> ?m \<and> 0 < cnHighWaterMark c \<and> cnHasHighWater c
          then queueInLoop (FHighWaterMark ?m) w else w)"
      have out0: "cnOutput w = cnOutput c" by (rule w(5))
      obtain out where out: "bufAppend (cnOutput c) (drop n data) = Inr out" "buf_wf out"
          "readable out = readable (cnOutput c) @ drop n data"
        using bufAppend_readable[OF D(2)] by blast
      have hw': "conn_inv hw" "send_frame c hw" "cnPoller hw = cnPoller c" "chEvents (cnChannel hw) = chEvents (cnChannel c)"
        "cnOutput hw = cnOutput c" "cnSent hw = cnSent c @ take n data"
        using conn_inv_queue[OF w(1)] w st by (auto simp: hw_def send_frame_def w_def)
      define r where "r = (let c4 = hw\<lparr>cnOutput := out, cnSent := cnSent hw @ drop n data\<rparr>
        in if \<not> isWriting (cnChannel c4) then chan_interest EnableWriting c4 else c4)"
      have "conn_inv r" "send_frame c r"
        using buffer_rest_inv[OF inv live rest(2) hw'(1-4) out(2) _ refl, of r] out(3) hw'(5) by (auto simp: r_def Let_def)
      moreover have "sendInLoop wr data c = Inr r"
        using rest(1) idle False wr rd out(1) m
        by (cases wr) (auto simp: sendInLoop_def Let_def sockets_write_def write_errno_def n_def r_def hw_def w_def
            queueInLoop_def chan_interest_def)
      moreover have "cnSent r = cnSent c @ data" by (simp add: r_def Let_def hw'(6))
      ultimately show ?thesis by blast
    qed
  qed
qed

subsection \<open>Callbacks and handlers keep the invariant\<close>

lemma conn_inv_flags:
  "conn_inv (c\<lparr>cnNotes := ns\<rparr>) = conn_inv c" "pending (c\<lparr>cnNotes := ns\<rparr>) = pending c"
  using poller_tracks_cong[of "c\<lparr>cnNotes := ns\<rparr>" c] by (simp_all add: conn_inv_def pending_def)

lemma conn_inv_input:
  assumes "conn_inv c" "buf_wf b"
  shows "conn_inv (c\<lparr>cnInput := b\<rparr>)" "pending (c\<lparr>cnInput := b\<rparr>) = pending c"
  using assms poller_tracks_cong[of "c\<lparr>cnInput := b\<rparr>" c] by (auto simp: conn_inv_def pending_def)

lemma conn_shutdown_ok:
  assumes inv: "conn_inv c"
  shows "conn_inv (conn_shutdown inLoop c) \<and> act_frame c (conn_shutdown inLoop c)"
proof (cases "cnState c = kConnected")
  case True
  note D = conn_invD[OF inv]
  have wr: "isWriting (cnChannel c) \<longleftrightarrow> pending c" using conn_inv_writing[OF inv] True by simp
  have tr: "poller_tracks (conn_shutdown inLoop c)"
    using D(5) True poller_tracks_cong[of "conn_shutdown inLoop c" c]
    by (auto simp: conn_shutdown_def shutdownInLoop_def Let_def)
  have "conn_inv (conn_shutdown inLoop c)"
    using D(1-4) D(6) D(8) D(11) True wr tr unfolding conn_inv_def
    by (auto simp: conn_shutdown_def shutdownInLoop_def pending_def Let_def)
  moreover have "act_frame c (conn_shutdown inLoop c)"
    using True wr by (auto simp: act_frame_def conn_shutdown_def shutdownInLoop_def pending_def Let_def)
  ultimately show ?thesis by blast
qed (use inv in \<open>simp add: conn_shutdown_def\<close>)

lemma conn_do_ok:
  assumes inv: "conn_inv c"
  shows "\<exists>c'. conn_do a c = Inr c' \<and> conn_inv c' \<and> act_frame c c'"
proof (cases a)
  case (ActSend wr data)
  show ?thesis
  proof (cases "cnState c = kConnected")
    case True
    then have "cnState c \<noteq> kConnecting" by simp
    from sendInLoop_ok[OF inv this, of wr data] obtain c' where
      c': "sendInLoop wr data c = Inr c'" "conn_inv c'" "send_frame c c'" by blast
    have "act_frame c c'" using c'(3) True by (auto simp: send_frame_def act_frame_def)
    with c' True ActSend show ?thesis by (simp add: conn_send_def)
  qed (use inv ActSend in \<open>simp add: conn_send_def\<close>)
next
  case ActShutdown
  then show ?thesis using conn_shutdown_ok[OF inv] by simp
next
  case (ActRetrieve n)
  let ?n = "min n (readableBytes (cnInput c))"
  have "?n \<le> length (readable (cnInput c))" using conn_invD(1)[OF inv] by simp
  from nb.retrieve_law[OF conn_invD(1)[OF inv] this] obtain b where
    b: "NetBuffer.retrieve (cnInput c) ?n = Inr b" "buf_wf b" by blast
  have "act_frame c (c\<lparr>cnInput := b\<rparr>)" by (simp add: act_frame_def)
  with b conn_inv_input[OF inv b(2)] ActRetrieve show ?thesis by simp
qed

lemma conn_dos_ok:
  assumes "conn_inv c"
  shows "\<exists>c'. foldR conn_do acts c = Inr c' \<and> conn_inv c' \<and> act_frame c c'"
  using assms
proof (induction acts arbitrary: c)
  case (Cons a acts)
  obtain c1 where c1: "conn_do a c = Inr c1" "conn_inv c1" "act_frame c c1" using conn_do_ok[OF Cons.prems] by blast
  from Cons.IH[OF c1(2)] obtain c2 where "foldR conn_do acts c1 = Inr c2" "conn_inv c2" "act_frame c1 c2" by blast
  with c1 show ?case using act_frame_trans[OF c1(2,3)] by auto
qed simp

lemma conn_callback_ok:
  assumes "conn_inv c"
  shows "\<exists>c'. conn_callback note acts c = Inr c' \<and> conn_inv c' \<and> act_frame c c'"
proof -
  have "conn_inv (c\<lparr>cnNotes := cnNotes c @ [note]\<rparr>)" using assms by (simp add: conn_inv_flags)
  from conn_dos_ok[OF this, of acts] show ?thesis
    by (auto simp: conn_callback_def act_frame_def pending_def)
qed

text \<open>What an event leaves alone.\<close>

definition step_frame :: "conn \<Rightarrow> conn \<Rightarrow> bool" where
  "step_frame c c' \<longleftrightarrow> cnId c' = cnId c \<and> chFd (cnChannel c') = chFd (cnChannel c) \<and> cnState c' \<noteq> kConnecting
   \<and> (cnState c \<noteq> kConnected \<longrightarrow> cnState c' \<noteq> kConnected \<and> (\<not> pending c \<longrightarrow> \<not> pending c'))
   \<and> (cnShutdownWrite c' \<longrightarrow> cnShutdownWrite c \<or> \<not> pending c')"

lemma step_frame_trans:
  "conn_inv c' \<Longrightarrow> step_frame c c' \<Longrightarrow> step_frame c' c'' \<Longrightarrow> step_frame c c''"
  using conn_invD(8)[of c'] by (auto simp: step_frame_def)

lemma act_step_frame: "act_frame c c' \<Longrightarrow> cnState c \<noteq> kConnecting \<Longrightarrow> step_frame c c'"
  by (auto simp: act_frame_def step_frame_def pending_def split: if_splits)

lemma disableAll_inv:
  assumes inv: "conn_inv c" and live: "cnState c = kConnected \<or> cnState c = kDisconnecting"
    and c1: "c1 = chan_interest DisableAll (c\<lparr>cnState := kDisconnected\<rparr>)"
  shows "conn_inv c1" "cnState c1 = kDisconnected" "pending c1 = pending c" "step_frame c c1"
proof -
  note D = conn_invD[OF inv]
  have t: "poller_tracks (c\<lparr>cnState := kDisconnected\<rparr>)"
    using D(5) live poller_tracks_cong[of "c\<lparr>cnState := kDisconnected\<rparr>" c] by auto
  have nz: "chEvents (cnChannel (c\<lparr>cnState := kDisconnected\<rparr>)) \<noteq> 0" using conn_inv_writing(2)[OF inv live] by simp
  show st: "cnState c1 = kDisconnected" and pend: "pending c1 = pending c" by (simp_all add: c1 pending_def)
  show "conn_inv c1"
    using D(1-4) chan_interest_tracks[OF t nz, of DisableAll] apply_mask_rw(4)
    by (auto simp: conn_inv_def c1)
  show "step_frame c c1" by (simp add: step_frame_def c1 pending_def)
qed

lemma handleClose_ok:
  assumes inv: "conn_inv c" and live: "cnState c = kConnected \<or> cnState c = kDisconnecting"
  shows "\<exists>c'. handleClose acts c = Inr c' \<and> conn_inv c' \<and> cnState c' = kDisconnected \<and> step_frame c c'"
proof -
  define c1 where "c1 = chan_interest DisableAll (c\<lparr>cnState := kDisconnected\<rparr>)"
  note D1 = disableAll_inv[OF inv live c1_def]
  obtain c2 where c2: "conn_callback (NoteConnection (connected c1)) acts c1 = Inr c2" "conn_inv c2" "act_frame c1 c2"
    using conn_callback_ok[OF D1(1)] by blast
  obtain c3 where c3: "conn_callback NoteClose [] c2 = Inr c3" "conn_inv c3" "act_frame c2 c3"
    using conn_callback_ok[OF c2(2)] by blast
  have st: "cnState c2 = kDisconnected" "cnState c3 = kDisconnected"
    using c2(3) c3(3) D1(2) by (auto simp: act_frame_def split: if_splits)
  have "step_frame c c3"
    using step_frame_trans[OF D1(1,4)] step_frame_trans[OF c2(2)] act_step_frame[OF c2(3)] act_step_frame[OF c3(3)] D1(2) st
    by auto
  with c2 c3 st live show ?thesis by (simp add: handleClose_def c1_def[symmetric])
qed

lemma readFd_wf:
  assumes "buf_wf b"
  obtains n e b' where "readFd b r = Inr (n, e, b')" "buf_wf b'"
proof (cases r)
  case (ReadError e)
  with that readFd_error assms show thesis by metis
next
  case (ReadPending p)
  with that readFd_ok[OF assms, of p] show thesis by metis
qed

lemma handleRead_ok:
  assumes inv: "conn_inv c" and live: "cnState c = kConnected \<or> cnState c = kDisconnecting"
  shows "\<exists>c'. handleRead r acts c = Inr c' \<and> conn_inv c' \<and> step_frame c c'"
proof -
  obtain n e b where b: "readFd (cnInput c) r = Inr (n, e, b)" "buf_wf b"
    using readFd_wf[OF conn_invD(1)[OF inv]] by blast
  let ?c = "c\<lparr>cnInput := b\<rparr>"
  have c1: "conn_inv ?c" by (rule conn_inv_input[OF inv b(2)])
  have same: "step_frame ?c c' \<Longrightarrow> step_frame c c'" for c' by (simp add: step_frame_def pending_def)
  consider "0 < n" | "n = 0" | "n < 0" by linarith
  then show ?thesis
  proof cases
    case 1
    obtain c' where "conn_callback NoteMessage acts ?c = Inr c'" "conn_inv c'" "act_frame ?c c'"
      using conn_callback_ok[OF c1] by blast
    with 1 b(1) live same act_step_frame[of ?c c'] show ?thesis by (auto simp: handleRead_def)
  next
    case 2
    obtain c' where "handleClose acts ?c = Inr c'" "conn_inv c'" "step_frame ?c c'"
      using handleClose_ok[OF c1, of acts] live by auto
    with 2 b(1) same show ?thesis by (auto simp: handleRead_def)
  next
    case 3
    have "conn_inv (handleError ?c)" "step_frame ?c (handleError ?c)"
      using c1 live by (auto simp: handleError_def conn_inv_flags step_frame_def)
    with 3 b(1) same show ?thesis by (auto simp: handleRead_def)
  qed
qed

lemma handleWrite_ok:
  assumes inv: "conn_inv c" and st: "cnState c \<noteq> kConnecting"
  shows "\<exists>c'. handleWrite wr c = Inr c' \<and> conn_inv c' \<and> step_frame c c'
    \<and> (cnState c = kDisconnecting \<longrightarrow> pending c \<longrightarrow> \<not> pending c' \<longrightarrow> cnShutdownWrite c')"
proof (cases "isWriting (cnChannel c)")
  case True
  note D = conn_invD[OF inv]
  have live: "cnState c = kConnected \<or> cnState c = kDisconnecting"
    using st True D(7) by (cases "cnState c") (auto simp: isWriting_def)
  have pend: "pending c" using conn_inv_writing(1)[OF inv live] True by simp
  let ?out = "readable (cnOutput c)"
  have data: "range_at (cnOutput c) (peek (cnOutput c)) (peek (cnOutput c) + readableBytes (cnOutput c)) = ?out"
    using range_at_peek[OF D(2) order_refl] length_readable[OF D(2)] by simp
  define n where "n = sockets_write wr ?out"
  show ?thesis
  proof (cases "0 < n")
    case False
    with True data inv st show ?thesis by (simp add: handleWrite_def n_def step_frame_def)
  next
    case pos: True
    have n: "nat n \<le> length ?out" by (cases wr) (simp_all add: n_def sockets_write_def)
    from nb.retrieve_law[OF D(2) n] obtain out where
      out: "NetBuffer.retrieve (cnOutput c) (nat n) = Inr out" "buf_wf out" "readable out = drop (nat n) ?out" by blast
    define c1 where "c1 = c\<lparr>cnOutput := out, cnWire := cnWire c @ take (nat n) ?out\<rparr>"
    have sent: "cnSent c1 = cnWire c1 @ readable (cnOutput c1)" using D(4) out(3) by (simp add: c1_def)
    have tr: "poller_tracks c1" using D(5)[OF st] poller_tracks_cong[of c1 c] by (simp add: c1_def)
    have mask: "chEvents (cnChannel c1) = rw_mask True True" using D(6)[OF live] pend by (simp add: c1_def)
    have rb: "readableBytes out = 0 \<longleftrightarrow> \<not> pending c1" using length_readable[OF out(2)] by (auto simp: c1_def pending_def)
    show ?thesis
    proof (cases "pending c1")
      case more: True
      have "conn_inv c1"
        using D(1,3,8,9,11) out(2) sent tr mask more live unfolding conn_inv_def
        by (auto simp: c1_def pending_def)
      moreover have "handleWrite wr c = Inr c1"
        using True pos out(1) rb more by (simp add: handleWrite_def data n_def[symmetric] c1_def Let_def)
      moreover have "step_frame c c1" using live more pend by (auto simp: step_frame_def c1_def)
      ultimately show ?thesis using more by blast
    next
      case drained: False
      define c2 where "c2 = chan_interest DisableWriting c1"
      define c3 where "c3 = (if cnHasWriteComplete c2 then queueInLoop FWriteComplete c2 else c2)"
      define r where "r = (if cnState c3 = kDisconnecting then shutdownInLoop c3 else c3)"
      have nz: "chEvents (cnChannel c1) \<noteq> 0" using mask by (simp add: rw_mask_ops)
      have tr2: "poller_tracks c2" using chan_interest_tracks[OF tr nz] by (simp add: c2_def)
      have mask2: "chEvents (cnChannel c2) = rw_mask True False" by (simp add: c2_def mask rw_mask_ops)
      have nw: "\<not> isWriting (cnChannel c3)" using mask2 events_masks(6)[of "cnChannel c3" True False] by (simp add: c3_def)
      have fields: "cnOutput r = out" "cnState r = cnState c" "cnChannel r = cnChannel c2" "cnInput r = cnInput c"
        "cnSent r = cnSent c1" "cnWire r = cnWire c1" "cnId r = cnId c" "cnPoller r = cnPoller c2"
        "FShutdownInLoop \<in> set (cnQueue r) \<longleftrightarrow> FShutdownInLoop \<in> set (cnQueue c)"
        "cnShutdownWrite r = (cnState c = kDisconnecting \<or> cnShutdownWrite c)"
        "chFd (cnChannel r) = chFd (cnChannel c)" "has_callbacks (cnChannel r) = has_callbacks (cnChannel c)"
        using nw by (auto simp: r_def c3_def c2_def c1_def shutdownInLoop_def)
      have "poller_tracks r" using tr2 poller_tracks_cong[of r c2] fields by (simp add: c2_def c1_def)
      moreover have "\<not> pending r" using drained fields(1) by (simp add: pending_def c1_def)
      ultimately have "conn_inv r"
        using D(1,3,8,11) out(2) sent mask2 live fields drained unfolding conn_inv_def
        by (auto simp: c1_def pending_def)
      moreover have "handleWrite wr c = Inr r"
        using True pos out(1) rb drained
        by (simp add: handleWrite_def data n_def[symmetric] Let_def r_def c3_def c2_def c1_def)
      moreover have "step_frame c r" using live \<open>\<not> pending r\<close> fields by (auto simp: step_frame_def)
      ultimately show ?thesis using fields(10) by auto
    qed
  qed
next
  case False
  with inv st show ?thesis by (auto simp: handleWrite_def step_frame_def)
qed

lemma connectEstablished_ok:
  assumes inv: "conn_inv c" and st: "cnState c = kConnecting"
  shows "\<exists>c'. connectEstablished acts c = Inr c' \<and> conn_inv c' \<and> cnState c' \<noteq> kConnecting
    \<and> (cnShutdownWrite c' \<longrightarrow> \<not> pending c')"
proof -
  note D = conn_invD[OF inv]
  define c2 where "c2 = chan_interest EnableReading (c\<lparr>cnState := kConnected, cnChannel := tie (cnId c) (cnChannel c)\<rparr>)"
  have f: "cnState c2 = kConnected" "cnOutput c2 = cnOutput c" "chEvents (cnChannel c2) = rw_mask True False"
    "chFd (cnChannel c2) = chFd (cnChannel c)" "cnPoller c2 = [Interest (cnId c) EnableReading]"
    "has_callbacks (cnChannel c2)"
    using D(10)[OF st] D(3) apply_mask_rw(1)[of False False]
    by (auto simp: c2_def chan_interest_def tie_def apply_interest_update has_callbacks_def rw_mask_def)
  have nz: "rw_mask True False \<noteq> 0" by (simp add: rw_mask_ops)
  have e: "0 OR kReadEvent = rw_mask True False" by (simp add: rw_mask_def)
  have "poller_tracks c2"
    unfolding poller_tracks_def f using nz e by (simp add: spec_run_def c2_def)
  moreover have "\<not> pending c2" "\<not> cnShutdownWrite c2" using D(10)[OF st] D(8) st by (auto simp: c2_def pending_def)
  ultimately have inv2: "conn_inv c2" using D(1,2,4) D(10)[OF st] f unfolding conn_inv_def by (auto simp: c2_def)
  from conn_callback_ok[OF inv2] obtain c' where
    c': "conn_callback (NoteConnection (connected c2)) acts c2 = Inr c'" "conn_inv c'" "act_frame c2 c'" by blast
  with f(1) \<open>\<not> cnShutdownWrite c2\<close> st show ?thesis
    by (auto simp: connectEstablished_def c2_def[symmetric] act_frame_def)
qed

subsection \<open>Dispatch\<close>

lemma cnChannel_if:
  "cnChannel (if b then queueInLoop f c else c) = cnChannel c"
  "dispatch_key (cnChannel (if b then chan_interest op c else c)) = dispatch_key (cnChannel c)"
  "cnState (if b then queueInLoop f c else c) = cnState c"
  "cnState (if b then chan_interest op c else c) = cnState c"
  by simp_all

lemma sendInLoop_state: "sendInLoop wr data c = Inr c' \<Longrightarrow> cnState c' = cnState c"
proof (erule holds_InrD[rotated])
  show "holds UNIV (sendInLoop wr data c) (\<lambda>c'. cnState c' = cnState c)"
    unfolding sendInLoop_def Let_def
    by (intro holds_any) (simp_all add: cnChannel_if split del: if_split)
qed

lemma sendInLoop_key:
  "sendInLoop wr data c = Inr c' \<Longrightarrow> dispatch_key (cnChannel c') = dispatch_key (cnChannel c)"
proof (erule holds_InrD[rotated])
  show "holds UNIV (sendInLoop wr data c) (\<lambda>c'. dispatch_key (cnChannel c') = dispatch_key (cnChannel c))"
    unfolding sendInLoop_def Let_def
    by (intro holds_any) (simp_all add: cnChannel_if split del: if_split)
qed

lemma conn_do_key: "conn_do a c = Inr c' \<Longrightarrow> dispatch_key (cnChannel c') = dispatch_key (cnChannel c)"
  by (cases a) (auto simp: conn_send_def conn_shutdown_def shutdownInLoop_def Let_def bindR_eq_Inr
      dest: sendInLoop_key split: if_splits)

lemma conn_callback_key:
  assumes "conn_callback note acts c = Inr c'"
  shows "dispatch_key (cnChannel c') = dispatch_key (cnChannel c)"
  using assms unfolding conn_callback_def
  by (rule foldR_preserves[where I = "\<lambda>d. dispatch_key (cnChannel d) = dispatch_key (cnChannel c)"])
     (auto dest: conn_do_key)

lemma handleClose_key: "handleClose acts c = Inr c' \<Longrightarrow> dispatch_key (cnChannel c') = dispatch_key (cnChannel c)"
  by (auto simp: handleClose_def Let_def ensure_eq_Inr bindR_eq_Inr dest!: conn_callback_key)

lemma conn_run_keeps: "keeps_dispatch (conn_run io)"
  unfolding keeps_dispatch_def
proof (intro allI impI)
  fix cb s s' assume run: "conn_run io cb s = Inr s'"
  show "dispatch_key (fst s') = dispatch_key (fst s)"
  proof (cases cb)
    case ReadCb
    with run show ?thesis
      by (auto simp: conn_run_def handleRead_def handleError_def Let_def bindR_eq_Inr
          dest!: conn_callback_key handleClose_key split: if_splits)
  next
    case CloseCb
    with run show ?thesis by (auto simp: conn_run_def bindR_eq_Inr dest!: handleClose_key)
  next
    case WriteCb
    with run show ?thesis
      by (auto simp: conn_run_def handleWrite_def Let_def bindR_eq_Inr shutdownInLoop_def split: if_splits)
  qed (use run in \<open>auto simp: conn_run_def handleError_def\<close>)
qed

subsection \<open>Runs of a connection\<close>

text \<open>The masks the poller reports: a hang-up without readable data comes without urgent data and
  without the half-close flag, which the channel does not ask for.\<close>

definition sane_revents :: "32 word \<Rightarrow> bool" where
  "sane_revents r \<longleftrightarrow> (r AND POLLHUP \<noteq> 0 \<and> r AND POLLIN = 0 \<longrightarrow> r AND (POLLIN OR POLLPRI OR POLLRDHUP) = 0)"

lemma conn_run_ok:
  assumes inv: "conn_inv (c\<lparr>cnChannel := ch\<rparr>)" and st: "cnState c \<noteq> kConnecting"
    and live: "cb = CloseCb \<or> cb = ReadCb \<Longrightarrow> cnState c = kConnected \<or> cnState c = kDisconnecting"
  shows "\<exists>c'. conn_run io cb (ch, c) = Inr (cnChannel c', c') \<and> conn_inv c' \<and> step_frame (c\<lparr>cnChannel := ch\<rparr>) c'
     \<and> (cnState c = kDisconnecting \<longrightarrow> cb = WriteCb \<longrightarrow> pending c \<longrightarrow> \<not> pending c' \<longrightarrow> cnShutdownWrite c')"
proof (cases cb)
  case CloseCb
  with handleClose_ok[OF inv, of "ioActs io"] live show ?thesis by (auto simp: conn_run_def)
next
  case ErrorCb
  have "step_frame (c\<lparr>cnChannel := ch\<rparr>) (handleError (c\<lparr>cnChannel := ch\<rparr>))"
    using st by (simp add: step_frame_def handleError_def pending_def)
  with ErrorCb inv show ?thesis by (auto simp: conn_run_def handleError_def conn_inv_flags)
next
  case ReadCb
  with handleRead_ok[OF inv, of "ioRead io" "ioActs io"] live show ?thesis by (auto simp: conn_run_def)
next
  case WriteCb
  with handleWrite_ok[OF inv, of "ioWrite io"] st show ?thesis by (auto simp: conn_run_def pending_def)
qed

text \<open>Running a dispatch's callbacks one after the other: once a callback closed the connection, only
  the error and write callbacks may follow.\<close>

fun cbs_safe :: "bool \<Rightarrow> chan_cb list \<Rightarrow> bool" where
  "cbs_safe live [] \<longleftrightarrow> True"
| "cbs_safe live (CloseCb # cbs) \<longleftrightarrow> live \<and> cbs_safe False cbs"
| "cbs_safe live (ErrorCb # cbs) \<longleftrightarrow> cbs_safe live cbs"
| "cbs_safe live (ReadCb # cbs) \<longleftrightarrow> live \<and> cbs_safe False cbs"
| "cbs_safe live (WriteCb # cbs) \<longleftrightarrow> cbs_safe live cbs"

lemma conn_runs_ok:
  assumes "conn_inv (c\<lparr>cnChannel := ch\<rparr>)" "cnState c \<noteq> kConnecting" "cbs_safe live cbs"
    and "live \<Longrightarrow> cnState c = kConnected \<or> cnState c = kDisconnecting"
  shows "\<exists>ch' c'. foldR (conn_run io) cbs (ch, c) = Inr (ch', c') \<and> conn_inv (c'\<lparr>cnChannel := ch'\<rparr>)
     \<and> step_frame (c\<lparr>cnChannel := ch\<rparr>) (c'\<lparr>cnChannel := ch'\<rparr>)"
  using assms
proof (induction live cbs arbitrary: c ch rule: cbs_safe.induct)
  case (1 live)
  then show ?case by (auto simp: step_frame_def)
next
  case (2 live cbs)
  obtain c1 where c1: "conn_run io CloseCb (ch, c) = Inr (cnChannel c1, c1)" "conn_inv c1" "step_frame (c\<lparr>cnChannel := ch\<rparr>) c1"
    using conn_run_ok[OF 2(2,3), of CloseCb io] 2(4,5) by auto
  have "conn_inv (c1\<lparr>cnChannel := cnChannel c1\<rparr>)" "cnState c1 \<noteq> kConnecting" using c1 by (simp_all add: step_frame_def)
  from 2(1)[OF this] 2(4) c1 step_frame_trans[OF c1(2,3)] show ?case by auto
next
  case (3 live cbs)
  obtain c1 where c1: "conn_run io ErrorCb (ch, c) = Inr (cnChannel c1, c1)" "conn_inv c1" "step_frame (c\<lparr>cnChannel := ch\<rparr>) c1"
    using conn_run_ok[OF 3(2,3), of ErrorCb io] by auto
  have "conn_inv (c1\<lparr>cnChannel := cnChannel c1\<rparr>)" "cnState c1 \<noteq> kConnecting" using c1 by (simp_all add: step_frame_def)
  moreover have "c1 = handleError (c\<lparr>cnChannel := ch\<rparr>)" using c1(1) by (simp add: conn_run_def Let_def)
  then have "cnState c1 = cnState c" by (simp add: handleError_def)
  ultimately show ?case using 3(1)[of "cnChannel c1" c1] 3(4,5) c1 step_frame_trans[OF c1(2,3)] by auto
next
  case (4 live cbs)
  obtain c1 where c1: "conn_run io ReadCb (ch, c) = Inr (cnChannel c1, c1)" "conn_inv c1" "step_frame (c\<lparr>cnChannel := ch\<rparr>) c1"
    using conn_run_ok[OF 4(2,3), of ReadCb io] 4(4,5) by auto
  have "conn_inv (c1\<lparr>cnChannel := cnChannel c1\<rparr>)" "cnState c1 \<noteq> kConnecting" using c1 by (simp_all add: step_frame_def)
  from 4(1)[OF this] 4(4) c1 step_frame_trans[OF c1(2,3)] show ?case by auto
next
  case (5 live cbs)
  obtain c1 where c1: "conn_run io WriteCb (ch, c) = Inr (cnChannel c1, c1)" "conn_inv c1" "step_frame (c\<lparr>cnChannel := ch\<rparr>) c1"
    using conn_run_ok[OF 5(2,3), of WriteCb io] by auto
  have "conn_inv (c1\<lparr>cnChannel := cnChannel c1\<rparr>)" "cnState c1 \<noteq> kConnecting" using c1 by (simp_all add: step_frame_def)
  moreover have "cnState c1 = cnState c" using c1(1)
    by (auto simp: conn_run_def handleWrite_def bindR_eq_Inr Let_def shutdownInLoop_def split: if_splits)
  ultimately show ?case using 5(1)[of "cnChannel c1" c1] 5(4,5) c1 step_frame_trans[OF c1(2,3)] by auto
qed

lemma wanted_cbs_safe: "sane_revents (chRevents ch) \<Longrightarrow> cbs_safe True (wanted_cbs ch)"
  by (auto simp: wanted_cbs_def sane_revents_def)

lemma conn_inv_channel_flags:
  assumes "conn_inv c" "ch' = (cnChannel c)\<lparr>chRevents := r, eventHandling := e\<rparr>"
  shows "conn_inv (c\<lparr>cnChannel := ch'\<rparr>)" "pending (c\<lparr>cnChannel := ch'\<rparr>) = pending c"
proof -
  show p: "pending (c\<lparr>cnChannel := ch'\<rparr>) = pending c" by (simp add: pending_def)
  have t: "poller_tracks (c\<lparr>cnChannel := ch'\<rparr>) = poller_tracks c" by (rule poller_tracks_cong) (simp_all add: assms(2))
  have h: "has_callbacks ch' = has_callbacks (cnChannel c)" "chEvents ch' = chEvents (cnChannel c)" by (simp_all add: assms(2) has_callbacks_def)
  show "conn_inv (c\<lparr>cnChannel := ch'\<rparr>)" using assms(1) unfolding conn_inv_def p t by (simp add: h)
qed

text \<open>Which events the loop and the owner deliver in which state, from the making of the connection to
  \<open>connectDestroyed\<close>. A \<open>shutdown\<close> of another thread that tested the state in time also assigns it
  in time, before the connection is closed: \<open>shutdown_race_reopens\<close> below says what happens otherwise.\<close>

fun live_legal :: "conn_event \<Rightarrow> conn \<Rightarrow> bool" where
  "live_legal (EvEstablished acts) c \<longleftrightarrow> cnState c = kConnecting"
| "live_legal (EvPoll revents io) c \<longleftrightarrow> (cnState c = kConnected \<or> cnState c = kDisconnecting) \<and> sane_revents revents"
| "live_legal EvShutdownSet c \<longleftrightarrow> 0 < cnShutters c \<and> (cnState c = kConnected \<or> cnState c = kDisconnecting)"
| "live_legal (EvDestroyed acts) c \<longleftrightarrow> False"
| "live_legal ev c \<longleftrightarrow> True"

text \<open>After it only calls of users that still hold the connection and functors that were queued before.\<close>

fun dead_legal :: "conn_event \<Rightarrow> bool" where
  "dead_legal (EvCall inLoop a) \<longleftrightarrow> True"
| "dead_legal (EvFunctor wr acts) \<longleftrightarrow> True"
| "dead_legal EvShutdownTest \<longleftrightarrow> True"
| "dead_legal EvSetWriteComplete \<longleftrightarrow> True"
| "dead_legal (EvSetHighWater mark) \<longleftrightarrow> True"
| "dead_legal ev \<longleftrightarrow> False"

text \<open>\<open>connectDestroyed\<close> comes once, when the connection is closed or, its owner going away, while it is
  up, but not while it is shutting down (\<open>connectDestroyed_while_disconnecting\<close> below).\<close>

definition conn_gone :: "conn \<Rightarrow> bool" where
  "conn_gone c \<longleftrightarrow> cnPoller c \<noteq> [] \<and> last (cnPoller c) = Unregister (cnId c)"

fun is_destroy :: "conn_event \<Rightarrow> bool" where
  "is_destroy (EvDestroyed acts) = True"
| "is_destroy ev = False"

definition conn_legal :: "conn_event \<Rightarrow> conn \<Rightarrow> bool" where
  "conn_legal ev c \<longleftrightarrow>
     (if conn_gone c then dead_legal ev
      else if is_destroy ev then cnState c = kConnected \<or> cnState c = kDisconnected
      else live_legal ev c)"

lemma conn_legal_simps [simp]:
  "conn_legal (EvCall inLoop a) c" "conn_legal (EvFunctor wr acts) c" "conn_legal EvShutdownTest c"
  "conn_legal (EvEstablished acts) (newConn cid fd)"
  by (simp_all add: conn_legal_def conn_gone_def newConn_def)

fun conn_legal_run :: "conn_event list \<Rightarrow> conn \<Rightarrow> conn res option" where
  "conn_legal_run [] c = Some (Inr c)"
| "conn_legal_run (ev # evs) c =
     (if conn_legal ev c
      then (case conn_event_do ev c of Inl e \<Rightarrow> Some (Inl e) | Inr c' \<Rightarrow> conn_legal_run evs c')
      else None)"

lemma poll_event_ok:
  assumes inv: "conn_inv c" and live: "cnState c = kConnected \<or> cnState c = kDisconnecting" and r: "sane_revents revents"
  shows "\<exists>c'. conn_event_do (EvPoll revents io) c = Inr c' \<and> conn_inv c' \<and> step_frame c c'"
proof -
  let ?ch = "(cnChannel c)\<lparr>chRevents := revents\<rparr>"
  let ?ch1 = "?ch\<lparr>eventHandling := True\<rparr>"
  have "conn_inv (c\<lparr>cnChannel := ?ch1\<rparr>)" by (rule conn_inv_channel_flags[OF inv]) simp
  from conn_runs_ok[OF this _ wanted_cbs_safe[of ?ch] live, of io] live r obtain ch' c' where
    run: "foldR (conn_run io) (wanted_cbs ?ch) (?ch1, c) = Inr (ch', c')" and
    c': "conn_inv (c'\<lparr>cnChannel := ch'\<rparr>)" "step_frame (c\<lparr>cnChannel := ?ch1\<rparr>) (c'\<lparr>cnChannel := ch'\<rparr>)" by auto
  let ?r = "c'\<lparr>cnChannel := ch'\<lparr>eventHandling := False\<rparr>\<rparr>"
  have "conn_event_do (EvPoll revents io) c = Inr ?r"
    using run conn_invD(3)[OF inv, unfolded has_callbacks_def]
    by (cases "tied (cnChannel c)"; cases "chTie (cnChannel c)")
      (simp_all add: handleEvent_def handleEventWithGuard_foldR[OF conn_run_keeps])
  moreover have "conn_inv ?r" using conn_inv_channel_flags(1)[OF c'(1), where r = "chRevents ch'" and e = False] by simp
  moreover have "step_frame c ?r" using c'(2) by (simp add: step_frame_def pending_def)
  ultimately show ?thesis by blast
qed

text \<open>Running the oldest functor.\<close>

lemma conn_inv_pop:
  assumes inv: "conn_inv c" and q: "cnQueue c = f # fs" and f: "f \<noteq> FShutdownInLoop"
  shows "conn_inv (c\<lparr>cnQueue := fs\<rparr>)" "cnState c \<noteq> kConnecting"
proof -
  show "cnState c \<noteq> kConnecting" using conn_invD(10)[OF inv] q by auto
  then show "conn_inv (c\<lparr>cnQueue := fs\<rparr>)"
    using inv q f poller_tracks_cong[of "c\<lparr>cnQueue := fs\<rparr>" c] by (auto simp: conn_inv_def pending_def)
qed

lemma shutdown_functor_ok:
  assumes inv: "conn_inv c" and q: "cnQueue c = FShutdownInLoop # fs"
  shows "conn_inv (shutdownInLoop (c\<lparr>cnQueue := fs\<rparr>))"
    "cnShutdownWrite (shutdownInLoop (c\<lparr>cnQueue := fs\<rparr>)) \<Longrightarrow> cnShutdownWrite c
       \<or> \<not> pending (shutdownInLoop (c\<lparr>cnQueue := fs\<rparr>)) \<or> cnState c = kDisconnected"
proof -
  note D = conn_invD[OF inv]
  let ?r = "shutdownInLoop (c\<lparr>cnQueue := fs\<rparr>)"
  have st: "cnState c = kDisconnecting \<or> cnState c = kDisconnected" using D(11) q by simp
  have wr: "cnState c = kDisconnecting \<Longrightarrow> isWriting (cnChannel c) \<longleftrightarrow> pending c" using conn_inv_writing[OF inv] by simp
  have tr: "poller_tracks ?r" using D(5) st poller_tracks_cong[of ?r c] by (auto simp: shutdownInLoop_def)
  show "conn_inv ?r"
    using D(1-4) D(6-8) D(11) q st wr tr unfolding conn_inv_def by (auto simp: shutdownInLoop_def pending_def)
  show "cnShutdownWrite ?r \<Longrightarrow> cnShutdownWrite c \<or> \<not> pending ?r \<or> cnState c = kDisconnected"
    using st wr by (auto simp: shutdownInLoop_def pending_def split: if_splits)
qed

lemma conn_shutdown_two_steps:
  "conn_shutdown False c = (if cnState c = kConnected then conn_shutdown_set (conn_shutdown_test c) else c)"
  by (simp add: conn_shutdown_def conn_shutdown_set_def conn_shutdown_test_def)

lemma conn_inv_cong:
  assumes "cnId c' = cnId c" "cnState c' = cnState c" "cnChannel c' = cnChannel c" "cnInput c' = cnInput c"
    "cnOutput c' = cnOutput c" "cnQueue c' = cnQueue c" "cnPoller c' = cnPoller c" "cnShutdownWrite c' = cnShutdownWrite c"
    "cnWire c' = cnWire c" "cnSent c' = cnSent c"
  shows "conn_inv c' = conn_inv c"
  unfolding conn_inv_def pending_def poller_tracks_def assms ..

lemma conn_inv_halves:
  assumes inv: "conn_inv c"
  shows "conn_inv (conn_shutdown_test c)" "pending (conn_shutdown_test c) = pending c"
    and "conn_inv (setWriteCompleteCallback c)" "conn_inv (setHighWaterMarkCallback mark c)"
    and "pending (setWriteCompleteCallback c) = pending c" "pending (setHighWaterMarkCallback mark c) = pending c"
    and "cnState c = kConnected \<or> cnState c = kDisconnecting \<Longrightarrow> conn_inv (conn_shutdown_set c)"
proof -
  note D = conn_invD[OF inv]
  have tr: "poller_tracks (conn_shutdown_set c) = poller_tracks c"
    by (rule poller_tracks_cong) (simp_all add: conn_shutdown_set_def)
  show "pending (conn_shutdown_test c) = pending c" "pending (setWriteCompleteCallback c) = pending c"
      "pending (setHighWaterMarkCallback mark c) = pending c"
    by (simp_all add: pending_def conn_shutdown_test_def setWriteCompleteCallback_def setHighWaterMarkCallback_def)
  show "conn_inv (conn_shutdown_test c)" "conn_inv (setWriteCompleteCallback c)" "conn_inv (setHighWaterMarkCallback mark c)"
    using conn_inv_cong[of "conn_shutdown_test c" c] conn_inv_cong[of "setWriteCompleteCallback c" c]
      conn_inv_cong[of "setHighWaterMarkCallback mark c" c] inv
    by (simp_all add: conn_shutdown_test_def setWriteCompleteCallback_def setHighWaterMarkCallback_def)
  show "conn_inv (conn_shutdown_set c)" if "cnState c = kConnected \<or> cnState c = kDisconnecting"
  proof -
    have "chEvents (cnChannel c) = rw_mask True (pending c)" "poller_tracks (conn_shutdown_set c)"
      using D(5,6) that tr by auto
    with D(1-4) show ?thesis unfolding conn_inv_def by (simp add: conn_shutdown_set_def pending_def)
  qed
qed

lemma conn_event_ok:
  assumes inv: "conn_inv c" and l: "live_legal ev c"
  shows "\<exists>c'. conn_event_do ev c = Inr c' \<and> conn_inv c'
    \<and> (cnShutdownWrite c' \<longrightarrow> cnShutdownWrite c \<or> \<not> pending c' \<or> cnState c = kDisconnected)"
proof (cases ev)
  case (EvEstablished acts)
  with connectEstablished_ok[OF inv, of acts] l show ?thesis by auto
next
  case (EvPoll revents io)
  with poll_event_ok[OF inv, of revents io] l show ?thesis by (auto simp: step_frame_def)
next
  case (EvCall inLoop a)
  show ?thesis
  proof (cases a)
    case (ActSend wr data)
    show ?thesis
    proof (cases inLoop)
      case True
      with conn_do_ok[OF inv, of a] EvCall ActSend show ?thesis by (auto simp: act_frame_def)
    next
      case False
      with EvCall ActSend conn_inv_queue[OF inv, of "FSendInLoop data"] inv show ?thesis
        by (auto simp: conn_send_def)
    qed
  next
    case ActShutdown
    with conn_shutdown_ok[OF inv, of inLoop] EvCall show ?thesis by (auto simp: act_frame_def)
  next
    case (ActRetrieve n)
    with conn_do_ok[OF inv, of a] EvCall show ?thesis by (auto simp: act_frame_def)
  qed
next
  case (EvFunctor wr acts)
  show ?thesis
  proof (cases "cnQueue c")
    case Nil
    with EvFunctor inv show ?thesis by simp
  next
    case (Cons f fs)
    show ?thesis
    proof (cases "f = FShutdownInLoop")
      case True
      with shutdown_functor_ok[OF inv] Cons EvFunctor show ?thesis by auto
    next
      case False
      note P = conn_inv_pop[OF inv Cons False]
      have user: "\<exists>c'. foldR conn_do acts (c\<lparr>cnQueue := fs\<rparr>) = Inr c' \<and> conn_inv c'
          \<and> (cnShutdownWrite c' \<longrightarrow> cnShutdownWrite c \<or> \<not> pending c' \<or> cnState c = kDisconnected)"
        using conn_dos_ok[OF P(1), of acts] by (auto simp: act_frame_def)
      have send: "\<exists>c'. sendInLoop wr data (c\<lparr>cnQueue := fs\<rparr>) = Inr c' \<and> conn_inv c'
          \<and> (cnShutdownWrite c' \<longrightarrow> cnShutdownWrite c \<or> \<not> pending c' \<or> cnState c = kDisconnected)" for data
        using sendInLoop_ok[OF P(1), of wr data] P(2) by (auto simp: send_frame_def)
      show ?thesis using EvFunctor Cons False user send by (cases f) auto
    qed
  qed
next
  case EvShutdownTest
  then show ?thesis using conn_inv_halves[OF inv] by (auto simp: conn_shutdown_test_def)
next
  case EvShutdownSet
  then show ?thesis using conn_inv_halves(7)[OF inv] l by (auto simp: conn_shutdown_set_def)
next
  case EvSetWriteComplete
  then show ?thesis using conn_inv_halves[OF inv] by (auto simp: setWriteCompleteCallback_def)
next
  case (EvSetHighWater mark)
  then show ?thesis using conn_inv_halves[OF inv] by (auto simp: setHighWaterMarkCallback_def)
qed (use l in auto)

subsubsection \<open>After \<open>connectDestroyed\<close>\<close>

text \<open>A connection that was closed and destroyed may still be named by functors and by its users, who
  change nothing the loop sees.\<close>

definition conn_dead :: "conn \<Rightarrow> bool" where
  "conn_dead c \<longleftrightarrow> cnState c = kDisconnected \<and> buf_wf (cnInput c)"

definition dead_frame :: "conn \<Rightarrow> conn \<Rightarrow> bool" where
  "dead_frame c c' \<longleftrightarrow> conn_dead c' \<and> cnId c' = cnId c \<and> cnChannel c' = cnChannel c \<and> cnPoller c' = cnPoller c
   \<and> cnOutput c' = cnOutput c \<and> cnWire c' = cnWire c \<and> cnSent c' = cnSent c \<and> cnNotes c' = cnNotes c"

lemma dead_frame_trans: "dead_frame c c' \<Longrightarrow> dead_frame c' c'' \<Longrightarrow> dead_frame c c''"
  by (simp add: dead_frame_def)

lemma dead_do: "conn_dead c \<Longrightarrow> \<exists>c'. conn_do a c = Inr c' \<and> dead_frame c c'"
proof (cases a)
  case (ActRetrieve n)
  assume dead: "conn_dead c"
  have wf: "buf_wf (cnInput c)" using dead by (simp add: conn_dead_def)
  from nb.retrieve_law[OF wf, of "min n (readableBytes (cnInput c))"] wf obtain b where
    "NetBuffer.retrieve (cnInput c) (min n (readableBytes (cnInput c))) = Inr b" "buf_wf b" by auto
  with ActRetrieve dead show ?thesis by (simp add: conn_dead_def dead_frame_def)
qed (auto simp: conn_dead_def conn_send_def conn_shutdown_def dead_frame_def)

lemma dead_dos: "conn_dead c \<Longrightarrow> \<exists>c'. foldR conn_do acts c = Inr c' \<and> dead_frame c c'"
proof (induction acts arbitrary: c)
  case (Cons a acts)
  obtain c1 where c1: "conn_do a c = Inr c1" "dead_frame c c1" using dead_do[OF Cons.prems] by blast
  then have "conn_dead c1" by (simp add: dead_frame_def)
  from Cons.IH[OF this] c1 show ?case by (auto intro: dead_frame_trans)
qed (simp add: dead_frame_def)

lemma dead_event:
  assumes dead: "conn_dead c" and ev: "dead_legal ev"
  shows "\<exists>c'. conn_event_do ev c = Inr c' \<and> dead_frame c c'"
proof (cases ev)
  case (EvCall inLoop a)
  with dead dead_do[OF dead, of a] show ?thesis
    by (cases a) (auto simp: conn_dead_def conn_send_def conn_shutdown_def dead_frame_def)
next
  case (EvFunctor wr acts)
  show ?thesis
  proof (cases "cnQueue c")
    case (Cons f fs)
    let ?c = "c\<lparr>cnQueue := fs\<rparr>"
    have d1: "dead_frame c ?c" "conn_dead ?c" using dead by (auto simp: conn_dead_def dead_frame_def)
    have user: "\<exists>c'. foldR conn_do acts ?c = Inr c' \<and> dead_frame c c'"
      using dead_dos[OF d1(2), of acts] dead_frame_trans[OF d1(1)] by auto
    have "dead_frame c (shutdownInLoop ?c)"
      using dead by (auto simp: conn_dead_def shutdownInLoop_def dead_frame_def)
    with user d1 EvFunctor Cons dead show ?thesis
      by (cases f) (auto simp: sendInLoop_def conn_dead_def)
  qed (use dead EvFunctor in \<open>simp add: dead_frame_def\<close>)
qed (use ev dead in \<open>simp_all add: dead_frame_def conn_dead_def conn_shutdown_test_def setWriteCompleteCallback_def
      setHighWaterMarkCallback_def\<close>)

definition conn_finished :: "conn \<Rightarrow> bool" where
  "conn_finished c \<longleftrightarrow> conn_dead c \<and> conn_gone c \<and> chEvents (cnChannel c) = 0
   \<and> cnSent c = cnWire c @ readable (cnOutput c)
   \<and> legal_run legal (\<lambda>_. chFd (cnChannel c)) {} (cnPoller c) (Map.empty, \<lambda>_. 0)
   \<and> fst (spec_run (\<lambda>_. chFd (cnChannel c)) (cnPoller c) (Map.empty, \<lambda>_. 0)) = Map.empty"

lemma finished_event:
  assumes fin: "conn_finished c" and ev: "dead_legal ev"
  shows "\<exists>c'. conn_event_do ev c = Inr c' \<and> conn_finished c' \<and> dead_frame c c'"
proof -
  have "conn_dead c" using fin by (simp add: conn_finished_def)
  from dead_event[OF this ev] fin show ?thesis by (auto simp: dead_frame_def conn_finished_def conn_gone_def)
qed

lemma tracks_unregister:
  assumes "poller_tracks c" and "chEvents (cnChannel c) = 0" and "c' = c\<lparr>cnPoller := cnPoller c @ [Unregister (cnId c)]\<rparr>"
  shows "legal_run legal (\<lambda>_. chFd (cnChannel c')) {} (cnPoller c') (Map.empty, \<lambda>_. 0)"
    "fst (spec_run (\<lambda>_. chFd (cnChannel c')) (cnPoller c') (Map.empty, \<lambda>_. 0)) = Map.empty"
  using assms by (simp_all add: poller_tracks_def legal_run_append spec_run_append) (simp add: spec_run_def)

lemma connectDestroyed_down:
  assumes inv: "conn_inv c" and st: "cnState c = kDisconnected"
  shows "\<exists>c'. connectDestroyed acts c = Inr c' \<and> conn_finished c' \<and> c' = c\<lparr>cnPoller := cnPoller c @ [Unregister (cnId c)]\<rparr>"
proof -
  note D = conn_invD[OF inv]
  let ?c' = "c\<lparr>cnPoller := cnPoller c @ [Unregister (cnId c)]\<rparr>"
  have mask: "chEvents (cnChannel c) = 0" using D(7) st by simp
  have "connectDestroyed acts c = Inr ?c'"
    using st mask by (simp add: connectDestroyed_def isNoneEvent_def kNoneEvent_def)
  moreover have "conn_finished ?c'"
    unfolding conn_finished_def
    using tracks_unregister[OF D(5) mask refl] st mask D(1,4) by (simp add: conn_dead_def conn_gone_def)
  ultimately show ?thesis by blast
qed

text \<open>The owner goes away while the connection is up: what \<open>connectDestroyed\<close> does first leads to a
  closed connection.\<close>

lemma connectDestroyed_up:
  assumes inv: "conn_inv c" and st: "cnState c = kConnected"
  shows "\<exists>c'. connectDestroyed acts c = Inr c' \<and> conn_finished c'"
proof -
  define c1 where "c1 = chan_interest DisableAll (c\<lparr>cnState := kDisconnected\<rparr>)"
  note D1 = disableAll_inv[OF inv disjI1[OF st] c1_def]
  obtain c2 where c2: "conn_callback (NoteConnection (connected c1)) acts c1 = Inr c2" "conn_inv c2" "act_frame c1 c2"
    using conn_callback_ok[OF D1(1)] by blast
  have st2: "cnState c2 = kDisconnected" using c2(3) D1(2) by (auto simp: act_frame_def split: if_splits)
  obtain c' where c': "connectDestroyed [] c2 = Inr c'" "conn_finished c'"
    using connectDestroyed_down[OF c2(2) st2] by blast
  have "connectDestroyed acts c = Inr c'"
    using c2(1) st2 c'(1) st by (simp add: connectDestroyed_def c1_def[symmetric])
  with c'(2) show ?thesis by blast
qed

text \<open>A connection in a legal run.\<close>

definition conn_ok :: "conn \<Rightarrow> bool" where
  "conn_ok c \<longleftrightarrow> (if conn_gone c then conn_finished c else conn_inv c)"

lemma inv_not_gone: "conn_inv c \<Longrightarrow> \<not> conn_gone c"
proof
  assume inv: "conn_inv c" and gone: "conn_gone c"
  then have "cnState c \<noteq> kConnecting" using conn_invD(10)[OF inv] by (auto simp: conn_gone_def)
  then have tr: "poller_tracks c" using conn_invD(5)[OF inv] by simp
  obtain xs where "cnPoller c = xs @ [Unregister (cnId c)]"
    using gone unfolding conn_gone_def by (metis append_butlast_last_id)
  with tr show False
    by (cases "spec_run (\<lambda>_. chFd (cnChannel c)) xs (Map.empty, \<lambda>_. 0)")
      (auto simp: poller_tracks_def spec_run_append spec_run_def dest: fun_cong[where x = "chFd (cnChannel c)"])
qed

lemma conn_okI: "conn_inv c \<Longrightarrow> conn_ok c" "conn_finished c \<Longrightarrow> conn_ok c"
  using inv_not_gone by (auto simp: conn_ok_def conn_finished_def)

lemma conn_ok_live: "conn_ok c \<Longrightarrow> cnState c \<noteq> kDisconnected \<Longrightarrow> conn_inv c"
  by (auto simp: conn_ok_def conn_finished_def conn_dead_def split: if_splits)

lemma conn_legal_ok:
  assumes ok: "conn_ok c" and l: "conn_legal ev c"
  shows "\<exists>c'. conn_event_do ev c = Inr c' \<and> conn_ok c'
    \<and> (cnShutdownWrite c' \<longrightarrow> cnShutdownWrite c \<or> \<not> pending c' \<or> cnState c = kDisconnected \<or> is_destroy ev)"
proof (cases "conn_gone c")
  case True
  then have "conn_finished c" "dead_legal ev" "cnState c = kDisconnected"
    using ok l by (auto simp: conn_ok_def conn_legal_def conn_finished_def conn_dead_def)
  with finished_event show ?thesis using conn_okI(2) by blast
next
  case False
  then have inv: "conn_inv c" using ok by (simp add: conn_ok_def)
  show ?thesis
  proof (cases "is_destroy ev")
    case True
    then obtain acts where ev: "ev = EvDestroyed acts" by (cases ev) auto
    have "cnState c = kConnected \<or> cnState c = kDisconnected" using l False True by (simp add: conn_legal_def)
    then show ?thesis using connectDestroyed_up[OF inv, of acts] connectDestroyed_down[OF inv, of acts] ev
      by (auto intro: conn_okI)
  next
    case nd: False
    then have "live_legal ev c" using l False by (simp add: conn_legal_def)
    from conn_event_ok[OF inv this] show ?thesis using conn_okI(1) by blast
  qed
qed

lemma conn_legal_run_ok:
  "conn_ok c \<Longrightarrow> conn_legal_run evs c = Some r \<Longrightarrow> \<exists>c'. r = Inr c' \<and> conn_ok c'"
proof (induction evs arbitrary: c)
  case (Cons ev evs)
  then have l: "conn_legal ev c" by (auto split: if_splits)
  obtain c1 where "conn_event_do ev c = Inr c1" "conn_ok c1" using conn_legal_ok[OF Cons.prems(1) l] by blast
  with Cons.IH[of c1] Cons.prems(2) l show ?case by simp
qed auto

lemmas conn_run_ok_new = conn_legal_run_ok[OF conn_okI(1)[OF newConn_inv]]

lemma conn_legal_run_inv:
  assumes "conn_legal_run evs (newConn cid fd) = Some (Inr c)" and "cnState c \<noteq> kDisconnected"
  shows "conn_inv c"
  using conn_run_ok_new[OF assms(1)] conn_ok_live assms(2) by auto

lemma handleWrite_progress:
  assumes inv: "conn_inv c" and st: "cnState c = kDisconnecting" and run: "handleWrite (Accepts n) c = Inr c'"
  shows "cnState c' = kDisconnecting" "cnSent c' = cnSent c"
    "0 < n \<Longrightarrow> length (readable (cnOutput c')) \<le> length (readable (cnOutput c)) - 1"
    "\<not> pending c \<Longrightarrow> c' = c"
proof -
  note D = conn_invD[OF inv]
  have wr: "isWriting (cnChannel c) \<longleftrightarrow> pending c" using conn_inv_writing(1)[OF inv] st by simp
  show "cnState c' = kDisconnecting" "cnSent c' = cnSent c"
    using run st by (auto simp: handleWrite_def Let_def bindR_eq_Inr shutdownInLoop_def split: if_splits)
  show "\<not> pending c \<Longrightarrow> c' = c" using run wr by (simp add: handleWrite_def)
  show "length (readable (cnOutput c')) \<le> length (readable (cnOutput c)) - 1" if n: "0 < n"
  proof (cases "pending c")
    case False
    then show ?thesis using run wr by (auto simp: handleWrite_def pending_def)
  next
    case True
    let ?out = "readable (cnOutput c)"
    have data: "range_at (cnOutput c) (peek (cnOutput c)) (peek (cnOutput c) + readableBytes (cnOutput c)) = ?out"
      using range_at_peek[OF D(2) order_refl] length_readable[OF D(2)] by simp
    define k where "k = min n (length ?out)"
    have k: "0 < k" "k \<le> length ?out" using n True by (auto simp: k_def pending_def)
    from nb.retrieve_law[OF D(2) k(2)] obtain out where
      out: "NetBuffer.retrieve (cnOutput c) k = Inr out" "readable out = drop k ?out" by blast
    have "cnOutput c' = out"
      using run wr True k(1) out(1) n True[unfolded pending_def]
      by (auto simp: handleWrite_def data sockets_write_def k_def[symmetric] Let_def shutdownInLoop_def split: if_splits)
    then show ?thesis using out(2) k by simp
  qed
qed

subsection \<open>Properties\<close>


definition demo_events :: "conn_event list" where
  "demo_events = [EvEstablished [ActSend (Accepts 2) ''abc''], EvShutdownTest, EvShutdownSet]"

lemma demo_run:
  "\<exists>c. conn_legal_run demo_events (newConn 1 5) = Some (Inr c) \<and> cnState c = kDisconnecting"
proof -
  let ?c = "newConn 1 5"
  obtain c1 where c1: "conn_event_do (EvEstablished [ActSend (Accepts 2) ''abc'']) ?c = Inr c1" "conn_inv c1"
    using conn_event_ok[OF newConn_inv, of "EvEstablished [ActSend (Accepts 2) ''abc'']" 1 5] by (auto simp: newConn_def)
  have "cnState c1 = kConnected"
  proof -
    let ?c2 = "chan_interest EnableReading (?c\<lparr>cnState := kConnected, cnChannel := tie 1 (cnChannel ?c)\<rparr>)"
    have "conn_callback (NoteConnection True) [ActSend (Accepts 2) ''abc''] ?c2 = Inr c1"
      using c1(1) by (simp add: connectEstablished_def newConn_def connected_def)
    then have "sendInLoop (Accepts 2) ''abc'' (?c2\<lparr>cnNotes := cnNotes ?c2 @ [NoteConnection True]\<rparr>) = Inr c1"
      by (simp add: conn_callback_def conn_send_def bindR_eq_Inr)
    from sendInLoop_state[OF this] show ?thesis by simp
  qed
  moreover have "conn_legal EvShutdownSet (conn_shutdown_test c1)"
    using calculation inv_not_gone[OF c1(2)] by (simp add: conn_legal_def conn_gone_def conn_shutdown_test_def)
  ultimately show ?thesis using c1(1)
    by (auto simp: demo_events_def conn_shutdown_set_def simp del: conn_event_do.simps(1))
qed


text \<open>
  Property C5. Stream integrity: after any such run, the bytes the kernel has taken followed by
  those in the output buffer are exactly the bytes accepted by \<open>sendInLoop\<close>, in the order they were
  accepted, so what the peer receives is a prefix of what was sent: partial writes, failed writes
  and interleaved sends from other threads lose, duplicate and reorder nothing.
\<close>

theorem tcp_stream_integrity:
  assumes "conn_legal_run evs (newConn cid fd) = Some (Inr c)"
  shows "cnSent c = cnWire c @ readable (cnOutput c)"
  using conn_run_ok_new[OF assms] conn_invD(4) by (auto simp: conn_ok_def conn_finished_def split: if_splits)

theorem tcp_stream_integrity_witness:
  "\<exists>c. conn_legal_run demo_events (newConn 1 5) = Some (Inr c) \<and> cnSent c = cnWire c @ readable (cnOutput c)"
  using demo_run tcp_stream_integrity[of demo_events 1 5] by blast

text \<open>
  Graceful shutdown: when an event of a connection that is not already disconnected
  closes the write side of the socket, the output buffer is empty after it: every byte accepted
  for sending has been handed to the kernel first.
\<close>

theorem shutdown_only_after_drain:
  assumes "conn_legal_run evs (newConn cid fd) = Some (Inr c)" "live_legal ev c" "cnState c \<noteq> kDisconnected"
    and "conn_event_do ev c = Inr c'" "\<not> cnShutdownWrite c" "cnShutdownWrite c'"
  shows "cnSent c' = cnWire c'"
proof -
  have inv: "conn_inv c" by (rule conn_legal_run_inv[OF assms(1,3)])
  from conn_event_ok[OF inv assms(2)] assms(3-6) have "conn_inv c'" "\<not> pending c'" by auto
  with conn_invD(4) show ?thesis by (simp add: pending_def)
qed

text \<open>A connection that drained its output and is then shut down from its own thread.\<close>

theorem shutdown_only_after_drain_witness:
  "\<exists>c c'. conn_legal_run [EvEstablished []] (newConn 1 5) = Some (Inr c)
     \<and> conn_event_do (EvCall True ActShutdown) c = Inr c' \<and> cnShutdownWrite c' \<and> cnSent c' = cnWire c'"
proof -
  obtain c where c: "conn_legal_run [EvEstablished []] (newConn 1 5) = Some (Inr c)"
      "cnState c = kConnected" "\<not> cnShutdownWrite c" "\<not> isWriting (cnChannel c)"
    by (simp add: newConn_def connectEstablished_def connected_def conn_callback_def chan_interest_def tie_def
        newChannel_def events_defs isWriting_def kReadEvent_def kWriteEvent_def poll_consts conn_legal_def conn_gone_def)
  let ?c' = "conn_shutdown True c"
  have c': "conn_event_do (EvCall True ActShutdown) c = Inr ?c'" "cnShutdownWrite ?c'"
    using c(2,4) by (simp_all add: conn_shutdown_def shutdownInLoop_def)
  from shutdown_only_after_drain[OF c(1) _ _ c'(1) c(3) c'(2)] c c' show ?thesis by auto
qed

text \<open>
  Property C14. A shutdown that was asked for while bytes were waiting is not forgotten: once the
  peer takes the rest, in however many non-empty pieces, the write side is closed. (Each write
  event hands the kernel at least one byte, so as many events as there are waiting bytes suffice.)
\<close>

theorem pending_shutdown_completes:
  assumes "conn_legal_run evs (newConn cid fd) = Some (Inr c)" "cnState c = kDisconnecting"
    and "readable (cnOutput c) \<noteq> []" "length (readable (cnOutput c)) \<le> length ns" "\<forall>n \<in> set ns. 0 < n"
  shows "\<exists>c'. foldR handleWrite (map Accepts ns) c = Inr c' \<and> cnShutdownWrite c' \<and> cnWire c' = cnSent c"
proof -
  have inv: "conn_inv c" using conn_legal_run_inv[OF assms(1)] assms(2) by simp
  have "\<exists>c'. foldR handleWrite (map Accepts ns) c = Inr c' \<and> cnShutdownWrite c' \<and> cnWire c' = cnSent c"
    if "conn_inv c" "cnState c = kDisconnecting" "length (readable (cnOutput c)) \<le> length ns" "\<forall>n \<in> set ns. 0 < n"
      "pending c \<or> cnShutdownWrite c" for c ns
    using that
  proof (induction ns arbitrary: c)
    case Nil
    then show ?case using conn_invD(4)[OF Nil.prems(1)] by (auto simp: pending_def)
  next
    case (Cons n ns)
    have "cnState c \<noteq> kConnecting" using Cons.prems(2) by simp
    from handleWrite_ok[OF Cons.prems(1) this, of "Accepts n"] obtain c1 where
      c1: "handleWrite (Accepts n) c = Inr c1" "conn_inv c1" "step_frame c c1"
        "pending c \<Longrightarrow> \<not> pending c1 \<Longrightarrow> cnShutdownWrite c1" using Cons.prems(2) by auto
    have w: "cnState c1 = kDisconnecting" "cnSent c1 = cnSent c"
      "length (readable (cnOutput c1)) \<le> length ns" "pending c1 \<or> cnShutdownWrite c1"
      using handleWrite_progress[OF Cons.prems(1,2) c1(1)] Cons.prems(3-5) c1(4) by auto
    from Cons.IH[OF c1(2) w(1,3) _ w(4)] Cons.prems(4) c1(1) w(2) show ?case by auto
  qed
  from this[OF inv assms(2) assms(4,5)] assms(3) show ?thesis by (simp add: pending_def)
qed

text \<open>Three bytes of which the kernel took two, then a shutdown: one write event completes it.\<close>

lemma partial_send:
  assumes inv: "conn_inv c" and c: "cnState c = kConnected" "\<not> pending c"
  shows "\<exists>c'. sendInLoop (Accepts 2) ''abc'' c = Inr c' \<and> conn_inv c' \<and> cnState c' = kConnected
    \<and> readable (cnOutput c') = ''c'' \<and> cnShutdownWrite c' = cnShutdownWrite c"
proof -
  have st: "cnState c \<noteq> kConnecting" using c(1) by simp
  from sendInLoop_ok[OF inv st, of "Accepts 2" "''abc''"] obtain c' where
    c': "sendInLoop (Accepts 2) ''abc'' c = Inr c'" "conn_inv c'" "send_frame c c'" "cnSent c' = cnSent c @ ''abc''" 
    using c(1) by auto
  have wr: "\<not> isWriting (cnChannel c)" using conn_inv_writing(1)[OF inv] c by simp
  have rd: "readableBytes (cnOutput c) = 0" using c(2) length_readable[OF conn_invD(2)[OF inv]] by (simp add: pending_def)
  have "cnWire c' = cnWire c @ ''ab''"
    using c'(1) wr rd c(1)
    by (auto simp: sendInLoop_def sockets_write_def Let_def bindR_eq_Inr queueInLoop_def chan_interest_def split: if_splits)
  moreover have "cnSent c = cnWire c" using conn_invD(4)[OF inv] c(2) by (simp add: pending_def)
  ultimately have "readable (cnOutput c') = ''c''" using conn_invD(4)[OF c'(2)] c'(4) by simp
  with c' c(1) show ?thesis by (auto simp: send_frame_def)
qed

theorem pending_shutdown_completes_witness:
  "\<exists>evs c c'. conn_legal_run evs (newConn 1 5) = Some (Inr c) \<and> readable (cnOutput c) = ''c''
     \<and> foldR handleWrite (map Accepts [7]) c = Inr c' \<and> cnShutdownWrite c' \<and> cnWire c' = cnSent c"
proof -
  let ?evs = "[EvEstablished [], EvCall True (ActSend (Accepts 2) ''abc''), EvCall False ActShutdown]"
  obtain c0 where c0: "conn_event_do (EvEstablished []) (newConn 1 5) = Inr c0" "conn_inv c0" "cnState c0 = kConnected"
      "\<not> pending c0"
    using connectEstablished_ok[OF newConn_inv, of 1 5 "[]"]
    by (auto simp: connectEstablished_def newConn_def connected_def conn_callback_def pending_def Let_def)
  obtain c1 where c1: "sendInLoop (Accepts 2) ''abc'' c0 = Inr c1" "cnState c1 = kConnected" "readable (cnOutput c1) = ''c''"
    using partial_send[OF c0(2-4)] by blast
  let ?c = "conn_shutdown False c1"
  have run: "conn_legal_run ?evs (newConn 1 5) = Some (Inr ?c)"
    using c0 c1 by (simp add: conn_send_def)
  have st: "cnState ?c = kDisconnecting" "readable (cnOutput ?c) = ''c''"
    using c1 by (simp_all add: conn_shutdown_def)
  have "readable (cnOutput ?c) \<noteq> []" "length (readable (cnOutput ?c)) \<le> length [7]" "\<forall>n \<in> set [7::nat]. 0 < n"
    using st(2) by simp_all
  from pending_shutdown_completes[OF run st(1) this] st(2) run show ?thesis by blast
qed

text \<open>\<open>connectDestroyed\<close> does not switch the channel off when a shutdown is in progress, so that the
  owner's destructor fails the assertion of \<open>Channel::remove\<close>.\<close>

lemma connectDestroyed_while_disconnecting:
  assumes "conn_legal_run evs (newConn cid fd) = Some (Inr c)" "cnState c = kDisconnecting"
  shows "connectDestroyed acts c = Inl (AssertFailed ''Channel::remove: isNoneEvent()'')"
proof -
  have inv: "conn_inv c" using conn_legal_run_inv[OF assms(1)] assms(2) by simp
  have "\<not> isNoneEvent (cnChannel c)"
    using conn_inv_writing(2)[OF inv] assms(2) by (simp add: isNoneEvent_def kNoneEvent_def)
  with assms(2) show ?thesis by (simp add: connectDestroyed_def)
qed

text \<open>A \<open>shutdown\<close> of another thread that tested the state before a close and assigns it after it puts the
  closed connection back to \<open>kDisconnecting\<close>: a waiting send from another thread then goes on with
  the closed channel and switches it on again, and \<open>connectDestroyed\<close> fails its assertion.\<close>

lemma shutdown_race_reopens:
  assumes inv: "conn_inv c" and st: "cnState c = kDisconnected" and q: "cnQueue c = [FSendInLoop data]" and data: "data \<noteq> []"
  shows "\<exists>c'. foldR conn_event_do [EvShutdownSet, EvFunctor (Accepts 0) []] c = Inr c'
    \<and> chEvents (cnChannel c') = kWriteEvent
    \<and> connectDestroyed acts c' = Inl (AssertFailed ''Channel::remove: isNoneEvent()'')"
proof -
  have ev: "chEvents (cnChannel c) = 0" using conn_invD(7)[OF inv] st by simp
  have wf: "buf_wf (cnOutput c)" using conn_invD(2)[OF inv] .
  obtain out where out: "bufAppend (cnOutput c) data = Inr out" using nb.append_law[OF wf, of data] by blast
  show ?thesis
    using q data ev st out
    by (auto simp: conn_shutdown_set_def sendInLoop_def sockets_write_def Let_def isWriting_def queueInLoop_def chan_interest_def
        apply_interest_update connectDestroyed_def isNoneEvent_def kNoneEvent_def kWriteEvent_def poll_consts size_sub_def)
qed

end
