(* ===== verification/ConnectionLife.thy ===== *)
theory ConnectionLife
  imports TcpConnection
begin

text \<open>
  What an owner of connections (\<open>TcpServer\<close>, \<open>TcpClient\<close>) may rely on: along any event a connection
  keeps its identity and its descriptor, and calls its close callback exactly once, when it becomes
  disconnected. After \<open>connectDestroyed\<close> what is left of it does nothing any more.
\<close>

definition closes :: "conn \<Rightarrow> nat" where
  "closes c = count_list (cnNotes c) NoteClose"

definition life :: "conn \<Rightarrow> conn \<Rightarrow> bool" where
  "life c c' \<longleftrightarrow> cnId c' = cnId c \<and> chFd (cnChannel c') = chFd (cnChannel c)
   \<and> (cnState c = kDisconnected \<longrightarrow> cnState c' = kDisconnected)
   \<and> (cnState c \<noteq> kConnecting \<longrightarrow> cnState c' \<noteq> kConnecting)
   \<and> closes c' = closes c + (if cnState c \<noteq> kDisconnected \<and> cnState c' = kDisconnected then 1 else 0)"

lemma life_refl [simp]: "life c c"
  by (simp add: life_def)

lemma life_trans: "life c c' \<Longrightarrow> life c' c'' \<Longrightarrow> life c c''"
  by (auto simp: life_def)

text \<open>Steps that change nothing an owner sees.\<close>

definition quiet :: "conn \<Rightarrow> conn \<Rightarrow> bool" where
  "quiet c c' \<longleftrightarrow> cnId c' = cnId c \<and> chFd (cnChannel c') = chFd (cnChannel c) \<and> cnNotes c' = cnNotes c
   \<and> (cnState c' = cnState c \<or> cnState c = kConnected \<and> cnState c' = kDisconnecting)"

lemma quiet_refl [simp]: "quiet c c"
  by (simp add: quiet_def)

lemma quiet_trans: "quiet c c' \<Longrightarrow> quiet c' c'' \<Longrightarrow> quiet c c''"
  by (auto simp: quiet_def)

lemma quiet_life: "quiet c c' \<Longrightarrow> life c c'"
  by (auto simp: quiet_def life_def closes_def)

lemma quiet_steps:
  "quiet c (queueInLoop f c)" "quiet c (chan_interest op c)" "quiet c (c\<lparr>cnOutput := b\<rparr>)"
  "quiet c (c\<lparr>cnInput := b\<rparr>)" "quiet c (c\<lparr>cnWire := w, cnSent := s\<rparr>)" "quiet c (c\<lparr>cnOutput := b, cnWire := w\<rparr>)"
  "quiet c (c\<lparr>cnQueue := q\<rparr>)" "quiet c (shutdownInLoop c)" "quiet c (conn_shutdown inLoop c)"
  by (simp_all add: quiet_def queueInLoop_def chan_interest_def apply_interest_update shutdownInLoop_def conn_shutdown_def Let_def)

lemma quiet_if: "quiet c d \<Longrightarrow> quiet c d' \<Longrightarrow> quiet c (if b then d else d')"
  by simp

lemma quiet_queue: "quiet c d \<Longrightarrow> quiet c (queueInLoop f d)" "quiet c d \<Longrightarrow> quiet c (chan_interest op d)"
  "quiet c d \<Longrightarrow> quiet c (d\<lparr>cnOutput := b\<rparr>)" "quiet c d \<Longrightarrow> quiet c (shutdownInLoop d)"
  using quiet_trans quiet_steps by blast+

lemma sendInLoop_quiet: "holds UNIV (sendInLoop wr data c) (quiet c)"
  unfolding sendInLoop_def Let_def
  by (intro holds_any) (simp_all add: quiet_if quiet_queue quiet_steps split del: if_split)

lemma conn_do_quiet: "holds UNIV (conn_do a c) (quiet c)"
  by (cases a) (auto simp: conn_send_def sendInLoop_quiet quiet_steps intro!: holds_any)

lemma conn_dos_quiet: "holds UNIV (foldR conn_do acts c) (quiet c)"
  by (rule holds_foldR) (auto intro: holds_mono[OF conn_do_quiet] quiet_trans)

lemma conn_callback_life:
  "holds UNIV (conn_callback note acts c) (quiet (c\<lparr>cnNotes := cnNotes c @ [note]\<rparr>))"
  unfolding conn_callback_def by (rule conn_dos_quiet)

lemma handleClose_life: "holds UNIV (handleClose acts c) (life c)"
proof (cases "handleClose acts c")
  case (Inr c')
  let ?c1 = "chan_interest DisableAll (c\<lparr>cnState := kDisconnected\<rparr>)"
  from Inr obtain c2 where st: "cnState c \<noteq> kDisconnected" "cnState c \<noteq> kConnecting"
    and c2: "conn_callback (NoteConnection (connected ?c1)) acts ?c1 = Inr c2"
    and c': "conn_callback NoteClose [] c2 = Inr c'"
    by (auto simp: handleClose_def ensure_eq_Inr bindR_eq_Inr Let_def)
  have "quiet (?c1\<lparr>cnNotes := cnNotes ?c1 @ [NoteConnection (connected ?c1)]\<rparr>) c2"
    by (rule holds_InrD[OF conn_callback_life c2])
  moreover have "quiet (c2\<lparr>cnNotes := cnNotes c2 @ [NoteClose]\<rparr>) c'"
    by (rule holds_InrD[OF conn_callback_life c'])
  ultimately show ?thesis using Inr st by (auto simp: quiet_def life_def closes_def chan_interest_def apply_interest_update)
qed simp

lemma callback_life:
  assumes "note \<noteq> NoteClose"
  shows "holds UNIV (conn_callback note acts c) (life c)"
  by (rule holds_mono[OF conn_callback_life]) (use assms in \<open>auto simp: quiet_def life_def closes_def\<close>)

lemma handleRead_life: "holds UNIV (handleRead r acts c) (life c)"
proof -
  have q: "life c (c\<lparr>cnInput := b\<rparr>)" for b by (rule quiet_life[OF quiet_steps(4)])
  show ?thesis unfolding handleRead_def Let_def split_beta
    by (intro holds_any)
      (auto intro!: holds_mono[OF callback_life] holds_mono[OF handleClose_life] intro: life_trans[OF q]
        simp: handleError_def life_def closes_def)
qed

lemma handleWrite_life: "holds UNIV (handleWrite wr c) (life c)"
  unfolding handleWrite_def Let_def
  by (intro holds_any) (simp_all add: quiet_life quiet_if quiet_queue quiet_steps split del: if_split)

lemma conn_run_life:
  "holds UNIV (conn_run io cb (ch, c)) (\<lambda>(ch', c'). life (c\<lparr>cnChannel := ch\<rparr>) (c'\<lparr>cnChannel := ch'\<rparr>))"
  unfolding conn_run_def Let_def
  by (rule holds_bindR[where Q = "life (c\<lparr>cnChannel := ch\<rparr>)"], cases cb)
    (simp_all add: handleClose_life handleRead_life handleWrite_life,
     simp add: handleError_def life_def closes_def)

lemma conn_runs_life:
  "holds UNIV (foldR (conn_run io) cbs (ch, c)) (\<lambda>(ch', c'). life (c\<lparr>cnChannel := ch\<rparr>) (c'\<lparr>cnChannel := ch'\<rparr>))"
proof (rule holds_foldR[where I = "\<lambda>(ch', c'). life (c\<lparr>cnChannel := ch\<rparr>) (c'\<lparr>cnChannel := ch'\<rparr>)"])
  fix cb s assume "(\<lambda>(ch', c'). life (c\<lparr>cnChannel := ch\<rparr>) (c'\<lparr>cnChannel := ch'\<rparr>)) s"
  then show "holds UNIV (conn_run io cb s) (\<lambda>(ch', c'). life (c\<lparr>cnChannel := ch\<rparr>) (c'\<lparr>cnChannel := ch'\<rparr>))"
    by (cases s) (auto intro!: holds_mono[OF conn_run_life] intro: life_trans)
qed simp

lemma poll_life: "holds UNIV (conn_event_do (EvPoll revents io) c) (life c)"
proof -
  let ?ch = "(cnChannel c)\<lparr>chRevents := revents\<rparr>"
  have flags: "life c (c\<lparr>cnChannel := ?ch\<lparr>eventHandling := e\<rparr>\<rparr>)" for e by (simp add: life_def closes_def)
  have "holds UNIV (foldR (conn_run io) (wanted_cbs ?ch) (?ch\<lparr>eventHandling := True\<rparr>, c))
     (\<lambda>(ch', c'). life c (c'\<lparr>cnChannel := ch'\<lparr>eventHandling := False\<rparr>\<rparr>))"
    by (rule holds_mono[OF conn_runs_life]) (auto simp: life_def closes_def)
  moreover have "life c (c\<lparr>cnChannel := ?ch\<rparr>)" by (simp add: life_def closes_def)
  ultimately show ?thesis
    by (cases "foldR (conn_run io) (wanted_cbs ?ch) (?ch\<lparr>eventHandling := True\<rparr>, c)"; cases "tied (cnChannel c)";
        cases "chTie (cnChannel c)")
      (auto simp: handleEvent_def handleEventWithGuard_foldR[OF conn_run_keeps])
qed

lemma connectEstablished_life: "holds UNIV (connectEstablished acts c) (life c)"
proof -
  let ?c1 = "c\<lparr>cnState := kConnected, cnChannel := tie (cnId c) (cnChannel c)\<rparr>"
  have "life c (chan_interest EnableReading ?c1)" if "cnState c = kConnecting"
    using that by (simp add: life_def closes_def chan_interest_def apply_interest_update tie_def)
  then show ?thesis unfolding connectEstablished_def Let_def
    by (intro holds_any) (auto intro!: holds_mono[OF callback_life] intro: life_trans)
qed

theorem conn_event_life:
  assumes "live_legal ev c"
  shows "holds UNIV (conn_event_do ev c) (life c)"
proof (cases ev)
  case (EvEstablished acts)
  then show ?thesis by (simp add: connectEstablished_life)
next
  case (EvPoll revents io)
  then show ?thesis using poll_life by simp
next
  case (EvCall inLoop a)
  then show ?thesis
    by (cases a) (auto simp: conn_send_def quiet_life quiet_steps intro!: holds_any
        intro: holds_mono[OF sendInLoop_quiet])
next
  case (EvFunctor wr acts)
  have q: "life c (c\<lparr>cnQueue := fs\<rparr>)" for fs by (rule quiet_life[OF quiet_steps(7)])
  show ?thesis using EvFunctor
    by (auto simp: quiet_life quiet_queue quiet_steps Let_def split: list.split conn_functor.split
        intro!: holds_mono[OF sendInLoop_quiet] holds_mono[OF conn_dos_quiet] intro: life_trans[OF q] quiet_life)
qed (use assms in \<open>auto simp: life_def closes_def conn_shutdown_test_def conn_shutdown_set_def queueInLoop_def
      setWriteCompleteCallback_def setHighWaterMarkCallback_def\<close>)

lemma dead_life: "conn_dead c \<Longrightarrow> dead_frame c c' \<Longrightarrow> life c c'"
  by (simp add: conn_dead_def dead_frame_def life_def closes_def)

lemma connectDestroyed_closed:
  assumes "conn_inv c" and "cnState c = kDisconnected"
  shows "\<exists>c'. connectDestroyed acts c = Inr c' \<and> conn_dead c' \<and> life c c'"
  using connectDestroyed_down[OF assms, of acts]
  by (auto simp: conn_finished_def life_def closes_def)

text \<open>Identity and descriptor are kept for good.\<close>

definition same_ids :: "conn \<Rightarrow> conn \<Rightarrow> bool" where
  "same_ids c c' \<longleftrightarrow> cnId c' = cnId c \<and> chFd (cnChannel c') = chFd (cnChannel c)"

lemma connectDestroyed_ids: "holds UNIV (connectDestroyed acts c) (same_ids c)"
proof -
  have cb: "holds UNIV (conn_callback nt acts (chan_interest DisableAll (c\<lparr>cnState := kDisconnected\<rparr>))) (same_ids c)" for nt
    by (rule holds_mono[OF conn_callback_life]) (auto simp: same_ids_def quiet_def)
  show ?thesis unfolding connectDestroyed_def Let_def
    by (rule holds_bindR[where Q = "same_ids c"]) (auto simp: cb same_ids_def intro!: holds_any)
qed

lemma conn_legal_run_ids:
  assumes "conn_ok c" and "conn_legal_run evs c = Some (Inr c')"
  shows "same_ids c c'"
  using assms
proof (induction evs arbitrary: c)
  case (Cons ev evs)
  then obtain c1 where c1: "conn_legal ev c" "conn_event_do ev c = Inr c1" "conn_legal_run evs c1 = Some (Inr c')"
    by (auto split: if_splits sum.splits)
  have ok1: "conn_ok c1" using conn_legal_ok[OF Cons.prems(1) c1(1)] c1(2) by auto
  have "same_ids c c1"
  proof (cases "conn_gone c")
    case True
    then have "conn_dead c" "dead_legal ev"
      using Cons.prems(1) c1(1) by (auto simp: conn_ok_def conn_legal_def conn_finished_def)
    with dead_event c1(2) show ?thesis by (force simp: same_ids_def dead_frame_def)
  next
    case False
    show ?thesis
    proof (cases "is_destroy ev")
      case True
      then show ?thesis using c1(2) holds_InrD[OF connectDestroyed_ids] by (cases ev) auto
    next
      case nd: False
      then have "live_legal ev c" using False c1(1) by (simp add: conn_legal_def)
      from holds_InrD[OF conn_event_life[OF this] c1(2)] show ?thesis by (simp add: life_def same_ids_def)
    qed
  qed
  with Cons.IH[OF ok1 c1(3)] show ?case by (simp add: same_ids_def)
qed (simp add: same_ids_def)

fun is_established_event :: "conn_event \<Rightarrow> bool" where
  "is_established_event (EvEstablished acts) = True"
| "is_established_event ev = False"

text \<open>What an event leads a connection to, as its owner sees it.\<close>

lemma conn_event_summary:
  assumes "if d = 0 then conn_inv c \<and> live_legal ev c else conn_dead c \<and> dead_legal ev"
    and "cnState c = kConnecting \<Longrightarrow> is_established_event ev"
  shows "\<exists>c'. conn_event_do ev c = Inr c' \<and> life c c' \<and> cnState c' \<noteq> kConnecting
    \<and> (if d = 0 then conn_inv c' else conn_dead c')"
proof (cases "d = 0")
  case True
  with assms(1) have c: "conn_inv c" "live_legal ev c" by simp_all
  from conn_event_ok[OF c] obtain c' where c': "conn_event_do ev c = Inr c'" "conn_inv c'" by blast
  have life: "life c c'" by (rule holds_InrD[OF conn_event_life[OF c(2)] c'(1)])
  have "cnState c' \<noteq> kConnecting"
  proof (cases "cnState c = kConnecting")
    case True
    with assms(2) obtain acts where "ev = EvEstablished acts" by (cases ev) auto
    with connectEstablished_ok[OF c(1) True, of acts] c'(1) show ?thesis by auto
  qed (use life in \<open>simp add: life_def\<close>)
  with c' life True show ?thesis by auto
next
  case False
  with assms(1) have d: "conn_dead c" "dead_legal ev" by simp_all
  from dead_event[OF d] show ?thesis using False dead_life[OF d(1)] by (auto simp: dead_frame_def conn_dead_def)
qed

end
