(* ===== verification/EventLoop.thy ===== *)
theory EventLoop
  imports PollerContract
begin

text \<open>
  \<open>muduo::net::EventLoop\<close> (\<open>muduo/net/EventLoop.h\<close>, \<open>EventLoop.cc\<close>): the loop, the functors other
  threads queue in it, and the eventfd that wakes it. \<open>eloop\<close> is the object; the operations are
  functions on it; \<open>el_step\<close> interleaves the loop thread with any number of other threads at the
  granularity of the code's critical sections and system calls (pushing a functor under the
  mutex and writing the eventfd are two steps).
\<close>

subsection \<open>State and operations\<close>

text \<open>Functors are identified by numbers. \<open>elWakeup\<close> is the counter of the eventfd.\<close>

record eloop =
  elThreadId :: int
  elLooping :: bool
  elQuit :: bool
  elEventHandling :: bool
  elCallingPending :: bool
  elIteration :: int
  elActive :: "nat list"
  elCurrent :: "nat option"
  elWakeup :: nat
  elPending :: "nat list"

definition newEventLoop :: "int \<Rightarrow> eloop" where
  "newEventLoop tid = \<lparr>elThreadId = tid, elLooping = False, elQuit = False, elEventHandling = False,
     elCallingPending = False, elIteration = 0, elActive = [], elCurrent = None, elWakeup = 0, elPending = []\<rparr>"

text \<open>The constructor in a thread that already has a loop is fatal.\<close>

definition constructEventLoop :: "int \<Rightarrow> nat option \<Rightarrow> eloop res" where
  "constructEventLoop tid t_loopInThisThread =
     (case t_loopInThisThread of
        Some _ \<Rightarrow> Inl (Aborted ''Another EventLoop exists in this thread'')
      | None \<Rightarrow> Inr (newEventLoop tid))"

definition isInLoopThread :: "int \<Rightarrow> eloop \<Rightarrow> bool" where
  "isInLoopThread cur l \<longleftrightarrow> elThreadId l = cur"

definition el_wakeup :: "eloop \<Rightarrow> eloop" where
  "el_wakeup l = l\<lparr>elWakeup := elWakeup l + 1\<rparr>"

text \<open>Reading the eventfd resets its counter.\<close>

definition el_handleRead :: "eloop \<Rightarrow> eloop" where
  "el_handleRead l = l\<lparr>elWakeup := 0\<rparr>"

definition el_push :: "nat \<Rightarrow> eloop \<Rightarrow> eloop" where
  "el_push f l = l\<lparr>elPending := elPending l @ [f]\<rparr>"

definition el_must_wake :: "int \<Rightarrow> eloop \<Rightarrow> bool" where
  "el_must_wake cur l \<longleftrightarrow> \<not> isInLoopThread cur l \<or> elCallingPending l"

definition el_queueInLoop :: "int \<Rightarrow> nat \<Rightarrow> eloop \<Rightarrow> eloop" where
  "el_queueInLoop cur f l =
     (let l1 = el_push f l in if el_must_wake cur l1 then el_wakeup l1 else l1)"

text \<open>\<open>run f\<close> is the effect of calling the functor.\<close>

definition el_runInLoop :: "int \<Rightarrow> (nat \<Rightarrow> eloop \<Rightarrow> eloop) \<Rightarrow> nat \<Rightarrow> eloop \<Rightarrow> eloop" where
  "el_runInLoop cur run f l = (if isInLoopThread cur l then run f l else el_queueInLoop cur f l)"

definition el_set_quit :: "eloop \<Rightarrow> eloop" where
  "el_set_quit l = l\<lparr>elQuit := True\<rparr>"

definition el_quit :: "int \<Rightarrow> eloop \<Rightarrow> eloop" where
  "el_quit cur l = (let l1 = el_set_quit l in if \<not> isInLoopThread cur l1 then el_wakeup l1 else l1)"

definition el_swap :: "eloop \<Rightarrow> nat list \<times> eloop" where
  "el_swap l = (elPending l, l\<lparr>elCallingPending := True, elPending := []\<rparr>)"

definition el_doPendingFunctors :: "(nat \<Rightarrow> eloop \<Rightarrow> eloop) \<Rightarrow> eloop \<Rightarrow> eloop" where
  "el_doPendingFunctors run l =
     (case el_swap l of (functors, l1) \<Rightarrow> (fold run functors l1)\<lparr>elCallingPending := False\<rparr>)"

definition el_loop_begin :: "int \<Rightarrow> eloop \<Rightarrow> eloop res" where
  "el_loop_begin cur l =
     ensure (\<not> elLooping l) ''loop: !looping_''
     (assertInLoopThread (elThreadId l) cur (Inr (l\<lparr>elLooping := True, elQuit := False\<rparr>)))"

text \<open>One turn of the loop after \<open>poll\<close> returned the channels \<open>active\<close>: \<open>handle c\<close> is the effect of
  \<open>c->handleEvent\<close>.\<close>

definition el_handle_active :: "(nat \<Rightarrow> eloop \<Rightarrow> eloop) \<Rightarrow> nat list \<Rightarrow> eloop \<Rightarrow> eloop" where
  "el_handle_active handle active l =
     (let l1 = l\<lparr>elActive := active, elIteration := elIteration l + 1, elEventHandling := True\<rparr>;
          l2 = fold (\<lambda>c l. handle c (l\<lparr>elCurrent := Some c\<rparr>)) active l1
      in l2\<lparr>elCurrent := None, elEventHandling := False\<rparr>)"

definition el_turn ::
  "(nat \<Rightarrow> eloop \<Rightarrow> eloop) \<Rightarrow> (nat \<Rightarrow> eloop \<Rightarrow> eloop) \<Rightarrow> nat list \<Rightarrow> eloop \<Rightarrow> eloop" where
  "el_turn handle run active l = el_doPendingFunctors run (el_handle_active handle active l)"

text \<open>The loop itself, on the list of what successive \<open>poll\<close> calls return; \<open>None\<close> while it has not
  seen \<open>quit_\<close>.\<close>

fun el_loop_turns ::
  "(nat \<Rightarrow> eloop \<Rightarrow> eloop) \<Rightarrow> (nat \<Rightarrow> eloop \<Rightarrow> eloop) \<Rightarrow> nat list list \<Rightarrow> eloop \<Rightarrow> eloop option" where
  "el_loop_turns handle run polls l =
     (if elQuit l then Some (l\<lparr>elLooping := False\<rparr>)
      else case polls of
             [] \<Rightarrow> None
           | active # polls' \<Rightarrow> el_loop_turns handle run polls' (el_turn handle run active l))"

declare el_loop_turns.simps [simp del]

text \<open>The channel operations' own checks; the poller is called after them. \<open>owned\<close> says whether
  \<open>channel->ownerLoop() == this\<close>.\<close>

definition el_updateChannel :: "int \<Rightarrow> bool \<Rightarrow> 'a res \<Rightarrow> eloop \<Rightarrow> 'a res" where
  "el_updateChannel cur owned poller l =
     ensure owned ''updateChannel: ownerLoop() == this'' (assertInLoopThread (elThreadId l) cur poller)"

definition el_removeChannel :: "int \<Rightarrow> bool \<Rightarrow> nat \<Rightarrow> 'a res \<Rightarrow> eloop \<Rightarrow> 'a res" where
  "el_removeChannel cur owned c poller l =
     ensure owned ''removeChannel: ownerLoop() == this''
     (assertInLoopThread (elThreadId l) cur
     (if elEventHandling l
      then ensure (elCurrent l = Some c \<or> c \<notin> set (elActive l)) ''removeChannel: currentActiveChannel_'' poller
      else poller))"

subsection \<open>Interleaving with other threads\<close>

text \<open>Where the loop thread is: before \<open>loop()\<close>, in \<open>poll\<close>, handling the active channels (with the
  wakeup channel still to be read or not), running swapped-out functors, or done.\<close>

datatype loop_pc = PcStart | PcPoll | PcHandle bool | PcRun "nat list" | PcDone

text \<open>\<open>wdWakers\<close> counts the other threads that have pushed a functor (or set \<open>quit_\<close>) and have not
  yet written the eventfd. \<open>wdQueued\<close> and \<open>wdRan\<close> record the functors in the order they were
  pushed and run, \<open>wdEarly\<close> those that the loop's own thread queued before it called \<open>loop()\<close>.\<close>

record eworld =
  wdLoop :: eloop
  wdPc :: loop_pc
  wdWakers :: nat
  wdQueued :: "nat list"
  wdRan :: "nat list"
  wdEarly :: "nat list"

definition world_init :: "int \<Rightarrow> eworld \<Rightarrow> bool" where
  "world_init tid w \<longleftrightarrow> w = \<lparr>wdLoop = newEventLoop tid, wdPc = PcStart, wdWakers = 0, wdQueued = [], wdRan = [],
     wdEarly = []\<rparr>"

text \<open>Functors and callbacks in the loop thread may queue further functors and quit, and so may what the
  thread does before \<open>loop()\<close>.\<close>

definition loop_acts :: "int \<Rightarrow> nat list \<Rightarrow> bool \<Rightarrow> eworld \<Rightarrow> eworld" where
  "loop_acts tid fs q w =
     w\<lparr>wdLoop := (let l = fold (el_queueInLoop tid) fs (wdLoop w) in if q then el_quit tid l else l),
       wdQueued := wdQueued w @ fs\<rparr>"

inductive el_step :: "int \<Rightarrow> eworld \<Rightarrow> eworld \<Rightarrow> bool" for tid :: int where
  other_push: "el_step tid w (w\<lparr>wdLoop := el_push f (wdLoop w), wdWakers := wdWakers w + 1, wdQueued := wdQueued w @ [f]\<rparr>)"
| other_quit: "el_step tid w (w\<lparr>wdLoop := el_set_quit (wdLoop w), wdWakers := wdWakers w + 1\<rparr>)"
| other_wakeup: "0 < wdWakers w \<Longrightarrow> el_step tid w (w\<lparr>wdLoop := el_wakeup (wdLoop w), wdWakers := wdWakers w - 1\<rparr>)"
| loop_early: "wdPc w = PcStart \<Longrightarrow> el_step tid w ((loop_acts tid fs q w)\<lparr>wdEarly := wdEarly w @ fs\<rparr>)"
| loop_start: "wdPc w = PcStart \<Longrightarrow> el_loop_begin tid (wdLoop w) = Inr l \<Longrightarrow> el_step tid w (w\<lparr>wdLoop := l, wdPc := PcPoll\<rparr>)"
| loop_poll: "wdPc w = PcPoll \<Longrightarrow> el_step tid w (w\<lparr>wdPc := PcHandle (0 < elWakeup (wdLoop w))\<rparr>)"
| loop_read: "wdPc w = PcHandle True \<Longrightarrow> el_step tid w (w\<lparr>wdLoop := el_handleRead (wdLoop w), wdPc := PcHandle False\<rparr>)"
| loop_callback: "wdPc w = PcHandle b \<Longrightarrow> el_step tid w (loop_acts tid fs q w)"
| loop_swap: "wdPc w = PcHandle False \<Longrightarrow> el_swap (wdLoop w) = (fs, l) \<Longrightarrow> el_step tid w (w\<lparr>wdLoop := l, wdPc := PcRun fs\<rparr>)"
| loop_functor: "wdPc w = PcRun (f # fs) \<Longrightarrow>
    el_step tid w ((loop_acts tid gs q w)\<lparr>wdPc := PcRun fs, wdRan := wdRan w @ [f]\<rparr>)"
| loop_turn: "wdPc w = PcRun [] \<Longrightarrow>
    el_step tid w (w\<lparr>wdLoop := (wdLoop w)\<lparr>elCallingPending := False\<rparr>, wdPc := if elQuit (wdLoop w) then PcDone else PcPoll\<rparr>)"

inductive_cases el_stepE: "el_step tid w w'"

subsection \<open>Invariant\<close>

fun running :: "loop_pc \<Rightarrow> nat list" where
  "running (PcRun fs) = fs"
| "running pc = []"

text \<open>From the swap until \<open>poll\<close> returns next, whatever is pending has its wake-up on the way, unless the
  only functors so far are those the loop's thread queued before \<open>loop()\<close>.\<close>

definition el_inv :: "int \<Rightarrow> eworld \<Rightarrow> bool" where
  "el_inv tid w \<longleftrightarrow> elThreadId (wdLoop w) = tid
   \<and> wdRan w @ running (wdPc w) @ elPending (wdLoop w) = wdQueued w
   \<and> (elCallingPending (wdLoop w) \<longleftrightarrow> (\<exists>fs. wdPc w = PcRun fs))
   \<and> (elLooping (wdLoop w) \<longleftrightarrow> wdPc w \<noteq> PcStart)
   \<and> (wdPc w = PcStart \<longrightarrow> wdRan w = []) \<and> length (wdEarly w) \<le> length (wdQueued w)
   \<and> (wdPc w \<in> {PcStart, PcPoll} \<union> range PcRun \<longrightarrow> elPending (wdLoop w) \<noteq> [] \<longrightarrow> wdQueued w \<noteq> wdEarly w \<longrightarrow>
        0 < elWakeup (wdLoop w) + wdWakers w)
   \<and> (wdPc w = PcPoll \<longrightarrow> elQuit (wdLoop w) \<longrightarrow> 0 < elWakeup (wdLoop w) + wdWakers w)"

lemma queue_fold:
  "elThreadId l = tid \<Longrightarrow> fold (el_queueInLoop tid) fs l
     = l\<lparr>elPending := elPending l @ fs, elWakeup := elWakeup l + (if elCallingPending l then length fs else 0)\<rparr>"
  by (induction fs arbitrary: l)
     (auto simp: el_queueInLoop_def el_push_def el_must_wake_def isInLoopThread_def el_wakeup_def Let_def)

lemma loop_acts_eq:
  assumes "elThreadId (wdLoop w) = tid"
  shows "loop_acts tid fs q w = w\<lparr>wdLoop := (wdLoop w)\<lparr>elPending := elPending (wdLoop w) @ fs,
      elWakeup := elWakeup (wdLoop w) + (if elCallingPending (wdLoop w) then length fs else 0),
      elQuit := elQuit (wdLoop w) \<or> q\<rparr>, wdQueued := wdQueued w @ fs\<rparr>"
  using assms by (simp add: loop_acts_def queue_fold el_quit_def el_set_quit_def isInLoopThread_def Let_def)

lemma el_init_inv: "world_init tid w \<Longrightarrow> el_inv tid w"
  by (auto simp: world_init_def el_inv_def newEventLoop_def)

lemma el_step_inv:
  assumes "el_inv tid w" "el_step tid w w'"
  shows "el_inv tid w'"
  using assms(2,1)
proof (cases rule: el_step.cases)
  case (loop_early fs q)
  have "elPending (wdLoop w) = wdQueued w" "elThreadId (wdLoop w) = tid" "\<not> elCallingPending (wdLoop w)"
    using assms(1) loop_early(2) by (auto simp: el_inv_def)
  with assms(1) loop_early loop_acts_eq[of w tid] show ?thesis by (auto simp: el_inv_def)
next
  case (loop_callback b fs q)
  with assms(1) loop_acts_eq[of w tid] show ?thesis by (auto simp: el_inv_def)
next
  case (loop_functor f fs gs q)
  with assms(1) loop_acts_eq[of w tid] show ?thesis by (auto simp: el_inv_def)
next
  case (loop_start l)
  with assms(1) show ?thesis
    by (auto simp: el_inv_def el_loop_begin_def ensure_eq_Inr)
next
  case (loop_swap fs l)
  with assms(1) show ?thesis by (auto simp: el_inv_def el_swap_def)
qed (auto simp: el_inv_def el_push_def el_set_quit_def el_wakeup_def el_handleRead_def)

lemma el_reach_inv: "reach (world_init tid) (el_step tid) w \<Longrightarrow> el_inv tid w"
  by (erule reach_invariant) (auto intro: el_init_inv el_step_inv)

subsection \<open>Properties\<close>

text \<open>
  Property C15. Functors run in the order they were queued, none is lost and none runs twice: at any
  moment, under any interleaving of any number of threads, the functors run so far, followed by
  those being run and those waiting, are exactly the functors queued so far, in that order.
\<close>

theorem functors_fifo:
  assumes "reach (world_init tid) (el_step tid) w"
  shows "wdRan w @ running (wdPc w) @ elPending (wdLoop w) = wdQueued w"
  using el_reach_inv[OF assms] by (simp add: el_inv_def)

text \<open>A run in which another thread queues a functor before the loop starts and the loop runs it.\<close>

definition demo_world :: "loop_pc \<Rightarrow> nat \<Rightarrow> nat \<Rightarrow> nat list \<Rightarrow> nat list \<Rightarrow> bool \<Rightarrow> nat list \<Rightarrow> eworld" where
  "demo_world pc wk ef pend fin looping queued =
     \<lparr>wdLoop = (newEventLoop 1)\<lparr>elLooping := looping, elWakeup := ef, elPending := pend,
        elCallingPending := (\<exists>fs. pc = PcRun fs)\<rparr>,
      wdPc = pc, wdWakers = wk, wdQueued = queued, wdRan = fin, wdEarly = []\<rparr>"

lemma demo_reach:
  "reach (world_init 1) (el_step 1) (demo_world PcPoll 1 0 [7] [] True [7])"
  "reach (world_init 1) (el_step 1) (demo_world (PcRun []) 1 0 [] [7] True [7])"
proof -
  have 0: "reach (world_init 1) (el_step 1) (demo_world PcStart 0 0 [] [] False [])"
    by (rule reach_init) (simp add: world_init_def demo_world_def newEventLoop_def)
  have 1: "reach (world_init 1) (el_step 1) (demo_world PcStart 1 0 [7] [] False [7])"
    using reach_step[OF 0 other_push[of 1 _ 7]] by (simp add: demo_world_def el_push_def newEventLoop_def)
  have b: "el_loop_begin 1 (wdLoop (demo_world PcStart 1 0 [7] [] False [7])) = Inr (wdLoop (demo_world PcPoll 1 0 [7] [] True [7]))"
    by (simp add: el_loop_begin_def demo_world_def newEventLoop_def)
  show 2: "reach (world_init 1) (el_step 1) (demo_world PcPoll 1 0 [7] [] True [7])"
    using reach_step[OF 1 loop_start[OF _ b]] by (simp add: demo_world_def newEventLoop_def)
  have 3: "reach (world_init 1) (el_step 1) (demo_world (PcHandle False) 1 0 [7] [] True [7])"
    using reach_step[OF 2 loop_poll] by (simp add: demo_world_def newEventLoop_def)
  have sw: "el_swap (wdLoop (demo_world (PcHandle False) 1 0 [7] [] True [7])) = ([7], wdLoop (demo_world (PcRun [7]) 1 0 [] [] True [7]))"
    by (simp add: el_swap_def demo_world_def newEventLoop_def)
  have 4: "reach (world_init 1) (el_step 1) (demo_world (PcRun [7]) 1 0 [] [] True [7])"
    using reach_step[OF 3 loop_swap[OF _ sw]] by (simp add: demo_world_def newEventLoop_def)
  show "reach (world_init 1) (el_step 1) (demo_world (PcRun []) 1 0 [] [7] True [7])"
    using reach_step[OF 4 loop_functor[of _ 7 "[]" 1 "[]" False]]
    by (simp add: demo_world_def newEventLoop_def loop_acts_def)
qed

theorem functors_fifo_witness:
  "\<exists>w. reach (world_init 1) (el_step 1) w \<and> wdRan w = [7]
     \<and> wdRan w @ running (wdPc w) @ elPending (wdLoop w) = wdQueued w"
  using functors_fifo[OF demo_reach(2)] demo_reach(2) by (auto simp: demo_world_def)

text \<open>
  Property C16. No lost wake-up: whenever the loop thread is about to block in \<open>poll\<close> while a functor
  is pending, or after another thread asked it to quit, the eventfd is readable or a thread is on
  its way to write it, so \<open>poll\<close> returns; this covers functors queued by functors, for which
  the code writes the eventfd from the loop thread itself. The exception is the first \<open>poll\<close> when all the
  functors queued so far were queued by the loop's own thread before it called \<open>loop()\<close>.
\<close>

theorem no_lost_wakeup:
  assumes "reach (world_init tid) (el_step tid) w" "wdPc w = PcPoll"
    and "elPending (wdLoop w) \<noteq> [] \<and> wdQueued w \<noteq> wdEarly w \<or> elQuit (wdLoop w)"
  shows "0 < elWakeup (wdLoop w) \<or> 0 < wdWakers w"
  using el_reach_inv[OF assms(1)] assms(2,3) by (auto simp: el_inv_def)

theorem no_lost_wakeup_witness:
  "\<exists>w. reach (world_init 1) (el_step 1) w \<and> elPending (wdLoop w) = [7]
     \<and> (0 < elWakeup (wdLoop w) \<or> 0 < wdWakers w)"
proof -
  let ?w = "demo_world PcPoll 1 0 [7] [] True [7]"
  have "0 < elWakeup (wdLoop ?w) \<or> 0 < wdWakers ?w"
    by (rule no_lost_wakeup[OF demo_reach(1)]) (simp_all add: demo_world_def)
  with demo_reach(1) show ?thesis by (intro exI[of _ ?w]) (simp add: demo_world_def)
qed

text \<open>A \<open>quit()\<close> that comes before \<open>loop()\<close> is forgotten: \<open>loop()\<close> clears the flag.\<close>

lemma quit_before_loop_is_lost:
  "\<not> elLooping l \<Longrightarrow> elThreadId l = tid \<Longrightarrow> \<exists>l'. el_loop_begin tid (el_quit cur l) = Inr l' \<and> \<not> elQuit l'"
  by (auto simp: el_loop_begin_def el_quit_def el_set_quit_def el_wakeup_def Let_def)

text \<open>The exception: a functor that the loop's thread queued before \<open>loop()\<close> waits in the first \<open>poll\<close>, with
  nothing to end it but an event or its timeout.\<close>

lemma early_functor_waits:
  "\<exists>w. reach (world_init 1) (el_step 1) w \<and> wdPc w = PcPoll \<and> elPending (wdLoop w) = [7]
     \<and> elWakeup (wdLoop w) = 0 \<and> wdWakers w = 0"
proof -
  let ?w0 = "demo_world PcStart 0 0 [] [] False []"
  have 0: "reach (world_init 1) (el_step 1) ?w0"
    by (rule reach_init) (simp add: world_init_def demo_world_def newEventLoop_def)
  let ?w1 = "(demo_world PcStart 0 0 [7] [] False [7])\<lparr>wdEarly := [7]\<rparr>"
  have 1: "reach (world_init 1) (el_step 1) ?w1"
    using reach_step[OF 0 loop_early[of _ 1 "[7]" False]]
    by (simp add: demo_world_def newEventLoop_def loop_acts_def el_queueInLoop_def el_push_def el_must_wake_def isInLoopThread_def)
  have b: "el_loop_begin 1 (wdLoop ?w1) = Inr (wdLoop (demo_world PcPoll 0 0 [7] [] True [7]))"
    by (simp add: el_loop_begin_def demo_world_def newEventLoop_def)
  have "reach (world_init 1) (el_step 1) ((demo_world PcPoll 0 0 [7] [] True [7])\<lparr>wdEarly := [7]\<rparr>)"
    using reach_step[OF 1 loop_start[OF _ b]] by (simp add: demo_world_def newEventLoop_def)
  then show ?thesis by (intro exI[of _ "(demo_world PcPoll 0 0 [7] [] True [7])\<lparr>wdEarly := [7]\<rparr>"]) (simp add: demo_world_def newEventLoop_def)
qed

end
