(* ===== verification/Connector.thy ===== *)
theory Connector
  imports PollerContract
begin

text \<open>
  \<open>muduo::net::Connector\<close> (\<open>muduo/net/Connector.h\<close>, \<open>Connector.cc\<close>): active connect with retry and
  exponential back-off. What \<open>socket\<close>, \<open>connect\<close> and \<open>getsockopt(SO_ERROR)\<close> return are arguments.
  The descriptors the connector owns are \<open>coOpen\<close>; \<open>coQueue\<close> holds its functors waiting in the
  loop, \<open>coTimers\<close> counts its retry timers that have not fired, \<open>coRetries\<close> records the delays
  asked for since the last \<open>restart\<close>, \<open>coNew\<close> the descriptors given to the new-connection callback.
\<close>

datatype co_state = CoDisconnected | CoConnecting | CoConnected

datatype co_functor = FStartInLoop | FStopInLoop | FResetChannel

record connector =
  coConnect :: bool
  coState :: co_state
  coChannel :: "channel option"
  coDelay :: int
  coQueue :: "co_functor list"
  coTimers :: nat
  coRetries :: "int list"
  coOpen :: "int set"
  coBadClose :: bool
  coNew :: "int list"

definition kMaxRetryDelayMs :: int where "kMaxRetryDelayMs = 30 * 1000"
definition kInitRetryDelayMs :: int where "kInitRetryDelayMs = 500"

definition newConnector :: connector where
  "newConnector = \<lparr>coConnect = False, coState = CoDisconnected, coChannel = None, coDelay = kInitRetryDelayMs,
     coQueue = [], coTimers = 0, coRetries = [], coOpen = {}, coBadClose = False, coNew = []\<rparr>"

definition destroyConnector :: "connector \<Rightarrow> unit res" where
  "destroyConnector c = ensure (coChannel c = None) ''~Connector: !channel_'' (Inr ())"

text \<open>What one attempt meets: the descriptor \<open>socket\<close> returned, the error number of \<open>connect\<close> (0 for
  success), the pending socket error and whether the socket is connected to itself.\<close>

record attempt =
  atSockfd :: int
  atErrno :: int
  atSoError :: int
  atSelf :: bool

definition co_close :: "int \<Rightarrow> connector \<Rightarrow> connector" where
  "co_close fd c = c\<lparr>coOpen := coOpen c - {fd}, coBadClose := coBadClose c \<or> fd \<notin> coOpen c\<rparr>"

definition retry :: "int \<Rightarrow> connector \<Rightarrow> connector" where
  "retry sockfd c =
     (let c1 = (co_close sockfd c)\<lparr>coState := CoDisconnected\<rparr>
      in if coConnect c1
         then c1\<lparr>coTimers := coTimers c1 + 1, coRetries := coRetries c1 @ [coDelay c1],
                 coDelay := min (coDelay c1 * 2) kMaxRetryDelayMs\<rparr>
         else c1)"

definition connecting :: "int \<Rightarrow> connector \<Rightarrow> connector res" where
  "connecting sockfd c =
     (let c1 = c\<lparr>coState := CoConnecting\<rparr>
      in ensure (coChannel c1 = None) ''connecting: !channel_''
        (let ch = (newChannel sockfd)\<lparr>hasWriteCallback := True, hasErrorCallback := True\<rparr>
         in Inr (c1\<lparr>coChannel := Some (events_enableWriting ch)\<rparr>)))"

text \<open>Linux error numbers.\<close>

definition errno_connecting :: "int set" where
  "errno_connecting = {0, 115, 4, 106}"   \<comment> \<open>0, EINPROGRESS, EINTR, EISCONN\<close>

definition errno_retry :: "int set" where
  "errno_retry = {11, 98, 99, 111, 101}"  \<comment> \<open>EAGAIN, EADDRINUSE, EADDRNOTAVAIL, ECONNREFUSED, ENETUNREACH\<close>

definition co_connect :: "attempt \<Rightarrow> connector \<Rightarrow> connector res" where
  "co_connect a c =
     (let sockfd = atSockfd a; c1 = c\<lparr>coOpen := insert sockfd (coOpen c)\<rparr>; savedErrno = atErrno a
      in if savedErrno \<in> errno_connecting then connecting sockfd c1
         else if savedErrno \<in> errno_retry then Inr (retry sockfd c1)
         else Inr (co_close sockfd c1))"

definition startInLoop :: "attempt \<Rightarrow> connector \<Rightarrow> connector res" where
  "startInLoop a c =
     ensure (coState c = CoDisconnected) ''startInLoop: state_ == kDisconnected''
     (if coConnect c then co_connect a c else Inr c)"

definition co_start :: "bool \<Rightarrow> attempt \<Rightarrow> connector \<Rightarrow> connector res" where
  "co_start inLoop a c =
     (let c1 = c\<lparr>coConnect := True\<rparr>
      in if inLoop then startInLoop a c1 else Inr (c1\<lparr>coQueue := coQueue c1 @ [FStartInLoop]\<rparr>))"

definition removeAndResetChannel :: "connector \<Rightarrow> (int \<times> connector) res" where
  "removeAndResetChannel c =
     (case coChannel c of
        None \<Rightarrow> Inl (BadAccess ''removeAndResetChannel: channel_'')
      | Some ch \<Rightarrow>
          let ch1 = events_disableAll ch
          in ensure (isNoneEvent ch1) ''Channel::remove: isNoneEvent()''
            (Inr (chFd ch1, c\<lparr>coChannel := Some ch1, coQueue := coQueue c @ [FResetChannel]\<rparr>)))"

definition resetChannel :: "connector \<Rightarrow> connector" where
  "resetChannel c = c\<lparr>coChannel := None\<rparr>"

definition stopInLoop :: "connector \<Rightarrow> connector res" where
  "stopInLoop c =
     (if coState c = CoConnecting
      then bindR (removeAndResetChannel (c\<lparr>coState := CoDisconnected\<rparr>)) (\<lambda>(sockfd, c1). Inr (retry sockfd c1))
      else Inr c)"

definition co_stop :: "bool \<Rightarrow> connector \<Rightarrow> connector res" where
  "co_stop inLoop c =
     (let c1 = c\<lparr>coConnect := False\<rparr>
      in if inLoop then stopInLoop c1 else Inr (c1\<lparr>coQueue := coQueue c1 @ [FStopInLoop]\<rparr>))"

definition co_restart :: "attempt \<Rightarrow> connector \<Rightarrow> connector res" where
  "co_restart a c =
     startInLoop a (c\<lparr>coState := CoDisconnected, coDelay := kInitRetryDelayMs, coRetries := [], coConnect := True\<rparr>)"

definition co_handleWrite :: "attempt \<Rightarrow> connector \<Rightarrow> connector res" where
  "co_handleWrite a c =
     (if coState c = CoConnecting then
        bindR (removeAndResetChannel c) (\<lambda>(sockfd, c1).
        if atSoError a \<noteq> 0 then Inr (retry sockfd c1)
        else if atSelf a then Inr (retry sockfd c1)
        else let c2 = c1\<lparr>coState := CoConnected\<rparr>
             in if coConnect c2
                then Inr (c2\<lparr>coNew := coNew c2 @ [sockfd], coOpen := coOpen c2 - {sockfd}\<rparr>)
                else Inr (co_close sockfd c2))
      else ensure (coState c = CoDisconnected) ''handleWrite: state_ == kDisconnected'' (Inr c))"

definition co_handleError :: "connector \<Rightarrow> connector res" where
  "co_handleError c =
     ensure (coState c = CoConnecting) ''handleError: state_ == kConnecting''
     (bindR (removeAndResetChannel c) (\<lambda>(sockfd, c1). Inr (retry sockfd c1)))"

subsection \<open>Events\<close>

datatype co_event =
    CoStart bool attempt
  | CoStop bool
  | CoRestart attempt
  | CoTimer attempt
  | CoWritable attempt
  | CoError
  | CoFunctor attempt

text \<open>\<open>CoTimer\<close>: a retry timer fires. \<open>CoWritable\<close> and \<open>CoError\<close>: the channel's callbacks. \<open>CoFunctor\<close>:
  the loop runs the oldest functor.\<close>

fun co_event_do :: "co_event \<Rightarrow> connector \<Rightarrow> connector res" where
  "co_event_do (CoStart inLoop a) c = co_start inLoop a c"
| "co_event_do (CoStop inLoop) c = co_stop inLoop c"
| "co_event_do (CoRestart a) c = co_restart a c"
| "co_event_do (CoTimer a) c = startInLoop a (c\<lparr>coTimers := coTimers c - 1\<rparr>)"
| "co_event_do (CoWritable a) c = co_handleWrite a c"
| "co_event_do CoError c = co_handleError c"
| "co_event_do (CoFunctor a) c =
     (case coQueue c of
        [] \<Rightarrow> Inr c
      | FStartInLoop # fs \<Rightarrow> startInLoop a (c\<lparr>coQueue := fs\<rparr>)
      | FStopInLoop # fs \<Rightarrow> stopInLoop (c\<lparr>coQueue := fs\<rparr>)
      | FResetChannel # fs \<Rightarrow> Inr (resetChannel (c\<lparr>coQueue := fs\<rparr>)))"

text \<open>When the owner and the loop deliver them: \<open>start\<close> on an idle connector with no retry pending,
  \<open>restart\<close> when the connection made is gone, timers and channel events only after the functors
  of the previous turn have run (so the old channel object is gone), an error event only while
  the channel is registered, a write event then or right after the error event of the same
  dispatch, and a descriptor from \<open>socket\<close> that is not open.\<close>

definition co_idle :: "connector \<Rightarrow> bool" where
  "co_idle c \<longleftrightarrow> coTimers c = 0 \<and> coChannel c = None \<and> FResetChannel \<notin> set (coQueue c) \<and> FStartInLoop \<notin> set (coQueue c)"

fun co_legal :: "co_event \<Rightarrow> connector \<Rightarrow> bool" where
  "co_legal (CoStart inLoop a) c \<longleftrightarrow> coState c = CoDisconnected \<and> co_idle c \<and> atSockfd a \<notin> coOpen c"
| "co_legal (CoStop inLoop) c \<longleftrightarrow> True"
| "co_legal (CoRestart a) c \<longleftrightarrow> coState c = CoConnected \<and> co_idle c \<and> atSockfd a \<notin> coOpen c"
| "co_legal (CoTimer a) c \<longleftrightarrow> 0 < coTimers c \<and> FResetChannel \<notin> set (coQueue c) \<and> atSockfd a \<notin> coOpen c"
| "co_legal (CoWritable a) c \<longleftrightarrow> coState c \<noteq> CoConnected"
| "co_legal CoError c \<longleftrightarrow> coState c = CoConnecting"
| "co_legal (CoFunctor a) c \<longleftrightarrow> atSockfd a \<notin> coOpen c"

fun co_legal_run :: "co_event list \<Rightarrow> connector \<Rightarrow> connector res option" where
  "co_legal_run [] c = Some (Inr c)"
| "co_legal_run (ev # evs) c =
     (if co_legal ev c
      then (case co_event_do ev c of Inl e \<Rightarrow> Some (Inl e) | Inr c' \<Rightarrow> co_legal_run evs c')
      else None)"

subsection \<open>Invariant\<close>

lemma isNoneEvent_disableAll [simp]: "isNoneEvent (events_disableAll ch)"
  by (simp add: isNoneEvent_def events_disableAll_def)

text \<open>One attempt at a time: connecting means one channel, one open descriptor, nothing else on its
  way; a switched-off channel waits for its reset; at most one of a retry timer and a queued
  start will start the next attempt.\<close>

definition co_phase :: "connector \<Rightarrow> bool" where
  "co_phase c \<longleftrightarrow> \<not> coBadClose c
   \<and> (if coState c = CoConnecting
      then (\<exists>ch. coChannel c = Some ch \<and> coOpen c = {chFd ch}) \<and> coTimers c = 0
         \<and> FStartInLoop \<notin> set (coQueue c) \<and> FResetChannel \<notin> set (coQueue c)
      else coOpen c = {} \<and> (coChannel c \<noteq> None \<longleftrightarrow> FResetChannel \<in> set (coQueue c)))
   \<and> count_list (coQueue c) FResetChannel \<le> 1
   \<and> coTimers c + count_list (coQueue c) FStartInLoop \<le> 1
   \<and> (FStartInLoop \<in> set (coQueue c) \<longrightarrow> coState c = CoDisconnected \<and> FResetChannel \<notin> set (coQueue c))
   \<and> (coState c = CoConnected \<longrightarrow> coTimers c = 0)"

text \<open>The delays asked for so far, and the one to ask for next.\<close>

definition co_backoff :: "connector \<Rightarrow> bool" where
  "co_backoff c \<longleftrightarrow> coDelay c = min (kInitRetryDelayMs * 2 ^ length (coRetries c)) kMaxRetryDelayMs
   \<and> coRetries c = map (\<lambda>k. min (kInitRetryDelayMs * 2 ^ k) kMaxRetryDelayMs) [0..<length (coRetries c)]"

lemma newConnector_inv: "co_phase newConnector" "co_backoff newConnector"
  by (simp_all add: co_phase_def co_backoff_def newConnector_def kInitRetryDelayMs_def kMaxRetryDelayMs_def)

lemma min_doubling:
  fixes a b :: int
  assumes "0 \<le> a" and "0 \<le> b"
  shows "min (min a b * 2) b = min (2 * a) b"
  using assms by (auto simp: min_def)

lemma retry_backoff: "co_backoff c \<Longrightarrow> co_backoff (retry fd c)"
  unfolding co_backoff_def retry_def Let_def co_close_def
  by (simp add: min_doubling kInitRetryDelayMs_def kMaxRetryDelayMs_def)

lemma co_backoff_cong:
  "coDelay c' = coDelay c \<Longrightarrow> coRetries c' = coRetries c \<Longrightarrow> co_backoff c \<Longrightarrow> co_backoff c'"
  by (simp add: co_backoff_def)

lemma removeAndResetChannel_backoff:
  "removeAndResetChannel c = Inr (fd, c') \<Longrightarrow> co_backoff c \<Longrightarrow> co_backoff c'"
  by (auto simp: removeAndResetChannel_def Let_def ensure_def co_backoff_def split: option.splits if_splits)

lemma startInLoop_backoff:
  assumes "co_backoff c"
  shows "holds UNIV (startInLoop a c) co_backoff"
  unfolding startInLoop_def co_connect_def connecting_def Let_def
  using assms by (intro holds_any) (auto simp: co_close_def intro!: retry_backoff intro: co_backoff_cong)

lemma co_event_backoff:
  assumes "co_backoff c" and "co_event_do ev c = Inr c'"
  shows "co_backoff c'"
proof -
  have close: "co_backoff d \<Longrightarrow> co_backoff (co_close fd d)" for fd d
    by (simp add: co_backoff_def co_close_def)
  have start: "holds UNIV (startInLoop a d) co_backoff" if "coDelay d = coDelay c" "coRetries d = coRetries c" for a d
    by (rule startInLoop_backoff, rule co_backoff_cong[OF that assms(1)])
  have stop: "holds UNIV (stopInLoop d) co_backoff" if "coDelay d = coDelay c" "coRetries d = coRetries c" for d
  proof -
    have "co_backoff (d\<lparr>coState := CoDisconnected\<rparr>)" "co_backoff d"
      using co_backoff_cong[OF _ _ assms(1)] that by simp_all
    then show ?thesis unfolding stopInLoop_def
      by (intro holds_any) (auto intro!: retry_backoff dest: removeAndResetChannel_backoff)
  qed
  have "holds UNIV (co_event_do ev c) co_backoff"
  proof (cases ev)
    case (CoStart inLoop a)
    then show ?thesis using assms(1) start by (simp add: co_start_def Let_def co_backoff_def)
  next
    case (CoStop inLoop)
    then show ?thesis using assms(1) stop by (simp add: co_stop_def Let_def co_backoff_def)
  next
    case (CoRestart a)
    then show ?thesis
      by (simp add: co_restart_def startInLoop_backoff co_backoff_def kInitRetryDelayMs_def kMaxRetryDelayMs_def)
  next
    case (CoTimer a)
    then show ?thesis using start by simp
  next
    case (CoWritable a)
    have "holds UNIV (co_handleWrite a c) co_backoff"
      unfolding co_handleWrite_def Let_def split_beta
      by (intro holds_any; (use assms(1) in simp)?)
        (auto dest!: removeAndResetChannel_backoff[OF _ assms(1)] intro!: retry_backoff close intro: co_backoff_cong)
    with CoWritable show ?thesis by simp
  next
    case CoError
    have "holds UNIV (co_handleError c) co_backoff"
      unfolding co_handleError_def split_beta
      by (intro holds_any) (auto dest!: removeAndResetChannel_backoff[OF _ assms(1)] intro!: retry_backoff)
    with CoError show ?thesis by simp
  next
    case (CoFunctor a)
    then show ?thesis using start stop assms(1)
      by (auto simp: resetChannel_def co_backoff_def split: list.split co_functor.split)
  qed
  with assms(2) show ?thesis by simp
qed

lemma startInLoop_phase:
  assumes "coState c = CoDisconnected" "coOpen c = {}" "coChannel c = None" "\<not> coBadClose c" "coTimers c = 0"
    and "FStartInLoop \<notin> set (coQueue c)" "FResetChannel \<notin> set (coQueue c)"
  shows "holds {} (startInLoop a c) co_phase"
  using assms by (auto simp: startInLoop_def co_connect_def connecting_def retry_def co_close_def Let_def co_phase_def
      newChannel_def events_defs count_list_0_iff)

text \<open>Giving the attempt up: the descriptor is closed once and the channel waits for its reset.\<close>

lemma removeAndResetChannel_Some:
  "coChannel c = Some ch \<Longrightarrow> removeAndResetChannel c
     = Inr (chFd ch, c\<lparr>coChannel := Some (events_disableAll ch), coQueue := coQueue c @ [FResetChannel]\<rparr>)"
  by (simp add: removeAndResetChannel_def events_disableAll_def isNoneEvent_def Let_def)

lemma connecting_phaseE:
  assumes "co_phase c" "coState c = CoConnecting"
  obtains ch where "coChannel c = Some ch" "coOpen c = {chFd ch}" "coTimers c = 0" "\<not> coBadClose c"
    "FStartInLoop \<notin> set (coQueue c)" "FResetChannel \<notin> set (coQueue c)"
  using assms by (auto simp: co_phase_def)

lemma retry_phase:
  assumes "coOpen c = {fd}" "coTimers c = 0" "\<not> coBadClose c" "coChannel c = Some ch"
    "coQueue c = q @ [FResetChannel]" "FStartInLoop \<notin> set q" "FResetChannel \<notin> set q"
  shows "co_phase (retry fd c)"
  using assms by (simp add: co_phase_def retry_def co_close_def Let_def count_list_0_iff)

lemma stopInLoop_phase:
  assumes "co_phase c"
  shows "holds {} (stopInLoop c) co_phase"
proof (cases "coState c = CoConnecting")
  case True
  show ?thesis
    by (rule connecting_phaseE[OF assms True], simp add: stopInLoop_def True removeAndResetChannel_Some,
        rule retry_phase) simp_all
qed (use assms in \<open>simp add: stopInLoop_def\<close>)

lemma co_handleWrite_phase:
  assumes c: "co_phase c" and st: "coState c \<noteq> CoConnected"
  shows "holds {} (co_handleWrite a c) co_phase"
proof (cases "coState c = CoConnecting")
  case True
  obtain ch where ch: "coChannel c = Some ch" "coOpen c = {chFd ch}" "coTimers c = 0" "\<not> coBadClose c"
    "FStartInLoop \<notin> set (coQueue c)" "FResetChannel \<notin> set (coQueue c)"
    using connecting_phaseE[OF c True] by blast
  let ?c = "c\<lparr>coChannel := Some (events_disableAll ch), coQueue := coQueue c @ [FResetChannel]\<rparr>"
  have "co_phase (retry (chFd ch) ?c)" using ch by (intro retry_phase) auto
  moreover have "co_phase (?c\<lparr>coState := CoConnected, coNew := coNew c @ [chFd ch], coOpen := {}\<rparr>)"
    "co_phase (co_close (chFd ch) (?c\<lparr>coState := CoConnected\<rparr>))"
    using ch by (simp_all add: co_phase_def co_close_def count_list_0_iff)
  ultimately show ?thesis using True ch(2)
    by (simp add: co_handleWrite_def Let_def removeAndResetChannel_Some[OF ch(1)])
next
  case False
  then have "coState c = CoDisconnected" using st by (cases "coState c") auto
  then show ?thesis using c by (simp add: co_handleWrite_def)
qed

lemma co_handleError_phase:
  assumes c: "co_phase c" and st: "coState c = CoConnecting"
  shows "holds {} (co_handleError c) co_phase"
  by (rule connecting_phaseE[OF c st], simp add: co_handleError_def st removeAndResetChannel_Some,
      rule retry_phase) simp_all

lemma co_event_phase:
  assumes c: "co_phase c" and legal: "co_legal ev c"
  shows "holds {} (co_event_do ev c) co_phase"
proof (cases ev)
  case (CoStart inLoop a)
  then show ?thesis using c legal
    by (auto simp: co_start_def Let_def co_idle_def co_phase_def count_list_0_iff
        intro!: startInLoop_phase)
next
  case (CoStop inLoop)
  have "co_phase (c\<lparr>coConnect := False\<rparr>)" "co_phase (c\<lparr>coConnect := False, coQueue := coQueue c @ [FStopInLoop]\<rparr>)"
    using c by (auto simp: co_phase_def)
  with CoStop show ?thesis by (simp add: co_stop_def Let_def stopInLoop_phase)
next
  case (CoRestart a)
  then show ?thesis using c legal
    by (auto simp: co_restart_def co_idle_def co_phase_def intro!: startInLoop_phase)
next
  case (CoTimer a)
  then have t: "0 < coTimers c" "FResetChannel \<notin> set (coQueue c)" using legal by auto
  then have "count_list (coQueue c) FStartInLoop = 0" "coTimers c = 1" "coState c = CoDisconnected"
    using c by (auto simp: co_phase_def intro: co_state.exhaust split: if_splits)
  then show ?thesis using c t CoTimer
    by (auto simp: co_phase_def count_list_0_iff intro!: startInLoop_phase)
next
  case (CoWritable a)
  then show ?thesis using c legal by (simp add: co_handleWrite_phase)
next
  case CoError
  then show ?thesis using c legal by (simp add: co_handleError_phase)
next
  case (CoFunctor a)
  show ?thesis
  proof (cases "coQueue c")
    case (Cons f fs)
    show ?thesis
    proof (cases f)
      case FStartInLoop
      then show ?thesis using c Cons CoFunctor
        by (auto simp: co_phase_def count_list_0_iff split: if_splits intro!: startInLoop_phase)
    next
      case FStopInLoop
      have "co_phase (c\<lparr>coQueue := fs\<rparr>)" using c Cons FStopInLoop by (auto simp: co_phase_def)
      then show ?thesis using Cons CoFunctor FStopInLoop by (simp add: stopInLoop_phase)
    next
      case FResetChannel
      then show ?thesis using c Cons CoFunctor
        by (auto simp: co_phase_def resetChannel_def count_list_0_iff split: if_splits)
    qed
  qed (use c CoFunctor in simp)
qed

lemma co_legal_run_inv:
  "co_phase c \<Longrightarrow> co_backoff c \<Longrightarrow> co_legal_run evs c = Some r
   \<Longrightarrow> \<exists>c'. r = Inr c' \<and> co_phase c' \<and> co_backoff c'"
proof (induction evs arbitrary: c)
  case (Cons ev evs)
  from Cons.prems(3) have legal: "co_legal ev c" by (auto split: if_splits)
  have "holds {} (co_event_do ev c) co_phase" by (rule co_event_phase[OF Cons.prems(1) legal])
  then obtain c' where c': "co_event_do ev c = Inr c'" "co_phase c'"
    by (cases "co_event_do ev c") auto
  show ?case
    using Cons.IH[OF c'(2) co_event_backoff[OF Cons.prems(2) c'(1)]] Cons.prems(3) legal c'(1) by simp
qed auto

subsection \<open>Properties\<close>


definition refused_run :: "co_event list" where
  "refused_run =
     (let a = \<lparr>atSockfd = 5, atErrno = 111, atSoError = 0, atSelf = False\<rparr>;
          b = \<lparr>atSockfd = 6, atErrno = 115, atSoError = 111, atSelf = False\<rparr>;
          d = \<lparr>atSockfd = 7, atErrno = 115, atSoError = 0, atSelf = False\<rparr>
      in [CoStart False a, CoFunctor a, CoTimer b, CoError, CoWritable b, CoFunctor b, CoTimer d, CoWritable d, CoFunctor d])"

lemma refused_run_result:
  "co_legal_run refused_run newConnector = Some (Inr (newConnector\<lparr>coConnect := True, coState := CoConnected,
     coDelay := 2000, coRetries := [500, 1000], coNew := [7]\<rparr>))"
  by code_simp


text \<open>The n-th consecutive retry since the connector was made or restarted is delayed by
  500 ms doubled n times and capped at 30 s.\<close>

theorem connector_backoff:
  assumes "co_legal_run evs newConnector = Some (Inr c)" and "k < length (coRetries c)"
  shows "coRetries c ! k = min (500 * 2 ^ k) 30000"
proof -
  have "co_backoff c" using co_legal_run_inv[OF newConnector_inv assms(1)] by auto
  then have "coRetries c ! k = map (\<lambda>k. min (kInitRetryDelayMs * 2 ^ k) kMaxRetryDelayMs) [0..<length (coRetries c)] ! k"
    by (simp add: co_backoff_def)
  then show ?thesis using assms(2) by (simp add: kInitRetryDelayMs_def kMaxRetryDelayMs_def)
qed

theorem connector_backoff_witness:
  "\<exists>c. co_legal_run refused_run newConnector = Some (Inr c) \<and> coRetries c ! 1 = min (500 * 2 ^ 1) 30000"
  using connector_backoff[OF refused_run_result, of 1] refused_run_result by auto

text \<open>Outside these orders the assertions do fire. \<open>stop\<close> does not cancel the retry timer (the
  source says so in a FIXME): a later \<open>start\<close> that is connecting when the old timer fires meets
  the assertion of \<open>startInLoop\<close>. And \<open>stop\<close> followed by \<open>start\<close> in the same turn of the loop
  meets the assertion of \<open>connecting\<close>, as the old channel has not been reset yet.\<close>

lemma start_while_retry_pending:
  "foldR co_event_do
     (let a = \<lparr>atSockfd = 5, atErrno = 111, atSoError = 0, atSelf = False\<rparr>;
          b = \<lparr>atSockfd = 6, atErrno = 115, atSoError = 0, atSelf = False\<rparr>
      in [CoStart True a, CoStop True, CoStart True b, CoTimer b]) newConnector
   = Inl (AssertFailed ''startInLoop: state_ == kDisconnected'')"
  by code_simp

lemma stop_start_same_turn:
  "foldR co_event_do
     (let a = \<lparr>atSockfd = 5, atErrno = 115, atSoError = 0, atSelf = False\<rparr>
      in [CoStart True a, CoStop True, CoStart True a]) newConnector
   = Inl (AssertFailed ''connecting: !channel_'')"
  by code_simp

end
