(* ===== verification/StdText.thy ===== *)
theory StdText
  imports Muduo_Prelude "HOL-Library.List_Lexorder" "HOL-Library.Char_ord"
begin

text \<open>
  Text and ordered maps as the C++ code uses them: decimal and hexadecimal digits of a number, the
  output of \<open>snprintf\<close> into a buffer of fixed size, the digits \<open>atoi\<close> reads, and \<open>std::map\<close> as
  the list of its entries in key order (its iteration order).
\<close>

subsection \<open>Numbers in text\<close>

definition digit_char :: "nat \<Rightarrow> char" where
  "digit_char d = char_of (if d < 10 then 48 + d else 55 + d)"

definition digit_val :: "char \<Rightarrow> nat" where
  "digit_val c = (if of_char c < (65 :: nat) then of_char c - 48 else of_char c - 55)"

function to_base :: "nat \<Rightarrow> nat \<Rightarrow> string" where
  "to_base b n = (if b < 2 \<or> n < b then [digit_char n] else to_base b (n div b) @ [digit_char (n mod b)])"
  by auto
termination by (relation "measure snd") (auto simp: not_less intro: div_less_dividend)

declare to_base.simps [simp del]

definition of_base :: "nat \<Rightarrow> string \<Rightarrow> nat" where
  "of_base b s = foldl (\<lambda>n c. n * b + digit_val c) 0 s"

abbreviation dec_nat :: "nat \<Rightarrow> string" where
  "dec_nat \<equiv> to_base 10"

text \<open>\<open>%d\<close>\<close>

definition dec_int :: "int \<Rightarrow> string" where
  "dec_int i = (if i < 0 then CHR ''-'' # dec_nat (nat (- i)) else dec_nat (nat i))"

text \<open>\<open>snprintf(buf, size, ...)\<close> leaves at most \<open>size - 1\<close> characters.\<close>

definition snprintf :: "nat \<Rightarrow> string \<Rightarrow> string" where
  "snprintf bufsize s = take (bufsize - 1) s"

definition is_digit :: "char \<Rightarrow> bool" where
  "is_digit c \<longleftrightarrow> 48 \<le> (of_char c :: nat) \<and> (of_char c :: nat) \<le> 57"

lemma digit_val_char [simp]: "d < 36 \<Longrightarrow> digit_val (digit_char d) = d"
  by (simp add: digit_val_def digit_char_def)

lemma of_base_append [simp]: "of_base b (s @ [c]) = of_base b s * b + digit_val c"
  by (simp add: of_base_def)

lemma of_to_base: "2 \<le> b \<Longrightarrow> b \<le> 36 \<Longrightarrow> of_base b (to_base b n) = n"
proof (induction b n rule: to_base.induct)
  case (1 b n)
  show ?case
  proof (cases "n < b")
    case True
    then show ?thesis using "1.prems" by (simp add: to_base.simps[of b n]) (simp add: of_base_def)
  next
    case False
    have m: "n mod b < 36" by (rule less_le_trans[OF mod_less_divisor "1.prems"(2)]) (use "1.prems" in simp)
    have "\<not> (b < 2 \<or> n < b)" using False "1.prems" by simp
    from "1.IH"[OF this] "1.prems" m False show ?thesis by (simp add: to_base.simps[of b n])
  qed
qed

lemma to_base_inj: "2 \<le> b \<Longrightarrow> b \<le> 36 \<Longrightarrow> to_base b m = to_base b n \<Longrightarrow> m = n"
  by (metis of_to_base)

lemma length_to_base: "2 \<le> b \<Longrightarrow> n < b ^ k \<Longrightarrow> 0 < k \<Longrightarrow> length (to_base b n) \<le> k"
proof (induction k arbitrary: n)
  case (Suc k)
  show ?case
  proof (cases "n < b")
    case False
    then have k: "0 < k" using Suc.prems(2) by (cases k) auto
    have "n div b < b ^ k" using Suc.prems(1,2) by (simp add: less_mult_imp_div_less mult.commute)
    from Suc.IH[OF Suc.prems(1) this k] False Suc.prems(1) show ?thesis by (simp add: to_base.simps[of b n])
  qed (simp add: to_base.simps[of b n])
qed simp

lemma to_base_digits:
  "2 \<le> b \<Longrightarrow> b \<le> 36 \<Longrightarrow> c \<in> set (to_base b n) \<Longrightarrow> \<exists>d < b. c = digit_char d"
proof (induction b n rule: to_base.induct)
  case (1 b n)
  show ?case
  proof (cases "n < b")
    case True
    then show ?thesis using "1.prems" by (auto simp: to_base.simps[of b n])
  next
    case False
    define d where "d = n mod b"
    have "d < b" using "1.prems" unfolding d_def by (intro mod_less_divisor) simp
    moreover have "c \<in> set (to_base b (n div b)) \<or> c = digit_char d"
      using "1.prems" False by (auto simp: to_base.simps[of b n] d_def)
    ultimately show ?thesis using "1.IH" "1.prems"(1,2) False by auto
  qed
qed

lemma digit_lits:
  "digit_char 0 = CHR ''0''" "digit_char (Suc 0) = CHR ''1''" "digit_char 2 = CHR ''2''" "digit_char 3 = CHR ''3''"
  "digit_char 4 = CHR ''4''" "digit_char 5 = CHR ''5''" "digit_char 6 = CHR ''6''" "digit_char 7 = CHR ''7''"
  "digit_char 8 = CHR ''8''" "digit_char 9 = CHR ''9''"
  by code_simp+

lemma is_digit_char: "d < 10 \<Longrightarrow> is_digit (digit_char d)"
  by (simp add: is_digit_def digit_char_def)

lemma dec_nat_digits: "c \<in> set (dec_nat n) \<Longrightarrow> is_digit c"
  using to_base_digits[of 10 c n] is_digit_char by auto

lemma to_base_nonempty [simp]: "to_base b n \<noteq> []"
  by (subst to_base.simps) simp

text \<open>\<open>atoi\<close>: white space, a sign, digits; the value is clamped to \<open>long\<close> and converted to \<open>int\<close>.\<close>

definition c_isspace :: "char \<Rightarrow> bool" where
  "c_isspace c \<longleftrightarrow> c \<in> {CHR '' '', CHR 0x09, CHR 0x0A, CHR 0x0B, CHR 0x0C, CHR 0x0D}"

definition c_atoi :: "string \<Rightarrow> int" where
  "c_atoi s =
     (let t = dropWhile c_isspace s;
          neg = (t \<noteq> [] \<and> hd t = CHR ''-'');
          u = (if t \<noteq> [] \<and> (hd t = CHR ''-'' \<or> hd t = CHR ''+'') then tl t else t);
          v = int (of_base 10 (takeWhile is_digit u));
          l = max (- (2 ^ 63)) (min (2 ^ 63 - 1) (if neg then - v else v))
      in signed_take_bit 31 l)"

lemma c_atoi_dec:
  assumes "0 \<le> v" and "v < 2 ^ 31" and "rest = [] \<or> \<not> is_digit (hd rest)"
  shows "c_atoi (dec_int v @ rest) = v"
proof -
  let ?d = "dec_nat (nat v)"
  have d: "dec_int v = ?d" using assms(1) by (simp add: dec_int_def)
  obtain c cs where c: "?d = c # cs" "is_digit c"
    by (metis dec_nat_digits list.exhaust list.set_intros(1) to_base_nonempty)
  then have np: "\<not> c_isspace c" "c \<noteq> CHR ''-''" "c \<noteq> CHR ''+''"
    by (auto simp: is_digit_def c_isspace_def)
  have tw: "takeWhile is_digit (?d @ rest) = ?d"
    using assms(3) dec_nat_digits by (subst takeWhile_append2) (auto simp: takeWhile_eq_Nil_iff)
  have val: "of_base 10 ?d = nat v" using of_to_base[of 10 "nat v"] by simp
  have "signed_take_bit 31 v = v" using assms(1,2) by (intro signed_take_bit_int_eq_self) auto
  then show ?thesis using c np tw val assms(1,2) d by (simp add: c_atoi_def Let_def)
qed

subsection \<open>Ordered maps\<close>

fun std_map_put :: "'k :: linorder \<Rightarrow> 'v \<Rightarrow> ('k \<times> 'v) list \<Rightarrow> ('k \<times> 'v) list" where
  "std_map_put k v [] = [(k, v)]"
| "std_map_put k v ((k', v') # m) =
     (if k < k' then (k, v) # (k', v') # m else if k = k' then (k, v) # m else (k', v') # std_map_put k v m)"

definition std_map_erase :: "'k \<Rightarrow> ('k \<times> 'v) list \<Rightarrow> ('k \<times> 'v) list" where
  "std_map_erase k m = filter (\<lambda>e. fst e \<noteq> k) m"

definition std_map_wf :: "('k :: linorder \<times> 'v) list \<Rightarrow> bool" where
  "std_map_wf m \<longleftrightarrow> sorted_wrt (<) (map fst m)"

lemma set_std_map_put: "fst ` set (std_map_put k v m) = insert k (fst ` set m)"
proof (induction m)
  case (Cons e m)
  then show ?case by (cases e) (simp add: insert_commute)
qed simp

lemma std_map_put_wf: "std_map_wf m \<Longrightarrow> std_map_wf (std_map_put k v m)"
proof (induction m)
  case (Cons e m)
  obtain k' v' where e: "e = (k', v')" by (cases e)
  have "std_map_wf m" and lt: "\<forall>x \<in> fst ` set m. k' < x" using Cons.prems e by (auto simp: std_map_wf_def)
  then have IH: "std_map_wf (std_map_put k v m)" using Cons.IH by simp
  show ?case
  proof (cases "k' < k")
    case True
    with IH lt e show ?thesis
      using set_std_map_put[of k v m] by (auto simp: std_map_wf_def)
  next
    case False
    with Cons.prems e lt show ?thesis by (auto simp: std_map_wf_def)
  qed
qed (simp add: std_map_wf_def)

lemma std_map_erase_wf: "std_map_wf m \<Longrightarrow> std_map_wf (std_map_erase k m)"
proof (induction m)
  case (Cons e m)
  then have "std_map_wf (std_map_erase k m)" "\<forall>x \<in> fst ` set m. fst e < x" by (auto simp: std_map_wf_def)
  then show ?case by (auto simp: std_map_wf_def std_map_erase_def)
qed (simp add: std_map_wf_def std_map_erase_def)

lemma map_of_put [simp]: "std_map_wf m \<Longrightarrow> map_of (std_map_put k v m) = (map_of m)(k \<mapsto> v)"
proof (induction m)
  case (Cons e m)
  obtain k' v' where e: "e = (k', v')" by (cases e)
  have "std_map_wf m" using Cons.prems by (simp add: std_map_wf_def)
  with Cons.IH e show ?case by (auto simp: fun_eq_iff)
qed simp

lemma map_of_erase [simp]: "map_of (std_map_erase k m) = (map_of m)(k := None)"
  by (induction m) (auto simp: std_map_erase_def fun_eq_iff)

lemma length_erase:
  assumes "std_map_wf m" and "map_of m k \<noteq> None"
  shows "length m = Suc (length (std_map_erase k m))"
  using assms
proof (induction m)
  case (Cons e m)
  have lt: "\<forall>x \<in> set m. fst e < fst x" and wf: "std_map_wf m" using Cons.prems(1) by (auto simp: std_map_wf_def)
  show ?case
  proof (cases "fst e = k")
    case True
    then have "std_map_erase k m = m" using lt by (auto simp: std_map_erase_def filter_id_conv)
    then show ?thesis using True by (simp add: std_map_erase_def)
  next
    case False
    then show ?thesis using Cons.IH[OF wf] Cons.prems(2) by (cases e) (simp add: std_map_erase_def)
  qed
qed simp

lemma map_of_SomeI: "std_map_wf m \<Longrightarrow> (k, v) \<in> set m \<Longrightarrow> map_of m k = Some v"
  by (rule map_of_is_SomeI) (auto simp: std_map_wf_def strict_sorted_iff)

end
