(* ===== verification/InetAddress.thy ===== *)
theory InetAddress
  imports StdText Endian
begin

text \<open>
  \<open>muduo::net::InetAddress\<close> and the parts of \<open>muduo/net/SocketsOps.cc\<close> with logic of their own:
  addresses and their text, the classification of errors of \<open>accept\<close>, the test for a connection to
  itself. \<open>inet_ntop\<close> and \<open>inet_pton\<close> are modelled for \<open>AF_INET\<close>.
\<close>

definition AF_INET :: nat where "AF_INET = 2"
definition INET_ADDRSTRLEN :: nat where "INET_ADDRSTRLEN = 16"

text \<open>\<open>sin_port\<close> and \<open>sin_addr\<close> hold network byte order.\<close>

record sockaddr_in =
  sin_family :: nat
  sin_port :: "16 word"
  sin_addr :: "32 word"

definition bzero_sockaddr :: sockaddr_in where
  "bzero_sockaddr = \<lparr>sin_family = 0, sin_port = 0, sin_addr = 0\<rparr>"

fun join_with :: "char \<Rightarrow> string list \<Rightarrow> string" where
  "join_with sep [] = []"
| "join_with sep [p] = p"
| "join_with sep (p # q # ps) = p @ sep # join_with sep (q # ps)"

fun split_on :: "char \<Rightarrow> string \<Rightarrow> string list" where
  "split_on sep [] = [[]]"
| "split_on sep (c # cs) =
     (if c = sep then [] # split_on sep cs
      else case split_on sep cs of [] \<Rightarrow> [[c]] | p # ps \<Rightarrow> (c # p) # ps)"

definition inet_ntop :: "32 word \<Rightarrow> string" where
  "inet_ntop a = join_with CHR ''.'' (map (\<lambda>c. dec_nat (of_char c)) (store_le 4 a))"

definition octet_ok :: "string \<Rightarrow> bool" where
  "octet_ok p \<longleftrightarrow> p \<noteq> [] \<and> list_all is_digit p \<and> (1 < length p \<longrightarrow> hd p \<noteq> CHR ''0'') \<and> of_base 10 p \<le> 255"

definition inet_pton :: "string \<Rightarrow> 32 word option" where
  "inet_pton s =
     (let ps = split_on CHR ''.'' s
      in if length ps = 4 \<and> list_all octet_ok ps then Some (load_le (map (\<lambda>p. char_of (of_base 10 p)) ps)) else None)"

text \<open>\<open>toIp\<close> asserts that the buffer is large enough.\<close>

definition sockets_toIp :: "nat \<Rightarrow> sockaddr_in \<Rightarrow> string res" where
  "sockets_toIp n addr = ensure (INET_ADDRSTRLEN \<le> n) ''toIp: size >= INET_ADDRSTRLEN'' (Inr (inet_ntop (sin_addr addr)))"

definition sockets_toIpPort :: "nat \<Rightarrow> sockaddr_in \<Rightarrow> string res" where
  "sockets_toIpPort n addr =
     bindR (sockets_toIp INET_ADDRSTRLEN addr) (\<lambda>host.
     let port = networkToHost16 (sin_port addr)
     in Inr (snprintf n (host @ '':'' @ dec_nat (unat port))))"

definition sockets_fromIpPort :: "string \<Rightarrow> 16 word \<Rightarrow> sockaddr_in \<Rightarrow> sockaddr_in" where
  "sockets_fromIpPort ip port addr =
     (let addr1 = addr\<lparr>sin_family := AF_INET, sin_port := hostToNetwork16 port\<rparr>
      in case inet_pton ip of Some a \<Rightarrow> addr1\<lparr>sin_addr := a\<rparr> | None \<Rightarrow> addr1)"

definition newInetAddress_port :: "16 word \<Rightarrow> sockaddr_in" where
  "newInetAddress_port port =
     bzero_sockaddr\<lparr>sin_family := AF_INET, sin_addr := hostToNetwork32 0, sin_port := hostToNetwork16 port\<rparr>"

definition newInetAddress_ip :: "string \<Rightarrow> 16 word \<Rightarrow> sockaddr_in" where
  "newInetAddress_ip ip port = sockets_fromIpPort ip port bzero_sockaddr"

definition toIpPort :: "sockaddr_in \<Rightarrow> string res" where
  "toIpPort addr = sockets_toIpPort 32 addr"

definition toIp :: "sockaddr_in \<Rightarrow> string res" where
  "toIp addr = sockets_toIp 32 addr"

text \<open>\<open>accept\<close>: a descriptor, an error the acceptor handles, or an error that ends the process.\<close>

definition accept_expected :: "int set" where
  "accept_expected = {11, 103, 4, 71, 1, 24}"  \<comment> \<open>EAGAIN, ECONNABORTED, EINTR, EPROTO, EPERM, EMFILE\<close>

definition sockets_accept :: "int \<Rightarrow> int \<Rightarrow> int res" where
  "sockets_accept connfd savedErrno =
     (if connfd < 0 \<and> savedErrno \<notin> accept_expected then Inl (Aborted ''unexpected error of ::accept'')
      else Inr connfd)"

definition isSelfConnect :: "sockaddr_in \<Rightarrow> sockaddr_in \<Rightarrow> bool" where
  "isSelfConnect localaddr peeraddr \<longleftrightarrow>
     sin_port localaddr = sin_port peeraddr \<and> sin_addr localaddr = sin_addr peeraddr"

subsection \<open>Text of an address\<close>

lemma split_on_none: "sep \<notin> set p \<Longrightarrow> split_on sep p = [p]"
  by (induction p) auto

lemma split_on_append: "sep \<notin> set p \<Longrightarrow> split_on sep (p @ sep # s) = p # split_on sep s"
  by (induction p) auto

lemma split_join:
  "ps \<noteq> [] \<Longrightarrow> \<forall>p \<in> set ps. sep \<notin> set p \<Longrightarrow> split_on sep (join_with sep ps) = ps"
proof (induction ps rule: join_with.induct[of _ sep])
  case (3 sep p q ps)
  then show ?case by (simp add: split_on_append)
qed (auto simp: split_on_none)

lemma dec_nat_no_dot: "CHR ''.'' \<notin> set (dec_nat n)"
  using dec_nat_digits[of "CHR ''.''" n] by (auto simp: is_digit_def)

lemma digit_char_0: "d < 10 \<Longrightarrow> digit_char d = CHR ''0'' \<Longrightarrow> d = 0"
proof -
  assume d: "d < 10" and eq: "digit_char d = CHR ''0''"
  have "digit_val (digit_char d) = d" using d by simp
  then show ?thesis by (simp add: eq digit_val_def)
qed

lemma dec_nat_no_leading_zero: "0 < n \<Longrightarrow> hd (dec_nat n) \<noteq> CHR ''0''"
proof (induction n rule: less_induct)
  case (less n)
  show ?case
  proof (cases "n < 10")
    case True
    then show ?thesis using digit_char_0[of n] less.prems by (auto simp: to_base.simps[of 10 n])
  next
    case False
    then have "hd (dec_nat n) = hd (dec_nat (n div 10))" by (simp add: to_base.simps[of 10 n])
    moreover have "n div 10 < n" "0 < n div 10" using False by auto
    ultimately show ?thesis using less.IH[of "n div 10"] by simp
  qed
qed

lemma octet_ok_dec: "n \<le> 255 \<Longrightarrow> octet_ok (dec_nat n)"
proof -
  assume n: "n \<le> 255"
  have "1 < length (dec_nat n) \<Longrightarrow> 0 < n"
    by (rule ccontr) (simp add: to_base.simps[of 10 n])
  then show ?thesis using n dec_nat_no_leading_zero[of n] dec_nat_digits[of _ n]
    by (auto simp: octet_ok_def of_to_base list_all_iff)
qed

lemma inet_pton_ntop: "inet_pton (inet_ntop a) = Some a"
proof -
  let ?ps = "map (\<lambda>c. dec_nat (of_char c)) (store_le 4 a)"
  have ne: "?ps \<noteq> []" by (simp add: store_le_def upt_rec)
  have split: "split_on CHR ''.'' (inet_ntop a) = ?ps"
    unfolding inet_ntop_def by (rule split_join[OF ne]) (auto simp: dec_nat_no_dot)
  have lt: "(of_char c :: nat) < 256" for c :: char by simp
  have "of_char c \<le> (255 :: nat)" for c :: char using lt[of c] by linarith
  then have ok: "list_all octet_ok ?ps" by (auto simp: list_all_iff intro: octet_ok_dec)
  have "map (\<lambda>p. char_of (of_base 10 p)) ?ps = store_le 4 a"
    by (simp add: of_to_base comp_def)
  then show ?thesis unfolding inet_pton_def Let_def split using ok by simp
qed

lemma length_dec_byte: "length (dec_nat (of_char c)) \<le> 3"
proof (rule length_to_base)
  have "(of_char c :: nat) < 256" by simp
  then show "of_char c < (10 :: nat) ^ 3" by (rule less_trans) simp
qed simp_all

lemma length_inet_ntop: "length (inet_ntop a) \<le> 15"
proof -
  have "[0..<4] = [0, 1, 2, 3 :: nat]" by (simp add: upt_rec)
  then have "store_le 4 a = map (\<lambda>i. char_of (unat a div 256 ^ i)) [0, 1, 2, 3]" by (simp only: store_le_def)
  then obtain p q r s where b: "store_le 4 a = [p, q, r, s]" by simp
  show ?thesis using length_dec_byte[of p] length_dec_byte[of q] length_dec_byte[of r] length_dec_byte[of s]
    unfolding inet_ntop_def b by simp
qed

text \<open>The text of an address is never cut off: it is the whole dotted quad, a colon and
  the whole port number, at most 21 characters in the 32-byte buffer, and no assertion fires.\<close>

theorem toIpPort_whole:
  "toIpPort addr = Inr (inet_ntop (sin_addr addr) @ '':'' @ dec_nat (unat (networkToHost16 (sin_port addr))))
   \<and> length (inet_ntop (sin_addr addr) @ '':'' @ dec_nat (unat (networkToHost16 (sin_port addr)))) \<le> 21"
proof -
  let ?port = "networkToHost16 (sin_port addr)"
  let ?t = "inet_ntop (sin_addr addr) @ '':'' @ dec_nat (unat ?port)"
  have "unat ?port < 2 ^ 16" using unsigned_less[of ?port, where 'a = nat] by simp
  then have "unat ?port < 10 ^ 5" by (rule less_trans) simp
  then have "length (dec_nat (unat ?port)) \<le> 5" by (intro length_to_base) simp_all
  then have len: "length ?t \<le> 21" using length_inet_ntop[of "sin_addr addr"] by simp
  then have "snprintf 32 ?t = ?t" by (simp add: snprintf_def)
  with len show ?thesis
    by (simp add: toIpPort_def sockets_toIpPort_def sockets_toIp_def INET_ADDRSTRLEN_def Let_def)
qed

text \<open>An address written as text and read back is the same address.\<close>

theorem inet_address_roundtrip:
  assumes "sin_family addr = AF_INET"
  shows "\<exists>ip. toIp addr = Inr ip \<and> newInetAddress_ip ip (networkToHost16 (sin_port addr)) = addr"
proof -
  have "hostToNetwork16 (networkToHost16 p) = p" for p by (simp add: hostToNetwork16_def networkToHost16_def)
  then show ?thesis using assms
    by (cases addr) (simp add: toIp_def sockets_toIp_def INET_ADDRSTRLEN_def newInetAddress_ip_def
        sockets_fromIpPort_def inet_pton_ntop bzero_sockaddr_def)
qed

theorem inet_address_roundtrip_witness:
  "\<exists>ip. toIp (newInetAddress_port 80) = Inr ip \<and> newInetAddress_ip ip 80 = newInetAddress_port 80"
  using inet_address_roundtrip[of "newInetAddress_port 80"]
  by (simp add: newInetAddress_port_def)

end
