(* ===== verification/Acceptor.thy ===== *)
theory Acceptor
  imports InetAddress PollerContract
begin

text \<open>
  \<open>muduo::net::Acceptor\<close> (\<open>muduo/net/Acceptor.h\<close>, \<open>Acceptor.cc\<close>): the listening socket and the spare
  descriptor that lets it refuse a connection when the process has no descriptors left. \<open>acOpen\<close>
  are the descriptors the acceptor has open; what \<open>accept\<close> and \<open>open\<close> return are arguments.
\<close>

record acceptor =
  acSocket :: int
  acChannel :: channel
  acHasCallback :: bool
  acListening :: bool
  acIdleFd :: int
  acOpen :: "int set"
  acRefused :: nat

definition newAcceptor :: "int \<Rightarrow> int \<Rightarrow> acceptor res" where
  "newAcceptor sockfd idle =
     (if sockfd < 0 then Inl (Aborted ''sockets::createNonblockingOrDie'') else
     ensure (0 \<le> idle) ''Acceptor: idleFd_ >= 0''
     (Inr \<lparr>acSocket = sockfd, acChannel = (newChannel sockfd)\<lparr>hasReadCallback := True\<rparr>, acHasCallback = False,
           acListening = False, acIdleFd = idle, acOpen = {sockfd, idle}, acRefused = 0\<rparr>))"

definition ac_setNewConnectionCallback :: "acceptor \<Rightarrow> acceptor" where
  "ac_setNewConnectionCallback a = a\<lparr>acHasCallback := True\<rparr>"

definition ac_listen :: "acceptor \<Rightarrow> acceptor" where
  "ac_listen a = a\<lparr>acListening := True, acChannel := events_enableReading (acChannel a)\<rparr>"

text \<open>Closing a descriptor number that is not the acceptor's own would close one of some other thread;
  it is a fault. \<open>close(-1)\<close> only fails with \<open>EBADF\<close>.\<close>

definition ac_close :: "int \<Rightarrow> acceptor \<Rightarrow> acceptor res" where
  "ac_close fd a =
     (if fd < 0 then Inr a
      else if fd \<in> acOpen a then Inr (a\<lparr>acOpen := acOpen a - {fd}\<rparr>)
      else Inl (BadAccess ''close of a descriptor that is not the acceptor's''))"

definition ac_opened :: "int \<Rightarrow> acceptor \<Rightarrow> acceptor" where
  "ac_opened fd a = (if 0 \<le> fd then a\<lparr>acOpen := insert fd (acOpen a)\<rparr> else a)"

text \<open>The result names the descriptor handed to the new-connection callback, if any.\<close>

definition ac_handleRead :: "int \<Rightarrow> int \<Rightarrow> int \<Rightarrow> int \<Rightarrow> acceptor \<Rightarrow> (int option \<times> acceptor) res" where
  "ac_handleRead accepted acceptErrno accepted2 reopened a =
     bindR (sockets_accept accepted acceptErrno) (\<lambda>connfd.
     let a1 = ac_opened connfd a
     in if 0 \<le> connfd then
          (if acHasCallback a1 then Inr (Some connfd, a1\<lparr>acOpen := acOpen a1 - {connfd}\<rparr>)
           else bindR (ac_close connfd a1) (\<lambda>a2. Inr (None, a2)))
        else if acceptErrno = 24 then  \<comment> \<open>EMFILE\<close>
          bindR (ac_close (acIdleFd a1) a1) (\<lambda>a2.
          let a3 = (ac_opened accepted2 a2)\<lparr>acIdleFd := accepted2\<rparr>
          in bindR (ac_close (acIdleFd a3) a3) (\<lambda>a4.
          let a5 = (ac_opened reopened a4)
                     \<lparr>acIdleFd := reopened, acRefused := acRefused a4 + (if 0 \<le> accepted2 then 1 else 0)\<rparr>
          in Inr (None, a5)))
        else Inr (None, a1))"

definition destroyAcceptor :: "acceptor \<Rightarrow> acceptor res" where
  "destroyAcceptor a =
     (let a1 = a\<lparr>acChannel := events_disableAll (acChannel a)\<rparr>
      in ensure (isNoneEvent (acChannel a1)) ''Channel::remove: isNoneEvent()''
        (bindR (ac_close (acIdleFd a1) a1) (\<lambda>a2. ac_close (acSocket a2) a2)))"

subsection \<open>The acceptor among the other users of the process's descriptor table\<close>

text \<open>
  \<open>awOthers\<close> are the open descriptors of the rest of the process, the connections handed out
  included; \<open>awHanded\<close> lists what was given to the callback. Other threads open and close
  descriptors between the acceptor's calls (\<open>AwOthers\<close>) and inside \<open>handleRead\<close>: \<open>others1\<close> is the
  rest of the table when the second \<open>accept\<close> is made, \<open>others2\<close> when \<open>/dev/null\<close> is opened again.
  \<open>lim\<close> is the limit on open descriptors. A call that makes a descriptor returns a number not in
  use; \<open>open("/dev/null")\<close> fails only when the table is full.
\<close>

record acceptor_world =
  awAcceptor :: acceptor
  awOthers :: "int set"
  awHanded :: "int list"

datatype acceptor_event =
    AwRead int int int "int set" int "int set"  \<comment> \<open>accept, errno, second accept, others1, open, others2\<close>
  | AwOthers "int set"

definition kernel_makes_fd :: "int set \<Rightarrow> int \<Rightarrow> bool" where
  "kernel_makes_fd tbl r \<longleftrightarrow> (0 \<le> r \<longrightarrow> r \<notin> tbl)"

definition kernel_opens :: "nat \<Rightarrow> int set \<Rightarrow> int \<Rightarrow> bool" where
  "kernel_opens lim tbl r \<longleftrightarrow> (if card tbl < lim then 0 \<le> r \<and> r \<notin> tbl else r < 0)"

fun aw_step :: "acceptor_event \<Rightarrow> acceptor_world \<Rightarrow> acceptor_world res" where
  "aw_step (AwRead r e r2 others1 ro others2) w =
     bindR (ac_handleRead r e r2 ro (awAcceptor w)) (\<lambda>(h, a').
       Inr (case h of
              Some fd \<Rightarrow> w\<lparr>awAcceptor := a', awHanded := awHanded w @ [fd], awOthers := insert fd (awOthers w)\<rparr>
            | None \<Rightarrow> w\<lparr>awAcceptor := a', awOthers := (if r < 0 \<and> e = 24 then others2 else awOthers w)\<rparr>))"
| "aw_step (AwOthers others) w = Inr (w\<lparr>awOthers := others\<rparr>)"

fun aw_legal :: "nat \<Rightarrow> acceptor_event \<Rightarrow> acceptor_world \<Rightarrow> bool" where
  "aw_legal lim (AwRead r e r2 others1 ro others2) w \<longleftrightarrow>
     (let own = acOpen (awAcceptor w); held = own - {acIdleFd (awAcceptor w)}
      in kernel_makes_fd (own \<union> awOthers w) r
       \<and> (r < 0 \<and> e = 24 \<longrightarrow>
            finite others1 \<and> finite others2 \<and> held \<inter> others1 = {} \<and> held \<inter> others2 = {}
          \<and> kernel_makes_fd (held \<union> others1) r2 \<and> kernel_opens lim (held \<union> others2) ro))"
| "aw_legal lim (AwOthers others) w \<longleftrightarrow> finite others \<and> others \<inter> acOpen (awAcceptor w) = {}"

fun aw_run :: "acceptor_event list \<Rightarrow> acceptor_world \<Rightarrow> acceptor_world res" where
  "aw_run [] w = Inr w"
| "aw_run (ev # evs) w = bindR (aw_step ev w) (aw_run evs)"

fun aw_legal_run :: "nat \<Rightarrow> acceptor_event list \<Rightarrow> acceptor_world \<Rightarrow> bool" where
  "aw_legal_run lim [] w \<longleftrightarrow> True"
| "aw_legal_run lim (ev # evs) w \<longleftrightarrow>
     aw_legal lim ev w \<and> (case aw_step ev w of Inr w' \<Rightarrow> aw_legal_run lim evs w' | Inl _ \<Rightarrow> True)"

text \<open>What a run is expected to leave: the descriptors accepted, the connections refused, and the
  reserve after the last time it was given up.\<close>

fun ev_accepted :: "acceptor_event \<Rightarrow> int list" where
  "ev_accepted (AwRead r e r2 others1 ro others2) = (if 0 \<le> r then [r] else [])"
| "ev_accepted (AwOthers _) = []"

fun ev_refused :: "acceptor_event \<Rightarrow> nat" where
  "ev_refused (AwRead r e r2 others1 ro others2) = (if r < 0 \<and> e = 24 \<and> 0 \<le> r2 then 1 else 0)"
| "ev_refused (AwOthers _) = 0"

fun ev_unexpected :: "acceptor_event \<Rightarrow> bool" where
  "ev_unexpected (AwRead r e r2 others1 ro others2) \<longleftrightarrow> r < 0 \<and> e \<notin> accept_expected"
| "ev_unexpected (AwOthers _) \<longleftrightarrow> False"

text \<open>Whether the rest of the process leaves room for the reserve when it is opened again.\<close>

fun room_after :: "nat \<Rightarrow> acceptor_event list \<Rightarrow> bool \<Rightarrow> bool" where
  "room_after lim [] b = b"
| "room_after lim (AwRead r e r2 others1 ro others2 # evs) b =
     room_after lim evs (if r < 0 \<and> e = 24 then card others2 + 1 < lim else b)"
| "room_after lim (AwOthers _ # evs) b = room_after lim evs b"

definition aw_inv :: "int \<Rightarrow> bool \<Rightarrow> bool \<Rightarrow> acceptor_world \<Rightarrow> bool" where
  "aw_inv s cb reserve w \<longleftrightarrow>
     acSocket (awAcceptor w) = s \<and> 0 \<le> s \<and> acHasCallback (awAcceptor w) = cb
   \<and> (0 \<le> acIdleFd (awAcceptor w) \<longleftrightarrow> reserve) \<and> acIdleFd (awAcceptor w) \<noteq> s
   \<and> acOpen (awAcceptor w) = {s} \<union> (if reserve then {acIdleFd (awAcceptor w)} else {})
   \<and> finite (awOthers w) \<and> acOpen (awAcceptor w) \<inter> awOthers w = {}"

lemmas aw_defs = aw_inv_def ac_handleRead_def ac_opened_def ac_close_def sockets_accept_def kernel_makes_fd_def
  kernel_opens_def Let_def

lemma ac_handleRead_ok:
  assumes "aw_inv s cb reserve w" and "aw_legal lim (AwRead r e r2 others1 ro others2) w"
    and "\<not> (r < 0 \<and> e \<notin> accept_expected)"
  shows "\<exists>w'. aw_step (AwRead r e r2 others1 ro others2) w = Inr w'
    \<and> aw_inv s cb (if r < 0 \<and> e = 24 then card others2 + 1 < lim else reserve) w'
    \<and> awHanded w' = awHanded w @ (if 0 \<le> r \<and> cb then [r] else [])
    \<and> acRefused (awAcceptor w') = acRefused (awAcceptor w) + (if r < 0 \<and> e = 24 \<and> 0 \<le> r2 then 1 else 0)"
proof -
  consider "0 \<le> r" | "r < 0" "e = 24" | "r < 0" "e \<noteq> 24" by linarith
  then show ?thesis
  proof cases
    case 1
    then show ?thesis using assms by (cases cb) (auto simp: aw_defs split: if_splits)
  next
    case 3
    then show ?thesis using assms by (auto simp: aw_defs split: if_splits)
  next
    case 2
    have held: "acOpen (awAcceptor w) - {acIdleFd (awAcceptor w)} = {s}"
      using assms(1) by (auto simp: aw_inv_def)
    have fin: "finite others2" "s \<notin> others2" using assms(2) 2 held by (auto simp: Let_def)
    then have "card ({s} \<union> others2) = card others2 + 1" by simp
    then show ?thesis using assms 2 held fin
      by (cases "0 \<le> r2"; cases "0 \<le> acIdleFd (awAcceptor w)")
        (auto simp: aw_defs split: if_splits)
  qed
qed

lemma aw_step_unexpected:
  "r < 0 \<Longrightarrow> e \<notin> accept_expected \<Longrightarrow>
   aw_step (AwRead r e r2 others1 ro others2) w = Inl (Aborted ''unexpected error of ::accept'')"
  by (simp add: ac_handleRead_def sockets_accept_def)

lemma aw_run_inv:
  assumes "aw_inv s cb b w" and "aw_legal_run lim evs w"
  shows "case aw_run evs w of
      Inl err \<Rightarrow> err = Aborted ''unexpected error of ::accept'' \<and> (\<exists>ev \<in> set evs. ev_unexpected ev)
    | Inr w' \<Rightarrow> awHanded w' = awHanded w @ (if cb then concat (map ev_accepted evs) else [])
        \<and> acRefused (awAcceptor w') = acRefused (awAcceptor w) + sum_list (map ev_refused evs)
        \<and> aw_inv s cb (room_after lim evs b) w'"
  using assms
proof (induction evs arbitrary: w b)
  case Nil
  then show ?case by simp
next
  case (Cons ev evs)
  show ?case
  proof (cases ev)
    case (AwOthers others)
    have "aw_inv s cb b (w\<lparr>awOthers := others\<rparr>)"
      using Cons.prems AwOthers by (auto simp: aw_inv_def)
    from Cons.IH[OF this] Cons.prems AwOthers show ?thesis by (auto split: sum.splits)
  next
    case (AwRead r e r2 others1 ro others2)
    show ?thesis
    proof (cases "r < 0 \<and> e \<notin> accept_expected")
      case True
      then show ?thesis using AwRead by (simp add: aw_step_unexpected del: aw_step.simps)
    next
      case False
      with ac_handleRead_ok[OF Cons.prems(1)] Cons.prems(2) AwRead obtain w' where
        w': "aw_step ev w = Inr w'" "aw_inv s cb (if r < 0 \<and> e = 24 then card others2 + 1 < lim else b) w'"
          "awHanded w' = awHanded w @ (if 0 \<le> r \<and> cb then [r] else [])"
          "acRefused (awAcceptor w') = acRefused (awAcceptor w) + (if r < 0 \<and> e = 24 \<and> 0 \<le> r2 then 1 else 0)"
        by (metis aw_legal_run.simps(2))
      have "aw_legal_run lim evs w'" using Cons.prems(2) w'(1) by simp
      from Cons.IH[OF w'(2) this] w' AwRead show ?thesis
        by (auto simp del: aw_step.simps split: sum.splits)
    qed
  qed
qed

text \<open>Property C20. Whatever the listening socket's \<open>accept\<close> returns, whenever the process runs out of
  descriptors, and whatever descriptors other threads open and close meanwhile, even between the
  steps of \<open>handleRead\<close>: the acceptor closes only descriptors of its own; every connection it
  accepted is handed to the callback exactly once and in order (or closed when there is no
  callback); out of descriptors, a waiting connection is taken with the reserve and closed at once;
  afterwards the acceptor holds exactly its socket and its reserve, and the reserve is lost only
  when others left no room for it the last time it was given up. The program ends only with an
  unexpected errno of \<open>accept\<close>.\<close>

theorem acceptor_no_leak:
  assumes "newAcceptor s idle = Inr a0" and "s \<noteq> idle" and "finite others" and "others \<inter> {s, idle} = {}"
    and "a = (if cb then ac_setNewConnectionCallback a0 else a0)"
    and "aw_legal_run lim evs \<lparr>awAcceptor = ac_listen a, awOthers = others, awHanded = []\<rparr>"
  shows "case aw_run evs \<lparr>awAcceptor = ac_listen a, awOthers = others, awHanded = []\<rparr> of
      Inl err \<Rightarrow> err = Aborted ''unexpected error of ::accept'' \<and> (\<exists>ev \<in> set evs. ev_unexpected ev)
    | Inr w \<Rightarrow> awHanded w = (if cb then concat (map ev_accepted evs) else [])
        \<and> acRefused (awAcceptor w) = sum_list (map ev_refused evs)
        \<and> (0 \<le> acIdleFd (awAcceptor w) \<longleftrightarrow> room_after lim evs True)
        \<and> acOpen (awAcceptor w) = {s} \<union> (if room_after lim evs True then {acIdleFd (awAcceptor w)} else {})
        \<and> acOpen (awAcceptor w) \<inter> awOthers w = {}"
proof -
  have "aw_inv s cb True \<lparr>awAcceptor = ac_listen a, awOthers = others, awHanded = []\<rparr>"
    and r0: "acRefused (ac_listen a) = 0"
    using assms(1-5)
    by (auto simp: aw_inv_def newAcceptor_def ensure_def ac_listen_def ac_setNewConnectionCallback_def split: if_splits)
  from aw_run_inv[OF this(1) assms(6)] r0 show ?thesis
    by (auto simp: aw_inv_def split: sum.splits)
qed

text \<open>A limit of five descriptors: a connection is accepted as 6, and one is refused with the reserve.\<close>

theorem acceptor_no_leak_witness:
  "\<exists>w. aw_run [AwRead 6 0 0 {} 0 {}, AwRead (-1) 24 4 {0, 1, 6} 4 {0, 1, 6}]
      \<lparr>awAcceptor = ac_listen (ac_setNewConnectionCallback (projr (newAcceptor 3 4))), awOthers = {0, 1}, awHanded = []\<rparr>
      = Inr w \<and> awHanded w = [6] \<and> acRefused (awAcceptor w) = 1 \<and> 0 \<le> acIdleFd (awAcceptor w)"
proof -
  obtain a0 where a0: "newAcceptor 3 4 = Inr a0" "acOpen a0 = {3, 4}" "acIdleFd a0 = 4"
    by (simp add: newAcceptor_def)
  let ?w = "\<lparr>awAcceptor = ac_listen (ac_setNewConnectionCallback a0), awOthers = {0, 1}, awHanded = []\<rparr>"
  let ?evs = "[AwRead 6 0 0 {} 0 {}, AwRead (-1) 24 4 {0, 1, 6} 4 {0, 1, 6}]"
  have legal: "aw_legal_run 5 ?evs ?w"
    using a0(2,3) by (auto simp: aw_defs ac_listen_def ac_setNewConnectionCallback_def)
  from acceptor_no_leak[OF a0(1) _ _ _ _ this, where cb = True]
  show ?thesis using a0
    by (auto simp: aw_defs ac_listen_def ac_setNewConnectionCallback_def accept_expected_def split: sum.splits)
qed

text \<open>Without a reserve the acceptor cannot refuse: the connection stays in the backlog, the listening
  socket stays readable, and the state is unchanged, so the loop spins.\<close>

lemma no_reserve_spins:
  assumes "acIdleFd a = -1"
  shows "ac_handleRead (-1) 24 (-1) (-1) a = Inr (None, a)"
  using assms by (simp add: aw_defs accept_expected_def)

end
