(* ===== verification/EventLoopThreadPool.thy ===== *)
theory EventLoopThreadPool
  imports PollerContract
begin

text \<open>
  \<open>muduo::net::EventLoopThread\<close> and \<open>EventLoopThreadPool\<close>: threads that run one loop each, the
  handshake in which \<open>startLoop\<close> waits for the new thread's loop, and the round-robin choice of a
  loop for a new connection. Loops are numbers.
\<close>

subsection \<open>Starting a loop thread\<close>

text \<open>Where the starting thread and the new thread are. \<open>StWaiting\<close> is blocked on the condition,
  \<open>StWoken\<close> has to check \<open>loop_\<close> again.\<close>

datatype starter_pc = StIdle | StStarted | StWaiting | StWoken | StReturned "nat option"

datatype thread_pc = ThNone | ThRunning | ThLooping

record loop_thread =
  ltLoop :: "nat option"
  ltStarter :: starter_pc
  ltThread :: thread_pc
  ltCallbacks :: "nat list"

definition newEventLoopThread :: loop_thread where
  "newEventLoopThread = \<lparr>ltLoop = None, ltStarter = StIdle, ltThread = ThNone, ltCallbacks = []\<rparr>"

definition lt_start :: "loop_thread \<Rightarrow> loop_thread res" where
  "lt_start t = ensure (ltThread t = ThNone) ''startLoop: !thread_.started()''
     (Inr (t\<lparr>ltThread := ThRunning, ltStarter := StStarted\<rparr>))"

text \<open>One evaluation of \<open>while (loop_ == NULL) cond_.wait();\<close> under the mutex.\<close>

definition lt_check :: "loop_thread \<Rightarrow> loop_thread" where
  "lt_check t = (case ltLoop t of None \<Rightarrow> t\<lparr>ltStarter := StWaiting\<rparr> | Some l \<Rightarrow> t\<lparr>ltStarter := StReturned (Some l)\<rparr>)"

text \<open>\<open>threadFunc\<close> up to \<open>loop.loop()\<close>: make the loop, call the callback, publish the loop and notify
  under the mutex.\<close>

definition lt_publish :: "bool \<Rightarrow> nat \<Rightarrow> loop_thread \<Rightarrow> loop_thread" where
  "lt_publish hasCallback l t =
     (let t1 = t\<lparr>ltCallbacks := ltCallbacks t @ (if hasCallback then [l] else []), ltLoop := Some l, ltThread := ThLooping\<rparr>
      in if ltStarter t1 = StWaiting then t1\<lparr>ltStarter := StWoken\<rparr> else t1)"

inductive lt_step :: "bool \<Rightarrow> nat \<Rightarrow> loop_thread \<Rightarrow> loop_thread \<Rightarrow> bool" for hasCallback :: bool and l :: nat where
  ls_start: "ltStarter t = StIdle \<Longrightarrow> lt_start t = Inr t' \<Longrightarrow> lt_step hasCallback l t t'"
| ls_check: "ltStarter t = StStarted \<or> ltStarter t = StWoken \<Longrightarrow> lt_step hasCallback l t (lt_check t)"
| ls_spurious: "ltStarter t = StWaiting \<Longrightarrow> lt_step hasCallback l t (t\<lparr>ltStarter := StWoken\<rparr>)"
| ls_publish: "ltThread t = ThRunning \<Longrightarrow> lt_step hasCallback l t (lt_publish hasCallback l t)"

definition lt_inv :: "nat \<Rightarrow> loop_thread \<Rightarrow> bool" where
  "lt_inv l t \<longleftrightarrow> (ltThread t = ThLooping \<longleftrightarrow> ltLoop t = Some l) \<and> (ltThread t \<noteq> ThLooping \<longleftrightarrow> ltLoop t = None)
   \<and> (ltStarter t = StIdle \<longleftrightarrow> ltThread t = ThNone)
   \<and> (ltStarter t = StWaiting \<longrightarrow> ltThread t = ThRunning)
   \<and> (\<forall>r. ltStarter t = StReturned r \<longrightarrow> r = Some l)"

lemma lt_reach_inv: "reach (\<lambda>t. t = newEventLoopThread) (lt_step cb l) t \<Longrightarrow> lt_inv l t"
proof (erule reach_invariant)
  show "lt_inv l t" if "t = newEventLoopThread" for t using that by (simp add: lt_inv_def newEventLoopThread_def)
  show "lt_inv l t" if "lt_inv l s" "lt_step cb l s t" for s t
    using that(2,1)
    by cases (auto simp: lt_inv_def lt_start_def lt_check_def lt_publish_def ensure_eq_Inr Let_def intro: thread_pc.exhaust[of "ltThread s"] split: option.splits)
qed

text \<open>\<open>startLoop\<close> never hands out a null loop and never waits in vain: under every
  interleaving, with spurious wake-ups, what it returns is the loop the new thread made, and
  while it is blocked on the condition the new thread has still to publish its loop, which wakes
  it and lets it return.\<close>

theorem startLoop_handshake:
  assumes "reach (\<lambda>t. t = newEventLoopThread) (lt_step cb l) t"
  shows "(\<forall>r. ltStarter t = StReturned r \<longrightarrow> r = Some l)
    \<and> (ltStarter t = StWaiting \<longrightarrow> ltThread t = ThRunning
         \<and> ltStarter (lt_check (lt_publish cb l t)) = StReturned (Some l))"
  using lt_reach_inv[OF assms] by (auto simp: lt_inv_def lt_publish_def lt_check_def Let_def)

theorem startLoop_handshake_witness:
  "\<exists>t. reach (\<lambda>t. t = newEventLoopThread) (lt_step True 5) t \<and> ltStarter t = StWaiting
     \<and> ltStarter (lt_check (lt_publish True 5 t)) = StReturned (Some 5)"
proof -
  let ?t1 = "newEventLoopThread\<lparr>ltThread := ThRunning, ltStarter := StStarted\<rparr>"
  let ?t2 = "?t1\<lparr>ltStarter := StWaiting\<rparr>"
  have "reach (\<lambda>t. t = newEventLoopThread) (lt_step True 5) ?t1"
    by (rule reach_step[of _ _ newEventLoopThread], rule reach_init)
      (simp_all add: newEventLoopThread_def lt_step.simps lt_start_def)
  moreover have "lt_step True 5 ?t1 (lt_check ?t1)" by (rule ls_check) simp
  then have "lt_step True 5 ?t1 ?t2" by (simp add: lt_check_def newEventLoopThread_def)
  ultimately have r: "reach (\<lambda>t. t = newEventLoopThread) (lt_step True 5) ?t2" by (rule reach_step)
  from startLoop_handshake[OF r] r show ?thesis by (intro exI[of _ ?t2]) simp
qed

subsection \<open>The pool\<close>

text \<open>The base loop is 0; \<open>tpMade\<close> lists the loops whose thread called the init callback.\<close>

record loop_pool =
  tpStarted :: bool
  tpNumThreads :: int
  tpNext :: nat
  tpLoops :: "nat list"
  tpMade :: "nat list"

definition newEventLoopThreadPool :: loop_pool where
  "newEventLoopThreadPool = \<lparr>tpStarted = False, tpNumThreads = 0, tpNext = 0, tpLoops = [], tpMade = []\<rparr>"

definition tp_setThreadNum :: "int \<Rightarrow> loop_pool \<Rightarrow> loop_pool" where
  "tp_setThreadNum n p = p\<lparr>tpNumThreads := n\<rparr>"

text \<open>The loop of the i-th thread is number \<open>i + 1\<close>.\<close>

definition tp_start :: "bool \<Rightarrow> bool \<Rightarrow> loop_pool \<Rightarrow> loop_pool res" where
  "tp_start inBaseLoop hasCallback p =
     ensure (\<not> tpStarted p) ''start: !started_''
     (if \<not> inBaseLoop then Inl (Aborted ''EventLoop::abortNotInLoopThread'')
      else
        let news = map Suc [0..<nat (tpNumThreads p)];
            p1 = p\<lparr>tpStarted := True, tpLoops := tpLoops p @ news,
                   tpMade := tpMade p @ (if hasCallback then news else [])\<rparr>
        in Inr (if tpNumThreads p1 = 0 \<and> hasCallback then p1\<lparr>tpMade := tpMade p1 @ [0]\<rparr> else p1))"

definition getNextLoop :: "loop_pool \<Rightarrow> (nat \<times> loop_pool) res" where
  "getNextLoop p =
     (if tpLoops p = [] then Inr (0, p)
      else if length (tpLoops p) \<le> tpNext p then Inl (BadAccess ''loops_[next_]'')
      else
        let loop = tpLoops p ! tpNext p;
            next = tpNext p + 1
        in Inr (loop, p\<lparr>tpNext := if length (tpLoops p) \<le> next then 0 else next\<rparr>))"

definition pool_wf :: "loop_pool \<Rightarrow> bool" where
  "pool_wf p \<longleftrightarrow> (tpLoops p = [] \<and> tpNext p = 0 \<or> tpNext p < length (tpLoops p))"

lemma getNextLoop_ok:
  assumes "pool_wf p"
  shows "\<exists>l p'. getNextLoop p = Inr (l, p') \<and> pool_wf p' \<and> tpLoops p' = tpLoops p"
  using assms by (auto simp: getNextLoop_def pool_wf_def Let_def)

fun next_loops :: "nat \<Rightarrow> loop_pool \<Rightarrow> nat list res" where
  "next_loops 0 p = Inr []"
| "next_loops (Suc k) p = bindR (getNextLoop p) (\<lambda>(l, p'). bindR (next_loops k p') (\<lambda>ls. Inr (l # ls)))"

lemma next_loops_cycle:
  assumes "tpLoops p \<noteq> []" and "tpNext p < length (tpLoops p)"
  shows "next_loops k p = Inr (map (\<lambda>i. tpLoops p ! ((tpNext p + i) mod length (tpLoops p))) [0..<k])"
  using assms
proof (induction k arbitrary: p)
  case (Suc k)
  let ?n = "length (tpLoops p)"
  define nx where "nx = (if ?n \<le> tpNext p + 1 then 0 else tpNext p + 1)"
  have nx: "nx = (tpNext p + 1) mod ?n" using Suc.prems by (auto simp: nx_def mod_if)
  have g: "getNextLoop p = Inr (tpLoops p ! tpNext p, p\<lparr>tpNext := nx\<rparr>)"
    using Suc.prems by (simp add: getNextLoop_def nx_def Let_def)
  have "nx < ?n" using Suc.prems by (simp add: nx_def)
  then have "next_loops k (p\<lparr>tpNext := nx\<rparr>) = Inr (map (\<lambda>i. tpLoops p ! ((nx + i) mod ?n)) [0..<k])"
    using Suc.IH[of "p\<lparr>tpNext := nx\<rparr>"] Suc.prems by simp
  moreover have "(nx + i) mod ?n = (tpNext p + Suc i) mod ?n" for i
    by (simp add: nx mod_add_left_eq)
  moreover have "map f [0..<Suc k] = f 0 # map (\<lambda>i. f (Suc i)) [0..<k]" for f :: "nat \<Rightarrow> nat"
    by (simp add: map_Suc_upt[symmetric] upt_conv_Cons comp_def del: upt_Suc)
  ultimately show ?case using g Suc.prems by (simp del: upt_Suc)
qed simp

text \<open>Round robin: a pool started with n threads hands out its n loops in turn, the k-th
  connection going to loop \<open>k mod n\<close>; a pool with no threads always hands out the base loop.\<close>

theorem round_robin:
  assumes "tp_start True cb (tp_setThreadNum n newEventLoopThreadPool) = Inr p"
  shows "next_loops k p = Inr (map (\<lambda>i. if n \<le> 0 then 0 else Suc (i mod nat n)) [0..<k])"
proof (cases "n \<le> 0")
  case True
  then have "tpLoops p = []"
    using assms by (auto simp: tp_start_def tp_setThreadNum_def newEventLoopThreadPool_def Let_def split: if_splits)
  then have "next_loops k p = Inr (replicate k 0)"
    by (induction k) (simp_all add: getNextLoop_def)
  then show ?thesis using True by (simp add: map_replicate_const)
next
  case False
  then have p: "tpLoops p = map Suc [0..<nat n]" "tpNext p = 0"
    using assms by (auto simp: tp_start_def tp_setThreadNum_def newEventLoopThreadPool_def Let_def split: if_splits)
  have "next_loops k p = Inr (map (\<lambda>i. tpLoops p ! ((tpNext p + i) mod length (tpLoops p))) [0..<k])"
    by (rule next_loops_cycle) (use False p in auto)
  then show ?thesis using False p by simp
qed

theorem round_robin_witness:
  "\<exists>p. tp_start True True (tp_setThreadNum 3 newEventLoopThreadPool) = Inr p \<and> next_loops 5 p = Inr [1, 2, 3, 1, 2]"
proof -
  obtain p where p: "tp_start True True (tp_setThreadNum 3 newEventLoopThreadPool) = Inr p"
    by (simp add: tp_start_def tp_setThreadNum_def newEventLoopThreadPool_def Let_def)
  have five: "[0..<5] = [0, 1, 2, 3, 4 :: nat]" by (simp add: upt_rec)
  have "next_loops 5 p = Inr (map (\<lambda>i. if (3 :: int) \<le> 0 then 0 else Suc (i mod nat 3)) [0..<5])"
    by (rule round_robin[OF p])
  then have "next_loops 5 p = Inr [1, 2, 3, 1, 2]" unfolding five by simp
  with p show ?thesis by blast
qed

end
