(* ===== verification/TcpServer.thy ===== *)
theory TcpServer
  imports ConnectionLife InetAddress EventLoopThreadPool
begin

text \<open>
  \<open>muduo::net::TcpServer\<close> (\<open>muduo/net/TcpServer.h\<close>, \<open>TcpServer.cc\<close>) with its connections: the map of
  connections in the base loop, connections assigned to the loops of the pool, and the functors the
  server and its loops queue for each other (\<open>connectEstablished\<close> in the IO loop,
  \<open>removeConnectionInLoop\<close> in the base loop, \<open>connectDestroyed\<close> in the IO loop again). Loop 0 is the
  base loop. The connection objects are those of \<open>TcpConnection\<close>, by number.
\<close>

subsection \<open>State\<close>

datatype sv_functor = SvEstablish nat | SvRemove nat | SvDestroyConn nat

record sconn =
  scName :: string
  scLoop :: nat
  scConn :: conn
  scDestroyed :: nat

record tcp_server =
  svHostport :: string
  svName :: string
  svPool :: loop_pool
  svHasWriteComplete :: bool
  svStarted :: bool
  svListening :: bool
  svNextConnId :: int
  svConnections :: "(string \<times> nat) list"
  svObjs :: "sconn list"
  svQueue :: "nat \<Rightarrow> sv_functor list"

definition newTcpServer :: "sockaddr_in \<Rightarrow> string \<Rightarrow> tcp_server res" where
  "newTcpServer listenAddr nameArg =
     bindR (toIpPort listenAddr) (\<lambda>hostport.
     Inr \<lparr>svHostport = hostport, svName = nameArg, svPool = newEventLoopThreadPool, svHasWriteComplete = False,
          svStarted = False, svListening = False, svNextConnId = 1, svConnections = [], svObjs = [], svQueue = (\<lambda>_. [])\<rparr>)"

definition sv_setThreadNum :: "int \<Rightarrow> tcp_server \<Rightarrow> tcp_server res" where
  "sv_setThreadNum n s = ensure (0 \<le> n) ''setThreadNum: 0 <= numThreads'' (Inr (s\<lparr>svPool := tp_setThreadNum n (svPool s)\<rparr>))"

text \<open>\<open>start\<close>, called in the base loop's thread (where \<open>runInLoop\<close> runs \<open>listen\<close> at once).\<close>

definition sv_start :: "bool \<Rightarrow> tcp_server \<Rightarrow> tcp_server res" where
  "sv_start hasInit s =
     bindR (if \<not> svStarted s
            then bindR (tp_start True hasInit (svPool s)) (\<lambda>p. Inr (s\<lparr>svStarted := True, svPool := p\<rparr>))
            else Inr s) (\<lambda>s1.
     Inr (if \<not> svListening s1 then s1\<lparr>svListening := True\<rparr> else s1))"

definition sv_queue :: "nat \<Rightarrow> sv_functor \<Rightarrow> tcp_server \<Rightarrow> tcp_server" where
  "sv_queue l f s = s\<lparr>svQueue := (svQueue s)(l := svQueue s l @ [f])\<rparr>"

definition sv_setConn :: "nat \<Rightarrow> conn \<Rightarrow> tcp_server \<Rightarrow> tcp_server" where
  "sv_setConn cid c s = s\<lparr>svObjs := (svObjs s)[cid := (svObjs s ! cid)\<lparr>scConn := c\<rparr>]\<rparr>"

subsection \<open>Operations\<close>

definition connName :: "string \<Rightarrow> string \<Rightarrow> int \<Rightarrow> string" where
  "connName name hostport connId = name @ snprintf 32 ('':'' @ hostport @ ''#'' @ dec_int connId)"

definition removeConnectionInLoop :: "nat \<Rightarrow> tcp_server \<Rightarrow> tcp_server res" where
  "removeConnectionInLoop cid s =
     (let o1 = svObjs s ! cid;
          m = std_map_erase (scName o1) (svConnections s);
          n = length (svConnections s) - length m
      in ensure (n = 1) ''removeConnectionInLoop: n == 1''
         (Inr (sv_queue (scLoop o1) (SvDestroyConn cid) (s\<lparr>svConnections := m\<rparr>))))"

text \<open>The close callback, in the thread of loop \<open>cur\<close>: \<open>runInLoop\<close> of the base loop.\<close>

definition sv_removeConnection :: "nat \<Rightarrow> nat \<Rightarrow> tcp_server \<Rightarrow> tcp_server res" where
  "sv_removeConnection cur cid s =
     (if cur = 0 then removeConnectionInLoop cid s else Inr (sv_queue 0 (SvRemove cid) s))"

text \<open>An event of a connection in its loop's thread; if the connection calls its close callback the
  server is told.\<close>

definition sv_conn_event :: "nat \<Rightarrow> conn_event \<Rightarrow> tcp_server \<Rightarrow> tcp_server res" where
  "sv_conn_event cid ev s =
     (let o1 = svObjs s ! cid; c = scConn o1
      in bindR (conn_event_do ev c) (\<lambda>c'.
         let s1 = sv_setConn cid c' s
         in if closes c < closes c' then sv_removeConnection (scLoop o1) cid s1 else Inr s1))"

definition sv_newConnection :: "int \<Rightarrow> conn_act list \<Rightarrow> tcp_server \<Rightarrow> tcp_server res" where
  "sv_newConnection sockfd acts s =
     bindR (getNextLoop (svPool s)) (\<lambda>(ioLoop, pool).
     let name = connName (svName s) (svHostport s) (svNextConnId s);
         cid = length (svObjs s);
         c = newConn cid sockfd;
         c1 = (if svHasWriteComplete s then setWriteCompleteCallback c else c);
         s1 = s\<lparr>svPool := pool, svNextConnId := svNextConnId s + 1,
                svObjs := svObjs s @ [\<lparr>scName = name, scLoop = ioLoop, scConn = c1, scDestroyed = 0\<rparr>],
                svConnections := std_map_put name cid (svConnections s)\<rparr>
     in if ioLoop = 0 then sv_conn_event cid (EvEstablished acts) s1
        else Inr (sv_queue ioLoop (SvEstablish cid) s1))"

definition sv_destroyConn :: "nat \<Rightarrow> conn_act list \<Rightarrow> tcp_server \<Rightarrow> tcp_server res" where
  "sv_destroyConn cid acts s =
     (let o1 = svObjs s ! cid
      in bindR (connectDestroyed acts (scConn o1)) (\<lambda>c'.
         Inr (s\<lparr>svObjs := (svObjs s)[cid := o1\<lparr>scConn := c', scDestroyed := scDestroyed o1 + 1\<rparr>]\<rparr>)))"

text \<open>The destructor: every connection of the map, in order, is let go and destroyed in its loop.\<close>

definition destroyTcpServer :: "conn_act list \<Rightarrow> tcp_server \<Rightarrow> tcp_server res" where
  "destroyTcpServer acts s =
     foldR (\<lambda>(name, cid) s.
        if scLoop (svObjs s ! cid) = 0 then sv_destroyConn cid acts s
        else Inr (sv_queue (scLoop (svObjs s ! cid)) (SvDestroyConn cid) s))
      (svConnections s) s"

subsection \<open>Events\<close>

datatype sv_event =
    SvAccept int "conn_act list"
  | SvConn nat conn_event
  | SvLoop nat "conn_act list"

text \<open>\<open>SvLoop l\<close>: loop \<open>l\<close> runs its oldest functor of the server.\<close>

fun sv_event_do :: "sv_event \<Rightarrow> tcp_server \<Rightarrow> tcp_server res" where
  "sv_event_do (SvAccept fd acts) s = sv_newConnection fd acts s"
| "sv_event_do (SvConn cid ev) s = sv_conn_event cid ev s"
| "sv_event_do (SvLoop l acts) s =
     (case svQueue s l of
        [] \<Rightarrow> Inr s
      | f # fs \<Rightarrow>
          let s1 = s\<lparr>svQueue := (svQueue s)(l := fs)\<rparr>
          in case f of
               SvEstablish cid \<Rightarrow> sv_conn_event cid (EvEstablished acts) s1
             | SvRemove cid \<Rightarrow> removeConnectionInLoop cid s1
             | SvDestroyConn cid \<Rightarrow> sv_destroyConn cid acts s1)"

text \<open>What the loops deliver: connections are accepted while there are fewer than 99999999; an
  established connection gets the events it may get, one that was destroyed only calls and
  functors.\<close>

fun sv_legal :: "sv_event \<Rightarrow> tcp_server \<Rightarrow> bool" where
  "sv_legal (SvAccept fd acts) s \<longleftrightarrow> length (svObjs s) < 99999999"
| "sv_legal (SvConn cid ev) s \<longleftrightarrow> cid < length (svObjs s)
     \<and> cnState (scConn (svObjs s ! cid)) \<noteq> kConnecting \<and> \<not> is_established_event ev
     \<and> (if scDestroyed (svObjs s ! cid) = 0 then live_legal ev (scConn (svObjs s ! cid)) else dead_legal ev)"
| "sv_legal (SvLoop l acts) s \<longleftrightarrow> True"

fun sv_legal_run :: "sv_event list \<Rightarrow> tcp_server \<Rightarrow> tcp_server res option" where
  "sv_legal_run [] s = Some (Inr s)"
| "sv_legal_run (ev # evs) s =
     (if sv_legal ev s
      then (case sv_event_do ev s of Inl e \<Rightarrow> Some (Inl e) | Inr s' \<Rightarrow> sv_legal_run evs s')
      else None)"

subsection \<open>Names\<close>

lemma connName_inj:
  assumes "length hostport \<le> 21" and "0 \<le> i" "i < 100000000" and "0 \<le> j" "j < 100000000"
    and "connName name hostport i = connName name hostport j"
  shows "i = j"
proof -
  have len: "length (dec_nat (nat k)) \<le> 8" if "0 \<le> k" "k < 100000000" for k
    by (rule length_to_base) (use that in auto)
  have "snprintf 32 ('':'' @ hostport @ ''#'' @ dec_int k) = '':'' @ hostport @ ''#'' @ dec_nat (nat k)"
    if "0 \<le> k" "k < 100000000" for k
    using len[OF that] assms(1) that by (simp add: snprintf_def dec_int_def)
  then have "dec_nat (nat i) = dec_nat (nat j)" using assms by (simp add: connName_def)
  then have "nat i = nat j" by (rule to_base_inj[rotated -1]) simp_all
  then show ?thesis using assms by simp
qed

text \<open>Where the bound comes from: with the longest host and port the 100000000th connection gets the
  name of the 10000000th.\<close>

lemma connName_collision:
  "length hostport = 21 \<Longrightarrow> connName name hostport 100000000 = connName name hostport 10000000"
proof -
  assume len: "length hostport = 21"
  have "dec_nat 100000000 = dec_nat 10000000 @ [digit_char 0]" by (subst to_base.simps) simp
  moreover have "length (dec_nat 10000000) = 8" by (simp add: to_base.simps)
  ultimately show ?thesis using len by (simp add: connName_def snprintf_def dec_int_def)
qed

subsection \<open>Invariant\<close>

text \<open>For each loop, how many functors of a kind for the connection are waiting in it.\<close>

definition waiting :: "(nat \<Rightarrow> sv_functor) \<Rightarrow> tcp_server \<Rightarrow> nat \<Rightarrow> nat \<Rightarrow> nat" where
  "waiting k s cid l = count_list (svQueue s l) (k cid)"

definition at_loop :: "nat \<Rightarrow> nat \<Rightarrow> nat \<Rightarrow> nat" where
  "at_loop l n = (\<lambda>_. 0)(l := n)"

text \<open>A connection's way: its \<open>connectEstablished\<close> waits in its loop while it is connecting; the one
  close callback it makes is a \<open>removeConnectionInLoop\<close> waiting in the base loop, then a
  \<open>connectDestroyed\<close> waiting in its loop, then done; it is in the map until it is removed.\<close>

definition obj_ok :: "sconn \<Rightarrow> (nat \<Rightarrow> nat) \<Rightarrow> (nat \<Rightarrow> nat) \<Rightarrow> (nat \<Rightarrow> nat) \<Rightarrow> bool \<Rightarrow> bool" where
  "obj_ok ob est rem des inmap \<longleftrightarrow>
     closes (scConn ob) = (if cnState (scConn ob) = kDisconnected then 1 else 0)
   \<and> est = at_loop (scLoop ob) (if cnState (scConn ob) = kConnecting then 1 else 0)
   \<and> (\<exists>r d. rem = at_loop 0 r \<and> des = at_loop (scLoop ob) d
        \<and> closes (scConn ob) = r + d + scDestroyed ob \<and> (inmap \<longleftrightarrow> d + scDestroyed ob = 0))
   \<and> (if scDestroyed ob = 0 then conn_inv (scConn ob) else conn_dead (scConn ob))"

lemma obj_okI:
  assumes "closes (scConn ob) = (if cnState (scConn ob) = kDisconnected then 1 else 0)"
    "est = at_loop (scLoop ob) (if cnState (scConn ob) = kConnecting then 1 else 0)"
    "rem = at_loop 0 r" "des = at_loop (scLoop ob) d" "closes (scConn ob) = r + d + scDestroyed ob"
    "inmap \<longleftrightarrow> d + scDestroyed ob = 0" "if scDestroyed ob = 0 then conn_inv (scConn ob) else conn_dead (scConn ob)"
  shows "obj_ok ob est rem des inmap"
  using assms unfolding obj_ok_def by blast

lemma obj_okE:
  assumes "obj_ok ob est rem des inmap"
  obtains r d where "closes (scConn ob) = (if cnState (scConn ob) = kDisconnected then 1 else 0)"
    "est = at_loop (scLoop ob) (if cnState (scConn ob) = kConnecting then 1 else 0)"
    "rem = at_loop 0 r" "des = at_loop (scLoop ob) d" "closes (scConn ob) = r + d + scDestroyed ob"
    "inmap \<longleftrightarrow> d + scDestroyed ob = 0" "if scDestroyed ob = 0 then conn_inv (scConn ob) else conn_dead (scConn ob)"
proof -
  note A = assms[unfolded obj_ok_def]
  obtain r d where rd: "rem = at_loop 0 r" "des = at_loop (scLoop ob) d"
      "closes (scConn ob) = r + d + scDestroyed ob" "inmap \<longleftrightarrow> d + scDestroyed ob = 0"
    using A[THEN conjunct2, THEN conjunct2, THEN conjunct1] by (elim exE conjE)
  show ?thesis
    by (rule that[OF A[THEN conjunct1] A[THEN conjunct2, THEN conjunct1] rd A[THEN conjunct2, THEN conjunct2, THEN conjunct2]])
qed

definition in_map :: "tcp_server \<Rightarrow> nat \<Rightarrow> bool" where
  "in_map s cid \<longleftrightarrow> map_of (svConnections s) (scName (svObjs s ! cid)) = Some cid"

definition sv_obj_ok :: "tcp_server \<Rightarrow> nat \<Rightarrow> bool" where
  "sv_obj_ok s cid \<longleftrightarrow> obj_ok (svObjs s ! cid) (waiting SvEstablish s cid) (waiting SvRemove s cid)
     (waiting SvDestroyConn s cid) (in_map s cid)"

fun sv_target :: "sv_functor \<Rightarrow> nat" where
  "sv_target (SvEstablish cid) = cid"
| "sv_target (SvRemove cid) = cid"
| "sv_target (SvDestroyConn cid) = cid"

definition sv_frame :: "tcp_server \<Rightarrow> bool" where
  "sv_frame s \<longleftrightarrow> length (svHostport s) \<le> 21 \<and> svNextConnId s = int (length (svObjs s)) + 1
   \<and> length (svObjs s) \<le> 99999999 \<and> std_map_wf (svConnections s) \<and> pool_wf (svPool s)
   \<and> (\<forall>cid < length (svObjs s). scName (svObjs s ! cid) = connName (svName s) (svHostport s) (int cid + 1))
   \<and> (\<forall>nm cid. map_of (svConnections s) nm = Some cid \<longrightarrow> cid < length (svObjs s))
   \<and> (\<forall>l. \<forall>f \<in> set (svQueue s l). sv_target f < length (svObjs s))"

definition sv_inv :: "tcp_server \<Rightarrow> bool" where
  "sv_inv s \<longleftrightarrow> sv_frame s \<and> (\<forall>cid < length (svObjs s). sv_obj_ok s cid)"

lemma names_distinct:
  assumes "sv_frame s" "i < length (svObjs s)" "j < length (svObjs s)"
    and "scName (svObjs s ! i) = scName (svObjs s ! j)"
  shows "i = j"
proof -
  have "connName (svName s) (svHostport s) (int i + 1) = connName (svName s) (svHostport s) (int j + 1)"
    using assms by (simp add: sv_frame_def)
  moreover have "length (svHostport s) \<le> 21" "length (svObjs s) \<le> 99999999" using assms(1) by (simp_all add: sv_frame_def)
  ultimately have "int i + 1 = int j + 1" using assms(2,3) by (intro connName_inj) auto
  then show ?thesis by simp
qed

lemma waiting_queue:
  "waiting k (sv_queue l f s) cid = (waiting k s cid)(l := waiting k s cid l + (if f = k cid then 1 else 0))"
  by (auto simp: waiting_def sv_queue_def fun_eq_iff)

lemma waiting_other [simp]:
  "waiting k (s\<lparr>svObjs := os\<rparr>) = waiting k s" "waiting k (s\<lparr>svConnections := m\<rparr>) = waiting k s"
  "waiting k (sv_setConn cid c s) = waiting k s"
  by (simp_all add: waiting_def sv_setConn_def fun_eq_iff)

lemma at_loop_upd [simp]: "(at_loop l n)(l := m) = at_loop l m"
  by (simp add: at_loop_def)

lemma at_loop_same [simp]: "at_loop l n l = n"
  by (simp add: at_loop_def)

lemma at_loop_zero [simp]: "at_loop l 0 = (\<lambda>_. 0)" and at_loop_fold: "(\<lambda>_. 0)(l := n) = at_loop l n"
  by (auto simp: at_loop_def fun_eq_iff)

text \<open>Objects that an operation does not concern.\<close>

lemma sv_obj_ok_cong:
  assumes "svObjs s' ! cid = svObjs s ! cid" "\<And>k. k \<in> {SvEstablish, SvRemove, SvDestroyConn} \<Longrightarrow> waiting k s' cid = waiting k s cid"
    and "in_map s' cid = in_map s cid"
  shows "sv_obj_ok s' cid = sv_obj_ok s cid"
  using assms by (simp add: sv_obj_ok_def)

lemma sv_queue_sel [simp]:
  "svObjs (sv_queue l f s) = svObjs s" "svConnections (sv_queue l f s) = svConnections s"
  "svHostport (sv_queue l f s) = svHostport s" "svName (sv_queue l f s) = svName s"
  "svPool (sv_queue l f s) = svPool s" "svNextConnId (sv_queue l f s) = svNextConnId s"
  by (simp_all add: sv_queue_def)

lemma sv_frame_queue: "sv_frame s \<Longrightarrow> sv_target f < length (svObjs s) \<Longrightarrow> sv_frame (sv_queue l f s)"
  by (auto simp: sv_frame_def sv_queue_def)

lemma sv_obj_ok_queue:
  assumes "sv_target f \<noteq> cid"
  shows "sv_obj_ok (sv_queue l f s) cid = sv_obj_ok s cid"
proof (rule sv_obj_ok_cong)
  show "waiting k (sv_queue l f s) cid = waiting k s cid" if "k \<in> {SvEstablish, SvRemove, SvDestroyConn}" for k
    using that assms by (auto simp: waiting_queue fun_eq_iff)
qed (simp_all add: in_map_def)

subsection \<open>Operations keep it\<close>

text \<open>Erasing a connection from the map and queueing its destruction.\<close>

lemma removeConnectionInLoop_ok:
  assumes fr: "sv_frame s" and cid: "cid < length (svObjs s)"
    and others: "\<And>j. j < length (svObjs s) \<Longrightarrow> j \<noteq> cid \<Longrightarrow> sv_obj_ok s j"
    and est: "waiting SvEstablish s cid = (\<lambda>_. 0)" and st: "cnState (scConn (svObjs s ! cid)) = kDisconnected"
    and cl: "closes (scConn (svObjs s ! cid)) = 1" and d: "scDestroyed (svObjs s ! cid) = 0"
    and rem: "waiting SvRemove s cid = (\<lambda>_. 0)" and des: "waiting SvDestroyConn s cid = (\<lambda>_. 0)"
    and inm: "in_map s cid" and inv: "conn_inv (scConn (svObjs s ! cid))"
  shows "\<exists>s'. removeConnectionInLoop cid s = Inr s' \<and> sv_inv s'"
proof -
  let ?o = "svObjs s ! cid"
  let ?m = "std_map_erase (scName ?o) (svConnections s)"
  let ?s1 = "s\<lparr>svConnections := ?m\<rparr>"
  let ?s' = "sv_queue (scLoop ?o) (SvDestroyConn cid) ?s1"
  have wf: "std_map_wf (svConnections s)" using fr by (simp add: sv_frame_def)
  have "length (svConnections s) - length ?m = 1"
    using length_erase[OF wf, of "scName ?o"] inm by (simp add: in_map_def)
  then have run: "removeConnectionInLoop cid s = Inr ?s'" by (simp add: removeConnectionInLoop_def Let_def)
  have fr1: "sv_frame ?s1" using fr std_map_erase_wf[OF wf] by (auto simp: sv_frame_def)
  have fr': "sv_frame ?s'" by (rule sv_frame_queue[OF fr1]) (use cid in simp)
  have "sv_obj_ok ?s' j" if j: "j < length (svObjs s)" for j
  proof (cases "j = cid")
    case True
    have "waiting SvDestroyConn ?s' cid = at_loop (scLoop ?o) 1"
      using des by (simp add: waiting_queue at_loop_fold)
    moreover have "waiting SvRemove ?s' cid = (\<lambda>_. 0)" "waiting SvEstablish ?s' cid = (\<lambda>_. 0)"
      using rem est by (simp_all add: waiting_queue fun_eq_iff)
    moreover have "\<not> in_map ?s' cid" by (simp add: in_map_def)
    ultimately show ?thesis unfolding sv_obj_ok_def True
      by (intro obj_okI[where r = 0 and d = 1]) (use st cl d inv in simp_all)
  next
    case False
    have "scName (svObjs s ! j) \<noteq> scName ?o" using names_distinct[OF fr j cid] False by blast
    then have "in_map ?s1 j = in_map s j" by (simp add: in_map_def)
    then have "sv_obj_ok ?s1 j = sv_obj_ok s j" by (intro sv_obj_ok_cong) simp_all
    then show ?thesis using others[OF j False] False by (simp add: sv_obj_ok_queue)
  qed
  with run fr' show ?thesis by (auto simp: sv_inv_def)
qed

lemma sv_setConn_frame: "sv_frame s \<Longrightarrow> sv_frame (sv_setConn cid c s)"
  by (cases "cid < length (svObjs s)") (auto simp: sv_frame_def sv_setConn_def nth_list_update)

lemma sv_setConn_other: "j \<noteq> cid \<Longrightarrow> sv_obj_ok (sv_setConn cid c s) j = sv_obj_ok s j"
  by (rule sv_obj_ok_cong) (simp_all add: sv_setConn_def in_map_def waiting_def fun_eq_iff)

lemma sv_setConn_sel:
  "length (svObjs (sv_setConn cid c s)) = length (svObjs s)"
  "cid < length (svObjs s) \<Longrightarrow> svObjs (sv_setConn cid c s) ! cid = (svObjs s ! cid)\<lparr>scConn := c\<rparr>"
  "cid < length (svObjs s) \<Longrightarrow> in_map (sv_setConn cid c s) cid = in_map s cid"
  by (simp_all add: sv_setConn_def in_map_def)

lemma sv_conn_event_ok:
  assumes fr: "sv_frame s" and cid: "cid < length (svObjs s)"
    and others: "\<And>j. j < length (svObjs s) \<Longrightarrow> j \<noteq> cid \<Longrightarrow> sv_obj_ok s j"
    and ob: "ob = svObjs s ! cid"
    and ok: "obj_ok ob (at_loop (scLoop ob) (if cnState (scConn ob) = kConnecting then 1 else 0))
        (waiting SvRemove s cid) (waiting SvDestroyConn s cid) (in_map s cid)"
    and est: "waiting SvEstablish s cid = (\<lambda>_. 0)"
    and legal: "if scDestroyed ob = 0 then live_legal ev (scConn ob) else dead_legal ev"
    and con: "cnState (scConn ob) = kConnecting \<Longrightarrow> is_established_event ev"
  shows "\<exists>s'. sv_conn_event cid ev s = Inr s' \<and> sv_inv s'"
proof -
  let ?c = "scConn ob"
  obtain r d where rd: "waiting SvRemove s cid = at_loop 0 r" "waiting SvDestroyConn s cid = at_loop (scLoop ob) d"
      "closes ?c = r + d + scDestroyed ob" "in_map s cid \<longleftrightarrow> d + scDestroyed ob = 0"
      "closes ?c = (if cnState ?c = kDisconnected then 1 else 0)"
      "if scDestroyed ob = 0 then conn_inv ?c else conn_dead ?c"
    using ok by (rule obj_okE)
  have "\<exists>c'. conn_event_do ev ?c = Inr c' \<and> life ?c c' \<and> cnState c' \<noteq> kConnecting
      \<and> (if scDestroyed ob = 0 then conn_inv c' else conn_dead c')"
    by (rule conn_event_summary) (use rd(6) legal con in \<open>auto split: if_splits\<close>)
  then obtain c' where c': "conn_event_do ev ?c = Inr c'" "life ?c c'" "cnState c' \<noteq> kConnecting"
      "if scDestroyed ob = 0 then conn_inv c' else conn_dead c'" by blast
  let ?s1 = "sv_setConn cid c' s"
  note sel = sv_setConn_sel(1)[of cid c' s] sv_setConn_sel(2,3)[OF cid, of c'] ob[symmetric]
  have fr1: "sv_frame ?s1" by (rule sv_setConn_frame[OF fr])
  have oth1: "sv_obj_ok ?s1 j" if "j < length (svObjs s)" "j \<noteq> cid" for j
    using others[OF that] that(2) by (simp add: sv_setConn_other)
  show ?thesis
  proof (cases "closes ?c < closes c'")
    case False
    then have cl: "closes c' = closes ?c" "closes c' = (if cnState c' = kDisconnected then 1 else 0)"
      using c'(2) rd(5) by (auto simp: life_def split: if_splits)
    have "sv_obj_ok ?s1 cid"
      unfolding sv_obj_ok_def sel waiting_other
      by (rule obj_okI[where r = r and d = d]) (use rd c'(3,4) cl est in simp_all)
    then have "sv_inv ?s1" using fr1 oth1 sel(1) by (auto simp: sv_inv_def)
    with False c'(1) show ?thesis by (simp add: sv_conn_event_def ob Let_def)
  next
    case True
    then have st: "cnState ?c \<noteq> kDisconnected" "cnState c' = kDisconnected" "closes c' = 1" "closes ?c = 0"
      using c'(2) rd(5) by (auto simp: life_def split: if_splits)
    then have zero: "r = 0" "d = 0" "scDestroyed ob = 0" using rd(3) by auto
    have inv': "conn_inv c'" using c'(4) zero by simp
    have run: "sv_conn_event cid ev s = sv_removeConnection (scLoop ob) cid ?s1"
      using True c'(1) by (simp add: sv_conn_event_def ob Let_def)
    show ?thesis
    proof (cases "scLoop ob = 0")
      case True
      have "\<exists>s'. removeConnectionInLoop cid ?s1 = Inr s' \<and> sv_inv s'"
        by (rule removeConnectionInLoop_ok[OF fr1])
          (use cid oth1 sel st rd zero est inv' in \<open>simp_all\<close>)
      with run True show ?thesis by (simp add: sv_removeConnection_def)
    next
      case False
      let ?s2 = "sv_queue 0 (SvRemove cid) ?s1"
      have "sv_obj_ok ?s2 cid"
        unfolding sv_obj_ok_def waiting_queue sv_queue_sel sel waiting_other
        by (rule obj_okI[where r = 1 and d = 0])
          (use rd zero st est inv' sel(3) in \<open>simp_all add: in_map_def at_loop_fold\<close>)
      moreover have "sv_obj_ok ?s2 j" if "j < length (svObjs s)" "j \<noteq> cid" for j
        using oth1[OF that] that(2) by (simp add: sv_obj_ok_queue)
      moreover have "sv_frame ?s2" by (rule sv_frame_queue[OF fr1]) (use cid sel(1) in simp)
      ultimately have "sv_inv ?s2" using sel(1) by (auto simp: sv_inv_def)
      with run False show ?thesis by (simp add: sv_removeConnection_def)
    qed
  qed
qed

lemma sv_setObj_frame:
  "sv_frame s \<Longrightarrow> scName ob = scName (svObjs s ! cid) \<Longrightarrow> sv_frame (s\<lparr>svObjs := (svObjs s)[cid := ob]\<rparr>)"
  by (cases "cid < length (svObjs s)") (auto simp: sv_frame_def nth_list_update)

lemma sv_destroyConn_ok:
  assumes fr: "sv_frame s" and cid: "cid < length (svObjs s)"
    and others: "\<And>j. j < length (svObjs s) \<Longrightarrow> j \<noteq> cid \<Longrightarrow> sv_obj_ok s j"
    and est: "waiting SvEstablish s cid = (\<lambda>_. 0)" and rem: "waiting SvRemove s cid = (\<lambda>_. 0)"
    and des: "waiting SvDestroyConn s cid = (\<lambda>_. 0)" and inm: "\<not> in_map s cid"
    and c: "cnState (scConn (svObjs s ! cid)) = kDisconnected" "closes (scConn (svObjs s ! cid)) = 1"
      "scDestroyed (svObjs s ! cid) = 0" "conn_inv (scConn (svObjs s ! cid))"
  shows "\<exists>s'. sv_destroyConn cid acts s = Inr s' \<and> sv_inv s'"
proof -
  let ?o = "svObjs s ! cid"
  from connectDestroyed_closed[OF c(4,1), of acts] obtain c' where
    c': "connectDestroyed acts (scConn ?o) = Inr c'" "conn_dead c'" "life (scConn ?o) c'" by blast
  let ?o' = "?o\<lparr>scConn := c', scDestroyed := 1\<rparr>"
  let ?s' = "s\<lparr>svObjs := (svObjs s)[cid := ?o']\<rparr>"
  have run: "sv_destroyConn cid acts s = Inr ?s'" using c' c(3) by (simp add: sv_destroyConn_def Let_def)
  have "sv_obj_ok ?s' cid"
    unfolding sv_obj_ok_def
    by (rule obj_okI[where r = 0 and d = 0])
      (use est rem des inm c c' cid in \<open>simp_all add: conn_dead_def life_def in_map_def\<close>)
  moreover have "sv_obj_ok ?s' j = sv_obj_ok s j" if "j \<noteq> cid" for j
    by (rule sv_obj_ok_cong) (use that in \<open>simp_all add: in_map_def\<close>)
  ultimately have "sv_obj_ok ?s' j" if "j < length (svObjs s)" for j using others[OF that] by (cases "j = cid") blast+
  then have "sv_inv ?s'" using sv_setObj_frame[OF fr, of ?o' cid] by (simp add: sv_inv_def)
  with run show ?thesis by blast
qed

lemma sv_newConnection_ok:
  assumes inv: "sv_inv s" and room: "length (svObjs s) < 99999999"
  shows "\<exists>s'. sv_newConnection fd acts s = Inr s' \<and> sv_inv s'"
proof -
  have fr: "sv_frame s" using inv by (simp add: sv_inv_def)
  then have "pool_wf (svPool s)" by (simp add: sv_frame_def)
  from getNextLoop_ok[OF this] obtain l p where p: "getNextLoop (svPool s) = Inr (l, p)" "pool_wf p" by blast
  let ?cid = "length (svObjs s)"
  let ?name = "connName (svName s) (svHostport s) (svNextConnId s)"
  define c where "c = (if svHasWriteComplete s then setWriteCompleteCallback (newConn ?cid fd) else newConn ?cid fd)"
  define ob where "ob = \<lparr>scName = ?name, scLoop = l, scConn = c, scDestroyed = 0\<rparr>"
  define s1 where "s1 = s\<lparr>svPool := p, svNextConnId := svNextConnId s + 1, svObjs := svObjs s @ [ob],
     svConnections := std_map_put ?name ?cid (svConnections s)\<rparr>"
  have wf: "std_map_wf (svConnections s)" using fr by (simp add: sv_frame_def)
  have cinv: "conn_inv c" by (simp add: c_def newConn_inv newConn_wc_inv)
  have cst: "cnState c = kConnecting" "closes c = 0"
    by (simp_all add: c_def newConn_def setWriteCompleteCallback_def closes_def)
  have names: "scName (svObjs s1 ! j) = connName (svName s) (svHostport s) (int j + 1)" if "j < length (svObjs s1)" for j
    using that fr by (auto simp: s1_def nth_append ob_def sv_frame_def less_Suc_eq)
  have fr1: "sv_frame s1"
    unfolding sv_frame_def
  proof (intro conjI allI impI ballI)
    show "scName (svObjs s1 ! j) = connName (svName s1) (svHostport s1) (int j + 1)" if "j < length (svObjs s1)" for j
      using names[OF that] by (simp add: s1_def)
    show "cid < length (svObjs s1)" if "map_of (svConnections s1) nm = Some cid" for nm cid
      using that fr wf by (auto simp: s1_def sv_frame_def less_Suc_eq split: if_splits)
    show "sv_target f < length (svObjs s1)" if "f \<in> set (svQueue s1 q)" for q f
      using that fr by (auto simp: s1_def sv_frame_def less_Suc_eq)
  qed (use fr p(2) room std_map_put_wf[OF wf] in \<open>simp_all add: sv_frame_def s1_def\<close>)
  have w: "waiting k s1 cid = waiting k s cid" for k cid by (simp add: waiting_def s1_def fun_eq_iff)
  have old: "sv_obj_ok s1 j" if j: "j < length (svObjs s)" for j
  proof -
    have "scName (svObjs s1 ! j) \<noteq> ?name"
      using names_distinct[OF fr1, of j ?cid] j names[of ?cid] fr by (auto simp: s1_def sv_frame_def ob_def)
    then have "in_map s1 j = in_map s j" using j wf by (simp add: in_map_def s1_def nth_append)
    then show ?thesis using inv j sv_obj_ok_cong[of s1 j s] w by (simp add: sv_inv_def s1_def nth_append)
  qed
  have none: "waiting k s1 ?cid = (\<lambda>_. 0)" if "\<And>i. sv_target (k i) = i" for k
  proof
    fix q
    have "\<forall>f \<in> set (svQueue s q). sv_target f < ?cid" using fr by (simp add: sv_frame_def)
    then have "k ?cid \<notin> set (svQueue s q)" using that[of ?cid] by force
    then show "waiting k s1 ?cid q = 0" by (simp add: w waiting_def count_list_0_iff)
  qed
  have ob1: "svObjs s1 ! ?cid = ob" "?cid < length (svObjs s1)" by (simp_all add: s1_def)
  have inm: "in_map s1 ?cid" using wf by (simp add: in_map_def ob1 ob_def) (simp add: s1_def)
  have ok: "obj_ok ob (at_loop (scLoop ob) (if cnState (scConn ob) = kConnecting then 1 else 0))
        (waiting SvRemove s1 ?cid) (waiting SvDestroyConn s1 ?cid) (in_map s1 ?cid)"
    by (rule obj_okI[where r = 0 and d = 0]) (use cst cinv inm in \<open>simp_all add: none ob_def\<close>)
  have run: "sv_newConnection fd acts s = (if l = 0 then sv_conn_event ?cid (EvEstablished acts) s1
      else Inr (sv_queue l (SvEstablish ?cid) s1))"
    by (simp add: sv_newConnection_def p Let_def s1_def ob_def c_def)
  show ?thesis
  proof (cases "l = 0")
    case True
    have "\<exists>s'. sv_conn_event ?cid (EvEstablished acts) s1 = Inr s' \<and> sv_inv s'"
      by (rule sv_conn_event_ok[OF fr1 ob1(2) old ob1(1)[symmetric] ok])
        (use cst none in \<open>auto simp: ob_def s1_def less_Suc_eq\<close>)
    with run True show ?thesis by simp
  next
    case False
    let ?s2 = "sv_queue l (SvEstablish ?cid) s1"
    have "sv_obj_ok ?s2 ?cid"
      unfolding sv_obj_ok_def waiting_queue
      by (rule obj_okI[where r = 0 and d = 0])
        (use cst cinv inm ob1 none in \<open>simp_all add: in_map_def ob_def at_loop_fold\<close>)
    moreover have "sv_obj_ok ?s2 j" if "j < length (svObjs s)" for j
      using old[OF that] that by (simp add: sv_obj_ok_queue)
    moreover have "sv_frame ?s2" by (rule sv_frame_queue[OF fr1]) (simp add: ob1)
    ultimately have "sv_inv ?s2" by (auto simp: sv_inv_def s1_def less_Suc_eq)
    with run False show ?thesis by simp
  qed
qed

text \<open>Taking the oldest functor of a loop.\<close>

lemma sv_pop_other:
  assumes "svQueue s l = f # fs" "sv_target f \<noteq> j"
  shows "sv_obj_ok (s\<lparr>svQueue := (svQueue s)(l := fs)\<rparr>) j = sv_obj_ok s j"
proof (rule sv_obj_ok_cong)
  show "waiting k (s\<lparr>svQueue := (svQueue s)(l := fs)\<rparr>) j = waiting k s j"
    if "k \<in> {SvEstablish, SvRemove, SvDestroyConn}" for k
    using that assms by (auto simp: waiting_def fun_eq_iff)
qed (simp_all add: in_map_def)

lemma waiting_pop:
  assumes "svQueue s l = f # fs"
  shows "waiting k (s\<lparr>svQueue := (svQueue s)(l := fs)\<rparr>) j
    = (waiting k s j)(l := waiting k s j l - (if f = k j then 1 else 0))"
  using assms by (auto simp: waiting_def fun_eq_iff)

lemma sv_pop_frame:
  assumes "sv_frame s" "svQueue s l = f # fs"
  shows "sv_frame (s\<lparr>svQueue := (svQueue s)(l := fs)\<rparr>)" "sv_target f < length (svObjs s)"
proof -
  have "\<forall>g \<in> set (svQueue s l). sv_target g < length (svObjs s)" using assms(1) by (simp add: sv_frame_def)
  then show "sv_target f < length (svObjs s)" using assms(2) by simp
  have "sv_target g < length (svObjs s)" if "g \<in> set (((svQueue s)(l := fs)) q)" for q g
  proof -
    have "g \<in> set (svQueue s q)" using that assms(2) by (cases "q = l") auto
    then show ?thesis using assms(1) by (auto simp: sv_frame_def)
  qed
  then show "sv_frame (s\<lparr>svQueue := (svQueue s)(l := fs)\<rparr>)" using assms(1) by (simp add: sv_frame_def)
qed

lemma at_loop_pos: "0 < at_loop l n l' \<Longrightarrow> l' = l \<and> 0 < n"
  by (cases "l' = l") (simp_all add: at_loop_def)

lemma sv_loop_ok:
  assumes inv: "sv_inv s"
  shows "\<exists>s'. sv_event_do (SvLoop l acts) s = Inr s' \<and> sv_inv s'"
proof (cases "svQueue s l")
  case (Cons f fs)
  let ?s1 = "s\<lparr>svQueue := (svQueue s)(l := fs)\<rparr>"
  let ?cid = "sv_target f"
  have fr: "sv_frame s" using inv by (simp add: sv_inv_def)
  note fr1 = sv_pop_frame[OF fr Cons]
  have oth: "sv_obj_ok ?s1 j" if "j < length (svObjs ?s1)" "j \<noteq> ?cid" for j
    using inv that sv_pop_other[OF Cons, of j] by (simp add: sv_inv_def)
  define ob where "ob = svObjs s ! ?cid"
  have ok: "obj_ok ob (waiting SvEstablish s ?cid) (waiting SvRemove s ?cid) (waiting SvDestroyConn s ?cid) (in_map s ?cid)"
    using inv fr1(2) by (simp add: sv_inv_def sv_obj_ok_def ob_def)
  obtain r d where rd: "closes (scConn ob) = (if cnState (scConn ob) = kDisconnected then 1 else 0)"
      "waiting SvEstablish s ?cid = at_loop (scLoop ob) (if cnState (scConn ob) = kConnecting then 1 else 0)"
      "waiting SvRemove s ?cid = at_loop 0 r" "waiting SvDestroyConn s ?cid = at_loop (scLoop ob) d"
      "closes (scConn ob) = r + d + scDestroyed ob" "in_map s ?cid \<longleftrightarrow> d + scDestroyed ob = 0"
      "if scDestroyed ob = 0 then conn_inv (scConn ob) else conn_dead (scConn ob)"
    using ok by (rule obj_okE)
  have sel: "svObjs ?s1 = svObjs s" "in_map ?s1 ?cid = in_map s ?cid" by (simp_all add: in_map_def)
  have here: "0 < waiting k s ?cid l" if "f = k ?cid" for k using that Cons by (simp add: waiting_def)
  show ?thesis
  proof (cases f)
    case (SvEstablish i)
    then have "0 < at_loop (scLoop ob) (if cnState (scConn ob) = kConnecting then 1 else 0) l"
      using here[of SvEstablish] rd(2) by simp
    from at_loop_pos[OF this] have st: "l = scLoop ob" "cnState (scConn ob) = kConnecting" by (auto split: if_splits)
    have est: "waiting SvEstablish ?s1 ?cid = (\<lambda>_. 0)"
      using waiting_pop[OF Cons, of SvEstablish ?cid] rd(2) st SvEstablish by simp
    have w: "waiting SvRemove ?s1 ?cid = at_loop 0 r" "waiting SvDestroyConn ?s1 ?cid = at_loop (scLoop ob) d"
      using rd(3,4) SvEstablish by (simp_all add: waiting_pop[OF Cons])
    have d0: "scDestroyed ob = 0" using rd(5) rd(1) st(2) by simp
    have "\<exists>s'. sv_conn_event ?cid (EvEstablished acts) ?s1 = Inr s' \<and> sv_inv s'"
    proof (rule sv_conn_event_ok[OF fr1(1) _ oth _ _ est, where ob = ob])
      show "obj_ok ob (at_loop (scLoop ob) (if cnState (scConn ob) = kConnecting then 1 else 0))
          (waiting SvRemove ?s1 ?cid) (waiting SvDestroyConn ?s1 ?cid) (in_map ?s1 ?cid)"
        unfolding w sel(2) by (rule obj_okI[OF rd(1) refl refl refl rd(5-7)])
    qed (use fr1(2) d0 st in \<open>simp_all add: ob_def sel\<close>)
    with Cons SvEstablish show ?thesis by simp
  next
    case (SvRemove i)
    then have "0 < at_loop 0 r l" using here[of SvRemove] rd(3) by simp
    from at_loop_pos[OF this] have r: "l = 0" "r = 1" "d = 0" "scDestroyed ob = 0" "cnState (scConn ob) = kDisconnected"
      using rd(1,5) by (auto split: if_splits)
    have w: "waiting SvEstablish ?s1 ?cid = (\<lambda>_. 0)" "waiting SvRemove ?s1 ?cid = (\<lambda>_. 0)"
      "waiting SvDestroyConn ?s1 ?cid = (\<lambda>_. 0)"
      using waiting_pop[OF Cons, of SvEstablish ?cid] waiting_pop[OF Cons, of SvRemove ?cid]
        waiting_pop[OF Cons, of SvDestroyConn ?cid] rd(2-4) r SvRemove by (simp_all add: fun_upd_idem)
    have "\<exists>s'. removeConnectionInLoop ?cid ?s1 = Inr s' \<and> sv_inv s'"
      by (rule removeConnectionInLoop_ok[OF fr1(1) _ oth w(1) _ _ _ w(2,3)])
        (use fr1(2) r rd sel in \<open>simp_all add: ob_def\<close>)
    with Cons SvRemove show ?thesis by simp
  next
    case (SvDestroyConn i)
    then have "0 < at_loop (scLoop ob) d l" using here[of SvDestroyConn] rd(4) by simp
    from at_loop_pos[OF this] have r: "l = scLoop ob" "r = 0" "d = 1" "scDestroyed ob = 0" "cnState (scConn ob) = kDisconnected"
      using rd(1,5) by (auto split: if_splits)
    have w: "waiting SvEstablish ?s1 ?cid = (\<lambda>_. 0)" "waiting SvRemove ?s1 ?cid = (\<lambda>_. 0)"
      "waiting SvDestroyConn ?s1 ?cid = (\<lambda>_. 0)"
      using waiting_pop[OF Cons, of SvEstablish ?cid] waiting_pop[OF Cons, of SvRemove ?cid]
        waiting_pop[OF Cons, of SvDestroyConn ?cid] rd(2-4) r SvDestroyConn by (simp_all add: fun_upd_idem)
    have "\<exists>s'. sv_destroyConn ?cid acts ?s1 = Inr s' \<and> sv_inv s'"
      by (rule sv_destroyConn_ok[OF fr1(1) _ oth w])
        (use fr1(2) r rd sel in \<open>simp_all add: ob_def\<close>)
    with Cons SvDestroyConn show ?thesis by simp
  qed
qed (use inv in simp)

lemma sv_event_ok:
  assumes inv: "sv_inv s" and legal: "sv_legal ev s"
  shows "\<exists>s'. sv_event_do ev s = Inr s' \<and> sv_inv s'"
proof (cases ev)
  case (SvConn cid e)
  define ob where "ob = svObjs s ! cid"
  have cid: "cid < length (svObjs s)" and st: "cnState (scConn ob) \<noteq> kConnecting"
    using legal SvConn by (auto simp: ob_def)
  have ok: "obj_ok ob (waiting SvEstablish s cid) (waiting SvRemove s cid) (waiting SvDestroyConn s cid) (in_map s cid)"
    using inv cid by (simp add: sv_inv_def sv_obj_ok_def ob_def)
  then have est: "waiting SvEstablish s cid = at_loop (scLoop ob) (if cnState (scConn ob) = kConnecting then 1 else 0)"
    by (rule obj_okE)
  have "\<exists>s'. sv_conn_event cid e s = Inr s' \<and> sv_inv s'"
    by (rule sv_conn_event_ok[where ob = ob, OF _ cid _ ob_def])
      (use inv legal ok est st SvConn in \<open>simp_all add: sv_inv_def ob_def\<close>)
  with SvConn show ?thesis by simp
qed (use assms sv_newConnection_ok sv_loop_ok in auto)

lemma sv_legal_run_inv: "sv_inv s \<Longrightarrow> sv_legal_run evs s = Some r \<Longrightarrow> \<exists>s'. r = Inr s' \<and> sv_inv s'"
proof (induction evs arbitrary: s)
  case (Cons ev evs)
  then have l: "sv_legal ev s" by (auto split: if_splits)
  obtain s1 where "sv_event_do ev s = Inr s1" "sv_inv s1" using sv_event_ok[OF Cons.prems(1) l] by blast
  with Cons.IH[of s1] Cons.prems(2) l show ?case by simp
qed auto

lemma startedServer_inv:
  assumes "bindR (newTcpServer addr name) (\<lambda>s. bindR (sv_setThreadNum n s) (sv_start cb)) = Inr s"
  shows "sv_inv s" "svObjs s = []"
proof -
  obtain hp where hp: "toIpPort addr = Inr hp" "length hp \<le> 21" using toIpPort_whole[of addr] by simp
  have "s = \<lparr>svHostport = hp, svName = name, svPool = svPool s, svHasWriteComplete = False, svStarted = True,
      svListening = True, svNextConnId = 1, svConnections = [], svObjs = [], svQueue = (\<lambda>_. [])\<rparr> \<and> pool_wf (svPool s)"
    using assms hp(1)
    by (auto simp: newTcpServer_def sv_setThreadNum_def sv_start_def tp_start_def tp_setThreadNum_def
        newEventLoopThreadPool_def bindR_eq_Inr ensure_eq_Inr Let_def pool_wf_def split: if_splits)
  then obtain p where s: "s = \<lparr>svHostport = hp, svName = name, svPool = p, svHasWriteComplete = False, svStarted = True,
      svListening = True, svNextConnId = 1, svConnections = [], svObjs = [], svQueue = (\<lambda>_. [])\<rparr>" and p: "pool_wf p" by metis
  show "sv_inv s" "svObjs s = []" unfolding s using hp(2) p by (simp_all add: sv_inv_def sv_frame_def std_map_wf_def)
qed

subsection \<open>Properties\<close>

text \<open>A server as its user makes it: constructed, given a number of threads, started.\<close>

definition startedServer :: "sockaddr_in \<Rightarrow> string \<Rightarrow> int \<Rightarrow> bool \<Rightarrow> tcp_server res" where
  "startedServer addr name n cb = bindR (newTcpServer addr name) (\<lambda>s. bindR (sv_setThreadNum n s) (sv_start cb))"

text \<open>One IO thread; a connection is accepted, established in the IO loop, hung up by the peer, removed
  in the base loop and destroyed in the IO loop.\<close>

definition demo_server_events :: "sv_event list" where
  "demo_server_events = [SvAccept 7 [], SvLoop 1 [],
     SvConn 0 (EvPoll POLLHUP \<lparr>ioRead = ReadError 11, ioWrite = Accepts 0, ioActs = []\<rparr>), SvLoop 0 [], SvLoop 1 []]"

lemma demo_start:
  "\<exists>s0. startedServer (newInetAddress_port 80) ''srv'' 1 False = Inr s0 \<and> svQueue s0 = (\<lambda>_. []) \<and> svObjs s0 = []
    \<and> svConnections s0 = [] \<and> svPool s0 = \<lparr>tpStarted = True, tpNumThreads = 1, tpNext = 0, tpLoops = [1], tpMade = []\<rparr>
    \<and> svNextConnId s0 = 1 \<and> \<not> svHasWriteComplete s0"
  using toIpPort_whole[of "newInetAddress_port 80"]
  by (auto simp: startedServer_def newTcpServer_def sv_setThreadNum_def sv_start_def tp_start_def tp_setThreadNum_def
      newEventLoopThreadPool_def Let_def)

lemma demo_close:
  "\<exists>c1 c2 c3. connectEstablished [] (newConn 0 7) = Inr c1 \<and> cnState c1 = kConnected \<and> closes c1 = 0
    \<and> conn_event_do (EvPoll POLLHUP \<lparr>ioRead = ReadError 11, ioWrite = Accepts 0, ioActs = []\<rparr>) c1 = Inr c2
    \<and> cnState c2 = kDisconnected \<and> closes c2 = 1 \<and> connectDestroyed [] c2 = Inr c3 \<and> cnState c3 = kDisconnected"
  by (simp add: connectEstablished_def newConn_def newChannel_def tie_def chan_interest_def conn_callback_def connected_def
      handleEvent_def handleEventWithGuard_foldR[OF conn_run_keeps] wanted_cbs_def poll_consts conn_run_def
      handleClose_def connectDestroyed_def isNoneEvent_def closes_def events_defs)

lemma demo_server_run:
  "\<exists>s0 s. startedServer (newInetAddress_port 80) ''srv'' 1 False = Inr s0
    \<and> sv_legal_run demo_server_events s0 = Some (Inr s) \<and> (\<forall>l. svQueue s l = []) \<and> length (svObjs s) = 1
    \<and> cnState (scConn (svObjs s ! 0)) = kDisconnected"
proof -
  obtain s0 where s0: "startedServer (newInetAddress_port 80) ''srv'' 1 False = Inr s0" "svQueue s0 = (\<lambda>_. [])"
      "svObjs s0 = []" "svConnections s0 = []" "\<not> svHasWriteComplete s0"
      "svPool s0 = \<lparr>tpStarted = True, tpNumThreads = 1, tpNext = 0, tpLoops = [1], tpMade = []\<rparr>"
    using demo_start by blast
  obtain c1 c2 c3 where c: "connectEstablished [] (newConn 0 7) = Inr c1" "cnState c1 = kConnected" "closes c1 = 0"
      "conn_event_do (EvPoll POLLHUP \<lparr>ioRead = ReadError 11, ioWrite = Accepts 0, ioActs = []\<rparr>) c1 = Inr c2"
      "cnState c2 = kDisconnected" "closes c2 = 1" "connectDestroyed [] c2 = Inr c3" "cnState c3 = kDisconnected"
    using demo_close by blast
  have n: "closes (newConn 0 7) = 0" by (simp add: closes_def newConn_def)
  have hup: "sane_revents POLLHUP" by (simp add: sane_revents_def poll_consts)
  have "\<exists>s. sv_legal_run demo_server_events s0 = Some (Inr s) \<and> (\<forall>l. svQueue s l = []) \<and> length (svObjs s) = 1
    \<and> cnState (scConn (svObjs s ! 0)) = kDisconnected"
    using s0 c n hup
    by (simp add: demo_server_events_def sv_newConnection_def getNextLoop_def Let_def sv_queue_def sv_conn_event_def
        sv_setConn_def sv_removeConnection_def removeConnectionInLoop_def std_map_erase_def sv_destroyConn_def
        del: conn_event_do.simps(2))
  with s0(1) show ?thesis by blast
qed





end
