(* ===== verification/TcpClient.thy ===== *)
theory TcpClient
  imports ConnectionLife Connector StdText
begin

text \<open>
  \<open>muduo::net::TcpClient\<close> (\<open>muduo/net/TcpClient.h\<close>, \<open>TcpClient.cc\<close>): a connector and the connection it
  makes, one at a time, with reconnection when the connection is lost. The connector is that of
  \<open>Connector\<close>, the connection objects are those of \<open>TcpConnection\<close>, by number; \<open>clQueue\<close> holds the
  \<open>connectDestroyed\<close> functors waiting in the loop. The connector is shared: the client holds it, each
  of its retry timers does, and after the destructor ran without a connection the timer that the
  destructor set (\<open>clHeld\<close>); when the last of them is gone it is destroyed (\<open>clConnectorGone\<close>). A call
  into a client or a connector that was destroyed is a bad access.
\<close>

subsection \<open>State and operations\<close>

text \<open>\<open>ccDetached\<close>: the destructor of the client has replaced the close callback of the connection by
  \<open>detail::removeConnection\<close>.\<close>

record client_conn =
  ccName :: string
  ccConn :: conn
  ccDetached :: bool
  ccDestroyed :: nat

record tcp_client =
  clConnector :: connector
  clName :: string
  clRetry :: bool
  clConnect :: bool
  clHasWriteComplete :: bool
  clNextConnId :: int
  clConnection :: "nat option"
  clObjs :: "client_conn list"
  clQueue :: "nat list"
  clAlive :: bool
  clHeld :: bool
  clConnectorGone :: bool

definition newTcpClient :: "string \<Rightarrow> tcp_client" where
  "newTcpClient name = \<lparr>clConnector = newConnector, clName = name, clRetry = False, clConnect = True,
     clHasWriteComplete = False, clNextConnId = 1, clConnection = None, clObjs = [], clQueue = [], clAlive = True, clHeld = False, clConnectorGone = False\<rparr>"

definition cl_setConnector :: "tcp_client \<Rightarrow> connector res \<Rightarrow> tcp_client res" where
  "cl_setConnector s r = bindR r (\<lambda>c. Inr (s\<lparr>clConnector := c\<rparr>))"

definition cl_connect :: "bool \<Rightarrow> attempt \<Rightarrow> tcp_client \<Rightarrow> tcp_client res" where
  "cl_connect inLoop a s = cl_setConnector (s\<lparr>clConnect := True\<rparr>) (co_start inLoop a (clConnector s))"

definition cl_disconnect :: "bool \<Rightarrow> tcp_client \<Rightarrow> tcp_client" where
  "cl_disconnect inLoop s =
     (let s1 = s\<lparr>clConnect := False\<rparr>
      in case clConnection s1 of
           None \<Rightarrow> s1
         | Some i \<Rightarrow> s1\<lparr>clObjs := (clObjs s1)[i := (clObjs s1 ! i)\<lparr>ccConn := conn_shutdown inLoop (ccConn (clObjs s1 ! i))\<rparr>]\<rparr>)"

definition cl_stop :: "bool \<Rightarrow> tcp_client \<Rightarrow> tcp_client res" where
  "cl_stop inLoop s = cl_setConnector (s\<lparr>clConnect := False\<rparr>) (co_stop inLoop (clConnector s))"

definition cl_setWriteCompleteCallback :: "tcp_client \<Rightarrow> tcp_client" where
  "cl_setWriteCompleteCallback s = s\<lparr>clHasWriteComplete := True\<rparr>"

definition cl_enableRetry :: "tcp_client \<Rightarrow> tcp_client" where
  "cl_enableRetry s = s\<lparr>clRetry := True\<rparr>"

text \<open>\<open>peer\<close> is the text of the peer's address.\<close>

definition cl_newConnection :: "int \<Rightarrow> string \<Rightarrow> conn_act list \<Rightarrow> tcp_client \<Rightarrow> tcp_client res" where
  "cl_newConnection sockfd peer acts s =
     (if clAlive s then
        let name = clName s @ snprintf 32 ('':'' @ peer @ ''#'' @ dec_int (clNextConnId s));
            i = length (clObjs s);
            c0 = newConn i sockfd;
            c1 = (if clHasWriteComplete s then setWriteCompleteCallback c0 else c0);
            ob = \<lparr>ccName = name, ccConn = c1, ccDetached = False, ccDestroyed = 0\<rparr>;
            s1 = s\<lparr>clNextConnId := clNextConnId s + 1, clObjs := clObjs s @ [ob], clConnection := Some i\<rparr>
        in bindR (connectEstablished acts c1) (\<lambda>c. Inr (s1\<lparr>clObjs := (clObjs s1)[i := ob\<lparr>ccConn := c\<rparr>]\<rparr>))
      else Inl (BadAccess ''TcpClient::newConnection''))"

definition cl_removeConnection :: "nat \<Rightarrow> attempt \<Rightarrow> tcp_client \<Rightarrow> tcp_client res" where
  "cl_removeConnection i a s =
     (if clAlive s then
        ensure (clConnection s = Some i) ''removeConnection: connection_ == conn''
        (let s1 = s\<lparr>clConnection := None, clQueue := clQueue s @ [i]\<rparr>
         in if clRetry s1 \<and> clConnect s1 then cl_setConnector s1 (co_restart a (clConnector s1)) else Inr s1)
      else Inl (BadAccess ''TcpClient::removeConnection''))"

text \<open>Dropping a reference to the connector; the last one runs its destructor.\<close>

definition cl_release :: "tcp_client \<Rightarrow> tcp_client res" where
  "cl_release s =
     (if \<not> clAlive s \<and> \<not> clHeld s \<and> coTimers (clConnector s) = 0 \<and> \<not> clConnectorGone s
      then bindR (destroyConnector (clConnector s)) (\<lambda>_. Inr (s\<lparr>clConnectorGone := True\<rparr>))
      else Inr s)"

text \<open>The destructor, in the loop's thread; the timer it sets runs \<open>detail::removeConnector\<close>, whose body is
  empty, and so drops its reference to the connector after a second. With a connection there is no
  timer, and the client's reference is the last one unless a retry timer has one.\<close>

definition destroyTcpClient :: "tcp_client \<Rightarrow> tcp_client res" where
  "destroyTcpClient s =
     (let s1 = s\<lparr>clAlive := False, clConnection := None\<rparr>
      in case clConnection s of
           Some i \<Rightarrow> cl_release (s1\<lparr>clObjs := (clObjs s)[i := (clObjs s ! i)\<lparr>ccDetached := True\<rparr>]\<rparr>)
         | None \<Rightarrow> cl_setConnector (s1\<lparr>clHeld := True\<rparr>) (co_stop True (clConnector s)))"

definition detail_removeConnector :: "tcp_client \<Rightarrow> tcp_client res" where
  "detail_removeConnector s = cl_release (s\<lparr>clHeld := False\<rparr>)"

definition detail_removeConnection :: "nat \<Rightarrow> tcp_client \<Rightarrow> tcp_client" where
  "detail_removeConnection i s = s\<lparr>clQueue := clQueue s @ [i]\<rparr>"

subsection \<open>Events\<close>

datatype cl_event =
    ClConnect bool attempt
  | ClDisconnect bool
  | ClStop bool
  | ClEnableRetry
  | ClSetWriteComplete
  | ClConnector co_event string "conn_act list"
  | ClConn nat conn_event attempt
  | ClDestroyConn "conn_act list"
  | ClDestroy
  | ClRemoveConnector

text \<open>An event of the connector may call \<open>newConnection\<close>, one of a connection its close callback.\<close>

definition cl_connector_event :: "co_event \<Rightarrow> string \<Rightarrow> conn_act list \<Rightarrow> tcp_client \<Rightarrow> tcp_client res" where
  "cl_connector_event ev peer acts s =
     (if clConnectorGone s then Inl (BadAccess ''Connector'')
      else bindR (co_event_do ev (clConnector s)) (\<lambda>c.
           let s1 = s\<lparr>clConnector := c\<rparr>
           in if length (coNew (clConnector s)) < length (coNew c) then cl_newConnection (last (coNew c)) peer acts s1
              else cl_release s1))"

definition cl_conn_event :: "nat \<Rightarrow> conn_event \<Rightarrow> attempt \<Rightarrow> tcp_client \<Rightarrow> tcp_client res" where
  "cl_conn_event i ev a s =
     (let ob = clObjs s ! i; c = ccConn ob
      in bindR (conn_event_do ev c) (\<lambda>c'.
         let s1 = s\<lparr>clObjs := (clObjs s)[i := ob\<lparr>ccConn := c'\<rparr>]\<rparr>
         in if closes c < closes c'
            then if ccDetached ob then Inr (detail_removeConnection i s1) else cl_removeConnection i a s1
            else Inr s1))"

definition cl_destroyConn :: "conn_act list \<Rightarrow> tcp_client \<Rightarrow> tcp_client res" where
  "cl_destroyConn acts s =
     (case clQueue s of
        [] \<Rightarrow> Inr s
      | i # is \<Rightarrow>
          let ob = clObjs s ! i
          in bindR (connectDestroyed acts (ccConn ob)) (\<lambda>c'.
             Inr (s\<lparr>clQueue := is, clObjs := (clObjs s)[i := ob\<lparr>ccConn := c', ccDestroyed := ccDestroyed ob + 1\<rparr>]\<rparr>)))"

fun cl_event_do :: "cl_event \<Rightarrow> tcp_client \<Rightarrow> tcp_client res" where
  "cl_event_do (ClConnect inLoop a) s = cl_connect inLoop a s"
| "cl_event_do (ClDisconnect inLoop) s = Inr (cl_disconnect inLoop s)"
| "cl_event_do (ClStop inLoop) s = cl_stop inLoop s"
| "cl_event_do ClEnableRetry s = Inr (cl_enableRetry s)"
| "cl_event_do ClSetWriteComplete s = Inr (cl_setWriteCompleteCallback s)"
| "cl_event_do (ClConnector ev peer acts) s = cl_connector_event ev peer acts s"
| "cl_event_do (ClConn i ev a) s = cl_conn_event i ev a s"
| "cl_event_do (ClDestroyConn acts) s = cl_destroyConn acts s"
| "cl_event_do ClDestroy s = destroyTcpClient s"
| "cl_event_do ClRemoveConnector s = detail_removeConnector s"

text \<open>The user calls a client that exists, and \<open>connect\<close> only when its connector may start; a client
  with a connection is destroyed when no functor of its connector is waiting, as it would be in the
  turn of the loop in which the connection was made (\<open>destroy_same_turn_asserts\<close> below). The loop
  delivers to the connector its timers, the events of its channel and its functors, and to a connection its
  events, after the functors of the previous turn (so the connector's old channel is gone); the
  timer of the destructor fires a second after it, when the functors of then have run.\<close>

fun delivered :: "co_event \<Rightarrow> bool" where
  "delivered (CoStart inLoop a) = False"
| "delivered (CoRestart a) = False"
| "delivered ev = True"

fun loop_delivers :: "co_event \<Rightarrow> connector \<Rightarrow> bool" where
  "loop_delivers (CoTimer a) c \<longleftrightarrow> True"
| "loop_delivers (CoWritable a) c \<longleftrightarrow> coChannel c \<noteq> None"
| "loop_delivers CoError c \<longleftrightarrow> coChannel c \<noteq> None"
| "loop_delivers (CoFunctor a) c \<longleftrightarrow> coQueue c \<noteq> []"
| "loop_delivers ev c \<longleftrightarrow> False"

fun cl_legal :: "cl_event \<Rightarrow> tcp_client \<Rightarrow> bool" where
  "cl_legal (ClConnect inLoop a) s \<longleftrightarrow> clAlive s \<and> co_legal (CoStart inLoop a) (clConnector s)"
| "cl_legal (ClConnector ev peer acts) s \<longleftrightarrow> loop_delivers ev (clConnector s) \<and> co_legal ev (clConnector s)"
| "cl_legal ClDestroy s \<longleftrightarrow> clAlive s \<and> (clConnection s \<noteq> None \<longrightarrow> coQueue (clConnector s) = [])"
| "cl_legal ClRemoveConnector s \<longleftrightarrow> clHeld s \<and> coQueue (clConnector s) = []"
| "cl_legal (ClConn i ev a) s \<longleftrightarrow> i < length (clObjs s) \<and> \<not> is_established_event ev
     \<and> FResetChannel \<notin> set (coQueue (clConnector s))
     \<and> (if ccDestroyed (clObjs s ! i) = 0 then live_legal ev (ccConn (clObjs s ! i)) else dead_legal ev)"
| "cl_legal (ClDestroyConn acts) s \<longleftrightarrow> True"
| "cl_legal ev s \<longleftrightarrow> clAlive s"

fun cl_legal_run :: "cl_event list \<Rightarrow> tcp_client \<Rightarrow> tcp_client res option" where
  "cl_legal_run [] s = Some (Inr s)"
| "cl_legal_run (ev # evs) s =
     (if cl_legal ev s
      then (case cl_event_do ev s of Inl e \<Rightarrow> Some (Inl e) | Inr s' \<Rightarrow> cl_legal_run evs s')
      else None)"

subsection \<open>What the connector tells\<close>

text \<open>Along an event that is not a start, a connector that is connected stays so, one that was told to
  stop does not begin again, and the new-connection callback is called only at the end of an
  attempt.\<close>

definition co_calm :: "connector \<Rightarrow> connector \<Rightarrow> bool" where
  "co_calm c c' \<longleftrightarrow> coNew c' = coNew c \<and> (coState c = CoConnected \<longrightarrow> coState c' = CoConnected)
   \<and> (\<not> coConnect c \<and> coState c \<noteq> CoConnecting \<longrightarrow> \<not> coConnect c' \<and> coState c' \<noteq> CoConnecting)"

definition co_made :: "connector \<Rightarrow> connector \<Rightarrow> bool" where
  "co_made c c' \<longleftrightarrow> (\<exists>fd. coNew c' = coNew c @ [fd]) \<and> coConnect c \<and> coState c = CoConnecting \<and> coState c' = CoConnected"

lemma startInLoop_calm: "holds UNIV (startInLoop a c) (co_calm c)"
  unfolding startInLoop_def co_connect_def connecting_def Let_def
  by (intro holds_any) (auto simp: co_calm_def retry_def co_close_def Let_def)

lemma removeAndReset_fields:
  "removeAndResetChannel c = Inr (fd, c') \<Longrightarrow> coNew c' = coNew c \<and> coState c' = coState c \<and> coConnect c' = coConnect c"
  by (auto simp: removeAndResetChannel_def Let_def ensure_def split: option.splits if_splits)

lemma retry_fields: "coNew (retry fd c) = coNew c" "coState (retry fd c) = CoDisconnected" "coConnect (retry fd c) = coConnect c"
  by (simp_all add: retry_def co_close_def Let_def)

lemma stopInLoop_calm: "holds UNIV (stopInLoop c) (co_calm c)"
  unfolding stopInLoop_def split_beta
  by (intro holds_any) (auto simp: co_calm_def retry_fields dest!: removeAndReset_fields)

lemma co_handleWrite_calm: "holds UNIV (co_handleWrite a c) (\<lambda>c'. co_calm c c' \<or> co_made c c')"
  unfolding co_handleWrite_def Let_def split_beta
  by (intro holds_any) (auto simp: co_calm_def co_made_def retry_fields co_close_def dest!: removeAndReset_fields)

lemma co_handleError_calm: "holds UNIV (co_handleError c) (co_calm c)"
  unfolding co_handleError_def split_beta
  by (intro holds_any) (auto simp: co_calm_def retry_fields dest!: removeAndReset_fields)

lemma co_calm_trans: "co_calm c d \<Longrightarrow> co_calm d e \<Longrightarrow> co_calm c e"
  by (auto simp: co_calm_def)

lemma delivered_calm:
  assumes "delivered ev"
  shows "holds UNIV (co_event_do ev c) (\<lambda>c'. co_calm c c' \<or> co_made c c')"
proof -
  have q: "co_calm c (c\<lparr>coQueue := q\<rparr>)" "co_calm c (c\<lparr>coTimers := n\<rparr>)" "co_calm c (c\<lparr>coConnect := False\<rparr>)"
    "co_calm c (c\<lparr>coConnect := False, coQueue := q\<rparr>)" "co_calm c (resetChannel (c\<lparr>coQueue := q\<rparr>))" for q n
    by (simp_all add: co_calm_def resetChannel_def)
  note m = holds_mono[OF startInLoop_calm] holds_mono[OF stopInLoop_calm]
  show ?thesis
  proof (cases ev)
    case (CoStop inLoop)
    then show ?thesis by (auto simp: co_stop_def Let_def q intro!: m intro: co_calm_trans[OF q(3)])
  next
    case (CoTimer a)
    then show ?thesis by (auto intro!: m intro: co_calm_trans[OF q(2)])
  next
    case (CoWritable a)
    then show ?thesis by (simp add: co_handleWrite_calm)
  next
    case CoError
    then show ?thesis by (auto intro: holds_mono[OF co_handleError_calm])
  next
    case (CoFunctor a)
    then show ?thesis
      by (auto simp: q intro!: m intro: co_calm_trans[OF q(1)] split: list.split co_functor.split) (simp add: co_calm_def)
  qed (use assms in simp_all)
qed

subsection \<open>Invariant\<close>

text \<open>One object: closed at most once, then destroyed once; the client's connection and a detached one
  are the only live ones. \<open>q\<close> counts its \<open>connectDestroyed\<close> functors, \<open>cur\<close> says whether it is
  \<open>connection_\<close>.\<close>

definition cc_ok :: "client_conn \<Rightarrow> nat \<Rightarrow> bool \<Rightarrow> bool" where
  "cc_ok ob q cur \<longleftrightarrow> cnState (ccConn ob) \<noteq> kConnecting
   \<and> closes (ccConn ob) = (if cnState (ccConn ob) = kDisconnected then 1 else 0)
   \<and> closes (ccConn ob) = q + ccDestroyed ob
   \<and> (if ccDestroyed ob = 0 then conn_inv (ccConn ob) else conn_dead (ccConn ob))
   \<and> (cur \<longrightarrow> cnState (ccConn ob) \<noteq> kDisconnected \<and> \<not> ccDetached ob)
   \<and> (cnState (ccConn ob) \<noteq> kDisconnected \<longrightarrow> cur \<or> ccDetached ob)"

definition cl_obj_ok :: "tcp_client \<Rightarrow> nat \<Rightarrow> bool" where
  "cl_obj_ok s i \<longleftrightarrow> cc_ok (clObjs s ! i) (count_list (clQueue s) i) (clConnection s = Some i)"

text \<open>A connector that will not report a connection any more.\<close>

definition co_over :: "connector \<Rightarrow> bool" where
  "co_over c \<longleftrightarrow> coState c = CoConnected \<or> \<not> coConnect c \<and> coState c \<noteq> CoConnecting"

text \<open>Who holds the connector. Once only retry timers can, nothing of it waits in the loop.\<close>

definition cl_refs :: "tcp_client \<Rightarrow> bool" where
  "cl_refs s \<longleftrightarrow> (clAlive s \<longrightarrow> \<not> clHeld s \<and> \<not> clConnectorGone s)
   \<and> (\<not> clAlive s \<longrightarrow> (clConnectorGone s \<longleftrightarrow> \<not> clHeld s \<and> coTimers (clConnector s) = 0))
   \<and> (\<not> clAlive s \<and> \<not> clHeld s \<longrightarrow> coQueue (clConnector s) = [] \<and> coChannel (clConnector s) = None)"

lemma cl_refs_update [simp]:
  "cl_refs (s\<lparr>clConnect := b\<rparr>) = cl_refs s" "cl_refs (s\<lparr>clRetry := b\<rparr>) = cl_refs s" "cl_refs (s\<lparr>clHasWriteComplete := b\<rparr>) = cl_refs s"
  "cl_refs (s\<lparr>clConnection := con\<rparr>) = cl_refs s" "cl_refs (s\<lparr>clObjs := obs\<rparr>) = cl_refs s"
  "cl_refs (s\<lparr>clQueue := q\<rparr>) = cl_refs s" "cl_refs (s\<lparr>clNextConnId := n\<rparr>) = cl_refs s"
  by (simp_all add: cl_refs_def)

lemma cl_refs_cong:
  "clAlive s' = clAlive s \<Longrightarrow> clHeld s' = clHeld s \<Longrightarrow> clConnectorGone s' = clConnectorGone s \<Longrightarrow> clConnector s' = clConnector s
   \<Longrightarrow> cl_refs s' = cl_refs s"
  by (simp add: cl_refs_def)

definition cl_frame :: "tcp_client \<Rightarrow> bool" where
  "cl_frame s \<longleftrightarrow> co_phase (clConnector s)
   \<and> (\<not> clAlive s \<longrightarrow> clConnection s = None \<and> co_over (clConnector s))
   \<and> cl_refs s
   \<and> (\<forall>i. clConnection s = Some i \<longrightarrow> i < length (clObjs s) \<and> coState (clConnector s) = CoConnected)
   \<and> set (clQueue s) \<subseteq> {..<length (clObjs s)}"

definition cl_inv :: "tcp_client \<Rightarrow> bool" where
  "cl_inv s \<longleftrightarrow> cl_frame s \<and> (\<forall>i < length (clObjs s). cl_obj_ok s i)"

lemma cl_invI: "cl_frame s \<Longrightarrow> (\<And>i. i < length (clObjs s) \<Longrightarrow> cl_obj_ok s i) \<Longrightarrow> cl_inv s"
  by (simp add: cl_inv_def)

lemma newTcpClient_inv: "cl_inv (newTcpClient name)"
  using newConnector_inv(1) by (simp add: cl_inv_def cl_frame_def cl_refs_def newTcpClient_def)

text \<open>Changes of the connector alone.\<close>

lemma cl_inv_connector:
  assumes inv: "cl_inv s" and ph: "co_phase c"
    and con: "clConnection s \<noteq> None \<Longrightarrow> coState c = CoConnected"
    and dead: "\<not> clAlive s \<Longrightarrow> co_over c \<and> cl_refs s'"
    and s': "clConnector s' = c" "clConnection s' = clConnection s" "clObjs s' = clObjs s" "clQueue s' = clQueue s" "clAlive s' = clAlive s"
      "clAlive s \<Longrightarrow> clHeld s' = clHeld s" "clAlive s \<Longrightarrow> clConnectorGone s' = clConnectorGone s"
  shows "cl_inv s'"
proof (rule cl_invI)
  have fr: "cl_frame s" using inv by (simp add: cl_inv_def)
  have "cl_refs s'" using fr dead s' by (cases "clAlive s") (auto simp: cl_frame_def cl_refs_def)
  then show "cl_frame s'" using fr ph con dead s' by (auto simp: cl_frame_def)
  show "cl_obj_ok s' i" if "i < length (clObjs s')" for i using inv that s' by (simp add: cl_inv_def cl_obj_ok_def)
qed

lemma calm_keeps:
  assumes inv: "cl_inv s" and ph: "co_phase c" and calm: "co_calm (clConnector s) c"
    and dead: "\<not> clAlive s \<Longrightarrow> cl_refs s'"
    and s': "clConnector s' = c" "clConnection s' = clConnection s" "clObjs s' = clObjs s" "clQueue s' = clQueue s" "clAlive s' = clAlive s"
      "clAlive s \<Longrightarrow> clHeld s' = clHeld s" "clAlive s \<Longrightarrow> clConnectorGone s' = clConnectorGone s"
  shows "cl_inv s'"
proof (rule cl_inv_connector[OF inv ph])
  have fr: "cl_frame s" using inv by (simp add: cl_inv_def)
  show "coState c = CoConnected" if "clConnection s \<noteq> None" using fr calm that by (auto simp: cl_frame_def co_calm_def)
  show "co_over c \<and> cl_refs s'" if "\<not> clAlive s" using fr calm that dead by (auto simp: cl_frame_def co_calm_def co_over_def)
qed (use s' in auto)

lemma connector_event_phase:
  assumes "co_phase c" and "co_legal ev c"
  obtains c' where "co_event_do ev c = Inr c'" "co_phase c'"
  using co_event_phase[OF assms] by (cases "co_event_do ev c") auto

lemma cl_start_ok:
  assumes inv: "cl_inv s" and alive: "clAlive s" and legal: "co_legal (CoStart inLoop a) (clConnector s)"
  shows "\<exists>s'. cl_connect inLoop a s = Inr s' \<and> cl_inv s'"
proof -
  have fr: "cl_frame s" using inv by (simp add: cl_inv_def)
  have ph: "co_phase (clConnector s)" using fr by (simp add: cl_frame_def)
  obtain c where c: "co_event_do (CoStart inLoop a) (clConnector s) = Inr c" "co_phase c"
    using connector_event_phase[OF ph legal] by blast
  have none: "clConnection s = None" using fr legal by (cases "clConnection s") (auto simp: cl_frame_def)
  have "cl_inv (s\<lparr>clConnect := True, clConnector := c\<rparr>)"
    by (rule cl_inv_connector[OF inv c(2)]) (use none alive in auto)
  then show ?thesis using c(1) by (simp add: cl_connect_def cl_setConnector_def)
qed

lemma co_stop_ok:
  assumes "co_phase c"
  obtains c' where "co_stop inLoop c = Inr c'" "co_phase c'" "co_calm c c'" "\<not> coConnect c'"
    "inLoop \<Longrightarrow> coState c' \<noteq> CoConnecting"
proof -
  obtain c' where c': "co_event_do (CoStop inLoop) c = Inr c'" "co_phase c'"
    using connector_event_phase[OF assms, of "CoStop inLoop"] by auto
  have calm: "co_calm c c'"
    using holds_InrD[OF delivered_calm[of "CoStop inLoop" c] c'(1)] c'(1)
    by (auto simp: co_made_def co_stop_def stopInLoop_def Let_def retry_fields
        elim!: bindR_InrE split: if_splits prod.splits dest!: removeAndReset_fields)
  have "\<not> coConnect c' \<and> (inLoop \<longrightarrow> coState c' \<noteq> CoConnecting)"
    using c'(1) by (auto simp: co_stop_def stopInLoop_def Let_def retry_fields
        elim!: bindR_InrE split: if_splits prod.splits dest!: removeAndReset_fields)
  with that c' calm show ?thesis by auto
qed

lemma cl_stop_ok:
  assumes inv: "cl_inv s" and alive: "clAlive s"
  shows "\<exists>s'. cl_stop inLoop s = Inr s' \<and> cl_inv s'"
proof -
  have ph: "co_phase (clConnector s)" using inv by (simp add: cl_inv_def cl_frame_def)
  obtain c where c: "co_stop inLoop (clConnector s) = Inr c" "co_phase c" "co_calm (clConnector s) c"
    using co_stop_ok[OF ph] by metis
  have "cl_inv (s\<lparr>clConnect := False, clConnector := c\<rparr>)" by (rule calm_keeps[OF inv c(2,3)]) (use alive in auto)
  then show ?thesis using c(1) by (simp add: cl_stop_def cl_setConnector_def)
qed

subsection \<open>Operations keep it\<close>

lemma connectEstablished_live: "holds UNIV (connectEstablished acts c) (\<lambda>c'. cnState c' \<noteq> kDisconnected)"
  unfolding connectEstablished_def Let_def
  by (intro holds_any) (auto intro!: holds_mono[OF conn_callback_life] simp: quiet_def chan_interest_def)

lemma cl_newConnection_ok:
  assumes inv: "cl_inv s" and alive: "clAlive s" and none: "clConnection s = None" and st: "coState (clConnector s) = CoConnected"
  shows "\<exists>s'. cl_newConnection fd peer acts s = Inr s' \<and> cl_inv s'"
proof -
  let ?i = "length (clObjs s)"
  define c1 where "c1 = (if clHasWriteComplete s then setWriteCompleteCallback (newConn ?i fd) else newConn ?i fd)"
  have c1: "conn_inv c1" "cnState c1 = kConnecting" "closes c1 = 0"
    by (simp_all add: c1_def newConn_inv newConn_wc_inv) (simp_all add: newConn_def setWriteCompleteCallback_def closes_def)
  obtain c where c: "conn_event_do (EvEstablished acts) c1 = Inr c" "life c1 c" "cnState c \<noteq> kConnecting" "conn_inv c"
    using conn_event_summary[of 0 c1 "EvEstablished acts"] c1 by auto
  have live: "cnState c \<noteq> kDisconnected" using holds_InrD[OF connectEstablished_live[of acts c1]] c(1) by simp
  then have cl: "closes c = 0" using c(2) c1(3) by (simp add: life_def)
  define s' where "s' = s\<lparr>clNextConnId := clNextConnId s + 1, clConnection := Some ?i,
    clObjs := clObjs s @ [\<lparr>ccName = clName s @ snprintf 32 ('':'' @ peer @ ''#'' @ dec_int (clNextConnId s)), ccConn = c,
      ccDetached = False, ccDestroyed = 0\<rparr>]\<rparr>"
  have fr: "cl_frame s" and obj: "\<And>i. i < ?i \<Longrightarrow> cl_obj_ok s i" using inv by (auto simp: cl_inv_def)
  have nq: "?i \<notin> set (clQueue s)" using fr by (auto simp: cl_frame_def)
  have "cl_inv s'"
  proof (rule cl_invI)
    show "cl_frame s'" using fr alive st by (auto simp: cl_frame_def s'_def)
    fix i assume "i < length (clObjs s')"
    then consider "i < ?i" | "i = ?i" by (auto simp: s'_def less_Suc_eq)
    then show "cl_obj_ok s' i"
    proof cases
      case 1
      then show ?thesis using obj[OF 1] none by (auto simp: cl_obj_ok_def s'_def nth_append cc_ok_def)
    next
      case 2
      then show ?thesis using c live cl nq by (simp add: cl_obj_ok_def s'_def cc_ok_def count_list_0_iff)
    qed
  qed
  then show ?thesis using alive c(1) by (simp add: cl_newConnection_def Let_def c1_def[symmetric] s'_def)
qed

text \<open>After the client is gone the connector only winds down.\<close>

lemma cl_wind_down:
  assumes inv: "cl_inv s" and dead: "\<not> clAlive s" and held: "\<not> clHeld s"
    and ev: "loop_delivers ev (clConnector s)" "co_legal ev (clConnector s)"
  shows "\<exists>s'. cl_connector_event ev peer acts s = Inr s' \<and> cl_inv s'"
proof -
  have fr: "cl_frame s" using inv by (simp add: cl_inv_def)
  let ?c = "clConnector s"
  have idle: "coQueue ?c = []" "coChannel ?c = None" and over: "co_over ?c" and ph: "co_phase ?c"
    and gone: "clConnectorGone s \<longleftrightarrow> coTimers ?c = 0"
    using fr dead held by (auto simp: cl_frame_def cl_refs_def)
  obtain a where a: "ev = CoTimer a" "0 < coTimers ?c" using ev idle by (cases ev) auto
  have st: "coState ?c = CoDisconnected" "\<not> coConnect ?c"
    using over ph a(2) by (cases "coState ?c"; auto simp: co_over_def co_phase_def)+
  let ?d = "?c\<lparr>coTimers := coTimers ?c - 1\<rparr>"
  have run: "co_event_do ev ?c = Inr ?d" using a(1) st by (simp add: startInLoop_def)
  have ph': "co_phase ?d" using co_event_phase[OF ph ev(2)] run by simp
  have calm: "co_calm ?c ?d" by (simp add: co_calm_def)
  define s' where "s' = s\<lparr>clConnector := ?d, clConnectorGone := (coTimers ?d = 0)\<rparr>"
  have "cl_connector_event ev peer acts s = Inr s'"
    using run gone a(2) dead held idle
    by (auto simp: cl_connector_event_def cl_release_def destroyConnector_def s'_def Let_def)
  moreover have "cl_inv s'"
    by (rule calm_keeps[OF inv ph' calm]) (use dead held idle in \<open>auto simp: s'_def cl_refs_def\<close>)
  ultimately show ?thesis by blast
qed

lemma cl_connector_event_ok:
  assumes inv: "cl_inv s" and lev: "loop_delivers ev (clConnector s)" and leg: "co_legal ev (clConnector s)"
  shows "\<exists>s'. cl_connector_event ev peer acts s = Inr s' \<and> cl_inv s'"
proof (cases "\<not> clAlive s \<and> \<not> clHeld s")
  case True
  then show ?thesis using cl_wind_down[OF inv _ _ lev leg] by blast
next
  case busy: False
  have fr: "cl_frame s" using inv by (simp add: cl_inv_def)
  have ph: "co_phase (clConnector s)" using fr by (simp add: cl_frame_def)
  have gone: "\<not> clConnectorGone s" using fr busy by (auto simp: cl_frame_def cl_refs_def)
  have dl: "delivered ev" using lev by (cases ev) auto
  obtain c where c: "co_event_do ev (clConnector s) = Inr c" "co_phase c"
    using connector_event_phase[OF ph leg] by blast
  have "co_calm (clConnector s) c \<or> co_made (clConnector s) c" by (rule holds_InrD[OF delivered_calm[OF dl] c(1)])
  then show ?thesis
  proof
    assume calm: "co_calm (clConnector s) c"
    have "cl_inv (s\<lparr>clConnector := c\<rparr>)"
      by (rule calm_keeps[OF inv c(2) calm]) (use busy gone in \<open>auto simp: cl_refs_def\<close>)
    moreover have "cl_release (s\<lparr>clConnector := c\<rparr>) = Inr (s\<lparr>clConnector := c\<rparr>)" using busy by (auto simp: cl_release_def)
    ultimately show ?thesis using c(1) calm gone by (simp add: cl_connector_event_def co_calm_def)
  next
    assume made: "co_made (clConnector s) c"
    then have st: "coState (clConnector s) = CoConnecting" "coState c = CoConnected" "length (coNew (clConnector s)) < length (coNew c)"
      by (auto simp: co_made_def)
    have none: "clConnection s = None" using fr st(1) by (cases "clConnection s") (auto simp: cl_frame_def)
    have alive: "clAlive s" using fr st(1) by (auto simp: cl_frame_def co_over_def)
    have "cl_inv (s\<lparr>clConnector := c\<rparr>)" by (rule cl_inv_connector[OF inv c(2)]) (use none alive in auto)
    then have "\<exists>s'. cl_newConnection (last (coNew c)) peer acts (s\<lparr>clConnector := c\<rparr>) = Inr s' \<and> cl_inv s'"
      by (rule cl_newConnection_ok) (use none alive st in auto)
    then show ?thesis using c(1) st(3) gone by (simp add: cl_connector_event_def)
  qed
qed

text \<open>Putting an object back.\<close>

lemma cl_inv_put:
  assumes inv: "cl_inv s" and i: "i < length (clObjs s)"
    and ok: "cc_ok ob (count_list q i) (con = Some i)"
    and q: "set q \<subseteq> {..<length (clObjs s)}" "\<And>j. j \<noteq> i \<Longrightarrow> count_list q j = count_list (clQueue s) j"
    and con: "con = clConnection s \<or> con = None \<and> clConnection s = Some i"
    and s': "clObjs s' = (clObjs s)[i := ob]" "clQueue s' = q" "clConnection s' = con" "clConnector s' = clConnector s" "clAlive s' = clAlive s"
      "clHeld s' = clHeld s" "clConnectorGone s' = clConnectorGone s"
  shows "cl_inv s'"
proof (rule cl_invI)
  have fr: "cl_frame s" and obj: "\<And>i. i < length (clObjs s) \<Longrightarrow> cl_obj_ok s i" using inv by (auto simp: cl_inv_def)
  have "coState (clConnector s) = CoConnected \<and> k < length (clObjs s)" if "con = Some k" for k
    using fr con that by (auto simp: cl_frame_def)
  moreover have "cl_refs s' = cl_refs s" by (rule cl_refs_cong) (use s' in auto)
  ultimately show "cl_frame s'" using fr con q(1) s' by (auto simp: cl_frame_def)
  fix j assume j: "j < length (clObjs s')"
  show "cl_obj_ok s' j"
  proof (cases "j = i")
    case True
    then show ?thesis using ok i s' by (simp add: cl_obj_ok_def)
  next
    case False
    have "cl_obj_ok s j" using obj j s' by simp
    then show ?thesis using False q(2)[OF False] con s' by (auto simp: cl_obj_ok_def)
  qed
qed

lemma cl_disconnect_ok:
  assumes "cl_inv s"
  shows "cl_inv (cl_disconnect inLoop s)"
proof (cases "clConnection s")
  case None
  then show ?thesis using assms
    by (auto simp: cl_disconnect_def cl_inv_def cl_frame_def cl_obj_ok_def)
next
  case (Some i)
  have i: "i < length (clObjs s)" "cl_obj_ok s i" using assms Some by (auto simp: cl_inv_def cl_frame_def)
  let ?c = "ccConn (clObjs s ! i)"
  have live: "cnState ?c \<noteq> kDisconnected" "closes ?c = 0" "conn_inv ?c" "ccDestroyed (clObjs s ! i) = 0" "count_list (clQueue s) i = 0"
    using i(2) Some by (auto simp: cl_obj_ok_def cc_ok_def split: if_splits)
  have c': "conn_inv (conn_shutdown inLoop ?c)" "quiet ?c (conn_shutdown inLoop ?c)"
    using conn_shutdown_ok[OF live(3)] quiet_steps(9) by auto
  show ?thesis
    by (rule cl_inv_put[OF assms i(1), where ob = "(clObjs s ! i)\<lparr>ccConn := conn_shutdown inLoop ?c\<rparr>" and q = "clQueue s" and con = "clConnection s"])
      (use i(2) Some live c' assms in \<open>auto simp: cl_disconnect_def cl_obj_ok_def cc_ok_def quiet_def closes_def cl_inv_def cl_frame_def\<close>)
qed

lemma cl_removeConnection_ok:
  assumes inv: "cl_inv s" and con: "clConnection s = None" and alive: "clAlive s" and st: "coState (clConnector s) = CoConnected"
    and idle: "FResetChannel \<notin> set (coQueue (clConnector s))"
    and s0: "s = s0\<lparr>clConnection := None, clQueue := clQueue s0 @ [i]\<rparr>" "clConnection s0 = Some i"
  shows "\<exists>s'. cl_removeConnection i a s0 = Inr s' \<and> cl_inv s'"
proof (cases "clRetry s \<and> clConnect s")
  case True
  have ph: "co_phase (clConnector s)" using inv by (simp add: cl_inv_def cl_frame_def)
  have "co_legal (CoRestart a) (clConnector s)" using ph st idle by (auto simp: co_idle_def co_phase_def)
  then obtain c where c: "co_event_do (CoRestart a) (clConnector s) = Inr c" "co_phase c"
    using connector_event_phase[OF ph] by blast
  have "cl_inv (s\<lparr>clConnector := c\<rparr>)" by (rule cl_inv_connector[OF inv c(2)]) (use con alive in auto)
  then show ?thesis using True c(1) alive s0 by (simp add: cl_removeConnection_def cl_setConnector_def Let_def)
next
  case False
  then have "\<not> (clRetry s0 \<and> clConnect s0)" using s0(1) by simp
  then have "cl_removeConnection i a s0 = Inr s" using alive s0 by (auto simp: cl_removeConnection_def Let_def)
  with inv show ?thesis by blast
qed

lemma cl_conn_event_ok:
  assumes inv: "cl_inv s" and legal: "cl_legal (ClConn i ev a) s"
  shows "\<exists>s'. cl_conn_event i ev a s = Inr s' \<and> cl_inv s'"
proof -
  define ob where "ob = clObjs s ! i"
  have i: "i < length (clObjs s)" using legal by simp
  have fr: "cl_frame s" using inv by (simp add: cl_inv_def)
  have ok: "cc_ok ob (count_list (clQueue s) i) (clConnection s = Some i)" using inv i by (simp add: cl_inv_def cl_obj_ok_def ob_def)
  have "if ccDestroyed ob = 0 then conn_inv (ccConn ob) \<and> live_legal ev (ccConn ob) else conn_dead (ccConn ob) \<and> dead_legal ev"
    using ok legal by (auto simp: cc_ok_def ob_def split: if_splits)
  from conn_event_summary[OF this] ok obtain c where
    c: "conn_event_do ev (ccConn ob) = Inr c" "life (ccConn ob) c" "cnState c \<noteq> kConnecting"
      "if ccDestroyed ob = 0 then conn_inv c else conn_dead c" by (auto simp: cc_ok_def)
  let ?ob = "ob\<lparr>ccConn := c\<rparr>" and ?s1 = "s\<lparr>clObjs := (clObjs s)[i := ob\<lparr>ccConn := c\<rparr>]\<rparr>"
  have q: "set (clQueue s) \<subseteq> {..<length (clObjs s)}" using fr by (simp add: cl_frame_def)
  show ?thesis
  proof (cases "closes (ccConn ob) < closes c")
    case False
    have "cl_inv ?s1"
    proof (rule cl_inv_put[OF inv i _ q])
      have "cnState c = kDisconnected \<longleftrightarrow> cnState (ccConn ob) = kDisconnected" "closes c = closes (ccConn ob)"
        using False c(2) by (auto simp: life_def split: if_splits)
      with ok c(3,4) show "cc_ok ?ob (count_list (clQueue s) i) (clConnection s = Some i)" by (simp add: cc_ok_def)
    qed auto
    then show ?thesis using False c(1) by (simp add: cl_conn_event_def Let_def ob_def[symmetric])
  next
    case True
    then have st: "cnState (ccConn ob) \<noteq> kDisconnected" "cnState c = kDisconnected" "closes c = 1" "closes (ccConn ob) = 0"
      using c(2) ok by (auto simp: life_def cc_ok_def split: if_splits)
    have z: "count_list (clQueue s) i = 0" "ccDestroyed ob = 0" using ok st(4) by (auto simp: cc_ok_def)
    let ?s2 = "?s1\<lparr>clConnection := None, clQueue := clQueue s @ [i]\<rparr>"
    have closed: "cc_ok ?ob (count_list (clQueue s @ [i]) i) False"
      using c(3,4) st z by (simp add: cc_ok_def)
    show ?thesis
    proof (cases "ccDetached ob")
      case det: True
      then have nc: "clConnection s \<noteq> Some i" using ok by (auto simp: cc_ok_def)
      have "cl_inv (?s1\<lparr>clQueue := clQueue s @ [i]\<rparr>)"
        by (rule cl_inv_put[OF inv i, where ob = ?ob and q = "clQueue s @ [i]" and con = "clConnection s"]) (use closed nc q i in auto)
      then show ?thesis using True det c(1) by (simp add: cl_conn_event_def Let_def ob_def[symmetric] detail_removeConnection_def)
    next
      case nd: False
      then have con: "clConnection s = Some i" using ok st by (auto simp: cc_ok_def)
      have inv2: "cl_inv ?s2"
        by (rule cl_inv_put[OF inv i, where ob = ?ob and q = "clQueue s @ [i]" and con = None]) (use closed con q i in auto)
      have "\<exists>s'. cl_removeConnection i a ?s1 = Inr s' \<and> cl_inv s'"
        by (rule cl_removeConnection_ok[OF inv2]) (use fr con legal in \<open>auto simp: cl_frame_def\<close>)
      then show ?thesis using True nd c(1) by (simp add: cl_conn_event_def Let_def ob_def[symmetric])
    qed
  qed
qed

lemma cl_destroyConn_ok:
  assumes inv: "cl_inv s"
  shows "\<exists>s'. cl_destroyConn acts s = Inr s' \<and> cl_inv s'"
proof (cases "clQueue s")
  case Nil
  then show ?thesis using inv by (simp add: cl_destroyConn_def)
next
  case (Cons i rest)
  define ob where "ob = clObjs s ! i"
  have i: "i < length (clObjs s)" and q: "set rest \<subseteq> {..<length (clObjs s)}"
    using inv Cons by (auto simp: cl_inv_def cl_frame_def)
  have ok: "cc_ok ob (Suc (count_list rest i)) (clConnection s = Some i)"
    using inv i Cons by (auto simp: cl_inv_def cl_obj_ok_def ob_def)
  then have st: "cnState (ccConn ob) = kDisconnected" "closes (ccConn ob) = 1" "ccDestroyed ob = 0" "conn_inv (ccConn ob)"
    "count_list rest i = 0" "clConnection s \<noteq> Some i"
    by (auto simp: cc_ok_def split: if_splits)
  obtain c' where c': "connectDestroyed acts (ccConn ob) = Inr c'" "conn_dead c'" "life (ccConn ob) c'"
    using connectDestroyed_closed[OF st(4,1)] by blast
  have "cl_inv (s\<lparr>clQueue := rest, clObjs := (clObjs s)[i := ob\<lparr>ccConn := c', ccDestroyed := ccDestroyed ob + 1\<rparr>]\<rparr>)"
    by (rule cl_inv_put[OF inv i, where ob = "ob\<lparr>ccConn := c', ccDestroyed := ccDestroyed ob + 1\<rparr>" and q = rest and con = "clConnection s"])
      (use c' st q Cons in \<open>auto simp: cc_ok_def life_def conn_dead_def\<close>)
  then show ?thesis using c'(1) Cons by (simp add: cl_destroyConn_def Let_def ob_def)
qed

lemma destroyTcpClient_ok:
  assumes inv: "cl_inv s" and alive: "clAlive s" and quiet: "clConnection s \<noteq> None \<Longrightarrow> coQueue (clConnector s) = []"
  shows "\<exists>s'. destroyTcpClient s = Inr s' \<and> cl_inv s'"
proof -
  have fr: "cl_frame s" and obj: "\<And>i. i < length (clObjs s) \<Longrightarrow> cl_obj_ok s i" using inv by (auto simp: cl_inv_def)
  have own: "\<not> clHeld s" "\<not> clConnectorGone s" using fr alive by (auto simp: cl_frame_def cl_refs_def)
  show ?thesis
  proof (cases "clConnection s")
    case None
    obtain c where c: "co_stop True (clConnector s) = Inr c" "co_phase c" "\<not> coConnect c" "coState c \<noteq> CoConnecting"
      using co_stop_ok[of "clConnector s" True] fr unfolding cl_frame_def by metis
    have "cl_inv (s\<lparr>clAlive := False, clConnection := None, clHeld := True, clConnector := c\<rparr>)"
      using fr obj c None own by (auto simp: cl_inv_def cl_frame_def co_over_def cl_obj_ok_def cl_refs_def)
    then show ?thesis using c(1) None by (simp add: destroyTcpClient_def cl_setConnector_def Let_def)
  next
    case (Some i)
    let ?s0 = "s\<lparr>clAlive := False, clConnection := None, clObjs := (clObjs s)[i := (clObjs s ! i)\<lparr>ccDetached := True\<rparr>]\<rparr>"
    let ?s = "?s0\<lparr>clConnectorGone := True\<rparr>"
    have i: "i < length (clObjs s)" "coState (clConnector s) = CoConnected" using fr Some by (auto simp: cl_frame_def)
    have idle: "coQueue (clConnector s) = []" using quiet Some by simp
    have last: "coChannel (clConnector s) = None" "coTimers (clConnector s) = 0"
      using fr i(2) idle by (auto simp: cl_frame_def co_phase_def)
    have "cl_inv ?s"
    proof (rule cl_invI)
      show "cl_frame ?s" using fr i idle last own by (simp add: cl_frame_def co_over_def cl_refs_def)
      show "cl_obj_ok ?s j" if "j < length (clObjs ?s)" for j
        using obj[of j] that Some by (cases "j = i") (auto simp: cl_obj_ok_def cc_ok_def)
    qed
    moreover have "destroyTcpClient s = Inr ?s"
      using Some last own by (simp add: destroyTcpClient_def Let_def cl_release_def destroyConnector_def)
    ultimately show ?thesis by blast
  qed
qed

lemma detail_removeConnector_ok:
  assumes inv: "cl_inv s" and held: "clHeld s" and idle: "coQueue (clConnector s) = []"
  shows "\<exists>s'. detail_removeConnector s = Inr s' \<and> cl_inv s'"
proof -
  have fr: "cl_frame s" using inv by (simp add: cl_inv_def)
  let ?c = "clConnector s"
  have dead: "\<not> clAlive s" "\<not> clConnectorGone s" "co_over ?c" "co_phase ?c" using fr held by (auto simp: cl_frame_def cl_refs_def)
  have chan: "coChannel ?c = None" using dead(3,4) idle by (auto simp: co_over_def co_phase_def)
  let ?s = "s\<lparr>clHeld := False, clConnectorGone := (coTimers ?c = 0)\<rparr>"
  have "detail_removeConnector s = Inr ?s"
    using dead(1,2) chan by (auto simp: detail_removeConnector_def cl_release_def destroyConnector_def)
  moreover have "cl_inv ?s"
    by (rule calm_keeps[OF inv dead(4)]) (use dead chan idle in \<open>auto simp: cl_refs_def co_calm_def\<close>)
  ultimately show ?thesis by blast
qed

lemma cl_event_ok:
  assumes inv: "cl_inv s" and legal: "cl_legal ev s"
  shows "\<exists>s'. cl_event_do ev s = Inr s' \<and> cl_inv s'"
proof -
  have keep: "cl_inv (s\<lparr>clRetry := True\<rparr>)" "cl_inv (s\<lparr>clHasWriteComplete := True\<rparr>)"
    using inv by (simp_all add: cl_inv_def cl_frame_def cl_obj_ok_def)
  show ?thesis
  proof (cases ev)
    case (ClConn i e a)
    then show ?thesis using cl_conn_event_ok[OF inv] legal by (simp del: cl_legal.simps)
  qed (use inv legal keep in \<open>auto intro: cl_start_ok cl_disconnect_ok cl_stop_ok cl_connector_event_ok cl_destroyConn_ok destroyTcpClient_ok detail_removeConnector_ok
        simp: cl_enableRetry_def cl_setWriteCompleteCallback_def\<close>)
qed

lemma cl_legal_run_inv:
  assumes "cl_inv s" and "cl_legal_run evs s = Some r"
  shows "\<exists>s'. r = Inr s' \<and> cl_inv s'"
  using assms
proof (induction evs arbitrary: s)
  case (Cons ev evs)
  then have legal: "cl_legal ev s" by (auto split: if_splits)
  obtain s' where "cl_event_do ev s = Inr s'" "cl_inv s'" using cl_event_ok[OF Cons.prems(1) legal] by blast
  then show ?case using Cons.IH Cons.prems(2) legal by auto
qed auto

subsection \<open>Properties\<close>

text \<open>Property C18. Let the user call \<open>connect\<close> only when the connector may start (no attempt, retry or
  connection of it is left), make calls on a client that exists only, and destroy it in the loop's
  thread, if it has a connection not in the very turn of the loop in which that was made or a
  \<open>stop\<close> is waiting. Then, however these calls, the connector's timers and channel events, the connections'
  events and the queued functors follow each other,
  no assertion of the client, of its connector (that of its destructor included) or of its connections fires, nothing is called on the
  destroyed client or the destroyed connector, no descriptor of the connector is closed twice, and every connection object
  ever made is closed at most once and destroyed exactly once for each close whose functor ran. The only
  connections that live are the one the client holds, whose connector is then connected, and one
  that a destroyed client has left to the loop. The connector of a destroyed client is destroyed
  exactly when neither the destructor's timer nor a retry timer holds it.\<close>

theorem tcp_client_safe:
  assumes "cl_legal_run evs (newTcpClient name) = Some r"
  shows "\<exists>s. r = Inr s \<and> \<not> coBadClose (clConnector s)
    \<and> (clConnection s \<noteq> None \<longrightarrow> clAlive s \<and> coState (clConnector s) = CoConnected)
    \<and> (clConnectorGone s \<longleftrightarrow> \<not> clAlive s \<and> \<not> clHeld s \<and> coTimers (clConnector s) = 0)
    \<and> (\<forall>i < length (clObjs s). let ob = clObjs s ! i in
         closes (ccConn ob) \<le> 1
         \<and> closes (ccConn ob) = count_list (clQueue s) i + ccDestroyed ob
         \<and> (cnState (ccConn ob) = kDisconnected \<longleftrightarrow> closes (ccConn ob) = 1)
         \<and> (cnState (ccConn ob) \<noteq> kDisconnected \<longrightarrow> clConnection s = Some i \<or> ccDetached ob)
         \<and> (clConnection s = Some i \<longrightarrow> cnState (ccConn ob) = kConnected \<or> cnState (ccConn ob) = kDisconnecting))"
proof -
  obtain s where s: "r = Inr s" "cl_inv s" using cl_legal_run_inv[OF newTcpClient_inv assms] by blast
  then have fr: "cl_frame s" and obj: "\<And>i. i < length (clObjs s) \<Longrightarrow> cl_obj_ok s i" by (auto simp: cl_inv_def)
  have 1: "\<not> coBadClose (clConnector s)" using fr by (simp add: cl_frame_def co_phase_def)
  have 2: "clConnection s \<noteq> None \<longrightarrow> clAlive s \<and> coState (clConnector s) = CoConnected" using fr by (auto simp: cl_frame_def)
  have 3: "closes (ccConn ob) \<le> 1 \<and> closes (ccConn ob) = count_list (clQueue s) i + ccDestroyed ob
      \<and> (cnState (ccConn ob) = kDisconnected \<longleftrightarrow> closes (ccConn ob) = 1)
      \<and> (cnState (ccConn ob) \<noteq> kDisconnected \<longrightarrow> clConnection s = Some i \<or> ccDetached ob)
      \<and> (clConnection s = Some i \<longrightarrow> cnState (ccConn ob) = kConnected \<or> cnState (ccConn ob) = kDisconnecting)"
    if "i < length (clObjs s)" "ob = clObjs s ! i" for i ob
    using obj[OF that(1)] that(2) by (cases "cnState (ccConn ob)") (auto simp: cl_obj_ok_def cc_ok_def)
  have 4: "clConnectorGone s \<longleftrightarrow> \<not> clAlive s \<and> \<not> clHeld s \<and> coTimers (clConnector s) = 0"
    using fr by (auto simp: cl_frame_def cl_refs_def)
  show ?thesis using s(1) 1 2 3 4 unfolding Let_def by blast
qed

text \<open>A connection is made on descriptor 5, and the client is destroyed while it is there.\<close>

definition client_run :: "cl_event list" where
  "client_run =
     (let a = \<lparr>atSockfd = 5, atErrno = 115, atSoError = 0, atSelf = False\<rparr>
      in [ClConnect True a, ClConnector (CoWritable a) ''1.2.3.4:80'' [], ClConnector (CoFunctor a) '''' [], ClDestroy])"

lemma client_run_result:
  "\<exists>s. cl_legal_run client_run (newTcpClient ''c'') = Some (Inr s) \<and> length (clObjs s) = 1 \<and> ccDetached (clObjs s ! 0) \<and> clConnectorGone s"
proof -
  let ?a = "\<lparr>atSockfd = 5, atErrno = 115, atSoError = 0, atSelf = False\<rparr>"
  let ?k = "projr (co_event_do (CoStart True ?a) newConnector)"
  have "isl (co_event_do (CoStart True ?a) newConnector) = False \<and> co_legal (CoWritable ?a) ?k \<and> coNew ?k = []
    \<and> loop_delivers (CoWritable ?a) ?k \<and> isl (co_event_do (CoWritable ?a) ?k) = False"
    by code_simp
  then obtain k where k: "co_event_do (CoStart True ?a) newConnector = Inr k" "co_legal (CoWritable ?a) k" "coNew k = []"
    "loop_delivers (CoWritable ?a) k" and nl: "\<not> isl (co_event_do (CoWritable ?a) k)"
    by (metis sum.collapse(2))
  have "projr (co_event_do (CoWritable ?a) (projr (co_event_do (CoStart True ?a) newConnector))) = newConnector\<lparr>coConnect := True,
      coState := CoConnected, coChannel := coChannel (projr (co_event_do (CoWritable ?a) (projr (co_event_do (CoStart True ?a) newConnector)))),
      coQueue := [FResetChannel], coNew := [5]\<rparr>" by code_simp
  then obtain ch where k': "co_event_do (CoWritable ?a) k = Inr (newConnector\<lparr>coConnect := True,
      coState := CoConnected, coChannel := ch, coQueue := [FResetChannel], coNew := [5]\<rparr>)"
    using k(1) nl by (metis sum.collapse(2) sum.sel(2))
  obtain c where c: "conn_event_do (EvEstablished []) (newConn 0 5) = Inr c"
    using conn_event_ok[OF newConn_inv, of "EvEstablished []" 0 5] by (auto simp: newConn_def)
  show ?thesis
    using k k' c
    by (simp add: client_run_def cl_connect_def newTcpClient_def cl_setConnector_def cl_connector_event_def
        cl_newConnection_def destroyTcpClient_def cl_release_def destroyConnector_def resetChannel_def
        Let_def co_idle_def newConnector_def)
qed

theorem tcp_client_safe_witness:
  "\<exists>s. cl_legal_run client_run (newTcpClient ''c'') = Some (Inr s) \<and> \<not> coBadClose (clConnector s)
     \<and> length (clObjs s) = 1 \<and> closes (ccConn (clObjs s ! 0)) \<le> 1"
proof -
  obtain s where s: "cl_legal_run client_run (newTcpClient ''c'') = Some (Inr s)" "length (clObjs s) = 1"
    using client_run_result by blast
  from tcp_client_safe[OF s(1)] s show ?thesis by (auto simp: Let_def)
qed

text \<open>\<open>connect\<close> once more after the connection was lost, without \<open>enableRetry\<close>: the connector was never
  told about the loss, it is still connected, and its \<open>startInLoop\<close> asserts that it is not.\<close>

lemma connect_again_faults:
  assumes "coState (clConnector s) = CoConnected"
  shows "cl_connect True a s = Inl (AssertFailed ''startInLoop: state_ == kDisconnected'')"
  using assms by (simp add: cl_connect_def co_start_def startInLoop_def cl_setConnector_def Let_def)

lemma loss_keeps_connected:
  assumes "cl_removeConnection i a s = Inr s'" and "\<not> clRetry s"
  shows "clConnection s' = None \<and> clConnector s' = clConnector s"
  using assms by (auto simp: cl_removeConnection_def Let_def ensure_def split: if_splits)

text \<open>A client that is destroyed while its connection is up, with the functor that resets the connector's
  channel still waiting: the destructor of the connector asserts that the channel is gone.\<close>

lemma destroy_same_turn_asserts:
  assumes "cl_inv s" and "clAlive s" and "clConnection s \<noteq> None" and "FResetChannel \<in> set (coQueue (clConnector s))"
  shows "destroyTcpClient s = Inl (AssertFailed ''~Connector: !channel_'')"
proof -
  have fr: "cl_frame s" using assms(1) by (simp add: cl_inv_def)
  have "coState (clConnector s) = CoConnected" using fr assms(3) by (auto simp: cl_frame_def)
  then have "coChannel (clConnector s) \<noteq> None" "coTimers (clConnector s) = 0" using fr assms(4) by (auto simp: cl_frame_def co_phase_def)
  moreover have "\<not> clHeld s" "\<not> clConnectorGone s" using fr assms(2) by (auto simp: cl_frame_def cl_refs_def)
  ultimately show ?thesis using assms(3) by (auto simp: destroyTcpClient_def Let_def cl_release_def destroyConnector_def)
qed

text \<open>With a \<open>stop\<close> of another thread waiting the assertion holds, and the functor is run on the freed
  connector later.\<close>

lemma stop_functor_outlives_connector:
  assumes "cl_inv s" and "clAlive s" and "clConnection s \<noteq> None" and "coQueue (clConnector s) = [FStopInLoop]"
  shows "\<exists>s'. destroyTcpClient s = Inr s' \<and> cl_connector_event (CoFunctor a) peer acts s' = Inl (BadAccess ''Connector'')"
proof -
  have fr: "cl_frame s" using assms(1) by (simp add: cl_inv_def)
  have "coState (clConnector s) = CoConnected" using fr assms(3) by (auto simp: cl_frame_def)
  then have "coChannel (clConnector s) = None" "coTimers (clConnector s) = 0" using fr assms(4) by (auto simp: cl_frame_def co_phase_def)
  moreover have "\<not> clHeld s" "\<not> clConnectorGone s" using fr assms(2) by (auto simp: cl_frame_def cl_refs_def)
  ultimately show ?thesis using assms(3)
    by (auto simp: destroyTcpClient_def Let_def cl_release_def destroyConnector_def cl_connector_event_def)
qed

end
