(* ===== verification/HttpParse.thy ===== *)
theory HttpParse
  imports NetBuffer StdText
begin

text \<open>
  The HTTP request parser: \<open>HttpRequest\<close>, \<open>HttpContext\<close> and the parsing half of \<open>HttpServer.cc\<close>
  (\<open>processRequestLine\<close>, \<open>parseRequest\<close>). \<open>std::map\<close> is the list of its entries in key order. The
  parse loop is a \<open>partial_function\<close>: not returning is \<open>None\<close>.
\<close>

subsection \<open>Requests\<close>

datatype http_method = kInvalid | kGet | kPost | kHead | kPut | kDelete

datatype http_version = kUnknownVersion | kHttp10 | kHttp11

record http_request =
  rqMethod :: http_method
  rqVersion :: http_version
  rqPath :: string
  rqReceiveTime :: int
  rqHeaders :: "(string \<times> string) list"

definition newHttpRequest :: http_request where
  "newHttpRequest = \<lparr>rqMethod = kInvalid, rqVersion = kUnknownVersion, rqPath = [], rqReceiveTime = 0, rqHeaders = []\<rparr>"

definition setMethod :: "string \<Rightarrow> http_request \<Rightarrow> (bool \<times> http_request) res" where
  "setMethod m r =
     ensure (rqMethod r = kInvalid) ''setMethod: method_ == kInvalid''
     (let v = (if m = ''GET'' then kGet else if m = ''POST'' then kPost else if m = ''HEAD'' then kHead
               else if m = ''PUT'' then kPut else if m = ''DELETE'' then kDelete else kInvalid)
      in Inr (v \<noteq> kInvalid, r\<lparr>rqMethod := v\<rparr>))"

fun methodString :: "http_method \<Rightarrow> string" where
  "methodString kGet = ''GET''"
| "methodString kPost = ''POST''"
| "methodString kHead = ''HEAD''"
| "methodString kPut = ''PUT''"
| "methodString kDelete = ''DELETE''"
| "methodString kInvalid = ''UNKNOWN''"

text \<open>C's \<open>isspace\<close>: tab, line feed, vertical tab, form feed, carriage return, space.\<close>

text \<open>\<open>addHeader(start, colon, end)\<close> on the line and the offset of its colon.\<close>

definition rq_addHeader :: "string \<Rightarrow> nat \<Rightarrow> http_request \<Rightarrow> http_request" where
  "rq_addHeader line colon r =
     (let field = take colon line;
          value1 = dropWhile c_isspace (drop (colon + 1) line);
          value2 = rev (dropWhile c_isspace (rev value1))
      in r\<lparr>rqHeaders := std_map_put field value2 (rqHeaders r)\<rparr>)"

definition rq_getHeader :: "string \<Rightarrow> http_request \<Rightarrow> string" where
  "rq_getHeader field r = (case map_of (rqHeaders r) field of Some v \<Rightarrow> v | None \<Rightarrow> [])"

text \<open>\<open>swap\<close> exchanges every field but the version.\<close>

definition rq_swap :: "http_request \<times> http_request \<Rightarrow> http_request \<times> http_request" where
  "rq_swap p = (case p of (a, b) \<Rightarrow> (b\<lparr>rqVersion := rqVersion a\<rparr>, a\<lparr>rqVersion := rqVersion b\<rparr>))"

subsection \<open>Parser state\<close>

datatype parse_state = kExpectRequestLine | kExpectHeaders | kExpectBody | kGotAll

record http_context =
  hcState :: parse_state
  hcRequest :: http_request

definition newHttpContext :: http_context where
  "newHttpContext = \<lparr>hcState = kExpectRequestLine, hcRequest = newHttpRequest\<rparr>"

definition receiveRequestLine :: "http_context \<Rightarrow> http_context" where
  "receiveRequestLine c = c\<lparr>hcState := kExpectHeaders\<rparr>"

definition receiveHeaders :: "http_context \<Rightarrow> http_context" where
  "receiveHeaders c = c\<lparr>hcState := kGotAll\<rparr>"

definition hc_reset :: "http_context \<Rightarrow> http_context" where
  "hc_reset c = c\<lparr>hcState := kExpectRequestLine, hcRequest := fst (rq_swap (hcRequest c, newHttpRequest))\<rparr>"

subsection \<open>Parsing\<close>

definition processRequestLine :: "string \<Rightarrow> http_context \<Rightarrow> (bool \<times> http_context) res" where
  "processRequestLine line c =
     (let space = std_find CHR '' '' line
      in if space = length line then Inr (False, c)
         else bindR (setMethod (take space line) (hcRequest c)) (\<lambda>(okMethod, r).
           if \<not> okMethod then Inr (False, c\<lparr>hcRequest := r\<rparr>)
           else
             let rest = drop (space + 1) line;
                 space2 = std_find CHR '' '' rest
             in if space2 = length rest then Inr (False, c\<lparr>hcRequest := r\<rparr>)
                else
                  let r1 = r\<lparr>rqPath := take space2 rest\<rparr>;
                      ver = drop (space2 + 1) rest;
                      succeed = (length ver = 8 \<and> take 7 ver = ''HTTP/1.'')
                  in if succeed \<and> last ver = CHR ''1'' then Inr (True, c\<lparr>hcRequest := r1\<lparr>rqVersion := kHttp11\<rparr>\<rparr>)
                     else if succeed \<and> last ver = CHR ''0'' then Inr (True, c\<lparr>hcRequest := r1\<lparr>rqVersion := kHttp10\<rparr>\<rparr>)
                     else Inr (False, c\<lparr>hcRequest := r1\<rparr>)))"

text \<open>One turn of the loop with \<open>hasMore\<close> set: \<open>Inr (Inl ...)\<close> leaves the loop with the value of
  \<open>ok\<close>, \<open>Inr (Inr ...)\<close> goes on.\<close>

definition parse_turn ::
  "int \<Rightarrow> netbuf \<Rightarrow> http_context \<Rightarrow> (bool \<times> netbuf \<times> http_context + netbuf \<times> http_context) res" where
  "parse_turn t buf c =
     (case hcState c of
        kExpectRequestLine \<Rightarrow>
          (case findCRLF buf of
             Some crlf \<Rightarrow>
               bindR (processRequestLine (range_at buf (peek buf) crlf) c) (\<lambda>(ok, c1).
               if ok then
                 let c2 = c1\<lparr>hcRequest := (hcRequest c1)\<lparr>rqReceiveTime := t\<rparr>\<rparr>
                 in bindR (retrieveUntil buf (crlf + 2)) (\<lambda>buf1. Inr (Inr (buf1, receiveRequestLine c2)))
               else Inr (Inl (False, buf, c1)))
           | None \<Rightarrow> Inr (Inl (True, buf, c)))
      | kExpectHeaders \<Rightarrow>
          (case findCRLF buf of
             Some crlf \<Rightarrow>
               let line = range_at buf (peek buf) crlf;
                   colon = std_find CHR '':'' line
               in if colon \<noteq> length line then
                    bindR (retrieveUntil buf (crlf + 2)) (\<lambda>buf1.
                    Inr (Inr (buf1, c\<lparr>hcRequest := rq_addHeader line colon (hcRequest c)\<rparr>)))
                  else
                    bindR (retrieveUntil buf (crlf + 2)) (\<lambda>buf1. Inr (Inl (True, buf1, receiveHeaders c)))
           | None \<Rightarrow> Inr (Inl (True, buf, c)))
      | kExpectBody \<Rightarrow> Inr (Inr (buf, c))
      | kGotAll \<Rightarrow> Inr (Inr (buf, c)))"

partial_function (option) parseRequest ::
  "int \<Rightarrow> netbuf \<Rightarrow> http_context \<Rightarrow> (bool \<times> netbuf \<times> http_context) res option" where
  "parseRequest t buf c =
     (case parse_turn t buf c of
        Inl e \<Rightarrow> Some (Inl e)
      | Inr (Inl r) \<Rightarrow> Some (Inr r)
      | Inr (Inr (buf1, c1)) \<Rightarrow> parseRequest t buf1 c1)"

subsection \<open>The parser on the bytes received\<close>

text \<open>The same on byte lists; every turn of the loop takes a line off.\<close>

function parse_bytes :: "int \<Rightarrow> char list \<Rightarrow> http_context \<Rightarrow> (bool \<times> char list \<times> http_context) res" where
  "parse_bytes t xs c =
     (case find_crlf xs of
        None \<Rightarrow> Inr (True, xs, c)
      | Some n \<Rightarrow>
          if length xs < n + 2 then Inr (True, xs, c)
          else if hcState c = kExpectRequestLine then
            bindR (processRequestLine (take n xs) c) (\<lambda>(ok, c1).
            if ok then parse_bytes t (drop (n + 2) xs) (receiveRequestLine (c1\<lparr>hcRequest := (hcRequest c1)\<lparr>rqReceiveTime := t\<rparr>\<rparr>))
            else Inr (False, xs, c1))
          else if hcState c = kExpectHeaders then
            (if CHR '':'' \<in> set (take n xs)
             then parse_bytes t (drop (n + 2) xs)
                    (c\<lparr>hcRequest := rq_addHeader (take n xs) (std_find CHR '':'' (take n xs)) (hcRequest c)\<rparr>)
             else Inr (True, drop (n + 2) xs, receiveHeaders c))
          else Inr (True, xs, c))"
  by pat_completeness auto
termination by (relation "measure (\<lambda>(t, xs, c). length xs)") auto

declare parse_bytes.simps [simp del]

definition parsing :: "http_context \<Rightarrow> bool" where
  "parsing c \<longleftrightarrow> hcState c = kExpectRequestLine \<or> hcState c = kExpectHeaders"

lemma find_crlf_append: "find_crlf xs = Some n \<Longrightarrow> find_crlf (xs @ ys) = Some n"
proof -
  assume h: "find_crlf xs = Some n"
  note S = find_crlf_Some[OF h]
  have len: "length kCRLF = 2" by (simp add: kCRLF_def)
  have "std_search kCRLF (xs @ ys) = n"
  proof (rule std_search_eqI)
    show "take (length kCRLF) (drop n (xs @ ys)) = kCRLF" using S(1,2) by (simp add: len)
    show "take (length kCRLF) (drop j (xs @ ys)) \<noteq> kCRLF" if "j < n" for j
      using S(3)[OF that] S(1) that by (simp add: len)
  qed (use S(1) in simp)
  with S(1) show ?thesis by (simp add: find_crlf_def)
qed

lemma parse_bytes_line:
  assumes "find_crlf xs = Some n"
  shows "parse_bytes t xs c =
    (if hcState c = kExpectRequestLine then
       bindR (processRequestLine (take n xs) c) (\<lambda>(ok, c1).
       if ok then parse_bytes t (drop (n + 2) xs) (receiveRequestLine (c1\<lparr>hcRequest := (hcRequest c1)\<lparr>rqReceiveTime := t\<rparr>\<rparr>))
       else Inr (False, xs, c1))
     else if hcState c = kExpectHeaders then
       (if CHR '':'' \<in> set (take n xs)
        then parse_bytes t (drop (n + 2) xs)
               (c\<lparr>hcRequest := rq_addHeader (take n xs) (std_find CHR '':'' (take n xs)) (hcRequest c)\<rparr>)
        else Inr (True, drop (n + 2) xs, receiveHeaders c))
     else Inr (True, xs, c))"
  using find_crlf_Some(1)[OF assms] assms by (subst parse_bytes.simps) simp

lemma parse_bytes_idle: "find_crlf xs = None \<Longrightarrow> parse_bytes t xs c = Inr (True, xs, c)"
  by (subst parse_bytes.simps) simp

text \<open>What the loop returns on a buffer is what the byte-level parser says of the bytes in it.\<close>

definition parse_result ::
  "(bool \<times> netbuf \<times> http_context) res option \<Rightarrow> (bool \<times> char list \<times> http_context) res \<Rightarrow> bool" where
  "parse_result got want \<longleftrightarrow>
     (case want of
        Inl e \<Rightarrow> got = Some (Inl e)
      | Inr (ok, r, c) \<Rightarrow> \<exists>b. got = Some (Inr (ok, b, c)) \<and> buf_wf b \<and> readable b = r)"

lemma parseRequest_bytes:
  "buf_wf buf \<Longrightarrow> parsing c \<Longrightarrow> parse_result (parseRequest t buf c) (parse_bytes t (readable buf) c)"
proof (induction "length (readable buf)" arbitrary: buf c rule: less_induct)
  case less
  show ?case
  proof (cases "find_crlf (readable buf)")
    case None
    then have "findCRLF buf = None" by (simp add: findCRLF_readable[OF less.prems(1)])
    then have "parse_turn t buf c = Inr (Inl (True, buf, c))"
      using less.prems(2) by (auto simp: parse_turn_def parsing_def)
    then show ?thesis using less.prems(1)
      by (simp add: parseRequest.simps[of t buf c] parse_bytes_idle[OF None] parse_result_def)
  next
    case (Some n)
    note S = find_crlf_Some[OF Some]
    have crlf: "findCRLF buf = Some (peek buf + n)" using Some by (simp add: findCRLF_readable[OF less.prems(1)])
    have line: "range_at buf (peek buf) (peek buf + n) = take n (readable buf)"
      using S(1) less.prems(1) by (intro range_at_peek) simp_all
    obtain buf1 where b1: "retrieveUntil buf (peek buf + n + 2) = Inr buf1" "buf_wf buf1"
        "readable buf1 = drop (n + 2) (readable buf)"
      using retrieveUntil_ok[OF less.prems(1), of "n + 2"] S(1) by (metis add.assoc)
    have shorter: "length (readable buf1) < length (readable buf)" using S(1) b1(3) by simp
    show ?thesis
    proof (cases "hcState c = kExpectRequestLine")
      case True
      show ?thesis
      proof (cases "processRequestLine (take n (readable buf)) c")
        case (Inl e)
        then have "parse_turn t buf c = Inl e" using True crlf line by (simp add: parse_turn_def)
        then show ?thesis
          using True Inl by (simp add: parseRequest.simps[of t buf c] parse_bytes_line[OF Some] parse_result_def)
      next
        case (Inr p)
        obtain ok c1 where p: "p = (ok, c1)" by (cases p)
        show ?thesis
        proof (cases ok)
          case ok: True
          let ?c = "receiveRequestLine (c1\<lparr>hcRequest := (hcRequest c1)\<lparr>rqReceiveTime := t\<rparr>\<rparr>)"
          have "parse_turn t buf c = Inr (Inr (buf1, ?c))"
            using True crlf line Inr p ok b1(1) by (simp add: parse_turn_def Let_def)
          then have "parseRequest t buf c = parseRequest t buf1 ?c" by (simp add: parseRequest.simps[of t buf c])
          moreover have "parsing ?c" by (simp add: parsing_def receiveRequestLine_def)
          ultimately show ?thesis
            using less.hyps[OF shorter b1(2)] True Inr p ok b1(3) by (simp add: parse_bytes_line[OF Some])
        next
          case False
          then have "parse_turn t buf c = Inr (Inl (False, buf, c1))"
            using True crlf line Inr p by (simp add: parse_turn_def)
          then show ?thesis using True Inr p False less.prems(1)
            by (simp add: parseRequest.simps[of t buf c] parse_bytes_line[OF Some] parse_result_def)
        qed
      qed
    next
      case False
      then have st: "hcState c = kExpectHeaders" using less.prems(2) by (auto simp: parsing_def)
      let ?line = "take n (readable buf)"
      show ?thesis
      proof (cases "CHR '':'' \<in> set ?line")
        case True
        let ?c = "c\<lparr>hcRequest := rq_addHeader ?line (std_find CHR '':'' ?line) (hcRequest c)\<rparr>"
        have "parse_turn t buf c = Inr (Inr (buf1, ?c))"
          using st crlf b1(1) line True by (simp add: parse_turn_def Let_def)
        then have "parseRequest t buf c = parseRequest t buf1 ?c" by (simp add: parseRequest.simps[of t buf c])
        moreover have "parsing ?c" using st by (simp add: parsing_def)
        ultimately show ?thesis
          using less.hyps[OF shorter b1(2)] st True b1(3) by (simp add: parse_bytes_line[OF Some])
      next
        case no: False
        have "parse_turn t buf c = Inr (Inl (True, buf1, receiveHeaders c))"
          using st crlf b1(1) line no by (simp add: parse_turn_def Let_def)
        then show ?thesis using st no b1(2,3)
          by (simp add: parseRequest.simps[of t buf c] parse_bytes_line[OF Some] parse_result_def)
      qed
    qed
  qed
qed

text \<open>Nothing of the parser's result changes when more bytes follow, except that a request that was
  not complete is looked at again with the parser where it stopped.\<close>

lemma parse_bytes_append:
  assumes "parsing c"
  shows "case parse_bytes t xs c of
      Inl e \<Rightarrow> parse_bytes t (xs @ ys) c = Inl e
    | Inr (ok, r, c') \<Rightarrow>
        (if \<not> ok \<or> hcState c' = kGotAll then parse_bytes t (xs @ ys) c = Inr (ok, r @ ys, c')
         else parsing c' \<and> find_crlf r = None \<and> parse_bytes t (xs @ ys) c = parse_bytes t (r @ ys) c')"
  using assms
proof (induction t xs c rule: parse_bytes.induct)
  case (1 t xs c)
  show ?case
  proof (cases "find_crlf xs")
    case None
    have "hcState c \<noteq> kGotAll" using "1.prems" by (auto simp: parsing_def)
    then show ?thesis using "1.prems" None by (simp add: parse_bytes_idle)
  next
    case (Some n)
    note S = find_crlf_Some[OF Some]
    have le: "\<not> length xs < n + 2" using S(1) by simp
    have tk: "take n (xs @ ys) = take n xs" "drop (n + 2) (xs @ ys) = drop (n + 2) xs @ ys" using S(1) by simp_all
    note L = parse_bytes_line[OF Some, of t c]
    note L' = parse_bytes_line[OF find_crlf_append[OF Some, of ys], of t c, unfolded tk]
    show ?thesis
    proof (cases "hcState c = kExpectRequestLine")
      case True
      show ?thesis
      proof (cases "processRequestLine (take n xs) c")
        case (Inr p)
        obtain ok c1 where p: "p = (ok, c1)" by (cases p)
        let ?c = "receiveRequestLine (c1\<lparr>hcRequest := (hcRequest c1)\<lparr>rqReceiveTime := t\<rparr>\<rparr>)"
        have "parsing ?c" by (simp add: parsing_def receiveRequestLine_def)
        show ?thesis
        proof (cases ok)
          case ok: True
          have "parse_bytes t xs c = parse_bytes t (drop (n + 2) xs) ?c"
            "parse_bytes t (xs @ ys) c = parse_bytes t (drop (n + 2) xs @ ys) ?c"
            using True Inr p ok L L' by simp_all
          with "1.IH"(1)[OF Some le True Inr p[symmetric] ok \<open>parsing ?c\<close>] show ?thesis by (simp only:)
        next
          case False
          then have "parse_bytes t xs c = Inr (False, xs, c1)" "parse_bytes t (xs @ ys) c = Inr (False, xs @ ys, c1)"
            using True Inr p L L' by simp_all
          then show ?thesis by simp
        qed
      next
        case (Inl e)
        then have "parse_bytes t xs c = Inl e" "parse_bytes t (xs @ ys) c = Inl e" using True L L' by simp_all
        then show ?thesis by simp
      qed
    next
      case False
      then have st: "hcState c = kExpectHeaders" using "1.prems" by (auto simp: parsing_def)
      show ?thesis
      proof (cases "CHR '':'' \<in> set (take n xs)")
        case True
        let ?c = "c\<lparr>hcRequest := rq_addHeader (take n xs) (std_find CHR '':'' (take n xs)) (hcRequest c)\<rparr>"
        have "parsing ?c" using st by (simp add: parsing_def)
        have "parse_bytes t xs c = parse_bytes t (drop (n + 2) xs) ?c"
          "parse_bytes t (xs @ ys) c = parse_bytes t (drop (n + 2) xs @ ys) ?c"
          using st True L L' by simp_all
        with "1.IH"(2)[OF Some le False st True \<open>parsing ?c\<close>] show ?thesis by (simp only:)
      next
        case False
        then have "parse_bytes t xs c = Inr (True, drop (n + 2) xs, receiveHeaders c)"
          "parse_bytes t (xs @ ys) c = Inr (True, drop (n + 2) xs @ ys, receiveHeaders c)"
          using st L L' by simp_all
        then show ?thesis by (simp add: receiveHeaders_def)
      qed
    qed
  qed
qed

text \<open>The time of receipt only goes into its field.\<close>

definition strip_time :: "http_context \<Rightarrow> http_context" where
  "strip_time c = c\<lparr>hcRequest := (hcRequest c)\<lparr>rqReceiveTime := 0\<rparr>\<rparr>"

lemma setMethod_strip:
  "setMethod m (r\<lparr>rqReceiveTime := 0\<rparr>) = (case setMethod m r of Inl e \<Rightarrow> Inl e | Inr (ok, r') \<Rightarrow> Inr (ok, r'\<lparr>rqReceiveTime := 0\<rparr>))"
  by (simp add: setMethod_def ensure_def Let_def)

lemma processRequestLine_strip:
  "processRequestLine line (strip_time c) = (case processRequestLine line c of
     Inl e \<Rightarrow> Inl e | Inr (ok, c') \<Rightarrow> Inr (ok, strip_time c'))"
  by (cases "setMethod (take (std_find CHR '' '' line) line) (hcRequest c)")
    (auto simp: processRequestLine_def strip_time_def Let_def setMethod_strip)

lemma parse_bytes_strip:
  "parse_bytes 0 xs (strip_time c) = (case parse_bytes t xs c of
     Inl e \<Rightarrow> Inl e | Inr (ok, r, c') \<Rightarrow> Inr (ok, r, strip_time c'))"
proof (induction t xs c rule: parse_bytes.induct)
  case (1 t xs c)
  show ?case
  proof (cases "find_crlf xs")
    case (Some n)
    have le: "\<not> length xs < n + 2" using find_crlf_Some(1)[OF Some] by simp
    note L = parse_bytes_line[OF Some]
    have st: "hcState (strip_time c) = hcState c" by (simp add: strip_time_def)
    show ?thesis
    proof (cases "hcState c = kExpectRequestLine")
      case True
      show ?thesis
      proof (cases "processRequestLine (take n xs) c")
        case (Inr p)
        obtain ok c1 where p: "p = (ok, c1)" by (cases p)
        have eq: "receiveRequestLine (strip_time c1\<lparr>hcRequest := (hcRequest (strip_time c1))\<lparr>rqReceiveTime := 0\<rparr>\<rparr>)
            = strip_time (receiveRequestLine (c1\<lparr>hcRequest := (hcRequest c1)\<lparr>rqReceiveTime := t\<rparr>\<rparr>))"
          by (simp add: strip_time_def receiveRequestLine_def)
        from "1.IH"(1)[OF Some le True Inr p[symmetric]] show ?thesis
          using True Inr p by (cases ok) (simp_all add: L[of t c] L[of 0 "strip_time c"] st processRequestLine_strip eq)
      qed (use True in \<open>simp add: L[of t c] L[of 0 "strip_time c"] st processRequestLine_strip\<close>)
    next
      case False
      show ?thesis
      proof (cases "hcState c = kExpectHeaders \<and> CHR '':'' \<in> set (take n xs)")
        case True
        let ?l = "take n xs" and ?k = "std_find CHR '':'' (take n xs)"
        have eq: "strip_time c\<lparr>hcRequest := rq_addHeader ?l ?k (hcRequest (strip_time c))\<rparr>
            = strip_time (c\<lparr>hcRequest := rq_addHeader ?l ?k (hcRequest c)\<rparr>)"
          by (simp add: strip_time_def rq_addHeader_def Let_def)
        from "1.IH"(2)[OF Some le False] True show ?thesis
          using False by (simp add: L[of t c] L[of 0 "strip_time c"] st eq)
      next
        case no: False
        have "receiveHeaders (strip_time c) = strip_time (receiveHeaders c)"
          by (simp add: strip_time_def receiveHeaders_def)
        with False no L[of t c] L[of 0 "strip_time c"] show ?thesis by (auto simp: st)
      qed
    qed
  qed (simp add: parse_bytes_idle)
qed

subsection \<open>A request as text\<close>

fun versionString :: "http_version \<Rightarrow> string" where
  "versionString kHttp10 = ''HTTP/1.0''"
| "versionString kHttp11 = ''HTTP/1.1''"
| "versionString kUnknownVersion = ''HTTP/1.?''"

definition header_text :: "string \<times> string \<Rightarrow> string" where
  "header_text h = fst h @ '': '' @ snd h @ kCRLF"

definition request_text :: "http_method \<Rightarrow> string \<Rightarrow> http_version \<Rightarrow> (string \<times> string) list \<Rightarrow> string" where
  "request_text m path v hs =
     methodString m @ '' '' @ path @ '' '' @ versionString v @ kCRLF @ concat (map header_text hs) @ kCRLF"

text \<open>What a client may put into it.\<close>

definition cr :: char where "cr = CHR 0x0D"

definition header_ok :: "string \<times> string \<Rightarrow> bool" where
  "header_ok h \<longleftrightarrow> CHR '':'' \<notin> set (fst h) \<and> cr \<notin> set (fst h) \<and> cr \<notin> set (snd h)
     \<and> (snd h = [] \<or> \<not> c_isspace (hd (snd h)) \<and> \<not> c_isspace (last (snd h)))"

definition request_ok :: "http_method \<Rightarrow> string \<Rightarrow> http_version \<Rightarrow> (string \<times> string) list \<Rightarrow> bool" where
  "request_ok m path v hs \<longleftrightarrow> m \<noteq> kInvalid \<and> v \<noteq> kUnknownVersion \<and> CHR '' '' \<notin> set path \<and> cr \<notin> set path
     \<and> list_all header_ok hs"

definition header_map :: "(string \<times> string) list \<Rightarrow> (string \<times> string) list \<Rightarrow> (string \<times> string) list" where
  "header_map hs m = fold (\<lambda>(k, v). std_map_put k v) hs m"

lemma setMethod_string:
  assumes "m \<noteq> kInvalid" "rqMethod r = kInvalid"
  shows "setMethod (methodString m) r = Inr (True, r\<lparr>rqMethod := m\<rparr>)"
  using assms by (cases m) (simp_all add: setMethod_def)

lemma methodString_no_space: "CHR '' '' \<notin> set (methodString m)"
  by (cases m) simp_all

lemma processRequestLine_text:
  assumes "m \<noteq> kInvalid" "v \<noteq> kUnknownVersion" "CHR '' '' \<notin> set path" "rqMethod (hcRequest c) = kInvalid"
  shows "processRequestLine (methodString m @ '' '' @ path @ '' '' @ versionString v) c
    = Inr (True, c\<lparr>hcRequest := (hcRequest c)\<lparr>rqMethod := m, rqPath := path, rqVersion := v\<rparr>\<rparr>)"
  using assms(2,3) setMethod_string[OF assms(1,4)] methodString_no_space[of m]
  by (cases v) (simp_all add: processRequestLine_def Let_def)

lemma rq_addHeader_text:
  assumes "header_ok (k, v)"
  shows "rq_addHeader (k @ '': '' @ v) (length k) r = r\<lparr>rqHeaders := std_map_put k v (rqHeaders r)\<rparr>"
proof (cases v rule: rev_cases)
  case Nil
  then show ?thesis by (simp add: rq_addHeader_def c_isspace_def)
next
  case (snoc u x)
  have hd: "\<not> c_isspace (hd v)" and last: "\<not> c_isspace x" using assms snoc by (auto simp: header_ok_def)
  have "dropWhile c_isspace ('' '' @ v) = v"
  proof -
    have "v \<noteq> []" using snoc by simp
    then obtain a w where "v = a # w" by (cases v) simp_all
    moreover have "c_isspace CHR '' ''" by (simp add: c_isspace_def)
    ultimately show ?thesis using hd by simp
  qed
  moreover have "rev (dropWhile c_isspace (rev v)) = v" using last snoc by simp
  ultimately show ?thesis by (simp add: rq_addHeader_def Let_def)
qed

lemma line_split: "drop (length l + 2) (l @ kCRLF @ r) = r" "take (length l) (l @ kCRLF @ r) = l"
  by (simp_all add: kCRLF_def)

lemma parse_bytes_headers:
  assumes "list_all header_ok hs" "hcState c = kExpectHeaders"
  shows "parse_bytes t (concat (map header_text hs) @ kCRLF @ rest) c
    = Inr (True, rest, c\<lparr>hcState := kGotAll, hcRequest := (hcRequest c)\<lparr>rqHeaders := header_map hs (rqHeaders (hcRequest c))\<rparr>\<rparr>)"
  using assms
proof (induction hs arbitrary: c)
  case Nil
  have f: "find_crlf (kCRLF @ rest) = Some 0" using find_crlf_line[of "[]" rest] by simp
  show ?case using Nil.prems(2) parse_bytes_line[OF f, of t c]
    by (simp add: receiveHeaders_def header_map_def kCRLF_def)
next
  case (Cons h hs)
  obtain k v where h: "h = (k, v)" by (cases h)
  let ?line = "k @ '': '' @ v"
  let ?rest = "concat (map header_text hs) @ kCRLF @ rest"
  have ok: "header_ok (k, v)" "list_all header_ok hs" using Cons.prems(1) h by simp_all
  have f: "find_crlf (?line @ kCRLF @ ?rest) = Some (length ?line)"
    using ok(1) by (intro find_crlf_line) (auto simp: header_ok_def cr_def)
  have colon: "std_find CHR '':'' ?line = length k" using ok(1) by (simp add: header_ok_def)
  let ?c = "c\<lparr>hcRequest := (hcRequest c)\<lparr>rqHeaders := std_map_put k v (rqHeaders (hcRequest c))\<rparr>\<rparr>"
  have dr: "drop (length ?line + 2) (?line @ kCRLF @ ?rest) = ?rest" "take (length ?line) (?line @ kCRLF @ ?rest) = ?line"
    by (rule line_split)+
  have "parse_bytes t (?line @ kCRLF @ ?rest) c = parse_bytes t ?rest ?c"
    using parse_bytes_line[OF f, of t c, unfolded dr colon] Cons.prems(2) rq_addHeader_text[OF ok(1)] by simp
  also have "\<dots> = Inr (True, rest, ?c\<lparr>hcState := kGotAll,
      hcRequest := (hcRequest ?c)\<lparr>rqHeaders := header_map hs (rqHeaders (hcRequest ?c))\<rparr>\<rparr>)"
    using Cons.IH[OF ok(2), of ?c] Cons.prems(2) by simp
  finally show ?case by (simp add: header_text_def[of "(k, v)"] h header_map_def)
qed

lemma parse_bytes_request:
  assumes "request_ok m path v hs" "hcState c = kExpectRequestLine" "rqMethod (hcRequest c) = kInvalid" "rqHeaders (hcRequest c) = []"
  shows "parse_bytes t (request_text m path v hs @ rest) c
    = Inr (True, rest, c\<lparr>hcState := kGotAll, hcRequest := (hcRequest c)\<lparr>rqMethod := m, rqPath := path, rqVersion := v,
        rqReceiveTime := t, rqHeaders := header_map hs []\<rparr>\<rparr>)"
proof -
  let ?line = "methodString m @ '' '' @ path @ '' '' @ versionString v"
  let ?rest = "concat (map header_text hs) @ kCRLF @ rest"
  have ok: "m \<noteq> kInvalid" "v \<noteq> kUnknownVersion" "CHR '' '' \<notin> set path" "cr \<notin> set path" "list_all header_ok hs"
    using assms(1) by (simp_all add: request_ok_def)
  have "CHR 0x0D \<notin> set ?line"
    using ok(4) by (cases m; cases v) (simp_all add: cr_def)
  from find_crlf_line[OF this] have f: "find_crlf (?line @ kCRLF @ ?rest) = Some (length ?line)" .
  have dr: "drop (length ?line + 2) (?line @ kCRLF @ ?rest) = ?rest" "take (length ?line) (?line @ kCRLF @ ?rest) = ?line"
    by (rule line_split)+
  have "parse_bytes t (?line @ kCRLF @ ?rest) c = parse_bytes t ?rest (receiveRequestLine (c\<lparr>hcRequest := (hcRequest c)
      \<lparr>rqMethod := m, rqPath := path, rqVersion := v, rqReceiveTime := t\<rparr>\<rparr>))"
    using parse_bytes_line[OF f, of t c, unfolded dr] assms(2) processRequestLine_text[OF ok(1-3) assms(3)] by simp
  also have "\<dots> = Inr (True, rest, c\<lparr>hcState := kGotAll, hcRequest := (hcRequest c)\<lparr>rqMethod := m, rqPath := path, rqVersion := v,
        rqReceiveTime := t, rqHeaders := header_map hs []\<rparr>\<rparr>)"
    using assms(4) by (subst parse_bytes_headers[OF ok(5)]) (simp_all add: receiveRequestLine_def)
  finally show ?thesis by (simp add: request_text_def)
qed

end
