(* ===== verification/HttpServer.thy ===== *)
theory HttpServer
  imports HttpParse
begin

text \<open>
  \<open>HttpResponse\<close> and the serving half of \<open>HttpServer.cc\<close>: what the server does with each piece of
  input of a connection. The user's callback is an argument; what is sent and when the connection
  is shut down is the list of \<open>http_out\<close>.
\<close>

subsection \<open>Responses\<close>

record http_response =
  rsHeaders :: "(string \<times> string) list"
  rsStatusCode :: int
  rsStatusMessage :: string
  rsClose :: bool
  rsBody :: string

definition newHttpResponse :: "bool \<Rightarrow> http_response" where
  "newHttpResponse cl = \<lparr>rsHeaders = [], rsStatusCode = 0, rsStatusMessage = [], rsClose = cl, rsBody = []\<rparr>"

definition rs_addHeader :: "string \<Rightarrow> string \<Rightarrow> http_response \<Rightarrow> http_response" where
  "rs_addHeader key v r = r\<lparr>rsHeaders := std_map_put key v (rsHeaders r)\<rparr>"

definition rs_setContentType :: "string \<Rightarrow> http_response \<Rightarrow> http_response" where
  "rs_setContentType t r = rs_addHeader ''Content-Type'' t r"

definition k404NotFound :: int where "k404NotFound = 404"

text \<open>The arguments of the successive \<open>output->append\<close> calls.\<close>

definition response_pieces :: "http_response \<Rightarrow> string list" where
  "response_pieces r =
     [snprintf 32 (''HTTP/1.1 '' @ dec_int (rsStatusCode r) @ '' ''), rsStatusMessage r, kCRLF]
   @ (if rsClose r then [''Connection: close'' @ kCRLF]
      else [snprintf 32 (''Content-Length: '' @ dec_nat (length (rsBody r)) @ kCRLF), ''Connection: Keep-Alive'' @ kCRLF])
   @ concat (map (\<lambda>(k, v). [k, '': '', v, kCRLF]) (rsHeaders r))
   @ [kCRLF, rsBody r]"

definition appendToBuffer :: "http_response \<Rightarrow> netbuf \<Rightarrow> netbuf res" where
  "appendToBuffer r output = foldR (\<lambda>d b. bufAppend b d) (response_pieces r) output"

subsection \<open>Serving\<close>

datatype http_out = HoSend string | HoShutdown

definition defaultHttpCallback :: "http_request \<Rightarrow> http_response \<Rightarrow> http_response" where
  "defaultHttpCallback rq resp = resp\<lparr>rsStatusCode := k404NotFound, rsStatusMessage := ''Not Found'', rsClose := True\<rparr>"

definition wants_close :: "http_request \<Rightarrow> bool" where
  "wants_close req \<longleftrightarrow>
     (let connection = rq_getHeader ''Connection'' req
      in connection = ''close'' \<or> rqVersion req = kHttp10 \<and> connection \<noteq> ''Keep-Alive'')"

definition http_onRequest ::
  "(http_request \<Rightarrow> http_response \<Rightarrow> http_response) \<Rightarrow> http_request \<Rightarrow> http_out list res" where
  "http_onRequest httpCallback req =
     (let response = httpCallback req (newHttpResponse (wants_close req))
      in bindR (appendToBuffer response newBuffer) (\<lambda>buf.
         Inr (HoSend (range_at buf (peek buf) (peek buf + readableBytes buf))
              # (if rsClose response then [HoShutdown] else []))))"

text \<open>The message callback; \<open>onConnection\<close> gives a new connection a new context.\<close>

definition http_onMessage ::
  "(http_request \<Rightarrow> http_response \<Rightarrow> http_response) \<Rightarrow> int \<Rightarrow> netbuf \<Rightarrow> http_context
     \<Rightarrow> (http_out list \<times> netbuf \<times> http_context) res option" where
  "http_onMessage httpCallback t buf c =
     (case parseRequest t buf c of
        None \<Rightarrow> None
      | Some (Inl e) \<Rightarrow> Some (Inl e)
      | Some (Inr (ok, buf1, c1)) \<Rightarrow>
          let outs = (if ok then [] else [HoSend (''HTTP/1.1 400 Bad Request'' @ kCRLF @ kCRLF), HoShutdown])
          in Some (if hcState c1 = kGotAll
                   then bindR (http_onRequest httpCallback (hcRequest c1)) (\<lambda>outs2. Inr (outs @ outs2, buf1, hc_reset c1))
                   else Inr (outs, buf1, c1)))"

text \<open>A connection's input, segment by segment with the times of receipt.\<close>

fun http_deliver ::
  "(http_request \<Rightarrow> http_response \<Rightarrow> http_response) \<Rightarrow> (int \<times> char list) list \<Rightarrow> netbuf \<Rightarrow> http_context
     \<Rightarrow> (http_out list \<times> netbuf \<times> http_context) res option" where
  "http_deliver cb [] buf c = Some (Inr ([], buf, c))"
| "http_deliver cb ((t, seg) # segs) buf c =
     (case bufAppend buf seg of
        Inl e \<Rightarrow> Some (Inl e)
      | Inr buf1 \<Rightarrow>
          (case http_onMessage cb t buf1 c of
             None \<Rightarrow> None
           | Some (Inl e) \<Rightarrow> Some (Inl e)
           | Some (Inr (outs, buf2, c2)) \<Rightarrow>
               (case http_deliver cb segs buf2 c2 of
                  None \<Rightarrow> None
                | Some (Inl e) \<Rightarrow> Some (Inl e)
                | Some (Inr (outs', buf3, c3)) \<Rightarrow> Some (Inr (outs @ outs', buf3, c3)))))"

subsection \<open>Response text\<close>

definition response_text :: "http_response \<Rightarrow> string" where
  "response_text r =
     ''HTTP/1.1 '' @ dec_int (rsStatusCode r) @ '' '' @ rsStatusMessage r @ kCRLF
   @ (if rsClose r then ''Connection: close'' @ kCRLF
      else ''Content-Length: '' @ dec_nat (length (rsBody r)) @ kCRLF @ ''Connection: Keep-Alive'' @ kCRLF)
   @ concat (map (\<lambda>(k, v). k @ '': '' @ v @ kCRLF) (rsHeaders r)) @ kCRLF @ rsBody r"

lemma appends_ok:
  "buf_wf b \<Longrightarrow> \<exists>b'. foldR (\<lambda>d b. bufAppend b d) ds b = Inr b' \<and> buf_wf b' \<and> readable b' = readable b @ concat ds"
proof (induction ds arbitrary: b)
  case (Cons d ds)
  obtain b1 where b1: "bufAppend b d = Inr b1" "buf_wf b1" "readable b1 = readable b @ d"
    using nb.append_law[OF Cons.prems] by blast
  from Cons.IH[OF b1(2)] b1 show ?case by auto
qed simp

text \<open>A response is written whole: the status line, the connection headers with the exact
  length of the body, the user's headers in key order, a blank line and the body are appended to
  the output; neither number is cut off by its 32-byte buffer (for status codes of up to 18
  digits and bodies of fewer than 10^13 bytes).\<close>

theorem http_response_whole:
  assumes "buf_wf output" and "\<bar>rsStatusCode r\<bar> < 10 ^ 18" and "length (rsBody r) < 10 ^ 13"
  shows "\<exists>b. appendToBuffer r output = Inr b \<and> buf_wf b \<and> readable b = readable output @ response_text r"
proof -
  have "length (dec_nat (nat \<bar>rsStatusCode r\<bar>)) \<le> 18" by (rule length_to_base) (use assms(2) in auto)
  then have "length (dec_int (rsStatusCode r)) \<le> 19" by (auto simp: dec_int_def abs_if)
  then have status: "snprintf 32 (''HTTP/1.1 '' @ dec_int (rsStatusCode r) @ '' '') = ''HTTP/1.1 '' @ dec_int (rsStatusCode r) @ '' ''"
    by (simp add: snprintf_def)
  have "length (dec_nat (length (rsBody r))) \<le> 13" by (rule length_to_base) (use assms(3) in auto)
  then have len: "snprintf 32 (''Content-Length: '' @ dec_nat (length (rsBody r)) @ kCRLF)
      = ''Content-Length: '' @ dec_nat (length (rsBody r)) @ kCRLF"
    by (simp add: snprintf_def kCRLF_def)
  have hs: "concat (concat (map (\<lambda>(k, v). [k, '': '', v, kCRLF]) hs)) = concat (map (\<lambda>(k, v). k @ '': '' @ v @ kCRLF) hs)" for hs
    by (induction hs) auto
  have "concat (response_pieces r) = response_text r"
    unfolding response_pieces_def response_text_def status len by (simp add: hs)
  with appends_ok[OF assms(1), of "response_pieces r"] show ?thesis by (simp add: appendToBuffer_def)
qed

theorem http_response_whole_witness:
  "\<exists>b. appendToBuffer (defaultHttpCallback newHttpRequest (newHttpResponse False)) newBuffer = Inr b
     \<and> readable b = ''HTTP/1.1 404 Not Found'' @ kCRLF @ ''Connection: close'' @ kCRLF @ kCRLF"
proof -
  let ?r = "defaultHttpCallback newHttpRequest (newHttpResponse False)"
  have n: "dec_nat 404 = ''404''" by code_simp
  have "response_text ?r = ''HTTP/1.1 404 Not Found'' @ kCRLF @ ''Connection: close'' @ kCRLF @ kCRLF"
    by (simp add: response_text_def defaultHttpCallback_def newHttpResponse_def dec_int_def k404NotFound_def n)
  moreover have "\<exists>b. appendToBuffer ?r newBuffer = Inr b \<and> buf_wf b \<and> readable b = readable newBuffer @ response_text ?r"
    by (rule http_response_whole) (simp_all add: defaultHttpCallback_def newHttpResponse_def k404NotFound_def)
  ultimately show ?thesis by auto
qed

subsection \<open>Every input is answered\<close>

definition bad_request :: http_out where
  "bad_request = HoSend (''HTTP/1.1 400 Bad Request'' @ kCRLF @ kCRLF)"

text \<open>A context between messages, as long as no request was refused.\<close>

definition hc_ok :: "http_context \<Rightarrow> bool" where
  "hc_ok c \<longleftrightarrow> parsing c \<and> (hcState c = kExpectRequestLine \<longrightarrow> rqMethod (hcRequest c) = kInvalid)"

lemma newHttpContext_ok: "hc_ok newHttpContext"
  by (simp add: hc_ok_def parsing_def newHttpContext_def newHttpRequest_def)

lemma hc_reset_ok: "hc_ok (hc_reset c)"
  by (simp add: hc_ok_def parsing_def hc_reset_def rq_swap_def newHttpRequest_def)

lemma processRequestLine_holds:
  assumes "F = UNIV \<or> rqMethod (hcRequest c) = kInvalid"
  shows "holds F (processRequestLine line c) (\<lambda>p. hcState (snd p) = hcState c)"
proof -
  have "holds F (setMethod m (hcRequest c)) (\<lambda>_. True)" for m
    using assms by (auto simp: setMethod_def ensure_def)
  then show ?thesis
    unfolding processRequestLine_def Let_def by (auto intro!: holds_bindR)
qed

lemma processRequestLine_state:
  "processRequestLine line c = Inr (ok, c1) \<Longrightarrow> hcState c1 = hcState c"
  using holds_InrD[OF processRequestLine_holds[of UNIV c line]] by fastforce

lemma processRequestLine_returns:
  "rqMethod (hcRequest c) = kInvalid \<Longrightarrow> \<exists>ok c1. processRequestLine line c = Inr (ok, c1)"
  using processRequestLine_holds[of "{}" c line] by (cases "processRequestLine line c") auto

lemma parse_bytes_state:
  "parsing c \<Longrightarrow> holds UNIV (parse_bytes t xs c) (\<lambda>(ok, r, c'). (hcState c' = kGotAll \<or> parsing c')
     \<and> (hc_ok c \<longrightarrow> ok \<longrightarrow> hcState c' = kGotAll \<or> hc_ok c'))"
proof (induction t xs c rule: parse_bytes.induct)
  case (1 t xs c)
  show ?case
  proof (cases "find_crlf xs")
    case (Some n)
    have le: "\<not> length xs < n + 2" using find_crlf_Some(1)[OF Some] by simp
    note L = parse_bytes_line[OF Some, of t c]
    show ?thesis
    proof (cases "hcState c = kExpectRequestLine")
      case True
      show ?thesis
      proof (cases "processRequestLine (take n xs) c")
        case (Inr p)
        obtain ok c1 where p: "p = (ok, c1)" by (cases p)
        let ?c = "receiveRequestLine (c1\<lparr>hcRequest := (hcRequest c1)\<lparr>rqReceiveTime := t\<rparr>\<rparr>)"
        have "parsing ?c" "hc_ok ?c" by (simp_all add: hc_ok_def parsing_def receiveRequestLine_def)
        moreover have "hcState c1 = kExpectRequestLine"
          using processRequestLine_state Inr p True by metis
        ultimately show ?thesis
        proof (cases ok)
          case ok: True
          have eq: "parse_bytes t xs c = parse_bytes t (drop (n + 2) xs) ?c" using L True Inr p ok by simp
          show ?thesis unfolding eq
            by (rule holds_mono[OF "1.IH"(1)[OF Some le True Inr p[symmetric] ok \<open>parsing ?c\<close>]])
              (use \<open>hc_ok ?c\<close> in auto)
        next
          case False
          then have "parse_bytes t xs c = Inr (False, xs, c1)" using L True Inr p by simp
          then show ?thesis using \<open>hcState c1 = kExpectRequestLine\<close> by (simp add: parsing_def)
        qed
      qed (use True in \<open>simp add: L\<close>)
    next
      case False
      then have st: "hcState c = kExpectHeaders" using "1.prems" by (auto simp: parsing_def)
      show ?thesis
      proof (cases "CHR '':'' \<in> set (take n xs)")
        case True
        let ?c = "c\<lparr>hcRequest := rq_addHeader (take n xs) (std_find CHR '':'' (take n xs)) (hcRequest c)\<rparr>"
        have "parsing ?c" "hc_ok ?c" using st by (simp_all add: hc_ok_def parsing_def)
        have eq: "parse_bytes t xs c = parse_bytes t (drop (n + 2) xs) ?c" using L st True by simp
        show ?thesis unfolding eq
          by (rule holds_mono[OF "1.IH"(2)[OF Some le False st True \<open>parsing ?c\<close>]]) (use \<open>hc_ok ?c\<close> in auto)
      qed (use st in \<open>simp add: L receiveHeaders_def\<close>)
    qed
  qed (use "1.prems" in \<open>simp add: parse_bytes_idle\<close>)
qed

lemma parse_bytes_returns: "hc_ok c \<Longrightarrow> \<exists>r. parse_bytes t xs c = Inr r"
proof (induction t xs c rule: parse_bytes.induct)
  case (1 t xs c)
  show ?case
  proof (cases "find_crlf xs")
    case (Some n)
    have le: "\<not> length xs < n + 2" using find_crlf_Some(1)[OF Some] by simp
    note L = parse_bytes_line[OF Some, of t c]
    show ?thesis
    proof (cases "hcState c = kExpectRequestLine")
      case True
      with "1.prems" obtain ok c1 where p: "processRequestLine (take n xs) c = Inr (ok, c1)"
        using processRequestLine_returns[of c "take n xs"] by (auto simp: hc_ok_def)
      have "hc_ok (receiveRequestLine (c1\<lparr>hcRequest := (hcRequest c1)\<lparr>rqReceiveTime := t\<rparr>\<rparr>))"
        by (simp add: hc_ok_def parsing_def receiveRequestLine_def)
      with "1.IH"(1)[OF Some le True p refl] True p L show ?thesis by (cases ok) auto
    next
      case False
      have "hc_ok (c\<lparr>hcRequest := rq_addHeader (take n xs) (std_find CHR '':'' (take n xs)) (hcRequest c)\<rparr>)"
        using "1.prems" False by (auto simp: hc_ok_def parsing_def)
      with "1.IH"(2)[OF Some le False] False L show ?thesis by auto
    qed
  next
    case None
    then show ?thesis by (intro exI) (rule parse_bytes_idle)
  qed
qed

lemma http_onRequest_returns: "\<exists>outs. http_onRequest cb req = Inr outs"
  using appends_ok[OF newBuffer_wf, of "response_pieces (cb req (newHttpResponse (wants_close req)))"]
  by (auto simp: http_onRequest_def appendToBuffer_def)

lemma http_onMessage_ok:
  assumes wf: "buf_wf buf" and c: "parsing c"
  obtains (fault) e where "http_onMessage cb t buf c = Some (Inl e)" "\<not> hc_ok c"
  | (served) outs buf' c' where "http_onMessage cb t buf c = Some (Inr (outs, buf', c'))" "buf_wf buf'" "parsing c'"
      "hc_ok c \<Longrightarrow> hc_ok c' \<or> bad_request \<in> set outs"
proof (cases "parse_bytes t (readable buf) c")
  case (Inl e)
  then have "parseRequest t buf c = Some (Inl e)"
    using parseRequest_bytes[OF wf c, of t] by (simp add: parse_result_def)
  moreover have "\<not> hc_ok c" using Inl parse_bytes_returns[of c t "readable buf"] by auto
  ultimately show ?thesis using fault by (simp add: http_onMessage_def)
next
  case (Inr p)
  obtain ok r c1 where p: "p = (ok, r, c1)" by (cases p)
  obtain b where b: "parseRequest t buf c = Some (Inr (ok, b, c1))" "buf_wf b"
    using parseRequest_bytes[OF wf c, of t] Inr p by (auto simp: parse_result_def)
  have st: "hcState c1 = kGotAll \<or> parsing c1" "hc_ok c \<Longrightarrow> ok \<Longrightarrow> hcState c1 = kGotAll \<or> hc_ok c1"
    using holds_InrD[OF parse_bytes_state[OF c] Inr] p by auto
  obtain outs where outs: "http_onRequest cb (hcRequest c1) = Inr outs" using http_onRequest_returns by blast
  show ?thesis
  proof (cases "hcState c1 = kGotAll")
    case True
    show ?thesis
      by (rule served[of _ b "hc_reset c1"]) (use b outs True hc_reset_ok[of c1] in \<open>auto simp: http_onMessage_def Let_def hc_ok_def\<close>)
  next
    case False
    show ?thesis
    proof (rule served[of _ b c1])
      show "http_onMessage cb t buf c = Some (Inr (if ok then [] else [bad_request, HoShutdown], b, c1))"
        using b(1) False by (simp add: http_onMessage_def bad_request_def)
    qed (use b(2) st False in auto)
  qed
qed

lemma http_deliver_returns:
  "buf_wf buf \<Longrightarrow> parsing c \<Longrightarrow> http_deliver cb segs buf c \<noteq> None
    \<and> (\<forall>outs buf' c'. http_deliver cb segs buf c = Some (Inr (outs, buf', c')) \<longrightarrow> buf_wf buf' \<and> parsing c'
        \<and> (hc_ok c \<longrightarrow> bad_request \<notin> set outs \<longrightarrow> hc_ok c'))"
proof (induction segs arbitrary: buf c)
  case (Cons ts segs)
  obtain t seg where ts: "ts = (t, seg)" by (cases ts)
  obtain b1 where b1: "bufAppend buf seg = Inr b1" "buf_wf b1" using nb.append_law[OF Cons.prems(1)] by blast
  from b1(2) Cons.prems(2) show ?case
  proof (cases rule: http_onMessage_ok[where cb = cb and t = t])
    case (fault e)
    then show ?thesis using b1 ts by simp
  next
    case (served outs b2 c2)
    from Cons.IH[OF served(2,3)] obtain r where r: "http_deliver cb segs b2 c2 = Some r" by auto
    show ?thesis
    proof (cases r)
      case (Inr p)
      obtain outs' b3 c3 where p: "p = (outs', b3, c3)" by (cases p)
      from Cons.IH[OF served(2,3)] r Inr p have "buf_wf b3" "parsing c3" "hc_ok c2 \<longrightarrow> bad_request \<notin> set outs' \<longrightarrow> hc_ok c3"
        by auto
      then show ?thesis using b1 ts served r Inr p by auto
    qed (use b1 ts served r in simp)
  qed
qed simp

text \<open>Property C28. The parser always comes back: whatever bytes arrive on a connection and however
  they are cut, the loop of \<open>parseRequest\<close> ends on every message.\<close>

theorem http_parser_terminates: "http_deliver cb segs newBuffer newHttpContext \<noteq> None"
proof -
  have "parsing newHttpContext" using newHttpContext_ok by (simp add: hc_ok_def)
  then show ?thesis by (rule http_deliver_returns[OF newBuffer_wf, THEN conjunct1])
qed

text \<open>Property C27. As long as no request of the connection was refused with 400, no input makes the
  server's code fail: the next piece of input is parsed and answered without a failed assertion.\<close>

theorem http_survives_input:
  assumes "http_deliver cb segs newBuffer newHttpContext = Some (Inr (outs, buf, c))" and "bad_request \<notin> set outs"
  shows "\<exists>outs' buf' c'. http_deliver cb [(t, seg)] buf c = Some (Inr (outs', buf', c'))"
proof -
  have "parsing newHttpContext" using newHttpContext_ok by (simp add: hc_ok_def)
  from http_deliver_returns[OF newBuffer_wf this, THEN conjunct2, rule_format, OF assms(1)]
  have c: "buf_wf buf" "parsing c" "hc_ok c" using assms(2) newHttpContext_ok by simp_all
  obtain b1 where b1: "bufAppend buf seg = Inr b1" "buf_wf b1" using nb.append_law[OF c(1)] by blast
  from b1(2) c(2) show ?thesis
  proof (cases rule: http_onMessage_ok[where cb = cb and t = t])
    case (served outs' b2 c2)
    then show ?thesis using b1(1) by simp
  qed (use c(3) in simp)
qed

theorem http_survives_input_witness:
  "\<exists>outs' buf' c'. http_deliver defaultHttpCallback [(5, ''GET '')] newBuffer newHttpContext = Some (Inr (outs', buf', c'))"
proof -
  have "http_deliver defaultHttpCallback [] newBuffer newHttpContext = Some (Inr ([], newBuffer, newHttpContext))" by simp
  from http_survives_input[OF this, of 5 "''GET ''"] show ?thesis by simp
qed

subsection \<open>A request is served once\<close>

lemma http_onMessage_result:
  assumes "buf_wf buf" "parsing c" "parse_bytes t (readable buf) c = Inr (True, r, c1)"
  shows "\<exists>b. buf_wf b \<and> readable b = r \<and> http_onMessage cb t buf c =
    Some (if hcState c1 = kGotAll then bindR (http_onRequest cb (hcRequest c1)) (\<lambda>outs. Inr (outs, b, hc_reset c1))
          else Inr ([], b, c1))"
  using parseRequest_bytes[OF assms(1,2), of t] assms(3) by (auto simp: http_onMessage_def parse_result_def)

text \<open>The bytes of one request, cut into non-empty pieces: nothing happens before the last piece, and
  with it the request is answered.\<close>

lemma http_deliver_one:
  assumes "buf_wf buf" "parsing c" "find_crlf (readable buf) = None"
    and "parse_bytes 0 (readable buf @ concat (map snd segs)) (strip_time c) = Inr (True, [], strip_time d)"
    and "hcState d = kGotAll" and "segs \<noteq> []" and "\<And>ts. ts \<in> set segs \<Longrightarrow> snd ts \<noteq> []"
  shows "\<exists>req b c'. http_deliver cb segs buf c = Some (bindR (http_onRequest cb req) (\<lambda>outs. Inr (outs, b, c')))
    \<and> req\<lparr>rqReceiveTime := 0\<rparr> = (hcRequest d)\<lparr>rqReceiveTime := 0\<rparr> \<and> readable b = [] \<and> hc_ok c'"
  using assms
proof (induction segs arbitrary: buf c)
  case (Cons ts segs)
  obtain t seg where ts: "ts = (t, seg)" by (cases ts)
  obtain b1 where b1: "bufAppend buf seg = Inr b1" "buf_wf b1" "readable b1 = readable buf @ seg"
    using nb.append_law[OF Cons.prems(1)] by blast
  let ?rest = "concat (map snd segs)"
  have "parse_bytes 0 (readable b1 @ ?rest) (strip_time c) = Inr (True, [], strip_time d)"
    using Cons.prems(4) b1(3) ts by simp
  then obtain d1 where whole: "parse_bytes t (readable b1 @ ?rest) c = Inr (True, [], d1)" "strip_time d1 = strip_time d"
    using parse_bytes_strip[of "readable b1 @ ?rest" c t]
    by (cases "parse_bytes t (readable b1 @ ?rest) c") (auto split: prod.splits)
  have got: "hcState d1 = kGotAll" using whole(2) Cons.prems(5) by (simp add: strip_time_def) (metis http_context.select_convs(1) http_context.surjective http_context.update_convs(2))
  have req: "(hcRequest d1)\<lparr>rqReceiveTime := 0\<rparr> = (hcRequest d)\<lparr>rqReceiveTime := 0\<rparr>"
    using arg_cong[OF whole(2), of hcRequest] by (simp add: strip_time_def)
  note A = parse_bytes_append[OF Cons.prems(2), of t "readable b1" ?rest]
  obtain ok r c1 where one: "parse_bytes t (readable b1) c = Inr (ok, r, c1)"
    using A whole(1) by (cases "parse_bytes t (readable b1) c") (auto split: prod.splits)
  show ?case
  proof (cases "\<not> ok \<or> hcState c1 = kGotAll")
    case True
    then have same: "ok" "r = []" "?rest = []" "c1 = d1" using A one whole(1) by auto
    then have "segs = []" using Cons.prems(7) by (cases segs) auto
    moreover obtain b where b: "readable b = []" "http_onMessage cb t b1 c
        = Some (bindR (http_onRequest cb (hcRequest d1)) (\<lambda>outs. Inr (outs, b, hc_reset d1)))"
      using http_onMessage_result[OF b1(2) Cons.prems(2), of t r c1 cb] one same got by auto
    ultimately have "http_deliver cb (ts # segs) buf c
        = Some (bindR (http_onRequest cb (hcRequest d1)) (\<lambda>outs. Inr (outs, b, hc_reset d1)))"
      using b1(1) ts http_onRequest_returns[of cb "hcRequest d1"] by auto
    with b(1) req hc_reset_ok[of d1] show ?thesis by blast
  next
    case False
    then have cont: "parsing c1" "find_crlf r = None" "parse_bytes t (r @ ?rest) c1 = Inr (True, [], d1)"
      using A one whole(1) by auto
    obtain b2 where b2: "buf_wf b2" "readable b2 = r" "http_onMessage cb t b1 c = Some (Inr ([], b2, c1))"
      using http_onMessage_result[OF b1(2) Cons.prems(2), of t r c1 cb] one False by auto
    have "segs \<noteq> []"
    proof
      assume "segs = []"
      then have "hcState d1 = hcState c1" using cont(2,3) by (simp add: parse_bytes_idle)
      then show False using got False by simp
    qed
    moreover have "parse_bytes 0 (readable b2 @ ?rest) (strip_time c1) = Inr (True, [], strip_time d)"
      using cont(3) parse_bytes_strip[of "r @ ?rest" c1 t] b2(2) whole(2) by simp
    ultimately have "\<exists>req b c'. http_deliver cb segs b2 c1 = Some (bindR (http_onRequest cb req) (\<lambda>outs. Inr (outs, b, c')))
        \<and> req\<lparr>rqReceiveTime := 0\<rparr> = (hcRequest d)\<lparr>rqReceiveTime := 0\<rparr> \<and> readable b = [] \<and> hc_ok c'"
      using Cons.prems(5,7) cont(1,2) b2(1,2) by (intro Cons.IH) simp_all
    then obtain req b c' where ih: "http_deliver cb segs b2 c1 = Some (bindR (http_onRequest cb req) (\<lambda>outs. Inr (outs, b, c')))"
        "req\<lparr>rqReceiveTime := 0\<rparr> = (hcRequest d)\<lparr>rqReceiveTime := 0\<rparr>" "readable b = []" "hc_ok c'" by blast
    have "http_deliver cb (ts # segs) buf c = Some (bindR (http_onRequest cb req) (\<lambda>outs. Inr (outs, b, c')))"
      using b1(1) b2(3) ts ih(1) http_onRequest_returns[of cb req] by auto
    with ih(2-4) show ?thesis by blast
  qed
qed simp

text \<open>A request survives the network: any request a client can write (any method and
  version the server knows, a path, any headers), cut into any non-empty pieces, is parsed into
  exactly that method, path, version and header map (the last of equal fields wins), handed to
  the callback exactly once, when its last byte arrives, and answered with the callback's
  response; the buffer is left empty and the parser ready for the next request.\<close>

theorem http_request_served:
  assumes "request_ok m path v hs" and "concat (map snd segs) = request_text m path v hs"
    and "\<And>ts. ts \<in> set segs \<Longrightarrow> snd ts \<noteq> []"
  shows "\<exists>req outs b c. http_onRequest cb req = Inr outs
    \<and> http_deliver cb segs newBuffer newHttpContext = Some (Inr (outs, b, c)) \<and> readable b = [] \<and> hc_ok c
    \<and> rqMethod req = m \<and> rqPath req = path \<and> rqVersion req = v \<and> rqHeaders req = header_map hs []"
proof -
  let ?c = newHttpContext
  define d where "d = ?c\<lparr>hcState := kGotAll, hcRequest := (hcRequest ?c)\<lparr>rqMethod := m, rqPath := path, rqVersion := v,
        rqReceiveTime := 0, rqHeaders := header_map hs []\<rparr>\<rparr>"
  have st: "strip_time ?c = ?c" "strip_time d = d"
    by (simp_all add: strip_time_def newHttpContext_def newHttpRequest_def d_def)
  have "parse_bytes 0 (request_text m path v hs @ []) ?c = Inr (True, [], d)"
    unfolding d_def by (rule parse_bytes_request[OF assms(1)]) (simp_all add: newHttpContext_def newHttpRequest_def)
  then have "parse_bytes 0 (readable newBuffer @ concat (map snd segs)) (strip_time ?c) = Inr (True, [], strip_time d)"
    using assms(2) st by simp
  moreover have "segs \<noteq> []" using assms(2) by (cases m) (auto simp: request_text_def)
  moreover have "find_crlf (readable newBuffer) = None" by (simp add: find_crlf_def)
  moreover have "parsing ?c" "hcState d = kGotAll" using newHttpContext_ok by (simp_all add: hc_ok_def d_def)
  ultimately obtain req b c' where
    r: "http_deliver cb segs newBuffer ?c = Some (bindR (http_onRequest cb req) (\<lambda>outs. Inr (outs, b, c')))"
      "req\<lparr>rqReceiveTime := 0\<rparr> = (hcRequest d)\<lparr>rqReceiveTime := 0\<rparr>" "readable b = []" "hc_ok c'"
    using http_deliver_one[OF newBuffer_wf, of ?c segs d cb] assms(3) by blast
  obtain outs where outs: "http_onRequest cb req = Inr outs" using http_onRequest_returns by blast
  have fields: "rqMethod req = m" "rqPath req = path" "rqVersion req = v" "rqHeaders req = header_map hs []"
    using arg_cong[OF r(2), of rqMethod] arg_cong[OF r(2), of rqPath] arg_cong[OF r(2), of rqVersion]
      arg_cong[OF r(2), of rqHeaders] by (simp_all add: d_def)
  show ?thesis
    by (rule exI[of _ req], rule exI[of _ outs], rule exI[of _ b], rule exI[of _ c'])
      (use outs r fields in simp)
qed

theorem http_request_served_witness:
  "\<exists>req outs b c. http_deliver defaultHttpCallback
       (map (\<lambda>ch. (7, [ch])) (request_text kGet ''/x'' kHttp11 [(''Host'', ''a'')])) newBuffer newHttpContext = Some (Inr (outs, b, c))
    \<and> http_onRequest defaultHttpCallback req = Inr outs \<and> rqPath req = ''/x'' \<and> rqHeaders req = [(''Host'', ''a'')]"
proof -
  have ok: "request_ok kGet ''/x'' kHttp11 [(''Host'', ''a'')]"
    by (simp add: request_ok_def header_ok_def cr_def c_isspace_def)
  have one: "concat (map (snd \<circ> (\<lambda>ch. (7 :: int, [ch]))) xs) = xs" for xs :: string by (induction xs) auto
  let ?segs = "map (\<lambda>ch. (7 :: int, [ch])) (request_text kGet ''/x'' kHttp11 [(''Host'', ''a'')])"
  have segs: "concat (map snd ?segs) = request_text kGet ''/x'' kHttp11 [(''Host'', ''a'')]" by (simp add: one)
  have ne: "snd ts \<noteq> []" if "ts \<in> set ?segs" for ts using that by auto
  have hm: "header_map [(''Host'', ''a'')] [] = [(''Host'', ''a'')]" by (simp add: header_map_def)
  obtain req outs b c where "http_onRequest defaultHttpCallback req = Inr outs"
      "http_deliver defaultHttpCallback ?segs newBuffer newHttpContext = Some (Inr (outs, b, c))"
      "rqPath req = ''/x''" "rqHeaders req = [(''Host'', ''a'')]"
    using http_request_served[OF ok segs ne, of defaultHttpCallback] unfolding hm by blast
  then show ?thesis by blast
qed

subsection \<open>Where the parser falls short\<close>

text \<open>A refused request leaves its line in the buffer and its method in the context, so the next
  bytes from the peer meet the assertion of \<open>setMethod\<close>.\<close>

lemma input_after_400_asserts:
  assumes "hc_ok c" "hcState c = kExpectRequestLine" "buf_wf buf" "readable buf = ''GET /x'' @ kCRLF"
  shows "\<exists>buf' c'. http_onMessage cb t buf c = Some (Inr ([bad_request, HoShutdown], buf', c'))
    \<and> http_onMessage cb t buf' c' = Some (Inl (AssertFailed ''setMethod: method_ == kInvalid''))"
proof -
  have f: "find_crlf (''GET /x'' @ kCRLF) = Some 6" using find_crlf_line[of "''GET /x''" "[]"] by simp
  define c1 where "c1 = c\<lparr>hcRequest := (hcRequest c)\<lparr>rqMethod := kGet\<rparr>\<rparr>"
  have line: "take 6 (''GET /x'' @ kCRLF) = ''GET /x''" by simp
  have "processRequestLine ''GET /x'' c = Inr (False, c1)"
    using assms(1,2) by (simp add: processRequestLine_def setMethod_def hc_ok_def c1_def)
  then have p1: "parse_bytes t (readable buf) c = Inr (False, readable buf, c1)"
    using parse_bytes_line[OF f, of t c] assms(2,4) line by simp
  have "processRequestLine ''GET /x'' c1 = Inl (AssertFailed ''setMethod: method_ == kInvalid'')"
    by (simp add: processRequestLine_def setMethod_def c1_def)
  then have p2: "parse_bytes t (readable buf) c1 = Inl (AssertFailed ''setMethod: method_ == kInvalid'')"
    using parse_bytes_line[OF f, of t c1] assms(2,4) line by (simp add: c1_def)
  have pc: "parsing c" "parsing c1" using assms(1,2) by (auto simp: hc_ok_def parsing_def c1_def)
  obtain b where b: "parseRequest t buf c = Some (Inr (False, b, c1))" "buf_wf b" "readable b = readable buf"
    using parseRequest_bytes[OF assms(3) pc(1), of t] p1 by (auto simp: parse_result_def)
  have "parseRequest t b c1 = Some (Inl (AssertFailed ''setMethod: method_ == kInvalid''))"
    using parseRequest_bytes[OF b(2) pc(2), of t] p2 b(3) by (simp add: parse_result_def)
  then show ?thesis using b(1) assms(2) by (simp add: http_onMessage_def bad_request_def c1_def)
qed

text \<open>A header line without a colon is taken for the end of the headers.\<close>

lemma header_without_colon_ends:
  assumes "hcState c = kExpectHeaders"
  shows "parse_bytes t (''garbage'' @ kCRLF @ rest) c = Inr (True, rest, receiveHeaders c)"
  using parse_bytes_line[OF find_crlf_line[of "''garbage''" rest], of t c] assms by (simp add: kCRLF_def)

text \<open>\<open>reset\<close> keeps the version of the previous request, which \<open>swap\<close> forgets.\<close>

lemma reset_keeps_version: "rqVersion (hcRequest (hc_reset c)) = rqVersion (hcRequest c)"
  by (simp add: hc_reset_def rq_swap_def)

end
