(* ===== verification/LogStream.thy ===== *)
theory LogStream
  imports StdText
begin

text \<open>
  \<open>muduo::LogStream\<close> and \<open>FixedBuffer\<close> (\<open>muduo/base/LogStream.h\<close>, \<open>LogStream.cc\<close>): the text of one
  log line is built in an array of fixed size, numbers by Matthew Wilson's digit loops that write
  straight into the array. A pointer into the array is its offset, and a write outside it is a
  fault. What \<open>printf\<close> makes of a floating point number is an argument.

  The theorems show that the digit loops write exactly the decimal and hexadecimal text of their
  argument, for every value of up to 64 bits including the most negative one, and that a stream
  never writes outside its array: each item is written whole or not at all.
\<close>

subsection \<open>The buffer\<close>

record fixedbuf =
  fbData :: string
  fbCur :: nat

definition kSmallBuffer :: nat where "kSmallBuffer = 4000"

definition kLargeBuffer :: nat where "kLargeBuffer = 4000 * 1000"

definition newFixedBuffer :: "nat \<Rightarrow> string \<Rightarrow> fixedbuf" where
  "newFixedBuffer sz garbage = \<lparr>fbData = take sz (garbage @ replicate sz (CHR 0x00)), fbCur = 0\<rparr>"

definition fb_avail :: "fixedbuf \<Rightarrow> nat" where
  "fb_avail b = length (fbData b) - fbCur b"

definition fb_append :: "string \<Rightarrow> fixedbuf \<Rightarrow> fixedbuf res" where
  "fb_append buf b =
     (if fb_avail b > length buf
      then bindR (std_copy buf (fbCur b) (fbData b))
             (\<lambda>d. Inr (b\<lparr>fbData := d, fbCur := fbCur b + length buf\<rparr>))
      else Inr b)"

definition fb_length :: "fixedbuf \<Rightarrow> nat" where
  "fb_length b = fbCur b"

definition fb_add :: "nat \<Rightarrow> fixedbuf \<Rightarrow> fixedbuf" where
  "fb_add len b = b\<lparr>fbCur := fbCur b + len\<rparr>"

definition fb_reset :: "fixedbuf \<Rightarrow> fixedbuf" where
  "fb_reset b = b\<lparr>fbCur := 0\<rparr>"

definition fb_bzero :: "fixedbuf \<Rightarrow> fixedbuf" where
  "fb_bzero b = b\<lparr>fbData := replicate (length (fbData b)) (CHR 0x00)\<rparr>"

definition debugString :: "fixedbuf \<Rightarrow> fixedbuf res" where
  "debugString b = bindR (std_copy [CHR 0x00] (fbCur b) (fbData b)) (\<lambda>d. Inr (b\<lparr>fbData := d\<rparr>))"

definition asString :: "fixedbuf \<Rightarrow> string" where
  "asString b = take (fb_length b) (fbData b)"

subsection \<open>Numbers\<close>

definition digits :: string where "digits = ''9876543210123456789''"

definition zero_at :: "int \<Rightarrow> char" where
  "zero_at lsd = digits ! nat (9 + lsd)"

definition digitsHex :: string where "digitsHex = ''0123456789ABCDEF''"

text \<open>\<open>*p = c\<close> for a pointer into the array, and \<open>std::reverse\<close> on a range of it.\<close>

definition put_at :: "nat \<Rightarrow> char \<Rightarrow> string \<Rightarrow> string res" where
  "put_at p c a = std_copy [c] p a"

definition reverse_range :: "nat \<Rightarrow> nat \<Rightarrow> 'a list \<Rightarrow> 'a list" where
  "reverse_range from to a = take from a @ rev (take (to - from) (drop from a)) @ drop to a"

lemma c_div_ten_less: "c_div i 10 \<noteq> 0 \<Longrightarrow> nat \<bar>c_div i 10\<bar> < nat \<bar>i\<bar>"
  by (cases "i = 0") (auto simp: c_div_def abs_mult)

function convert_loop :: "int \<Rightarrow> nat \<Rightarrow> string \<Rightarrow> (nat \<times> string) res" where
  "convert_loop i p a =
     (let lsd = c_mod i 10; i' = c_div i 10
      in bindR (put_at p (zero_at lsd) a)
           (\<lambda>a'. if i' \<noteq> 0 then convert_loop i' (Suc p) a' else Inr (Suc p, a')))"
  by auto
termination by (relation "measure (\<lambda>(i, _). nat \<bar>i\<bar>)") (simp, simp only: in_measure prod.case, rule c_div_ten_less)

definition convert :: "nat \<Rightarrow> int \<Rightarrow> string \<Rightarrow> (nat \<times> string) res" where
  "convert buf v a =
     bindR (convert_loop v buf a) (\<lambda>(p, a).
     bindR (if v < 0 then bindR (put_at p (CHR ''-'') a) (\<lambda>a. Inr (Suc p, a)) else Inr (p, a)) (\<lambda>(p, a).
     bindR (put_at p (CHR 0x00) a) (\<lambda>a.
     Inr (p - buf, reverse_range buf p a))))"

function convertHex_loop :: "64 word \<Rightarrow> nat \<Rightarrow> string \<Rightarrow> (nat \<times> string) res" where
  "convertHex_loop i p a =
     (let lsd = unat (i mod 16); i' = i div 16
      in bindR (put_at p (digitsHex ! lsd) a)
           (\<lambda>a'. if i' \<noteq> 0 then convertHex_loop i' (Suc p) a' else Inr (Suc p, a')))"
  by auto
termination
proof (relation "measure (\<lambda>(i, _). unat i)", simp, clarsimp)
  fix i :: "64 word" assume "i div 16 \<noteq> 0"
  then have "unat (i div 16) \<noteq> 0" by (simp add: unat_eq_0)
  then show "unat (i div 16) < unat i" by (simp add: unat_div)
qed

definition convertHex :: "nat \<Rightarrow> 64 word \<Rightarrow> string \<Rightarrow> (nat \<times> string) res" where
  "convertHex buf v a =
     bindR (convertHex_loop v buf a) (\<lambda>(p, a).
     bindR (put_at p (CHR 0x00) a) (\<lambda>a.
     Inr (p - buf, reverse_range buf p a)))"

declare convert_loop.simps [simp del] convertHex_loop.simps [simp del]

subsection \<open>The stream\<close>

definition kMaxNumericSize :: nat where "kMaxNumericSize = 32"

definition formatInteger :: "int \<Rightarrow> fixedbuf \<Rightarrow> fixedbuf res" where
  "formatInteger v b =
     (if fb_avail b \<ge> kMaxNumericSize
      then bindR (convert (fbCur b) v (fbData b)) (\<lambda>(len, d). Inr (fb_add len (b\<lparr>fbData := d\<rparr>)))
      else Inr b)"

definition ls_bool :: "bool \<Rightarrow> fixedbuf \<Rightarrow> fixedbuf res" where
  "ls_bool v b = fb_append (if v then ''1'' else ''0'') b"

definition ls_int :: "32 word \<Rightarrow> fixedbuf \<Rightarrow> fixedbuf res" where
  "ls_int v b = formatInteger (sint v) b"

definition ls_uint :: "32 word \<Rightarrow> fixedbuf \<Rightarrow> fixedbuf res" where
  "ls_uint v b = formatInteger (uint v) b"

definition ls_short :: "16 word \<Rightarrow> fixedbuf \<Rightarrow> fixedbuf res" where
  "ls_short v b = ls_int (scast v) b"

definition ls_ushort :: "16 word \<Rightarrow> fixedbuf \<Rightarrow> fixedbuf res" where
  "ls_ushort v b = ls_uint (ucast v) b"

definition ls_long :: "64 word \<Rightarrow> fixedbuf \<Rightarrow> fixedbuf res" where
  "ls_long v b = formatInteger (sint v) b"

definition ls_ulong :: "64 word \<Rightarrow> fixedbuf \<Rightarrow> fixedbuf res" where
  "ls_ulong v b = formatInteger (uint v) b"

definition ls_longlong :: "64 word \<Rightarrow> fixedbuf \<Rightarrow> fixedbuf res" where
  "ls_longlong v b = formatInteger (sint v) b"

definition ls_ulonglong :: "64 word \<Rightarrow> fixedbuf \<Rightarrow> fixedbuf res" where
  "ls_ulonglong v b = formatInteger (uint v) b"

definition ls_pointer :: "64 word \<Rightarrow> fixedbuf \<Rightarrow> fixedbuf res" where
  "ls_pointer v b =
     (if fb_avail b \<ge> kMaxNumericSize
      then bindR (put_at (fbCur b) (CHR ''0'') (fbData b)) (\<lambda>d.
           bindR (put_at (Suc (fbCur b)) (CHR ''x'') d) (\<lambda>d.
           bindR (convertHex (fbCur b + 2) v d) (\<lambda>(len, d).
           Inr (fb_add (len + 2) (b\<lparr>fbData := d\<rparr>)))))
      else Inr b)"

text \<open>\<open>g\<close> is the text \<open>%.12g\<close> stands for; \<open>snprintf\<close> writes at most 31 characters of it and a
  terminator, and returns its whole length.\<close>

definition ls_double :: "string \<Rightarrow> fixedbuf \<Rightarrow> fixedbuf res" where
  "ls_double g b =
     (if fb_avail b \<ge> kMaxNumericSize
      then bindR (std_copy (snprintf kMaxNumericSize g @ [CHR 0x00]) (fbCur b) (fbData b))
             (\<lambda>d. Inr (fb_add (length g) (b\<lparr>fbData := d\<rparr>)))
      else Inr b)"

definition ls_float :: "string \<Rightarrow> fixedbuf \<Rightarrow> fixedbuf res" where
  "ls_float g b = ls_double g b"

definition ls_char :: "char \<Rightarrow> fixedbuf \<Rightarrow> fixedbuf res" where
  "ls_char v b = fb_append [v] b"

text \<open>\<open>strlen\<close>\<close>

definition ls_cstr :: "string \<Rightarrow> fixedbuf \<Rightarrow> fixedbuf res" where
  "ls_cstr v b = fb_append (takeWhile (\<lambda>c. c \<noteq> CHR 0x00) v) b"

definition ls_string :: "string \<Rightarrow> fixedbuf \<Rightarrow> fixedbuf res" where
  "ls_string v b = fb_append v b"

text \<open>\<open>t\<close> is the text the format and value of a \<open>Fmt\<close> stand for.\<close>

definition newFmt :: "string \<Rightarrow> string res" where
  "newFmt t = ensure (length t < 32) ''Fmt: length_ < sizeof buf_'' (Inr (snprintf 32 t))"

definition ls_fmt :: "string \<Rightarrow> fixedbuf \<Rightarrow> fixedbuf res" where
  "ls_fmt t b = bindR (newFmt t) (\<lambda>f. fb_append f b)"

subsection \<open>Writing into the array\<close>

definition poke :: "nat \<Rightarrow> 'a list \<Rightarrow> 'a list \<Rightarrow> 'a list" where
  "poke p s a = take p a @ s @ drop (p + length s) a"

lemma length_poke [simp]: "p + length s \<le> length a \<Longrightarrow> length (poke p s a) = length a"
  by (simp add: poke_def)

lemma put_at_poke [simp]: "p < length a \<Longrightarrow> put_at p c a = Inr (poke p [c] a)"
  by (simp add: put_at_def poke_def)

lemma std_copy_poke: "p + length s \<le> length a \<Longrightarrow> std_copy s p a = Inr (poke p s a)"
  by (simp add: poke_def)

lemma poke_poke: "q = p + length s \<Longrightarrow> q + length t \<le> length a \<Longrightarrow> poke q t (poke p s a) = poke p (s @ t) a"
  by (simp add: poke_def ac_simps)

lemma take_poke [simp]: "p + length s \<le> length a \<Longrightarrow> take (p + length s) (poke p s a) = take p a @ s"
  by (simp add: poke_def)

lemma reverse_poke:
  "q = p + length s \<Longrightarrow> q + length t \<le> length a \<Longrightarrow> reverse_range p q (poke p (s @ t) a) = poke p (rev s @ t) a"
  by (simp add: poke_def reverse_range_def add.assoc)

subsection \<open>The digit loops\<close>

lemma digits_nth: "k < 19 \<Longrightarrow> digits ! k = digit_char (if 9 \<le> k then k - 9 else 9 - k)"
proof -
  have "\<forall>k \<in> set [0..<19]. digits ! k = digit_char (if 9 \<le> k then k - 9 else 9 - k)"
    by code_simp
  then show "k < 19 \<Longrightarrow> ?thesis" by simp
qed

lemma digitsHex_nth: "k < 16 \<Longrightarrow> digitsHex ! k = digit_char k"
proof -
  have "\<forall>k \<in> set [0..<16]. digitsHex ! k = digit_char k" by code_simp
  then show "k < 16 \<Longrightarrow> ?thesis" by simp
qed

lemma zero_at_digit: "zero_at (c_mod i 10) = digit_char (nat \<bar>i\<bar> mod 10)"
proof -
  define r where "r = nat \<bar>i\<bar> mod 10"
  have r: "r < 10" by (simp add: r_def)
  have "\<bar>i\<bar> mod 10 = int r" by (simp add: r_def zmod_int)
  then have m: "c_mod i 10 = sgn i * int r" by (simp add: c_mod_def)
  have "zero_at (c_mod i 10) = digits ! (if i < 0 then 9 - r else 9 + r)"
    unfolding zero_at_def m using r by (auto simp: sgn_if r_def intro!: arg_cong[of _ _ "(!) digits"])
  also have "\<dots> = digit_char r" using r by (cases "r = 0") (auto simp: digits_nth)
  finally show ?thesis by (simp add: r_def)
qed

lemma c_div_ten_abs: "nat \<bar>c_div i 10\<bar> = nat \<bar>i\<bar> div 10"
  by (cases "i = 0") (simp_all add: c_div_def abs_mult nat_div_distrib)

lemma dec_nat_step: "dec_nat n = (if n div 10 \<noteq> 0 then dec_nat (n div 10) else []) @ [digit_char (n mod 10)]"
  by (subst to_base.simps) (auto simp: div_eq_0_iff)

lemma convert_loop_writes:
  "p + length (dec_nat (nat \<bar>i\<bar>)) \<le> length a
   \<Longrightarrow> convert_loop i p a = Inr (p + length (dec_nat (nat \<bar>i\<bar>)), poke p (rev (dec_nat (nat \<bar>i\<bar>))) a)"
proof (induction i p a rule: convert_loop.induct)
  case (1 i p a)
  define n where "n = nat \<bar>i\<bar>"
  have D: "dec_nat n = (if n div 10 \<noteq> 0 then dec_nat (n div 10) else []) @ [digit_char (n mod 10)]"
    by (rule dec_nat_step)
  have z: "c_div i 10 \<noteq> 0 \<longleftrightarrow> n div 10 \<noteq> 0" using c_div_ten_abs[of i] unfolding n_def by linarith
  have p: "p < length a" using "1.prems" D by (simp add: n_def[symmetric] split: if_splits)
  have put: "put_at p (zero_at (c_mod i 10)) a = Inr (poke p [digit_char (n mod 10)] a)"
    using p by (simp add: zero_at_digit n_def)
  show ?case
  proof (cases "n div 10 = 0")
    case True
    then show ?thesis using z put D by (simp add: convert_loop.simps[of i p a] n_def[symmetric])
  next
    case False
    let ?D = "dec_nat (n div 10)" and ?a = "poke p [digit_char (n mod 10)] a"
    have d: "nat \<bar>c_div i 10\<bar> = n div 10" using c_div_ten_abs[of i] n_def by simp
    have len: "Suc p + length ?D \<le> length a" using "1.prems" D False by (simp add: n_def[symmetric])
    have nz: "c_div i 10 \<noteq> 0" using z False by blast
    have "convert_loop (c_div i 10) (Suc p) ?a = Inr (Suc p + length ?D, poke (Suc p) (rev ?D) ?a)"
      using "1.IH"[OF refl refl put nz] len p unfolding d by simp
    then show ?thesis
      using put nz D False len by (simp add: convert_loop.simps[of i p a] n_def[symmetric] poke_poke)
  qed
qed

lemma convert_writes:
  assumes "p + length (dec_int v) < length a"
  shows "convert p v a = Inr (length (dec_int v), poke p (dec_int v @ [CHR 0x00]) a)"
proof -
  let ?D = "dec_nat (nat \<bar>v\<bar>)" and ?z = "CHR 0x00" and ?m = "CHR ''-''"
  have loop: "convert_loop v p a = Inr (p + length ?D, poke p (rev ?D) a)"
    using assms by (intro convert_loop_writes) (auto simp: dec_int_def split: if_splits)
  show ?thesis
  proof (cases "v < 0")
    case True
    then have d: "dec_int v = ?m # ?D" by (simp add: dec_int_def)
    have "poke (Suc (p + length ?D)) [?z] (poke (p + length ?D) [?m] (poke p (rev ?D) a))
      = poke p ((rev ?D @ [?m]) @ [?z]) a" using assms d by (simp add: poke_poke)
    moreover have "reverse_range p (Suc (p + length ?D)) (poke p ((rev ?D @ [?m]) @ [?z]) a) = poke p (rev (rev ?D @ [?m]) @ [?z]) a"
      by (rule reverse_poke) (use assms d in auto)
    ultimately show ?thesis using assms d True by (simp add: convert_def loop)
  next
    case False
    then have d: "dec_int v = ?D" by (simp add: dec_int_def)
    have "poke (p + length ?D) [?z] (poke p (rev ?D) a) = poke p (rev ?D @ [?z]) a" using assms d by (simp add: poke_poke)
    moreover have "reverse_range p (p + length ?D) (poke p (rev ?D @ [?z]) a) = poke p (rev (rev ?D) @ [?z]) a"
      by (rule reverse_poke) (use assms d in auto)
    ultimately show ?thesis using assms d False by (simp add: convert_def loop)
  qed
qed

lemma hex_step: "to_base 16 n = (if n div 16 \<noteq> 0 then to_base 16 (n div 16) else []) @ [digit_char (n mod 16)]"
  by (subst to_base.simps) (auto simp: div_eq_0_iff)

lemma convertHex_loop_writes:
  "p + length (to_base 16 (unat i)) \<le> length a
   \<Longrightarrow> convertHex_loop i p a = Inr (p + length (to_base 16 (unat i)), poke p (rev (to_base 16 (unat i))) a)"
proof (induction i p a rule: convertHex_loop.induct)
  case (1 i p a)
  define n where "n = unat i"
  have D: "to_base 16 n = (if n div 16 \<noteq> 0 then to_base 16 (n div 16) else []) @ [digit_char (n mod 16)]"
    by (rule hex_step)
  have d: "unat (i div 16) = n div 16" and m: "unat (i mod 16) = n mod 16" by (simp_all add: n_def unat_div unat_mod)
  have z: "i div 16 \<noteq> 0 \<longleftrightarrow> n div 16 \<noteq> 0" using d by (metis unat_eq_0)
  have p: "p < length a" using "1.prems" D by (simp add: n_def[symmetric] split: if_splits)
  have put: "put_at p (digitsHex ! unat (i mod 16)) a = Inr (poke p [digit_char (n mod 16)] a)"
    using p by (simp add: m digitsHex_nth)
  show ?case
  proof (cases "n div 16 = 0")
    case True
    then show ?thesis using z put D by (simp add: convertHex_loop.simps[of i p a] n_def[symmetric])
  next
    case False
    let ?D = "to_base 16 (n div 16)" and ?a = "poke p [digit_char (n mod 16)] a"
    have len: "Suc p + length ?D \<le> length a" using "1.prems" D False by (simp add: n_def[symmetric])
    have nz: "i div 16 \<noteq> 0" using z False by blast
    have "convertHex_loop (i div 16) (Suc p) ?a = Inr (Suc p + length ?D, poke (Suc p) (rev ?D) ?a)"
      using "1.IH"[OF refl refl put nz] len p unfolding d by simp
    then show ?thesis
      using put nz D False len by (simp add: convertHex_loop.simps[of i p a] n_def[symmetric] poke_poke)
  qed
qed

lemma convertHex_writes:
  assumes "p + length (to_base 16 (unat v)) < length a"
  shows "convertHex p v a = Inr (length (to_base 16 (unat v)), poke p (to_base 16 (unat v) @ [CHR 0x00]) a)"
proof -
  let ?D = "to_base 16 (unat v)" and ?z = "CHR 0x00"
  have loop: "convertHex_loop v p a = Inr (p + length ?D, poke p (rev ?D) a)"
    using assms by (intro convertHex_loop_writes) simp
  have "poke (p + length ?D) [?z] (poke p (rev ?D) a) = poke p (rev ?D @ [?z]) a" using assms by (simp add: poke_poke)
  moreover have "reverse_range p (p + length ?D) (poke p (rev ?D @ [?z]) a) = poke p (rev (rev ?D) @ [?z]) a"
    by (rule reverse_poke) (use assms in auto)
  ultimately show ?thesis using assms by (simp add: convertHex_def loop)
qed

lemma length_dec_int: "- (2 ^ 63) \<le> v \<Longrightarrow> v < 2 ^ 64 \<Longrightarrow> length (dec_int v) \<le> 20"
proof -
  assume lo: "- (2 ^ 63) \<le> v" and hi: "v < 2 ^ 64"
  show ?thesis
  proof (cases "v < 0")
    case True
    have "nat (- v) < 10 ^ 19" using lo by (simp add: nat_less_iff)
    from length_to_base[OF _ this] True show ?thesis by (simp add: dec_int_def)
  next
    case False
    have "nat v < 10 ^ 20" using hi False by (simp add: nat_less_iff)
    from length_to_base[OF _ this] False show ?thesis by (simp add: dec_int_def)
  qed
qed

lemma length_hex: "length (to_base 16 (unat (v :: 64 word))) \<le> 16"
proof (rule length_to_base)
  have "unat v < 2 ^ LENGTH(64)" by (rule unsigned_less)
  then show "unat v < 16 ^ 16" by simp
qed simp_all

lemma word_ranges:
  "- (2 ^ 63) \<le> sint (x :: 64 word)" "sint x < 2 ^ 64" "- (2 ^ 63) \<le> uint x" "uint x < 2 ^ 64"
  "- (2 ^ 63) \<le> sint (y :: 32 word)" "sint y < 2 ^ 64" "- (2 ^ 63) \<le> uint y" "uint y < 2 ^ 64"
  "- (2 ^ 63) \<le> sint (z :: 16 word)" "sint z < 2 ^ 64" "- (2 ^ 63) \<le> uint z" "uint z < 2 ^ 64"
  using sint_range_size[of x] sint_range_size[of y] sint_range_size[of z]
    uint_lt2p[of x] uint_lt2p[of y] uint_lt2p[of z] order_trans[OF _ uint_ge_0[of x], of "- (2 ^ 63)"]
    order_trans[OF _ uint_ge_0[of y], of "- (2 ^ 63)"] order_trans[OF _ uint_ge_0[of z], of "- (2 ^ 63)"]
  by (auto simp: word_size)

subsection \<open>Whole items\<close>

text \<open>The reference: the text an item stands for, and the condition on which a stream takes it.\<close>

datatype log_item =
    LBool bool | LShort "16 word" | LUShort "16 word" | LInt "32 word" | LUInt "32 word"
  | LLong "64 word" | LULong "64 word" | LLongLong "64 word" | LULongLong "64 word" | LPointer "64 word"
  | LFloat string | LDouble string | LChar char | LCStr string | LString string | LFmt string

fun ls_put :: "log_item \<Rightarrow> fixedbuf \<Rightarrow> fixedbuf res" where
  "ls_put (LBool v) = ls_bool v"
| "ls_put (LShort v) = ls_short v"
| "ls_put (LUShort v) = ls_ushort v"
| "ls_put (LInt v) = ls_int v"
| "ls_put (LUInt v) = ls_uint v"
| "ls_put (LLong v) = ls_long v"
| "ls_put (LULong v) = ls_ulong v"
| "ls_put (LLongLong v) = ls_longlong v"
| "ls_put (LULongLong v) = ls_ulonglong v"
| "ls_put (LPointer v) = ls_pointer v"
| "ls_put (LFloat g) = ls_float g"
| "ls_put (LDouble g) = ls_double g"
| "ls_put (LChar c) = ls_char c"
| "ls_put (LCStr v) = ls_cstr v"
| "ls_put (LString v) = ls_string v"
| "ls_put (LFmt t) = ls_fmt t"

fun item_text :: "log_item \<Rightarrow> string" where
  "item_text (LBool v) = (if v then ''1'' else ''0'')"
| "item_text (LShort v) = dec_int (sint v)"
| "item_text (LUShort v) = dec_int (uint v)"
| "item_text (LInt v) = dec_int (sint v)"
| "item_text (LUInt v) = dec_int (uint v)"
| "item_text (LLong v) = dec_int (sint v)"
| "item_text (LULong v) = dec_int (uint v)"
| "item_text (LLongLong v) = dec_int (sint v)"
| "item_text (LULongLong v) = dec_int (uint v)"
| "item_text (LPointer v) = ''0x'' @ to_base 16 (unat v)"
| "item_text (LFloat g) = g"
| "item_text (LDouble g) = g"
| "item_text (LChar c) = [c]"
| "item_text (LCStr v) = takeWhile (\<lambda>c. c \<noteq> CHR 0x00) v"
| "item_text (LString v) = v"
| "item_text (LFmt t) = t"

fun numeric :: "log_item \<Rightarrow> bool" where
  "numeric (LBool _) = False"
| "numeric (LChar _) = False"
| "numeric (LCStr _) = False"
| "numeric (LString _) = False"
| "numeric (LFmt _) = False"
| "numeric _ = True"

text \<open>What \<open>printf\<close> makes of a floating point number or of the value of a \<open>Fmt\<close> has fewer than 32
  characters.\<close>

fun item_ok :: "log_item \<Rightarrow> bool" where
  "item_ok (LFloat g) = (length g < 32)"
| "item_ok (LDouble g) = (length g < 32)"
| "item_ok (LFmt t) = (length t < 32)"
| "item_ok _ = True"

definition put_whole :: "nat \<Rightarrow> string \<Rightarrow> log_item \<Rightarrow> string" where
  "put_whole cap line it =
     (if (if numeric it then length line + 32 \<le> cap else length line + length (item_text it) < cap)
      then line @ item_text it else line)"

definition fb_wf :: "nat \<Rightarrow> fixedbuf \<Rightarrow> bool" where
  "fb_wf cap b \<longleftrightarrow> length (fbData b) = cap \<and> fbCur b < cap"

text \<open>One item on a stream: the array keeps its size, the written part becomes \<open>line'\<close>.\<close>

definition wrote :: "nat \<Rightarrow> string \<Rightarrow> fixedbuf \<Rightarrow> bool" where
  "wrote cap line b \<longleftrightarrow> fb_wf cap b \<and> asString b = line"

lemma wrote_poke:
  assumes "wrote cap line b" and "length line + length s < cap" and "length line + length s + length t \<le> cap"
  shows "wrote cap (line @ s) (b\<lparr>fbData := poke (fbCur b) (s @ t) (fbData b), fbCur := fbCur b + length s\<rparr>)"
proof -
  have n: "length line = fbCur b" using assms(1) by (auto simp: wrote_def fb_wf_def asString_def fb_length_def)
  show ?thesis using assms n by (auto simp: wrote_def fb_wf_def asString_def fb_length_def poke_def)
qed

lemma wrote_cur: "wrote cap line b \<Longrightarrow> fbCur b = length line \<and> length (fbData b) = cap \<and> length line < cap"
  by (auto simp: wrote_def fb_wf_def asString_def fb_length_def)

lemma wrote_avail:
  assumes "wrote cap line b"
  shows "n \<le> fb_avail b \<longleftrightarrow> length line + n \<le> cap" and "n < fb_avail b \<longleftrightarrow> length line + n < cap"
  using wrote_cur[OF assms] by (auto simp: fb_avail_def)

lemma fb_append_wrote:
  assumes "wrote cap line b"
  shows "holds {} (fb_append s b) (wrote cap (if length line + length s < cap then line @ s else line))"
proof -
  note c = wrote_cur[OF assms] and av = wrote_avail[OF assms]
  show ?thesis
  proof (cases "length line + length s < cap")
    case True
    then have "fb_append s b = Inr (b\<lparr>fbData := poke (fbCur b) (s @ []) (fbData b), fbCur := fbCur b + length s\<rparr>)"
      using c by (simp add: fb_append_def av poke_def)
    then show ?thesis using True wrote_poke[OF assms, of s "[]"] by simp
  next
    case False
    then show ?thesis using c assms by (simp add: fb_append_def av)
  qed
qed

lemma formatInteger_wrote:
  assumes "wrote cap line b" and "- (2 ^ 63) \<le> v" and "v < 2 ^ 64"
  shows "holds {} (formatInteger v b) (wrote cap (if length line + 32 \<le> cap then line @ dec_int v else line))"
proof -
  note c = wrote_cur[OF assms(1)] and av = wrote_avail[OF assms(1)] and l = length_dec_int[OF assms(2,3)]
  show ?thesis
  proof (cases "length line + 32 \<le> cap")
    case True
    have "convert (fbCur b) v (fbData b) = Inr (length (dec_int v), poke (fbCur b) (dec_int v @ [CHR 0x00]) (fbData b))"
      by (rule convert_writes) (use c l True in simp)
    with True c wrote_poke[OF assms(1), of "dec_int v" "[CHR 0x00]"] l show ?thesis
      by (simp add: formatInteger_def av kMaxNumericSize_def fb_add_def)
  next
    case False
    then show ?thesis using c assms(1) by (simp add: formatInteger_def av kMaxNumericSize_def)
  qed
qed

lemma ls_pointer_wrote:
  assumes "wrote cap line b"
  shows "holds {} (ls_pointer v b) (wrote cap (if length line + 32 \<le> cap then line @ ''0x'' @ to_base 16 (unat v) else line))"
proof -
  note c = wrote_cur[OF assms] and av = wrote_avail[OF assms] and l = length_hex[of v]
  show ?thesis
  proof (cases "length line + 32 \<le> cap")
    case True
    let ?h = "to_base 16 (unat v)" and ?d = "poke (fbCur b) ''0x'' (fbData b)"
    have x: "poke (Suc (fbCur b)) ''x'' (poke (fbCur b) ''0'' (fbData b)) = ?d"
      using True c by (simp add: poke_poke)
    have "convertHex (fbCur b + 2) v ?d = Inr (length ?h, poke (fbCur b + 2) (?h @ [CHR 0x00]) ?d)"
      by (rule convertHex_writes) (use c l True in simp)
    also have "poke (fbCur b + 2) (?h @ [CHR 0x00]) ?d = poke (fbCur b) ((''0x'' @ ?h) @ [CHR 0x00]) (fbData b)"
      using c l True by (simp add: poke_poke)
    finally show ?thesis using True c wrote_poke[OF assms, of "''0x'' @ ?h" "[CHR 0x00]"] l x
      by (simp add: ls_pointer_def av kMaxNumericSize_def fb_add_def)
  next
    case False
    then show ?thesis using c assms(1) by (simp add: ls_pointer_def av kMaxNumericSize_def)
  qed
qed

lemma ls_double_wrote:
  assumes "wrote cap line b" and "length g < 32"
  shows "holds {} (ls_double g b) (wrote cap (if length line + 32 \<le> cap then line @ g else line))"
proof -
  note c = wrote_cur[OF assms(1)] and av = wrote_avail[OF assms(1)]
  have t: "snprintf kMaxNumericSize g = g" using assms(2) by (simp add: snprintf_def kMaxNumericSize_def)
  show ?thesis
  proof (cases "length line + 32 \<le> cap")
    case True
    with c wrote_poke[OF assms(1), of g "[CHR 0x00]"] assms(2) show ?thesis
      by (simp add: ls_double_def av fb_add_def t std_copy_poke del: std_copy_ok) (simp add: kMaxNumericSize_def)
  next
    case False
    then show ?thesis using c assms(1) by (simp add: ls_double_def av kMaxNumericSize_def)
  qed
qed

lemma ls_fmt_wrote:
  assumes "wrote cap line b" and "length t < 32"
  shows "holds {} (ls_fmt t b) (wrote cap (if length line + length t < cap then line @ t else line))"
  using fb_append_wrote[OF assms(1), of t] assms(2) by (simp add: ls_fmt_def newFmt_def snprintf_def)

lemma short_widened: "sint (scast (v :: 16 word) :: 32 word) = sint v" "uint (ucast v :: 32 word) = uint v"
  by (simp_all add: sint_up_scast is_up uint_up_ucast)

lemma ls_put_wrote:
  assumes "wrote cap line b" and "item_ok it"
  shows "holds {} (ls_put it b) (wrote cap (put_whole cap line it))"
  using assms fb_append_wrote formatInteger_wrote[OF _ word_ranges(1,2)] formatInteger_wrote[OF _ word_ranges(3,4)]
    formatInteger_wrote[OF _ word_ranges(5,6)] formatInteger_wrote[OF _ word_ranges(7,8)]
    formatInteger_wrote[OF _ word_ranges(9,10)] formatInteger_wrote[OF _ word_ranges(11,12)]
    ls_pointer_wrote ls_double_wrote ls_fmt_wrote
  by (cases it) (auto simp only: ls_put.simps ls_bool_def ls_int_def ls_uint_def ls_short_def ls_ushort_def ls_long_def
      ls_ulong_def ls_longlong_def ls_ulonglong_def ls_float_def ls_char_def ls_cstr_def ls_string_def
      put_whole_def numeric.simps item_text.simps item_ok.simps short_widened if_True if_False)

lemma ls_puts_wrote:
  assumes "wrote cap line b" and "\<forall>it \<in> set items. item_ok it"
  shows "holds {} (foldR ls_put items b) (wrote cap (foldl (put_whole cap) line items))"
  using assms(2,1)
proof (induction items arbitrary: line b)
  case (Cons it items)
  show ?case using Cons.prems ls_put_wrote[of cap line b it]
    by (auto intro!: holds_bindR Cons.IH)
qed simp

subsection \<open>Properties\<close>

lemma newFixedBuffer_wrote: "0 < cap \<Longrightarrow> wrote cap [] (newFixedBuffer cap garbage)"
  by (simp add: wrote_def fb_wf_def asString_def fb_length_def newFixedBuffer_def min_def)

text \<open>Property C29. The digit loop of \<open>convert\<close> with its table of 19 digits and its reversal writes
  the same text as the reference, the decimal digits of the number with a minus sign in front of a
  negative one, for every value of every integer type up to 64 bits, the most negative included; and
  \<open>convertHex\<close> that of a pointer in base 16. Each returns the length of the text, terminates it, and
  leaves every other byte of the array alone.\<close>

theorem convert_exact:
  assumes "- (2 ^ 63) \<le> v" and "v < 2 ^ 64" and "p + 32 \<le> length a"
  shows "convert p v a = Inr (length (dec_int v),
           take p a @ dec_int v @ CHR 0x00 # drop (p + length (dec_int v) + 1) a)
    \<and> convertHex p w a = Inr (length (to_base 16 (unat w)),
           take p a @ to_base 16 (unat w) @ CHR 0x00 # drop (p + length (to_base 16 (unat w)) + 1) a)"
  using convert_writes[of p v a] convertHex_writes[of p w a] length_dec_int[OF assms(1,2)] length_hex[of w] assms(3)
  by (simp add: poke_def)

theorem convert_exact_witness:
  "convert 0 (- (2 ^ 63)) (replicate 32 CHR ''.'')
     = Inr (20, ''-9223372036854775808'' @ CHR 0x00 # replicate 11 CHR ''.'')"
proof -
  have d: "dec_int (- 9223372036854775808) = ''-9223372036854775808''"
    by (simp add: dec_int_def to_base.simps digit_lits)
  show ?thesis using convert_exact[of "- (2 ^ 63)" 0 "replicate 32 CHR ''.''"] by (simp add: d)
qed

text \<open>Property C30. A log stream of any size takes any sequence of items without a write outside its
  array and without a failed assertion, and its text is that of the reference that takes each item
  whole or not at all: a number when 32 bytes are left, anything else when it fits with a byte to
  spare for the terminator of \<open>debugString\<close>, which is therefore always safe to call.\<close>

theorem log_stream_whole_items:
  assumes "0 < cap" and "\<forall>it \<in> set items. item_ok it"
  shows "\<exists>b b'. foldR ls_put items (newFixedBuffer cap garbage) = Inr b
     \<and> asString b = foldl (put_whole cap) [] items \<and> fb_length b < cap
     \<and> debugString b = Inr b' \<and> asString b' = asString b"
proof -
  from ls_puts_wrote[OF newFixedBuffer_wrote[OF assms(1), of garbage] assms(2)] obtain b
    where b: "foldR ls_put items (newFixedBuffer cap garbage) = Inr b" and w: "wrote cap (foldl (put_whole cap) [] items) b"
    by (cases "foldR ls_put items (newFixedBuffer cap garbage)") auto
  have wf: "fbCur b < length (fbData b)" "length (fbData b) = cap" using w by (auto simp: wrote_def fb_wf_def)
  have d: "debugString b = Inr (b\<lparr>fbData := poke (fbCur b) [CHR 0x00] (fbData b)\<rparr>)"
    using wf by (simp add: debugString_def poke_def)
  have "asString (b\<lparr>fbData := poke (fbCur b) [CHR 0x00] (fbData b)\<rparr>) = asString b"
    using wf by (simp add: asString_def fb_length_def poke_def)
  with b w d wf show ?thesis by (auto simp: wrote_def fb_length_def)
qed

theorem log_stream_whole_items_witness:
  "\<exists>b b'. foldR ls_put [LCStr ''port '', LUShort 8080, LChar (CHR '' ''), LInt (- 1), LCStr '' up'', LULong 7] (newFixedBuffer 45 []) = Inr b
     \<and> asString b = ''port 8080 -1 up'' \<and> fb_length b < 45 \<and> debugString b = Inr b' \<and> asString b' = asString b"
proof -
  have "foldl (put_whole 45) [] [LCStr ''port '', LUShort 8080, LChar (CHR '' ''), LInt (- 1), LCStr '' up'', LULong 7] = ''port 8080 -1 up''"
    by (simp add: put_whole_def dec_int_def to_base.simps digit_lits)
  then show ?thesis
    using log_stream_whole_items[of 45 "[LCStr ''port '', LUShort 8080, LChar (CHR '' ''), LInt (- 1), LCStr '' up'', LULong 7]" "[]"]
    by simp
qed

end
