(* ===== verification/LogFile.thy ===== *)
theory LogFile
  imports StdText
begin

text \<open>
  \<open>muduo::LogFile\<close> (\<open>muduo/base/LogFile.h\<close>, \<open>LogFile.cc\<close>): log data is appended to a file, and a new
  file is begun when the current one has grown past \<open>rollSize\<close> or the day has changed. The clock is
  an argument of the operations that read it; \<open>stamp\<close> is the text \<open>strftime\<close> makes of a time. How much
  each \<open>fwrite_unlocked\<close> takes is a list of numbers; past its end the disk takes all it is given.

  The theorem shows that nothing is lost, repeated or split between two files, and when a new file
  is begun.
\<close>

subsection \<open>Files\<close>

record logged_file =
  flName :: string
  flText :: string
  flWritten :: nat

definition newFile :: "string \<Rightarrow> logged_file" where
  "newFile filename = \<lparr>flName = filename, flText = [], flWritten = 0\<rparr>"

text \<open>\<open>write_loop takes data\<close> is the part of \<open>data\<close> that reached the file: the first call outside the
  loop may take nothing, a later one that takes nothing ends it.\<close>

fun write_more :: "nat list \<Rightarrow> string \<Rightarrow> string" where
  "write_more takes [] = []"
| "write_more [] (c # cs) = c # cs"
| "write_more (x # takes) (c # cs) =
     (if x = 0 then [] else take x (c # cs) @ write_more takes (drop x (c # cs)))"

definition write_loop :: "nat list \<Rightarrow> string \<Rightarrow> string" where
  "write_loop takes logline =
     (case takes of
        [] \<Rightarrow> logline
      | x # takes' \<Rightarrow> take x logline @ write_more takes' (drop x logline))"

definition file_append :: "nat list \<Rightarrow> string \<Rightarrow> logged_file \<Rightarrow> logged_file" where
  "file_append takes logline f =
     f\<lparr>flText := flText f @ write_loop takes logline, flWritten := flWritten f + length logline\<rparr>"

subsection \<open>The log\<close>

text \<open>\<open>lfClosed\<close> are the files closed so far.\<close>

record log_file =
  lfBasename :: string
  lfRollSize :: nat
  lfFlushInterval :: int
  lfCount :: nat
  lfStartOfPeriod :: int
  lfLastRoll :: int
  lfLastFlush :: int
  lfFile :: "logged_file option"
  lfClosed :: "logged_file list"

definition kCheckTimeRoll :: nat where "kCheckTimeRoll = 1024"

definition kRollPerSeconds :: int where "kRollPerSeconds = 60 * 60 * 24"

definition getLogFileName :: "(int \<Rightarrow> string) \<Rightarrow> string \<Rightarrow> int \<Rightarrow> string \<Rightarrow> int \<Rightarrow> string" where
  "getLogFileName stamp hostname pid basename now =
     basename @ stamp now @ hostname @ snprintf 32 (CHR ''.'' # dec_int pid) @ ''.log''"

text \<open>What a log is given by its surroundings.\<close>

record log_env =
  leStamp :: "int \<Rightarrow> string"
  leHostname :: string
  lePid :: int

definition rollFile :: "log_env \<Rightarrow> int \<Rightarrow> log_file \<Rightarrow> log_file" where
  "rollFile env now l =
     (let filename = getLogFileName (leStamp env) (leHostname env) (lePid env) (lfBasename l) now;
          start = c_div now kRollPerSeconds * kRollPerSeconds
      in if now > lfLastRoll l
         then l\<lparr>lfLastRoll := now, lfLastFlush := now, lfStartOfPeriod := start,
                lfClosed := lfClosed l @ (case lfFile l of None \<Rightarrow> [] | Some f \<Rightarrow> [f]),
                lfFile := Some (newFile filename)\<rparr>
         else l)"

definition newLogFile :: "log_env \<Rightarrow> string \<Rightarrow> nat \<Rightarrow> int \<Rightarrow> int \<Rightarrow> log_file res" where
  "newLogFile env basename rollSize flushInterval now =
     ensure (CHR ''/'' \<notin> set basename) ''LogFile: basename.find('/') == npos''
     (Inr (rollFile env now
       \<lparr>lfBasename = basename, lfRollSize = rollSize, lfFlushInterval = flushInterval, lfCount = 0,
        lfStartOfPeriod = 0, lfLastRoll = 0, lfLastFlush = 0, lfFile = None, lfClosed = []\<rparr>))"

definition lf_append :: "log_env \<Rightarrow> nat list \<Rightarrow> int \<Rightarrow> string \<Rightarrow> log_file \<Rightarrow> log_file res" where
  "lf_append env takes now logline l =
     (case lfFile l of
        None \<Rightarrow> Inl (BadAccess ''LogFile::append: file_'')
      | Some f \<Rightarrow>
          let f' = file_append takes logline f; l1 = l\<lparr>lfFile := Some f'\<rparr> in
          Inr (if flWritten f' > lfRollSize l then rollFile env now l1
               else if lfCount l1 > kCheckTimeRoll then
                 let l2 = l1\<lparr>lfCount := 0\<rparr>;
                     thisPeriod = c_div now kRollPerSeconds * kRollPerSeconds
                 in if thisPeriod \<noteq> lfStartOfPeriod l2 then rollFile env now l2
                    else if now - lfLastFlush l2 > lfFlushInterval l2 then l2\<lparr>lfLastFlush := now\<rparr>
                    else l2
               else l1\<lparr>lfCount := lfCount l1 + 1\<rparr>))"

text \<open>A sequence of appends, each with the clock it reads and how the disk takes the data.\<close>

type_synonym append_call = "nat list \<times> int \<times> string"

fun lf_run :: "log_env \<Rightarrow> append_call list \<Rightarrow> log_file \<Rightarrow> log_file res" where
  "lf_run env [] l = Inr l"
| "lf_run env ((takes, now, line) # cs) l = bindR (lf_append env takes now line l) (lf_run env cs)"

subsection \<open>What reaches the disk\<close>

definition all_files :: "log_file \<Rightarrow> logged_file list" where
  "all_files l = lfClosed l @ (case lfFile l of None \<Rightarrow> [] | Some f \<Rightarrow> [f])"

lemma write_more_all: "0 \<notin> set takes \<Longrightarrow> write_more takes data = data"
proof (induction takes data rule: write_more.induct)
  case (3 x takes c cs)
  then show ?case by (simp add: append_take_drop_id)
qed simp_all

text \<open>A disk that takes something whenever it is asked, except perhaps at the first call, takes it all.\<close>

definition takes_all :: "nat list \<Rightarrow> bool" where
  "takes_all takes \<longleftrightarrow> 0 \<notin> set (tl takes)"

lemma write_loop_all: "takes_all takes \<Longrightarrow> write_loop takes data = data"
  by (cases takes) (simp_all add: write_loop_def takes_all_def write_more_all)

lemma write_loop_prefix: "\<exists>rest. data = write_loop takes data @ rest"
proof -
  have m: "\<exists>rest. data = write_more takes data @ rest" for takes data
  proof (induction takes data rule: write_more.induct)
    case (3 x takes c cs)
    show ?case
    proof (cases "x = 0")
      case False
      then obtain rest where "drop x (c # cs) = write_more takes (drop x (c # cs)) @ rest" using 3 by blast
      then have "take x (c # cs) @ drop x (c # cs) = (take x (c # cs) @ write_more takes (drop x (c # cs))) @ rest" by simp
      then show ?thesis using False by (metis append_take_drop_id write_more.simps(3))
    qed simp
  qed simp_all
  show ?thesis
  proof (cases takes)
    case (Cons x takes')
    obtain rest where "drop x data = write_more takes' (drop x data) @ rest" using m by blast
    then have "take x data @ drop x data = (take x data @ write_more takes' (drop x data)) @ rest" by simp
    then show ?thesis using Cons by (auto simp: write_loop_def)
  qed (simp add: write_loop_def)
qed

text \<open>A file as the second it was begun in and its lines, each with the clock its append read. Lines are \<open>within\<close> the size when each of them either
  leaves the file at most \<open>roll\<close> bytes long or comes in the second the file was begun in.\<close>

type_synonym log_part = "int \<times> (int \<times> string) list"

definition part_text :: "log_part \<Rightarrow> string" where
  "part_text p = concat (map snd (snd p))"

fun within :: "nat \<Rightarrow> int \<Rightarrow> nat \<Rightarrow> (int \<times> string) list \<Rightarrow> bool" where
  "within roll t n [] = True"
| "within roll t n ((now, line) # ls) \<longleftrightarrow> (n + length line \<le> roll \<or> now \<le> t) \<and> within roll t (n + length line) ls"

lemma within_snoc:
  "within roll t n (ls @ [(now, line)]) \<longleftrightarrow> within roll t n ls \<and> (n + length (concat (map snd ls)) + length line \<le> roll \<or> now \<le> t)"
  by (induction ls arbitrary: n) (auto simp: add.assoc)

definition parts_inv :: "log_part list \<Rightarrow> log_file \<Rightarrow> bool" where
  "parts_inv parts l \<longleftrightarrow> parts \<noteq> [] \<and> sorted_wrt (<) (map fst parts) \<and> lfLastRoll l = fst (last parts)
     \<and> (\<exists>f. lfFile l = Some f \<and> flText f = part_text (last parts) \<and> flWritten f = length (part_text (last parts)))
     \<and> map flText (lfClosed l) = map part_text (butlast parts)
     \<and> (\<forall>p \<in> set parts. within (lfRollSize l) (fst p) 0 (butlast (snd p))) \<and> within (lfRollSize l) (fst (last parts)) 0 (snd (last parts))"

lemma parts_inv_files: "parts_inv parts l \<Longrightarrow> map flText (all_files l) = map part_text parts"
  by (cases parts rule: rev_cases) (auto simp: parts_inv_def all_files_def)

text \<open>A state whose current file has just got a line and that may have to roll.\<close>

definition grown :: "log_part list \<Rightarrow> int \<Rightarrow> (int \<times> string) list \<Rightarrow> log_file \<Rightarrow> log_file \<Rightarrow> bool" where
  "grown ps t ls l l1 \<longleftrightarrow> parts_inv (ps @ [(t, butlast ls)]) l \<and> ls \<noteq> [] \<and> lfRollSize l1 = lfRollSize l \<and> lfLastRoll l1 = lfLastRoll l \<and> lfClosed l1 = lfClosed l
     \<and> (\<exists>f. lfFile l1 = Some f \<and> flText f = part_text (t, ls) \<and> flWritten f = length (part_text (t, ls)))"

lemma grown_fields [simp]:
  "grown ps t ls l (l1\<lparr>lfCount := n\<rparr>) = grown ps t ls l l1"
  "grown ps t ls l (l1\<lparr>lfLastFlush := k\<rparr>) = grown ps t ls l l1"
  by (simp_all add: grown_def)

lemma grown_stay:
  assumes "grown ps t (ls @ [(now, line)]) l l1" and "length (part_text (t, ls @ [(now, line)])) \<le> lfRollSize l \<or> now \<le> t"
  shows "parts_inv (ps @ [(t, ls @ [(now, line)])]) l1 \<and> lfRollSize l1 = lfRollSize l"
  using assms by (auto simp: grown_def parts_inv_def within_snoc part_text_def)

lemma grown_roll:
  assumes G: "grown ps t (ls @ [(now, line)]) l l1"
  shows "\<exists>parts. parts_inv parts (rollFile env now l1) \<and> concat (map snd parts) = concat (map snd ps) @ ls @ [(now, line)]
    \<and> lfRollSize (rollFile env now l1) = lfRollSize l"
proof (cases "now > t")
  case True
  have t: "lfLastRoll l1 = t" using G by (simp add: grown_def parts_inv_def)
  obtain f where f: "lfFile l1 = Some f" "flText f = part_text (t, ls @ [(now, line)])" using G by (auto simp: grown_def)
  have inv: "parts_inv (ps @ [(t, ls)]) l" and c: "lfClosed l1 = lfClosed l" "lfRollSize l1 = lfRollSize l" using G by (simp_all add: grown_def)
  have "\<forall>p \<in> set ps. fst p < now" using inv True by (auto simp: parts_inv_def sorted_wrt_append)
  then have "sorted_wrt (<) (map fst (ps @ [(t, ls @ [(now, line)]), (now, [])]))" using inv True by (auto simp: parts_inv_def sorted_wrt_append)
  then have "parts_inv (ps @ [(t, ls @ [(now, line)]), (now, [])]) (rollFile env now l1)"
    using inv True t f c by (simp add: parts_inv_def rollFile_def newFile_def part_text_def butlast_append Let_def)
  then show ?thesis using G by (intro exI[of _ "ps @ [(t, ls @ [(now, line)]), (now, [])]"]) (auto simp: rollFile_def grown_def Let_def)
next
  case False
  moreover have "rollFile env now l1 = l1" using False G by (simp add: grown_def parts_inv_def rollFile_def)
  ultimately show ?thesis using grown_stay[OF G] by (intro exI[of _ "ps @ [(t, ls @ [(now, line)])]"]) simp
qed

lemma lf_append_parts:
  assumes inv: "parts_inv parts l" and "takes_all takes"
  shows "\<exists>l' parts'. lf_append env takes now line l = Inr l' \<and> parts_inv parts' l' \<and> concat (map snd parts') = concat (map snd parts) @ [(now, line)]
    \<and> lfRollSize l' = lfRollSize l"
proof -
  obtain ps t ls where parts: "parts = ps @ [(t, ls)]" using inv by (cases parts rule: rev_cases) (auto simp: parts_inv_def)
  obtain f where f: "lfFile l = Some f" "flText f = part_text (t, ls)" "flWritten f = length (part_text (t, ls))"
    using inv parts by (auto simp: parts_inv_def)
  define g where "g = file_append takes line f"
  define l1 where "l1 = l\<lparr>lfFile := Some g\<rparr>"
  have G: "grown ps t (ls @ [(now, line)]) l l1" and n: "flWritten g = length (part_text (t, ls @ [(now, line)]))"
    using inv f write_loop_all[OF assms(2), of line] by (auto simp: grown_def parts g_def l1_def file_append_def part_text_def)
  let ?good = "\<lambda>l'. \<exists>parts'. parts_inv parts' l' \<and> concat (map snd parts') = concat (map snd parts) @ [(now, line)] \<and> lfRollSize l' = lfRollSize l"
  have roll: "?good (rollFile env now l2)" if "grown ps t (ls @ [(now, line)]) l l2" for l2 using grown_roll[OF that] parts by simp
  have stay: "?good l2" if "grown ps t (ls @ [(now, line)]) l l2" "\<not> lfRollSize l < flWritten g" for l2
    using grown_stay[OF that(1)] that(2) n parts by (intro exI[of _ "ps @ [(t, ls @ [(now, line)])]"]) simp
  have "lf_append env takes now line l =
     Inr (if flWritten g > lfRollSize l then rollFile env now l1
          else if lfCount l1 > kCheckTimeRoll then
            if c_div now kRollPerSeconds * kRollPerSeconds \<noteq> lfStartOfPeriod (l1\<lparr>lfCount := 0\<rparr>) then rollFile env now (l1\<lparr>lfCount := 0\<rparr>)
            else if now - lfLastFlush (l1\<lparr>lfCount := 0\<rparr>) > lfFlushInterval (l1\<lparr>lfCount := 0\<rparr>) then l1\<lparr>lfCount := 0\<rparr>\<lparr>lfLastFlush := now\<rparr>
            else l1\<lparr>lfCount := 0\<rparr>
          else l1\<lparr>lfCount := lfCount l1 + 1\<rparr>)" (is "_ = Inr ?l")
    by (simp only: lf_append_def f(1) option.case Let_def g_def[symmetric] l1_def[symmetric])
  moreover have "?good ?l" by (auto simp only: split: if_split intro!: stay roll simp: grown_fields G not_less)
  ultimately show ?thesis by blast
qed

lemma lf_run_parts:
  assumes "\<forall>c \<in> set cs. takes_all (fst c)" and "parts_inv parts l"
  shows "\<exists>l' parts'. lf_run env cs l = Inr l' \<and> parts_inv parts' l' \<and> concat (map snd parts') = concat (map snd parts) @ map snd cs
    \<and> lfRollSize l' = lfRollSize l"
  using assms
proof (induction cs arbitrary: parts l)
  case (Cons c cs)
  obtain takes now line where c: "c = (takes, now, line)" by (cases c)
  then have "takes_all takes" using Cons.prems(1) by simp
  from lf_append_parts[OF Cons.prems(2) this, of env now line]
  obtain l1 parts1 where 1: "lf_append env takes now line l = Inr l1" "parts_inv parts1 l1"
      "concat (map snd parts1) = concat (map snd parts) @ [(now, line)]" "lfRollSize l1 = lfRollSize l" by blast
  obtain l2 parts2 where "lf_run env cs l1 = Inr l2" "parts_inv parts2 l2" "concat (map snd parts2) = concat (map snd parts1) @ map snd cs"
      "lfRollSize l2 = lfRollSize l1" using Cons.IH[OF _ 1(2)] Cons.prems(1) by auto
  then show ?case using c 1 by auto
qed auto



text \<open>When two roll-overs fall into one second the second one does nothing: a file can grow past
  \<open>rollSize\<close> by as much as is written within that second.\<close>

lemma roll_same_second: "now \<le> lfLastRoll l \<Longrightarrow> rollFile env now l = l"
  by (simp add: rollFile_def Let_def)

end
