(* ===== verification/AsyncLogging.thy ===== *)
theory AsyncLogging
  imports LogStream "HOL-Library.Sublist"
begin

text \<open>
  \<open>muduo::AsyncLogging\<close> (\<open>muduo/base/AsyncLogging.h\<close>, \<open>AsyncLogging.cc\<close>): any number of threads append
  lines to the current buffer; a background thread takes the filled buffers, writes them out and
  recycles two of them. The buffers are the fixed buffers of \<open>LogStream\<close>; their size, \<open>kLargeBuffer\<close> in
  the code, is an argument. A moved-from pointer is \<open>None\<close>. \<open>al_step\<close> interleaves appends, the
  background thread (the critical section with the swap, and the writing after it, are separate
  steps) and \<open>stop\<close>. The wait for a filled buffer has a timeout, so the swap may happen at any time.
\<close>

subsection \<open>State and operations\<close>

text \<open>What is handed to the log file: the text of a buffer, or the message that a number of buffers
  was dropped.\<close>

datatype log_out = OutText string | OutDropped nat

datatype writer_pc = AtTest | AtWrite | AtEnd

record async_log =
  alRunning :: bool
  alCurrent :: fixedbuf
  alNext :: "fixedbuf option"
  alBuffers :: "fixedbuf list"
  alNew1 :: "fixedbuf option"
  alNew2 :: "fixedbuf option"
  alToWrite :: "fixedbuf list"
  alOut :: "log_out list"
  alPc :: writer_pc

text \<open>After \<open>start()\<close>: the thread has been created and its two spare buffers allocated.\<close>

definition al_start :: "nat \<Rightarrow> async_log" where
  "al_start cap = \<lparr>alRunning = True, alCurrent = newFixedBuffer cap [], alNext = Some (newFixedBuffer cap []),
     alBuffers = [], alNew1 = Some (newFixedBuffer cap []), alNew2 = Some (newFixedBuffer cap []),
     alToWrite = [], alOut = [], alPc = AtTest\<rparr>"

definition al_append :: "nat \<Rightarrow> string \<Rightarrow> async_log \<Rightarrow> async_log res" where
  "al_append cap logline s =
     (if fb_avail (alCurrent s) > length logline
      then bindR (fb_append logline (alCurrent s)) (\<lambda>b. Inr (s\<lparr>alCurrent := b\<rparr>))
      else
        let s1 = s\<lparr>alBuffers := alBuffers s @ [alCurrent s],
                   alCurrent := (case alNext s of Some b \<Rightarrow> b | None \<Rightarrow> newFixedBuffer cap []),
                   alNext := None\<rparr>
        in bindR (fb_append logline (alCurrent s1)) (\<lambda>b. Inr (s1\<lparr>alCurrent := b\<rparr>)))"

text \<open>The head of the loop and the critical section.\<close>

definition al_swap :: "async_log \<Rightarrow> async_log res" where
  "al_swap s =
     (case (alNew1 s, alNew2 s) of
        (Some n1, Some n2) \<Rightarrow>
          ensure (fb_length n1 = 0) ''threadFunc: newBuffer1->length() == 0''
         (ensure (fb_length n2 = 0) ''threadFunc: newBuffer2->length() == 0''
         (ensure (alToWrite s = []) ''threadFunc: buffersToWrite.empty()''
          (let s1 = s\<lparr>alToWrite := alBuffers s @ [alCurrent s], alBuffers := [], alCurrent := n1, alNew1 := None, alPc := AtWrite\<rparr>
           in Inr (case alNext s1 of
                     None \<Rightarrow> s1\<lparr>alNext := Some n2, alNew2 := None\<rparr>
                   | Some _ \<Rightarrow> s1))))
      | _ \<Rightarrow> Inl (AssertFailed ''threadFunc: newBuffer1 && newBuffer2''))"

text \<open>\<open>pop_back\<close> of a spare buffer, where the pointer is empty.\<close>

definition refill :: "fixedbuf option \<Rightarrow> fixedbuf list \<Rightarrow> (fixedbuf option \<times> fixedbuf list) res" where
  "refill n bs =
     (case n of
        Some b \<Rightarrow> Inr (Some b, bs)
      | None \<Rightarrow> ensure (bs \<noteq> []) ''threadFunc: !buffersToWrite.empty()'' (Inr (Some (fb_reset (last bs)), butlast bs)))"

definition al_write :: "async_log \<Rightarrow> async_log res" where
  "al_write s =
     ensure (alToWrite s \<noteq> []) ''threadFunc: !buffersToWrite.empty()''
     (let n = length (alToWrite s);
          keep = (if n > 25 then take 2 (alToWrite s) else alToWrite s);
          msgs = (if n > 25 then [OutDropped (n - 2)] else []);
          out = alOut s @ msgs @ map (\<lambda>b. OutText (asString b)) keep;
          spare = (if length keep > 2 then take 2 keep else keep)
      in bindR (refill (alNew1 s) spare) (\<lambda>(n1, spare1).
         bindR (refill (alNew2 s) spare1) (\<lambda>(n2, spare2).
         Inr (s\<lparr>alOut := out, alNew1 := n1, alNew2 := n2, alToWrite := [], alPc := AtTest\<rparr>))))"

definition al_stop :: "async_log \<Rightarrow> async_log" where
  "al_stop s = s\<lparr>alRunning := False\<rparr>"

subsection \<open>Interleaving\<close>

text \<open>The log of the lines appended so far goes with the state.\<close>

inductive al_step :: "nat \<Rightarrow> async_log \<times> string list \<Rightarrow> async_log \<times> string list \<Rightarrow> bool" for cap :: nat where
  front_append: "length line < cap \<Longrightarrow> al_append cap line s = Inr s' \<Longrightarrow> al_step cap (s, ls) (s', ls @ [line])"
| back_swap: "alPc s = AtTest \<Longrightarrow> alRunning s \<Longrightarrow> al_swap s = Inr s' \<Longrightarrow> al_step cap (s, ls) (s', ls)"
| back_write: "alPc s = AtWrite \<Longrightarrow> al_write s = Inr s' \<Longrightarrow> al_step cap (s, ls) (s', ls)"
| back_exit: "alPc s = AtTest \<Longrightarrow> \<not> alRunning s \<Longrightarrow> al_step cap (s, ls) (s\<lparr>alPc := AtEnd\<rparr>, ls)"
| front_stop: "al_step cap (s, ls) (al_stop s, ls)"

definition al_init :: "nat \<Rightarrow> async_log \<times> string list \<Rightarrow> bool" where
  "al_init cap w \<longleftrightarrow> w = (al_start cap, [])"

subsection \<open>Invariant\<close>

fun out_text :: "log_out \<Rightarrow> string" where
  "out_text (OutText t) = t"
| "out_text (OutDropped n) = []"

fun is_text :: "log_out \<Rightarrow> bool" where
  "is_text (OutText t) = True"
| "is_text (OutDropped n) = False"

definition written :: "async_log \<Rightarrow> string" where
  "written s = concat (map out_text (alOut s))"

definition in_buffers :: "async_log \<Rightarrow> string" where
  "in_buffers s = concat (map asString (alToWrite s @ alBuffers s @ [alCurrent s]))"

definition spare_ok :: "nat \<Rightarrow> fixedbuf option \<Rightarrow> bool" where
  "spare_ok cap n \<longleftrightarrow> (\<forall>b. n = Some b \<longrightarrow> fb_wf cap b \<and> fb_length b = 0)"

definition shape :: "nat \<Rightarrow> async_log \<Rightarrow> bool" where
  "shape cap s \<longleftrightarrow> fb_wf cap (alCurrent s) \<and> spare_ok cap (alNext s) \<and> spare_ok cap (alNew1 s) \<and> spare_ok cap (alNew2 s)
   \<and> (\<forall>b \<in> set (alBuffers s @ alToWrite s). fb_wf cap b)
   \<and> (alNext s = None \<longrightarrow> alBuffers s \<noteq> [])
   \<and> (alPc s = AtWrite \<longrightarrow> alNew1 s = None \<and> alToWrite s \<noteq> [] \<and> (alNew2 s = None \<longrightarrow> 2 \<le> length (alToWrite s)))
   \<and> (alPc s \<noteq> AtWrite \<longrightarrow> alNew1 s \<noteq> None \<and> alNew2 s \<noteq> None \<and> alToWrite s = [])"

definition text_inv :: "async_log \<Rightarrow> string list \<Rightarrow> bool" where
  "text_inv s ls \<longleftrightarrow> subseq (written s @ in_buffers s) (concat ls)
   \<and> ((\<forall>o1 \<in> set (alOut s). is_text o1) \<longrightarrow> written s @ in_buffers s = concat ls)"

lemma fb_wf_wrote: "fb_wf cap b \<Longrightarrow> wrote cap (asString b) b"
  by (simp add: wrote_def)

lemma empty_asString: "fb_length b = 0 \<Longrightarrow> asString b = []"
  by (simp add: asString_def)

lemma fb_append_fits:
  assumes "fb_wf cap b" and "length (asString b) + length line < cap"
  obtains b' where "fb_append line b = Inr b'" "fb_wf cap b'" "asString b' = asString b @ line"
proof -
  have "holds {} (fb_append line b) (wrote cap (asString b @ line))"
    using fb_append_wrote[OF fb_wf_wrote[OF assms(1)], of line] assms(2) by simp
  then show ?thesis using that by (cases "fb_append line b") (auto simp: wrote_def)
qed

lemma al_append_ok:
  assumes "shape cap s" and "length line < cap"
  shows "holds {} (al_append cap line s) (\<lambda>s'. shape cap s' \<and> alOut s' = alOut s \<and> in_buffers s' = in_buffers s @ line)"
proof -
  have cur: "fb_wf cap (alCurrent s)" using assms(1) by (simp add: shape_def)
  have av: "length line < fb_avail (alCurrent s) \<longleftrightarrow> length (asString (alCurrent s)) + length line < cap"
    by (rule wrote_avail(2)[OF fb_wf_wrote[OF cur]])
  show ?thesis
  proof (cases "length line < fb_avail (alCurrent s)")
    case True
    obtain b where "fb_append line (alCurrent s) = Inr b" "fb_wf cap b" "asString b = asString (alCurrent s) @ line"
      using fb_append_fits[OF cur] True av by metis
    then show ?thesis using True assms(1) by (simp add: al_append_def shape_def in_buffers_def)
  next
    case False
    let ?n = "case alNext s of Some b \<Rightarrow> b | None \<Rightarrow> newFixedBuffer cap []"
    have n: "fb_wf cap ?n" "asString ?n = []"
      using assms newFixedBuffer_wrote[of cap "[]"]
      by (auto simp: shape_def spare_ok_def wrote_def empty_asString split: option.splits)
    obtain b where "fb_append line ?n = Inr b" "fb_wf cap b" "asString b = line"
      using fb_append_fits[OF n(1), of line] n(2) assms(2) by auto
    then show ?thesis using False assms(1) cur by (auto simp: al_append_def shape_def in_buffers_def spare_ok_def)
  qed
qed

lemma al_swap_ok:
  assumes "shape cap s" and "alPc s = AtTest"
  shows "holds {} (al_swap s) (\<lambda>s'. shape cap s' \<and> alOut s' = alOut s \<and> in_buffers s' = in_buffers s \<and> alRunning s' = alRunning s)"
proof -
  obtain n1 n2 where n: "alNew1 s = Some n1" "alNew2 s = Some n2" using assms by (auto simp: shape_def)
  have e: "fb_length n1 = 0" "fb_length n2 = 0" "fb_wf cap n1" "fb_wf cap n2" "alToWrite s = []"
    using assms n by (auto simp: shape_def spare_ok_def)
  have len: "2 \<le> length (alBuffers s @ [alCurrent s])" if "alNext s = None"
    using assms(1) that by (cases "alBuffers s") (auto simp: shape_def)
  show ?thesis
  proof (cases "alNext s")
    case None
    then show ?thesis using assms n e len
      by (auto simp: al_swap_def shape_def spare_ok_def in_buffers_def empty_asString)
  next
    case (Some b)
    then show ?thesis using assms n e
      by (auto simp: al_swap_def shape_def spare_ok_def in_buffers_def empty_asString)
  qed
qed

lemma reset_spare: "fb_wf cap b \<Longrightarrow> spare_ok cap (Some (fb_reset b))"
  by (auto simp: spare_ok_def fb_wf_def fb_reset_def fb_length_def)

lemma refill_ok:
  assumes "spare_ok cap n" and "\<forall>b \<in> set bs. fb_wf cap b" and "n = None \<Longrightarrow> bs \<noteq> []"
  obtains n' bs' where "refill n bs = Inr (n', bs')" "n' \<noteq> None" "spare_ok cap n'" "\<forall>b \<in> set bs'. fb_wf cap b"
    "length bs' = (if n = None then length bs - 1 else length bs)"
proof (cases n)
  case None
  then have "last bs \<in> set bs" using assms(3) by simp
  then show ?thesis using that[of "Some (fb_reset (last bs))" "butlast bs"] None assms reset_spare[of cap "last bs"]
    by (auto simp: refill_def dest: in_set_butlastD)
qed (use that assms in \<open>auto simp: refill_def\<close>)

lemma concat_subseq_take: "subseq (concat (map f (take n xs))) (concat (map f xs))"
proof -
  have "concat (map f xs) = concat (map f (take n xs)) @ concat (map f (drop n xs))"
    by (metis append_take_drop_id concat_append map_append)
  then show ?thesis by (simp add: list_emb_append2 list_emb_prefix)
qed

lemma al_write_ok:
  assumes "shape cap s" and "alPc s = AtWrite"
  shows "holds {} (al_write s) (\<lambda>s'. shape cap s' \<and> subseq (written s' @ in_buffers s') (written s @ in_buffers s)
     \<and> ((\<forall>o1 \<in> set (alOut s'). is_text o1) \<longrightarrow> (\<forall>o1 \<in> set (alOut s). is_text o1) \<and> written s' @ in_buffers s' = written s @ in_buffers s))"
proof -
  define n where "n = length (alToWrite s)"
  define keep where "keep = (if n > 25 then take 2 (alToWrite s) else alToWrite s)"
  define spare where "spare = (if length keep > 2 then take 2 keep else keep)"
  have tw: "alToWrite s \<noteq> []" "alNew1 s = None" "alNew2 s = None \<Longrightarrow> 2 \<le> n" using assms by (auto simp: shape_def n_def)
  have wf: "\<forall>b \<in> set spare. fb_wf cap b"
    using assms(1) by (auto simp: shape_def spare_def keep_def dest: in_set_takeD split: if_splits)
  have len: "length spare = min 2 n" by (auto simp: spare_def keep_def n_def)
  obtain n1 sp1 where r1: "refill (alNew1 s) spare = Inr (n1, sp1)" "n1 \<noteq> None" "spare_ok cap n1" "\<forall>b \<in> set sp1. fb_wf cap b"
      "length sp1 = length spare - 1"
  proof (rule refill_ok[of cap "alNew1 s" spare])
    have "0 < n" using tw(1) by (simp add: n_def)
    then show "spare \<noteq> []" using len by auto
    show "spare_ok cap (alNew1 s)" using tw(2) by (simp add: spare_ok_def)
  qed (use wf tw in auto)
  have sp1: "alNew2 s = None \<Longrightarrow> sp1 \<noteq> []" using r1(5) len tw(3) by (cases sp1) auto
  obtain n2 sp2 where r2: "refill (alNew2 s) sp1 = Inr (n2, sp2)" "n2 \<noteq> None" "spare_ok cap n2"
    using refill_ok[of cap "alNew2 s" sp1] sp1 r1(4) assms(1) unfolding shape_def by metis
  define s' where "s' = s\<lparr>alOut := alOut s @ (if n > 25 then [OutDropped (n - 2)] else []) @ map (\<lambda>b. OutText (asString b)) keep,
    alNew1 := n1, alNew2 := n2, alToWrite := [], alPc := AtTest\<rparr>"
  have eq: "al_write s = Inr s'"
    using tw(1) r1(1) r2(1)
    by (simp only: al_write_def Let_def n_def[symmetric] keep_def[symmetric] spare_def[symmetric] ensure_def bindR_Inr prod.case s'_def not_False_eq_True if_True)
  have sh: "shape cap s'" using assms(1) r1 r2 by (simp add: shape_def s'_def)
  have comp: "out_text \<circ> (\<lambda>b. OutText (asString b)) = asString" by (simp add: fun_eq_iff)
  have w: "written s' = written s @ concat (map asString keep)" by (simp add: written_def s'_def comp)
  have p: "in_buffers s = concat (map asString (alToWrite s)) @ in_buffers s'" by (simp add: in_buffers_def s'_def)
  have sub: "subseq (concat (map asString keep)) (concat (map asString (alToWrite s)))"
    by (auto simp: keep_def concat_subseq_take)
  have "subseq (written s' @ in_buffers s') (written s @ in_buffers s)"
    unfolding w p using sub by (auto intro!: list_emb_append_mono)
  moreover have "n \<le> 25" if "\<forall>o1 \<in> set (alOut s'). is_text o1"
  proof (rule ccontr)
    assume "\<not> n \<le> 25"
    then have "OutDropped (n - 2) \<in> set (alOut s')" by (simp add: s'_def)
    with that show False by force
  qed
  ultimately show ?thesis unfolding eq using sh w p by (auto simp: s'_def keep_def)
qed

subsection \<open>Properties\<close>

lemma al_step_inv:
  assumes "shape cap s \<and> text_inv s ls" and "al_step cap (s, ls) (s', ls')"
  shows "shape cap s' \<and> text_inv s' ls'"
proof -
  have sh: "shape cap s" and tx: "text_inv s ls" using assms(1) by auto
  show ?thesis using assms(2)
  proof (cases rule: al_step.cases)
    case (front_append line)
    have a: "shape cap s'" "alOut s' = alOut s" "in_buffers s' = in_buffers s @ line"
      using al_append_ok[OF sh front_append(2)] front_append(3) by auto
    have w: "written s' @ in_buffers s' = (written s @ in_buffers s) @ line" using a by (simp add: written_def)
    have "subseq ((written s @ in_buffers s) @ line) (concat ls @ line)"
      using tx by (intro list_emb_append_mono) (auto simp: text_inv_def)
    then show ?thesis using a(1,2) tx front_append(1) unfolding text_inv_def w by simp
  next
    case back_swap
    have a: "shape cap s'" "alOut s' = alOut s" "in_buffers s' = in_buffers s"
      using al_swap_ok[OF sh back_swap(2)] back_swap(4) by auto
    then show ?thesis using tx back_swap(1) by (simp add: text_inv_def written_def)
  next
    case back_write
    have a: "shape cap s'" "subseq (written s' @ in_buffers s') (written s @ in_buffers s)"
        "(\<forall>o1 \<in> set (alOut s'). is_text o1) \<longrightarrow> (\<forall>o1 \<in> set (alOut s). is_text o1) \<and> written s' @ in_buffers s' = written s @ in_buffers s"
      using al_write_ok[OF sh back_write(2)] back_write(3) by auto
    then show ?thesis using tx back_write(1) subseq_order.trans[OF a(2)] unfolding text_inv_def by auto
  next
    case back_exit
    then show ?thesis using sh tx by (simp add: shape_def text_inv_def written_def in_buffers_def)
  next
    case front_stop
    then show ?thesis using sh tx by (simp add: al_stop_def shape_def text_inv_def written_def in_buffers_def)
  qed
qed

lemma al_start_inv: "0 < cap \<Longrightarrow> shape cap (al_start cap) \<and> text_inv (al_start cap) []"
  using newFixedBuffer_wrote[of cap "[]"]
  by (auto simp: al_start_def shape_def spare_ok_def text_inv_def written_def in_buffers_def wrote_def newFixedBuffer_def fb_length_def)

lemma al_reach_inv:
  assumes "reach (al_init cap) (al_step cap) (s, ls)" and "0 < cap"
  shows "shape cap s" and "text_inv s ls"
proof -
  have "case (s, ls) of (s, ls) \<Rightarrow> shape cap s \<and> text_inv s ls"
    using assms(1)
  proof (rule reach_invariant)
    show "case w of (s, ls) \<Rightarrow> shape cap s \<and> text_inv s ls" if "al_init cap w" for w
      using that al_start_inv[OF assms(2)] by (simp add: al_init_def)
    show "case w' of (s, ls) \<Rightarrow> shape cap s \<and> text_inv s ls"
      if "case w of (s, ls) \<Rightarrow> shape cap s \<and> text_inv s ls" "al_step cap w w'" for w w'
    proof -
      obtain s ls s' ls' where w: "w = (s, ls)" "w' = (s', ls')" by (metis surj_pair)
      show ?thesis using that al_step_inv[of cap s ls s' ls'] unfolding w by simp
    qed
  qed
  then show "shape cap s" "text_inv s ls" by auto
qed

text \<open>
  Property C34. Asynchronous logging loses, repeats and reorders nothing, however the appending threads
  and the background thread interleave: what was written followed by what is in the buffers is
  always a subsequence of the text appended, and exactly that text as long as no backlog of more than
  25 buffers was dropped. No assertion of the background thread can fail, it always has two spare
  buffers, and an append always finds a buffer that takes the whole line.
\<close>

theorem async_logging_order:
  assumes "reach (al_init cap) (al_step cap) (s, ls)" and "0 < cap"
  shows "subseq (written s @ in_buffers s) (concat ls)
    \<and> ((\<forall>o1 \<in> set (alOut s). is_text o1) \<longrightarrow> written s @ in_buffers s = concat ls)
    \<and> (alPc s = AtTest \<longrightarrow> is_ok (al_swap s)) \<and> (alPc s = AtWrite \<longrightarrow> is_ok (al_write s))
    \<and> (\<forall>line. length line < cap \<longrightarrow> (\<exists>s'. al_append cap line s = Inr s' \<and> in_buffers s' = in_buffers s @ line))"
proof (intro conjI impI allI)
  note sh = al_reach_inv(1)[OF assms] and tx = al_reach_inv(2)[OF assms]
  show "subseq (written s @ in_buffers s) (concat ls)" using tx by (simp add: text_inv_def)
  show "written s @ in_buffers s = concat ls" if "\<forall>o1 \<in> set (alOut s). is_text o1" using tx that by (simp add: text_inv_def)
  show "is_ok (al_swap s)" if "alPc s = AtTest" using al_swap_ok[OF sh that] by (cases "al_swap s") auto
  show "is_ok (al_write s)" if "alPc s = AtWrite" using al_write_ok[OF sh that] by (cases "al_write s") auto
  show "\<exists>s'. al_append cap line s = Inr s' \<and> in_buffers s' = in_buffers s @ line" if "length line < cap" for line
    using al_append_ok[OF sh that] by (cases "al_append cap line s") auto
qed

text \<open>A line is appended while the background thread is between two rounds, and the logger is stopped:
  the thread leaves its loop with the line still in the current buffer.\<close>

definition line_buffer :: fixedbuf where
  "line_buffer = \<lparr>fbData = ''hi'' @ replicate 2 CHR 0x00, fbCur = 2\<rparr>"

lemma stop_loses_lines:
  "reach (al_init 4) (al_step 4) ((al_start 4)\<lparr>alCurrent := line_buffer, alRunning := False, alPc := AtEnd\<rparr>, [''hi''])"
proof -
  have 0: "reach (al_init 4) (al_step 4) (al_start 4, [])" by (rule reach_init) (simp add: al_init_def)
  have "al_append 4 ''hi'' (al_start 4) = Inr ((al_start 4)\<lparr>alCurrent := line_buffer\<rparr>)"
    by (simp add: al_append_def al_start_def newFixedBuffer_def fb_avail_def fb_append_def line_buffer_def numeral_eq_Suc)
  from reach_step[OF 0 front_append[OF _ this]]
  have 1: "reach (al_init 4) (al_step 4) ((al_start 4)\<lparr>alCurrent := line_buffer\<rparr>, [''hi''])" by simp
  have 2: "reach (al_init 4) (al_step 4) ((al_start 4)\<lparr>alCurrent := line_buffer, alRunning := False\<rparr>, [''hi''])"
    using reach_step[OF 1 front_stop] by (simp add: al_stop_def)
  show ?thesis using reach_step[OF 2 back_exit] by (simp add: al_start_def)
qed

theorem async_logging_order_witness:
  "\<exists>s. reach (al_init 4) (al_step 4) (s, [''hi'']) \<and> written s @ in_buffers s = ''hi''"
proof -
  let ?s = "(al_start 4)\<lparr>alCurrent := line_buffer, alRunning := False, alPc := AtEnd\<rparr>"
  have "written ?s @ in_buffers ?s = ''hi''"
    using async_logging_order[OF stop_loses_lines] by (simp add: al_start_def)
  with stop_loses_lines show ?thesis by blast
qed

end
