(* ===== verification/Monitor.thy ===== *)
theory Monitor
  imports Muduo_Prelude "HOL-Library.Extended_Nat"
begin

text \<open>
  Objects guarded by one mutex with condition variables (\<open>muduo/base/Mutex.h\<close>, \<open>Condition.h\<close>), as
  \<open>BlockingQueue\<close>, \<open>BoundedBlockingQueue\<close>, \<open>CountDownLatch\<close> and \<open>ThreadPool\<close> use them. A call of
  such an object holds the mutex from its first statement to its last, except inside
  \<open>Condition::wait\<close>; so one attempt of a call is a function of the guarded state: it blocks on a
  condition variable, and will start over with its \<open>while\<close> test when woken, or it returns with a
  new state, a result and the notifications it issued. \<open>mon_step\<close> interleaves any number of threads
  that make calls in any order, with spurious wake-ups.

  Locale \<open>monitor\<close> shows once that every interleaving is the sequential execution of the calls in
  the order they returned; locale \<open>signalling_monitor\<close> that no wake-up is lost.
\<close>

subsection \<open>Calls and notifications\<close>

datatype 'v signal = NotifyOne 'v | NotifyAll 'v

datatype ('s, 'v, 'r) outcome =
    Blocks 'v
  | Returns 's 'r "'v signal list"

datatype ('c, 'v) phase = Idle | Ready 'c | Waiting 'c 'v

text \<open>\<open>pthread_cond_signal\<close> wakes a thread that waits on the variable if there is one, whichever;
  \<open>pthread_cond_broadcast\<close> wakes them all.\<close>

fun waits_on :: "'v \<Rightarrow> ('c, 'v) phase \<Rightarrow> bool" where
  "waits_on v (Waiting c v') = (v' = v)"
| "waits_on v _ = False"

fun wake :: "'v \<Rightarrow> ('c, 'v) phase \<Rightarrow> ('c, 'v) phase" where
  "wake v (Waiting c v') = (if v' = v then Ready c else Waiting c v')"
| "wake v p = p"

inductive signals :: "'v signal list \<Rightarrow> ('c, 'v) phase list \<Rightarrow> ('c, 'v) phase list \<Rightarrow> bool" where
  no_signal: "signals [] ts ts"
| signal_one: "i < length ts \<Longrightarrow> ts ! i = Waiting c v \<Longrightarrow> signals sigs (ts[i := Ready c]) ts' \<Longrightarrow> signals (NotifyOne v # sigs) ts ts'"
| signal_none: "\<forall>p \<in> set ts. \<not> waits_on v p \<Longrightarrow> signals sigs ts ts' \<Longrightarrow> signals (NotifyOne v # sigs) ts ts'"
| signal_all: "signals sigs (map (wake v) ts) ts' \<Longrightarrow> signals (NotifyAll v # sigs) ts ts'"

record ('s, 'c, 'v, 'r) mworld =
  mwState :: 's
  mwThreads :: "('c, 'v) phase list"
  mwLog :: "('c \<times> 'r) list"

inductive mon_step ::
  "('c \<Rightarrow> 's \<Rightarrow> ('s, 'v, 'r) outcome res) \<Rightarrow> ('s, 'c, 'v, 'r) mworld \<Rightarrow> ('s, 'c, 'v, 'r) mworld \<Rightarrow> bool"
  for exec :: "'c \<Rightarrow> 's \<Rightarrow> ('s, 'v, 'r) outcome res" where
  mon_call: "t < length (mwThreads w) \<Longrightarrow> mwThreads w ! t = Idle \<Longrightarrow>
    mon_step exec w (w\<lparr>mwThreads := (mwThreads w)[t := Ready c]\<rparr>)"
| mon_block: "t < length (mwThreads w) \<Longrightarrow> mwThreads w ! t = Ready c \<Longrightarrow> exec c (mwState w) = Inr (Blocks v) \<Longrightarrow>
    mon_step exec w (w\<lparr>mwThreads := (mwThreads w)[t := Waiting c v]\<rparr>)"
| mon_return: "t < length (mwThreads w) \<Longrightarrow> mwThreads w ! t = Ready c \<Longrightarrow> exec c (mwState w) = Inr (Returns s r sigs) \<Longrightarrow>
    signals sigs ((mwThreads w)[t := Idle]) ts \<Longrightarrow>
    mon_step exec w (w\<lparr>mwState := s, mwThreads := ts, mwLog := mwLog w @ [(c, r)]\<rparr>)"
| mon_spurious: "t < length (mwThreads w) \<Longrightarrow> mwThreads w ! t = Waiting c v \<Longrightarrow>
    mon_step exec w (w\<lparr>mwThreads := (mwThreads w)[t := Ready c]\<rparr>)"

definition mon_init :: "'s \<Rightarrow> ('s, 'c, 'v, 'r) mworld \<Rightarrow> bool" where
  "mon_init s w \<longleftrightarrow> mwState w = s \<and> set (mwThreads w) \<subseteq> {Idle} \<and> mwLog w = []"

text \<open>The sequential execution of a list of calls with their results.\<close>

fun replay :: "('c \<Rightarrow> 's \<Rightarrow> ('s, 'v, 'r) outcome res) \<Rightarrow> ('c \<times> 'r) list \<Rightarrow> 's \<Rightarrow> 's option" where
  "replay exec [] s = Some s"
| "replay exec ((c, r) # l) s =
     (case exec c s of
        Inr (Returns s' r' sigs) \<Rightarrow> if r' = r then replay exec l s' else None
      | _ \<Rightarrow> None)"

lemma replay_snoc:
  "replay exec l s = Some s1 \<Longrightarrow> exec c s1 = Inr (Returns s2 r sigs) \<Longrightarrow> replay exec (l @ [(c, r)]) s = Some s2"
proof (induction l arbitrary: s)
  case (Cons e l)
  then show ?case by (cases e) (auto split: sum.splits outcome.splits if_splits)
qed simp

subsection \<open>Every interleaving is sequential\<close>

locale monitor =
  fixes exec :: "'c \<Rightarrow> 's \<Rightarrow> ('s, 'v, 'r) outcome res"
    and ok :: "'s \<Rightarrow> bool"
  assumes exec_total: "ok s \<Longrightarrow> is_ok (exec c s)"
    and exec_ok: "ok s \<Longrightarrow> exec c s = Inr (Returns s' r sigs) \<Longrightarrow> ok s'"
begin

lemma replay_ok: "replay exec l s = Some s' \<Longrightarrow> ok s \<Longrightarrow> ok s'"
proof (induction l arbitrary: s)
  case (Cons e l)
  then show ?case by (cases e) (auto split: sum.splits outcome.splits if_splits dest: exec_ok)
qed simp

lemma interleaving_sequential:
  assumes "reach (mon_init s0) (mon_step exec) w"
  shows "replay exec (mwLog w) s0 = Some (mwState w)"
  using assms
proof (induction rule: reach.induct)
  case (reach_step w w')
  from reach_step.hyps(2) reach_step.IH show ?case
    by (cases rule: mon_step.cases) (auto intro: replay_snoc)
qed (simp add: mon_init_def)

lemma interleaving_ok:
  assumes "reach (mon_init s0) (mon_step exec) w" and "ok s0"
  shows "ok (mwState w)" and "is_ok (exec c (mwState w))"
  using replay_ok[OF interleaving_sequential[OF assms(1)] assms(2)] exec_total by auto

end

text \<open>Monitors that pass things through in order: what has come out of the calls so far, followed by
  what the state holds, is what has gone in.\<close>

definition went_in :: "('c \<Rightarrow> 'a list) \<Rightarrow> ('c \<times> 'r) list \<Rightarrow> 'a list" where
  "went_in put l = concat (map (\<lambda>(c, r). put c) l)"

definition came_out :: "('c \<Rightarrow> 'r \<Rightarrow> 'a list) \<Rightarrow> ('c \<times> 'r) list \<Rightarrow> 'a list" where
  "came_out got l = concat (map (\<lambda>(c, r). got c r) l)"

locale fifo_monitor = monitor exec ok
  for exec :: "'c \<Rightarrow> 's \<Rightarrow> ('s, 'v, 'r) outcome res" and ok :: "'s \<Rightarrow> bool" +
  fixes items :: "'s \<Rightarrow> 'a list"
    and put :: "'c \<Rightarrow> 'a list"
    and got :: "'c \<Rightarrow> 'r \<Rightarrow> 'a list"
  assumes call_fifo: "ok s \<Longrightarrow> exec c s = Inr (Returns s' r sigs) \<Longrightarrow> items s @ put c = got c r @ items s'"
begin

lemma replay_fifo: "replay exec l s = Some s' \<Longrightarrow> ok s \<Longrightarrow> items s @ went_in put l = came_out got l @ items s'"
proof (induction l arbitrary: s)
  case (Cons e l)
  obtain c r where e: "e = (c, r)" by (cases e)
  from Cons.prems(1) e obtain s1 sigs where x: "exec c s = Inr (Returns s1 r sigs)" "replay exec l s1 = Some s'"
    by (auto split: sum.splits outcome.splits if_splits)
  have "items s @ went_in put (e # l) = (items s @ put c) @ went_in put l" by (simp add: went_in_def e)
  also have "\<dots> = got c r @ (items s1 @ went_in put l)" using call_fifo[OF Cons.prems(2) x(1)] by simp
  finally show ?case using Cons.IH[OF x(2) exec_ok[OF Cons.prems(2) x(1)]] by (simp add: came_out_def e)
qed (simp add: went_in_def came_out_def)

lemma interleaving_fifo:
  assumes "reach (mon_init s0) (mon_step exec) w" and "ok s0"
  shows "came_out got (mwLog w) @ items (mwState w) = items s0 @ went_in put (mwLog w)"
  using replay_fifo[OF interleaving_sequential[OF assms(1)] assms(2)] by simp

end

subsection \<open>No wake-up is lost\<close>

lemma sum_list_update:
  fixes f :: "'a \<Rightarrow> 'b :: comm_monoid_add"
  shows "i < length xs \<Longrightarrow> sum_list (map f (xs[i := x])) + f (xs ! i) = sum_list (map f xs) + f x"
  by (induction xs arbitrary: i) (auto split: nat.splits simp: nth_Cons ac_simps)

text \<open>The number of threads that hold a call which may block on \<open>v\<close> and are about to try it.\<close>

fun awake_on :: "('c \<Rightarrow> 'v option) \<Rightarrow> 'v \<Rightarrow> ('c, 'v) phase \<Rightarrow> nat" where
  "awake_on bo v (Ready c) = (if bo c = Some v then 1 else 0)"
| "awake_on bo v _ = 0"

definition awake :: "('c \<Rightarrow> 'v option) \<Rightarrow> 'v \<Rightarrow> ('c, 'v) phase list \<Rightarrow> nat" where
  "awake bo v ts = sum_list (map (awake_on bo v) ts)"

text \<open>\<open>room s v\<close> is the number of calls among those that may block on \<open>v\<close> that the state lets
  through: a call that passes takes one, and whoever adds room notifies as many waiters, or all.\<close>

locale signalling_monitor = monitor exec ok
  for exec :: "'c \<Rightarrow> 's \<Rightarrow> ('s, 'v, 'r) outcome res" and ok :: "'s \<Rightarrow> bool" +
  fixes blocks_on :: "'c \<Rightarrow> 'v option"
    and room :: "'s \<Rightarrow> 'v \<Rightarrow> enat"
  assumes blocks_room: "ok s \<Longrightarrow> exec c s = Inr (Blocks v) \<Longrightarrow> blocks_on c = Some v \<and> room s v = 0"
    and returns_room: "ok s \<Longrightarrow> exec c s = Inr (Returns s' r sigs) \<Longrightarrow>
      NotifyAll v \<in> set sigs
      \<or> room s' v + (if blocks_on c = Some v then 1 else 0) \<le> room s v + enat (count_list sigs (NotifyOne v))"
begin

definition waiting :: "'v \<Rightarrow> ('c, 'v) phase list \<Rightarrow> bool" where
  "waiting v ts \<longleftrightarrow> (\<exists>p \<in> set ts. waits_on v p)"

definition well_blocked :: "('c, 'v) phase list \<Rightarrow> bool" where
  "well_blocked ts \<longleftrightarrow> (\<forall>c v. Waiting c v \<in> set ts \<longrightarrow> blocks_on c = Some v)"

lemma awake_update:
  "i < length ts \<Longrightarrow> awake blocks_on v (ts[i := p]) + awake_on blocks_on v (ts ! i) = awake blocks_on v ts + awake_on blocks_on v p"
  unfolding awake_def by (rule sum_list_update)

lemma awake_wake: "awake blocks_on v (map (wake v') ts) \<ge> awake blocks_on v ts"
  unfolding awake_def
proof (induction ts)
  case (Cons p ts)
  have "awake_on blocks_on v p \<le> awake_on blocks_on v (wake v' p)" by (cases p) auto
  with Cons show ?case by simp
qed simp

lemma waiting_wake: "waiting v (map (wake v') ts) \<Longrightarrow> waiting v ts \<and> v \<noteq> v'"
proof -
  have "waits_on v (wake v' p) \<Longrightarrow> waits_on v p \<and> v \<noteq> v'" for p :: "('c, 'v) phase"
    by (cases p) (auto split: if_splits)
  then show "waiting v (map (wake v') ts) \<Longrightarrow> ?thesis" by (auto simp: waiting_def)
qed

lemma waiting_update:
  "waiting v (ts[i := p]) \<Longrightarrow> \<not> waits_on v p \<Longrightarrow> waiting v ts"
  unfolding waiting_def using set_update_subset_insert[of ts i p] by blast

lemma well_blocked_update: "well_blocked ts \<Longrightarrow> (\<And>c v. p = Waiting c v \<Longrightarrow> blocks_on c = Some v) \<Longrightarrow> well_blocked (ts[i := p])"
  unfolding well_blocked_def using set_update_subset_insert[of ts i p] by blast

lemma well_blocked_wake: "well_blocked ts \<Longrightarrow> well_blocked (map (wake v) ts)"
proof -
  have "wake v p = Waiting c v' \<Longrightarrow> p = Waiting c v'" for p :: "('c, 'v) phase" and c v'
    by (cases p) (auto split: if_splits)
  then show "well_blocked ts \<Longrightarrow> ?thesis" unfolding well_blocked_def by (metis (no_types, lifting) imageE list.set_map)
qed

lemma signals_well_blocked: "signals sigs ts ts' \<Longrightarrow> well_blocked ts \<Longrightarrow> well_blocked ts'"
  by (induction rule: signals.induct) (auto intro: well_blocked_update well_blocked_wake)

lemma signals_wake:
  assumes "signals sigs ts ts'" and "well_blocked ts" and "waiting v ts'"
  shows "waiting v ts \<and> NotifyAll v \<notin> set sigs \<and> awake blocks_on v ts + count_list sigs (NotifyOne v) \<le> awake blocks_on v ts'"
  using assms
proof (induction rule: signals.induct)
  case (signal_one i ts c u sigs ts')
  have b: "blocks_on c = Some u"
    using signal_one.prems(1) signal_one.hyps(1,2) nth_mem[of i ts] unfolding well_blocked_def by metis
  have wb: "well_blocked (ts[i := Ready c])" by (rule well_blocked_update[OF signal_one.prems(1)]) simp
  have "awake blocks_on v (ts[i := Ready c]) = awake blocks_on v ts + (if u = v then 1 else 0)"
    using awake_update[OF signal_one.hyps(1), of v "Ready c"] signal_one.hyps(2) b by simp
  with signal_one.IH[OF wb signal_one.prems(2)] show ?case
    using waiting_update[of v ts i "Ready c"] by auto
next
  case (signal_none ts u sigs ts')
  have "u \<noteq> v" if "waiting v ts" using signal_none.hyps(1) that by (auto simp: waiting_def)
  with signal_none.IH[OF signal_none.prems] show ?case by auto
next
  case (signal_all sigs u ts ts')
  from signal_all.IH[OF well_blocked_wake[OF signal_all.prems(1)] signal_all.prems(2)] show ?case
    using waiting_wake[of v u ts] awake_wake[of v ts u] by auto
qed simp_all

definition room_inv :: "('s, 'c, 'v, 'r) mworld \<Rightarrow> bool" where
  "room_inv w \<longleftrightarrow> well_blocked (mwThreads w)
     \<and> (\<forall>v. waiting v (mwThreads w) \<longrightarrow> room (mwState w) v \<le> enat (awake blocks_on v (mwThreads w)))"

lemma room_return:
  assumes "room_inv w" and "ok (mwState w)" and "t < length (mwThreads w)" and "mwThreads w ! t = Ready c"
    and ex: "exec c (mwState w) = Inr (Returns s r sigs)" and sg: "signals sigs ((mwThreads w)[t := Idle]) ts"
    and wt: "waiting v ts"
  shows "room s v \<le> enat (awake blocks_on v ts)"
proof -
  let ?ts = "(mwThreads w)[t := Idle]" and ?n = "if blocks_on c = Some v then 1 else 0 :: nat"
  have wb: "well_blocked ?ts" using assms(1) by (auto simp: room_inv_def intro: well_blocked_update)
  note sw = signals_wake[OF sg wb wt]
  have "waiting v (mwThreads w)" using sw waiting_update[of v "mwThreads w" t Idle] by auto
  then have r: "room (mwState w) v \<le> enat (awake blocks_on v (mwThreads w))" using assms(1) by (auto simp: room_inv_def)
  have a: "awake blocks_on v ?ts + ?n = awake blocks_on v (mwThreads w)" using awake_update[OF assms(3), of v Idle] assms(4) by simp
  have "room s v + enat ?n \<le> room (mwState w) v + enat (count_list sigs (NotifyOne v))"
    using returns_room[OF assms(2) ex, of v] sw by (auto simp: zero_enat_def one_enat_def split: if_splits)
  also have "\<dots> \<le> enat (awake blocks_on v ?ts + ?n + count_list sigs (NotifyOne v))"
    using add_right_mono[OF r, of "enat (count_list sigs (NotifyOne v))"] by (simp add: a)
  also have "\<dots> \<le> enat (awake blocks_on v ts + ?n)" using sw by simp
  finally show ?thesis by (cases "room s v") auto
qed

lemma room_inv_step:
  assumes "room_inv w" and "ok (mwState w)" and "mon_step exec w w'"
  shows "room_inv w'"
  using assms(3)
proof (cases rule: mon_step.cases)
  case (mon_call t c)
  then show ?thesis
    using assms(1) awake_update[of t "mwThreads w" _ "Ready c"] waiting_update[of _ "mwThreads w" t "Ready c"]
      well_blocked_update[of "mwThreads w" "Ready c" t]
    by (fastforce simp: room_inv_def intro: order_trans)
next
  case (mon_spurious t c v)
  then show ?thesis
    using assms(1) awake_update[of t "mwThreads w" _ "Ready c"] waiting_update[of _ "mwThreads w" t "Ready c"]
      well_blocked_update[of "mwThreads w" "Ready c" t]
    by (fastforce simp: room_inv_def intro: order_trans)
next
  case (mon_block t c u)
  note b = blocks_room[OF assms(2) mon_block(4)]
  have "room (mwState w) v \<le> enat (awake blocks_on v ((mwThreads w)[t := Waiting c u]))"
    if "waiting v ((mwThreads w)[t := Waiting c u])" for v
  proof (cases "v = u")
    case True
    then show ?thesis using b by simp
  next
    case False
    then have "waiting v (mwThreads w)" using that waiting_update[of v "mwThreads w" t "Waiting c u"] by auto
    then show ?thesis using assms(1) awake_update[OF mon_block(2), of v "Waiting c u"] mon_block(3) b False
      by (auto simp: room_inv_def)
  qed
  then show ?thesis using assms(1) b mon_block(1) by (auto simp: room_inv_def intro: well_blocked_update)
next
  case (mon_return t c s r sigs ts)
  have wb: "well_blocked ((mwThreads w)[t := Idle])" using assms(1) by (auto simp: room_inv_def intro: well_blocked_update)
  show ?thesis using signals_well_blocked[OF mon_return(5) wb] room_return[OF assms(1,2) mon_return(2-5)] mon_return(1)
    by (simp add: room_inv_def)
qed

lemma no_wakeup_lost:
  assumes "reach (mon_init s0) (mon_step exec) w" and "ok s0" and "p \<in> set (mwThreads w)" and "waits_on v p"
  shows "room (mwState w) v \<le> enat (awake blocks_on v (mwThreads w))"
proof -
  have "room_inv w" using assms(1)
  proof (induction rule: reach.induct)
    case (reach_init w)
    then have "Waiting c v \<notin> set (mwThreads w)" for c v by (auto simp: mon_init_def)
    then have "\<not> waiting v (mwThreads w)" for v unfolding waiting_def by (metis waits_on.elims(2))
    with \<open>\<And>c v. Waiting c v \<notin> set (mwThreads w)\<close> show ?case by (simp add: room_inv_def well_blocked_def)
  next
    case (reach_step w w')
    then show ?case using room_inv_step interleaving_ok(1)[OF reach_step.hyps(1) assms(2)] by blast
  qed
  then show ?thesis using assms(3,4) by (auto simp: room_inv_def waiting_def)
qed

end

end
