(* ===== verification/BlockingQueues.thy ===== *)
theory BlockingQueues
  imports Monitor
begin

text \<open>
  \<open>BlockingQueue\<close>, \<open>BoundedBlockingQueue\<close> and \<open>CountDownLatch\<close> of \<open>muduo/base\<close>: each operation is one
  attempt of a monitor call. The ring of the bounded queue is a \<open>boost::circular_buffer\<close>, whose
  operations are the argument \<open>cb\<close>; \<open>circular_buffer\<close> states what its documentation promises.
\<close>

subsection \<open>BlockingQueue\<close>

datatype queue_cond = NotEmpty | NotFull

datatype 'a queue_ret = RVoid | RItem 'a | RSize nat | RFlag bool

definition bq_put :: "'a \<Rightarrow> 'a list \<Rightarrow> ('a list, queue_cond, 'a queue_ret) outcome res" where
  "bq_put x q = Inr (Returns (q @ [x]) RVoid [NotifyOne NotEmpty])"

definition bq_take :: "'a list \<Rightarrow> ('a list, queue_cond, 'a queue_ret) outcome res" where
  "bq_take q =
     (if q = [] then Inr (Blocks NotEmpty)
      else ensure (q \<noteq> []) ''BlockingQueue::take: !queue_.empty()'' (Inr (Returns (tl q) (RItem (hd q)) [])))"

definition bq_size :: "'a list \<Rightarrow> ('a list, queue_cond, 'a queue_ret) outcome res" where
  "bq_size q = Inr (Returns q (RSize (length q)) [])"

datatype 'a bq_call = BqPut 'a | BqTake | BqSize

fun bq_exec :: "'a bq_call \<Rightarrow> 'a list \<Rightarrow> ('a list, queue_cond, 'a queue_ret) outcome res" where
  "bq_exec (BqPut x) q = bq_put x q"
| "bq_exec BqTake q = bq_take q"
| "bq_exec BqSize q = bq_size q"

subsection \<open>BoundedBlockingQueue\<close>

record ('q, 'a) circular_ops =
  cb_new :: "nat \<Rightarrow> 'q"
  cb_push_back :: "'a \<Rightarrow> 'q \<Rightarrow> 'q"
  cb_front :: "'q \<Rightarrow> 'a"
  cb_pop_front :: "'q \<Rightarrow> 'q"
  cb_empty :: "'q \<Rightarrow> bool"
  cb_full :: "'q \<Rightarrow> bool"
  cb_size :: "'q \<Rightarrow> nat"
  cb_capacity :: "'q \<Rightarrow> nat"

text \<open>\<open>maxSize\<close> is an \<open>int\<close> and becomes a \<open>size_t\<close>.\<close>

definition newBoundedBlockingQueue :: "('q, 'a) circular_ops \<Rightarrow> int \<Rightarrow> 'q" where
  "newBoundedBlockingQueue cb maxSize = cb_new cb (nat (maxSize mod 2 ^ 64))"

definition bbq_put :: "('q, 'a) circular_ops \<Rightarrow> 'a \<Rightarrow> 'q \<Rightarrow> ('q, queue_cond, 'a queue_ret) outcome res" where
  "bbq_put cb x q =
     (if cb_full cb q then Inr (Blocks NotFull)
      else ensure (\<not> cb_full cb q) ''BoundedBlockingQueue::put: !queue_.full()''
        (Inr (Returns (cb_push_back cb x q) RVoid [NotifyOne NotEmpty])))"

definition bbq_take :: "('q, 'a) circular_ops \<Rightarrow> 'q \<Rightarrow> ('q, queue_cond, 'a queue_ret) outcome res" where
  "bbq_take cb q =
     (if cb_empty cb q then Inr (Blocks NotEmpty)
      else ensure (\<not> cb_empty cb q) ''BoundedBlockingQueue::take: !queue_.empty()''
        (Inr (Returns (cb_pop_front cb q) (RItem (cb_front cb q)) [NotifyOne NotFull])))"

definition bbq_empty :: "('q, 'a) circular_ops \<Rightarrow> 'q \<Rightarrow> ('q, queue_cond, 'a queue_ret) outcome res" where
  "bbq_empty cb q = Inr (Returns q (RFlag (cb_empty cb q)) [])"

definition bbq_full :: "('q, 'a) circular_ops \<Rightarrow> 'q \<Rightarrow> ('q, queue_cond, 'a queue_ret) outcome res" where
  "bbq_full cb q = Inr (Returns q (RFlag (cb_full cb q)) [])"

definition bbq_size :: "('q, 'a) circular_ops \<Rightarrow> 'q \<Rightarrow> ('q, queue_cond, 'a queue_ret) outcome res" where
  "bbq_size cb q = Inr (Returns q (RSize (cb_size cb q)) [])"

definition bbq_capacity :: "('q, 'a) circular_ops \<Rightarrow> 'q \<Rightarrow> ('q, queue_cond, 'a queue_ret) outcome res" where
  "bbq_capacity cb q = Inr (Returns q (RSize (cb_capacity cb q)) [])"

datatype 'a bbq_call = BbqPut 'a | BbqTake | BbqEmpty | BbqFull | BbqSize | BbqCapacity

fun bbq_exec :: "('q, 'a) circular_ops \<Rightarrow> 'a bbq_call \<Rightarrow> 'q \<Rightarrow> ('q, queue_cond, 'a queue_ret) outcome res" where
  "bbq_exec cb (BbqPut x) = bbq_put cb x"
| "bbq_exec cb BbqTake = bbq_take cb"
| "bbq_exec cb BbqEmpty = bbq_empty cb"
| "bbq_exec cb BbqFull = bbq_full cb"
| "bbq_exec cb BbqSize = bbq_size cb"
| "bbq_exec cb BbqCapacity = bbq_capacity cb"

subsection \<open>CountDownLatch\<close>

datatype latch_cond = Zero

datatype latch_call = LatchWait | LatchCountDown | LatchGetCount

definition latch_wait :: "int \<Rightarrow> (int, latch_cond, int option) outcome res" where
  "latch_wait count = (if count > 0 then Inr (Blocks Zero) else Inr (Returns count None []))"

definition latch_countDown :: "int \<Rightarrow> (int, latch_cond, int option) outcome res" where
  "latch_countDown count =
     (let count' = count - 1 in Inr (Returns count' None (if count' = 0 then [NotifyAll Zero] else [])))"

definition latch_getCount :: "int \<Rightarrow> (int, latch_cond, int option) outcome res" where
  "latch_getCount count = Inr (Returns count (Some count) [])"

fun latch_exec :: "latch_call \<Rightarrow> int \<Rightarrow> (int, latch_cond, int option) outcome res" where
  "latch_exec LatchWait = latch_wait"
| "latch_exec LatchCountDown = latch_countDown"
| "latch_exec LatchGetCount = latch_getCount"

subsection \<open>What they are monitors of\<close>

fun item_got :: "'c \<Rightarrow> 'a queue_ret \<Rightarrow> 'a list" where
  "item_got c (RItem x) = [x]"
| "item_got c _ = []"

fun bq_added :: "'a bq_call \<Rightarrow> 'a list" where
  "bq_added (BqPut x) = [x]"
| "bq_added _ = []"

fun bq_blocks :: "'a bq_call \<Rightarrow> queue_cond option" where
  "bq_blocks BqTake = Some NotEmpty"
| "bq_blocks _ = None"

fun bq_room :: "'a list \<Rightarrow> queue_cond \<Rightarrow> enat" where
  "bq_room q NotEmpty = enat (length q)"
| "bq_room q NotFull = 0"

lemmas bq_defs = bq_put_def bq_take_def bq_size_def

interpretation bq: fifo_monitor bq_exec "\<lambda>_. True" "\<lambda>q. q" bq_added item_got
proof unfold_locales
  fix s :: "'a list" and c s' r sigs
  show "is_ok (bq_exec c s)" by (cases c) (simp_all add: bq_defs)
  assume "bq_exec c s = Inr (Returns s' r sigs)"
  then show "s @ bq_added c = item_got c r @ s'" by (cases c) (auto simp: bq_defs split: if_splits)
qed simp

interpretation bq_live: signalling_monitor bq_exec "\<lambda>_. True" bq_blocks bq_room
proof unfold_locales
  fix s :: "'a list" and c v s' r sigs
  show "bq_exec c s = Inr (Blocks v) \<Longrightarrow> bq_blocks c = Some v \<and> bq_room s v = 0"
    by (cases c) (auto simp: bq_defs zero_enat_def split: if_splits)
  assume "bq_exec c s = Inr (Returns s' r sigs)"
  then show "NotifyAll v \<in> set sigs \<or> bq_room s' v + (if bq_blocks c = Some v then 1 else 0)
      \<le> bq_room s v + enat (count_list sigs (NotifyOne v))"
    by (cases c; cases v) (auto simp: bq_defs zero_enat_def one_enat_def split: if_splits)
qed

text \<open>The documented behaviour of \<open>boost::circular_buffer\<close>, \<open>items\<close> being its elements from front to
  back; \<open>push_back\<close> is only relied on when the buffer is not full, \<open>front\<close> and \<open>pop_front\<close> when it is
  not empty.\<close>

definition circular_buffer :: "('q, 'a) circular_ops \<Rightarrow> ('q \<Rightarrow> 'a list) \<Rightarrow> bool" where
  "circular_buffer cb items \<longleftrightarrow>
     (\<forall>n. items (cb_new cb n) = [] \<and> cb_capacity cb (cb_new cb n) = n)
   \<and> (\<forall>q. cb_empty cb q = (items q = []) \<and> cb_full cb q = (length (items q) = cb_capacity cb q) \<and> cb_size cb q = length (items q))
   \<and> (\<forall>q x. \<not> cb_full cb q \<longrightarrow> items (cb_push_back cb x q) = items q @ [x] \<and> cb_capacity cb (cb_push_back cb x q) = cb_capacity cb q)
   \<and> (\<forall>q. items q \<noteq> [] \<longrightarrow> cb_front cb q = hd (items q) \<and> items (cb_pop_front cb q) = tl (items q)
        \<and> cb_capacity cb (cb_pop_front cb q) = cb_capacity cb q)"

lemma circular_bufferD:
  assumes "circular_buffer cb items"
  shows "items (cb_new cb n) = []" "cb_capacity cb (cb_new cb n) = n"
    and "cb_empty cb q = (items q = [])" "cb_full cb q = (length (items q) = cb_capacity cb q)" "cb_size cb q = length (items q)"
    and "length (items q) \<noteq> cb_capacity cb q \<Longrightarrow> items (cb_push_back cb x q) = items q @ [x]"
    and "length (items q) \<noteq> cb_capacity cb q \<Longrightarrow> cb_capacity cb (cb_push_back cb x q) = cb_capacity cb q"
    and "items q \<noteq> [] \<Longrightarrow> cb_front cb q = hd (items q)" "items q \<noteq> [] \<Longrightarrow> items (cb_pop_front cb q) = tl (items q)"
    and "items q \<noteq> [] \<Longrightarrow> cb_capacity cb (cb_pop_front cb q) = cb_capacity cb q"
  using assms by (auto simp: circular_buffer_def)

definition bbq_ok :: "('q, 'a) circular_ops \<Rightarrow> ('q \<Rightarrow> 'a list) \<Rightarrow> nat \<Rightarrow> 'q \<Rightarrow> bool" where
  "bbq_ok cb items n q \<longleftrightarrow> cb_capacity cb q = n \<and> length (items q) \<le> n"

fun bbq_added :: "'a bbq_call \<Rightarrow> 'a list" where
  "bbq_added (BbqPut x) = [x]"
| "bbq_added _ = []"

fun bbq_blocks :: "'a bbq_call \<Rightarrow> queue_cond option" where
  "bbq_blocks (BbqPut _) = Some NotFull"
| "bbq_blocks BbqTake = Some NotEmpty"
| "bbq_blocks _ = None"

fun bbq_room :: "('q \<Rightarrow> 'a list) \<Rightarrow> nat \<Rightarrow> 'q \<Rightarrow> queue_cond \<Rightarrow> enat" where
  "bbq_room items n q NotEmpty = enat (length (items q))"
| "bbq_room items n q NotFull = enat (n - length (items q))"

lemmas bbq_defs = bbq_put_def bbq_take_def bbq_empty_def bbq_full_def bbq_size_def bbq_capacity_def

lemma bbq_fifo_monitor:
  assumes cb: "circular_buffer cb items"
  shows "fifo_monitor (bbq_exec cb) (bbq_ok cb items n) items bbq_added item_got"
proof unfold_locales
  note d = circular_bufferD[OF cb]
  fix s c s' r sigs
  show "is_ok (bbq_exec cb c s)" by (cases c) (simp_all add: bbq_defs)
  assume ok: "bbq_ok cb items n s" and ex: "bbq_exec cb c s = Inr (Returns s' r sigs)"
  show "bbq_ok cb items n s'"
  proof (cases c)
    case (BbqPut x)
    then show ?thesis using ok ex by (auto simp: bbq_defs bbq_ok_def d split: if_splits)
  qed (use ok ex in \<open>auto simp: bbq_defs bbq_ok_def d split: if_splits\<close>)
  show "items s @ bbq_added c = item_got c r @ items s'"
    using ok ex by (cases c) (auto simp: bbq_defs bbq_ok_def d split: if_splits)
qed

lemma bbq_signalling_monitor:
  assumes cb: "circular_buffer cb items"
  shows "signalling_monitor (bbq_exec cb) (bbq_ok cb items n) bbq_blocks (bbq_room items n)"
proof (rule signalling_monitor.intro)
  note d = circular_bufferD[OF cb]
  from bbq_fifo_monitor[OF cb] show "monitor (bbq_exec cb) (bbq_ok cb items n)" by (simp add: fifo_monitor_def)
  show "signalling_monitor_axioms (bbq_exec cb) (bbq_ok cb items n) bbq_blocks (bbq_room items n)"
  proof
    fix s c v s' r sigs
    assume ok: "bbq_ok cb items n s"
    show "bbq_exec cb c s = Inr (Blocks v) \<Longrightarrow> bbq_blocks c = Some v \<and> bbq_room items n s v = 0"
      using ok by (cases c) (auto simp: bbq_defs bbq_ok_def d zero_enat_def split: if_splits)
    assume ex: "bbq_exec cb c s = Inr (Returns s' r sigs)"
    have len: "0 < length (items s)" if "items s \<noteq> []" using that by simp
    show "NotifyAll v \<in> set sigs \<or> bbq_room items n s' v + (if bbq_blocks c = Some v then 1 else 0)
        \<le> bbq_room items n s v + enat (count_list sigs (NotifyOne v))"
      using ok ex by (cases c; cases v) (auto simp: bbq_defs bbq_ok_def d one_enat_def zero_enat_def split: if_splits)
  qed
qed

fun latch_blocks :: "latch_call \<Rightarrow> latch_cond option" where
  "latch_blocks LatchWait = Some Zero"
| "latch_blocks _ = None"

definition latch_room :: "int \<Rightarrow> latch_cond \<Rightarrow> enat" where
  "latch_room count v = (if count > 0 then 0 else \<infinity>)"

lemmas latch_defs = latch_wait_def latch_countDown_def latch_getCount_def latch_room_def Let_def

interpretation latch: signalling_monitor latch_exec "\<lambda>_. True" latch_blocks latch_room
proof unfold_locales
  fix s c v s' r sigs
  show "is_ok (latch_exec c s)" by (cases c) (simp_all add: latch_defs)
  show "latch_exec c s = Inr (Blocks v) \<Longrightarrow> latch_blocks c = Some v \<and> latch_room s v = 0"
    by (cases c; cases v) (auto simp: latch_defs split: if_splits)
  assume "latch_exec c s = Inr (Returns s' r sigs)"
  then show "NotifyAll v \<in> set sigs \<or> latch_room s' v + (if latch_blocks c = Some v then 1 else 0)
      \<le> latch_room s v + enat (count_list sigs (NotifyOne v))"
    by (cases c; cases v) (auto simp: latch_defs split: if_splits)
qed simp

subsection \<open>Properties\<close>

lemma new_bbq_ok:
  assumes "circular_buffer cb items" and "0 \<le> maxSize" and "maxSize < 2 ^ 31"
  shows "bbq_ok cb items (nat maxSize) (newBoundedBlockingQueue cb maxSize)"
    and "items (newBoundedBlockingQueue cb maxSize) = []"
  using circular_bufferD(1,2)[OF assms(1)] assms(2,3) by (simp_all add: bbq_ok_def newBoundedBlockingQueue_def)

text \<open>
  Property C35. Whatever any number of producer and consumer threads do with a bounded queue, in any
  interleaving and with any spurious wake-ups: what has been taken followed by what is in the queue
  is what has been put, in the order in which the calls returned, so nothing is lost, duplicated or
  reordered; the queue never holds more than \<open>maxSize\<close> elements; and no assertion fails.
\<close>

theorem bounded_queue_fifo:
  assumes "circular_buffer cb items" and "0 \<le> maxSize" and "maxSize < 2 ^ 31"
    and "reach (mon_init (newBoundedBlockingQueue cb maxSize)) (mon_step (bbq_exec cb)) w"
  shows "came_out item_got (mwLog w) @ items (mwState w) = went_in bbq_added (mwLog w)
    \<and> length (items (mwState w)) \<le> nat maxSize \<and> is_ok (bbq_exec cb c (mwState w))"
proof (intro conjI)
  note m = bbq_fifo_monitor[OF assms(1), of "nat maxSize"] and n = new_bbq_ok[OF assms(1-3)]
  note mon = fifo_monitor.axioms(1)[OF m]
  show "came_out item_got (mwLog w) @ items (mwState w) = went_in bbq_added (mwLog w)"
    using fifo_monitor.interleaving_fifo[OF m assms(4) n(1)] n(2) by simp
  show "length (items (mwState w)) \<le> nat maxSize"
    using monitor.interleaving_ok(1)[OF mon assms(4) n(1)] by (simp add: bbq_ok_def)
  show "is_ok (bbq_exec cb c (mwState w))" by (rule monitor.interleaving_ok(2)[OF mon assms(4) n(1)])
qed

text \<open>A ring kept as its capacity and its elements, and a run in which one thread puts and another
  takes.\<close>

definition list_ring :: "(nat \<times> 'a list, 'a) circular_ops" where
  "list_ring = \<lparr>cb_new = (\<lambda>n. (n, [])), cb_push_back = (\<lambda>x (n, l). (n, l @ [x])), cb_front = (\<lambda>(n, l). hd l),
     cb_pop_front = (\<lambda>(n, l). (n, tl l)), cb_empty = (\<lambda>(n, l). l = []), cb_full = (\<lambda>(n, l). length l = n),
     cb_size = (\<lambda>(n, l). length l), cb_capacity = fst\<rparr>"

lemma list_ring_circular: "circular_buffer list_ring snd"
  by (auto simp: circular_buffer_def list_ring_def)

definition ring_world ::
  "nat list \<Rightarrow> (nat bbq_call, queue_cond) phase list \<Rightarrow> (nat bbq_call \<times> nat queue_ret) list \<Rightarrow>
   (nat \<times> nat list, nat bbq_call, queue_cond, nat queue_ret) mworld" where
  "ring_world q ts l = \<lparr>mwState = (1, q), mwThreads = ts, mwLog = l\<rparr>"

lemma ring_reach:
  "reach (mon_init (newBoundedBlockingQueue list_ring 1)) (mon_step (bbq_exec list_ring)) (ring_world [] [Idle, Waiting BbqTake NotEmpty] [])"
  "reach (mon_init (newBoundedBlockingQueue list_ring 1)) (mon_step (bbq_exec list_ring)) (ring_world [5] [Idle, Ready BbqTake] [(BbqPut 5, RVoid)])"
proof -
  let ?R = "\<lambda>q ts l. reach (mon_init (newBoundedBlockingQueue list_ring 1)) (mon_step (bbq_exec list_ring)) (ring_world q ts l)"
  have 0: "?R [] [Idle, Idle] []"
    by (rule reach_init) (simp add: mon_init_def ring_world_def newBoundedBlockingQueue_def list_ring_def)
  have 1: "?R [] [Idle, Ready BbqTake] []"
    using reach_step[OF 0 mon_call[of 1 _ _ BbqTake]] by (simp add: ring_world_def)
  show 2: "?R [] [Idle, Waiting BbqTake NotEmpty] []"
    using reach_step[OF 1 mon_block[of 1 _ BbqTake _ NotEmpty]] by (simp add: ring_world_def bbq_defs list_ring_def)
  have 3: "?R [] [Ready (BbqPut 5), Waiting BbqTake NotEmpty] []"
    using reach_step[OF 2 mon_call[of 0 _ _ "BbqPut 5"]] by (simp add: ring_world_def)
  have ex: "bbq_exec list_ring (BbqPut 5) (mwState (ring_world [] [Ready (BbqPut 5), Waiting BbqTake NotEmpty] []))
      = Inr (Returns (1, [5]) RVoid [NotifyOne NotEmpty])" by (simp add: ring_world_def bbq_defs list_ring_def)
  have sg: "signals [NotifyOne NotEmpty] [Idle, Waiting BbqTake NotEmpty] [Idle, Ready BbqTake]"
    by (rule signal_one[of 1]) (auto intro: no_signal)
  show "?R [5] [Idle, Ready BbqTake] [(BbqPut 5, RVoid)]"
    using reach_step[OF 3 mon_return[where t = 0 and c = "BbqPut 5" and s = "(1, [5])" and r = RVoid
        and sigs = "[NotifyOne NotEmpty]" and ts = "[Idle, Ready BbqTake]"]] ex sg by (simp add: ring_world_def)
qed

theorem bounded_queue_fifo_witness:
  "\<exists>w. reach (mon_init (newBoundedBlockingQueue list_ring 1)) (mon_step (bbq_exec list_ring)) w
     \<and> snd (mwState w) = [5 :: nat] \<and> came_out item_got (mwLog w) @ snd (mwState w) = went_in bbq_added (mwLog w)"
  using bounded_queue_fifo[OF list_ring_circular _ _ ring_reach(2)] ring_reach(2)
  by (intro exI[of _ "ring_world [5] [Idle, Ready BbqTake] [(BbqPut 5, RVoid)]"]) (simp add: ring_world_def)

text \<open>
  Property C36. No thread of a bounded queue sleeps through its chance: while a consumer waits, at most
  as many elements are in the queue as consumers are awake to take them; while a producer waits, at
  most as many places are free as producers are awake; and a queue of positive capacity never has a
  consumer and a producer waiting with no thread awake, so one \<open>notify\<close> per call is enough and the
  threads cannot deadlock.
\<close>

theorem bounded_queue_no_lost_wakeup:
  assumes "circular_buffer cb items" and "0 < maxSize" and "maxSize < 2 ^ 31"
    and "reach (mon_init (newBoundedBlockingQueue cb maxSize)) (mon_step (bbq_exec cb)) w"
  shows "((\<exists>p \<in> set (mwThreads w). waits_on NotEmpty p) \<longrightarrow> length (items (mwState w)) \<le> awake bbq_blocks NotEmpty (mwThreads w))
    \<and> ((\<exists>p \<in> set (mwThreads w). waits_on NotFull p) \<longrightarrow> nat maxSize - length (items (mwState w)) \<le> awake bbq_blocks NotFull (mwThreads w))
    \<and> ((\<exists>p \<in> set (mwThreads w). waits_on NotEmpty p) \<and> (\<exists>p \<in> set (mwThreads w). waits_on NotFull p)
         \<longrightarrow> (\<exists>c. Ready c \<in> set (mwThreads w)))"
proof (intro conjI impI)
  note m = bbq_signalling_monitor[OF assms(1), of "nat maxSize"]
  have n: "bbq_ok cb items (nat maxSize) (newBoundedBlockingQueue cb maxSize)"
    using new_bbq_ok(1)[OF assms(1)] assms(2,3) by simp
  note lost = signalling_monitor.no_wakeup_lost[OF m assms(4) n]
  show e: "length (items (mwState w)) \<le> awake bbq_blocks NotEmpty (mwThreads w)" if "\<exists>p \<in> set (mwThreads w). waits_on NotEmpty p"
    using that lost[of _ NotEmpty] by auto
  show f: "nat maxSize - length (items (mwState w)) \<le> awake bbq_blocks NotFull (mwThreads w)"
    if "\<exists>p \<in> set (mwThreads w). waits_on NotFull p"
    using that lost[of _ NotFull] by auto
  assume "(\<exists>p \<in> set (mwThreads w). waits_on NotEmpty p) \<and> (\<exists>p \<in> set (mwThreads w). waits_on NotFull p)"
  then have ww: "\<exists>p \<in> set (mwThreads w). waits_on NotEmpty p" "\<exists>p \<in> set (mwThreads w). waits_on NotFull p" by blast+
  show "\<exists>c. Ready c \<in> set (mwThreads w)"
  proof (rule ccontr)
    assume "\<not> ?thesis"
    then have "awake_on bbq_blocks v p = 0" if "p \<in> set (mwThreads w)" for v p using that by (cases p) auto
    then have "awake bbq_blocks v (mwThreads w) = 0" for v by (auto simp: awake_def)
    with e[OF ww(1)] f[OF ww(2)] assms(2) show False by simp
  qed
qed

theorem bounded_queue_no_lost_wakeup_witness:
  "\<exists>w. reach (mon_init (newBoundedBlockingQueue list_ring 1)) (mon_step (bbq_exec list_ring)) w
     \<and> mwThreads w = [Idle, Waiting (BbqTake :: nat bbq_call) NotEmpty]
     \<and> length (snd (mwState w)) \<le> awake bbq_blocks NotEmpty (mwThreads w)"
proof -
  let ?w = "ring_world [] [Idle, Waiting BbqTake NotEmpty] []"
  have "length (snd (mwState ?w)) \<le> awake bbq_blocks NotEmpty (mwThreads ?w)"
    using bounded_queue_no_lost_wakeup[OF list_ring_circular _ _ ring_reach(1)] by (simp add: ring_world_def)
  with ring_reach(1) show ?thesis by (intro exI[of _ ?w]) (simp add: ring_world_def)
qed

text \<open>The unbounded queue has the same order and never leaves a consumer asleep over an element.\<close>

lemma blocking_queue_fifo:
  "reach (mon_init []) (mon_step bq_exec) w \<Longrightarrow> came_out item_got (mwLog w) @ mwState w = went_in bq_added (mwLog w)"
  using bq.interleaving_fifo[of "[]" w] by simp

lemma blocking_queue_no_lost_wakeup:
  "reach (mon_init []) (mon_step bq_exec) w \<Longrightarrow> p \<in> set (mwThreads w) \<Longrightarrow> waits_on NotEmpty p
   \<Longrightarrow> length (mwState w) \<le> awake bq_blocks NotEmpty (mwThreads w)"
  using bq_live.no_wakeup_lost[of "[]" w p NotEmpty] by simp

definition count_downs :: "(latch_call \<times> int option) list \<Rightarrow> int" where
  "count_downs l = int (count_list (map fst l) LatchCountDown)"

lemma latch_replay:
  "replay latch_exec l s = Some s' \<Longrightarrow> s' = s - count_downs l \<and> (LatchWait \<in> fst ` set l \<longrightarrow> s - count_downs l \<le> 0)"
proof (induction l arbitrary: s)
  case (Cons e l)
  obtain c r where e: "e = (c, r)" by (cases e)
  have "0 \<le> count_downs l" by (simp add: count_downs_def)
  then show ?case using Cons.prems Cons.IH[of s] Cons.IH[of "s - 1"] e by (cases c) (auto simp: latch_defs count_downs_def split: if_splits)
qed (simp add: count_downs_def)

text \<open>
  A latch constructed with \<open>n\<close>: no \<open>wait()\<close> returns before \<open>countDown()\<close> was called \<open>n\<close>
  times, the counter is \<open>n\<close> minus the calls made, and once it has reached zero no thread is left
  waiting.
\<close>

theorem latch_opens_at_zero:
  assumes "reach (mon_init n) (mon_step latch_exec) w"
  shows "mwState w = n - count_downs (mwLog w)
    \<and> (LatchWait \<in> fst ` set (mwLog w) \<longrightarrow> n \<le> count_downs (mwLog w))
    \<and> (n \<le> count_downs (mwLog w) \<longrightarrow> (\<forall>p \<in> set (mwThreads w). \<not> waits_on Zero p))"
proof (intro conjI impI ballI)
  note r = latch_replay[OF latch.interleaving_sequential[OF assms]]
  show s: "mwState w = n - count_downs (mwLog w)" using r by simp
  show "LatchWait \<in> fst ` set (mwLog w) \<Longrightarrow> n \<le> count_downs (mwLog w)" using r by simp
  show "\<not> waits_on Zero p" if "n \<le> count_downs (mwLog w)" "p \<in> set (mwThreads w)" for p
    using latch.no_wakeup_lost[OF assms _ that(2), of Zero] that(1) s by (auto simp: latch_room_def)
qed

theorem latch_opens_at_zero_witness:
  "\<exists>w. reach (mon_init 1) (mon_step latch_exec) w \<and> mwState w = 1 \<and> mwThreads w = [Waiting LatchWait Zero]
     \<and> mwState w = 1 - count_downs (mwLog w)"
proof -
  let ?W = "\<lambda>p. \<lparr>mwState = 1, mwThreads = [p], mwLog = []\<rparr> :: (int, latch_call, latch_cond, int option) mworld"
  have 0: "reach (mon_init 1) (mon_step latch_exec) (?W Idle)" by (rule reach_init) (simp add: mon_init_def)
  have 1: "reach (mon_init 1) (mon_step latch_exec) (?W (Ready LatchWait))"
    using reach_step[OF 0 mon_call[of 0 _ _ LatchWait]] by simp
  have 2: "reach (mon_init 1) (mon_step latch_exec) (?W (Waiting LatchWait Zero))"
    using reach_step[OF 1 mon_block[of 0 _ LatchWait _ Zero]] by (simp add: latch_defs)
  then show ?thesis using latch_opens_at_zero[OF 2] by (intro exI[of _ "?W (Waiting LatchWait Zero)"]) simp
qed

end
