(* ===== verification/ThreadPool.thy ===== *)
theory ThreadPool
  imports Monitor StdText "HOL-Library.Multiset"
begin

text \<open>
  \<open>muduo::ThreadPool\<close> (\<open>muduo/base/ThreadPool.h\<close>, \<open>ThreadPool.cc\<close>): a task queue under a mutex, the
  worker threads that run \<open>runInThread\<close>, and clients that submit tasks and stop the pool. \<open>run\<close>,
  \<open>take\<close> and \<open>stop\<close> are calls of a monitor; \<open>pool_step\<close> interleaves the workers' loops with any
  number of clients.
\<close>

subsection \<open>The pool\<close>

record 'a pool =
  poName :: string
  poThreads :: "string list"
  poQueue :: "'a list"
  poRunning :: bool

definition newThreadPool :: "string \<Rightarrow> 'a pool" where
  "newThreadPool name = \<lparr>poName = name, poThreads = [], poQueue = [], poRunning = False\<rparr>"

definition pool_start :: "nat \<Rightarrow> 'a pool \<Rightarrow> 'a pool res" where
  "pool_start numThreads p =
     ensure (poThreads p = []) ''ThreadPool::start: threads_.empty()''
     (Inr (p\<lparr>poRunning := True, poThreads := map (\<lambda>i. poName p @ snprintf 32 (dec_nat i)) [0..<numThreads]\<rparr>))"

datatype pool_cond = Cond

datatype 'a pool_ret = PoolVoid | PoolRanHere 'a | PoolTask "'a option"

text \<open>The part of \<open>stop\<close> under the mutex; the join of the workers follows it.\<close>

definition pool_stop :: "'a pool \<Rightarrow> ('a pool, pool_cond, 'a pool_ret) outcome res" where
  "pool_stop p = Inr (Returns (p\<lparr>poRunning := False\<rparr>) PoolVoid [NotifyAll Cond])"

text \<open>A pool without threads runs the task in the caller.\<close>

definition pool_run :: "'a \<Rightarrow> 'a pool \<Rightarrow> ('a pool, pool_cond, 'a pool_ret) outcome res" where
  "pool_run task p =
     (if poThreads p = [] then Inr (Returns p (PoolRanHere task) [])
      else Inr (Returns (p\<lparr>poQueue := poQueue p @ [task]\<rparr>) PoolVoid [NotifyOne Cond]))"

definition pool_take :: "'a pool \<Rightarrow> ('a pool, pool_cond, 'a pool_ret) outcome res" where
  "pool_take p =
     (if poQueue p = [] \<and> poRunning p then Inr (Blocks Cond)
      else if poQueue p \<noteq> [] then Inr (Returns (p\<lparr>poQueue := tl (poQueue p)\<rparr>) (PoolTask (Some (hd (poQueue p)))) [])
      else Inr (Returns p (PoolTask None) []))"

datatype 'a pool_call = PoolRun 'a | PoolTake | PoolStop

fun pool_exec :: "'a pool_call \<Rightarrow> 'a pool \<Rightarrow> ('a pool, pool_cond, 'a pool_ret) outcome res" where
  "pool_exec (PoolRun task) = pool_run task"
| "pool_exec PoolTake = pool_take"
| "pool_exec PoolStop = pool_stop"

subsection \<open>The workers\<close>

text \<open>Where a worker is in \<open>runInThread\<close>: at the loop's test, in \<open>take\<close>, with what \<open>take\<close> returned in
  hand, or gone. A task that throws takes the process down.\<close>

datatype 'a worker_pc = WTest | WTake | WGot "'a option" | WExit

datatype exn = ExnMuduo | ExnStd | ExnOther

definition worker_run :: "('a \<Rightarrow> exn option) \<Rightarrow> 'a option \<Rightarrow> 'a list res" where
  "worker_run throws r =
     (case r of
        None \<Rightarrow> Inr []
      | Some task \<Rightarrow>
          (case throws task of
             None \<Rightarrow> Inr [task]
           | Some ExnMuduo \<Rightarrow> Inl (Aborted ''exception caught in ThreadPool'')
           | Some ExnStd \<Rightarrow> Inl (Aborted ''exception caught in ThreadPool'')
           | Some ExnOther \<Rightarrow> Inl (Thrown ''unknown exception caught in ThreadPool'')))"

definition worker_test :: "'a pool \<Rightarrow> 'a worker_pc" where
  "worker_test p = (if poRunning p then WTake else WExit)"

record 'a pool_world =
  pwMon :: "('a pool, 'a pool_call, pool_cond, 'a pool_ret) mworld"
  pwPc :: "'a worker_pc list"
  pwRan :: "'a list"

text \<open>Threads \<open>0 ..< length pwPc\<close> are the workers, the others clients.\<close>

definition pool_init :: "'a pool \<Rightarrow> 'a pool_world \<Rightarrow> bool" where
  "pool_init p w \<longleftrightarrow> mon_init p (pwMon w) \<and> length (pwPc w) = length (poThreads p)
     \<and> length (pwPc w) \<le> length (mwThreads (pwMon w)) \<and> set (pwPc w) \<subseteq> {WTest} \<and> pwRan w = []"

inductive pool_step :: "('a \<Rightarrow> exn option) \<Rightarrow> 'a pool_world \<Rightarrow> 'a pool_world \<Rightarrow> bool" for throws :: "'a \<Rightarrow> exn option" where
  worker_enters: "t < length (pwPc w) \<Longrightarrow> pwPc w ! t = WTest \<Longrightarrow> worker_test (mwState (pwMon w)) = WTake \<Longrightarrow>
    mwThreads (pwMon w) ! t = Idle \<Longrightarrow> t < length (mwThreads (pwMon w)) \<Longrightarrow>
    m = (pwMon w)\<lparr>mwThreads := (mwThreads (pwMon w))[t := Ready PoolTake]\<rparr> \<Longrightarrow>
    pool_step throws w (w\<lparr>pwMon := m, pwPc := (pwPc w)[t := WTake]\<rparr>)"
| worker_leaves: "t < length (pwPc w) \<Longrightarrow> pwPc w ! t = WTest \<Longrightarrow> worker_test (mwState (pwMon w)) = WExit \<Longrightarrow>
    pool_step throws w (w\<lparr>pwPc := (pwPc w)[t := WExit]\<rparr>)"
| worker_takes: "t < length (pwPc w) \<Longrightarrow> pwPc w ! t = WTake \<Longrightarrow> t < length (mwThreads (pwMon w)) \<Longrightarrow> mwThreads (pwMon w) ! t = Ready PoolTake \<Longrightarrow>
    pool_take (mwState (pwMon w)) = Inr (Returns s (PoolTask r) sigs) \<Longrightarrow> signals sigs ((mwThreads (pwMon w))[t := Idle]) ts \<Longrightarrow>
    m = (pwMon w)\<lparr>mwState := s, mwThreads := ts, mwLog := mwLog (pwMon w) @ [(PoolTake, PoolTask r)]\<rparr> \<Longrightarrow>
    pool_step throws w (w\<lparr>pwMon := m, pwPc := (pwPc w)[t := WGot r]\<rparr>)"
| worker_runs: "t < length (pwPc w) \<Longrightarrow> pwPc w ! t = WGot r \<Longrightarrow> worker_run throws r = Inr did \<Longrightarrow>
    pool_step throws w (w\<lparr>pwPc := (pwPc w)[t := WTest], pwRan := pwRan w @ did\<rparr>)"
| client_calls: "length (pwPc w) \<le> t \<Longrightarrow> t < length (mwThreads (pwMon w)) \<Longrightarrow> mwThreads (pwMon w) ! t = Idle \<Longrightarrow> c \<noteq> PoolTake \<Longrightarrow>
    m = (pwMon w)\<lparr>mwThreads := (mwThreads (pwMon w))[t := Ready c]\<rparr> \<Longrightarrow>
    pool_step throws w (w\<lparr>pwMon := m\<rparr>)"
| client_returns: "length (pwPc w) \<le> t \<Longrightarrow> t < length (mwThreads (pwMon w)) \<Longrightarrow> mwThreads (pwMon w) ! t = Ready c \<Longrightarrow> c \<noteq> PoolTake \<Longrightarrow>
    pool_exec c (mwState (pwMon w)) = Inr (Returns s r sigs) \<Longrightarrow> signals sigs ((mwThreads (pwMon w))[t := Idle]) ts \<Longrightarrow>
    m = (pwMon w)\<lparr>mwState := s, mwThreads := ts, mwLog := mwLog (pwMon w) @ [(c, r)]\<rparr> \<Longrightarrow>
    pool_step throws w (w\<lparr>pwMon := m\<rparr>)"
| pool_blocks: "t < length (mwThreads (pwMon w)) \<Longrightarrow> mwThreads (pwMon w) ! t = Ready c \<Longrightarrow> pool_exec c (mwState (pwMon w)) = Inr (Blocks v) \<Longrightarrow>
    m = (pwMon w)\<lparr>mwThreads := (mwThreads (pwMon w))[t := Waiting c v]\<rparr> \<Longrightarrow>
    pool_step throws w (w\<lparr>pwMon := m\<rparr>)"
| pool_spurious: "t < length (mwThreads (pwMon w)) \<Longrightarrow> mwThreads (pwMon w) ! t = Waiting c v \<Longrightarrow>
    m = (pwMon w)\<lparr>mwThreads := (mwThreads (pwMon w))[t := Ready c]\<rparr> \<Longrightarrow>
    pool_step throws w (w\<lparr>pwMon := m\<rparr>)"

subsection \<open>The pool as a monitor\<close>

fun task_in :: "'a pool_call \<Rightarrow> 'a list" where
  "task_in (PoolRun task) = [task]"
| "task_in _ = []"

fun task_out :: "'a pool_call \<Rightarrow> 'a pool_ret \<Rightarrow> 'a list" where
  "task_out c (PoolTask (Some task)) = [task]"
| "task_out c _ = []"

fun pool_blocks_on :: "'a pool_call \<Rightarrow> pool_cond option" where
  "pool_blocks_on PoolTake = Some Cond"
| "pool_blocks_on _ = None"

definition pool_room :: "'a pool \<Rightarrow> pool_cond \<Rightarrow> enat" where
  "pool_room p v = (if poRunning p then enat (length (poQueue p)) else \<infinity>)"

lemmas pool_defs = pool_run_def pool_take_def pool_stop_def

interpretation tp: fifo_monitor pool_exec "\<lambda>p. poThreads p \<noteq> []" poQueue task_in task_out
proof unfold_locales
  fix s :: "'a pool" and c s' r sigs
  show "is_ok (pool_exec c s)" by (cases c) (simp_all add: pool_defs)
  assume "poThreads s \<noteq> []" "pool_exec c s = Inr (Returns s' r sigs)"
  then show "poThreads s' \<noteq> []" "poQueue s @ task_in c = task_out c r @ poQueue s'"
    by (cases c; auto simp: pool_defs split: if_splits)+
qed

interpretation tp_live: signalling_monitor pool_exec "\<lambda>p. poThreads p \<noteq> []" pool_blocks_on pool_room
proof unfold_locales
  fix s :: "'a pool" and c v s' r sigs
  assume "poThreads s \<noteq> []"
  show "pool_exec c s = Inr (Blocks v) \<Longrightarrow> pool_blocks_on c = Some v \<and> pool_room s v = 0"
    by (cases c) (auto simp: pool_defs pool_room_def zero_enat_def split: if_splits)
  assume "pool_exec c s = Inr (Returns s' r sigs)"
  then show "NotifyAll v \<in> set sigs \<or> pool_room s' v + (if pool_blocks_on c = Some v then 1 else 0)
      \<le> pool_room s v + enat (count_list sigs (NotifyOne v))"
    by (cases c; cases v) (auto simp: pool_defs pool_room_def one_enat_def zero_enat_def split: if_splits)
qed

lemma pool_step_mon: "pool_step throws w w' \<Longrightarrow> pwMon w' = pwMon w \<or> mon_step pool_exec (pwMon w) (pwMon w')"
  by (erule pool_step.cases) (auto intro: mon_call mon_block mon_return mon_spurious)

lemma pool_reach_mon:
  assumes "reach (pool_init p) (pool_step throws) w"
  shows "reach (mon_init p) (mon_step pool_exec) (pwMon w)"
  using assms
proof (induction rule: reach.induct)
  case (reach_step w w')
  from pool_step_mon[OF reach_step.hyps(2)] reach_step.IH show ?case by (auto intro: reach.reach_step)
qed (auto simp: pool_init_def intro: reach.reach_init)

subsection \<open>Where the tasks are\<close>

fun hand :: "'a worker_pc \<Rightarrow> 'a multiset" where
  "hand (WGot (Some task)) = {#task#}"
| "hand _ = {#}"

definition in_hand :: "'a worker_pc list \<Rightarrow> 'a multiset" where
  "in_hand pcs = sum_list (map hand pcs)"

lemma in_hand_update: "t < length pcs \<Longrightarrow> in_hand (pcs[t := pc]) + hand (pcs ! t) = in_hand pcs + hand pc"
  unfolding in_hand_def by (rule sum_list_update)

lemma worker_run_hand: "worker_run throws r = Inr did \<Longrightarrow> mset did = hand (WGot r)"
  by (auto simp: worker_run_def split: option.splits exn.splits)

lemma client_no_task: "c \<noteq> PoolTake \<Longrightarrow> pool_exec c s = Inr (Returns s' r sigs) \<Longrightarrow> task_out c r = []"
  by (cases c) (auto simp: pool_defs split: if_splits)

lemma came_out_snoc: "came_out got (l @ [(c, r)]) = came_out got l @ got c r"
  by (simp add: came_out_def)

definition tasks_inv :: "'a pool_world \<Rightarrow> bool" where
  "tasks_inv w \<longleftrightarrow> mset (pwRan w) + in_hand (pwPc w) = mset (came_out task_out (mwLog (pwMon w)))"

lemma tasks_inv_step:
  assumes "tasks_inv w" and "pool_step throws w w'"
  shows "tasks_inv w'"
  using assms(2)
proof (cases rule: pool_step.cases)
  case (worker_takes t s r sigs ts m)
  have "task_out (PoolTake :: 'a pool_call) (PoolTask r) = (case r of None \<Rightarrow> [] | Some x \<Rightarrow> [x])" by (cases r) auto
  then show ?thesis using worker_takes assms(1) in_hand_update[of t "pwPc w" "WGot r"]
    by (cases r) (auto simp: tasks_inv_def came_out_snoc)
next
  case (worker_runs t r did)
  have "in_hand ((pwPc w)[t := WTest]) + hand (WGot r) = in_hand (pwPc w)"
    using in_hand_update[OF worker_runs(2), of WTest] worker_runs(3) by simp
  then show ?thesis using worker_runs(1) assms(1) worker_run_hand[OF worker_runs(4)]
    by (simp add: tasks_inv_def ac_simps)
next
  case (client_returns t c s r sigs ts m)
  then show ?thesis using assms(1) client_no_task[OF client_returns(5,6)] by (simp add: tasks_inv_def came_out_snoc)
next
  case (worker_enters t m)
  then show ?thesis using assms(1) in_hand_update[of t "pwPc w" WTake] by (simp add: tasks_inv_def)
next
  case (worker_leaves t)
  then show ?thesis using assms(1) in_hand_update[of t "pwPc w" WExit] by (simp add: tasks_inv_def)
qed (use assms(1) in \<open>simp_all add: tasks_inv_def\<close>)

lemma sum_list_zero: "(\<And>x. x \<in> set xs \<Longrightarrow> f x = 0) \<Longrightarrow> sum_list (map f xs) = (0 :: 'b :: comm_monoid_add)"
  by (induction xs) auto

lemma tasks_inv_reach: "reach (pool_init p) (pool_step throws) w \<Longrightarrow> tasks_inv w"
proof (erule reach_invariant[where I = tasks_inv])
  fix w assume "pool_init p w"
  then have "in_hand (pwPc w) = {#}" unfolding pool_init_def in_hand_def by (intro sum_list_zero) auto
  with \<open>pool_init p w\<close> show "tasks_inv w" by (simp add: pool_init_def mon_init_def tasks_inv_def came_out_def)
qed (rule tasks_inv_step)

lemma pool_started:
  assumes "pool_start n (newThreadPool name) = Inr p" and "0 < n"
  shows "poThreads p \<noteq> []" "poQueue p = []" "poRunning p"
  using assms by (auto simp: pool_start_def newThreadPool_def)

subsection \<open>Properties\<close>

text \<open>
  Property C37. In a pool with at least one thread, under any interleaving of workers and clients:
  tasks leave the queue in the order they were submitted, and every submitted task is in exactly one
  place, already run (once), in the hand of the worker that took it, or still queued. Once the pool
  is stopped no worker is left waiting and none can wait again, so every worker comes back to its
  loop test, which it leaves.
\<close>

theorem thread_pool_tasks:
  assumes "pool_start n (newThreadPool name) = Inr p" and "0 < n" and "reach (pool_init p) (pool_step throws) w"
  shows "came_out task_out (mwLog (pwMon w)) @ poQueue (mwState (pwMon w)) = went_in task_in (mwLog (pwMon w))
    \<and> mset (pwRan w) + in_hand (pwPc w) + mset (poQueue (mwState (pwMon w))) = mset (went_in task_in (mwLog (pwMon w)))
    \<and> (\<not> poRunning (mwState (pwMon w)) \<longrightarrow>
         (\<forall>th \<in> set (mwThreads (pwMon w)). \<not> waits_on Cond th) \<and> pool_take (mwState (pwMon w)) \<noteq> Inr (Blocks v))"
proof (intro conjI impI ballI)
  note m = pool_reach_mon[OF assms(3)] and st = pool_started[OF assms(1,2)]
  show f: "came_out task_out (mwLog (pwMon w)) @ poQueue (mwState (pwMon w)) = went_in task_in (mwLog (pwMon w))"
    using tp.interleaving_fifo[OF m st(1)] st(2) by simp
  show "mset (pwRan w) + in_hand (pwPc w) + mset (poQueue (mwState (pwMon w))) = mset (went_in task_in (mwLog (pwMon w)))"
    using arg_cong[OF f, of mset] tasks_inv_reach[OF assms(3)] by (simp add: tasks_inv_def)
  show "\<not> waits_on Cond th" if "\<not> poRunning (mwState (pwMon w))" "th \<in> set (mwThreads (pwMon w))" for th
    using tp_live.no_wakeup_lost[OF m st(1) that(2), of Cond] that(1) by (auto simp: pool_room_def)
  show "\<not> poRunning (mwState (pwMon w)) \<Longrightarrow> pool_take (mwState (pwMon w)) \<noteq> Inr (Blocks v)" by (simp add: pool_take_def)
qed

text \<open>A pool of one thread: a client submits a task and stops the pool before the worker looks at its
  loop condition. The worker leaves and the task is never run.\<close>

definition one_thread :: "bool \<Rightarrow> nat list \<Rightarrow> nat pool" where
  "one_thread running q = \<lparr>poName = ''p'', poThreads = [''p0''], poQueue = q, poRunning = running\<rparr>"

definition pool_demo ::
  "nat pool \<Rightarrow> (nat pool_call, pool_cond) phase \<Rightarrow> (nat pool_call \<times> nat pool_ret) list \<Rightarrow> nat worker_pc \<Rightarrow> nat pool_world" where
  "pool_demo p client l pc = \<lparr>pwMon = \<lparr>mwState = p, mwThreads = [Idle, client], mwLog = l\<rparr>, pwPc = [pc], pwRan = []\<rparr>"

lemma one_thread_started: "pool_start 1 (newThreadPool ''p'') = Inr (one_thread True [])"
proof -
  have "dec_nat 0 = ''0''" by (simp add: to_base.simps[of 10 0] digit_lits)
  then show ?thesis by (simp add: pool_start_def newThreadPool_def one_thread_def snprintf_def)
qed

lemma stop_drops_tasks:
  "reach (pool_init (one_thread True [])) (pool_step (\<lambda>_. None))
     (pool_demo (one_thread False [5]) Idle [(PoolRun 5, PoolVoid), (PoolStop, PoolVoid)] WExit)"
proof -
  let ?R = "\<lambda>p c l pc. reach (pool_init (one_thread True [])) (pool_step (\<lambda>_. None)) (pool_demo p c l pc)"
  have 0: "?R (one_thread True []) Idle [] WTest"
    by (rule reach_init) (simp add: pool_init_def mon_init_def pool_demo_def one_thread_def)
  have 1: "?R (one_thread True []) (Ready (PoolRun 5)) [] WTest"
    using reach_step[OF 0 client_calls[where t = 1 and c = "PoolRun 5", OF _ _ _ _ refl]] by (simp add: pool_demo_def)
  have 2: "?R (one_thread True [5]) Idle [(PoolRun 5, PoolVoid)] WTest"
    using reach_step[OF 1 client_returns[where t = 1 and c = "PoolRun 5" and s = "one_thread True [5]" and r = PoolVoid
        and sigs = "[NotifyOne Cond]" and ts = "[Idle, Idle]", OF _ _ _ _ _ _ refl]]
    by (simp add: pool_demo_def pool_defs one_thread_def signal_none no_signal)
  have 3: "?R (one_thread True [5]) (Ready PoolStop) [(PoolRun 5, PoolVoid)] WTest"
    using reach_step[OF 2 client_calls[where t = 1 and c = PoolStop, OF _ _ _ _ refl]] by (simp add: pool_demo_def)
  have sg: "signals [NotifyAll Cond] [Idle, Idle] [Idle, Idle :: (nat pool_call, pool_cond) phase]"
    by (rule signal_all) (simp add: no_signal)
  have 4: "?R (one_thread False [5]) Idle [(PoolRun 5, PoolVoid), (PoolStop, PoolVoid)] WTest"
    using reach_step[OF 3 client_returns[where t = 1 and c = PoolStop and s = "one_thread False [5]" and r = PoolVoid
        and sigs = "[NotifyAll Cond]" and ts = "[Idle, Idle]", OF _ _ _ _ _ _ refl]] sg
    by (simp add: pool_demo_def pool_defs one_thread_def)
  show ?thesis
    using reach_step[OF 4 worker_leaves[where t = 0]] by (simp add: pool_demo_def worker_test_def one_thread_def)
qed

theorem thread_pool_tasks_witness:
  "\<exists>w. reach (pool_init (one_thread True [])) (pool_step (\<lambda>_. None)) w \<and> poQueue (mwState (pwMon w)) = [5]
     \<and> mset (pwRan w) + in_hand (pwPc w) + mset (poQueue (mwState (pwMon w))) = mset (went_in task_in (mwLog (pwMon w)))"
proof -
  let ?w = "pool_demo (one_thread False [5]) Idle [(PoolRun 5, PoolVoid), (PoolStop, PoolVoid)] WExit"
  have "mset (pwRan ?w) + in_hand (pwPc ?w) + mset (poQueue (mwState (pwMon ?w))) = mset (went_in task_in (mwLog (pwMon ?w)))"
    using thread_pool_tasks[OF one_thread_started _ stop_drops_tasks] by simp
  with stop_drops_tasks show ?thesis by (intro exI[of _ ?w]) (simp add: pool_demo_def one_thread_def)
qed

end
