(* ===== verification/ProtoCodec.thy ===== *)
theory ProtoCodec
  imports Framing
begin

text \<open>
  The two codecs for protocol buffers, \<open>RpcCodec\<close> (\<open>muduo/net/protorpc/RpcCodec.cc\<close>) and
  \<open>ProtobufCodec\<close> (\<open>examples/protobuf/codec/codec.cc\<close>). Their receive loops are the same but for the
  minimal length and the parser of one frame. Protocol buffers (\<open>ByteSize\<close>,
  \<open>SerializeWithCachedSizesToArray\<close>, \<open>ParseFromArray\<close>, the registry of message types) and zlib's
  \<open>adler32\<close> are not part of the repository: they are the fields of an argument \<open>pb\<close>, and
  \<open>protobuf_lib\<close> states what the codecs rely on.

  The receive loop calls the error callback and goes on; whether it ends then depends on that
  callback, so the loop is a partial function whose value \<open>None\<close> means it never returns.
\<close>

subsection \<open>The library\<close>

record 'm protobuf =
  pbTypeName :: "'m \<Rightarrow> char list"
  pbByteSize :: "'m \<Rightarrow> nat"
  pbSerialize :: "'m \<Rightarrow> char list"
  pbParse :: "char list \<Rightarrow> char list \<Rightarrow> 'm option"
  pbKnown :: "char list \<Rightarrow> bool"
  pbAdler32 :: "char list \<Rightarrow> 32 word"

text \<open>\<open>ByteSize\<close> is the length of what is serialized, and a message of a known type parses from
  its serialization; \<open>pbParse pb t\<close> is \<open>ParseFromArray\<close> of a message of type \<open>t\<close>.\<close>

definition protobuf_lib :: "'m protobuf \<Rightarrow> 'm \<Rightarrow> bool" where
  "protobuf_lib pb m \<longleftrightarrow> pbByteSize pb m = length (pbSerialize pb m) \<and> pbKnown pb (pbTypeName pb m)
     \<and> pbParse pb (pbTypeName pb m) (pbSerialize pb m) = Some m"

subsection \<open>Receiving\<close>

datatype rpc_error = kNoError | kInvalidLength | kCheckSumError | kInvalidNameLen | kUnknownMessageType | kParseError

fun errorCodeToString :: "rpc_error \<Rightarrow> string" where
  "errorCodeToString kNoError = ''NoError''"
| "errorCodeToString kInvalidLength = ''InvalidLength''"
| "errorCodeToString kCheckSumError = ''CheckSumError''"
| "errorCodeToString kInvalidNameLen = ''InvalidNameLen''"
| "errorCodeToString kUnknownMessageType = ''UnknownMessageType''"
| "errorCodeToString kParseError = ''ParseError''"

definition kHeaderLen :: nat where "kHeaderLen = 4"

definition rpcMinMessageLen :: int where "rpcMinMessageLen = 2 * 4"

definition pbMinMessageLen :: int where "pbMinMessageLen = 2 * 4 + 2"

definition kMaxMessageLen :: int where "kMaxMessageLen = 64 * 1024 * 1024"

definition asInt32 :: "char list \<Rightarrow> 32 word" where
  "asInt32 buf = networkToHost32 (load_le (take 4 buf))"

text \<open>\<open>buf\<close> holds exactly the \<open>len\<close> bytes of the frame after its length field.\<close>

definition rpc_parse :: "'m protobuf \<Rightarrow> char list \<Rightarrow> rpc_error \<times> 'm option" where
  "rpc_parse pb buf =
     (let len = length buf;
          expectedCheckSum = asInt32 (drop (len - kHeaderLen) buf);
          checkSum = pbAdler32 pb (take (len - kHeaderLen) buf)
      in if checkSum = expectedCheckSum
         then if take kHeaderLen buf = ''RPC0''
              then (case pbParse pb ''muduo.net.RpcMessage'' (take (len - 2 * kHeaderLen) (drop kHeaderLen buf)) of
                      Some m \<Rightarrow> (kNoError, Some m)
                    | None \<Rightarrow> (kParseError, None))
              else (kUnknownMessageType, None)
         else (kCheckSumError, None))"

definition pb_parse :: "'m protobuf \<Rightarrow> char list \<Rightarrow> rpc_error \<times> 'm option" where
  "pb_parse pb buf =
     (let len = int (length buf);
          expectedCheckSum = asInt32 (drop (nat (len - 4)) buf);
          checkSum = pbAdler32 pb (take (nat (len - 4)) buf)
      in if checkSum = expectedCheckSum
         then let nameLen = sint (asInt32 buf) in
              if nameLen \<ge> 2 \<and> nameLen \<le> len - 2 * 4
              then let typeName = take (nat (nameLen - 1)) (drop kHeaderLen buf) in
                   if pbKnown pb typeName
                   then (case pbParse pb typeName (take (nat (len - nameLen - 2 * 4)) (drop (kHeaderLen + nat nameLen) buf)) of
                           Some m \<Rightarrow> (kNoError, Some m)
                         | None \<Rightarrow> (kParseError, None))
                   else (kUnknownMessageType, None)
              else (kInvalidNameLen, None)
         else (kCheckSumError, None))"

text \<open>The loop both codecs have; the result lists the messages passed to \<open>messageCallback_\<close> and the
  errors passed to \<open>errorCallback_\<close>, which may consume from the buffer, and the buffer left or the
  fault.\<close>

type_synonym 'm received = "'m list \<times> rpc_error list \<times> netbuf res"

fun add_message :: "'m \<Rightarrow> 'm received \<Rightarrow> 'm received" where
  "add_message m (ms, es, b) = (m # ms, es, b)"

fun add_error :: "rpc_error \<Rightarrow> 'm received \<Rightarrow> 'm received" where
  "add_error c (ms, es, b) = (ms, c # es, b)"

partial_function (option) codec_loop ::
  "int \<Rightarrow> (char list \<Rightarrow> rpc_error \<times> 'm option) \<Rightarrow> (rpc_error \<Rightarrow> netbuf \<Rightarrow> netbuf) \<Rightarrow> netbuf \<Rightarrow> 'm received option" where
  "codec_loop minLen parse errorCb buf =
     (if readableBytes buf \<ge> nat (minLen + 4)
      then case peekInt32 buf of
             Inl e \<Rightarrow> Some ([], [], Inl e)
           | Inr w \<Rightarrow>
               if sint w > kMaxMessageLen \<or> sint w < minLen
               then Option.bind (codec_loop minLen parse errorCb (errorCb kInvalidLength buf))
                      (\<lambda>r. Some (add_error kInvalidLength r))
               else if readableBytes buf \<ge> nat (sint w + 4)
               then let len = nat (sint w); p = parse (range_at buf (peek buf + kHeaderLen) (peek buf + kHeaderLen + len)) in
                    if fst p = kNoError \<and> snd p \<noteq> None
                    then (case NetBuffer.retrieve buf (kHeaderLen + len) of
                            Inl e \<Rightarrow> Some ([], [], Inl e)
                          | Inr buf' \<Rightarrow> Option.bind (codec_loop minLen parse errorCb buf')
                              (\<lambda>r. Some (add_message (the (snd p)) r)))
                    else Option.bind (codec_loop minLen parse errorCb (errorCb (fst p) buf))
                           (\<lambda>r. Some (add_error (fst p) r))
               else Some ([], [], Inr buf)
      else Some ([], [], Inr buf))"

definition rpc_onMessage :: "'m protobuf \<Rightarrow> (rpc_error \<Rightarrow> netbuf \<Rightarrow> netbuf) \<Rightarrow> netbuf \<Rightarrow> 'm received option" where
  "rpc_onMessage pb errorCb buf = codec_loop rpcMinMessageLen (rpc_parse pb) errorCb buf"

definition pb_onMessage :: "'m protobuf \<Rightarrow> (rpc_error \<Rightarrow> netbuf \<Rightarrow> netbuf) \<Rightarrow> netbuf \<Rightarrow> 'm received option" where
  "pb_onMessage pb errorCb buf = codec_loop pbMinMessageLen (pb_parse pb) errorCb buf"

text \<open>The default callback shuts the connection down and leaves the buffer as it is.\<close>

definition defaultErrorCallback :: "rpc_error \<Rightarrow> netbuf \<Rightarrow> netbuf" where
  "defaultErrorCallback c buf = buf"

subsection \<open>Sending\<close>

text \<open>Serialization into the writable space, the checksum and the length: the end of both \<open>send\<close>
  operations. \<open>reserve\<close> is the space asked for beside the message, \<open>before\<close> what the buffer holds.\<close>

definition finish_frame :: "'m protobuf \<Rightarrow> nat \<Rightarrow> nat \<Rightarrow> 'm \<Rightarrow> netbuf \<Rightarrow> netbuf res" where
  "finish_frame pb reserve before message buf =
     (let byte_size = pbByteSize pb message; bytes = pbSerialize pb message in
      bindR (ensureWritableBytes buf (byte_size + reserve)) (\<lambda>b1.
      bindR (std_copy bytes (beginWrite b1) (bufData b1)) (\<lambda>d.
      if length bytes \<noteq> byte_size then Inl (Aborted ''ByteSizeConsistencyError'')
      else let b2 = hasWritten (b1\<lparr>bufData := d\<rparr>) byte_size in
      bindR (appendInt32 b2 (pbAdler32 pb (readable b2))) (\<lambda>b3.
      ensure (readableBytes b3 = before + byte_size + 4) ''send: buf.readableBytes()''
        (prepend b3 (store_le 4 (hostToNetwork32 (word_of_int (int32_of_size (readableBytes b3))))))))))"

definition rpc_send :: "'m protobuf \<Rightarrow> 'm \<Rightarrow> netbuf res" where
  "rpc_send pb message =
     bindR (bufAppend newBuffer ''RPC0'') (finish_frame pb kHeaderLen kHeaderLen message)"

definition pb_fillEmptyBuffer :: "'m protobuf \<Rightarrow> 'm \<Rightarrow> netbuf \<Rightarrow> netbuf res" where
  "pb_fillEmptyBuffer pb message buf =
     ensure (readableBytes buf = 0) ''fillEmptyBuffer: buf->readableBytes() == 0''
     (let typeName = pbTypeName pb message; nameLen = length typeName + 1 in
      bindR (appendInt32 buf (word_of_int (int32_of_size nameLen))) (\<lambda>b1.
      bindR (bufAppend b1 (typeName @ [nul])) (\<lambda>b2.
      finish_frame pb 0 (4 + nameLen) message b2)))"

definition pb_send :: "'m protobuf \<Rightarrow> 'm \<Rightarrow> netbuf res" where
  "pb_send pb message = pb_fillEmptyBuffer pb message newBuffer"

subsection \<open>The loop as a framing\<close>

definition codec_next :: "int \<Rightarrow> (char list \<Rightarrow> rpc_error \<times> 'm option) \<Rightarrow> char list \<Rightarrow> ('m, rpc_error) frame" where
  "codec_next minLen parse xs =
     (if length xs < nat (minLen + 4) then NeedMore
      else let len = sint (load_le (rev (take 4 xs)) :: 32 word) in
        if len > kMaxMessageLen \<or> len < minLen then Malformed kInvalidLength
        else if length xs \<ge> nat (len + 4)
        then let p = parse (take (nat len) (drop 4 xs)) in
             if fst p = kNoError \<and> snd p \<noteq> None then Frame (the (snd p)) (4 + nat len) else Malformed (fst p)
        else NeedMore)"

text \<open>A turn that returned, met no error and no fault.\<close>

definition clean :: "'m received option \<Rightarrow> ('m list \<times> netbuf) option" where
  "clean r = (case r of Some (ms, [], Inr b) \<Rightarrow> Some (ms, b) | _ \<Rightarrow> None)"

lemma codec_framing: "0 \<le> minLen \<Longrightarrow> framing (codec_next minLen parse)"
  by unfold_locales (auto simp: codec_next_def Let_def nat_add_distrib split: if_splits)

text \<open>One turn of the loop on the bytes in the buffer.\<close>

lemma codec_loop_turn:
  assumes wf: "buf_wf buf" and "0 \<le> minLen"
  shows "codec_loop minLen parse errorCb buf =
     (case codec_next minLen parse (readable buf) of
        NeedMore \<Rightarrow> Some ([], [], Inr buf)
      | Malformed e \<Rightarrow> Option.bind (codec_loop minLen parse errorCb (errorCb e buf)) (\<lambda>r. Some (add_error e r))
      | Frame m n \<Rightarrow> (case NetBuffer.retrieve buf n of
            Inl e \<Rightarrow> Some ([], [], Inl e)
          | Inr b \<Rightarrow> Option.bind (codec_loop minLen parse errorCb b) (\<lambda>r. Some (add_message m r))))"
proof (cases "length (readable buf) < nat (minLen + 4)")
  case True
  then show ?thesis using wf by (subst codec_loop.simps) (simp add: codec_next_def)
next
  case False
  let ?R = "readable buf"
  have R: "readableBytes buf = length ?R" using wf by simp
  have four: "4 \<le> length ?R" using False assms(2) by linarith
  define w :: "32 word" where "w = load_le (rev (take 4 ?R))"
  have pk: "peekInt32 buf = Inr w" using peekInt32_ok[OF wf four] by (simp add: w_def)
  have payload: "range_at buf (peek buf + kHeaderLen) (peek buf + kHeaderLen + nat (sint w)) = take (nat (sint w)) (drop 4 ?R)"
    if "nat (sint w) + 4 \<le> length ?R"
    using range_at_sub[OF wf, of 4 "4 + nat (sint w)"] that R by (simp add: kHeaderLen_def peek_def add.assoc drop_take)
  show ?thesis
  proof (cases "sint w > kMaxMessageLen \<or> sint w < minLen")
    case True
    then show ?thesis using False pk R w_def
      by (subst codec_loop.simps) (auto simp: codec_next_def Let_def)
  next
    case small: False
    then have len: "nat (sint w + 4) = nat (sint w) + 4" "0 \<le> sint w" using assms(2) by auto
    show ?thesis
    proof (cases "nat (sint w) + 4 \<le> length ?R")
      case True
      then show ?thesis using False pk R small len payload
        by (subst codec_loop.simps) (auto simp: codec_next_def Let_def w_def[symmetric] kHeaderLen_def cong: sum.case_cong)
    next
      case False': False
      then show ?thesis using False pk R small len
        by (subst codec_loop.simps) (simp add: codec_next_def Let_def w_def[symmetric])
    qed
  qed
qed

lemma codec_loop_frames:
  assumes "0 \<le> minLen"
  shows "buf_wf buf \<Longrightarrow> frames (codec_next minLen parse) (readable buf) = (ms, None, r) \<Longrightarrow>
     \<exists>b. codec_loop minLen parse errorCb buf = Some (ms, [], Inr b) \<and> buf_wf b \<and> readable b = r"
proof (induction "length (readable buf)" arbitrary: buf ms rule: less_induct)
  case less
  note turn = codec_loop_turn[OF less.prems(1) assms, of parse errorCb]
  show ?case
  proof (cases "readable buf" rule: framing.frames_cases[OF codec_framing[OF assms, of parse]])
    case 1
    then show ?thesis using less.prems turn by auto
  next
    case (2 e)
    then show ?thesis using less.prems by auto
  next
    case (3 m n ms' e' r')
    note b = framing.frame_bounds[OF codec_framing[OF assms] 3(1)]
    then obtain b1 where b1: "NetBuffer.retrieve buf n = Inr b1" "buf_wf b1" "readable b1 = drop n (readable buf)"
      using retrieve_ok[OF less.prems(1)] by metis
    have "length (readable b1) < length (readable buf)" using 3(2) b1(3) by simp
    from less.hyps[OF this b1(2)] b1(3) 3(3,4) less.prems(2) obtain b2 where
      "codec_loop minLen parse errorCb b1 = Some (ms', [], Inr b2)" "buf_wf b2" "readable b2 = r" by auto
    then show ?thesis using turn 3(1,4) b1(1) less.prems(2) by auto
  qed
qed

lemma codec_framed:
  assumes "0 \<le> minLen"
  shows "framed_codec (codec_next minLen parse) (\<lambda>b. clean (codec_loop minLen parse errorCb b))"
proof (rule framed_codec.intro[OF codec_framing[OF assms]], unfold_locales)
  fix b ms r
  assume "buf_wf b" "frames (codec_next minLen parse) (readable b) = (ms, None, r)"
  from codec_loop_frames[OF assms this, of errorCb] show "\<exists>b'. clean (codec_loop minLen parse errorCb b) = Some (ms, b') \<and> buf_wf b' \<and> readable b' = r"
    by (auto simp: clean_def)
qed

interpretation rpc: framed_codec "codec_next rpcMinMessageLen (rpc_parse pb)" "\<lambda>b. clean (rpc_onMessage pb errorCb b)"
  for pb errorCb
  unfolding rpc_onMessage_def by (rule codec_framed) (simp add: rpcMinMessageLen_def)

interpretation pbc: framed_codec "codec_next pbMinMessageLen (pb_parse pb)" "\<lambda>b. clean (pb_onMessage pb errorCb b)"
  for pb errorCb
  unfolding pb_onMessage_def by (rule codec_framed) (simp add: pbMinMessageLen_def)

text \<open>After a frame that does not parse, the loop with the default callback never returns: the
  callback leaves the buffer as it is, and nothing ends the loop.\<close>

lemma bad_frame_never_returns:
  assumes "buf_wf buf" and "0 \<le> minLen" and "codec_next minLen parse (readable buf) = Malformed e"
  shows "codec_loop minLen parse defaultErrorCallback buf = None"
proof (rule ccontr)
  assume "codec_loop minLen parse defaultErrorCallback buf \<noteq> None"
  then obtain ms es b where r: "codec_loop minLen parse defaultErrorCallback buf = Some (ms, es, b)" by auto
  from codec_loop_turn[OF assms(1,2), of parse defaultErrorCallback] assms(3) r
  have "Some (ms, es, b) = Some (ms, e # es, b)" by (simp add: defaultErrorCallback_def)
  then show False by simp
qed

subsection \<open>Frames\<close>

definition int32_image :: "nat \<Rightarrow> char list" where
  "int32_image n = rev (store_le 4 (word_of_nat n :: 32 word))"

definition proto_frame :: "'m protobuf \<Rightarrow> char list \<Rightarrow> char list" where
  "proto_frame pb p = int32_image (length p + 4) @ p @ rev (store_le 4 (pbAdler32 pb p))"

lemma length_int32_image [simp]: "length (int32_image n) = 4"
  by (simp add: int32_image_def)

lemma load_int32_image [simp]: "load_le (rev (int32_image n)) = (word_of_nat n :: 32 word)"
  by (simp add: int32_image_def)

lemma sint_word_of_nat: "n < 2 ^ 31 \<Longrightarrow> sint (word_of_nat n :: 32 word) = int n"
  by (simp add: signed_of_nat signed_take_bit_int_eq_self)

lemma int32_image_of_size: "n < 2 ^ 31 \<Longrightarrow> store_le 4 (hostToNetwork32 (word_of_int (int32_of_size n))) = int32_image n"
  by (simp add: int32_image_def int32_of_size_small)

lemma finish_frame_ok:
  assumes wf: "buf_wf buf" and "kCheapPrepend \<le> readerIndex buf" and lib: "pbByteSize pb m = length (pbSerialize pb m)"
    and before: "before = length (readable buf)" and small: "before + length (pbSerialize pb m) + 4 < 2 ^ 31"
  shows "\<exists>b. finish_frame pb reserve before m buf = Inr b \<and> buf_wf b \<and> readable b = proto_frame pb (readable buf @ pbSerialize pb m)"
proof -
  let ?s = "pbSerialize pb m" and ?p = "readable buf @ pbSerialize pb m"
  obtain b1 where b1: "ensureWritableBytes buf (pbByteSize pb m + reserve) = Inr b1" "buf_wf b1" "readable b1 = readable buf"
      "pbByteSize pb m + reserve \<le> writableBytes b1" "kCheapPrepend \<le> readerIndex b1"
    using ensureWritableBytes_ok[OF wf] assms(2) by metis
  have fits: "writerIndex b1 + length ?s \<le> length (bufData b1)"
    using b1(4) lib buf_wfD(2,5)[OF b1(2)] by linarith
  let ?b2 = "b1\<lparr>bufData := take (writerIndex b1) (bufData b1) @ ?s @ drop (writerIndex b1 + length ?s) (bufData b1),
     writerIndex := writerIndex b1 + length ?s\<rparr>"
  have wf2: "buf_wf ?b2" using b1(2) fits by (auto simp: buf_wf_def)
  have r2: "readable ?b2 = ?p" using readable_write[OF b1(2) fits] b1(3) by simp
  obtain b3 where b3: "appendInt32 ?b2 (pbAdler32 pb ?p) = Inr b3" "buf_wf b3"
      "readable b3 = ?p @ rev (store_le 4 (pbAdler32 pb ?p))" "kCheapPrepend \<le> readerIndex b3"
    using bufAppend_ok[OF wf2, of "store_le 4 (hostToNetwork32 (pbAdler32 pb ?p))"] r2 b1(5)
    by (auto simp: appendInt32_def)
  have n3: "readableBytes b3 = length ?p + 4" using b3(2,3) by (simp add: readableBytes_readable)
  have img: "store_le 4 (hostToNetwork32 (word_of_int (int32_of_size (readableBytes b3)))) = int32_image (length ?p + 4)"
    unfolding n3 by (rule int32_image_of_size) (use small before in simp)
  have "4 \<le> prependableBytes b3" using b3(4) by (simp add: prependableBytes_def kCheapPrepend_def)
  then obtain b4 where b4: "prepend b3 (int32_image (length ?p + 4)) = Inr b4" "buf_wf b4"
      "readable b4 = int32_image (length ?p + 4) @ readable b3"
    using prepend_ok[OF b3(2), of "int32_image (length ?p + 4)"] by auto
  have "finish_frame pb reserve before m buf = Inr b4"
    using b1(1) fits lib b3(1) img b4(1) n3 before r2
    by (simp add: finish_frame_def Let_def beginWrite_def hasWritten_def)
  with b4 b3(3) show ?thesis by (simp add: proto_frame_def)
qed

lemma codec_next_frame:
  assumes "0 \<le> minLen" and "minLen \<le> int (length p) + 4" and "int (length p) + 4 \<le> kMaxMessageLen"
    and "parse (p @ rev (store_le 4 (pbAdler32 pb p))) = (kNoError, Some m)"
  shows "codec_next minLen parse (proto_frame pb p @ rest) = Frame m (length (proto_frame pb p))"
proof -
  have n: "length p + 4 < 2 ^ 31" using assms(3) by (simp add: kMaxMessageLen_def)
  have s: "sint (word_of_nat (length p + 4) :: 32 word) = int (length p + 4)" by (rule sint_word_of_nat[OF n])
  have t: "nat (int (length p + 4)) = length p + 4" by (rule nat_int)
  show ?thesis using assms s by (auto simp: codec_next_def proto_frame_def Let_def t simp del: of_nat_add)
qed

lemma asInt32_image [simp]: "asInt32 (rev (store_le 4 w) @ rest) = w"
  by (simp add: asInt32_def networkToHost32_load)

lemma asInt32_image0 [simp]: "asInt32 (rev (store_le 4 w)) = w"
  using asInt32_image[of w "[]"] by simp

lemma rpc_parse_frame:
  assumes "protobuf_lib pb m" and "pbTypeName pb m = ''muduo.net.RpcMessage''" and p: "p = ''RPC0'' @ pbSerialize pb m"
  shows "rpc_parse pb (p @ rev (store_le 4 (pbAdler32 pb p))) = (kNoError, Some m)"
proof -
  let ?cs = "rev (store_le 4 (pbAdler32 pb p))"
  have i: "length (p @ ?cs) - kHeaderLen = length p" by (simp add: kHeaderLen_def)
  have tag: "take kHeaderLen (p @ ?cs) = ''RPC0''" by (simp add: kHeaderLen_def p)
  have d: "take (length (p @ ?cs) - 2 * kHeaderLen) (drop kHeaderLen (p @ ?cs)) = pbSerialize pb m" by (simp add: kHeaderLen_def p)
  show ?thesis using assms(1,2) unfolding rpc_parse_def Let_def i tag d by (simp add: protobuf_lib_def)
qed

lemma rpc_send_ok:
  assumes "protobuf_lib pb m" and "pbByteSize pb m + 8 \<le> 64 * 1024 * 1024"
  shows "\<exists>b. rpc_send pb m = Inr b \<and> buf_wf b \<and> readable b = proto_frame pb (''RPC0'' @ pbSerialize pb m)"
proof -
  obtain b1 where b1: "bufAppend newBuffer ''RPC0'' = Inr b1" "buf_wf b1" "readable b1 = ''RPC0''" "kCheapPrepend \<le> readerIndex b1"
    using bufAppend_ok[OF newBuffer_wf, of "''RPC0''"] by auto
  have "\<exists>b. finish_frame pb kHeaderLen kHeaderLen m b1 = Inr b \<and> buf_wf b \<and> readable b = proto_frame pb (readable b1 @ pbSerialize pb m)"
    using assms b1 by (intro finish_frame_ok) (simp_all add: protobuf_lib_def kHeaderLen_def)
  then show ?thesis using b1 by (auto simp: rpc_send_def)
qed

lemma pb_parse_frame:
  assumes "protobuf_lib pb m" and "pbTypeName pb m \<noteq> []" and "length (pbTypeName pb m) + 1 < 2 ^ 31"
    and p: "p = int32_image (length (pbTypeName pb m) + 1) @ pbTypeName pb m @ [nul] @ pbSerialize pb m"
  shows "pb_parse pb (p @ rev (store_le 4 (pbAdler32 pb p))) = (kNoError, Some m)"
proof -
  let ?t = "pbTypeName pb m" and ?cs = "rev (store_le 4 (pbAdler32 pb p))"
  have nl: "sint (asInt32 (p @ ?cs)) = int (length ?t + 1)"
    using sint_word_of_nat[OF assms(3)] unfolding p int32_image_def append_assoc by (simp only: asInt32_image)
  have n2: "2 \<le> int (length ?t + 1)" using assms(2) by (cases ?t) auto
  have lp: "length p = 5 + length ?t + length (pbSerialize pb m)" by (simp add: p)
  have i: "nat (int (length (p @ ?cs)) - 4) = length p" by simp
  have d: "nat (int (length (p @ ?cs)) - int (length ?t + 1) - 2 * 4) = length (pbSerialize pb m)" by (simp add: lp)
  have dr: "drop (kHeaderLen + nat (int (length ?t + 1))) (p @ ?cs) = pbSerialize pb m @ ?cs"
    by (simp add: p kHeaderLen_def nat_add_distrib)
  have tn: "take (nat (int (length ?t + 1) - 1)) (drop kHeaderLen (p @ ?cs)) = ?t" by (simp add: p kHeaderLen_def)
  have le: "int (length ?t + 1) \<le> int (length (p @ ?cs)) - 2 * 4" by (simp add: lp)
  show ?thesis using assms(1) n2 le unfolding pb_parse_def Let_def nl i d dr tn by (simp add: protobuf_lib_def)
qed

lemma pb_send_ok:
  assumes "protobuf_lib pb m" and "length (pbTypeName pb m) + pbByteSize pb m + 9 \<le> 64 * 1024 * 1024"
  shows "\<exists>b. pb_send pb m = Inr b \<and> buf_wf b
    \<and> readable b = proto_frame pb (int32_image (length (pbTypeName pb m) + 1) @ pbTypeName pb m @ [nul] @ pbSerialize pb m)"
proof -
  let ?t = "pbTypeName pb m"
  have img: "store_le 4 (hostToNetwork32 (word_of_int (int32_of_size (length ?t + 1)))) = int32_image (length ?t + 1)"
    by (rule int32_image_of_size) (use assms(2) in simp)
  obtain b1 where b1: "bufAppend newBuffer (int32_image (length ?t + 1)) = Inr b1" "buf_wf b1"
      "readable b1 = int32_image (length ?t + 1)" "kCheapPrepend \<le> readerIndex b1"
    using bufAppend_ok[OF newBuffer_wf, of "int32_image (length ?t + 1)"] by auto
  obtain b2 where b2: "bufAppend b1 (?t @ [nul]) = Inr b2" "buf_wf b2" "readable b2 = readable b1 @ ?t @ [nul]"
      "kCheapPrepend \<le> readerIndex b2"
    using bufAppend_ok[OF b1(2), of "?t @ [nul]"] b1(4) by auto
  have "\<exists>b. finish_frame pb 0 (4 + (length ?t + 1)) m b2 = Inr b \<and> buf_wf b \<and> readable b = proto_frame pb (readable b2 @ pbSerialize pb m)"
    by (rule finish_frame_ok) (use assms b1 b2 in \<open>simp_all add: protobuf_lib_def\<close>)
  then show ?thesis using b1 b2 img
    by (auto simp: pb_send_def pb_fillEmptyBuffer_def appendInt32_def Let_def)
qed

subsection \<open>Properties\<close>

text \<open>
  Property C39. RPC messages survive the stream: every message of up to 64 MB that protocol buffers can
  serialize is sent as one buffer without a fault, and however the network cuts the bytes of a
  sequence of such buffers, the receive loop returns after every segment and hands exactly those
  messages to the callback, once each and in order, with no error reported and no byte left over.
\<close>

theorem rpc_codec_roundtrip:
  assumes "\<forall>m \<in> set ms. protobuf_lib pb m \<and> pbTypeName pb m = ''muduo.net.RpcMessage'' \<and> pbByteSize pb m + 8 \<le> 64 * 1024 * 1024"
  shows "\<exists>enc. (\<forall>m \<in> set ms. \<exists>b. rpc_send pb m = Inr b \<and> readable b = enc m)
    \<and> (\<forall>segs. concat segs = concat (map enc ms) \<longrightarrow>
         (\<exists>b. deliver (\<lambda>b. clean (rpc_onMessage pb errorCb b)) segs newBuffer = Some (ms, b) \<and> readable b = []))"
proof (rule exI[of _ "\<lambda>m. proto_frame pb (''RPC0'' @ pbSerialize pb m)"], intro conjI allI impI)
  let ?enc = "\<lambda>m. proto_frame pb (''RPC0'' @ pbSerialize pb m)"
  show "\<forall>m \<in> set ms. \<exists>b. rpc_send pb m = Inr b \<and> readable b = ?enc m"
  proof
    fix m assume "m \<in> set ms"
    then have "protobuf_lib pb m" "pbByteSize pb m + 8 \<le> 64 * 1024 * 1024" using assms by auto
    from rpc_send_ok[OF this] show "\<exists>b. rpc_send pb m = Inr b \<and> readable b = ?enc m" by auto
  qed
  have nxt: "codec_next rpcMinMessageLen (rpc_parse pb) (?enc m @ rest) = Frame m (length (?enc m))" if "m \<in> set ms" for m rest
    using that assms rpc_parse_frame[of pb m, OF _ _ refl]
    by (intro codec_next_frame) (auto simp: rpcMinMessageLen_def kMaxMessageLen_def protobuf_lib_def)
  fix segs assume "concat segs = concat (map ?enc ms)"
  have "codec_next rpcMinMessageLen (rpc_parse pb) [] = NeedMore" by (simp add: codec_next_def rpcMinMessageLen_def)
  from rpc.deliver_all[OF nxt this \<open>concat segs = _\<close>] show "\<exists>b. deliver (\<lambda>b. clean (rpc_onMessage pb errorCb b)) segs newBuffer = Some (ms, b) \<and> readable b = []"
    by blast
qed

text \<open>A library with one message type, whose messages are their own serialization.\<close>

definition plain_protobuf :: "char list \<Rightarrow> char list protobuf" where
  "plain_protobuf t = \<lparr>pbTypeName = (\<lambda>_. t), pbByteSize = length, pbSerialize = (\<lambda>m. m), pbParse = (\<lambda>_. Some),
     pbKnown = (\<lambda>n. n = t), pbAdler32 = (\<lambda>_. 1)\<rparr>"

theorem rpc_codec_roundtrip_witness:
  "\<exists>enc. (\<forall>m \<in> set [''call'', '''']. \<exists>b. rpc_send (plain_protobuf ''muduo.net.RpcMessage'') m = Inr b \<and> readable b = enc m)
    \<and> (\<forall>segs. concat segs = concat (map enc [''call'', '''']) \<longrightarrow>
         (\<exists>b. deliver (\<lambda>b. clean (rpc_onMessage (plain_protobuf ''muduo.net.RpcMessage'') defaultErrorCallback b)) segs newBuffer
                = Some ([''call'', ''''], b) \<and> readable b = []))"
  by (rule rpc_codec_roundtrip) (simp add: plain_protobuf_def protobuf_lib_def)

text \<open>
  The same for the codec of the protobuf examples, whose frames carry the name of the
  message type: messages of every registered type with a non-empty name arrive as they were sent.
\<close>

theorem protobuf_codec_roundtrip:
  assumes "\<forall>m \<in> set ms. protobuf_lib pb m \<and> pbTypeName pb m \<noteq> []
      \<and> length (pbTypeName pb m) + pbByteSize pb m + 9 \<le> 64 * 1024 * 1024"
  shows "\<exists>enc. (\<forall>m \<in> set ms. \<exists>b. pb_send pb m = Inr b \<and> readable b = enc m)
    \<and> (\<forall>segs. concat segs = concat (map enc ms) \<longrightarrow>
         (\<exists>b. deliver (\<lambda>b. clean (pb_onMessage pb errorCb b)) segs newBuffer = Some (ms, b) \<and> readable b = []))"
proof (rule exI[of _ "\<lambda>m. proto_frame pb (int32_image (length (pbTypeName pb m) + 1) @ pbTypeName pb m @ [nul] @ pbSerialize pb m)"],
    intro conjI allI impI)
  let ?p = "\<lambda>m. int32_image (length (pbTypeName pb m) + 1) @ pbTypeName pb m @ [nul] @ pbSerialize pb m"
  let ?enc = "\<lambda>m. proto_frame pb (?p m)"
  show "\<forall>m \<in> set ms. \<exists>b. pb_send pb m = Inr b \<and> readable b = ?enc m"
  proof
    fix m assume "m \<in> set ms"
    then have "protobuf_lib pb m" "length (pbTypeName pb m) + pbByteSize pb m + 9 \<le> 64 * 1024 * 1024" using assms by auto
    from pb_send_ok[OF this] show "\<exists>b. pb_send pb m = Inr b \<and> readable b = ?enc m" by auto
  qed
  have nxt: "codec_next pbMinMessageLen (pb_parse pb) (?enc m @ rest) = Frame m (length (?enc m))" if m: "m \<in> set ms" for m rest
  proof (rule codec_next_frame)
    have h: "protobuf_lib pb m" "pbTypeName pb m \<noteq> []" "length (pbTypeName pb m) + pbByteSize pb m + 9 \<le> 64 * 1024 * 1024"
      using m assms by auto
    then have "1 \<le> length (pbTypeName pb m)" by (cases "pbTypeName pb m") auto
    with h show "pbMinMessageLen \<le> int (length (?p m)) + 4" "int (length (?p m)) + 4 \<le> kMaxMessageLen"
      by (auto simp: pbMinMessageLen_def kMaxMessageLen_def protobuf_lib_def)
    show "pb_parse pb (?p m @ rev (store_le 4 (pbAdler32 pb (?p m)))) = (kNoError, Some m)"
      using h by (intro pb_parse_frame) auto
  qed (simp add: pbMinMessageLen_def)
  fix segs assume "concat segs = concat (map ?enc ms)"
  have "codec_next pbMinMessageLen (pb_parse pb) [] = NeedMore" by (simp add: codec_next_def pbMinMessageLen_def)
  from pbc.deliver_all[OF nxt this \<open>concat segs = _\<close>] show "\<exists>b. deliver (\<lambda>b. clean (pb_onMessage pb errorCb b)) segs newBuffer = Some (ms, b) \<and> readable b = []"
    by blast
qed

theorem protobuf_codec_roundtrip_witness:
  "\<exists>enc. (\<forall>m \<in> set [''query'']. \<exists>b. pb_send (plain_protobuf ''muduo.Query'') m = Inr b \<and> readable b = enc m)
    \<and> (\<forall>segs. concat segs = concat (map enc [''query'']) \<longrightarrow>
         (\<exists>b. deliver (\<lambda>b. clean (pb_onMessage (plain_protobuf ''muduo.Query'') defaultErrorCallback b)) segs newBuffer
                = Some ([''query''], b) \<and> readable b = []))"
  by (rule protobuf_codec_roundtrip) (simp add: plain_protobuf_def protobuf_lib_def)

end
