(* ===== verification/IdleConnection.thy ===== *)
theory IdleConnection
  imports NetBuffer
begin

text \<open>
  The two servers that close idle connections (\<open>examples/idleconnection\<close>). \<open>echo.cc\<close> keeps a wheel of
  buckets in a \<open>boost::circular_buffer\<close>: a connection's entry is put into the last bucket at every
  message, every second the first bucket is dropped, and the entry's destructor, which runs when
  its last reference goes, shuts the connection down. \<open>sortedlist.cc\<close> keeps the connections in a
  list ordered by their last message. The operations of the circular buffer are the argument
  \<open>rg\<close>; \<open>ring_spec\<close> states what its documentation promises. Reference counts are explicit.
\<close>

section \<open>The wheel\<close>

subsection \<open>State and operations\<close>

text \<open>\<open>rg_push_back\<close> also returns the elements it destroys.\<close>

record ('q, 'b) ring_ops =
  rg_new :: "nat \<Rightarrow> 'q"
  rg_resize :: "nat \<Rightarrow> 'q \<Rightarrow> 'q"
  rg_size :: "'q \<Rightarrow> nat"
  rg_back :: "'q \<Rightarrow> 'b"
  rg_set_back :: "'b \<Rightarrow> 'q \<Rightarrow> 'q"
  rg_push_back :: "'b \<Rightarrow> 'q \<Rightarrow> 'q \<times> 'b list"

text \<open>An entry is known by its number, a bucket is the set of entries it refers to. \<open>wlContext\<close> is the
  weak pointer stored in a connection, \<open>wlLive\<close> says which connection objects exist, \<open>wlShut\<close> and
  \<open>wlSent\<close> list the calls of \<open>shutdown\<close> and \<open>send\<close>.\<close>

record entry =
  weakConn :: nat
  useCount :: nat

record 'q wheel =
  wlBuckets :: 'q
  wlEntries :: "entry list"
  wlContext :: "nat \<Rightarrow> nat option"
  wlLive :: "nat \<Rightarrow> bool"
  wlShut :: "nat list"
  wlSent :: "(nat \<times> char list) list"

definition newWheel :: "('q, nat list) ring_ops \<Rightarrow> int \<Rightarrow> 'q wheel" where
  "newWheel rg idleSeconds =
     (let n = nat (idleSeconds mod 2 ^ 64)
      in \<lparr>wlBuckets = rg_resize rg n (rg_new rg n), wlEntries = [], wlContext = Map.empty, wlLive = \<lambda>_. False,
          wlShut = [], wlSent = []\<rparr>)"

text \<open>A reference comes or goes; with the last one the destructor runs.\<close>

definition entry_get :: "nat \<Rightarrow> 'q wheel \<Rightarrow> 'q wheel" where
  "entry_get e w = w\<lparr>wlEntries := (wlEntries w)[e := (wlEntries w ! e)\<lparr>useCount := useCount (wlEntries w ! e) + 1\<rparr>]\<rparr>"

definition destroyEntry :: "nat \<Rightarrow> 'q wheel \<Rightarrow> 'q wheel" where
  "destroyEntry e w =
     (let c = weakConn (wlEntries w ! e) in if wlLive w c then w\<lparr>wlShut := wlShut w @ [c]\<rparr> else w)"

definition entry_put :: "'q wheel \<Rightarrow> nat \<Rightarrow> 'q wheel" where
  "entry_put w e =
     (let u = useCount (wlEntries w ! e) - 1;
          w1 = w\<lparr>wlEntries := (wlEntries w)[e := (wlEntries w ! e)\<lparr>useCount := u\<rparr>]\<rparr>
      in if u = 0 then destroyEntry e w1 else w1)"

text \<open>\<open>connectionBuckets_.back().insert(entry)\<close>.\<close>

definition back_insert :: "('q, nat list) ring_ops \<Rightarrow> nat \<Rightarrow> 'q wheel \<Rightarrow> 'q wheel res" where
  "back_insert rg e w =
     (if rg_size rg (wlBuckets w) = 0 then Inl (BadAccess ''circular_buffer::back'')
      else let b = rg_back rg (wlBuckets w)
        in Inr (if e \<in> set b then w
                else entry_get e (w\<lparr>wlBuckets := rg_set_back rg (b @ [e]) (wlBuckets w)\<rparr>)))"

definition wl_onConnection :: "('q, nat list) ring_ops \<Rightarrow> nat \<Rightarrow> bool \<Rightarrow> 'q wheel \<Rightarrow> 'q wheel res" where
  "wl_onConnection rg c connected w =
     (if connected then
        let e = length (wlEntries w);
            w1 = w\<lparr>wlEntries := wlEntries w @ [\<lparr>weakConn = c, useCount = 1\<rparr>]\<rparr>
        in bindR (back_insert rg e w1) (\<lambda>w2.
           Inr (entry_put (w2\<lparr>wlContext := (wlContext w2)(c \<mapsto> e)\<rparr>) e))
      else ensure (wlContext w c \<noteq> None) ''onConnection: !conn->getContext().empty()'' (Inr w))"

text \<open>\<open>weakEntry.lock()\<close> gives a reference exactly while there is one.\<close>

definition wl_onMessage :: "('q, nat list) ring_ops \<Rightarrow> nat \<Rightarrow> netbuf \<Rightarrow> 'q wheel \<Rightarrow> ('q wheel \<times> netbuf) res" where
  "wl_onMessage rg c buf w =
     bindR (retrieveAllAsString buf) (\<lambda>(msg, buf').
     let w1 = w\<lparr>wlSent := wlSent w @ [(c, msg)]\<rparr>
     in case wlContext w1 c of
          None \<Rightarrow> Inl (AssertFailed ''onMessage: !conn->getContext().empty()'')
        | Some e \<Rightarrow>
            if 0 < useCount (wlEntries w1 ! e)
            then bindR (back_insert rg e (entry_get e w1)) (\<lambda>w2. Inr (entry_put w2 e, buf'))
            else Inr (w1, buf'))"

definition wl_onTimer :: "('q, nat list) ring_ops \<Rightarrow> 'q wheel \<Rightarrow> 'q wheel" where
  "wl_onTimer rg w =
     (let (q, gone) = rg_push_back rg [] (wlBuckets w)
      in foldl entry_put (w\<lparr>wlBuckets := q\<rparr>) (concat gone))"

subsection \<open>Events\<close>

datatype wl_event = WlUp nat | WlMessage nat netbuf | WlTimer | WlDown nat | WlFreed nat

fun wl_event_do :: "('q, nat list) ring_ops \<Rightarrow> wl_event \<Rightarrow> 'q wheel \<Rightarrow> 'q wheel res" where
  "wl_event_do rg (WlUp c) w = wl_onConnection rg c True (w\<lparr>wlLive := (wlLive w)(c := True)\<rparr>)"
| "wl_event_do rg (WlMessage c buf) w = bindR (wl_onMessage rg c buf w) (\<lambda>(w', buf'). Inr w')"
| "wl_event_do rg WlTimer w = Inr (wl_onTimer rg w)"
| "wl_event_do rg (WlDown c) w = wl_onConnection rg c False w"
| "wl_event_do rg (WlFreed c) w = Inr (w\<lparr>wlLive := (wlLive w)(c := False)\<rparr>)"

text \<open>A connection object is new when it comes up, and gets messages and goes down after that.\<close>

fun wl_legal :: "wl_event \<Rightarrow> 'q wheel \<Rightarrow> bool" where
  "wl_legal (WlUp c) w \<longleftrightarrow> wlContext w c = None"
| "wl_legal (WlMessage c buf) w \<longleftrightarrow> wlContext w c \<noteq> None \<and> buf_wf buf"
| "wl_legal (WlDown c) w \<longleftrightarrow> wlContext w c \<noteq> None"
| "wl_legal ev w \<longleftrightarrow> True"

fun wl_legal_run :: "('q, nat list) ring_ops \<Rightarrow> wl_event list \<Rightarrow> 'q wheel \<Rightarrow> 'q wheel res option" where
  "wl_legal_run rg [] w = Some (Inr w)"
| "wl_legal_run rg (ev # evs) w =
     (if wl_legal ev w
      then (case wl_event_do rg ev w of Inl e \<Rightarrow> Some (Inl e) | Inr w' \<Rightarrow> wl_legal_run rg evs w')
      else None)"

subsection \<open>Specification\<close>

text \<open>The documented behaviour of \<open>boost::circular_buffer\<close>: \<open>items\<close> are its elements from front to back,
  \<open>cap\<close> its capacity; \<open>push_back\<close> on a full buffer overwrites the front.\<close>

definition ring_spec :: "('q, nat list) ring_ops \<Rightarrow> ('q \<Rightarrow> nat list list) \<Rightarrow> ('q \<Rightarrow> nat) \<Rightarrow> bool" where
  "ring_spec rg items cap \<longleftrightarrow>
     (\<forall>n. items (rg_new rg n) = [] \<and> cap (rg_new rg n) = n)
   \<and> (\<forall>q n. length (items q) \<le> n \<and> n \<le> cap q \<longrightarrow>
        items (rg_resize rg n q) = items q @ replicate (n - length (items q)) [] \<and> cap (rg_resize rg n q) = cap q)
   \<and> (\<forall>q. rg_size rg q = length (items q))
   \<and> (\<forall>q b. items q \<noteq> [] \<longrightarrow> rg_back rg q = last (items q)
        \<and> items (rg_set_back rg b q) = butlast (items q) @ [b] \<and> cap (rg_set_back rg b q) = cap q)
   \<and> (\<forall>q b. items q \<noteq> [] \<and> length (items q) = cap q \<longrightarrow>
        (\<exists>q'. rg_push_back rg b q = (q', [hd (items q)]) \<and> items q' = tl (items q) @ [b] \<and> cap q' = cap q))"

text \<open>What the server promises: a connection is shut down at the \<open>n\<close>-th tick after its last message,
  once, and what it sends is echoed. \<open>idAge\<close> counts the ticks since then, \<open>idShut\<close> the calls of
  \<open>shutdown\<close>.\<close>

record idle_state =
  idAge :: "nat \<Rightarrow> nat option"
  idLive :: "nat \<Rightarrow> bool"
  idShut :: "nat \<Rightarrow> nat"
  idSent :: "(nat \<times> char list) list"

definition idle_init :: idle_state where
  "idle_init = \<lparr>idAge = Map.empty, idLive = \<lambda>_. False, idShut = \<lambda>_. 0, idSent = []\<rparr>"

definition older :: "nat \<Rightarrow> nat option \<Rightarrow> nat option" where
  "older n a = (case a of None \<Rightarrow> None | Some k \<Rightarrow> if k + 1 < n then Some (k + 1) else None)"

fun idle_do :: "nat \<Rightarrow> wl_event \<Rightarrow> idle_state \<Rightarrow> idle_state" where
  "idle_do n (WlUp c) s = s\<lparr>idAge := (idAge s)(c \<mapsto> 0), idLive := (idLive s)(c := True)\<rparr>"
| "idle_do n (WlMessage c buf) s = s\<lparr>idAge := if idAge s c = None then idAge s else (idAge s)(c \<mapsto> 0),
     idSent := idSent s @ [(c, readable buf)]\<rparr>"
| "idle_do n WlTimer s = s\<lparr>idAge := \<lambda>c. older n (idAge s c),
     idShut := \<lambda>c. idShut s c + (if idAge s c = Some (n - 1) \<and> idLive s c then 1 else 0)\<rparr>"
| "idle_do n (WlDown c) s = s"
| "idle_do n (WlFreed c) s = s\<lparr>idLive := (idLive s)(c := False)\<rparr>"

subsection \<open>Ages and reference counts\<close>

definition age_in :: "nat list list \<Rightarrow> nat \<Rightarrow> nat" where
  "age_in bs e = length (takeWhile (\<lambda>b. e \<notin> set b) (rev bs))"

definition uses_in :: "nat list list \<Rightarrow> nat \<Rightarrow> nat" where
  "uses_in bs e = length (filter (\<lambda>b. e \<in> set b) bs)"

lemma age_le: "age_in bs e \<le> length bs"
  using length_takeWhile_le[of _ "rev bs"] by (simp add: age_in_def)

lemma takeWhile_all: "length (takeWhile P xs) = length xs \<longleftrightarrow> (\<forall>x\<in>set xs. P x)"
  by (induction xs) auto

lemma unused_iff: "uses_in bs e = 0 \<longleftrightarrow> age_in bs e = length bs"
  using takeWhile_all[of "\<lambda>b. e \<notin> set b" "rev bs"] by (auto simp: uses_in_def age_in_def filter_empty_conv)

lemma back_add:
  assumes "bs \<noteq> []" and bs': "bs' = butlast bs @ [last bs @ [e]]" and "e \<notin> set (last bs)"
  shows "age_in bs' f = (if f = e then 0 else age_in bs f)"
    and "uses_in bs' f = uses_in bs f + (if f = e then 1 else 0)"
proof -
  obtain ys y where bs: "bs = ys @ [y]" using assms(1) by (cases bs rule: rev_cases) auto
  show "age_in bs' f = (if f = e then 0 else age_in bs f)"
    using bs' bs by (simp add: age_in_def)
  show "uses_in bs' f = uses_in bs f + (if f = e then 1 else 0)"
    using bs' bs assms(3) by (simp add: uses_in_def)
qed

lemma age_last: "bs \<noteq> [] \<Longrightarrow> e \<in> set (last bs) \<Longrightarrow> age_in bs e = 0"
  by (cases bs rule: rev_cases) (simp_all add: age_in_def)

lemma tick_age:
  assumes "bs \<noteq> []"
  shows "age_in (tl bs @ [[]]) e = min (Suc (age_in bs e)) (length bs)"
proof -
  obtain b bs1 where bs: "bs = b # bs1" using assms by (cases bs) auto
  have "length (takeWhile P xs) = min (length (takeWhile P (xs @ [x]))) (length xs)" for P xs and x :: "nat list"
    using length_takeWhile_le[of P xs] by (induction xs) auto
  from this[of "\<lambda>b. e \<notin> set b" "rev bs1" b] show ?thesis by (simp add: age_in_def bs)
qed

lemma tick_uses:
  assumes "bs \<noteq> []"
  shows "uses_in (tl bs @ [[]]) e = uses_in bs e - (if e \<in> set (hd bs) then 1 else 0)"
  using assms by (cases bs) (auto simp: uses_in_def)

lemma dropped_iff:
  assumes "bs \<noteq> []"
  shows "e \<in> set (hd bs) \<and> uses_in bs e = 1 \<longleftrightarrow> age_in bs e = length bs - 1"
proof -
  have "age_in bs e = length bs - 1 \<longleftrightarrow> uses_in bs e \<noteq> 0 \<and> uses_in (tl bs @ [[]]) e = 0"
    unfolding unused_iff tick_age[OF assms] using age_le[of bs e] assms by (cases bs) auto
  then show ?thesis unfolding tick_uses[OF assms] by auto
qed

text \<open>Dropping the references of a bucket.\<close>

lemma drop_bucket:
  assumes "distinct es" and "\<And>e. e \<in> set es \<Longrightarrow> e < length (wlEntries w)"
    and "w' = foldl entry_put w es"
  shows "wlEntries w' = map (\<lambda>e. if e \<in> set es then (wlEntries w ! e)\<lparr>useCount := useCount (wlEntries w ! e) - 1\<rparr> else wlEntries w ! e)
      [0..<length (wlEntries w)]
    \<and> wlShut w' = wlShut w @ map (\<lambda>e. weakConn (wlEntries w ! e))
        (filter (\<lambda>e. useCount (wlEntries w ! e) - 1 = 0 \<and> wlLive w (weakConn (wlEntries w ! e))) es)
    \<and> wlBuckets w' = wlBuckets w \<and> wlContext w' = wlContext w \<and> wlLive w' = wlLive w \<and> wlSent w' = wlSent w"
  using assms
proof (induction es arbitrary: w)
  case Nil
  then show ?case by (simp add: map_nth)
next
  case (Cons e es)
  define w1 where "w1 = entry_put w e"
  have w1: "wlEntries w1 = (wlEntries w)[e := (wlEntries w ! e)\<lparr>useCount := useCount (wlEntries w ! e) - 1\<rparr>]"
    "wlShut w1 = wlShut w @ (if useCount (wlEntries w ! e) - 1 = 0 \<and> wlLive w (weakConn (wlEntries w ! e)) then [weakConn (wlEntries w ! e)] else [])"
    "wlBuckets w1 = wlBuckets w" "wlContext w1 = wlContext w" "wlLive w1 = wlLive w" "wlSent w1 = wlSent w"
    using Cons.prems(2)[of e] by (simp_all add: w1_def entry_put_def destroyEntry_def Let_def)
  have e: "e < length (wlEntries w)" "e \<notin> set es" "distinct es" using Cons.prems by auto
  have other: "wlEntries w1 ! f = wlEntries w ! f" if "f \<in> set es" for f using w1(1) that e(2) by (cases "f = e") auto
  have "filter (\<lambda>f. useCount (wlEntries w1 ! f) - 1 = 0 \<and> wlLive w1 (weakConn (wlEntries w1 ! f))) es
      = filter (\<lambda>f. useCount (wlEntries w ! f) - 1 = 0 \<and> wlLive w (weakConn (wlEntries w ! f))) es"
    using other w1(5) by (intro filter_cong) auto
  moreover have "map (\<lambda>f. weakConn (wlEntries w1 ! f)) (filter P es) = map (\<lambda>f. weakConn (wlEntries w ! f)) (filter P es)" for P
    using other by auto
  moreover have "map (\<lambda>f. if f \<in> set es then (wlEntries w1 ! f)\<lparr>useCount := useCount (wlEntries w1 ! f) - 1\<rparr> else wlEntries w1 ! f) [0..<length (wlEntries w1)]
    = map (\<lambda>f. if f \<in> set (e # es) then (wlEntries w ! f)\<lparr>useCount := useCount (wlEntries w ! f) - 1\<rparr> else wlEntries w ! f) [0..<length (wlEntries w)]"
    using w1(1) e by (intro nth_equalityI) (auto simp: nth_list_update)
  moreover have "\<And>f. f \<in> set es \<Longrightarrow> f < length (wlEntries w1)" "w' = foldl entry_put w1 es"
    using Cons.prems(2,3) w1(1) by (simp_all add: w1_def)
  ultimately show ?case
    using Cons.IH[OF e(3), of w1] w1(2-6) by simp
qed


subsection \<open>Simulation\<close>

definition wheel_ok :: "('q \<Rightarrow> nat list list) \<Rightarrow> ('q \<Rightarrow> nat) \<Rightarrow> nat \<Rightarrow> 'q wheel \<Rightarrow> bool" where
  "wheel_ok items cap n w \<longleftrightarrow> (let bs = items (wlBuckets w) in
     length bs = n \<and> cap (wlBuckets w) = n
   \<and> (\<forall>b\<in>set bs. distinct b \<and> set b \<subseteq> {..<length (wlEntries w)})
   \<and> (\<forall>e < length (wlEntries w). useCount (wlEntries w ! e) = uses_in bs e \<and> wlContext w (weakConn (wlEntries w ! e)) = Some e)
   \<and> (\<forall>c e. wlContext w c = Some e \<longrightarrow> e < length (wlEntries w) \<and> weakConn (wlEntries w ! e) = c))"

definition age_of :: "nat list list \<Rightarrow> nat \<Rightarrow> nat option \<Rightarrow> nat option" where
  "age_of bs n ctx = (case ctx of None \<Rightarrow> None | Some e \<Rightarrow> if age_in bs e < n then Some (age_in bs e) else None)"

lemma age_of_simps [simp]: "age_of bs n None = None" "age_of bs n (Some e) = (if age_in bs e < n then Some (age_in bs e) else None)"
  by (simp_all add: age_of_def)

definition idle_rel :: "('q \<Rightarrow> nat list list) \<Rightarrow> nat \<Rightarrow> 'q wheel \<Rightarrow> idle_state \<Rightarrow> bool" where
  "idle_rel items n w s \<longleftrightarrow> idLive s = wlLive w \<and> idSent s = wlSent w \<and> (\<forall>c. idShut s c = count_list (wlShut w) c
     \<and> idAge s c = age_of (items (wlBuckets w)) n (wlContext w c))"

lemma wheel_okD:
  assumes "wheel_ok items cap n w"
  shows "length (items (wlBuckets w)) = n" "cap (wlBuckets w) = n"
    and "b \<in> set (items (wlBuckets w)) \<Longrightarrow> distinct b" "b \<in> set (items (wlBuckets w)) \<Longrightarrow> e \<in> set b \<Longrightarrow> e < length (wlEntries w)"
    and "e < length (wlEntries w) \<Longrightarrow> useCount (wlEntries w ! e) = uses_in (items (wlBuckets w)) e"
    and "e < length (wlEntries w) \<Longrightarrow> wlContext w (weakConn (wlEntries w ! e)) = Some e"
    and "wlContext w c = Some e \<Longrightarrow> e < length (wlEntries w)" "wlContext w c = Some e \<Longrightarrow> weakConn (wlEntries w ! e) = c"
  using assms by (auto simp: wheel_ok_def Let_def)

lemma wheel_okI:
  assumes "length (items (wlBuckets w)) = n" "cap (wlBuckets w) = n"
    and "\<And>b. b \<in> set (items (wlBuckets w)) \<Longrightarrow> distinct b" "\<And>b e. b \<in> set (items (wlBuckets w)) \<Longrightarrow> e \<in> set b \<Longrightarrow> e < length (wlEntries w)"
    and "\<And>e. e < length (wlEntries w) \<Longrightarrow> useCount (wlEntries w ! e) = uses_in (items (wlBuckets w)) e"
    and "\<And>e. e < length (wlEntries w) \<Longrightarrow> wlContext w (weakConn (wlEntries w ! e)) = Some e"
    and "\<And>c e. wlContext w c = Some e \<Longrightarrow> e < length (wlEntries w)" "\<And>c e. wlContext w c = Some e \<Longrightarrow> weakConn (wlEntries w ! e) = c"
  shows "wheel_ok items cap n w"
  using assms by (auto simp: wheel_ok_def Let_def)

text \<open>Putting an entry that a temporary reference keeps into the last bucket.\<close>

lemma touch:
  assumes spec: "ring_spec rg items cap" and n: "0 < n" and len: "length (items (wlBuckets w)) = n"
    and e: "e < length (wlEntries w)" and u: "useCount (wlEntries w ! e) = Suc (uses_in (items (wlBuckets w)) e)"
  obtains w1 q where "back_insert rg e w = Inr w1"
    "entry_put (w1\<lparr>wlContext := ctx\<rparr>) e = w\<lparr>wlBuckets := q, wlContext := ctx,
       wlEntries := (wlEntries w)[e := (wlEntries w ! e)\<lparr>useCount := uses_in (items q) e\<rparr>]\<rparr>"
    "entry_put w1 e = w\<lparr>wlBuckets := q,
       wlEntries := (wlEntries w)[e := (wlEntries w ! e)\<lparr>useCount := uses_in (items q) e\<rparr>]\<rparr>"
    "length (items q) = n" "cap q = cap (wlBuckets w)"
    "\<And>f. age_in (items q) f = (if f = e then 0 else age_in (items (wlBuckets w)) f)"
    "\<And>f. f \<noteq> e \<Longrightarrow> uses_in (items q) f = uses_in (items (wlBuckets w)) f"
    "\<And>b. b \<in> set (items q) \<Longrightarrow> \<exists>b0 \<in> set (items (wlBuckets w)). b = b0 \<or> e \<notin> set b0 \<and> b = b0 @ [e]"
proof -
  let ?q = "wlBuckets w" and ?bs = "items (wlBuckets w)"
  have ne: "?bs \<noteq> []" using n len by auto
  have s: "rg_size rg ?q = n" "rg_back rg ?q = last ?bs" "\<And>b. items (rg_set_back rg b ?q) = butlast ?bs @ [b]"
    "\<And>b. cap (rg_set_back rg b ?q) = cap ?q"
    using spec ne len by (auto simp: ring_spec_def)
  show thesis
  proof (cases "e \<in> set (last ?bs)")
    case True
    have pos: "uses_in ?bs e \<noteq> 0" using True ne unfolding unused_iff by (simp add: age_last)
    show thesis
    proof (rule that)
      show "back_insert rg e w = Inr w" using s n True by (simp add: back_insert_def)
      show "entry_put (w\<lparr>wlContext := ctx\<rparr>) e = w\<lparr>wlBuckets := ?q, wlContext := ctx,
         wlEntries := (wlEntries w)[e := (wlEntries w ! e)\<lparr>useCount := uses_in ?bs e\<rparr>]\<rparr>"
        "entry_put w e = w\<lparr>wlBuckets := ?q, wlEntries := (wlEntries w)[e := (wlEntries w ! e)\<lparr>useCount := uses_in ?bs e\<rparr>]\<rparr>"
        using u pos by (simp_all add: entry_put_def Let_def)
      show "age_in ?bs f = (if f = e then 0 else age_in ?bs f)" for f using True ne by (simp add: age_last)
    qed (use len in auto)
  next
    case False
    let ?q' = "rg_set_back rg (last ?bs @ [e]) ?q"
    have bs': "items ?q' = butlast ?bs @ [last ?bs @ [e]]" using s(3) .
    note ba = back_add[OF ne bs' False]
    show thesis
    proof (rule that)
      show "back_insert rg e w = Inr (entry_get e (w\<lparr>wlBuckets := ?q'\<rparr>))" using s n False by (simp add: back_insert_def)
      show "entry_put (entry_get e (w\<lparr>wlBuckets := ?q'\<rparr>)\<lparr>wlContext := ctx\<rparr>) e = w\<lparr>wlBuckets := ?q', wlContext := ctx,
         wlEntries := (wlEntries w)[e := (wlEntries w ! e)\<lparr>useCount := uses_in (items ?q') e\<rparr>]\<rparr>"
        "entry_put (entry_get e (w\<lparr>wlBuckets := ?q'\<rparr>)) e = w\<lparr>wlBuckets := ?q',
         wlEntries := (wlEntries w)[e := (wlEntries w ! e)\<lparr>useCount := uses_in (items ?q') e\<rparr>]\<rparr>"
        using u e ba(2)[of e] by (simp_all add: entry_put_def entry_get_def Let_def)
      show "length (items ?q') = n" using ne n len bs' by simp
      show "\<exists>b0 \<in> set ?bs. b = b0 \<or> e \<notin> set b0 \<and> b = b0 @ [e]" if "b \<in> set (items ?q')" for b
      proof -
        from that have "b \<in> set (butlast ?bs) \<or> b = last ?bs @ [e]" by (auto simp: bs')
        then show ?thesis using False ne in_set_butlastD[of b ?bs] last_in_set[OF ne] by blast
      qed
    qed (use ba s(4) in auto)
  qed
qed


lemma up_step:
  assumes spec: "ring_spec rg items cap" and n: "0 < n" and ok: "wheel_ok items cap n w" and rel: "idle_rel items n w s"
    and legal: "wl_legal (WlUp c) w"
  shows "\<exists>w'. wl_event_do rg (WlUp c) w = Inr w' \<and> wheel_ok items cap n w' \<and> idle_rel items n w' (idle_do n (WlUp c) s)"
proof -
  note D = wheel_okD[OF ok]
  let ?e = "length (wlEntries w)" and ?bs = "items (wlBuckets w)"
  define w0 where "w0 = w\<lparr>wlLive := (wlLive w)(c := True), wlEntries := wlEntries w @ [\<lparr>weakConn = c, useCount = 1\<rparr>]\<rparr>"
  have fresh: "uses_in ?bs ?e = 0" using D(4) by (fastforce simp: uses_in_def filter_empty_conv)
  have pre: "length (items (wlBuckets w0)) = n" "?e < length (wlEntries w0)" "useCount (wlEntries w0 ! ?e) = Suc (uses_in (items (wlBuckets w0)) ?e)"
    using D(1) fresh by (simp_all add: w0_def)
  obtain w1 q where t: "back_insert rg ?e w0 = Inr w1"
    "entry_put (w1\<lparr>wlContext := (wlContext w)(c \<mapsto> ?e)\<rparr>) ?e = w0\<lparr>wlBuckets := q, wlContext := (wlContext w)(c \<mapsto> ?e),
       wlEntries := (wlEntries w0)[?e := (wlEntries w0 ! ?e)\<lparr>useCount := uses_in (items q) ?e\<rparr>]\<rparr>"
    "entry_put w1 ?e = w0\<lparr>wlBuckets := q,
       wlEntries := (wlEntries w0)[?e := (wlEntries w0 ! ?e)\<lparr>useCount := uses_in (items q) ?e\<rparr>]\<rparr>"
    "length (items q) = n" "cap q = cap (wlBuckets w0)"
    "\<And>f. age_in (items q) f = (if f = ?e then 0 else age_in (items (wlBuckets w0)) f)"
    "\<And>f. f \<noteq> ?e \<Longrightarrow> uses_in (items q) f = uses_in (items (wlBuckets w0)) f"
    "\<And>b. b \<in> set (items q) \<Longrightarrow> \<exists>b0 \<in> set (items (wlBuckets w0)). b = b0 \<or> ?e \<notin> set b0 \<and> b = b0 @ [?e]"
    by (rule touch[OF spec n pre, of "(wlContext w)(c \<mapsto> ?e)"], rule that) (assumption | blast)+
  define w' where "w' = w0\<lparr>wlBuckets := q, wlContext := (wlContext w)(c \<mapsto> ?e),
       wlEntries := (wlEntries w0)[?e := (wlEntries w0 ! ?e)\<lparr>useCount := uses_in (items q) ?e\<rparr>]\<rparr>"
  have ctx: "wlContext w1 = wlContext w"
    using t(1) by (auto simp: back_insert_def Let_def entry_get_def w0_def split: if_splits)
  have "wl_event_do rg (WlUp c) w = Inr w'"
    using t(1,2) ctx by (simp add: wl_onConnection_def Let_def w'_def w0_def)
  moreover have "wheel_ok items cap n w'"
  proof (rule wheel_okI)
    show "length (items (wlBuckets w')) = n" "cap (wlBuckets w') = n" using t(4,5) D(2) by (simp_all add: w'_def w0_def)
    show "distinct b" if "b \<in> set (items (wlBuckets w'))" for b
      using t(8)[of b] that D(3) by (auto simp: w'_def w0_def)
    show "e < length (wlEntries w')" if "b \<in> set (items (wlBuckets w'))" "e \<in> set b" for b e
      using t(8)[of b] that D(4)[THEN less_SucI] by (auto simp: w'_def w0_def)
    show "useCount (wlEntries w' ! e) = uses_in (items (wlBuckets w')) e" if "e < length (wlEntries w')" for e
      using that D(5)[of e] t(7)[of e] by (cases "e = ?e") (auto simp: w'_def w0_def nth_append)
    show "wlContext w' (weakConn (wlEntries w' ! e)) = Some e" if "e < length (wlEntries w')" for e
      using that D(6)[of e] legal by (cases "e = ?e") (auto simp: w'_def w0_def nth_append)
    show "e < length (wlEntries w')" if "wlContext w' d = Some e" for d e
      using that D(7)[of d e] by (auto simp: w'_def w0_def split: if_splits)
    show "weakConn (wlEntries w' ! e) = d" if "wlContext w' d = Some e" for d e
      using that D(7,8)[of d e] by (auto simp: w'_def w0_def nth_append split: if_splits)
  qed
  moreover have "idle_rel items n w' (idle_do n (WlUp c) s)"
  proof -
    have "age_of (items (wlBuckets w')) n (wlContext w' d) = (if d = c then Some 0 else idAge s d)" for d
      using rel t(6) n D(7)[of d] by (cases "wlContext w d") (auto simp: idle_rel_def w'_def w0_def)
    then show ?thesis using rel by (simp add: idle_rel_def w'_def w0_def)
  qed
  ultimately show ?thesis by blast
qed

lemma message_step:
  assumes spec: "ring_spec rg items cap" and n: "0 < n" and ok: "wheel_ok items cap n w" and rel: "idle_rel items n w s"
    and legal: "wl_legal (WlMessage c buf) w"
  shows "\<exists>w'. wl_event_do rg (WlMessage c buf) w = Inr w' \<and> wheel_ok items cap n w' \<and> idle_rel items n w' (idle_do n (WlMessage c buf) s)"
proof -
  note D = wheel_okD[OF ok]
  let ?bs = "items (wlBuckets w)"
  obtain buf' where buf': "retrieveAllAsString buf = Inr (readable buf, buf')"
    using retrieveAsString_ok[of buf "readableBytes buf"] legal by (auto simp: retrieveAllAsString_def)
  obtain e where e: "wlContext w c = Some e" using legal by auto
  have el: "e < length (wlEntries w)" and ec: "weakConn (wlEntries w ! e) = c" using D(7,8) e by auto
  have age: "idAge s c = (if age_in ?bs e < n then Some (age_in ?bs e) else None)" using rel e by (simp add: idle_rel_def)
  have dead: "useCount (wlEntries w ! e) = 0 \<longleftrightarrow> \<not> age_in ?bs e < n"
    using D(5)[OF el] D(1) age_le[of ?bs e] unused_iff[of ?bs e] by auto
  show ?thesis
  proof (cases "age_in ?bs e < n")
    case False
    then have "wl_event_do rg (WlMessage c buf) w = Inr (w\<lparr>wlSent := wlSent w @ [(c, readable buf)]\<rparr>)"
      using buf' e dead by (simp add: wl_onMessage_def Let_def)
    moreover have "wheel_ok items cap n (w\<lparr>wlSent := wlSent w @ [(c, readable buf)]\<rparr>)" using ok by (simp add: wheel_ok_def)
    moreover have "idle_rel items n (w\<lparr>wlSent := wlSent w @ [(c, readable buf)]\<rparr>) (idle_do n (WlMessage c buf) s)"
      using rel age False by (simp add: idle_rel_def)
    ultimately show ?thesis by blast
  next
    case True
    define w0 where "w0 = entry_get e (w\<lparr>wlSent := wlSent w @ [(c, readable buf)]\<rparr>)"
    have pre: "length (items (wlBuckets w0)) = n" "e < length (wlEntries w0)" "useCount (wlEntries w0 ! e) = Suc (uses_in (items (wlBuckets w0)) e)"
      using D(1) el D(5)[OF el] by (simp_all add: w0_def entry_get_def)
    obtain w1 q where t: "back_insert rg e w0 = Inr w1"
      "entry_put (w1\<lparr>wlContext := wlContext w\<rparr>) e = w0\<lparr>wlBuckets := q, wlContext := wlContext w,
         wlEntries := (wlEntries w0)[e := (wlEntries w0 ! e)\<lparr>useCount := uses_in (items q) e\<rparr>]\<rparr>"
      "entry_put w1 e = w0\<lparr>wlBuckets := q, wlEntries := (wlEntries w0)[e := (wlEntries w0 ! e)\<lparr>useCount := uses_in (items q) e\<rparr>]\<rparr>"
      "length (items q) = n" "cap q = cap (wlBuckets w0)"
      "\<And>f. age_in (items q) f = (if f = e then 0 else age_in (items (wlBuckets w0)) f)"
      "\<And>f. f \<noteq> e \<Longrightarrow> uses_in (items q) f = uses_in (items (wlBuckets w0)) f"
      "\<And>b. b \<in> set (items q) \<Longrightarrow> \<exists>b0 \<in> set (items (wlBuckets w0)). b = b0 \<or> e \<notin> set b0 \<and> b = b0 @ [e]"
      by (rule touch[OF spec n pre, of "wlContext w"], rule that) (assumption | blast)+
    define w' where "w' = w\<lparr>wlSent := wlSent w @ [(c, readable buf)], wlBuckets := q,
      wlEntries := (wlEntries w)[e := (wlEntries w ! e)\<lparr>useCount := uses_in (items q) e\<rparr>]\<rparr>"
    have "w0\<lparr>wlBuckets := q, wlEntries := (wlEntries w0)[e := (wlEntries w0 ! e)\<lparr>useCount := uses_in (items q) e\<rparr>]\<rparr> = w'"
      using el by (simp add: w0_def w'_def entry_get_def)
    then have run: "wl_event_do rg (WlMessage c buf) w = Inr w'"
      using buf' e dead True t(1,3) by (simp add: wl_onMessage_def Let_def w0_def[symmetric])
    have len: "length (wlEntries w') = length (wlEntries w)" by (simp add: w'_def)
    have wc: "weakConn (wlEntries w' ! f) = weakConn (wlEntries w ! f)" if "f < length (wlEntries w)" for f
      using that by (cases "f = e") (simp_all add: w'_def)
    have "wheel_ok items cap n w'"
    proof (rule wheel_okI)
      show "length (items (wlBuckets w')) = n" "cap (wlBuckets w') = n" using t(4,5) D(2) by (simp_all add: w'_def w0_def entry_get_def)
      show "distinct b" if "b \<in> set (items (wlBuckets w'))" for b
        using t(8)[of b] that D(3) by (auto simp: w'_def w0_def entry_get_def)
      show "f < length (wlEntries w')" if "b \<in> set (items (wlBuckets w'))" "f \<in> set b" for b f
        using t(8)[of b] that D(4) el by (auto simp: w'_def w0_def entry_get_def)
      show "useCount (wlEntries w' ! f) = uses_in (items (wlBuckets w')) f" if "f < length (wlEntries w')" for f
        using that D(5)[of f] t(7)[of f] by (cases "f = e") (auto simp: w'_def w0_def entry_get_def)
      show "wlContext w' (weakConn (wlEntries w' ! f)) = Some f" if "f < length (wlEntries w')" for f
        using that D(6)[of f] wc[of f] len by (simp add: w'_def)
      show "f < length (wlEntries w')" if "wlContext w' d = Some f" for d f using that D(7) len by (simp add: w'_def)
      show "weakConn (wlEntries w' ! f) = d" if "wlContext w' d = Some f" for d f
        using that D(7,8)[of d f] wc[of f] by (simp add: w'_def)
    qed
    moreover have "idle_rel items n w' (idle_do n (WlMessage c buf) s)"
    proof -
      have "age_of (items (wlBuckets w')) n (wlContext w' d) = (if d = c then Some 0 else idAge s d)" for d
        using rel t(6) n e D(8)[of d] ec by (cases "wlContext w d") (auto simp: idle_rel_def w'_def w0_def entry_get_def)
      then show ?thesis using rel age True by (simp add: idle_rel_def w'_def)
    qed
    ultimately show ?thesis using run by blast
  qed
qed


lemma timer_step:
  assumes spec: "ring_spec rg items cap" and n: "0 < n" and ok: "wheel_ok items cap n w" and rel: "idle_rel items n w s"
  shows "wheel_ok items cap n (wl_onTimer rg w) \<and> idle_rel items n (wl_onTimer rg w) (idle_do n WlTimer s)"
proof -
  note D = wheel_okD[OF ok]
  let ?bs = "items (wlBuckets w)" and ?E = "wlEntries w"
  have ne: "?bs \<noteq> []" using D(1) n by auto
  then obtain q where q: "rg_push_back rg [] (wlBuckets w) = (q, [hd ?bs])" "items q = tl ?bs @ [[]]" "cap q = n"
    using spec D(1,2) unfolding ring_spec_def by metis
  have hd: "hd ?bs \<in> set ?bs" using ne by simp
  define w' where "w' = wl_onTimer rg w"
  have w'f: "w' = foldl entry_put (w\<lparr>wlBuckets := q\<rparr>) (hd ?bs)" using q(1) by (simp add: w'_def wl_onTimer_def)
  have d: "wlEntries w' = map (\<lambda>e. if e \<in> set (hd ?bs) then (?E ! e)\<lparr>useCount := useCount (?E ! e) - 1\<rparr> else ?E ! e) [0..<length ?E]"
    "wlShut w' = wlShut w @ map (\<lambda>e. weakConn (?E ! e)) (filter (\<lambda>e. useCount (?E ! e) - 1 = 0 \<and> wlLive w (weakConn (?E ! e))) (hd ?bs))"
    "wlBuckets w' = q" "wlContext w' = wlContext w" "wlLive w' = wlLive w" "wlSent w' = wlSent w"
    using drop_bucket[OF D(3)[OF hd], of "w\<lparr>wlBuckets := q\<rparr>" w'] D(4)[OF hd] w'f by simp_all
  have wc: "weakConn (wlEntries w' ! e) = weakConn (?E ! e)" if "e < length ?E" for e using that by (simp add: d(1))
  have "wheel_ok items cap n w'"
  proof (rule wheel_okI)
    show "length (items (wlBuckets w')) = n" "cap (wlBuckets w') = n" using q n D(1) d(3) by auto
    show "distinct b" if "b \<in> set (items (wlBuckets w'))" for b
      using that D(3)[of b] q(2) d(3) list.set_sel(2)[OF ne] by auto
    show "e < length (wlEntries w')" if "b \<in> set (items (wlBuckets w'))" "e \<in> set b" for b e
      using that D(4)[of b e] q(2) d(1,3) list.set_sel(2)[OF ne] by auto
    show "useCount (wlEntries w' ! e) = uses_in (items (wlBuckets w')) e" if "e < length (wlEntries w')" for e
      using that D(5)[of e] tick_uses[OF ne, of e] d(1,3) q(2) by simp
    show "wlContext w' (weakConn (wlEntries w' ! e)) = Some e" if "e < length (wlEntries w')" for e
      using that D(6)[of e] wc[of e] d(1,4) by simp
    show "e < length (wlEntries w')" if "wlContext w' c = Some e" for c e using that D(7) d(1,4) by simp
    show "weakConn (wlEntries w' ! e) = c" if "wlContext w' c = Some e" for c e using that D(7,8)[of c e] wc[of e] d(4) by simp
  qed
  moreover have "idle_rel items n w' (idle_do n WlTimer s)"
  proof -
    have age: "age_of (items (wlBuckets w')) n (wlContext w' c) = older n (idAge s c)" for c
      using rel tick_age[OF ne] D(1) n d(3,4) q(2)
      by (cases "wlContext w c") (auto simp: idle_rel_def older_def min_def)
    have cnt: "count_list (wlShut w') c = idShut s c + (if idAge s c = Some (n - 1) \<and> idLive s c then 1 else 0)" for c
    proof -
      let ?gone = "filter (\<lambda>e. useCount (?E ! e) - 1 = 0 \<and> wlLive w (weakConn (?E ! e))) (hd ?bs)"
      have gone: "e \<in> set ?gone \<longleftrightarrow> e < length ?E \<and> age_in ?bs e = n - 1 \<and> wlLive w (weakConn (?E ! e))" for e
      proof -
        have "uses_in ?bs e \<noteq> 0" if "e \<in> set (hd ?bs)" using that hd by (auto simp: uses_in_def filter_empty_conv)
        then show ?thesis using dropped_iff[OF ne, of e] D(4)[OF hd, of e] D(5)[of e] D(1) by auto
      qed
      have "distinct (map (\<lambda>e. weakConn (?E ! e)) ?gone)"
        using D(3)[OF hd] gone D(6) unfolding distinct_map by (auto intro!: inj_onI) (metis option.inject)
      moreover have "c \<in> set (map (\<lambda>e. weakConn (?E ! e)) ?gone) \<longleftrightarrow> idAge s c = Some (n - 1) \<and> idLive s c"
      proof -
        have "c \<in> set (map (\<lambda>e. weakConn (?E ! e)) ?gone) \<longleftrightarrow> (\<exists>e. wlContext w c = Some e \<and> age_in ?bs e = n - 1 \<and> wlLive w c)"
          unfolding set_map image_iff Bex_def gone using D(6,7,8) by metis
        also have "\<dots> \<longleftrightarrow> idAge s c = Some (n - 1) \<and> idLive s c"
          using rel n by (cases "wlContext w c") (auto simp: idle_rel_def)
        finally show ?thesis .
      qed
      ultimately have "count_list (map (\<lambda>e. weakConn (?E ! e)) ?gone) c = (if idAge s c = Some (n - 1) \<and> idLive s c then 1 else 0)"
        by (simp add: count_list_distinct)
      then show ?thesis using rel d(2) by (simp add: idle_rel_def count_list_append)
    qed
    show ?thesis using rel age cnt d(5,6) by (simp add: idle_rel_def)
  qed
  ultimately show ?thesis by (simp add: w'_def)
qed

lemma wheel_step:
  assumes "ring_spec rg items cap" and "0 < n" and "wheel_ok items cap n w" and "idle_rel items n w s" and "wl_legal ev w"
  shows "\<exists>w'. wl_event_do rg ev w = Inr w' \<and> wheel_ok items cap n w' \<and> idle_rel items n w' (idle_do n ev s)"
proof (cases ev)
  case (WlUp c)
  then show ?thesis using up_step[OF assms(1-4)] assms(5) by blast
next
  case (WlMessage c buf)
  then show ?thesis using message_step[OF assms(1-4)] assms(5) by blast
next
  case WlTimer
  then show ?thesis using timer_step[OF assms(1-4)] by simp
next
  case (WlDown c)
  then show ?thesis using assms(3-5) by (auto simp: wl_onConnection_def)
next
  case (WlFreed c)
  then show ?thesis using assms(3,4) by (simp add: wheel_ok_def idle_rel_def)
qed

lemma wheel_run:
  assumes "ring_spec rg items cap" and "0 < n" and "wheel_ok items cap n w" and "idle_rel items n w s"
    and "wl_legal_run rg evs w = Some r"
  shows "\<exists>w'. r = Inr w' \<and> idle_rel items n w' (fold (idle_do n) evs s)"
  using assms(3-5)
proof (induction evs arbitrary: w s)
  case (Cons ev evs)
  then have legal: "wl_legal ev w" by (auto split: if_splits)
  obtain w' where "wl_event_do rg ev w = Inr w'" "wheel_ok items cap n w'" "idle_rel items n w' (idle_do n ev s)"
    using wheel_step[OF assms(1,2) Cons.prems(1,2) legal] by blast
  then show ?case using Cons.IH Cons.prems(3) legal by auto
qed auto

lemma newWheel_ok:
  assumes spec: "ring_spec rg items cap" and "0 < idleSeconds" "idleSeconds < 2 ^ 64"
  shows "wheel_ok items cap (nat idleSeconds) (newWheel rg idleSeconds)" and "idle_rel items (nat idleSeconds) (newWheel rg idleSeconds) idle_init"
proof -
  let ?n = "nat idleSeconds"
  have m: "nat (idleSeconds mod 2 ^ 64) = ?n" using assms(2,3) by (simp add: mod_pos_pos_trivial)
  have "items (rg_resize rg ?n (rg_new rg ?n)) = replicate ?n []" "cap (rg_resize rg ?n (rg_new rg ?n)) = ?n"
    using spec unfolding ring_spec_def by (metis append_Nil diff_zero le0 list.size(3) order_refl)+
  then show "wheel_ok items cap ?n (newWheel rg idleSeconds)" "idle_rel items ?n (newWheel rg idleSeconds) idle_init"
    using m by (auto simp: newWheel_def wheel_ok_def idle_rel_def idle_init_def Let_def)
qed

text \<open>Property C26. The wheel keeps its promise: for any circular buffer as documented and any sequence of
  connections, messages, ticks and disconnections, no assertion fires and no bucket is missing,
  every message is echoed, and \<open>shutdown\<close> is called on a connection exactly once for
  each time it has been idle for \<open>idleSeconds\<close> ticks, at that tick, and never on an active one.\<close>

theorem idle_wheel_refines:
  assumes "ring_spec rg items cap" and "0 < idleSeconds" and "idleSeconds < 2 ^ 64"
    and "wl_legal_run rg evs (newWheel rg idleSeconds) = Some r"
  shows "\<exists>w. r = Inr w \<and> (let s = fold (idle_do (nat idleSeconds)) evs idle_init in
     wlSent w = idSent s \<and> (\<forall>c. count_list (wlShut w) c = idShut s c))"
  using wheel_run[OF assms(1) _ newWheel_ok[OF assms(1-3)] assms(4)] assms(2) by (auto simp: idle_rel_def Let_def)

definition bucket_ring :: "(nat \<times> nat list list, nat list) ring_ops" where
  "bucket_ring = \<lparr>rg_new = \<lambda>n. (n, []), rg_resize = \<lambda>n q. (fst q, take n (snd q) @ replicate (n - length (snd q)) []),
     rg_size = \<lambda>q. length (snd q), rg_back = \<lambda>q. last (snd q), rg_set_back = \<lambda>b q. (fst q, butlast (snd q) @ [b]),
     rg_push_back = \<lambda>b q. if length (snd q) < fst q then ((fst q, snd q @ [b]), [])
        else if snd q = [] then (q, [b]) else ((fst q, tl (snd q) @ [b]), [hd (snd q)])\<rparr>"

lemma bucket_ring_spec: "ring_spec bucket_ring snd fst"
  by (auto simp: ring_spec_def bucket_ring_def)

theorem idle_wheel_refines_witness:
  "\<exists>w. wl_legal_run bucket_ring [WlUp 7, WlTimer, WlTimer] (newWheel bucket_ring 2) = Some (Inr w) \<and> count_list (wlShut w) 7 = 1"
proof -
  have run: "\<exists>r. wl_legal_run bucket_ring [WlUp 7, WlTimer, WlTimer] (newWheel bucket_ring 2) = Some r"
    by (simp add: newWheel_def bucket_ring_def wl_onConnection_def back_insert_def entry_get_def entry_put_def Let_def)
  then obtain r where r: "wl_legal_run bucket_ring [WlUp 7, WlTimer, WlTimer] (newWheel bucket_ring 2) = Some r" by blast
  have "idShut (fold (idle_do 2) [WlUp 7, WlTimer, WlTimer] idle_init) 7 = 1"
    by (simp add: idle_init_def older_def)
  then show ?thesis using idle_wheel_refines[OF bucket_ring_spec _ _ r] r by (auto simp: Let_def)
qed


section \<open>The sorted list\<close>

subsection \<open>State and operations\<close>

text \<open>The \<open>std::list\<close> as pairs of a position (what an iterator points at, never reused while it is in
  the list) and the weak pointer stored there. Times are in microseconds.\<close>

record list_node =
  lastReceiveTime :: int
  nodePosition :: nat

record sorted_server =
  slList :: "(nat \<times> nat) list"
  slNext :: nat
  slContext :: "nat \<Rightarrow> list_node option"
  slLive :: "nat \<Rightarrow> bool"
  slShut :: "nat list"
  slSent :: "(nat \<times> char list) list"

definition newSorted :: sorted_server where
  "newSorted = \<lparr>slList = [], slNext = 0, slContext = Map.empty, slLive = \<lambda>_. False, slShut = [], slSent = []\<rparr>"

definition list_erase :: "nat \<Rightarrow> sorted_server \<Rightarrow> sorted_server res" where
  "list_erase p s =
     (if p \<in> fst ` set (slList s) then Inr (s\<lparr>slList := filter (\<lambda>x. fst x \<noteq> p) (slList s)\<rparr>)
      else Inl (BadAccess ''list::erase''))"

text \<open>\<open>push_back(conn)\<close> and \<open>--end()\<close>, stored in the connection's node.\<close>

definition list_append :: "nat \<Rightarrow> int \<Rightarrow> sorted_server \<Rightarrow> sorted_server" where
  "list_append c t s = s\<lparr>slList := slList s @ [(slNext s, c)], slNext := slNext s + 1,
     slContext := (slContext s)(c \<mapsto> \<lparr>lastReceiveTime = t, nodePosition = slNext s\<rparr>)\<rparr>"

definition sl_onConnection :: "nat \<Rightarrow> bool \<Rightarrow> int \<Rightarrow> sorted_server \<Rightarrow> sorted_server res" where
  "sl_onConnection c connected now s =
     (if connected then Inr (list_append c now s)
      else case slContext s c of
             None \<Rightarrow> Inl (AssertFailed ''onConnection: !conn->getContext().empty()'')
           | Some node \<Rightarrow> list_erase (nodePosition node) s)"

definition sl_onMessage :: "nat \<Rightarrow> netbuf \<Rightarrow> int \<Rightarrow> sorted_server \<Rightarrow> (sorted_server \<times> netbuf) res" where
  "sl_onMessage c buf time s =
     bindR (retrieveAllAsString buf) (\<lambda>(msg, buf').
     let s1 = s\<lparr>slSent := slSent s @ [(c, msg)]\<rparr>
     in case slContext s1 c of
          None \<Rightarrow> Inl (AssertFailed ''onMessage: !conn->getContext().empty()'')
        | Some node \<Rightarrow> bindR (list_erase (nodePosition node) s1) (\<lambda>s2. Inr (list_append c time s2, buf')))"

text \<open>The loop of \<open>onTimer\<close>, over the rest of the list.\<close>

fun timer_loop :: "int \<Rightarrow> int \<Rightarrow> (nat \<times> nat) list \<Rightarrow> sorted_server \<Rightarrow> sorted_server res" where
  "timer_loop idleSeconds now [] s = Inr s"
| "timer_loop idleSeconds now ((p, c) # rest) s =
     (if slLive s c then
        (case slContext s c of
           None \<Rightarrow> Inl (BadAccess ''onTimer: n->lastReceiveTime'')
         | Some n \<Rightarrow>
             let age = now - lastReceiveTime n
             in if idleSeconds * 1000000 < age then timer_loop idleSeconds now rest (s\<lparr>slShut := slShut s @ [c]\<rparr>)
                else if age < 0 then
                  timer_loop idleSeconds now rest (s\<lparr>slContext := (slContext s)(c \<mapsto> n\<lparr>lastReceiveTime := now\<rparr>)\<rparr>)
                else Inr s)
      else bindR (list_erase p s) (timer_loop idleSeconds now rest))"

definition sl_onTimer :: "int \<Rightarrow> int \<Rightarrow> sorted_server \<Rightarrow> sorted_server res" where
  "sl_onTimer idleSeconds now s = timer_loop idleSeconds now (slList s) s"

subsection \<open>Events\<close>

datatype sl_event = SlUp nat int | SlMessage nat netbuf int | SlTimer int | SlDown nat | SlFreed nat

fun sl_event_do :: "int \<Rightarrow> sl_event \<Rightarrow> sorted_server \<Rightarrow> sorted_server res" where
  "sl_event_do idle (SlUp c now) s = sl_onConnection c True now (s\<lparr>slLive := (slLive s)(c := True)\<rparr>)"
| "sl_event_do idle (SlMessage c buf time) s = bindR (sl_onMessage c buf time s) (\<lambda>(s', buf'). Inr s')"
| "sl_event_do idle (SlTimer now) s = sl_onTimer idle now s"
| "sl_event_do idle (SlDown c) s = sl_onConnection c False 0 s"
| "sl_event_do idle (SlFreed c) s = Inr (s\<lparr>slLive := (slLive s)(c := False)\<rparr>)"

text \<open>The run also follows the connections that are up and the latest clock reading: messages come from
  connections that are up, an object is freed when it is not, and clocks do not go back.\<close>

fun sl_legal :: "sl_event \<Rightarrow> int \<Rightarrow> nat list \<Rightarrow> bool" where
  "sl_legal (SlUp c now) t up \<longleftrightarrow> c \<notin> set up \<and> t \<le> now"
| "sl_legal (SlMessage c buf time) t up \<longleftrightarrow> c \<in> set up \<and> buf_wf buf \<and> t \<le> time"
| "sl_legal (SlTimer now) t up \<longleftrightarrow> t \<le> now"
| "sl_legal (SlDown c) t up \<longleftrightarrow> c \<in> set up"
| "sl_legal (SlFreed c) t up \<longleftrightarrow> c \<notin> set up"

fun sl_after :: "sl_event \<Rightarrow> int \<times> nat list \<Rightarrow> int \<times> nat list" where
  "sl_after (SlUp c now) (t, up) = (now, c # up)"
| "sl_after (SlMessage c buf time) (t, up) = (time, up)"
| "sl_after (SlTimer now) (t, up) = (now, up)"
| "sl_after (SlDown c) (t, up) = (t, removeAll c up)"
| "sl_after (SlFreed c) (t, up) = (t, up)"

fun sl_legal_run :: "int \<Rightarrow> sl_event list \<Rightarrow> int \<times> nat list \<Rightarrow> sorted_server \<Rightarrow> (sorted_server \<times> int \<times> nat list) res option" where
  "sl_legal_run idle [] g s = Some (Inr (s, g))"
| "sl_legal_run idle (ev # evs) g s =
     (if sl_legal ev (fst g) (snd g)
      then (case sl_event_do idle ev s of Inl e \<Rightarrow> Some (Inl e) | Inr s' \<Rightarrow> sl_legal_run idle evs (sl_after ev g) s')
      else None)"

subsection \<open>Order of the list\<close>

definition time_of :: "sorted_server \<Rightarrow> nat \<Rightarrow> int" where
  "time_of s c = (case slContext s c of None \<Rightarrow> 0 | Some n \<Rightarrow> lastReceiveTime n)"

definition sl_inv :: "int \<times> nat list \<Rightarrow> sorted_server \<Rightarrow> bool" where
  "sl_inv g s \<longleftrightarrow> distinct (map fst (slList s)) \<and> distinct (map snd (slList s)) \<and> set (map snd (slList s)) = set (snd g)
   \<and> (\<forall>p \<in> fst ` set (slList s). p < slNext s)
   \<and> (\<forall>x \<in> set (slList s). slLive s (snd x) \<and> (\<exists>n. slContext s (snd x) = Some n \<and> nodePosition n = fst x))
   \<and> sorted (map (time_of s \<circ> snd) (slList s)) \<and> (\<forall>c \<in> set (snd g). time_of s c \<le> fst g)"

text \<open>On a sorted list with no time ahead of the clock, the timer meets exactly the idle connections.\<close>

lemma timer_loop_idle:
  assumes "\<And>x. x \<in> set xs \<Longrightarrow> slLive s (snd x) \<and> slContext s (snd x) \<noteq> None \<and> time_of s (snd x) \<le> now"
    and "sorted (map (time_of s \<circ> snd) xs)" and "0 \<le> idle"
  shows "timer_loop idle now xs s
    = Inr (s\<lparr>slShut := slShut s @ map snd (filter (\<lambda>x. idle * 1000000 < now - time_of s (snd x)) xs)\<rparr>)"
  using assms
proof (induction xs arbitrary: s)
  case (Cons x xs)
  obtain p c where x: "x = (p, c)" by (metis surj_pair)
  obtain n where n: "slContext s c = Some n" "slLive s c" "lastReceiveTime n \<le> now" "time_of s c = lastReceiveTime n"
    using Cons.prems(1)[of x] x by (auto simp: time_of_def)
  have shut: "time_of (s\<lparr>slShut := l\<rparr>) d = time_of s d" for l d by (simp add: time_of_def)
  show ?case
  proof (cases "idle * 1000000 < now - lastReceiveTime n")
    case True
    have "timer_loop idle now xs (s\<lparr>slShut := slShut s @ [c]\<rparr>) = Inr (s\<lparr>slShut := (slShut s @ [c])
        @ map snd (filter (\<lambda>x. idle * 1000000 < now - time_of s (snd x)) xs)\<rparr>)"
      using Cons.IH[of "s\<lparr>slShut := slShut s @ [c]\<rparr>"] Cons.prems by (simp add: shut o_def)
    then show ?thesis using True n x by simp
  next
    case False
    then have "\<not> idle * 1000000 < now - time_of s (snd y)" if "y \<in> set (x # xs)" for y
      using that Cons.prems(2) n(4) x by force
    then have "filter (\<lambda>x. idle * 1000000 < now - time_of s (snd x)) (x # xs) = []" by (simp add: filter_empty_conv)
    then show ?thesis using False n x by simp
  qed
qed simp


lemma sl_inv_up: "set up = set up' \<Longrightarrow> sl_inv (t, up) s = sl_inv (t, up') s"
  by (simp add: sl_inv_def)

lemma sl_erase:
  assumes inv: "sl_inv (t, up) s" and c: "c \<in> set up"
  obtains n s1 where "slContext s c = Some n" "list_erase (nodePosition n) s = Inr s1" "sl_inv (t, removeAll c up) s1"
    "slLive s1 = slLive s" "slLive s1 c"
proof -
  from inv c obtain p where p: "(p, c) \<in> set (slList s)" unfolding sl_inv_def by force
  then obtain n where n: "slContext s c = Some n" "nodePosition n = p" "slLive s c" using inv unfolding sl_inv_def by force
  let ?xs = "filter (\<lambda>x. fst x \<noteq> p) (slList s)"
  have same: "fst x = p \<longleftrightarrow> snd x = c" if "x \<in> set (slList s)" for x
    using that p inv eq_key_imp_eq_value[of "slList s" p] unfolding sl_inv_def
    by (metis distinct_map fst_conv inj_onD snd_conv)
  then have "?xs = filter (\<lambda>x. snd x \<noteq> c) (slList s)" by (intro filter_cong) auto
  then have conns: "map snd ?xs = filter (\<lambda>d. d \<noteq> c) (map snd (slList s))" by (simp add: filter_map o_def)
  have "sl_inv (t, removeAll c up) (s\<lparr>slList := ?xs\<rparr>)"
    unfolding sl_inv_def
  proof (intro conjI)
    show "set (map snd (slList (s\<lparr>slList := ?xs\<rparr>))) = set (snd (t, removeAll c up))"
      using inv conns by (auto simp: sl_inv_def)
    have "sorted (map (time_of s \<circ> snd) ?xs)"
      using inv by (simp add: sl_inv_def sorted_filter[of "time_of s \<circ> snd"])
    moreover have "time_of (s\<lparr>slList := ?xs\<rparr>) = time_of s" by (simp add: time_of_def fun_eq_iff)
    ultimately show "sorted (map (time_of (s\<lparr>slList := ?xs\<rparr>) \<circ> snd) (slList (s\<lparr>slList := ?xs\<rparr>)))" by simp
  qed (use inv in \<open>auto simp: sl_inv_def distinct_map_filter time_of_def\<close>)
  moreover have "p \<in> fst ` set (slList s)" using p by force
  then have "list_erase (nodePosition n) s = Inr (s\<lparr>slList := ?xs\<rparr>)" using n(2) by (simp add: list_erase_def)
  ultimately show thesis using that n(1,3) by simp
qed

lemma sl_append:
  assumes inv: "sl_inv (t, up) s" and c: "c \<notin> set up" and t: "t \<le> t'" and live: "slLive s c"
  shows "sl_inv (t', c # up) (list_append c t' s)"
proof -
  let ?s = "list_append c t' s"
  have conns: "snd ` set (slList s) = set up" using inv by (auto simp: sl_inv_def)
  have other: "slContext ?s d = slContext s d" "time_of ?s d = time_of s d" if "d \<in> set up" for d
    using that c by (auto simp: list_append_def time_of_def)
  have tc: "time_of ?s c = t'" by (simp add: list_append_def time_of_def)
  have le: "time_of ?s d \<le> t" if "d \<in> set up" for d using inv that other(2) by (simp add: sl_inv_def)
  have srt: "sorted (map (time_of ?s \<circ> snd) (slList s))"
  proof -
    have "map (time_of ?s \<circ> snd) (slList s) = map (time_of s \<circ> snd) (slList s)" using other(2) conns by auto
    then show ?thesis using inv unfolding sl_inv_def by metis
  qed
  show ?thesis
    unfolding sl_inv_def
  proof (intro conjI)
    show "distinct (map fst (slList ?s))" using inv by (auto simp: sl_inv_def list_append_def)
    show "distinct (map snd (slList ?s))" using inv c conns by (auto simp: sl_inv_def list_append_def)
    show "set (map snd (slList ?s)) = set (snd (t', c # up))" using conns by (auto simp: list_append_def)
    show "\<forall>p \<in> fst ` set (slList ?s). p < slNext ?s" using inv by (auto simp: sl_inv_def list_append_def less_Suc_eq)
    show "\<forall>x \<in> set (slList ?s). slLive ?s (snd x) \<and> (\<exists>n. slContext ?s (snd x) = Some n \<and> nodePosition n = fst x)"
    proof
      fix x assume "x \<in> set (slList ?s)"
      then consider "x = (slNext s, c)" | "x \<in> set (slList s)" by (auto simp: list_append_def)
      then show "slLive ?s (snd x) \<and> (\<exists>n. slContext ?s (snd x) = Some n \<and> nodePosition n = fst x)"
      proof cases
        case 2
        then have "snd x \<in> set up" using conns by blast
        then show ?thesis using inv 2 other(1) by (simp add: sl_inv_def list_append_def)
      qed (use live in \<open>simp add: list_append_def\<close>)
    qed
    show "sorted (map (time_of ?s \<circ> snd) (slList ?s))"
    proof -
      have "time_of ?s (snd x) \<le> t'" if "x \<in> set (slList s)" for x using le[of "snd x"] that conns t by fastforce
      moreover have "slList ?s = slList s @ [(slNext s, c)]" by (simp add: list_append_def)
      ultimately show ?thesis using srt tc by (simp add: sorted_append)
    qed
    show "\<forall>d \<in> set (snd (t', c # up)). time_of ?s d \<le> fst (t', c # up)" using le t tc by force
  qed
qed

lemma sl_onTimer_idle:
  assumes inv: "sl_inv (t, up) s" and "t \<le> now" and "0 \<le> idle"
  shows "sl_onTimer idle now s
    = Inr (s\<lparr>slShut := slShut s @ map snd (filter (\<lambda>x. idle * 1000000 < now - time_of s (snd x)) (slList s))\<rparr>)"
  unfolding sl_onTimer_def
proof (rule timer_loop_idle)
  fix x assume "x \<in> set (slList s)"
  then have "snd x \<in> set up" "slLive s (snd x)" "slContext s (snd x) \<noteq> None" using inv by (auto simp: sl_inv_def)
  then show "slLive s (snd x) \<and> slContext s (snd x) \<noteq> None \<and> time_of s (snd x) \<le> now" using inv assms(2) by (force simp: sl_inv_def)
qed (use inv assms in \<open>simp_all add: sl_inv_def\<close>)

lemma sl_inv_frame:
  assumes "sl_inv (t, up) s" "t \<le> t'" "slList s' = slList s" "slNext s' = slNext s" "slContext s' = slContext s"
    "\<And>c. c \<in> set up \<Longrightarrow> slLive s' c = slLive s c"
  shows "sl_inv (t', up) s'"
proof -
  have "time_of s' = time_of s" using assms(5) by (simp add: time_of_def fun_eq_iff)
  moreover have "slLive s' (snd x) = slLive s (snd x)" if "x \<in> set (slList s)" for x
    using assms(1,6) that by (force simp: sl_inv_def)
  ultimately show ?thesis using assms unfolding sl_inv_def by force
qed

lemma sl_step:
  assumes inv: "sl_inv g s" and legal: "sl_legal ev (fst g) (snd g)" and idle: "0 \<le> idle"
  shows "\<exists>s'. sl_event_do idle ev s = Inr s' \<and> sl_inv (sl_after ev g) s'"
proof -
  obtain t up where g: "g = (t, up)" by (metis surj_pair)
  note inv' = inv[unfolded g]
  show ?thesis
  proof (cases ev)
    case (SlUp c now)
    then have "sl_inv (t, up) (s\<lparr>slLive := (slLive s)(c := True)\<rparr>)"
      using legal g by (intro sl_inv_frame[OF inv']) auto
    then show ?thesis using SlUp legal g sl_append[of t up _ c now] by (simp add: sl_onConnection_def)
  next
    case (SlMessage c buf time)
    obtain buf' where buf': "retrieveAllAsString buf = Inr (readable buf, buf')"
      using retrieveAsString_ok[of buf "readableBytes buf"] legal SlMessage by (auto simp: retrieveAllAsString_def)
    let ?s = "s\<lparr>slSent := slSent s @ [(c, readable buf)]\<rparr>"
    have c: "c \<in> set up" "t \<le> time" using legal g SlMessage by auto
    have "sl_inv (t, up) ?s" by (rule sl_inv_frame[OF inv']) auto
    from sl_erase[OF this c(1)] obtain n s1 where s1: "slContext ?s c = Some n" "list_erase (nodePosition n) ?s = Inr s1"
      "sl_inv (t, removeAll c up) s1" "slLive s1 c" by metis
    have "sl_inv (time, c # removeAll c up) (list_append c time s1)" by (rule sl_append[OF s1(3) _ c(2) s1(4)]) simp
    then have "sl_inv (time, up) (list_append c time s1)" using sl_inv_up[of "c # removeAll c up" up] c(1) by auto
    then show ?thesis using SlMessage buf' s1 g by (simp add: sl_onMessage_def Let_def)
  next
    case (SlTimer now)
    have "sl_inv (now, up) (s\<lparr>slShut := l\<rparr>)" for l
      using legal g SlTimer by (intro sl_inv_frame[OF inv']) auto
    then show ?thesis using SlTimer sl_onTimer_idle[OF inv' _ idle, of now] legal g by simp
  next
    case (SlDown c)
    then have "c \<in> set up" using legal g by simp
    from sl_erase[OF inv' this] obtain n s1 where s1: "slContext s c = Some n" "list_erase (nodePosition n) s = Inr s1"
      "sl_inv (t, removeAll c up) s1" by metis
    then show ?thesis using SlDown g by (simp add: sl_onConnection_def)
  next
    case (SlFreed c)
    have "sl_inv (t, up) (s\<lparr>slLive := (slLive s)(c := False)\<rparr>)"
      by (rule sl_inv_frame[OF inv']) (use legal g SlFreed in auto)
    then show ?thesis using SlFreed g by simp
  qed
qed

lemma sl_run_inv:
  assumes "sl_inv g s" and "0 \<le> idle" and "sl_legal_run idle evs g s = Some r"
  shows "\<exists>s' g'. r = Inr (s', g') \<and> sl_inv g' s'"
  using assms(1,3)
proof (induction evs arbitrary: g s)
  case (Cons ev evs)
  then have legal: "sl_legal ev (fst g) (snd g)" by (auto split: if_splits)
  obtain s' where "sl_event_do idle ev s = Inr s'" "sl_inv (sl_after ev g) s'" using sl_step[OF Cons.prems(1) legal assms(2)] by blast
  then show ?case using Cons.IH Cons.prems(2) legal by auto
qed auto

lemma newSorted_inv: "sl_inv (t, []) newSorted"
  by (simp add: sl_inv_def newSorted_def)

text \<open>In the other server, whatever happened before (with clocks that do not go back), no
  assertion fires, no iterator is stale, the list holds exactly the connections that are up, and the
  timer, which stops at the first connection that is not idle, shuts down exactly the
  connections whose last message is more than \<open>idleSeconds\<close> old.\<close>

theorem sorted_list_exact:
  assumes "0 \<le> idle" and "sl_legal_run idle evs (t0, []) newSorted = Some r"
  shows "\<exists>s t up. r = Inr (s, t, up) \<and> set (map snd (slList s)) = set up
    \<and> (\<forall>now \<ge> t. sl_onTimer idle now s
         = Inr (s\<lparr>slShut := slShut s @ map snd (filter (\<lambda>x. idle * 1000000 < now - time_of s (snd x)) (slList s))\<rparr>))"
proof -
  obtain s g where s: "r = Inr (s, g)" "sl_inv g s" using sl_run_inv[OF newSorted_inv assms] by blast
  obtain t up where g: "g = (t, up)" by (metis surj_pair)
  show ?thesis using s g sl_onTimer_idle[of t up s _ idle] assms(1) by (auto simp: sl_inv_def)
qed

theorem sorted_list_exact_witness:
  "\<exists>s t up. sl_legal_run 10 [SlUp 1 5000000, SlUp 2 9000000, SlTimer 16000000] (0, []) newSorted = Some (Inr (s, t, up))
     \<and> set (map snd (slList s)) = set up \<and> slShut s = [1]"
proof -
  have run: "sl_legal_run 10 [SlUp 1 5000000, SlUp 2 9000000, SlTimer 16000000] (0, []) newSorted = Some (Inr
      (\<lparr>slList = [(0, 1), (1, 2)], slNext = 2, slContext = [1 \<mapsto> \<lparr>lastReceiveTime = 5000000, nodePosition = 0\<rparr>,
         2 \<mapsto> \<lparr>lastReceiveTime = 9000000, nodePosition = 1\<rparr>], slLive = (\<lambda>_. False)(1 := True, 2 := True), slShut = [1], slSent = []\<rparr>,
       16000000, [2, 1]))"
    by (simp add: sl_onConnection_def list_append_def newSorted_def sl_onTimer_def)
  from sorted_list_exact[OF _ run] run show ?thesis by auto
qed

text \<open>A new connection is stamped with the clock, a message with the time \<open>poll\<close> returned, which is
  earlier: a message handled after an accept of the same turn is stored behind it with an earlier
  time, and the timer stops before it although it is idle.\<close>

lemma unsorted_list_misses_idle:
  assumes "buf_wf buf"
  shows "\<exists>s. foldR (sl_event_do 10) [SlUp 1 5000000, SlUp 2 9500000, SlMessage 1 buf 9000000, SlTimer 19300000] newSorted = Inr s
    \<and> 10 * 1000000 < 19300000 - time_of s 1 \<and> slShut s = []"
proof -
  obtain buf' where "retrieveAllAsString buf = Inr (readable buf, buf')"
    using retrieveAsString_ok[of buf "readableBytes buf"] assms by (auto simp: retrieveAllAsString_def)
  then show ?thesis
    by (simp add: sl_onConnection_def sl_onMessage_def list_append_def list_erase_def newSorted_def sl_onTimer_def Let_def time_of_def)
qed


end
