(* ===== verification/Multiplexer.thy ===== *)
theory Multiplexer
  imports Framing StdText
begin

text \<open>
  The multiplexer example (\<open>examples/multiplexer\<close>): \<open>multiplexer_simple.cc\<close> carries the streams of up to
  ten client connections over one backend connection, in packets of at most 255 bytes with a
  header of length and connection number; \<open>demux.cc\<close> takes them apart again and opens a connection
  of its own for each. Connections are numbers; \<open>send\<close> on a connection is logged, and has no effect
  once the connection was shut down.
\<close>

section \<open>Packets\<close>

definition kMaxPacketLen :: nat where "kMaxPacketLen = 255"

definition muxHeaderLen :: nat where "muxHeaderLen = 3"

definition packet_header :: "nat \<Rightarrow> int \<Rightarrow> char list" where
  "packet_header len cid = [char_of len, char_of (nat (cid mod 256)), char_of (nat (cid div 256 mod 256))]"

text \<open>The head of \<open>sendBackendPacket\<close> and \<open>sendServerPacket\<close>: the buffer with the header in front.\<close>

definition make_packet :: "int \<Rightarrow> netbuf \<Rightarrow> netbuf res" where
  "make_packet cid buf =
     (let len = readableBytes buf
      in ensure (len \<le> kMaxPacketLen) ''sendPacket: len <= kMaxPacketLen''
         (prepend buf (packet_header len cid)))"

text \<open>The loop that cuts a buffer into packets, over the function that sends one.\<close>

function split_loop :: "(int \<Rightarrow> netbuf \<Rightarrow> 's \<Rightarrow> ('s \<times> netbuf) res) \<Rightarrow> int \<Rightarrow> netbuf \<Rightarrow> 's \<Rightarrow> ('s \<times> netbuf) res" where
  "split_loop send cid buf s =
     (if readableBytes buf > kMaxPacketLen then
        bindR (bufAppend newBuffer (range_at buf (peek buf) (peek buf + kMaxPacketLen))) (\<lambda>packet.
        bindR (NetBuffer.retrieve buf kMaxPacketLen) (\<lambda>buf1.
        bindR (send cid packet s) (\<lambda>(s1, packet1).
        split_loop send cid buf1 s1)))
      else if readableBytes buf > 0 then send cid buf s
      else Inr (s, buf))"
  by pat_completeness auto
termination
  by (relation "measure (\<lambda>(send, cid, buf, s). readableBytes buf)")
     (auto dest!: readableBytes_retrieve simp: kMaxPacketLen_def)

declare split_loop.simps [simp del]

text \<open>The loop that takes packets out of a buffer, over the function that handles one.\<close>

function packet_loop :: "(int \<Rightarrow> char list \<Rightarrow> 's \<Rightarrow> 's res) \<Rightarrow> netbuf \<Rightarrow> 's \<Rightarrow> ('s \<times> netbuf) res" where
  "packet_loop handle buf s =
     (if readableBytes buf > muxHeaderLen then
        let hdr = range_at buf (peek buf) (peek buf + 3);
            len = of_char (hdr ! 0)
        in if readableBytes buf < len + muxHeaderLen then Inr (s, buf)
           else let cid = of_char (hdr ! 1) + of_char (hdr ! 2) * 256
             in bindR (handle cid (range_at buf (peek buf + muxHeaderLen) (peek buf + muxHeaderLen + len)) s) (\<lambda>s1.
                bindR (NetBuffer.retrieve buf (len + muxHeaderLen)) (\<lambda>buf1.
                packet_loop handle buf1 s1))
      else Inr (s, buf))"
  by pat_completeness auto
termination
  by (relation "measure (\<lambda>(handle, buf, s). readableBytes buf)")
     (auto dest!: readableBytes_retrieve simp: muxHeaderLen_def)

declare packet_loop.simps [simp del]

subsection \<open>Packets on the wire\<close>

definition enc_packet :: "int \<times> char list \<Rightarrow> char list" where
  "enc_packet p = packet_header (length (snd p)) (fst p) @ snd p"

definition packet_ok :: "int \<times> char list \<Rightarrow> bool" where
  "packet_ok p \<longleftrightarrow> 0 \<le> fst p \<and> fst p < 65536 \<and> snd p \<noteq> [] \<and> length (snd p) \<le> 255"

definition mux_next :: "char list \<Rightarrow> (int \<times> char list, unit) frame" where
  "mux_next xs =
     (if length xs \<le> 3 then NeedMore
      else let len = of_char (xs ! 0) :: nat
        in if length xs < len + 3 then NeedMore
           else Frame (of_char (xs ! 1) + of_char (xs ! 2) * 256, take len (drop 3 xs)) (len + 3))"

interpretation mux: framing mux_next
  by unfold_locales (auto simp: mux_next_def Let_def nth_append split: if_splits)

lemma of_char_of_byte:
  assumes "0 \<le> v" "v < 256"
  shows "(of_char (char_of (nat v)) :: int) = v"
proof -
  have "(of_char (char_of (nat v)) :: int) = int (of_char (char_of (nat v)))" by (rule of_nat_of_char[symmetric])
  also have "(of_char (char_of (nat v)) :: nat) = nat v" using assms by (simp add: of_char_of nat_less_iff)
  finally show ?thesis using assms(1) by simp
qed

lemma mux_next_enc:
  assumes "packet_ok p"
  shows "mux_next (enc_packet p @ rest) = Frame p (length (enc_packet p))"
proof -
  obtain i d where p: "p = (i, d)" by (metis surj_pair)
  have i: "0 \<le> i" "i < 65536" "d \<noteq> []" "length d \<le> 255" using assms p by (auto simp: packet_ok_def)
  have len: "(of_char (char_of (length d)) :: nat) = length d" using i(4) by (simp add: of_char_of)
  have "i div 256 mod 256 = i div 256" using i by (intro mod_pos_pos_trivial) auto
  then have "(of_char (char_of (nat (i mod 256))) :: int) + of_char (char_of (nat (i div 256 mod 256))) * 256 = i"
    using i by (simp add: of_char_of_byte)
  then show ?thesis using len i(3) p by (simp add: mux_next_def enc_packet_def packet_header_def Let_def)
qed

lemma packet_loop_frames:
  assumes "buf_wf buf" and "frames mux_next (readable buf) = (ms, e, r)"
  shows "\<exists>b'. buf_wf b' \<and> readable b' = r \<and> (kCheapPrepend \<le> readerIndex buf \<longrightarrow> kCheapPrepend \<le> readerIndex b')
    \<and> packet_loop handle buf s = bindR (foldR (\<lambda>p. handle (fst p) (snd p)) ms s) (\<lambda>s'. Inr (s', b'))"
  using assms
proof (induction "readableBytes buf" arbitrary: buf ms s rule: less_induct)
  case less
  let ?R = "readable buf"
  have R: "readableBytes buf = length ?R" using less.prems(1) by simp
  have hdr: "range_at buf (peek buf) (peek buf + 3) ! i = ?R ! i" if "3 < length ?R" "i < 3" for i
    using that R range_at_peek[OF less.prems(1), of 3] by simp
  show ?case
  proof (cases ?R rule: mux.frames_cases)
    case idle
    then have "packet_loop handle buf s = Inr (s, buf)"
      using hdr by (subst packet_loop.simps) (auto simp: R mux_next_def muxHeaderLen_def Let_def split: if_splits)
    with idle less.prems show ?thesis by (intro exI[of _ buf]) auto
  next
    case (bad e')
    then show ?thesis by (auto simp: mux_next_def Let_def split: if_splits)
  next
    case (frame m n ms' e' r')
    define len where "len = (of_char (?R ! 0) :: nat)"
    have f: "3 < length ?R" "len + 3 \<le> length ?R" "n = len + 3"
        "m = (of_char (?R ! 1) + of_char (?R ! 2) * 256, take len (drop 3 ?R))"
      using frame(1) by (auto simp: mux_next_def len_def Let_def split: if_splits)
    obtain b1 where b1: "NetBuffer.retrieve buf (len + 3) = Inr b1" "buf_wf b1" "readable b1 = drop (len + 3) ?R"
        "kCheapPrepend \<le> readerIndex buf \<Longrightarrow> kCheapPrepend \<le> readerIndex b1"
      using retrieve_ok[OF less.prems(1) f(2)] by metis
    have data: "range_at buf (peek buf + 3) (peek buf + 3 + len) = take len (drop 3 ?R)"
      using range_at_sub[OF less.prems(1), of 3 "len + 3"] f(2) R by (simp add: drop_take ac_simps)
    have one: "packet_loop handle buf s = bindR (handle (fst m) (snd m) s) (\<lambda>s1. packet_loop handle b1 s1)"
      using f b1(1) hdr data
      by (subst packet_loop.simps) (simp add: R muxHeaderLen_def Let_def len_def[symmetric])
    have smaller: "readableBytes b1 < readableBytes buf" using b1 f R by (simp add: readableBytes_readable)
    have eq: "ms = m # ms'" "e' = e" "r' = r" using frame(4) less.prems(2) by auto
    have IH: "\<exists>b'. buf_wf b' \<and> readable b' = r \<and> (kCheapPrepend \<le> readerIndex b1 \<longrightarrow> kCheapPrepend \<le> readerIndex b')
        \<and> packet_loop handle b1 s1 = bindR (foldR (\<lambda>p. handle (fst p) (snd p)) ms' s1) (\<lambda>s'. Inr (s', b'))" for s1
      using less.hyps[OF smaller b1(2), of ms'] frame(3) b1(3) f(3) eq by auto
    show ?thesis
    proof (cases "handle (fst m) (snd m) s")
      case (Inl x)
      then show ?thesis using one eq(1) IH[of s] b1(4) by auto
    next
      case (Inr s1)
      then show ?thesis using one eq(1) IH[of s1] b1(4) by auto
    qed
  qed
qed

lemma mux_frames_ok: "frames mux_next xs = (ms, e, r) \<Longrightarrow> e = None"
proof (induction "length xs" arbitrary: xs ms rule: less_induct)
  case less
  show ?case
  proof (cases xs rule: mux.frames_cases)
    case (frame m n ms' e' r')
    then show ?thesis using less.hyps[of "drop n xs" ms'] less.prems by auto
  qed (use less.prems in \<open>auto simp: mux_next_def Let_def split: if_splits\<close>)
qed

subsection \<open>Cutting into packets\<close>

function chunks :: "char list \<Rightarrow> char list list" where
  "chunks xs = (if length xs > 255 then take 255 xs # chunks (drop 255 xs) else if xs = [] then [] else [xs])"
  by pat_completeness auto
termination by (relation "measure length") auto

declare chunks.simps [simp del]

lemma concat_chunks: "concat (chunks xs) = xs"
proof (induction xs rule: chunks.induct)
  case (1 xs)
  then show ?case by (subst chunks.simps) auto
qed

lemma chunks_ok: "d \<in> set (chunks xs) \<Longrightarrow> d \<noteq> [] \<and> length d \<le> 255"
proof (induction xs rule: chunks.induct)
  case (1 xs)
  then show ?case by (subst (asm) (2) chunks.simps) (auto split: if_splits)
qed

text \<open>A sender of packets: while the peer is there, it passes on the bytes of one packet and empties the
  buffer. Each server that cuts a stream into packets provides one.\<close>

definition room :: "netbuf \<Rightarrow> bool" where
  "room b \<longleftrightarrow> buf_wf b \<and> kCheapPrepend \<le> readerIndex b"

lemma room_new [simp]: "room newBuffer"
  by (simp add: room_def newBuffer_def buf_wf_def)

lemma room_retrieveAll: "buf_wf b \<Longrightarrow> room (retrieveAll b)"
  by (simp add: room_def) (simp add: retrieveAll_def)

lemma make_packet_ok:
  assumes "room b" and "length (readable b) \<le> 255"
  obtains b' where "make_packet cid b = Inr b'" "buf_wf b'" "readable b' = enc_packet (cid, readable b)"
proof -
  have "length (packet_header (readableBytes b) cid) \<le> prependableBytes b"
    using assms(1) by (simp add: room_def prependableBytes_def packet_header_def kCheapPrepend_def)
  from prepend_ok[OF _ this] obtain b' where
    "prepend b (packet_header (readableBytes b) cid) = Inr b'" "buf_wf b'" "readable b' = packet_header (readableBytes b) cid @ readable b"
    using assms(1) by (metis room_def)
  then show thesis using that assms by (simp add: make_packet_def kMaxPacketLen_def room_def enc_packet_def)
qed

locale packet_sender =
  fixes send :: "int \<Rightarrow> netbuf \<Rightarrow> 's \<Rightarrow> ('s \<times> netbuf) res"
    and up :: "'s \<Rightarrow> bool"
    and put :: "int \<Rightarrow> char list \<Rightarrow> 's \<Rightarrow> 's"
  assumes send_ok: "up s \<Longrightarrow> room b \<Longrightarrow> length (readable b) \<le> 255 \<Longrightarrow>
      \<exists>b'. send cid b s = Inr (put cid (readable b) s, b') \<and> room b' \<and> readable b' = []"
    and put_up: "up s \<Longrightarrow> up (put cid d s)"
begin

lemma split_sends:
  assumes "up s" and "room buf"
  shows "\<exists>b'. split_loop send cid buf s = Inr (fold (put cid) (chunks (readable buf)) s, b') \<and> room b' \<and> readable b' = []"
  using assms
proof (induction "readableBytes buf" arbitrary: buf s rule: less_induct)
  case less
  have wf: "buf_wf buf" using less.prems(2) by (simp add: room_def)
  have R: "readableBytes buf = length (readable buf)" using wf by simp
  show ?case
  proof (cases "length (readable buf) > 255")
    case False
    then show ?thesis
      using send_ok[OF less.prems, of cid] less.prems(2) R
      by (subst split_loop.simps, subst chunks.simps) (cases "readable buf = []", auto simp: kMaxPacketLen_def)
  next
    case True
    have data: "range_at buf (peek buf) (peek buf + 255) = take 255 (readable buf)"
      using range_at_peek[OF wf, of 255] True R by simp
    obtain pk where pk: "bufAppend newBuffer (take 255 (readable buf)) = Inr pk" "buf_wf pk" "readable pk = take 255 (readable buf)"
        "kCheapPrepend \<le> readerIndex pk"
      using bufAppend_ok[OF newBuffer_wf] by (metis append_Nil newBuffer_readable room_def room_new)
    obtain b1 where b1: "NetBuffer.retrieve buf 255 = Inr b1" "buf_wf b1" "readable b1 = drop 255 (readable buf)"
        "kCheapPrepend \<le> readerIndex b1"
      using retrieve_ok[OF wf, of 255] True less.prems(2) by (metis order_less_imp_le room_def)
    obtain pk' where pk': "send cid pk s = Inr (put cid (take 255 (readable buf)) s, pk')"
      using send_ok[OF less.prems(1), of pk cid] pk by (auto simp: room_def)
    have "readableBytes b1 < readableBytes buf" using b1 R True by (simp add: readableBytes_readable)
    from less.hyps[OF this put_up[OF less.prems(1)], of cid "take 255 (readable buf)"] b1 obtain b' where
      "split_loop send cid b1 (put cid (take 255 (readable buf)) s)
         = Inr (fold (put cid) (chunks (drop 255 (readable buf))) (put cid (take 255 (readable buf)) s), b')"
      "room b'" "readable b' = []" by (auto simp: room_def)
    then show ?thesis
      using True R data pk(1) b1(1) pk' by (subst split_loop.simps, subst chunks.simps) (simp add: kMaxPacketLen_def)
  qed
qed

end


section \<open>The multiplexer\<close>

subsection \<open>State and operations\<close>

definition kMaxConns :: int where "kMaxConns = 10"

text \<open>\<open>mxContext\<close> is the number stored in a connection, \<open>mxInput\<close> and \<open>mxBackInput\<close> are the input buffers
  of the connections.\<close>

record mux_server =
  mxBackend :: "nat option"
  mxClients :: "(int \<times> nat) list"
  mxAvail :: "int list"
  mxContext :: "nat \<Rightarrow> int option"
  mxShut :: "nat list"
  mxToBackend :: "(nat \<times> char list) list"
  mxToClient :: "(nat \<times> char list) list"
  mxInput :: "nat \<Rightarrow> netbuf"
  mxBackInput :: netbuf

definition newMux :: mux_server where
  "newMux = \<lparr>mxBackend = None, mxClients = [], mxAvail = [], mxContext = Map.empty, mxShut = [],
     mxToBackend = [], mxToClient = [], mxInput = \<lambda>_. newBuffer, mxBackInput = newBuffer\<rparr>"

definition mx_shutdown :: "nat \<Rightarrow> mux_server \<Rightarrow> mux_server" where
  "mx_shutdown c s = s\<lparr>mxShut := mxShut s @ [c]\<rparr>"

definition mx_send :: "nat \<Rightarrow> char list \<Rightarrow> mux_server \<Rightarrow> mux_server" where
  "mx_send c d s = (if c \<in> set (mxShut s) then s else s\<lparr>mxToClient := mxToClient s @ [(c, d)]\<rparr>)"

definition sendBackendPacket :: "int \<Rightarrow> netbuf \<Rightarrow> mux_server \<Rightarrow> (mux_server \<times> netbuf) res" where
  "sendBackendPacket cid buf s =
     bindR (make_packet cid buf) (\<lambda>buf1.
     case mxBackend s of
       None \<Rightarrow> Inr (s, buf1)
     | Some b \<Rightarrow> Inr (s\<lparr>mxToBackend := mxToBackend s @ [(b, range_at buf1 (peek buf1) (beginWrite buf1))]\<rparr>, retrieveAll buf1))"

definition sendBackendString :: "int \<Rightarrow> string \<Rightarrow> mux_server \<Rightarrow> mux_server res" where
  "sendBackendString cid msg s =
     ensure (length msg \<le> kMaxPacketLen) ''sendBackendString: msg.size() <= kMaxPacketLen''
     (bindR (bufAppend newBuffer msg) (\<lambda>buf.
      bindR (sendBackendPacket cid buf s) (\<lambda>(s1, buf1). Inr s1)))"

definition conn_notice :: "int \<Rightarrow> string \<Rightarrow> string \<Rightarrow> string" where
  "conn_notice cid peer what = snprintf 256 (''CONN '' @ dec_int cid @ '' FROM '' @ peer @ '' IS '' @ what @ kCRLF)"

definition onClientConnection :: "nat \<Rightarrow> bool \<Rightarrow> string \<Rightarrow> mux_server \<Rightarrow> mux_server res" where
  "onClientConnection c connected peer s =
     (if connected then
        let (cid, s1) = (case mxAvail s of
               [] \<Rightarrow> (- 1, s)
             | i # rest \<Rightarrow> (i, s\<lparr>mxAvail := rest, mxClients := std_map_put i c (mxClients s)\<rparr>))
        in if cid \<le> 0 then Inr (mx_shutdown c s1)
           else sendBackendString 0 (conn_notice cid peer ''UP'') (s1\<lparr>mxContext := (mxContext s1)(c \<mapsto> cid)\<rparr>)
      else case mxContext s c of
        None \<Rightarrow> Inr s
      | Some cid \<Rightarrow>
          ensure (0 < cid \<and> cid \<le> kMaxConns) ''onClientConnection: id > 0 && id <= kMaxConns''
          (bindR (sendBackendString 0 (conn_notice cid peer ''DOWN'') s) (\<lambda>s1.
           case mxBackend s1 of
             Some b \<Rightarrow> Inr (s1\<lparr>mxAvail := mxAvail s1 @ [cid], mxClients := std_map_erase cid (mxClients s1)\<rparr>)
           | None \<Rightarrow>
               ensure (mxAvail s1 = []) ''onClientConnection: availIds_.empty()''
               (ensure (mxClients s1 = []) ''onClientConnection: clientConns_.empty()'' (Inr s1)))))"

definition sendBackendBuffer :: "int \<Rightarrow> netbuf \<Rightarrow> mux_server \<Rightarrow> (mux_server \<times> netbuf) res" where
  "sendBackendBuffer cid buf s = split_loop sendBackendPacket cid buf s"

definition onClientMessage :: "nat \<Rightarrow> netbuf \<Rightarrow> mux_server \<Rightarrow> (mux_server \<times> netbuf) res" where
  "onClientMessage c buf s =
     (case mxContext s c of
        Some cid \<Rightarrow> sendBackendBuffer cid buf s
      | None \<Rightarrow> Inr (s, retrieveAll buf))"

definition onBackendConnection :: "nat \<Rightarrow> bool \<Rightarrow> mux_server \<Rightarrow> mux_server res" where
  "onBackendConnection b connected s =
     (if connected then
        let s1 = s\<lparr>mxBackend := Some b\<rparr>
        in ensure (mxAvail s1 = []) ''onBackendConnection: availIds_.empty()''
           (Inr (s1\<lparr>mxAvail := mxAvail s1 @ [1..kMaxConns]\<rparr>))
      else Inr (s\<lparr>mxBackend := None, mxShut := mxShut s @ map snd (mxClients s), mxClients := [], mxAvail := []\<rparr>))"

definition kDisconnectCmd :: string where "kDisconnectCmd = ''DISCONNECT ''"

definition mx_doCommand :: "string \<Rightarrow> mux_server \<Rightarrow> mux_server" where
  "mx_doCommand cmd s =
     (if length kDisconnectCmd < length cmd \<and> take (length kDisconnectCmd) cmd = kDisconnectCmd then
        (case map_of (mxClients s) (c_atoi (drop (length kDisconnectCmd) cmd)) of
           Some c \<Rightarrow> mx_shutdown c s
         | None \<Rightarrow> s)
      else s)"

definition client_packet :: "int \<Rightarrow> char list \<Rightarrow> mux_server \<Rightarrow> mux_server res" where
  "client_packet cid d s =
     Inr (if cid \<noteq> 0 then (case map_of (mxClients s) cid of Some c \<Rightarrow> mx_send c d s | None \<Rightarrow> s)
          else mx_doCommand d s)"

definition sendToClient :: "netbuf \<Rightarrow> mux_server \<Rightarrow> (mux_server \<times> netbuf) res" where
  "sendToClient buf s = packet_loop client_packet buf s"

definition onBackendMessage :: "netbuf \<Rightarrow> mux_server \<Rightarrow> (mux_server \<times> netbuf) res" where
  "onBackendMessage buf s = sendToClient buf s"

subsection \<open>Events\<close>

datatype mx_event =
    MxClientUp nat string
  | MxClientData nat "char list"
  | MxClientDown nat string
  | MxBackendUp nat
  | MxBackendDown
  | MxBackendData "char list"

text \<open>Data arrives in the input buffer of its connection before the message callback runs.\<close>

fun mx_event_do :: "mx_event \<Rightarrow> mux_server \<Rightarrow> mux_server res" where
  "mx_event_do (MxClientUp c peer) s = onClientConnection c True peer s"
| "mx_event_do (MxClientData c seg) s =
     bindR (bufAppend (mxInput s c) seg) (\<lambda>buf.
     bindR (onClientMessage c buf s) (\<lambda>(s1, buf1). Inr (s1\<lparr>mxInput := (mxInput s1)(c := buf1)\<rparr>)))"
| "mx_event_do (MxClientDown c peer) s = onClientConnection c False peer s"
| "mx_event_do (MxBackendUp b) s = onBackendConnection b True (s\<lparr>mxBackInput := newBuffer\<rparr>)"
| "mx_event_do MxBackendDown s = onBackendConnection (the (mxBackend s)) False s"
| "mx_event_do (MxBackendData seg) s =
     bindR (bufAppend (mxBackInput s) seg) (\<lambda>buf.
     bindR (onBackendMessage buf s) (\<lambda>(s1, buf1). Inr (s1\<lparr>mxBackInput := buf1\<rparr>)))"

text \<open>A client connection comes up once. A client whose number is still its own, or that has none, is \<open>current\<close>; the other clients, those of a lost backend
  connection, may still send or leave while there is no backend, and are gone before the next backend connection comes.\<close>

definition mx_current :: "mux_server \<Rightarrow> nat \<Rightarrow> bool" where
  "mx_current s c \<longleftrightarrow> (case mxContext s c of None \<Rightarrow> True | Some i \<Rightarrow> map_of (mxClients s) i = Some c)"

fun mx_legal :: "mx_event \<Rightarrow> mux_server \<Rightarrow> bool" where
  "mx_legal (MxClientUp c peer) s \<longleftrightarrow> mxContext s c = None \<and> c \<notin> set (mxShut s)"
| "mx_legal (MxClientData c seg) s \<longleftrightarrow> mxBackend s = None \<or> mx_current s c"
| "mx_legal (MxClientDown c peer) s \<longleftrightarrow> mxBackend s = None \<or> mx_current s c"
| "mx_legal (MxBackendUp b) s \<longleftrightarrow> mxBackend s = None"
| "mx_legal MxBackendDown s \<longleftrightarrow> mxBackend s \<noteq> None"
| "mx_legal (MxBackendData seg) s \<longleftrightarrow> mxBackend s \<noteq> None"

fun mx_legal_run :: "mx_event list \<Rightarrow> mux_server \<Rightarrow> mux_server res option" where
  "mx_legal_run [] s = Some (Inr s)"
| "mx_legal_run (ev # evs) s =
     (if mx_legal ev s
      then (case mx_event_do ev s of Inl e \<Rightarrow> Some (Inl e) | Inr s' \<Rightarrow> mx_legal_run evs s')
      else None)"


subsection \<open>Sending to the backend\<close>

definition mx_put :: "int \<Rightarrow> char list \<Rightarrow> mux_server \<Rightarrow> mux_server" where
  "mx_put cid d s = s\<lparr>mxToBackend := mxToBackend s @ [(the (mxBackend s), enc_packet (cid, d))]\<rparr>"

interpretation mxs: packet_sender sendBackendPacket "\<lambda>s. mxBackend s \<noteq> None" mx_put
proof
  fix s :: mux_server and b cid
  assume a: "mxBackend s \<noteq> None" "room b" "length (readable b) \<le> 255"
  obtain b' where b': "make_packet cid b = Inr b'" "buf_wf b'" "readable b' = enc_packet (cid, readable b)"
    using make_packet_ok[OF a(2,3)] by metis
  have "range_at b' (peek b') (beginWrite b') = readable b'" by (simp add: readable_def peek_def beginWrite_def)
  then show "\<exists>b'. sendBackendPacket cid b s = Inr (mx_put cid (readable b) s, b') \<and> room b' \<and> readable b' = []"
    using a(1) b' room_retrieveAll[OF b'(2)] by (auto simp: sendBackendPacket_def mx_put_def)
qed (simp add: mx_put_def)

lemma fold_mx_put:
  "fold (mx_put cid) ds s = s\<lparr>mxToBackend := mxToBackend s @ map (\<lambda>d. (the (mxBackend s), enc_packet (cid, d))) ds\<rparr>"
  by (induction ds arbitrary: s) (simp_all add: mx_put_def)

lemma sendBackendBuffer_ok:
  assumes "mxBackend s = Some b" and "room buf"
  obtains buf' where "sendBackendBuffer cid buf s = Inr (s\<lparr>mxToBackend := mxToBackend s @ map (\<lambda>d. (b, enc_packet (cid, d))) (chunks (readable buf))\<rparr>, buf')"
    "room buf'" "readable buf' = []"
  using mxs.split_sends[of s buf cid] assms by (auto simp: sendBackendBuffer_def fold_mx_put)

lemma length_notice: "length (conn_notice cid peer what) \<le> 255"
  by (simp add: conn_notice_def snprintf_def)

text \<open>A command is passed on while there is a backend, and dropped otherwise.\<close>

lemma sendBackendString_ok:
  assumes "length msg \<le> 255"
  shows "sendBackendString cid msg s = Inr (if mxBackend s = None then s else mx_put cid msg s)"
proof -
  obtain buf where buf: "bufAppend newBuffer msg = Inr buf" "buf_wf buf" "readable buf = msg" "kCheapPrepend \<le> readerIndex buf"
    using bufAppend_ok[OF newBuffer_wf] by (metis append_Nil newBuffer_readable room_def room_new)
  then have r: "room buf" by (simp add: room_def)
  show ?thesis
  proof (cases "mxBackend s")
    case None
    obtain b' where "make_packet cid buf = Inr b'" using make_packet_ok[OF r] buf(3) assms by metis
    then show ?thesis using None buf(1) assms by (simp add: sendBackendString_def sendBackendPacket_def kMaxPacketLen_def)
  next
    case (Some b)
    then show ?thesis using mxs.send_ok[of s buf cid] r buf assms by (auto simp: sendBackendString_def kMaxPacketLen_def)
  qed
qed

subsection \<open>Numbers in use\<close>

definition mx_ids :: "mux_server \<Rightarrow> bool" where
  "mx_ids s \<longleftrightarrow> std_map_wf (mxClients s)
   \<and> (if mxBackend s = None then mxAvail s = [] \<and> mxClients s = []
      else distinct (mxAvail s) \<and> set (mxAvail s) \<inter> dom (map_of (mxClients s)) = {}
        \<and> set (mxAvail s) \<union> dom (map_of (mxClients s)) = {1..kMaxConns})
   \<and> (\<forall>i c. map_of (mxClients s) i = Some c \<longrightarrow> mxContext s c = Some i)
   \<and> (\<forall>c i. mxContext s c = Some i \<longrightarrow> 1 \<le> i \<and> i \<le> kMaxConns)"

definition mx_bufs :: "mux_server \<Rightarrow> bool" where
  "mx_bufs s \<longleftrightarrow> (\<forall>c. buf_wf (mxInput s c) \<and> (mx_current s c \<longrightarrow> room (mxInput s c) \<and> readable (mxInput s c) = [])) \<and> room (mxBackInput s)"

lemma mx_bufs_mono:
  assumes "mx_bufs s" and "mxInput s' = mxInput s" "mxBackInput s' = mxBackInput s" and "\<And>c. mx_current s' c \<Longrightarrow> mx_current s c"
  shows "mx_bufs s'"
  using assms by (simp add: mx_bufs_def)

lemma mx_current_frame: "mxContext s' = mxContext s \<Longrightarrow> mxClients s' = mxClients s \<Longrightarrow> mx_current s' c = mx_current s c"
  by (simp add: mx_current_def split: option.split)

lemma mx_idsD:
  assumes "mx_ids s"
  shows "std_map_wf (mxClients s)" and "map_of (mxClients s) i = Some c \<Longrightarrow> mxContext s c = Some i"
    and "mxContext s c = Some i \<Longrightarrow> 1 \<le> i \<and> i \<le> kMaxConns"
    and "mxBackend s = None \<Longrightarrow> mxAvail s = [] \<and> mxClients s = []"
    and "mxBackend s \<noteq> None \<Longrightarrow> distinct (mxAvail s) \<and> set (mxAvail s) \<inter> dom (map_of (mxClients s)) = {}
        \<and> set (mxAvail s) \<union> dom (map_of (mxClients s)) = {1..kMaxConns}"
  using assms unfolding mx_ids_def by (metis | force)+

lemma mx_ids_frame:
  "mx_ids s \<Longrightarrow> mxClients s' = mxClients s \<Longrightarrow> mxBackend s' = mxBackend s \<Longrightarrow> mxAvail s' = mxAvail s
     \<Longrightarrow> mxContext s' = mxContext s \<Longrightarrow> mx_ids s'"
  by (simp add: mx_ids_def)

lemma mx_put_frame [simp]:
  "mxClients (mx_put i d s) = mxClients s" "mxBackend (mx_put i d s) = mxBackend s" "mxAvail (mx_put i d s) = mxAvail s"
  "mxContext (mx_put i d s) = mxContext s" "mxInput (mx_put i d s) = mxInput s" "mxBackInput (mx_put i d s) = mxBackInput s"
  by (simp_all add: mx_put_def)

lemma notice_sent:
  obtains s' where "sendBackendString 0 (conn_notice cid peer what) s = Inr s'"
    "mxClients s' = mxClients s" "mxBackend s' = mxBackend s" "mxAvail s' = mxAvail s" "mxContext s' = mxContext s"
    "mxInput s' = mxInput s" "mxBackInput s' = mxBackInput s" "mxShut s' = mxShut s"
  using sendBackendString_ok[OF length_notice, of 0 cid peer what s] that
  by (cases "mxBackend s = None") (auto simp: mx_put_def)

lemma client_up_ok:
  assumes ids: "mx_ids s" and bufs: "mx_bufs s" and legal: "mx_legal (MxClientUp c peer) s"
  shows "\<exists>s'. mx_event_do (MxClientUp c peer) s = Inr s' \<and> mx_ids s' \<and> mx_bufs s'"
proof (cases "mxAvail s")
  case Nil
  then show ?thesis
    using mx_ids_frame[OF ids, of "mx_shutdown c s"] mx_bufs_mono[OF bufs, of "mx_shutdown c s"] mx_current_frame[of "mx_shutdown c s" s]
    by (simp add: onClientConnection_def mx_shutdown_def)
next
  case (Cons i rest)
  note D = mx_idsD[OF ids]
  have b: "mxBackend s \<noteq> None" using D(4) Cons by auto
  then have free: "distinct (i # rest)" "map_of (mxClients s) i = None" "1 \<le> i" "i \<le> kMaxConns"
    "set rest \<inter> dom (map_of (mxClients s)) = {}" "insert i (set rest \<union> dom (map_of (mxClients s))) = {1..kMaxConns}"
    using D(5)[OF b] Cons by auto
  define s1 where "s1 = s\<lparr>mxAvail := rest, mxClients := std_map_put i c (mxClients s), mxContext := (mxContext s)(c \<mapsto> i)\<rparr>"
  obtain s2 where s2: "sendBackendString 0 (conn_notice i peer ''UP'') s1 = Inr s2"
    "mxClients s2 = mxClients s1" "mxBackend s2 = mxBackend s1" "mxAvail s2 = mxAvail s1" "mxContext s2 = mxContext s1"
    "mxInput s2 = mxInput s1" "mxBackInput s2 = mxBackInput s1"
    by (rule notice_sent)
  have m: "map_of (mxClients s1) = (map_of (mxClients s))(i \<mapsto> c)" using D(1) by (simp add: s1_def)
  have "mx_ids s1"
    unfolding mx_ids_def
  proof (intro conjI allI impI)
    show "std_map_wf (mxClients s1)" using D(1) by (simp add: s1_def std_map_put_wf)
    show "if mxBackend s1 = None then mxAvail s1 = [] \<and> mxClients s1 = []
      else distinct (mxAvail s1) \<and> set (mxAvail s1) \<inter> dom (map_of (mxClients s1)) = {}
        \<and> set (mxAvail s1) \<union> dom (map_of (mxClients s1)) = {1..kMaxConns}"
      using free b by (auto simp: m) (auto simp: s1_def)
    show "mxContext s1 d = Some j" if "map_of (mxClients s1) j = Some d" for j d
    proof -
      from that have "j = i \<and> d = c \<or> j \<noteq> i \<and> map_of (mxClients s) j = Some d" by (auto simp: m split: if_splits)
      then show ?thesis using D(2)[of j d] legal by (auto simp: s1_def)
    qed
    show "1 \<le> j" "j \<le> kMaxConns" if "mxContext s1 d = Some j" for d j
      using that D(3)[of d j] free by (auto simp: s1_def split: if_splits)
  qed
  then have "mx_ids s2" by (rule mx_ids_frame) (use s2 in auto)
  moreover have "mx_bufs s2"
  proof (rule mx_bufs_mono[OF bufs])
    show "mx_current s d" if "mx_current s2 d" for d
    proof (cases "mxContext s d")
      case (Some j)
      then have "d \<noteq> c" using legal by auto
      then show ?thesis using that Some s2(2,5) m by (auto simp: mx_current_def s1_def split: if_splits)
    qed (simp add: mx_current_def)
  qed (use s2 in \<open>simp_all add: s1_def\<close>)
  ultimately show ?thesis using Cons free(3) s2(1) by (simp add: onClientConnection_def s1_def)
qed

lemma client_down_ok:
  assumes ids: "mx_ids s" and bufs: "mx_bufs s" and legal: "mx_legal (MxClientDown c peer) s"
  shows "\<exists>s'. mx_event_do (MxClientDown c peer) s = Inr s' \<and> mx_ids s' \<and> mx_bufs s'"
proof (cases "mxContext s c")
  case None
  then show ?thesis using ids bufs by (simp add: onClientConnection_def)
next
  case (Some i)
  note D = mx_idsD[OF ids]
  obtain s1 where s1: "sendBackendString 0 (conn_notice i peer ''DOWN'') s = Inr s1"
    "mxClients s1 = mxClients s" "mxBackend s1 = mxBackend s" "mxAvail s1 = mxAvail s" "mxContext s1 = mxContext s"
    "mxInput s1 = mxInput s" "mxBackInput s1 = mxBackInput s"
    by (rule notice_sent)
  have i: "0 < i \<and> i \<le> kMaxConns" using D(3)[OF Some] by simp
  have b1: "mx_bufs s1" by (rule mx_bufs_mono[OF bufs]) (use s1 mx_current_frame[of s1 s] in simp_all)
  show ?thesis
  proof (cases "mxBackend s")
    case None
    then have "mx_event_do (MxClientDown c peer) s = Inr s1" using D(4) s1 Some i by (simp add: onClientConnection_def)
    moreover have "mx_ids s1" by (rule mx_ids_frame[OF ids]) (use s1 in auto)
    ultimately show ?thesis using b1 by blast
  next
    case b: (Some b)
    then have mine: "map_of (mxClients s) i = Some c" using legal Some by (simp add: mx_current_def)
    let ?s = "s1\<lparr>mxAvail := mxAvail s1 @ [i], mxClients := std_map_erase i (mxClients s1)\<rparr>"
    have "mx_ids ?s"
      unfolding mx_ids_def
    proof (intro conjI allI impI)
      show "std_map_wf (mxClients ?s)" using D(1) s1 by (simp add: std_map_erase_wf)
      show "if mxBackend ?s = None then mxAvail ?s = [] \<and> mxClients ?s = []
        else distinct (mxAvail ?s) \<and> set (mxAvail ?s) \<inter> dom (map_of (mxClients ?s)) = {}
          \<and> set (mxAvail ?s) \<union> dom (map_of (mxClients ?s)) = {1..kMaxConns}"
        using D(5) b mine i s1 by auto
      show "mxContext ?s d = Some j" if "map_of (mxClients ?s) j = Some d" for j d
        using that D(2)[of j d] s1 by (auto split: if_splits)
      show "1 \<le> j" "j \<le> kMaxConns" if "mxContext ?s d = Some j" for d j using that D(3)[of d j] s1 by auto
    qed
    moreover have "mx_bufs ?s"
      by (rule mx_bufs_mono[OF b1]) (use D(1) s1 in \<open>auto simp: mx_current_def split: option.splits if_splits\<close>)
    ultimately show ?thesis using Some i s1 b by (simp add: onClientConnection_def)
  qed
qed


text \<open>Without a backend a packet is made and not sent: the client's input keeps it, header and all, and the next header may not find room.\<close>

abbreviation no_prepend_room :: fault where
  "no_prepend_room \<equiv> AssertFailed ''prepend: len <= prependableBytes()''"

lemma idle_packet:
  assumes "mxBackend s = None" "buf_wf buf" "length (readable buf) \<le> 255"
  shows "holds {no_prepend_room} (sendBackendPacket cid buf s) (\<lambda>(s', b). s' = s \<and> buf_wf b)"
proof (cases "length (packet_header (readableBytes buf) cid) \<le> prependableBytes buf")
  case True
  obtain b where "prepend buf (packet_header (readableBytes buf) cid) = Inr b" "buf_wf b" using prepend_ok[OF assms(2) True] by metis
  then show ?thesis using assms by (simp add: sendBackendPacket_def make_packet_def kMaxPacketLen_def)
next
  case False
  then show ?thesis using assms by (simp add: sendBackendPacket_def make_packet_def prepend_def kMaxPacketLen_def)
qed

lemma idle_split:
  assumes "mxBackend s = None" and "buf_wf buf"
  shows "holds {no_prepend_room} (split_loop sendBackendPacket cid buf s) (\<lambda>(s', b). s' = s \<and> buf_wf b)"
  using assms(2)
proof (induction "readableBytes buf" arbitrary: buf rule: less_induct)
  case less
  have R: "readableBytes buf = length (readable buf)" using less.prems by simp
  show ?case
  proof (cases "length (readable buf) > 255")
    case False
    then show ?thesis using idle_packet[OF assms(1) less.prems, of cid] less.prems
      by (subst split_loop.simps) (simp add: kMaxPacketLen_def)
  next
    case True
    define d where "d = range_at buf (peek buf) (peek buf + 255)"
    have d: "length d = 255" using range_at_peek[OF less.prems, of 255] True R by (simp add: d_def)
    obtain pk where pk: "bufAppend newBuffer d = Inr pk" "buf_wf pk" "readable pk = d"
        "kCheapPrepend \<le> readerIndex pk"
      using bufAppend_ok[OF newBuffer_wf] by (metis append_Nil newBuffer_readable room_def room_new)
    then obtain pk' where pk': "make_packet cid pk = Inr pk'" using make_packet_ok[of pk cid] d by (metis order_refl room_def)
    obtain b1 where b1: "NetBuffer.retrieve buf 255 = Inr b1" "buf_wf b1" "readable b1 = drop 255 (readable buf)"
      using retrieve_ok[OF less.prems, of 255] True by (metis order_less_imp_le)
    have "readableBytes b1 < readableBytes buf" using b1 R True by (simp add: readableBytes_readable)
    from less.hyps[OF this b1(2)] show ?thesis
      using True R pk(1) pk' b1(1) assms(1)
      by (subst split_loop.simps) (simp add: kMaxPacketLen_def d_def[symmetric] sendBackendPacket_def)
  qed
qed

definition data_of_lost :: "mx_event \<Rightarrow> mux_server \<Rightarrow> bool" where
  "data_of_lost ev s \<longleftrightarrow> (case ev of MxClientData c seg \<Rightarrow> mxBackend s = None \<and> mxContext s c \<noteq> None | _ \<Rightarrow> False)"

lemma lost_data_ok:
  assumes ids: "mx_ids s" and bufs: "mx_bufs s" and c: "mxBackend s = None" "mxContext s c = Some i"
  shows "holds {no_prepend_room} (mx_event_do (MxClientData c seg) s) (\<lambda>s'. mx_ids s' \<and> mx_bufs s')"
proof -
  obtain buf where buf: "bufAppend (mxInput s c) seg = Inr buf" "buf_wf buf"
    using bufAppend_ok[of "mxInput s c" seg] bufs by (metis mx_bufs_def)
  have gone: "\<not> mx_current s c" using mx_idsD(4)[OF ids c(1)] c(2) by (simp add: mx_current_def)
  have ok: "mx_ids (s\<lparr>mxInput := (mxInput s)(c := b)\<rparr>) \<and> mx_bufs (s\<lparr>mxInput := (mxInput s)(c := b)\<rparr>)" if "buf_wf b" for b
  proof
    show "mx_ids (s\<lparr>mxInput := (mxInput s)(c := b)\<rparr>)" by (rule mx_ids_frame[OF ids]) auto
    have "mx_current (s\<lparr>mxInput := (mxInput s)(c := b)\<rparr>) d = mx_current s d" for d by (rule mx_current_frame) simp_all
    then show "mx_bufs (s\<lparr>mxInput := (mxInput s)(c := b)\<rparr>)" using bufs gone that by (simp add: mx_bufs_def)
  qed
  show ?thesis using idle_split[OF c(1) buf(2), of i] buf(1) c(2) ok
    by (cases "split_loop sendBackendPacket i buf s") (auto simp: onClientMessage_def sendBackendBuffer_def)
qed

lemma client_data_ok:
  assumes ids: "mx_ids s" and bufs: "mx_bufs s" and legal: "mx_legal (MxClientData c seg) s" "\<not> data_of_lost (MxClientData c seg) s"
  shows "\<exists>s'. mx_event_do (MxClientData c seg) s = Inr s' \<and> mx_ids s' \<and> mx_bufs s'"
proof -
  have cur: "mx_current s c" using legal by (auto simp: data_of_lost_def mx_current_def)
  then have r: "room (mxInput s c)" using bufs by (simp add: mx_bufs_def)
  obtain buf where buf: "bufAppend (mxInput s c) seg = Inr buf" "room buf"
    using bufAppend_ok[of "mxInput s c" seg] r by (metis room_def)
  show ?thesis
  proof (cases "mxContext s c")
    case None
    let ?s = "s\<lparr>mxInput := (mxInput s)(c := retrieveAll buf)\<rparr>"
    have "mx_event_do (MxClientData c seg) s = Inr ?s" using buf(1) None by (simp add: onClientMessage_def)
    moreover have "mx_ids ?s" by (rule mx_ids_frame[OF ids]) auto
    moreover have "mx_bufs ?s" using bufs room_retrieveAll[of buf] buf(2) mx_current_frame[of ?s s] by (simp add: mx_bufs_def room_def)
    ultimately show ?thesis by blast
  next
    case (Some i)
    have "mxClients s \<noteq> []" using cur Some by (auto simp: mx_current_def)
    then obtain b where b: "mxBackend s = Some b" using mx_idsD(4)[OF ids] by (cases "mxBackend s") auto
    obtain buf' where buf': "sendBackendBuffer i buf s
        = Inr (s\<lparr>mxToBackend := mxToBackend s @ map (\<lambda>d. (b, enc_packet (i, d))) (chunks (readable buf))\<rparr>, buf')"
      "room buf'" "readable buf' = []"
      using sendBackendBuffer_ok[OF b buf(2)] by metis
    let ?s = "s\<lparr>mxToBackend := mxToBackend s @ map (\<lambda>d. (b, enc_packet (i, d))) (chunks (readable buf)), mxInput := (mxInput s)(c := buf')\<rparr>"
    have "mx_event_do (MxClientData c seg) s = Inr ?s" using buf(1) Some buf'(1) by (simp add: onClientMessage_def)
    moreover have "mx_ids ?s" by (rule mx_ids_frame[OF ids]) auto
    moreover have "mx_bufs ?s" using bufs buf'(2,3) mx_current_frame[of ?s s] by (simp add: mx_bufs_def room_def)
    ultimately show ?thesis by blast
  qed
qed

lemma client_packets_frame:
  "\<exists>s'. foldR (\<lambda>p. client_packet (fst p) (snd p)) ms s = Inr s' \<and> mxClients s' = mxClients s \<and> mxBackend s' = mxBackend s
     \<and> mxAvail s' = mxAvail s \<and> mxContext s' = mxContext s \<and> mxInput s' = mxInput s"
proof (induction ms arbitrary: s)
  case (Cons m ms)
  obtain s1 where s1: "client_packet (fst m) (snd m) s = Inr s1" "mxClients s1 = mxClients s" "mxBackend s1 = mxBackend s"
      "mxAvail s1 = mxAvail s" "mxContext s1 = mxContext s" "mxInput s1 = mxInput s"
    by (cases "map_of (mxClients s) (fst m)"; cases "map_of (mxClients s) (c_atoi (drop (length kDisconnectCmd) (snd m)))")
       (auto simp: client_packet_def mx_send_def mx_doCommand_def mx_shutdown_def)
  then show ?case using Cons.IH[of s1] by auto
qed simp

lemma backend_data_ok:
  assumes ids: "mx_ids s" and bufs: "mx_bufs s"
  shows "\<exists>s'. mx_event_do (MxBackendData seg) s = Inr s' \<and> mx_ids s' \<and> mx_bufs s'"
proof -
  have r: "room (mxBackInput s)" using bufs by (simp add: mx_bufs_def)
  obtain buf where buf: "bufAppend (mxBackInput s) seg = Inr buf" "buf_wf buf" "kCheapPrepend \<le> readerIndex buf"
    using bufAppend_ok[of "mxBackInput s" seg] r by (metis room_def)
  obtain ms e rr where fr: "frames mux_next (readable buf) = (ms, e, rr)" by (metis prod_cases3)
  obtain s1 where s1: "foldR (\<lambda>p. client_packet (fst p) (snd p)) ms s = Inr s1" "mxClients s1 = mxClients s" "mxBackend s1 = mxBackend s"
     "mxAvail s1 = mxAvail s" "mxContext s1 = mxContext s" "mxInput s1 = mxInput s" using client_packets_frame by blast
  obtain buf1 where b1: "buf_wf buf1" "kCheapPrepend \<le> readerIndex buf1" "packet_loop client_packet buf s = Inr (s1, buf1)"
    using packet_loop_frames[OF buf(2) fr, of client_packet s] buf(3) s1(1) by auto
  have "mx_event_do (MxBackendData seg) s = Inr (s1\<lparr>mxBackInput := buf1\<rparr>)"
    using buf(1) b1(3) by (simp add: onBackendMessage_def sendToClient_def)
  moreover have "mx_ids (s1\<lparr>mxBackInput := buf1\<rparr>)" by (rule mx_ids_frame[OF ids]) (use s1 in auto)
  moreover have "mx_bufs (s1\<lparr>mxBackInput := buf1\<rparr>)" using bufs b1 s1 mx_current_frame[of "s1\<lparr>mxBackInput := buf1\<rparr>" s] by (simp add: mx_bufs_def room_def)
  ultimately show ?thesis by blast
qed

lemma mx_event_ok:
  assumes ids: "mx_ids s" and bufs: "mx_bufs s" and legal: "mx_legal ev s" and lost: "\<not> data_of_lost ev s"
  shows "\<exists>s'. mx_event_do ev s = Inr s' \<and> mx_ids s' \<and> mx_bufs s'"
proof (cases ev)
  case (MxBackendUp b)
  let ?s = "s\<lparr>mxBackInput := newBuffer, mxBackend := Some b, mxAvail := [1..kMaxConns]\<rparr>"
  have n: "mxBackend s = None" "mxAvail s = []" "mxClients s = []" using mx_idsD(4)[OF ids] legal MxBackendUp by auto
  have "mx_event_do ev s = Inr ?s" using MxBackendUp n by (simp add: onBackendConnection_def)
  moreover have "mx_ids ?s" using ids n by (auto simp: mx_ids_def)
  moreover have "mx_bufs ?s" using bufs mx_current_frame[of ?s s] by (simp add: mx_bufs_def)
  ultimately show ?thesis by blast
next
  case MxBackendDown
  let ?s = "s\<lparr>mxBackend := None, mxShut := mxShut s @ map snd (mxClients s), mxClients := [], mxAvail := []\<rparr>"
  have "mx_bufs ?s" by (rule mx_bufs_mono[OF bufs]) (auto simp: mx_current_def split: option.splits)
  then show ?thesis using MxBackendDown ids by (auto simp: onBackendConnection_def mx_ids_def std_map_wf_def)
qed (use client_up_ok[OF ids bufs] client_down_ok[OF ids bufs] client_data_ok[OF ids bufs] backend_data_ok[OF ids bufs] legal lost in blast)+

lemma mx_legal_run_ok:
  assumes "mx_ids s" and "mx_bufs s" and "mx_legal_run evs s = Some r"
  shows "(\<exists>s'. r = Inr s' \<and> mx_ids s' \<and> mx_bufs s')
    \<or> r = Inl no_prepend_room \<and> (\<exists>evs1 ev evs2 s1. evs = evs1 @ ev # evs2 \<and> mx_legal_run evs1 s = Some (Inr s1) \<and> data_of_lost ev s1)"
  using assms
proof (induction evs arbitrary: s)
  case (Cons ev evs)
  then have legal: "mx_legal ev s" by (auto split: if_splits)
  have later: ?case if s': "mx_event_do ev s = Inr s'" "mx_ids s'" "mx_bufs s'" for s'
  proof -
    from Cons.IH[OF s'(2,3)] Cons.prems(3) legal s'(1) consider "\<exists>s'. r = Inr s' \<and> mx_ids s' \<and> mx_bufs s'"
      | evs1 e evs2 s1 where "r = Inl no_prepend_room" "evs = evs1 @ e # evs2" "mx_legal_run evs1 s' = Some (Inr s1)" "data_of_lost e s1" by auto
    then show ?thesis
    proof cases
      case 2
      then have "ev # evs = (ev # evs1) @ e # evs2" "mx_legal_run (ev # evs1) s = Some (Inr s1)" using legal s'(1) by simp_all
      then show ?thesis using 2 by blast
    qed blast
  qed
  show ?case
  proof (cases "data_of_lost ev s")
    case False
    then show ?thesis using mx_event_ok[OF Cons.prems(1,2) legal] later by blast
  next
    case True
    then obtain c seg i where e: "ev = MxClientData c seg" "mxBackend s = None" "mxContext s c = Some i" by (auto simp: data_of_lost_def split: mx_event.splits)
    show ?thesis
    proof (cases "mx_event_do ev s")
      case (Inl f)
      then have "r = Inl no_prepend_room" using lost_data_ok[OF Cons.prems(1,2) e(2,3), of seg] Cons.prems(3) legal e(1) by auto
      moreover have "mx_legal_run [] s = Some (Inr s)" by simp
      ultimately show ?thesis using True by (metis append_Nil)
    next
      case (Inr s')
      then show ?thesis using lost_data_ok[OF Cons.prems(1,2) e(2,3), of seg] later e(1) by auto
    qed
  qed
qed auto

lemma newMux_ok: "mx_ids newMux" "mx_bufs newMux"
  by (simp_all add: newMux_def mx_ids_def mx_bufs_def std_map_wf_def)

subsection \<open>Properties\<close>

text \<open>Property C40. As long as the clients of a lost backend connection are gone before the next one comes, the connection numbers of the multiplexer are never shared:
  while there is a backend, each of the numbers 1 to 10 is either free, once, or belongs to exactly one client,
  which knows it. No assertion fires, but for one: when a client of a lost backend sends while there is none, its input may have no room left for a packet's header.\<close>

theorem mux_numbers_unique:
  assumes "mx_legal_run evs newMux = Some r"
  shows "(\<exists>s. r = Inr s
    \<and> (mxBackend s \<noteq> None \<longrightarrow> distinct (mxAvail s)
        \<and> (\<forall>i. 1 \<le> i \<and> i \<le> kMaxConns \<longrightarrow> (i \<in> set (mxAvail s)) \<noteq> (\<exists>c. map_of (mxClients s) i = Some c)))
    \<and> (\<forall>i j c. map_of (mxClients s) i = Some c \<and> map_of (mxClients s) j = Some c \<longrightarrow> i = j)
    \<and> (\<forall>i c. map_of (mxClients s) i = Some c \<longrightarrow> mxContext s c = Some i))
    \<or> r = Inl no_prepend_room
      \<and> (\<exists>evs1 ev evs2 s. evs = evs1 @ ev # evs2 \<and> mx_legal_run evs1 newMux = Some (Inr s) \<and> data_of_lost ev s)"
proof (cases "\<exists>s. r = Inr s \<and> mx_ids s")
  case False
  then show ?thesis using mx_legal_run_ok[OF newMux_ok assms] by blast
next
  case True
  then obtain s where s: "r = Inr s" "mx_ids s" by blast
  note D = mx_idsD[OF s(2)]
  have "(i \<in> set (mxAvail s)) \<noteq> (\<exists>c. map_of (mxClients s) i = Some c)"
    if "mxBackend s \<noteq> None" "1 \<le> i" "i \<le> kMaxConns" for i
  proof -
    have "i \<in> set (mxAvail s) \<union> dom (map_of (mxClients s))" using D(5)[OF that(1)] that(2,3) by auto
    moreover have "i \<notin> set (mxAvail s) \<or> i \<notin> dom (map_of (mxClients s))" using D(5)[OF that(1)] by auto
    ultimately show ?thesis by (auto simp: dom_def)
  qed
  moreover have "i = j" if "map_of (mxClients s) i = Some c" "map_of (mxClients s) j = Some c" for i j c
    using D(2)[OF that(1)] D(2)[OF that(2)] by simp
  ultimately show ?thesis using s(1) D(2,5) by blast
qed


lemma one_client_run:
  "\<exists>s. mx_legal_run [MxBackendUp 100, MxClientUp 1 ''1.2.3.4:5'', MxClientUp 2 ''1.2.3.4:6'', MxClientDown 1 ''1.2.3.4:5''] newMux = Some (Inr s)
     \<and> mxBackend s \<noteq> None \<and> map_of (mxClients s) 2 = Some 2 \<and> mxContext s 2 = Some 2"
  by (simp add: onBackendConnection_def onClientConnection_def newMux_def sendBackendString_ok[OF length_notice] mx_put_def
      kMaxConns_def upto.simps std_map_erase_def mx_current_def)

theorem mux_numbers_unique_witness:
  "\<exists>s. mx_legal_run [MxBackendUp 100, MxClientUp 1 ''1.2.3.4:5'', MxClientUp 2 ''1.2.3.4:6'', MxClientDown 1 ''1.2.3.4:5''] newMux = Some (Inr s)
     \<and> distinct (mxAvail s) \<and> 2 \<notin> set (mxAvail s)"
proof -
  obtain s where s: "mx_legal_run [MxBackendUp 100, MxClientUp 1 ''1.2.3.4:5'', MxClientUp 2 ''1.2.3.4:6'', MxClientDown 1 ''1.2.3.4:5''] newMux
      = Some (Inr s)" "mxBackend s \<noteq> None" "map_of (mxClients s) 2 = Some 2"
    using one_client_run by blast
  have "(2::int) \<le> kMaxConns" by (simp add: kMaxConns_def)
  then show ?thesis using mux_numbers_unique[OF s(1)] s by fastforce
qed

text \<open>A client that stays on while the backend connection is lost and made again still carries its old
  number. When it goes, the number is put back although it belongs to a client of the new
  connection: that client is forgotten, and its number will be given to another one.\<close>

lemma stale_client_frees_foreign_number:
  "\<exists>s. foldR mx_event_do [MxBackendUp 100, MxClientUp 1 p, MxBackendDown, MxBackendUp 101, MxClientUp 2 p, MxClientDown 1 p] newMux = Inr s
     \<and> mxContext s 2 = Some 1 \<and> 2 \<notin> set (mxShut s) \<and> map_of (mxClients s) 1 = None \<and> 1 \<in> set (mxAvail s)"
  by (simp add: onBackendConnection_def onClientConnection_def newMux_def sendBackendString_ok[OF length_notice] mx_put_def
      kMaxConns_def upto.simps std_map_erase_def)

text \<open>While there is no backend a packet is not sent, but its header stays in front of the client's input:
  the third message of such a client finds no room for one more header.\<close>

lemma messages_without_backend_abort:
  "foldR mx_event_do [MxBackendUp 100, MxClientUp 1 p, MxBackendDown, MxClientData 1 ''a'', MxClientData 1 ''b'', MxClientData 1 ''c''] newMux
     = Inl (AssertFailed ''prepend: len <= prependableBytes()'')"
  by (simp add: onBackendConnection_def onClientConnection_def newMux_def sendBackendString_ok[OF length_notice] mx_put_def
      kMaxConns_def upto.simps onClientMessage_def sendBackendBuffer_def split_loop.simps sendBackendPacket_def make_packet_def
      bufAppend_def ensureWritableBytes_def newBuffer_def writableBytes_def readableBytes_def prependableBytes_def std_copy_def prepend_def
      hasWritten_def beginWrite_def kMaxPacketLen_def packet_header_def kCheapPrepend_def kInitialSize_def Let_def)


definition recv_packets :: "netbuf \<Rightarrow> ((int \<times> char list) list \<times> netbuf) option" where
  "recv_packets buf =
     (case packet_loop (\<lambda>cid d ms. Inr (ms @ [(cid, d)])) buf [] of Inl _ \<Rightarrow> None | Inr r \<Rightarrow> Some r)"

lemma foldR_collect: "foldR (\<lambda>p ms. Inr (ms @ [p])) ps ms = Inr (ms @ ps)"
  by (induction ps arbitrary: ms) simp_all

interpretation muxc: framed_codec mux_next recv_packets
proof
  fix b ms r
  assume "buf_wf b" "frames mux_next (readable b) = (ms, None, r)"
  from packet_loop_frames[OF this, of "\<lambda>cid d ms. Inr (ms @ [(cid, d)])" "[]"]
  show "\<exists>b'. recv_packets b = Some (ms, b') \<and> buf_wf b' \<and> readable b' = r"
    by (auto simp: recv_packets_def foldR_collect)
qed

definition bytes_of :: "int \<Rightarrow> (int \<times> char list) list \<Rightarrow> char list" where
  "bytes_of i ps = concat (map snd (filter (\<lambda>p. fst p = i) ps))"

lemma bytes_of_simps [simp]:
  "bytes_of i [] = []" "bytes_of i (p # ps) = (if fst p = i then snd p else []) @ bytes_of i ps"
  "bytes_of i (ps @ qs) = bytes_of i ps @ bytes_of i qs"
  by (simp_all add: bytes_of_def)

lemma bytes_of_chunks: "bytes_of i (map (Pair cid) ds) = (if cid = i then concat ds else [])"
  by (induction ds) simp_all

text \<open>One write of a client.\<close>

definition mux_write :: "int \<times> netbuf \<Rightarrow> mux_server \<Rightarrow> mux_server res" where
  "mux_write w s = bindR (sendBackendBuffer (fst w) (snd w) s) (\<lambda>(s', buf'). Inr s')"

lemma mux_writes:
  assumes "mxBackend s = Some b" and "\<And>w. w \<in> set ws \<Longrightarrow> room (snd w)"
  defines "ps \<equiv> concat (map (\<lambda>w. map (Pair (fst w)) (chunks (readable (snd w)))) ws)"
  shows "foldR mux_write ws s = Inr (s\<lparr>mxToBackend := mxToBackend s @ map (\<lambda>p. (b, enc_packet p)) ps\<rparr>)"
  unfolding ps_def
  using assms(1,2)
proof (induction ws arbitrary: s)
  case (Cons w ws)
  have r: "room (snd w)" using Cons.prems(2) by simp
  obtain buf' where "sendBackendBuffer (fst w) (snd w) s
      = Inr (s\<lparr>mxToBackend := mxToBackend s @ map (\<lambda>d. (b, enc_packet (fst w, d))) (chunks (readable (snd w)))\<rparr>, buf')"
    using sendBackendBuffer_ok[OF Cons.prems(1) r, of "fst w"] by metis
  then show ?case using Cons.IH[of "s\<lparr>mxToBackend := mxToBackend s @ map (\<lambda>d. (b, enc_packet (fst w, d))) (chunks (readable (snd w)))\<rparr>"] Cons.prems
    by (simp add: mux_write_def o_def)
qed simp

text \<open>Streams survive multiplexing: whatever any number of clients send through a multiplexer
  that has its backend, in writes of any size and in any interleaving, and however the network cuts
  the backend's stream, taking the packets out of it at the other end gives, for every
  connection number, exactly the bytes written under it, in order.\<close>

theorem mux_streams_arrive:
  assumes "mxBackend s = Some b" and "\<And>w. w \<in> set ws \<Longrightarrow> room (snd w) \<and> 0 \<le> fst w \<and> fst w < 65536"
  shows "\<exists>sent. foldR mux_write ws s = Inr (s\<lparr>mxToBackend := mxToBackend s @ map (Pair b) sent\<rparr>)
    \<and> (\<forall>segs. concat segs = concat sent \<longrightarrow>
        (\<exists>ps buf. deliver recv_packets segs newBuffer = Some (ps, buf) \<and> readable buf = []
          \<and> (\<forall>i. bytes_of i ps = concat (map (readable \<circ> snd) (filter (\<lambda>w. fst w = i) ws)))))"
proof -
  define ps where "ps = concat (map (\<lambda>w. map (Pair (fst w)) (chunks (readable (snd w)))) ws)"
  have run: "foldR mux_write ws s = Inr (s\<lparr>mxToBackend := mxToBackend s @ map (Pair b) (map enc_packet ps)\<rparr>)"
    using mux_writes[OF assms(1)] assms(2) by (simp add: ps_def o_def)
  have ok: "packet_ok p" if "p \<in> set ps" for p
    using that assms(2) chunks_ok by (fastforce simp: ps_def packet_ok_def)
  have same: "bytes_of i ps = concat (map (readable \<circ> snd) (filter (\<lambda>w. fst w = i) ws))" for i
    unfolding ps_def by (induction ws) (simp_all add: bytes_of_chunks concat_chunks)
  have "\<exists>buf. deliver recv_packets segs newBuffer = Some (ps, buf) \<and> readable buf = []" if "concat segs = concat (map enc_packet ps)" for segs
    using muxc.deliver_all[of ps enc_packet segs] mux_next_enc ok that by (auto simp: mux_next_def)
  with run same show ?thesis by blast
qed

theorem mux_streams_arrive_witness:
  "\<exists>buf sent. readable buf = ''hi'' \<and> foldR mux_write [(1, buf), (2, newBuffer)] (newMux\<lparr>mxBackend := Some 0\<rparr>)
      = Inr (newMux\<lparr>mxBackend := Some 0, mxToBackend := map (Pair 0) sent\<rparr>)
    \<and> (\<exists>ps b. deliver recv_packets [concat sent] newBuffer = Some (ps, b) \<and> bytes_of 1 ps = ''hi'')"
proof -
  obtain buf where buf: "room buf" "readable buf = ''hi''"
    using bufAppend_ok[OF newBuffer_wf, of "''hi''"] room_new by (metis append_Nil newBuffer_readable room_def)
  let ?ws = "[(1 :: int, buf), (2, newBuffer)]" and ?s = "newMux\<lparr>mxBackend := Some 0\<rparr>"
  have "mxBackend ?s = Some 0" and "\<And>w. w \<in> set ?ws \<Longrightarrow> room (snd w) \<and> 0 \<le> fst w \<and> fst w < 65536" using buf(1) by auto
  from mux_streams_arrive[OF this] obtain sent where
    1: "foldR mux_write ?ws ?s = Inr (?s\<lparr>mxToBackend := mxToBackend ?s @ map (Pair 0) sent\<rparr>)"
    and 2: "\<forall>segs. concat segs = concat sent \<longrightarrow> (\<exists>ps b. deliver recv_packets segs newBuffer = Some (ps, b) \<and> readable b = []
          \<and> (\<forall>i. bytes_of i ps = concat (map (readable \<circ> snd) (filter (\<lambda>w. fst w = i) ?ws))))"
    by blast
  have "?s\<lparr>mxToBackend := mxToBackend ?s @ map (Pair 0) sent\<rparr> = newMux\<lparr>mxBackend := Some 0, mxToBackend := map (Pair 0) sent\<rparr>"
    by (simp add: newMux_def)
  note 1 = 1[unfolded this]
  from 2[rule_format, of "[concat sent]"] obtain ps b where
    "deliver recv_packets [concat sent] newBuffer = Some (ps, b)" "bytes_of 1 ps = ''hi''" using buf(2) by auto
  with 1 buf(2) show ?thesis by blast
qed

end
