(* ===== verification/Demux.thy ===== *)
theory Demux
  imports Multiplexer
begin

text \<open>
  The other end of the multiplexer (\<open>examples/multiplexer/demux.cc\<close>): packets from the one server
  connection are handed to a connection of their own for each number, opened at the command
  \<open>CONN n ... IS UP\<close>; what comes before that connection is up waits in \<open>pending\<close>.
\<close>

subsection \<open>State and operations\<close>

text \<open>\<open>dmConnect\<close> lists the numbers for which a client was created and told to connect.\<close>

record dm_entry =
  deConnection :: "nat option"
  dePending :: netbuf

record demux_server =
  dmServer :: "nat option"
  dmSocks :: "(int \<times> dm_entry) list"
  dmShut :: "nat list"
  dmToServer :: "(nat \<times> char list) list"
  dmToSocks :: "(nat \<times> char list) list"
  dmConnect :: "int list"

definition newDemux :: demux_server where
  "newDemux = \<lparr>dmServer = None, dmSocks = [], dmShut = [], dmToServer = [], dmToSocks = [], dmConnect = []\<rparr>"

definition dm_shutdown :: "nat \<Rightarrow> demux_server \<Rightarrow> demux_server" where
  "dm_shutdown c s = s\<lparr>dmShut := dmShut s @ [c]\<rparr>"

definition dm_send :: "nat \<Rightarrow> char list \<Rightarrow> demux_server \<Rightarrow> demux_server" where
  "dm_send c d s = (if c \<in> set (dmShut s) then s else s\<lparr>dmToSocks := dmToSocks s @ [(c, d)]\<rparr>)"

definition dm_setEntry :: "int \<Rightarrow> dm_entry \<Rightarrow> demux_server \<Rightarrow> demux_server" where
  "dm_setEntry cid e s = s\<lparr>dmSocks := std_map_put cid e (dmSocks s)\<rparr>"

definition onServerConnection :: "nat \<Rightarrow> bool \<Rightarrow> demux_server \<Rightarrow> demux_server" where
  "onServerConnection c connected s =
     (if connected then (if dmServer s \<noteq> None then dm_shutdown c s else s\<lparr>dmServer := Some c\<rparr>)
      else if dmServer s = Some c then s\<lparr>dmServer := None, dmSocks := []\<rparr> else s)"

text \<open>\<open>&cmd[kConn.size()]\<close> needs a command of at least that size.\<close>

definition dm_doCommand :: "string \<Rightarrow> demux_server \<Rightarrow> demux_server res" where
  "dm_doCommand cmd s =
     (if length cmd < length ''CONN '' then Inl (BadAccess ''doCommand: cmd[kConn.size()]'')
      else
        let connId = c_atoi (drop (length ''CONN '') cmd);
            isUp = (std_search '' IS UP'' cmd < length cmd)
        in if isUp then
             ensure (map_of (dmSocks s) connId = None) ''doCommand: socksConns_.find(connId) == socksConns_.end()''
             (Inr ((dm_setEntry connId \<lparr>deConnection = None, dePending = newBuffer\<rparr> s)\<lparr>dmConnect := dmConnect s @ [connId]\<rparr>))
           else
             (case map_of (dmSocks s) connId of
                None \<Rightarrow> Inl (AssertFailed ''doCommand: socksConns_.find(connId) != socksConns_.end()'')
              | Some e \<Rightarrow>
                  (case deConnection e of
                     Some c \<Rightarrow> Inr (dm_shutdown c s)
                   | None \<Rightarrow> Inr (s\<lparr>dmSocks := std_map_erase connId (dmSocks s)\<rparr>))))"

definition dm_packet :: "int \<Rightarrow> char list \<Rightarrow> demux_server \<Rightarrow> demux_server res" where
  "dm_packet connId d s =
     (if connId \<noteq> 0 then
        (case map_of (dmSocks s) connId of
           None \<Rightarrow> Inl (AssertFailed ''onServerMessage: socksConns_.find(connId) != socksConns_.end()'')
         | Some e \<Rightarrow>
             (case deConnection e of
                Some c \<Rightarrow>
                  ensure (readableBytes (dePending e) = 0) ''onServerMessage: pending.readableBytes() == 0'' (Inr (dm_send c d s))
              | None \<Rightarrow> bindR (bufAppend (dePending e) d) (\<lambda>b. Inr (dm_setEntry connId (e\<lparr>dePending := b\<rparr>) s))))
      else dm_doCommand d s)"

definition onServerMessage :: "netbuf \<Rightarrow> demux_server \<Rightarrow> (demux_server \<times> netbuf) res" where
  "onServerMessage buf s = packet_loop dm_packet buf s"

definition sendServerPacket :: "int \<Rightarrow> netbuf \<Rightarrow> demux_server \<Rightarrow> (demux_server \<times> netbuf) res" where
  "sendServerPacket connId buf s =
     bindR (make_packet connId buf) (\<lambda>buf1.
     case dmServer s of
       None \<Rightarrow> Inr (s, buf1)
     | Some c \<Rightarrow> Inr (s\<lparr>dmToServer := dmToServer s @ [(c, range_at buf1 (peek buf1) (beginWrite buf1))]\<rparr>, retrieveAll buf1))"

definition onSocksConnection :: "int \<Rightarrow> nat \<Rightarrow> bool \<Rightarrow> demux_server \<Rightarrow> demux_server res" where
  "onSocksConnection connId c connected s =
     (case map_of (dmSocks s) connId of
        None \<Rightarrow> Inl (AssertFailed ''onSocksConnection: socksConns_.find(connId) != socksConns_.end()'')
      | Some e \<Rightarrow>
          if connected then
            (let e1 = e\<lparr>deConnection := Some c\<rparr>; pendingData = dePending e1
             in if readableBytes pendingData > 0
                then Inr (dm_setEntry connId (e1\<lparr>dePending := retrieveAll pendingData\<rparr>)
                       (dm_send c (range_at pendingData (peek pendingData) (beginWrite pendingData)) s))
                else Inr (dm_setEntry connId e1 s))
          else if dmServer s \<noteq> None then
            bindR (bufAppend newBuffer (snprintf 256 (''DISCONNECT '' @ dec_int connId @ kCRLF))) (\<lambda>buffer.
            bindR (sendServerPacket 0 buffer s) (\<lambda>(s1, b1). Inr s1))
          else Inr (s\<lparr>dmSocks := std_map_erase connId (dmSocks s)\<rparr>))"

definition onSocksMessage :: "int \<Rightarrow> netbuf \<Rightarrow> demux_server \<Rightarrow> (demux_server \<times> netbuf) res" where
  "onSocksMessage connId buf s =
     ensure (map_of (dmSocks s) connId \<noteq> None) ''onSocksMessage: socksConns_.find(connId) != socksConns_.end()''
     (split_loop sendServerPacket connId buf s)"

subsection \<open>Towards the multiplexer\<close>

definition dm_put :: "int \<Rightarrow> char list \<Rightarrow> demux_server \<Rightarrow> demux_server" where
  "dm_put cid d s = s\<lparr>dmToServer := dmToServer s @ [(the (dmServer s), enc_packet (cid, d))]\<rparr>"

interpretation dms: packet_sender sendServerPacket "\<lambda>s. dmServer s \<noteq> None" dm_put
proof
  fix s :: demux_server and b cid
  assume a: "dmServer s \<noteq> None" "room b" "length (readable b) \<le> 255"
  obtain b' where b': "make_packet cid b = Inr b'" "buf_wf b'" "readable b' = enc_packet (cid, readable b)"
    using make_packet_ok[OF a(2,3)] by metis
  have "range_at b' (peek b') (beginWrite b') = readable b'" by (simp add: readable_def peek_def beginWrite_def)
  then show "\<exists>b'. sendServerPacket cid b s = Inr (dm_put cid (readable b) s, b') \<and> room b' \<and> readable b' = []"
    using a(1) b' room_retrieveAll[OF b'(2)] by (auto simp: sendServerPacket_def dm_put_def)
qed (simp add: dm_put_def)

lemma fold_dm_put:
  "fold (dm_put cid) ds s = s\<lparr>dmToServer := dmToServer s @ map (\<lambda>d. (the (dmServer s), enc_packet (cid, d))) ds\<rparr>"
  by (induction ds arbitrary: s) (simp_all add: dm_put_def)

text \<open>What a connection says goes to the server connection whole, in packets under its number.\<close>

lemma onSocksMessage_ok:
  assumes "dmServer s = Some c" and "map_of (dmSocks s) cid \<noteq> None" and "room buf"
  shows "\<exists>buf'. onSocksMessage cid buf s
      = Inr (s\<lparr>dmToServer := dmToServer s @ map (\<lambda>d. (c, enc_packet (cid, d))) (chunks (readable buf))\<rparr>, buf')
    \<and> readable buf' = [] \<and> concat (chunks (readable buf)) = readable buf"
  using dms.split_sends[of s buf cid] assms by (auto simp: onSocksMessage_def fold_dm_put concat_chunks)

subsection \<open>Streams\<close>

definition sent_to :: "nat \<Rightarrow> demux_server \<Rightarrow> char list" where
  "sent_to c s = concat (map snd (filter (\<lambda>x. fst x = c) (dmToSocks s)))"

text \<open>What was passed on under a number: sent, or waiting for the connection.\<close>

definition stream_of :: "int \<Rightarrow> demux_server \<Rightarrow> char list" where
  "stream_of cid s =
     (case map_of (dmSocks s) cid of
        None \<Rightarrow> []
      | Some e \<Rightarrow> (case deConnection e of None \<Rightarrow> [] | Some c \<Rightarrow> sent_to c s) @ readable (dePending e))"

definition dm_wf :: "demux_server \<Rightarrow> bool" where
  "dm_wf s \<longleftrightarrow> std_map_wf (dmSocks s)
   \<and> (\<forall>cid e. map_of (dmSocks s) cid = Some e \<longrightarrow> buf_wf (dePending e)
        \<and> (\<forall>c. deConnection e = Some c \<longrightarrow> readable (dePending e) = [] \<and> c \<notin> set (dmShut s)
            \<and> (\<forall>j f. map_of (dmSocks s) j = Some f \<and> deConnection f = Some c \<longrightarrow> j = cid)))"

lemma dm_wfD:
  assumes "dm_wf s"
  shows "std_map_wf (dmSocks s)" and "map_of (dmSocks s) cid = Some e \<Longrightarrow> buf_wf (dePending e)"
    and "map_of (dmSocks s) cid = Some e \<Longrightarrow> deConnection e = Some c \<Longrightarrow> readable (dePending e) = [] \<and> c \<notin> set (dmShut s)"
    and "map_of (dmSocks s) cid = Some e \<Longrightarrow> deConnection e = Some c \<Longrightarrow> map_of (dmSocks s) j = Some f
      \<Longrightarrow> deConnection f = Some c \<Longrightarrow> j = cid"
  using assms unfolding dm_wf_def by blast+

text \<open>Replacing one entry, its connection being nobody else's.\<close>

lemma dm_wf_put:
  assumes wf: "dm_wf s" and e: "buf_wf (dePending e)"
    "\<And>c. deConnection e = Some c \<Longrightarrow> readable (dePending e) = [] \<and> c \<notin> set (dmShut s)"
    "\<And>c j f. deConnection e = Some c \<Longrightarrow> j \<noteq> cid \<Longrightarrow> map_of (dmSocks s) j = Some f \<Longrightarrow> deConnection f \<noteq> Some c"
    and s': "dmSocks s' = std_map_put cid e (dmSocks s)" "dmShut s' = dmShut s"
  shows "dm_wf s'"
proof -
  note D = dm_wfD[OF wf]
  have m: "map_of (dmSocks s') = (map_of (dmSocks s))(cid \<mapsto> e)" using D(1) s'(1) by simp
  show ?thesis
    unfolding dm_wf_def
  proof (intro conjI allI impI)
    show "std_map_wf (dmSocks s')" using D(1) s'(1) by (simp add: std_map_put_wf)
    fix i f assume f: "map_of (dmSocks s') i = Some f"
    then have fc: "i = cid \<and> f = e \<or> i \<noteq> cid \<and> map_of (dmSocks s) i = Some f" by (auto simp: m split: if_splits)
    then show "buf_wf (dePending f)" using D(2)[of i f] e(1) by auto
    fix c assume c: "deConnection f = Some c"
    show "readable (dePending f) = []" "c \<notin> set (dmShut s')" using fc D(3)[of i f c] e(2)[of c] c s'(2) by auto
    fix j g assume g: "map_of (dmSocks s') j = Some g \<and> deConnection g = Some c"
    then have "j = cid \<and> g = e \<or> j \<noteq> cid \<and> map_of (dmSocks s) j = Some g" by (auto simp: m split: if_splits)
    then show "j = i" using fc g c e(3)[of c i f] e(3)[of c j g] D(4)[of i f c j g] by auto
  qed
qed

lemma stream_other:
  assumes "std_map_wf (dmSocks s)" "dmSocks s' = std_map_put cid e (dmSocks s)" "dmToSocks s' = dmToSocks s" "i \<noteq> cid"
  shows "stream_of i s' = stream_of i s"
  using assms by (simp add: stream_of_def sent_to_def split: option.split)

lemma dm_packet_ok:
  assumes wf: "dm_wf s" and p: "fst p \<noteq> 0" "map_of (dmSocks s) (fst p) \<noteq> None"
  shows "\<exists>s'. dm_packet (fst p) (snd p) s = Inr s' \<and> dm_wf s' \<and> dom (map_of (dmSocks s')) = dom (map_of (dmSocks s))
    \<and> (\<forall>i. stream_of i s' = stream_of i s @ bytes_of i [p])"
proof -
  note D = dm_wfD[OF wf]
  obtain cid d where pd: "p = (cid, d)" by (metis surj_pair)
  obtain e where e: "map_of (dmSocks s) cid = Some e" using p(2) pd by auto
  show ?thesis
  proof (cases "deConnection e")
    case (Some c)
    let ?s = "s\<lparr>dmToSocks := dmToSocks s @ [(c, d)]\<rparr>"
    have c: "readable (dePending e) = []" "c \<notin> set (dmShut s)" using D(3)[OF e Some] by auto
    have "readableBytes (dePending e) = 0" using c(1) D(2)[OF e] by (metis length_readable list.size(3))
    then have run: "dm_packet cid d s = Inr ?s" using e Some p(1) pd c(2) by (simp add: dm_packet_def dm_send_def)
    have "stream_of i ?s = stream_of i s @ bytes_of i [(cid, d)]" for i
    proof (cases "i = cid")
      case True
      then show ?thesis using e Some c(1) by (simp add: stream_of_def sent_to_def)
    next
      case False
      then have "deConnection f \<noteq> Some c" if "map_of (dmSocks s) i = Some f" for f using D(4)[OF e Some that] by auto
      then show ?thesis using False by (auto simp: stream_of_def sent_to_def split: option.split)
    qed
    moreover have "dm_wf ?s" "dom (map_of (dmSocks ?s)) = dom (map_of (dmSocks s))" using wf by (simp_all add: dm_wf_def)
    ultimately show ?thesis using run unfolding pd fst_conv snd_conv by blast
  next
    case None
    obtain b where b: "bufAppend (dePending e) d = Inr b" "buf_wf b" "readable b = readable (dePending e) @ d"
      using bufAppend_ok[OF D(2)[OF e]] by metis
    let ?e = "e\<lparr>dePending := b\<rparr>" and ?s = "dm_setEntry cid (e\<lparr>dePending := b\<rparr>) s"
    have run: "dm_packet cid d s = Inr ?s" using e None p(1) pd b(1) by (simp add: dm_packet_def)
    have s': "dmSocks ?s = std_map_put cid ?e (dmSocks s)" "dmShut ?s = dmShut s" "dmToSocks ?s = dmToSocks s"
      by (simp_all add: dm_setEntry_def)
    have "dm_wf ?s" by (rule dm_wf_put[OF wf, where e = ?e and cid = cid]) (use b None s' in auto)
    moreover have "stream_of i ?s = stream_of i s @ bytes_of i [(cid, d)]" for i
    proof (cases "i = cid")
      case True
      then show ?thesis using e None b(3) D(1) s' by (simp add: stream_of_def)
    next
      case False
      then show ?thesis using stream_other[OF D(1) s'(1,3)] by simp
    qed
    moreover have "dom (map_of (dmSocks ?s)) = dom (map_of (dmSocks s))" using D(1) s'(1) e by auto
    ultimately show ?thesis using run unfolding pd fst_conv snd_conv by blast
  qed
qed

lemma onSocksConnection_up:
  assumes wf: "dm_wf s" and e: "map_of (dmSocks s) cid = Some e" "deConnection e = None"
    and c: "c \<notin> set (dmShut s)" "c \<notin> fst ` set (dmToSocks s)"
    "\<And>j f. map_of (dmSocks s) j = Some f \<Longrightarrow> deConnection f \<noteq> Some c"
  shows "\<exists>s'. onSocksConnection cid c True s = Inr s' \<and> dm_wf s' \<and> dom (map_of (dmSocks s')) = dom (map_of (dmSocks s))
    \<and> (\<forall>i. stream_of i s' = stream_of i s) \<and> (\<exists>e'. map_of (dmSocks s') cid = Some e' \<and> deConnection e' = Some c \<and> readable (dePending e') = [])"
proof -
  note D = dm_wfD[OF wf]
  let ?p = "dePending e"
  have pw: "buf_wf ?p" using D(2) e(1) .
  have none: "sent_to c s = []" using c(2) by (force simp: sent_to_def filter_empty_conv)
  have whole: "range_at ?p (peek ?p) (beginWrite ?p) = readable ?p" by (simp add: readable_def peek_def beginWrite_def)
  have some: "readableBytes ?p > 0 \<longleftrightarrow> readable ?p \<noteq> []" using pw by (metis length_greater_0_conv length_readable)
  let ?e = "e\<lparr>deConnection := Some c, dePending := if readable ?p = [] then ?p else retrieveAll ?p\<rparr>"
  let ?s = "s\<lparr>dmSocks := std_map_put cid ?e (dmSocks s), dmToSocks := dmToSocks s @ (if readable ?p = [] then [] else [(c, readable ?p)])\<rparr>"
  have run: "onSocksConnection cid c True s = Inr ?s"
    using e(1) c(1) some by (cases "readable ?p = []") (simp_all add: onSocksConnection_def Let_def dm_setEntry_def dm_send_def whole)
  have "dm_wf ?s" by (rule dm_wf_put[OF wf, where e = ?e and cid = cid]) (use pw c in auto)
  moreover have "stream_of i ?s = stream_of i s" for i
  proof (cases "i = cid")
    case True
    then show ?thesis using e none D(1) by (auto simp: stream_of_def sent_to_def)
  next
    case False
    have "deConnection f \<noteq> Some c" if "map_of (dmSocks s) i = Some f" for f using c(3)[OF that] .
    then show ?thesis using False D(1) by (auto simp: stream_of_def sent_to_def split: option.split)
  qed
  moreover have "dom (map_of (dmSocks ?s)) = dom (map_of (dmSocks s))" using D(1) e(1) by auto
  moreover have "map_of (dmSocks ?s) cid = Some ?e" "deConnection ?e = Some c" "readable (dePending ?e) = []" using D(1) by auto
  ultimately show ?thesis using run by blast
qed


text \<open>Between two commands: packets for known numbers, and connections coming up.\<close>

datatype dm_event = DmPacket int "char list" | DmSocksUp int nat

fun dm_event_do :: "dm_event \<Rightarrow> demux_server \<Rightarrow> demux_server res" where
  "dm_event_do (DmPacket cid d) s = dm_packet cid d s"
| "dm_event_do (DmSocksUp cid c) s = onSocksConnection cid c True s"

fun dm_legal :: "dm_event \<Rightarrow> demux_server \<Rightarrow> bool" where
  "dm_legal (DmPacket cid d) s \<longleftrightarrow> cid \<noteq> 0 \<and> map_of (dmSocks s) cid \<noteq> None"
| "dm_legal (DmSocksUp cid c) s \<longleftrightarrow>
     (case map_of (dmSocks s) cid of None \<Rightarrow> False | Some e \<Rightarrow> deConnection e = None)
   \<and> c \<notin> set (dmShut s) \<and> c \<notin> fst ` set (dmToSocks s) \<and> list_all (\<lambda>x. deConnection (snd x) \<noteq> Some c) (dmSocks s)"

fun dm_legal_run :: "dm_event list \<Rightarrow> demux_server \<Rightarrow> demux_server res option" where
  "dm_legal_run [] s = Some (Inr s)"
| "dm_legal_run (ev # evs) s =
     (if dm_legal ev s
      then (case dm_event_do ev s of Inl e \<Rightarrow> Some (Inl e) | Inr s' \<Rightarrow> dm_legal_run evs s')
      else None)"

fun packets_in :: "dm_event list \<Rightarrow> (int \<times> char list) list" where
  "packets_in [] = []"
| "packets_in (DmPacket cid d # evs) = (cid, d) # packets_in evs"
| "packets_in (DmSocksUp cid c # evs) = packets_in evs"

lemma dm_event_ok:
  assumes wf: "dm_wf s" and legal: "dm_legal ev s"
  shows "\<exists>s'. dm_event_do ev s = Inr s' \<and> dm_wf s' \<and> (\<forall>i. stream_of i s' = stream_of i s @ bytes_of i (packets_in [ev]))"
proof (cases ev)
  case (DmPacket cid d)
  then show ?thesis using dm_packet_ok[OF wf, of "(cid, d)"] legal by auto
next
  case (DmSocksUp cid c)
  then obtain e where e: "map_of (dmSocks s) cid = Some e" "deConnection e = None" using legal by (auto split: option.splits)
  have "deConnection f \<noteq> Some c" if "map_of (dmSocks s) j = Some f" for j f
    using legal DmSocksUp map_of_SomeD[OF that] by (auto simp: list_all_iff)
  then show ?thesis using onSocksConnection_up[OF wf e, of c] legal DmSocksUp by auto
qed

lemma dm_legal_run_ok:
  assumes "dm_wf s" and "dm_legal_run evs s = Some r"
  shows "\<exists>s'. r = Inr s' \<and> dm_wf s' \<and> (\<forall>i. stream_of i s' = stream_of i s @ bytes_of i (packets_in evs))"
  using assms
proof (induction evs arbitrary: s)
  case (Cons ev evs)
  then have legal: "dm_legal ev s" by (auto split: if_splits)
  obtain s' where s': "dm_event_do ev s = Inr s'" "dm_wf s'" "\<And>i. stream_of i s' = stream_of i s @ bytes_of i (packets_in [ev])"
    using dm_event_ok[OF Cons.prems(1) legal] by blast
  have "dm_legal_run evs s' = Some r" using Cons.prems(2) legal s'(1) by simp
  from Cons.IH[OF s'(2) this] s'(3) show ?case by (cases ev) auto
qed auto

text \<open>The demultiplexer loses nothing while a connection is being opened: in any sequence of
  packets and connections coming up, no assertion fires, and for every number the bytes of its packets,
  in order, are what its connection was sent, followed, while there is none, by what is
  pending.\<close>

theorem demux_streams:
  assumes "dm_wf s" and "dm_legal_run evs s = Some r"
  shows "\<exists>s'. r = Inr s' \<and> (\<forall>i. stream_of i s' = stream_of i s @ bytes_of i (packets_in evs))
    \<and> (\<forall>i e c. map_of (dmSocks s') i = Some e \<and> deConnection e = Some c
         \<longrightarrow> sent_to c s' = stream_of i s @ bytes_of i (packets_in evs))"
proof -
  obtain s' where s': "r = Inr s'" "dm_wf s'" "\<And>i. stream_of i s' = stream_of i s @ bytes_of i (packets_in evs)"
    using dm_legal_run_ok[OF assms] by blast
  have "sent_to c s' = stream_of i s'" if "map_of (dmSocks s') i = Some e" "deConnection e = Some c" for i e c
    using dm_wfD(3)[OF s'(2) that] that by (simp add: stream_of_def)
  with s' show ?thesis by auto
qed

definition demux_demo :: demux_server where
  "demux_demo = newDemux\<lparr>dmServer := Some 0, dmSocks := [(1, \<lparr>deConnection = None, dePending = newBuffer\<rparr>)]\<rparr>"

lemma demux_demo_wf: "dm_wf demux_demo"
  by (simp add: demux_demo_def newDemux_def dm_wf_def std_map_wf_def)

theorem demux_streams_witness:
  "\<exists>s'. dm_legal_run [DmSocksUp 1 9, DmPacket 1 ''ab'', DmPacket 1 ''c''] demux_demo = Some (Inr s')
    \<and> stream_of 1 s' = ''abc'' \<and> sent_to 9 s' = ''abc''"
proof -
  let ?e = "\<lparr>deConnection = Some 9, dePending = newBuffer\<rparr>"
  have "readableBytes newBuffer = 0" by (simp add: newBuffer_def readableBytes_def)
  then have run: "dm_legal_run [DmSocksUp 1 9, DmPacket 1 ''ab'', DmPacket 1 ''c''] demux_demo
      = Some (Inr (newDemux\<lparr>dmServer := Some 0, dmSocks := [(1, ?e)], dmToSocks := [(9, ''ab''), (9, ''c'')]\<rparr>))"
    by (simp add: demux_demo_def newDemux_def onSocksConnection_def dm_setEntry_def dm_packet_def dm_send_def Let_def)
  have "stream_of 1 demux_demo = []" by (simp add: demux_demo_def newDemux_def stream_of_def)
  with demux_streams[OF demux_demo_wf run] show ?thesis using run by (auto simp: newDemux_def sent_to_def)
qed

lemma onSocksConnection_down:
  assumes "dmServer s \<noteq> None" and "map_of (dmSocks s) cid = Some e"
  shows "\<exists>s'. onSocksConnection cid c False s = Inr s' \<and> dmSocks s' = dmSocks s"
proof -
  let ?m = "snprintf 256 (''DISCONNECT '' @ dec_int cid @ kCRLF)"
  obtain buf where buf: "bufAppend newBuffer ?m = Inr buf" "room buf" "readable buf = ?m"
    using bufAppend_ok[OF newBuffer_wf] room_new by (metis append_Nil newBuffer_readable room_def)
  have "length ?m \<le> 255" by (simp add: snprintf_def)
  then obtain b' where "sendServerPacket 0 buf s = Inr (dm_put 0 ?m s, b')" using dms.send_ok[OF assms(1) buf(2), of 0] buf(3) by auto
  then show ?thesis using assms buf(1) by (simp add: onSocksConnection_def dm_put_def)
qed

text \<open>The entry of a number whose connection came up is never erased: neither the command that takes the
  client down nor the end of the connection does it while the server connection lasts. The
  multiplexer reuses numbers, and the next command for this one fails the assertion of
  \<open>doCommand\<close>.\<close>

lemma number_reuse_aborts:
  "bindR (dm_doCommand ''CONN 1 FROM 1.2.3.4:5 IS UP'' (onServerConnection 0 True newDemux)) (\<lambda>s1.
   bindR (onSocksConnection 1 9 True s1) (\<lambda>s2.
   bindR (dm_doCommand ''CONN 1 FROM 1.2.3.4:5 IS DOWN'' s2) (\<lambda>s3.
   bindR (onSocksConnection 1 9 False s3) (\<lambda>s4.
   dm_doCommand ''CONN 1 FROM 1.2.3.4:6 IS UP'' s4))))
   = Inl (AssertFailed ''doCommand: socksConns_.find(connId) == socksConns_.end()'')"
proof -
  have up: "dm_doCommand (''CONN 1 FROM 1.2.3.4:'' @ x # '' IS UP'') s
      = ensure (map_of (dmSocks s) 1 = None) ''doCommand: socksConns_.find(connId) == socksConns_.end()''
         (Inr ((dm_setEntry 1 \<lparr>deConnection = None, dePending = newBuffer\<rparr> s)\<lparr>dmConnect := dmConnect s @ [1]\<rparr>))"
    if "x \<in> set ''56''" for x s
    using that by (auto simp: dm_doCommand_def Let_def c_atoi_def c_isspace_def is_digit_def of_base_def digit_val_def)
  have down: "dm_doCommand ''CONN 1 FROM 1.2.3.4:5 IS DOWN'' s
      = (case map_of (dmSocks s) 1 of
                None \<Rightarrow> Inl (AssertFailed ''doCommand: socksConns_.find(connId) != socksConns_.end()'')
              | Some e \<Rightarrow>
                  (case deConnection e of
                     Some c \<Rightarrow> Inr (dm_shutdown c s)
                   | None \<Rightarrow> Inr (s\<lparr>dmSocks := std_map_erase 1 (dmSocks s)\<rparr>)))" for s
    by (simp add: dm_doCommand_def Let_def c_atoi_def c_isspace_def is_digit_def of_base_def digit_val_def)
  let ?s1 = "newDemux\<lparr>dmServer := Some 0, dmSocks := [(1, \<lparr>deConnection = None, dePending = newBuffer\<rparr>)], dmConnect := [1]\<rparr>"
  let ?s2 = "?s1\<lparr>dmSocks := [(1, \<lparr>deConnection = Some 9, dePending = newBuffer\<rparr>)]\<rparr>"
  have s1: "dm_doCommand ''CONN 1 FROM 1.2.3.4:5 IS UP'' (onServerConnection 0 True newDemux) = Inr ?s1"
    using up[of "CHR ''5''"] by (simp add: onServerConnection_def newDemux_def dm_setEntry_def)
  have s2: "onSocksConnection 1 9 True ?s1 = Inr ?s2"
    by (simp add: onSocksConnection_def newDemux_def dm_setEntry_def Let_def newBuffer_def readableBytes_def)
  have s3: "dm_doCommand ''CONN 1 FROM 1.2.3.4:5 IS DOWN'' ?s2 = Inr (dm_shutdown 9 ?s2)" unfolding down by simp
  obtain s4 where s4: "onSocksConnection 1 9 False (dm_shutdown 9 ?s2) = Inr s4" "dmSocks s4 = dmSocks ?s2"
    using onSocksConnection_down[of "dm_shutdown 9 ?s2" 1 _ 9] by (auto simp: dm_shutdown_def)
  have "dm_doCommand ''CONN 1 FROM 1.2.3.4:6 IS UP'' s4 = Inl (AssertFailed ''doCommand: socksConns_.find(connId) == socksConns_.end()'')"
    using up[of "CHR ''6''" s4] s4(2) by simp
  then show ?thesis unfolding s1 bindR_Inr s2 s3 s4(1) .
qed


end
