(* ===== verification/PubSub.thy ===== *)
theory PubSub
  imports Framing StdText
begin

text \<open>
  The publish and subscribe hub (\<open>examples/hub\<close>): the line protocol of \<open>codec.cc\<close>, the server of
  \<open>hub.cc\<close> with its topics and subscriptions, and the messages of the client \<open>pubsub.cc\<close>.
  Connections are numbers, compared as the pointers are; \<open>send\<close> is logged and has no
  effect once the connection was shut down.
\<close>

section \<open>The protocol\<close>

datatype hub_result = kError | kSuccess | kContinue

text \<open>Returns the result, what was assigned to \<open>cmd\<close>, \<open>topic\<close> and \<open>content\<close> (empty at first), and the buffer.\<close>

definition parseMessage :: "netbuf \<Rightarrow> (hub_result \<times> string \<times> string \<times> string \<times> netbuf) res" where
  "parseMessage buf =
     (case findCRLF buf of
        Some crlf \<Rightarrow>
          let line = range_at buf (peek buf) crlf;
              space = peek buf + std_find (CHR '' '') line
          in if space \<noteq> crlf then
               let cmd = range_at buf (peek buf) space;
                   topic = range_at buf (space + 1) crlf
               in if cmd = ''pub'' then
                    let start = crlf + 2
                    in bindR (findCRLF_from buf start) (\<lambda>crlf2.
                       case crlf2 of
                         Some crlf3 \<Rightarrow>
                           let content = range_at buf start crlf3
                           in bindR (retrieveUntil buf (crlf3 + 2)) (\<lambda>buf1. Inr (kSuccess, cmd, topic, content, buf1))
                       | None \<Rightarrow> Inr (kContinue, cmd, topic, [], buf))
                  else bindR (retrieveUntil buf (crlf + 2)) (\<lambda>buf1. Inr (kSuccess, cmd, topic, [], buf1))
             else Inr (kError, [], [], [], buf)
      | None \<Rightarrow> Inr (kContinue, [], [], [], buf))"

lemma findCRLF_ge: "findCRLF b = Some n \<Longrightarrow> peek b \<le> n"
  by (auto simp: findCRLF_def Let_def split: if_splits)

lemma findCRLF_from_ge: "findCRLF_from b k = Inr (Some n) \<Longrightarrow> k \<le> n"
  by (auto simp: findCRLF_from_def Let_def ensure_def split: if_splits)

lemma retrieveUntil_shrinks:
  assumes "retrieveUntil b e = Inr b'" and "peek b < e"
  shows "readableBytes b' < readableBytes b"
proof -
  have r: "NetBuffer.retrieve b (e - peek b) = Inr b'"
    using assms(1) by (auto simp: retrieveUntil_def ensure_def split: if_splits)
  then have "e - peek b \<le> readableBytes b" by (auto simp: retrieve_def ensure_def split: if_splits)
  with readableBytes_retrieve[OF r] assms(2) show ?thesis by simp
qed

lemma parseMessage_shrinks:
  assumes "parseMessage buf = Inr (kSuccess, cmd, topic, content, buf1)"
  shows "readableBytes buf1 < readableBytes buf"
proof (cases "findCRLF buf")
  case (Some crlf)
  note ge = findCRLF_ge[OF this]
  from assms Some have "(\<exists>e. retrieveUntil buf e = Inr buf1 \<and> crlf + 2 \<le> e)"
    by (fastforce simp: parseMessage_def Let_def elim!: bindR_InrE dest: findCRLF_from_ge split: if_splits option.splits)
  then show ?thesis using ge by (auto intro: retrieveUntil_shrinks)
qed (use assms in \<open>simp add: parseMessage_def\<close>)

text \<open>The loop of both message callbacks: \<open>handle\<close> also says whether to go on, \<open>fail\<close> is what happens at an error.\<close>

function msg_loop :: "(string \<Rightarrow> string \<Rightarrow> string \<Rightarrow> 's \<Rightarrow> ('s \<times> bool) res) \<Rightarrow> ('s \<Rightarrow> 's) \<Rightarrow> netbuf \<Rightarrow> 's \<Rightarrow> ('s \<times> netbuf) res" where
  "msg_loop handle fail buf s =
     bindR (parseMessage buf) (\<lambda>(result, cmd, topic, content, buf1).
     if result = kSuccess then
       bindR (handle cmd topic content s) (\<lambda>(s1, go). if go then msg_loop handle fail buf1 s1 else Inr (s1, buf1))
     else if result = kError then Inr (fail s, buf1)
     else Inr (s, buf1))"
  by pat_completeness auto
termination
  by (relation "measure (\<lambda>(handle, fail, buf, s). readableBytes buf)") (auto dest!: parseMessage_shrinks)

declare msg_loop.simps [simp del]

subsection \<open>The protocol as a framing\<close>

definition hub_next :: "char list \<Rightarrow> (string \<times> string \<times> string, unit) frame" where
  "hub_next xs =
     (case find_crlf xs of
        None \<Rightarrow> NeedMore
      | Some n \<Rightarrow>
          let line = take n xs; k = std_find (CHR '' '') line
          in if k = n then Malformed ()
             else if take k line = ''pub'' then
               (case find_crlf (drop (n + 2) xs) of
                  None \<Rightarrow> NeedMore
                | Some m \<Rightarrow> Frame (take k line, drop (k + 1) line, take m (drop (n + 2) xs)) (n + 2 + m + 2))
             else Frame (take k line, drop (k + 1) line, []) (n + 2))"

lemma find_crlf_stable:
  assumes "find_crlf xs = Some n"
  shows "find_crlf (xs @ ys) = Some n"
proof -
  note F = find_crlf_Some[OF assms]
  have len: "length kCRLF = 2" by (simp add: kCRLF_def)
  have same: "take 2 (drop j (xs @ ys)) = take 2 (drop j xs)" if "j \<le> n" for j using F(1) that by simp
  have "std_search kCRLF (xs @ ys) = n"
    by (rule std_search_eqI) (use F same len in auto)
  then show ?thesis using F(1) by (simp add: find_crlf_def)
qed

interpretation hubf: framing hub_next
proof
  fix xs ys m n
  show "0 < n \<and> n \<le> length xs" if f: "hub_next xs = Frame m n"
  proof -
    obtain k where k: "find_crlf xs = Some k" using f by (auto simp: hub_next_def split: option.splits)
    have "k + 2 \<le> length xs" using find_crlf_Some(1)[OF k] .
    moreover have "j + 2 \<le> length xs - (k + 2)" if "find_crlf (drop (k + 2) xs) = Some j" for j
      using find_crlf_Some(1)[OF that] by simp
    ultimately show ?thesis using f k by (fastforce simp: hub_next_def Let_def split: option.splits if_splits)
  qed
  show "hub_next (xs @ ys) = Frame m n" if f: "hub_next xs = Frame m n"
  proof -
    obtain k where k: "find_crlf xs = Some k" using f by (auto simp: hub_next_def split: option.splits)
    have le: "k + 2 \<le> length xs" using find_crlf_Some(1)[OF k] .
    have "j + 2 \<le> length xs - (k + 2)" if "find_crlf (drop (k + 2) xs) = Some j" for j
      using find_crlf_Some(1)[OF that] by simp
    then show ?thesis using f k le find_crlf_stable[OF k, of ys] find_crlf_stable[of "drop (k + 2) xs" _ ys]
      by (fastforce simp: hub_next_def Let_def split: option.splits if_splits)
  qed
  show "hub_next (xs @ ys) = Malformed e" if f: "hub_next xs = Malformed e" for e
  proof -
    obtain k where k: "find_crlf xs = Some k" using f by (auto simp: hub_next_def split: option.splits)
    show ?thesis using f k find_crlf_Some(1)[OF k] find_crlf_stable[OF k, of ys]
      by (auto simp: hub_next_def Let_def split: option.splits if_splits)
  qed
qed

text \<open>\<open>parseMessage\<close> computes that framing.\<close>

lemma parseMessage_next:
  assumes wf: "buf_wf buf"
  shows "(case hub_next (readable buf) of
      NeedMore \<Rightarrow> \<exists>cmd topic. parseMessage buf = Inr (kContinue, cmd, topic, [], buf)
    | Malformed _ \<Rightarrow> parseMessage buf = Inr (kError, [], [], [], buf)
    | Frame (cmd, topic, content) n \<Rightarrow> \<exists>b. parseMessage buf = Inr (kSuccess, cmd, topic, content, b) \<and> buf_wf b \<and> readable b = drop n (readable buf))"
proof (cases "find_crlf (readable buf)")
  case None
  then show ?thesis using findCRLF_readable[OF wf] by (simp add: hub_next_def parseMessage_def)
next
  case (Some n)
  let ?R = "readable buf" and ?p = "peek buf"
  have R: "readableBytes buf = length ?R" using wf by simp
  have n: "n + 2 \<le> length ?R" using find_crlf_Some(1)[OF Some] .
  have crlf: "findCRLF buf = Some (?p + n)" using findCRLF_readable[OF wf] Some by simp
  define line where "line = take n ?R"
  define k where "k = std_find (CHR '' '') line"
  have k: "k \<le> n" using std_find_le[of "CHR '' ''" line] n by (simp add: k_def line_def)
  have l: "range_at buf ?p (?p + n) = line" using range_at_peek[OF wf, of n] n R by (simp add: line_def)
  have c: "range_at buf ?p (?p + k) = take k line" using range_at_peek[OF wf, of k] n k R by (simp add: line_def min_def)
  have t: "range_at buf (?p + k + 1) (?p + n) = drop (k + 1) line" if "k < n"
    using range_at_sub[OF wf, of "k + 1" n] n that R by (simp add: line_def)
  have from2: "findCRLF_from buf (?p + n + 2) = Inr (map_option (\<lambda>j. ?p + n + 2 + j) (find_crlf (drop (n + 2) ?R)))"
    using findCRLF_from_readable[OF wf n] by (simp add: add.assoc)
  show ?thesis
  proof (cases "k = n \<or> take k line \<noteq> ''pub''")
    case True
    obtain b where b: "retrieveUntil buf (?p + n + 2) = Inr b" "buf_wf b" "readable b = drop (n + 2) ?R"
      using retrieveUntil_ok[OF wf _ n, of "?p + n + 2"] by (auto simp: add.assoc)
    show ?thesis
    proof (cases "k = n")
      case True
      then show ?thesis using Some crlf l by (simp add: hub_next_def parseMessage_def Let_def k_def[symmetric] line_def[symmetric])
    next
      case False
      then have kn: "k < n" using k by simp
      then show ?thesis using True Some crlf l c t[OF kn] b
        by (simp add: hub_next_def parseMessage_def Let_def k_def[symmetric] line_def[symmetric])
    qed
  next
    case False
    then have kn: "k < n" and pub: "take k line = ''pub''" using k by auto
    show ?thesis
    proof (cases "find_crlf (drop (n + 2) ?R)")
      case None
      then show ?thesis using Some crlf l c t[OF kn] kn pub from2
        by (simp add: hub_next_def parseMessage_def Let_def k_def[symmetric] line_def[symmetric])
    next
      case m: (Some m)
      have mlen: "n + 2 + m + 2 \<le> length ?R" using find_crlf_Some(1)[OF m] n by simp
      have body: "range_at buf (?p + n + 2) (?p + n + 2 + m) = take m (drop (n + 2) ?R)"
        using range_at_sub[OF wf, of "n + 2" "n + 2 + m"] mlen R by (simp add: drop_take add.assoc)
      obtain b where b: "retrieveUntil buf (?p + n + 2 + m + 2) = Inr b" "buf_wf b" "readable b = drop (n + 2 + m + 2) ?R"
        using retrieveUntil_ok[OF wf _ mlen, of "?p + n + 2 + m + 2"] by (auto simp: add.assoc)
      show ?thesis using Some crlf l c t[OF kn] kn pub from2 m body b
        by (simp add: hub_next_def parseMessage_def Let_def k_def[symmetric] line_def[symmetric])
    qed
  qed
qed

text \<open>What is written is what is read: a command without a space or a line end, a topic and a content
  without line ends.\<close>

definition hub_message :: "string \<times> string \<times> string \<Rightarrow> string" where
  "hub_message m = (case m of (cmd, topic, content) \<Rightarrow>
     cmd @ '' '' @ topic @ kCRLF @ (if cmd = ''pub'' then content @ kCRLF else []))"

definition plain_message :: "string \<times> string \<times> string \<Rightarrow> bool" where
  "plain_message m = (case m of (cmd, topic, content) \<Rightarrow>
     CHR '' '' \<notin> set cmd \<and> CHR 0x0D \<notin> set (cmd @ topic @ content) \<and> (cmd \<noteq> ''pub'' \<longrightarrow> content = []))"

lemma hub_next_message:
  assumes "plain_message m"
  shows "hub_next (hub_message m @ rest) = Frame m (length (hub_message m))"
proof -
  obtain cmd topic content where m: "m = (cmd, topic, content)" by (metis prod_cases3)
  have no: "CHR '' '' \<notin> set cmd" "CHR 0x0D \<notin> set cmd" "CHR 0x0D \<notin> set topic" "CHR 0x0D \<notin> set content" "cmd \<noteq> ''pub'' \<longrightarrow> content = []"
    using assms m by (auto simp: plain_message_def)
  define line where "line = cmd @ CHR '' '' # topic"
  define tail where "tail = (if cmd = ''pub'' then content @ kCRLF @ rest else rest)"
  have xs: "hub_message m @ rest = line @ kCRLF @ tail" by (simp add: hub_message_def m tail_def line_def)
  have f: "find_crlf (line @ kCRLF @ tail) = Some (length line)" by (rule find_crlf_line) (use no in \<open>auto simp: line_def\<close>)
  have two: "length kCRLF = 2" by (simp add: kCRLF_def)
  have d: "drop (length line + 2) (line @ kCRLF @ tail) = tail" using two by simp
  have l: "std_find (CHR '' '') line = length cmd" "length cmd \<noteq> length line" "take (length cmd) line = cmd" "drop (length cmd + 1) line = topic"
    using no(1) by (simp_all add: line_def)
  have len: "length (hub_message m) = length line + 2 + (if cmd = ''pub'' then length content + 2 else 0)"
    using two by (simp add: hub_message_def m line_def)
  have c: "find_crlf tail = Some (length content)" "take (length content) tail = content" if "cmd = ''pub''"
    using find_crlf_line[OF no(4), of rest] that by (simp_all add: tail_def)
  show ?thesis
    unfolding xs hub_next_def f len
    using l c d no(5) m by (cases "cmd = ''pub''") (simp_all add: Let_def)
qed

section \<open>The client\<close>

record pubsub_client =
  pcConn :: "nat option"
  pcConnected :: bool
  pcSubscribed :: bool
  pcSent :: "string list"
  pcGot :: "(string \<times> string) list"
  pcShut :: bool

definition newPubSubClient :: pubsub_client where
  "newPubSubClient = \<lparr>pcConn = None, pcConnected = False, pcSubscribed = False, pcSent = [], pcGot = [], pcShut = False\<rparr>"

definition pc_send :: "string \<Rightarrow> pubsub_client \<Rightarrow> bool \<times> pubsub_client" where
  "pc_send message s =
     (if pcConn s \<noteq> None \<and> pcConnected s then (True, s\<lparr>pcSent := pcSent s @ [message]\<rparr>) else (False, s))"

definition pc_subscribe :: "string \<Rightarrow> pubsub_client \<Rightarrow> bool \<times> pubsub_client" where
  "pc_subscribe topic s = pc_send (''sub '' @ topic @ kCRLF) (s\<lparr>pcSubscribed := True\<rparr>)"

definition pc_unsubscribe :: "string \<Rightarrow> pubsub_client \<Rightarrow> pubsub_client" where
  "pc_unsubscribe topic s = snd (pc_send (''unsub '' @ topic @ kCRLF) s)"

definition pc_publish :: "string \<Rightarrow> string \<Rightarrow> pubsub_client \<Rightarrow> bool \<times> pubsub_client" where
  "pc_publish topic content s = pc_send (''pub '' @ topic @ kCRLF @ content @ kCRLF) s"

definition pc_onConnection :: "nat \<Rightarrow> bool \<Rightarrow> pubsub_client \<Rightarrow> pubsub_client" where
  "pc_onConnection c connected s =
     (if connected then s\<lparr>pcConn := Some c, pcConnected := True\<rparr> else s\<lparr>pcConn := None, pcConnected := False\<rparr>)"

definition pc_handle :: "string \<Rightarrow> string \<Rightarrow> string \<Rightarrow> pubsub_client \<Rightarrow> (pubsub_client \<times> bool) res" where
  "pc_handle cmd topic content s =
     Inr (if cmd = ''pub'' \<and> pcSubscribed s then s\<lparr>pcGot := pcGot s @ [(topic, content)]\<rparr> else s, True)"

definition pc_onMessage :: "netbuf \<Rightarrow> pubsub_client \<Rightarrow> (pubsub_client \<times> netbuf) res" where
  "pc_onMessage buf s = msg_loop pc_handle (\<lambda>s. s\<lparr>pcShut := True\<rparr>) buf s"

section \<open>The server\<close>

subsection \<open>State and operations\<close>

record topic_state =
  tpContent :: string
  tpLastPubTime :: int
  tpAudiences :: "nat list"

record hub_server =
  hbTopics :: "(string \<times> topic_state) list"
  hbContext :: "nat \<Rightarrow> string list option"
  hbSent :: "(nat \<times> string) list"
  hbShut :: "nat list"

definition newHub :: hub_server where
  "newHub = \<lparr>hbTopics = [], hbContext = Map.empty, hbSent = [], hbShut = []\<rparr>"

definition hb_send :: "string \<Rightarrow> nat \<Rightarrow> hub_server \<Rightarrow> hub_server" where
  "hb_send m c s = (if c \<in> set (hbShut s) then s else s\<lparr>hbSent := hbSent s @ [(c, m)]\<rparr>)"

definition makeMessage :: "string \<Rightarrow> topic_state \<Rightarrow> string" where
  "makeMessage topic t = ''pub '' @ topic @ kCRLF @ tpContent t @ kCRLF"

text \<open>\<open>getTopic\<close> inserts a new topic under a name that is not there yet.\<close>

definition getTopic :: "string \<Rightarrow> hub_server \<Rightarrow> topic_state \<times> hub_server" where
  "getTopic topic s =
     (case map_of (hbTopics s) topic of
        Some t \<Rightarrow> (t, s)
      | None \<Rightarrow> let t = \<lparr>tpContent = [], tpLastPubTime = 0, tpAudiences = []\<rparr>
               in (t, s\<lparr>hbTopics := std_map_put topic t (hbTopics s)\<rparr>))"

definition setTopic :: "string \<Rightarrow> topic_state \<Rightarrow> hub_server \<Rightarrow> hub_server" where
  "setTopic topic t s = s\<lparr>hbTopics := std_map_put topic t (hbTopics s)\<rparr>"

definition topic_add :: "nat \<Rightarrow> string \<Rightarrow> topic_state \<Rightarrow> hub_server \<Rightarrow> hub_server" where
  "topic_add c topic t s =
     (let t1 = t\<lparr>tpAudiences := insort_insert c (tpAudiences t)\<rparr>; s1 = setTopic topic t1 s
      in if 0 < tpLastPubTime t1 then hb_send (makeMessage topic t1) c s1 else s1)"

definition topic_remove :: "nat \<Rightarrow> string \<Rightarrow> topic_state \<Rightarrow> hub_server \<Rightarrow> hub_server" where
  "topic_remove c topic t s = setTopic topic (t\<lparr>tpAudiences := remove1 c (tpAudiences t)\<rparr>) s"

definition topic_publish :: "string \<Rightarrow> int \<Rightarrow> string \<Rightarrow> topic_state \<Rightarrow> hub_server \<Rightarrow> hub_server" where
  "topic_publish content time topic t s =
     (let t1 = t\<lparr>tpContent := content, tpLastPubTime := time\<rparr>
      in fold (hb_send (makeMessage topic t1)) (tpAudiences t1) (setTopic topic t1 s))"

definition doSubscribe :: "nat \<Rightarrow> string \<Rightarrow> hub_server \<Rightarrow> hub_server res" where
  "doSubscribe c topic s =
     (case hbContext s c of
        None \<Rightarrow> Inl (BadAccess ''doSubscribe: connSub'')
      | Some subs \<Rightarrow>
          let (t, s1) = getTopic topic (s\<lparr>hbContext := (hbContext s)(c \<mapsto> insort_insert topic subs)\<rparr>)
          in Inr (topic_add c topic t s1))"

definition doUnsubscribe :: "nat \<Rightarrow> string \<Rightarrow> hub_server \<Rightarrow> hub_server res" where
  "doUnsubscribe c topic s =
     (case hbContext s c of
        None \<Rightarrow> Inl (BadAccess ''doUnsubscribe: connSub'')
      | Some subs \<Rightarrow>
          let (t, s1) = getTopic topic (s\<lparr>hbContext := (hbContext s)(c \<mapsto> remove1 topic subs)\<rparr>)
          in Inr (topic_remove c topic t s1))"

definition doPublish :: "string \<Rightarrow> string \<Rightarrow> int \<Rightarrow> hub_server \<Rightarrow> hub_server" where
  "doPublish topic content time s = (let (t, s1) = getTopic topic s in topic_publish content time topic t s1)"

text \<open>When a connection goes down, the loop calls \<open>doUnsubscribe\<close> with a reference to an element of the set
  that this call erases, and then looks the topic up under that reference: with a
  subscription left, the first turn reads a freed string.\<close>

definition hb_onConnection :: "nat \<Rightarrow> bool \<Rightarrow> hub_server \<Rightarrow> hub_server res" where
  "hb_onConnection c connected s =
     (if connected then Inr (s\<lparr>hbContext := (hbContext s)(c \<mapsto> [])\<rparr>)
      else case hbContext s c of
             None \<Rightarrow> Inl (Thrown ''bad_any_cast'')
           | Some [] \<Rightarrow> Inr s
           | Some (topic # rest) \<Rightarrow> Inl (BadAccess ''onConnection: topic erased while in use''))"

definition hb_handle :: "nat \<Rightarrow> int \<Rightarrow> string \<Rightarrow> string \<Rightarrow> string \<Rightarrow> hub_server \<Rightarrow> (hub_server \<times> bool) res" where
  "hb_handle c time cmd topic content s =
     (if cmd = ''pub'' then Inr (doPublish topic content time s, True)
      else if cmd = ''sub'' then bindR (doSubscribe c topic s) (\<lambda>s1. Inr (s1, True))
      else if cmd = ''unsub'' then bindR (doUnsubscribe c topic s) (\<lambda>s1. Inr (s1, True))
      else Inr (s\<lparr>hbShut := hbShut s @ [c]\<rparr>, False))"

definition hb_onMessage :: "nat \<Rightarrow> netbuf \<Rightarrow> int \<Rightarrow> hub_server \<Rightarrow> (hub_server \<times> netbuf) res" where
  "hb_onMessage c buf receiveTime s = msg_loop (hb_handle c receiveTime) (\<lambda>s. s\<lparr>hbShut := hbShut s @ [c]\<rparr>) buf s"

definition timePublish :: "string \<Rightarrow> int \<Rightarrow> hub_server \<Rightarrow> hub_server" where
  "timePublish formatted now s = doPublish ''utc_time'' formatted now s"


subsection \<open>Subscriptions\<close>

definition audience :: "string \<Rightarrow> hub_server \<Rightarrow> nat list" where
  "audience t s = (case map_of (hbTopics s) t of None \<Rightarrow> [] | Some ts \<Rightarrow> tpAudiences ts)"

definition subscriptions :: "nat \<Rightarrow> hub_server \<Rightarrow> string list" where
  "subscriptions c s = (case hbContext s c of None \<Rightarrow> [] | Some ts \<Rightarrow> ts)"

definition hub_inv :: "hub_server \<Rightarrow> bool" where
  "hub_inv s \<longleftrightarrow> std_map_wf (hbTopics s) \<and> (\<forall>t. distinct (audience t s)) \<and> (\<forall>c. distinct (subscriptions c s))
   \<and> (\<forall>c t. c \<in> set (audience t s) \<longleftrightarrow> t \<in> set (subscriptions c s))"

lemma distinct_insort_insert': "distinct xs \<Longrightarrow> distinct (insort_insert x xs)"
  by (simp add: insort_insert_key_def distinct_insort)

lemma hb_send_frame [simp]:
  "hbTopics (hb_send m c s) = hbTopics s" "hbContext (hb_send m c s) = hbContext s" "hbShut (hb_send m c s) = hbShut s"
  by (simp_all add: hb_send_def)

lemma hb_sends:
  "fold (hb_send m) cs s = s\<lparr>hbSent := hbSent s @ map (\<lambda>c. (c, m)) (filter (\<lambda>c. c \<notin> set (hbShut s)) cs)\<rparr>"
  by (induction cs arbitrary: s) (simp_all add: hb_send_def)

lemma getTopic_ok:
  assumes "std_map_wf (hbTopics s)"
  obtains t s1 where "getTopic topic s = (t, s1)" "tpAudiences t = audience topic s" "std_map_wf (hbTopics s1)"
    "hbContext s1 = hbContext s" "hbShut s1 = hbShut s" "hbSent s1 = hbSent s" "\<And>u. audience u s1 = audience u s"
proof (cases "map_of (hbTopics s) topic")
  case None
  let ?t = "\<lparr>tpContent = [], tpLastPubTime = 0, tpAudiences = []\<rparr>"
  show thesis
    by (rule that[of ?t "s\<lparr>hbTopics := std_map_put topic ?t (hbTopics s)\<rparr>"])
      (use None assms std_map_put_wf in \<open>auto simp: getTopic_def audience_def Let_def\<close>)
next
  case (Some t)
  then show thesis using that[of t s] assms by (simp add: getTopic_def audience_def)
qed

lemma audience_setTopic: "std_map_wf (hbTopics s) \<Longrightarrow> audience u (setTopic topic t s) = (if u = topic then tpAudiences t else audience u s)"
  by (simp add: audience_def setTopic_def)

lemma audience_cong: "hbTopics s' = hbTopics s \<Longrightarrow> audience u s' = audience u s"
  by (simp add: audience_def)

lemma subscriptions_cong: "hbContext s' = hbContext s \<Longrightarrow> subscriptions c s' = subscriptions c s"
  by (simp add: subscriptions_def)

text \<open>A change of one topic's audience and one connection's subscriptions that agree.\<close>

lemma hub_inv_change:
  assumes inv: "hub_inv s" and wf: "std_map_wf (hbTopics s')"
    and aud: "\<And>u. audience u s' = (if u = topic then A else audience u s)" "distinct A"
    and sub: "\<And>d. subscriptions d s' = (if d = c then B else subscriptions d s)" "distinct B"
    and A: "\<And>d. d \<noteq> c \<Longrightarrow> d \<in> set A \<longleftrightarrow> d \<in> set (audience topic s)"
    and B: "\<And>u. u \<noteq> topic \<Longrightarrow> u \<in> set B \<longleftrightarrow> u \<in> set (subscriptions c s)"
    and AB: "c \<in> set A \<longleftrightarrow> topic \<in> set B"
  shows "hub_inv s'"
  unfolding hub_inv_def
proof (intro conjI allI)
  show "distinct (audience u s')" "distinct (subscriptions d s')" for u d using inv aud sub by (auto simp: hub_inv_def)
  fix d u
  have old: "\<And>d u. d \<in> set (audience u s) \<longleftrightarrow> u \<in> set (subscriptions d s)" using inv by (simp add: hub_inv_def)
  show "d \<in> set (audience u s') \<longleftrightarrow> u \<in> set (subscriptions d s')"
    using old A B AB aud(1) sub(1) by (cases "u = topic"; cases "d = c") auto
qed (rule wf)

lemma doSubscribe_ok:
  assumes inv: "hub_inv s" and c: "hbContext s c \<noteq> None"
  shows "\<exists>s'. doSubscribe c topic s = Inr s' \<and> hub_inv s' \<and> hbContext s' = (hbContext s)(c \<mapsto> insort_insert topic (subscriptions c s))"
proof -
  obtain subs where subs: "hbContext s c = Some subs" using c by auto
  let ?s0 = "s\<lparr>hbContext := (hbContext s)(c \<mapsto> insort_insert topic subs)\<rparr>"
  have wf: "std_map_wf (hbTopics ?s0)" using inv by (simp add: hub_inv_def)
  obtain t s1 where t: "getTopic topic ?s0 = (t, s1)" "tpAudiences t = audience topic ?s0" "std_map_wf (hbTopics s1)"
    "hbContext s1 = hbContext ?s0" "\<And>u. audience u s1 = audience u ?s0"
    using getTopic_ok[OF wf, of topic] by metis
  define s2 where "s2 = topic_add c topic t s1"
  have f: "hbTopics s2 = hbTopics (setTopic topic (t\<lparr>tpAudiences := insort_insert c (tpAudiences t)\<rparr>) s1)" "hbContext s2 = hbContext s1"
    by (simp_all add: s2_def topic_add_def Let_def setTopic_def)
  have s0: "audience u ?s0 = audience u s" for u by (simp add: audience_def)
  have sc: "subscriptions c s = subs" using subs by (simp add: subscriptions_def)
  have "hub_inv s2"
  proof (rule hub_inv_change[OF inv, where topic = topic and c = c
        and A = "insort_insert c (audience topic s)" and B = "insort_insert topic subs"])
    show "std_map_wf (hbTopics s2)" using t(3) f(1) by (simp add: setTopic_def std_map_put_wf)
    show "audience u s2 = (if u = topic then insort_insert c (audience topic s) else audience u s)" for u
      using audience_cong[OF f(1)] audience_setTopic[OF t(3)] t(2,5) s0 by simp
    show "subscriptions d s2 = (if d = c then insort_insert topic subs else subscriptions d s)" for d
      using f(2) t(4) by (simp add: subscriptions_def)
  qed (use inv sc in \<open>auto simp: hub_inv_def set_insort_insert distinct_insort_insert'\<close>)
  moreover have "doSubscribe c topic s = Inr s2" using subs t(1) by (simp add: doSubscribe_def s2_def)
  ultimately show ?thesis using f(2) t(4) sc by auto
qed

lemma doUnsubscribe_ok:
  assumes inv: "hub_inv s" and c: "hbContext s c \<noteq> None"
  shows "\<exists>s'. doUnsubscribe c topic s = Inr s' \<and> hub_inv s' \<and> hbContext s' c \<noteq> None \<and> (\<forall>d. d \<noteq> c \<longrightarrow> hbContext s' d = hbContext s d)"
proof -
  obtain subs where subs: "hbContext s c = Some subs" using c by auto
  let ?s0 = "s\<lparr>hbContext := (hbContext s)(c \<mapsto> remove1 topic subs)\<rparr>"
  have wf: "std_map_wf (hbTopics ?s0)" using inv by (simp add: hub_inv_def)
  obtain t s1 where t: "getTopic topic ?s0 = (t, s1)" "tpAudiences t = audience topic ?s0" "std_map_wf (hbTopics s1)"
    "hbContext s1 = hbContext ?s0" "\<And>u. audience u s1 = audience u ?s0"
    using getTopic_ok[OF wf, of topic] by metis
  define s2 where "s2 = topic_remove c topic t s1"
  have f: "hbTopics s2 = hbTopics (setTopic topic (t\<lparr>tpAudiences := remove1 c (tpAudiences t)\<rparr>) s1)" "hbContext s2 = hbContext s1"
    by (simp_all add: s2_def topic_remove_def setTopic_def)
  have s0: "audience u ?s0 = audience u s" for u by (simp add: audience_def)
  have sc: "subscriptions c s = subs" using subs by (simp add: subscriptions_def)
  have ds: "distinct subs" "distinct (audience topic s)" using inv sc by (auto simp: hub_inv_def)
  have "hub_inv s2"
  proof (rule hub_inv_change[OF inv, where topic = topic and c = c
        and A = "remove1 c (audience topic s)" and B = "remove1 topic subs"])
    show "std_map_wf (hbTopics s2)" using t(3) f(1) by (simp add: setTopic_def std_map_put_wf)
    show "audience u s2 = (if u = topic then remove1 c (audience topic s) else audience u s)" for u
      using audience_cong[OF f(1)] audience_setTopic[OF t(3)] t(2,5) s0 by simp
    show "subscriptions d s2 = (if d = c then remove1 topic subs else subscriptions d s)" for d
      using f(2) t(4) by (simp add: subscriptions_def)
  qed (use ds sc in auto)
  moreover have "doUnsubscribe c topic s = Inr s2" using subs t(1) by (simp add: doUnsubscribe_def s2_def)
  ultimately show ?thesis using f(2) t(4) by auto
qed

lemma doPublish_ok:
  assumes inv: "hub_inv s"
  shows "hub_inv (doPublish topic content time s) \<and> hbContext (doPublish topic content time s) = hbContext s
    \<and> hbShut (doPublish topic content time s) = hbShut s
    \<and> hbSent (doPublish topic content time s) = hbSent s
        @ map (\<lambda>c. (c, hub_message (''pub'', topic, content))) (filter (\<lambda>c. c \<notin> set (hbShut s)) (audience topic s))"
proof -
  have wf: "std_map_wf (hbTopics s)" using inv by (simp add: hub_inv_def)
  obtain t s1 where t: "getTopic topic s = (t, s1)" "tpAudiences t = audience topic s" "std_map_wf (hbTopics s1)"
    "hbContext s1 = hbContext s" "hbShut s1 = hbShut s" "hbSent s1 = hbSent s" "\<And>u. audience u s1 = audience u s"
    using getTopic_ok[OF wf, of topic] by metis
  let ?t = "t\<lparr>tpContent := content, tpLastPubTime := time\<rparr>"
  define s2 where "s2 = doPublish topic content time s"
  have s2: "s2 = (setTopic topic ?t s1)\<lparr>hbSent := hbSent s1 @ map (\<lambda>c. (c, makeMessage topic ?t)) (filter (\<lambda>c. c \<notin> set (hbShut s1)) (tpAudiences t))\<rparr>"
    using t(1) by (simp add: s2_def doPublish_def topic_publish_def hb_sends setTopic_def Let_def)
  have m: "makeMessage topic ?t = hub_message (''pub'', topic, content)" by (simp add: makeMessage_def hub_message_def)
  have a: "audience u s2 = audience u s" for u
    using audience_setTopic[OF t(3), of u topic ?t] t(2,7) by (simp add: s2 audience_def)
  have "hub_inv s2"
    unfolding hub_inv_def a
    using inv t(3,4) by (simp add: hub_inv_def s2 setTopic_def std_map_put_wf subscriptions_def)
  then show ?thesis using s2 t(2,4,5,6) m by (simp add: s2_def[symmetric] setTopic_def)
qed


subsection \<open>Events\<close>

datatype hb_event = HbUp nat | HbMessage nat netbuf int | HbDown nat | HbTick string int

fun hb_event_do :: "hb_event \<Rightarrow> hub_server \<Rightarrow> hub_server res" where
  "hb_event_do (HbUp c) s = hb_onConnection c True s"
| "hb_event_do (HbMessage c buf time) s = bindR (hb_onMessage c buf time s) (\<lambda>(s', buf'). Inr s')"
| "hb_event_do (HbDown c) s = hb_onConnection c False s"
| "hb_event_do (HbTick formatted now) s = Inr (timePublish formatted now s)"

text \<open>A connection must have unsubscribed from everything before it goes down.\<close>

fun hb_legal :: "hb_event \<Rightarrow> hub_server \<Rightarrow> bool" where
  "hb_legal (HbUp c) s \<longleftrightarrow> hbContext s c = None"
| "hb_legal (HbMessage c buf time) s \<longleftrightarrow> hbContext s c \<noteq> None \<and> buf_wf buf"
| "hb_legal (HbDown c) s \<longleftrightarrow> hbContext s c = Some []"
| "hb_legal (HbTick formatted now) s \<longleftrightarrow> True"

fun hb_legal_run :: "hb_event list \<Rightarrow> hub_server \<Rightarrow> hub_server res option" where
  "hb_legal_run [] s = Some (Inr s)"
| "hb_legal_run (ev # evs) s =
     (if hb_legal ev s
      then (case hb_event_do ev s of Inl e \<Rightarrow> Some (Inl e) | Inr s' \<Rightarrow> hb_legal_run evs s')
      else None)"

lemma msg_loop_keeps:
  assumes "\<And>cmd topic content s. P s \<Longrightarrow> \<exists>s' go. handle cmd topic content s = Inr (s', go) \<and> P s'"
    and "\<And>s. P s \<Longrightarrow> P (fail s)" and "buf_wf buf" and "P s"
  shows "\<exists>s' buf'. msg_loop handle fail buf s = Inr (s', buf') \<and> P s'"
  using assms(3,4)
proof (induction "readableBytes buf" arbitrary: buf s rule: less_induct)
  case less
  show ?case
  proof (cases "hub_next (readable buf)")
    case NeedMore
    then show ?thesis using parseMessage_next[OF less.prems(1)] less.prems(2) by (auto simp: msg_loop.simps[of handle fail buf])
  next
    case (Malformed e)
    then show ?thesis using parseMessage_next[OF less.prems(1)] assms(2)[OF less.prems(2)] by (auto simp: msg_loop.simps[of handle fail buf])
  next
    case (Frame m n)
    obtain cmd topic content where m: "m = (cmd, topic, content)" by (metis prod_cases3)
    obtain b where b: "parseMessage buf = Inr (kSuccess, cmd, topic, content, b)" "buf_wf b"
      using parseMessage_next[OF less.prems(1)] Frame m by auto
    obtain s1 go where s1: "handle cmd topic content s = Inr (s1, go)" "P s1" using assms(1)[OF less.prems(2)] by blast
    show ?thesis
      using less.hyps[OF parseMessage_shrinks[OF b(1)] b(2) s1(2)] b(1) s1 by (subst msg_loop.simps) auto
  qed
qed

lemma hub_inv_shut: "hub_inv (s\<lparr>hbShut := l\<rparr>) = hub_inv s"
  by (simp add: hub_inv_def audience_def subscriptions_def)

lemma hb_event_ok:
  assumes inv: "hub_inv s" and legal: "hb_legal ev s"
  shows "\<exists>s'. hb_event_do ev s = Inr s' \<and> hub_inv s'"
proof (cases ev)
  case (HbUp c)
  then have "subscriptions d (s\<lparr>hbContext := (hbContext s)(c \<mapsto> [])\<rparr>) = subscriptions d s" for d
    using legal by (simp add: subscriptions_def)
  then have "hub_inv (s\<lparr>hbContext := (hbContext s)(c \<mapsto> [])\<rparr>)" using inv by (simp add: hub_inv_def audience_def)
  then show ?thesis using HbUp by (simp add: hb_onConnection_def)
next
  case (HbMessage c buf time)
  let ?P = "\<lambda>s. hub_inv s \<and> hbContext s c \<noteq> None"
  have "\<exists>s' go. hb_handle c time cmd topic content s = Inr (s', go) \<and> ?P s'" if "?P s" for cmd topic content s
    using that doSubscribe_ok[of s c topic] doUnsubscribe_ok[of s c topic] doPublish_ok[of s topic content time] hub_inv_shut
    by (auto simp: hb_handle_def)
  moreover have "?P (s\<lparr>hbShut := hbShut s @ [c]\<rparr>)" if "?P s" for s using that hub_inv_shut by simp
  ultimately obtain s' buf' where "hb_onMessage c buf time s = Inr (s', buf')" "?P s'"
    using msg_loop_keeps[of ?P "hb_handle c time" "\<lambda>s. s\<lparr>hbShut := hbShut s @ [c]\<rparr>" buf s] inv legal HbMessage
    unfolding hb_onMessage_def by auto
  then show ?thesis using HbMessage by simp
next
  case (HbDown c)
  then show ?thesis using inv legal by (simp add: hb_onConnection_def)
next
  case (HbTick formatted now)
  then show ?thesis using doPublish_ok[OF inv] by (simp add: timePublish_def)
qed

lemma hb_legal_run_ok:
  assumes "hub_inv s" and "hb_legal_run evs s = Some r"
  shows "\<exists>s'. r = Inr s' \<and> hub_inv s'"
  using assms
proof (induction evs arbitrary: s)
  case (Cons ev evs)
  then have legal: "hb_legal ev s" by (auto split: if_splits)
  obtain s' where "hb_event_do ev s = Inr s'" "hub_inv s'" using hb_event_ok[OF Cons.prems(1) legal] by blast
  then show ?case using Cons.IH Cons.prems(2) legal by auto
qed auto

lemma newHub_inv: "hub_inv newHub"
  by (simp add: newHub_def hub_inv_def audience_def subscriptions_def std_map_wf_def)

subsection \<open>Properties\<close>

text \<open>Property C24. The hub's two records of who subscribes to what always agree, and publishing reaches
  exactly the subscribers: after any commands of any connections, a publication is
  sent once to every connection subscribed to the topic (and not shut down) and to nobody else.\<close>

theorem hub_delivers:
  assumes "hb_legal_run evs newHub = Some r"
  shows "\<exists>s. r = Inr s \<and> (\<forall>topic content time. let s' = doPublish topic content time s in
      \<exists>cs. hbSent s' = hbSent s @ map (\<lambda>c. (c, hub_message (''pub'', topic, content))) cs \<and> distinct cs
        \<and> set cs = {c. topic \<in> set (subscriptions c s) \<and> c \<notin> set (hbShut s)})"
proof -
  obtain s where s: "r = Inr s" "hub_inv s" using hb_legal_run_ok[OF newHub_inv assms] by blast
  have "set (filter (\<lambda>c. c \<notin> set (hbShut s)) (audience topic s)) = {c. topic \<in> set (subscriptions c s) \<and> c \<notin> set (hbShut s)}"
    "distinct (filter (\<lambda>c. c \<notin> set (hbShut s)) (audience topic s))" for topic
    using s(2) by (auto simp: hub_inv_def)
  then show ?thesis using s(1) doPublish_ok[OF s(2)] unfolding Let_def by blast
qed

lemma subscribe_by_message:
  assumes "plain_message (''sub'', topic, [])" and "hbContext s c \<noteq> None"
  obtains buf where "buf_wf buf" "\<exists>buf'. hb_onMessage c buf time s = bindR (doSubscribe c topic s) (\<lambda>s'. Inr (s', buf'))"
proof -
  let ?m = "(''sub'', topic, [])"
  obtain buf where buf: "buf_wf buf" "readable buf = hub_message ?m"
    using bufAppend_ok[OF newBuffer_wf, of "hub_message ?m"] by (metis append_Nil newBuffer_readable)
  obtain b where b: "parseMessage buf = Inr (kSuccess, ''sub'', topic, [], b)" "buf_wf b" "readable b = []"
    using parseMessage_next[OF buf(1)] hub_next_message[OF assms(1), of "[]"] buf(2) by auto
  obtain x y where e: "parseMessage b = Inr (kContinue, x, y, [], b)"
    using parseMessage_next[OF b(2)] b(3) by (auto simp: hub_next_def find_crlf_def)
  have "hb_onMessage c buf time s = bindR (doSubscribe c topic s) (\<lambda>s'. Inr (s', b))"
    unfolding hb_onMessage_def
    by (cases "doSubscribe c topic s"; subst msg_loop.simps) (simp_all add: b(1) hb_handle_def msg_loop.simps[of _ _ b] e)
  then show ?thesis using that buf(1) by blast
qed

theorem hub_delivers_witness:
  "\<exists>buf s. hb_legal_run [HbUp 1, HbUp 2, HbMessage 2 buf 5] newHub = Some (Inr s)
     \<and> hbSent (doPublish ''t'' ''x'' 9 s) = [(2, ''pub t'' @ kCRLF @ ''x'' @ kCRLF)]"
proof -
  let ?s = "newHub\<lparr>hbContext := [1 \<mapsto> [], 2 \<mapsto> []]\<rparr>"
  have p: "plain_message (''sub'', ''t'', [])" by (simp add: plain_message_def)
  obtain buf buf' where buf: "buf_wf buf" "hb_onMessage 2 buf 5 ?s = bindR (doSubscribe 2 ''t'' ?s) (\<lambda>s'. Inr (s', buf'))"
    by (rule subscribe_by_message[OF p, of ?s 2 5]) auto
  obtain s where s: "doSubscribe 2 ''t'' ?s = Inr s" and sub: "\<And>c. ''t'' \<in> set (subscriptions c s) \<longleftrightarrow> c = 2" and sent: "hbSent s = []" "hbShut s = []"
    by (auto simp: doSubscribe_def getTopic_def topic_add_def setTopic_def subscriptions_def newHub_def Let_def
        insort_insert_key_def split: option.splits if_splits)
  have run: "hb_legal_run [HbUp 1, HbUp 2, HbMessage 2 buf 5] newHub = Some (Inr s)"
    using buf s by (simp add: hb_onConnection_def newHub_def)
  have to: "{c. ''t'' \<in> set (subscriptions c s)} = {2}" using sub by auto
  have "\<forall>topic content time. let s' = doPublish topic content time s in
      \<exists>cs. hbSent s' = hbSent s @ map (\<lambda>c. (c, hub_message (''pub'', topic, content))) cs \<and> distinct cs
        \<and> set cs = {c. topic \<in> set (subscriptions c s) \<and> c \<notin> set (hbShut s)}"
    using hub_delivers[OF run] by simp
  from this[rule_format, of "''t''" "''x''" 9, unfolded Let_def] obtain cs
    where cs: "hbSent (doPublish ''t'' ''x'' 9 s) = map (\<lambda>c. (c, hub_message (''pub'', ''t'', ''x''))) cs" "distinct cs" "set cs = {2}"
    by (auto simp: sent to)
  have "length cs = 1" using distinct_card[OF cs(2)] cs(3) by simp
  then have "cs = [2]" using cs(3) by (cases cs) simp_all
  then have "hbSent (doPublish ''t'' ''x'' 9 s) = [(2, ''pub t'' @ kCRLF @ ''x'' @ kCRLF)]" using cs(1) by (simp add: hub_message_def)
  with run show ?thesis by blast
qed

text \<open>A connection that goes down with a subscription.\<close>

lemma down_while_subscribed:
  assumes "hub_inv s" and "hbContext s c \<noteq> None"
  shows "\<exists>s'. doSubscribe c topic s = Inr s' \<and> (\<exists>what. hb_onConnection c False s' = Inl (BadAccess what))"
proof -
  obtain s' where s': "doSubscribe c topic s = Inr s'" "hbContext s' c = Some (insort_insert topic (subscriptions c s))"
    using doSubscribe_ok[OF assms, of topic] by auto
  have "insort_insert topic (subscriptions c s) \<noteq> []" using set_insort_insert[of topic "subscriptions c s"] by auto
  then show ?thesis using s' by (auto simp: hb_onConnection_def neq_Nil_conv)
qed

subsection \<open>From the hub to a subscriber\<close>

definition published :: "(string \<times> string \<times> string) list \<Rightarrow> (string \<times> string) list" where
  "published ms = map snd (filter (\<lambda>m. fst m = ''pub'') ms)"

lemma pc_onMessage_frames:
  assumes "buf_wf buf" and "frames hub_next (readable buf) = (ms, None, r)" and "pcSubscribed s"
  shows "\<exists>b'. pc_onMessage buf s = Inr (s\<lparr>pcGot := pcGot s @ published ms\<rparr>, b') \<and> buf_wf b' \<and> readable b' = r"
  using assms
proof (induction "readableBytes buf" arbitrary: buf ms s rule: less_induct)
  case less
  let ?R = "readable buf"
  note loop = msg_loop.simps[of pc_handle "\<lambda>s. s\<lparr>pcShut := True\<rparr>" buf s]
  show ?case
  proof (cases ?R rule: hubf.frames_cases)
    case idle
    then show ?thesis using parseMessage_next[OF less.prems(1)] less.prems
      by (auto simp: pc_onMessage_def loop published_def)
  next
    case (frame m n ms' e' r')
    obtain cmd topic content where m: "m = (cmd, topic, content)" by (metis prod_cases3)
    obtain b where b: "parseMessage buf = Inr (kSuccess, cmd, topic, content, b)" "buf_wf b" "readable b = drop n ?R"
      using parseMessage_next[OF less.prems(1)] frame(1) m by auto
    have eq: "ms = m # ms'" "e' = None" "r' = r" using frame(4) less.prems(2) by auto
    define s1 where "s1 = (if cmd = ''pub'' then s\<lparr>pcGot := pcGot s @ [(topic, content)]\<rparr> else s)"
    have h: "pc_handle cmd topic content s = Inr (s1, True)" using less.prems(3) by (simp add: pc_handle_def s1_def)
    have "frames hub_next (readable b) = (ms', None, r)" using frame(3) b(3) eq by simp
    moreover have "pcSubscribed s1" using less.prems(3) by (simp add: s1_def)
    ultimately obtain b' where
      b': "pc_onMessage b s1 = Inr (s1\<lparr>pcGot := pcGot s1 @ published ms'\<rparr>, b')" "buf_wf b'" "readable b' = r"
      using less.hyps[OF parseMessage_shrinks[OF b(1)] b(2)] by blast
    have "pc_onMessage buf s = pc_onMessage b s1" using b(1) h by (simp add: pc_onMessage_def loop)
    moreover have "s1\<lparr>pcGot := pcGot s1 @ published ms'\<rparr> = s\<lparr>pcGot := pcGot s @ published ms\<rparr>"
      using m eq(1) by (simp add: s1_def published_def)
    ultimately show ?thesis using b' by simp
  qed (use less.prems(2) in auto)
qed

definition pc_feed :: "char list \<Rightarrow> pubsub_client \<times> netbuf \<Rightarrow> (pubsub_client \<times> netbuf) res" where
  "pc_feed seg p = bindR (bufAppend (snd p) seg) (\<lambda>b. pc_onMessage b (fst p))"

lemma pc_feeds:
  assumes "buf_wf buf" and "feed hub_next segs (readable buf) = (ms, None, r)" and "pcSubscribed s"
  shows "\<exists>b'. foldR pc_feed segs (s, buf) = Inr (s\<lparr>pcGot := pcGot s @ published ms\<rparr>, b') \<and> readable b' = r"
  using assms
proof (induction segs arbitrary: buf ms s)
  case Nil
  then show ?case by (simp add: published_def)
next
  case (Cons seg segs)
  obtain b where b: "bufAppend buf seg = Inr b" "buf_wf b" "readable b = readable buf @ seg"
    using bufAppend_ok[OF Cons.prems(1)] by metis
  obtain ms1 e1 r1 where one: "frames hub_next (readable buf @ seg) = (ms1, e1, r1)" by (metis prod_cases3)
  with Cons.prems(2) have e1: "e1 = None" by (auto split: option.splits)
  obtain ms2 e2 r2 where two: "feed hub_next segs r1 = (ms2, e2, r2)" by (metis prod_cases3)
  have whole: "ms = ms1 @ ms2" "e2 = None" "r2 = r" using Cons.prems(2) one e1 two by auto
  obtain b1 where b1: "pc_onMessage b s = Inr (s\<lparr>pcGot := pcGot s @ published ms1\<rparr>, b1)" "buf_wf b1" "readable b1 = r1"
    using pc_onMessage_frames[OF b(2) _ Cons.prems(3)] one e1 b(3) by metis
  from Cons.IH[OF b1(2), of ms2 "s\<lparr>pcGot := pcGot s @ published ms1\<rparr>"] two whole b1(3) Cons.prems(3)
  show ?case using b(1) b1(1) by (simp add: pc_feed_def published_def)
qed

text \<open>What the hub sends is what its subscribers get: any sequence of messages without carriage
  returns in topic and content, cut into any pieces by the network, gives the subscriber's
  callback exactly the publications among them, in order, and leaves nothing in the buffer.\<close>

theorem subscriber_gets_publications:
  assumes "\<forall>m \<in> set ms. plain_message m" and "concat segs = concat (map hub_message ms)" and "pcSubscribed s"
  shows "\<exists>b. foldR pc_feed segs (s, newBuffer) = Inr (s\<lparr>pcGot := pcGot s @ published ms\<rparr>, b) \<and> readable b = []"
proof (rule pc_feeds[OF newBuffer_wf _ assms(3)])
  have e: "hub_next [] = NeedMore" by (simp add: hub_next_def find_crlf_def)
  have "frames hub_next (concat segs) = (ms, None, [])"
    unfolding assms(2) using hub_next_message assms(1) by (intro hubf.frames_encoded[OF _ e]) auto
  then show "feed hub_next segs (readable newBuffer) = (ms, None, [])"
    by (intro hubf.feed_segments) (simp_all add: frames.simps[of hub_next "[]"] e)
qed

theorem subscriber_gets_publications_witness:
  "\<exists>b. foldR pc_feed [''pub a b'' @ kCRLF @ ''x'', kCRLF @ ''sub z'' @ kCRLF] (newPubSubClient\<lparr>pcSubscribed := True\<rparr>, newBuffer)
     = Inr (newPubSubClient\<lparr>pcSubscribed := True, pcGot := [(''a b'', ''x'')]\<rparr>, b)"
  using subscriber_gets_publications[of "[(''pub'', ''a b'', ''x''), (''sub'', ''z'', [])]"
      "[''pub a b'' @ kCRLF @ ''x'', kCRLF @ ''sub z'' @ kCRLF]" "newPubSubClient\<lparr>pcSubscribed := True\<rparr>"]
  by (auto simp: plain_message_def hub_message_def published_def newPubSubClient_def)


end
