(* ===== verification/RpcChannel.thy ===== *)
theory RpcChannel
  imports StdText "HOL-Library.Multiset"
begin

text \<open>
  Remote calls over one connection (\<open>net/protorpc/RpcChannel.cc\<close>, \<open>RpcServer.cc\<close>): a call is numbered,
  sent as a request and recorded among the outstanding calls; a response is matched by its number
  and runs the call's closure; a request is handed to a registered service, which answers through
  \<open>doneCallback\<close>. Messages travel whole and in order (theory \<open>ProtoCodec\<close>), so a direction of the
  connection is the list \<open>rcOutgoing\<close> of the messages on their way. Protocol buffers are the arguments
  \<open>ser\<close> and \<open>par\<close> (\<open>SerializeAsString\<close>, \<open>ParseFromString\<close>), a service is the function of its method
  and request that it computes.
\<close>

subsection \<open>Messages and channels\<close>

datatype message_type = REQUEST | RESPONSE | ERROR

record rpc_message =
  rmType :: message_type
  rmId :: "64 word"
  rmService :: string
  rmMethod :: string
  rmRequest :: string
  rmResponse :: "string option"

text \<open>\<open>CallMethod\<close> may run in any thread, and is interrupted between its three effects.\<close>

datatype call_phase = Begun | Sent | Recorded

record 'm rpc_call =
  caService :: string
  caMethod :: string
  caRequest :: 'm
  caHasDone :: bool
  caId :: "64 word"
  caPhase :: call_phase

text \<open>A call is known by its position; \<open>rcOutstandings\<close> holds its response object and closure under its
  number. \<open>rcDone\<close> lists the closures that were run, with the response, \<open>rcDeleted\<close> the response
  objects that were deleted, \<open>rcServing\<close> the requests that services are working on; \<open>rcReceived\<close> logs the numbers
  of all messages, \<open>rcDropped\<close> those of the responses no outstanding call was found for and \<open>rcIgnored\<close> those of
  the requests for which there is no service or method. \<open>rcServices\<close> is the
  pointer to the registered services with their methods; the constructors leave it uninitialized.\<close>

record 'm rpc_channel =
  rcId :: "64 word"
  rcCalls :: "'m rpc_call list"
  rcOutstandings :: "(64 word \<times> nat) list"
  rcServices :: "(string \<times> string list) list option"
  rcOutgoing :: "rpc_message list"
  rcDone :: "(nat \<times> 'm) list"
  rcDeleted :: "nat list"
  rcServing :: "(64 word \<times> string \<times> string \<times> 'm) list"
  rcReceived :: "64 word list"
  rcDropped :: "64 word list"
  rcIgnored :: "64 word list"

definition newRpcChannel :: "'m rpc_channel" where
  "newRpcChannel = \<lparr>rcId = 0, rcCalls = [], rcOutstandings = [], rcServices = None, rcOutgoing = [], rcDone = [],
     rcDeleted = [], rcServing = [], rcReceived = [], rcDropped = [], rcIgnored = []\<rparr>"

definition setServices :: "(string \<times> string list) list \<Rightarrow> 'm rpc_channel \<Rightarrow> 'm rpc_channel" where
  "setServices services ch = ch\<lparr>rcServices := Some services\<rparr>"

subsection \<open>Calling\<close>

definition call_begin :: "string \<Rightarrow> string \<Rightarrow> 'm \<Rightarrow> bool \<Rightarrow> 'm rpc_channel \<Rightarrow> 'm rpc_channel" where
  "call_begin service method request done ch =
     (let n = rcId ch + 1
      in ch\<lparr>rcId := n, rcCalls := rcCalls ch @ [\<lparr>caService = service, caMethod = method, caRequest = request,
            caHasDone = done, caId = n, caPhase = Begun\<rparr>]\<rparr>)"

definition set_phase :: "nat \<Rightarrow> call_phase \<Rightarrow> 'm rpc_channel \<Rightarrow> 'm rpc_channel" where
  "set_phase k p ch = ch\<lparr>rcCalls := (rcCalls ch)[k := (rcCalls ch ! k)\<lparr>caPhase := p\<rparr>]\<rparr>"

definition request_of :: "('m \<Rightarrow> string) \<Rightarrow> 'm rpc_call \<Rightarrow> rpc_message" where
  "request_of ser c = \<lparr>rmType = REQUEST, rmId = caId c, rmService = caService c, rmMethod = caMethod c,
     rmRequest = ser (caRequest c), rmResponse = None\<rparr>"

definition call_send :: "('m \<Rightarrow> string) \<Rightarrow> nat \<Rightarrow> 'm rpc_channel \<Rightarrow> 'm rpc_channel" where
  "call_send ser k ch = set_phase k Sent (ch\<lparr>rcOutgoing := rcOutgoing ch @ [request_of ser (rcCalls ch ! k)]\<rparr>)"

definition call_record :: "nat \<Rightarrow> 'm rpc_channel \<Rightarrow> 'm rpc_channel" where
  "call_record k ch = set_phase k Recorded (ch\<lparr>rcOutstandings := std_map_put (caId (rcCalls ch ! k)) k (rcOutstandings ch)\<rparr>)"

subsection \<open>Receiving\<close>

definition doneCallback :: "('m \<Rightarrow> string) \<Rightarrow> 'm \<Rightarrow> 64 word \<Rightarrow> 'm rpc_channel \<Rightarrow> 'm rpc_channel" where
  "doneCallback ser response n ch =
     ch\<lparr>rcOutgoing := rcOutgoing ch @ [\<lparr>rmType = RESPONSE, rmId = n, rmService = [], rmMethod = [], rmRequest = [],
          rmResponse = Some (ser response)\<rparr>]\<rparr>"

definition onRpcMessage :: "(string \<Rightarrow> 'm) \<Rightarrow> rpc_message \<Rightarrow> 'm rpc_channel \<Rightarrow> 'm rpc_channel res" where
  "onRpcMessage par message ch0 =
     (let ch = ch0\<lparr>rcReceived := rcReceived ch0 @ [rmId message]\<rparr>
      in case rmType message of
        RESPONSE \<Rightarrow>
          (case rmResponse message of
             None \<Rightarrow> Inl (AssertFailed ''onRpcMessage: message.has_response()'')
           | Some bytes \<Rightarrow>
               (case map_of (rcOutstandings ch) (rmId message) of
                  None \<Rightarrow> Inr (ch\<lparr>rcDropped := rcDropped ch @ [rmId message]\<rparr>)
                | Some k \<Rightarrow>
                    let ch1 = ch\<lparr>rcOutstandings := std_map_erase (rmId message) (rcOutstandings ch)\<rparr>;
                        ch2 = (if caHasDone (rcCalls ch1 ! k) then ch1\<lparr>rcDone := rcDone ch1 @ [(k, par bytes)]\<rparr> else ch1)
                    in Inr (ch2\<lparr>rcDeleted := rcDeleted ch2 @ [k]\<rparr>)))
      | REQUEST \<Rightarrow>
          (case rcServices ch of
             None \<Rightarrow> Inl (BadAccess ''onRpcMessage: services_'')
           | Some services \<Rightarrow>
               (case map_of services (rmService message) of
                  None \<Rightarrow> Inr (ch\<lparr>rcIgnored := rcIgnored ch @ [rmId message]\<rparr>)
                | Some methods \<Rightarrow>
                    if rmMethod message \<in> set methods
                    then Inr (ch\<lparr>rcServing := rcServing ch @ [(rmId message, rmService message, rmMethod message, par (rmRequest message))]\<rparr>)
                    else Inr (ch\<lparr>rcIgnored := rcIgnored ch @ [rmId message]\<rparr>)))
      | ERROR \<Rightarrow> Inr ch)"

subsection \<open>Two ends\<close>

record 'm rpc_system =
  syClient :: "'m rpc_channel"
  syServer :: "'m rpc_channel"

definition rpc_init :: "(string \<times> string list) list \<Rightarrow> 'm rpc_system \<Rightarrow> bool" where
  "rpc_init services y \<longleftrightarrow> y = \<lparr>syClient = newRpcChannel, syServer = setServices services newRpcChannel\<rparr>"

text \<open>The steps of the calling threads, of the two loops, and of the services, in any order. Any method of
  any service may be called, fewer than \<open>2 ^ 64 - 1\<close> times (the numbers do not wrap around).\<close>

inductive rpc_step ::
  "('m \<Rightarrow> string) \<Rightarrow> (string \<Rightarrow> 'm) \<Rightarrow> (string \<times> string list) list \<Rightarrow> (string \<Rightarrow> string \<Rightarrow> 'm \<Rightarrow> 'm) \<Rightarrow> 'm rpc_system \<Rightarrow> 'm rpc_system \<Rightarrow> bool"
  for ser par services serve where
  step_begin: "length (rcCalls (syClient y)) < 2 ^ 64 - 1 \<Longrightarrow>
    rpc_step ser par services serve y (y\<lparr>syClient := call_begin s m r dn (syClient y)\<rparr>)"
| step_send: "k < length (rcCalls (syClient y)) \<Longrightarrow> caPhase (rcCalls (syClient y) ! k) = Begun \<Longrightarrow>
    rpc_step ser par services serve y (y\<lparr>syClient := call_send ser k (syClient y)\<rparr>)"
| step_record: "k < length (rcCalls (syClient y)) \<Longrightarrow> caPhase (rcCalls (syClient y) ! k) = Sent \<Longrightarrow>
    rpc_step ser par services serve y (y\<lparr>syClient := call_record k (syClient y)\<rparr>)"
| step_request: "rcOutgoing (syClient y) = msg # rest \<Longrightarrow> onRpcMessage par msg (syServer y) = Inr srv \<Longrightarrow>
    rpc_step ser par services serve y (y\<lparr>syClient := (syClient y)\<lparr>rcOutgoing := rest\<rparr>, syServer := srv\<rparr>)"
| step_serve: "i < length (rcServing (syServer y)) \<Longrightarrow> rcServing (syServer y) ! i = (n, s, m, r) \<Longrightarrow>
    rpc_step ser par services serve y (y\<lparr>syServer := doneCallback ser (serve s m r) n
      ((syServer y)\<lparr>rcServing := take i (rcServing (syServer y)) @ drop (Suc i) (rcServing (syServer y))\<rparr>)\<rparr>)"
| step_response: "rcOutgoing (syServer y) = msg # rest \<Longrightarrow> onRpcMessage par msg (syClient y) = Inr cl \<Longrightarrow>
    rpc_step ser par services serve y (y\<lparr>syServer := (syServer y)\<lparr>rcOutgoing := rest\<rparr>, syClient := cl\<rparr>)"

subsection \<open>Invariant\<close>

text \<open>The numbers of the calls that were sent, and where each of them is: on its way as a request, being
  served, on its way as a response, received, or ignored by the server.\<close>

definition sent_ids :: "'m rpc_channel \<Rightarrow> 64 word multiset" where
  "sent_ids c = image_mset caId (filter_mset (\<lambda>x. caPhase x \<noteq> Begun) (mset (rcCalls c)))"

definition travelling :: "'m rpc_system \<Rightarrow> 64 word multiset" where
  "travelling y = mset (map rmId (rcOutgoing (syClient y))) + mset (map fst (rcServing (syServer y)))
     + mset (map rmId (rcOutgoing (syServer y))) + mset (rcReceived (syClient y)) + mset (rcIgnored (syServer y))"

definition answer :: "('m \<Rightarrow> string) \<Rightarrow> (string \<Rightarrow> 'm) \<Rightarrow> (string \<Rightarrow> string \<Rightarrow> 'm \<Rightarrow> 'm) \<Rightarrow> 'm rpc_call \<Rightarrow> 'm" where
  "answer ser par serve c = serve (caService c) (caMethod c) (par (ser (caRequest c)))"

definition calls_ok :: "'m rpc_channel \<Rightarrow> bool" where
  "calls_ok c \<longleftrightarrow> rcId c = word_of_nat (length (rcCalls c)) \<and> length (rcCalls c) < 2 ^ 64
   \<and> (\<forall>k < length (rcCalls c). caId (rcCalls c ! k) = word_of_nat (k + 1))"

text \<open>Whether there is a method for a call, and the numbers of the calls with and without one.\<close>

definition registered :: "(string \<times> string list) list \<Rightarrow> 'm rpc_call \<Rightarrow> bool" where
  "registered services c \<longleftrightarrow> (case map_of services (caService c) of None \<Rightarrow> False | Some methods \<Rightarrow> caMethod c \<in> set methods)"

definition call_ids :: "(string \<times> string list) list \<Rightarrow> 'm rpc_channel \<Rightarrow> bool \<Rightarrow> 64 word set" where
  "call_ids services c b = {caId (rcCalls c ! k) | k. k < length (rcCalls c) \<and> registered services (rcCalls c ! k) = b}"

definition routed_ok :: "(string \<times> string list) list \<Rightarrow> 'm rpc_system \<Rightarrow> bool" where
  "routed_ok services y \<longleftrightarrow> set (rcIgnored (syServer y)) \<subseteq> call_ids services (syClient y) False
   \<and> fst ` set (rcServing (syServer y)) \<union> rmId ` set (rcOutgoing (syServer y)) \<union> set (rcReceived (syClient y))
       \<subseteq> call_ids services (syClient y) True"

definition contents_ok :: "('m \<Rightarrow> string) \<Rightarrow> (string \<Rightarrow> 'm) \<Rightarrow> (string \<Rightarrow> string \<Rightarrow> 'm \<Rightarrow> 'm) \<Rightarrow> 'm rpc_system \<Rightarrow> bool" where
  "contents_ok ser par serve y \<longleftrightarrow>
     (\<forall>msg \<in> set (rcOutgoing (syClient y)). \<exists>k < length (rcCalls (syClient y)). msg = request_of ser (rcCalls (syClient y) ! k))
   \<and> (\<forall>e \<in> set (rcServing (syServer y)). \<exists>k < length (rcCalls (syClient y)). let c = rcCalls (syClient y) ! k
        in e = (caId c, caService c, caMethod c, par (ser (caRequest c))))
   \<and> (\<forall>msg \<in> set (rcOutgoing (syServer y)). \<exists>k < length (rcCalls (syClient y)). let c = rcCalls (syClient y) ! k
        in rmType msg = RESPONSE \<and> rmId msg = caId c \<and> rmResponse msg = Some (ser (answer ser par serve c)))"

definition results_ok :: "('m \<Rightarrow> string) \<Rightarrow> (string \<Rightarrow> 'm) \<Rightarrow> (string \<Rightarrow> string \<Rightarrow> 'm \<Rightarrow> 'm) \<Rightarrow> 'm rpc_channel \<Rightarrow> bool" where
  "results_ok ser par serve c \<longleftrightarrow> std_map_wf (rcOutstandings c)
   \<and> (\<forall>n k. map_of (rcOutstandings c) n = Some k \<longrightarrow> k < length (rcCalls c) \<and> caPhase (rcCalls c ! k) = Recorded
        \<and> caId (rcCalls c ! k) = n \<and> k \<notin> set (rcDeleted c))
   \<and> (\<forall>k < length (rcCalls c). caPhase (rcCalls c ! k) = Recorded \<longrightarrow>
        k \<in> set (rcDeleted c) \<or> map_of (rcOutstandings c) (caId (rcCalls c ! k)) = Some k)
   \<and> distinct (rcDeleted c) \<and> map fst (rcDone c) = filter (\<lambda>k. caHasDone (rcCalls c ! k)) (rcDeleted c)
   \<and> (\<forall>k \<in> set (rcDeleted c). k < length (rcCalls c) \<and> caPhase (rcCalls c ! k) = Recorded)
   \<and> (\<forall>x \<in> set (rcDone c). snd x = par (ser (answer ser par serve (rcCalls c ! fst x))))"

definition answered_ok :: "'m rpc_channel \<Rightarrow> bool" where
  "answered_ok c \<longleftrightarrow> (\<forall>n \<in> set (rcReceived c). n \<in> set (rcDropped c) \<or> n \<in> (\<lambda>k. caId (rcCalls c ! k)) ` set (rcDeleted c))
   \<and> (\<lambda>k. caId (rcCalls c ! k)) ` set (rcDeleted c) \<subseteq> set (rcReceived c)"

definition rpc_inv :: "('m \<Rightarrow> string) \<Rightarrow> (string \<Rightarrow> 'm) \<Rightarrow> (string \<times> string list) list \<Rightarrow> (string \<Rightarrow> string \<Rightarrow> 'm \<Rightarrow> 'm) \<Rightarrow> 'm rpc_system \<Rightarrow> bool" where
  "rpc_inv ser par services serve y \<longleftrightarrow> rcServices (syServer y) = Some services
   \<and> calls_ok (syClient y) \<and> travelling y = sent_ids (syClient y)
   \<and> contents_ok ser par serve y \<and> results_ok ser par serve (syClient y) \<and> answered_ok (syClient y) \<and> routed_ok services y"

lemma id_inj:
  assumes "calls_ok c" "j < length (rcCalls c)" "k < length (rcCalls c)" "caId (rcCalls c ! j) = caId (rcCalls c ! k)"
  shows "j = k"
proof -
  have "(word_of_nat (j + 1) :: 64 word) = word_of_nat (k + 1)" "j + 1 < 2 ^ 64" "k + 1 < 2 ^ 64"
    using assms by (auto simp: calls_ok_def)
  then have "unat (word_of_nat (j + 1) :: 64 word) = unat (word_of_nat (k + 1) :: 64 word)" by simp
  then show ?thesis using \<open>j + 1 < 2 ^ 64\<close> \<open>k + 1 < 2 ^ 64\<close> by (simp only: unat_of_nat take_bit_nat_eq_self_iff) (simp add: take_bit_nat_eq_self)
qed

lemma request_of_phase [simp]: "request_of ser (c\<lparr>caPhase := p\<rparr>) = request_of ser c"
  by (simp add: request_of_def)

lemma rpc_init_inv: "rpc_init services y \<Longrightarrow> rpc_inv ser par services serve y"
  by (simp add: rpc_init_def rpc_inv_def newRpcChannel_def setServices_def calls_ok_def travelling_def sent_ids_def contents_ok_def
      results_ok_def answered_ok_def std_map_wf_def routed_ok_def)

text \<open>Calls only grow and change their phase.\<close>

definition calls_ext :: "'m rpc_channel \<Rightarrow> 'm rpc_channel \<Rightarrow> bool" where
  "calls_ext c c' \<longleftrightarrow> length (rcCalls c) \<le> length (rcCalls c')
   \<and> (\<forall>k < length (rcCalls c). \<exists>p. rcCalls c' ! k = (rcCalls c ! k)\<lparr>caPhase := p\<rparr>)"

lemma calls_extD:
  assumes "calls_ext c c'" and "k < length (rcCalls c)"
  shows "k < length (rcCalls c')" "caId (rcCalls c' ! k) = caId (rcCalls c ! k)" "caService (rcCalls c' ! k) = caService (rcCalls c ! k)"
    "caMethod (rcCalls c' ! k) = caMethod (rcCalls c ! k)" "caRequest (rcCalls c' ! k) = caRequest (rcCalls c ! k)"
    "caHasDone (rcCalls c' ! k) = caHasDone (rcCalls c ! k)" "request_of ser (rcCalls c' ! k) = request_of ser (rcCalls c ! k)"
    "answer ser par serve (rcCalls c' ! k) = answer ser par serve (rcCalls c ! k)"
proof -
  obtain p where "rcCalls c' ! k = (rcCalls c ! k)\<lparr>caPhase := p\<rparr>" using assms by (auto simp: calls_ext_def)
  then show "k < length (rcCalls c')" "caId (rcCalls c' ! k) = caId (rcCalls c ! k)" "caService (rcCalls c' ! k) = caService (rcCalls c ! k)"
    "caMethod (rcCalls c' ! k) = caMethod (rcCalls c ! k)" "caRequest (rcCalls c' ! k) = caRequest (rcCalls c ! k)"
    "caHasDone (rcCalls c' ! k) = caHasDone (rcCalls c ! k)" "request_of ser (rcCalls c' ! k) = request_of ser (rcCalls c ! k)"
    "answer ser par serve (rcCalls c' ! k) = answer ser par serve (rcCalls c ! k)"
    using assms by (auto simp: calls_ext_def answer_def)
qed

lemma contents_mono:
  assumes ok: "contents_ok ser par serve y" and ext: "calls_ext (syClient y) (syClient y')"
    and 1: "\<And>m. m \<in> set (rcOutgoing (syClient y')) \<Longrightarrow> m \<in> set (rcOutgoing (syClient y))
      \<or> (\<exists>k < length (rcCalls (syClient y)). m = request_of ser (rcCalls (syClient y) ! k))"
    and 2: "\<And>e. e \<in> set (rcServing (syServer y')) \<Longrightarrow> e \<in> set (rcServing (syServer y)) \<or> (\<exists>k < length (rcCalls (syClient y)).
        e = (caId (rcCalls (syClient y) ! k), caService (rcCalls (syClient y) ! k), caMethod (rcCalls (syClient y) ! k), par (ser (caRequest (rcCalls (syClient y) ! k)))))"
    and 3: "\<And>m. m \<in> set (rcOutgoing (syServer y')) \<Longrightarrow> m \<in> set (rcOutgoing (syServer y)) \<or> (\<exists>k < length (rcCalls (syClient y)).
        rmType m = RESPONSE \<and> rmId m = caId (rcCalls (syClient y) ! k) \<and> rmResponse m = Some (ser (answer ser par serve (rcCalls (syClient y) ! k))))"
  shows "contents_ok ser par serve y'"
  unfolding contents_ok_def Let_def
proof (intro conjI ballI)
  note E = calls_extD[OF ext]
  fix m assume "m \<in> set (rcOutgoing (syClient y'))"
  with 1 ok obtain k where "k < length (rcCalls (syClient y))" "m = request_of ser (rcCalls (syClient y) ! k)" unfolding contents_ok_def by blast
  then show "\<exists>k < length (rcCalls (syClient y')). m = request_of ser (rcCalls (syClient y') ! k)" using E(1,7) by metis
next
  note E = calls_extD[OF ext]
  fix e assume "e \<in> set (rcServing (syServer y'))"
  with 2 ok obtain k where k: "k < length (rcCalls (syClient y))"
    "e = (caId (rcCalls (syClient y) ! k), caService (rcCalls (syClient y) ! k), caMethod (rcCalls (syClient y) ! k), par (ser (caRequest (rcCalls (syClient y) ! k))))"
    unfolding contents_ok_def Let_def by blast
  then show "\<exists>k < length (rcCalls (syClient y')). e = (caId (rcCalls (syClient y') ! k), caService (rcCalls (syClient y') ! k), caMethod (rcCalls (syClient y') ! k), par (ser (caRequest (rcCalls (syClient y') ! k))))"
    using E(1-5)[OF k(1)] by auto
next
  note E = calls_extD[OF ext]
  fix m assume "m \<in> set (rcOutgoing (syServer y'))"
  with 3 ok obtain k where k: "k < length (rcCalls (syClient y))"
    "rmType m = RESPONSE \<and> rmId m = caId (rcCalls (syClient y) ! k) \<and> rmResponse m = Some (ser (answer ser par serve (rcCalls (syClient y) ! k)))"
    unfolding contents_ok_def Let_def by blast
  then show "\<exists>k < length (rcCalls (syClient y')). rmType m = RESPONSE \<and> rmId m = caId (rcCalls (syClient y') ! k)
      \<and> rmResponse m = Some (ser (answer ser par serve (rcCalls (syClient y') ! k)))"
    using E(1,2,8)[OF k(1)] by auto
qed

lemma results_okD:
  assumes "results_ok ser par serve c"
  shows "std_map_wf (rcOutstandings c)"
    "\<And>n k. map_of (rcOutstandings c) n = Some k \<Longrightarrow> k < length (rcCalls c) \<and> caPhase (rcCalls c ! k) = Recorded
        \<and> caId (rcCalls c ! k) = n \<and> k \<notin> set (rcDeleted c)"
    "\<And>k. k < length (rcCalls c) \<Longrightarrow> caPhase (rcCalls c ! k) = Recorded \<Longrightarrow> k \<in> set (rcDeleted c) \<or> map_of (rcOutstandings c) (caId (rcCalls c ! k)) = Some k"
    "distinct (rcDeleted c)" "map fst (rcDone c) = filter (\<lambda>k. caHasDone (rcCalls c ! k)) (rcDeleted c)"
    "\<And>k. k \<in> set (rcDeleted c) \<Longrightarrow> k < length (rcCalls c) \<and> caPhase (rcCalls c ! k) = Recorded"
    "\<And>x. x \<in> set (rcDone c) \<Longrightarrow> snd x = par (ser (answer ser par serve (rcCalls c ! fst x)))"
  using assms unfolding results_ok_def by blast+

lemma results_mono:
  assumes ok: "results_ok ser par serve c" and ext: "calls_ext c c'"
    and phase: "\<And>k. k < length (rcCalls c) \<Longrightarrow> caPhase (rcCalls c' ! k) = Recorded \<longleftrightarrow> caPhase (rcCalls c ! k) = Recorded"
    and new: "\<And>k. k < length (rcCalls c') \<Longrightarrow> \<not> k < length (rcCalls c) \<Longrightarrow> caPhase (rcCalls c' ! k) \<noteq> Recorded"
    and same: "rcOutstandings c' = rcOutstandings c" "rcDeleted c' = rcDeleted c" "rcDone c' = rcDone c"
  shows "results_ok ser par serve c'"
proof -
  note E = calls_extD[OF ext]
  note R = results_okD[OF ok]
  have dn: "fst x < length (rcCalls c)" if "x \<in> set (rcDone c)" for x
  proof -
    have "fst x \<in> set (map fst (rcDone c))" using that by simp
    then show ?thesis using R(5,6) by auto
  qed
  show ?thesis
    unfolding results_ok_def same
  proof (intro conjI allI impI ballI)
    fix n k assume "map_of (rcOutstandings c) n = Some k"
    from R(2)[OF this] show "k < length (rcCalls c')" "caPhase (rcCalls c' ! k) = Recorded" "caId (rcCalls c' ! k) = n" "k \<notin> set (rcDeleted c)"
      using E(1,2) phase by auto
  next
    fix k assume k: "k < length (rcCalls c')" "caPhase (rcCalls c' ! k) = Recorded"
    then have "k < length (rcCalls c)" using new by blast
    then show "k \<in> set (rcDeleted c) \<or> map_of (rcOutstandings c) (caId (rcCalls c' ! k)) = Some k" using R(3)[of k] k(2) phase E(2) by auto
  next
    show "map fst (rcDone c) = filter (\<lambda>k. caHasDone (rcCalls c' ! k)) (rcDeleted c)"
      unfolding R(5) by (rule filter_cong) (use R(6) E(6) in auto)
    fix k assume "k \<in> set (rcDeleted c)"
    then show "k < length (rcCalls c')" "caPhase (rcCalls c' ! k) = Recorded" using R(6) E(1) phase by auto
  next
    fix x assume "x \<in> set (rcDone c)"
    then show "snd x = par (ser (answer ser par serve (rcCalls c' ! fst x)))" using R(7) E(8)[OF dn] by auto
  qed (rule R(1), rule R(4))
qed

lemma answered_mono:
  assumes ok: "answered_ok c" and res: "results_ok ser par serve c" and ext: "calls_ext c c'"
    and same: "rcDeleted c' = rcDeleted c" "rcReceived c' = rcReceived c" "rcDropped c' = rcDropped c"
  shows "answered_ok c'"
proof -
  have "(\<lambda>k. caId (rcCalls c' ! k)) ` set (rcDeleted c) = (\<lambda>k. caId (rcCalls c ! k)) ` set (rcDeleted c)"
    by (rule image_cong[OF refl]) (use res calls_extD(2)[OF ext] in \<open>auto simp: results_ok_def\<close>)
  then show ?thesis using ok by (simp add: answered_ok_def same)
qed

subsection \<open>Steps\<close>

lemma same_phase: "\<exists>p. c = c\<lparr>caPhase := p\<rparr>"
  by (rule exI[of _ "caPhase c"]) simp

lemma ext_refl: "rcCalls c' = rcCalls c \<Longrightarrow> calls_ext c c'"
  by (simp add: calls_ext_def same_phase)

lemma set_phase_ext:
  assumes "k < length (rcCalls c)" and "rcCalls c' = (rcCalls c)[k := (rcCalls c ! k)\<lparr>caPhase := p\<rparr>]"
  shows "calls_ext c c'"
  unfolding calls_ext_def
proof (intro conjI allI impI)
  fix j assume "j < length (rcCalls c)"
  then show "\<exists>q. rcCalls c' ! j = (rcCalls c ! j)\<lparr>caPhase := q\<rparr>"
    using assms by (cases "j = k") (auto intro: exI[where x = "caPhase (rcCalls c ! j)"])
qed (use assms in simp)

lemma calls_ok_phase:
  assumes "calls_ok c" and "k < length (rcCalls c)" and "rcCalls c' = (rcCalls c)[k := (rcCalls c ! k)\<lparr>caPhase := p\<rparr>]" and "rcId c' = rcId c"
  shows "calls_ok c'"
  unfolding calls_ok_def
proof (intro conjI allI impI)
  fix j assume "j < length (rcCalls c')"
  then have j: "j < length (rcCalls c)" using assms(3) by simp
  note E = calls_extD[OF set_phase_ext[OF assms(2,3)] j]
  show "caId (rcCalls c' ! j) = word_of_nat (j + 1)"
    using assms(1) j E unfolding calls_ok_def by auto
qed (use assms in \<open>simp_all add: calls_ok_def\<close>)

lemma sent_ids_phase:
  assumes "k < length (rcCalls c)" and "rcCalls c' = (rcCalls c)[k := (rcCalls c ! k)\<lparr>caPhase := p\<rparr>]" and "p \<noteq> Begun"
  shows "sent_ids c' = sent_ids c + (if caPhase (rcCalls c ! k) = Begun then {#caId (rcCalls c ! k)#} else {#})"
proof -
  have m: "rcCalls c ! k \<in># mset (rcCalls c)" using assms(1) by simp
  then obtain M where M: "mset (rcCalls c) = add_mset (rcCalls c ! k) M" by (metis insert_DiffM)
  have "mset (rcCalls c') = add_mset ((rcCalls c ! k)\<lparr>caPhase := p\<rparr>) M"
    using assms(1,2) M by (simp add: mset_update)
  then show ?thesis using assms(3) by (simp add: sent_ids_def M)
qed

lemma call_ids_mono:
  assumes "calls_ext c c'"
  shows "call_ids services c b \<subseteq> call_ids services c' b"
proof
  fix n assume "n \<in> call_ids services c b"
  then obtain k where k: "k < length (rcCalls c)" "n = caId (rcCalls c ! k)" "registered services (rcCalls c ! k) = b"
    by (auto simp: call_ids_def)
  note E = calls_extD[OF assms k(1)]
  have "registered services (rcCalls c' ! k) = b" using k(3) unfolding registered_def E(3,4) .
  then show "n \<in> call_ids services c' b" unfolding call_ids_def using k(2) E(1,2) by (intro CollectI exI[of _ k]) simp
qed

lemma routed_mono:
  assumes "routed_ok services y" and "calls_ext (syClient y) (syClient y')"
    and "syServer y' = syServer y" and "rcReceived (syClient y') = rcReceived (syClient y)"
  shows "routed_ok services y'"
proof -
  note M = call_ids_mono[OF assms(2), of services]
  have 1: "set (rcIgnored (syServer y)) \<subseteq> call_ids services (syClient y) False"
    and 2: "fst ` set (rcServing (syServer y)) \<union> rmId ` set (rcOutgoing (syServer y)) \<union> set (rcReceived (syClient y))
       \<subseteq> call_ids services (syClient y) True"
    using assms(1) unfolding routed_ok_def by blast+
  show ?thesis unfolding routed_ok_def assms(3,4) using order_trans[OF 1 M] order_trans[OF 2 M] by blast
qed

lemma begin_inv:
  assumes inv: "rpc_inv ser par services serve y"
    and few: "length (rcCalls (syClient y)) < 2 ^ 64 - 1"
  shows "rpc_inv ser par services serve (y\<lparr>syClient := call_begin s m r dn (syClient y)\<rparr>)"
proof -
  let ?c = "syClient y" and ?c' = "call_begin s m r dn (syClient y)"
  have calls: "rcCalls ?c' = rcCalls ?c @ [\<lparr>caService = s, caMethod = m, caRequest = r, caHasDone = dn, caId = rcId ?c + 1, caPhase = Begun\<rparr>]"
    by (simp add: call_begin_def Let_def)
  have ext: "calls_ext ?c ?c'"
    unfolding calls_ext_def calls by (simp add: nth_append same_phase)
  have ok: "calls_ok ?c" using inv by (simp add: rpc_inv_def)
  have i: "rcId ?c + 1 = word_of_nat (length (rcCalls ?c) + 1)" using ok by (simp add: calls_ok_def)
  have "calls_ok ?c'"
    unfolding calls_ok_def
  proof (intro conjI allI impI)
    show "rcId ?c' = word_of_nat (length (rcCalls ?c'))" using i calls by (simp add: call_begin_def Let_def)
    show "length (rcCalls ?c') < 2 ^ 64" using few calls by simp
    fix k assume "k < length (rcCalls ?c')"
    then have "k < length (rcCalls ?c) \<or> k = length (rcCalls ?c)" using calls by auto
    then show "caId (rcCalls ?c' ! k) = word_of_nat (k + 1)"
      using ok i by (auto simp: calls_ok_def calls nth_append)
  qed
  moreover have "contents_ok ser par serve (y\<lparr>syClient := ?c'\<rparr>)"
    by (rule contents_mono[of ser par serve y]) (use inv ext in \<open>auto simp: rpc_inv_def call_begin_def Let_def\<close>)
  moreover have "results_ok ser par serve ?c'"
    by (rule results_mono[of ser par serve ?c]) (use inv ext in \<open>auto simp: rpc_inv_def calls nth_append call_begin_def Let_def\<close>)
  moreover have "answered_ok ?c'"
    by (rule answered_mono[of ?c ser par serve]) (use inv ext in \<open>auto simp: rpc_inv_def call_begin_def Let_def\<close>)
  moreover have "sent_ids ?c' = sent_ids ?c" by (simp add: sent_ids_def calls)
  moreover have "routed_ok services (y\<lparr>syClient := ?c'\<rparr>)"
    by (rule routed_mono[of services y]) (use inv ext in \<open>auto simp: rpc_inv_def call_begin_def Let_def\<close>)
  ultimately show ?thesis using inv by (simp add: rpc_inv_def travelling_def call_begin_def Let_def)
qed

lemma send_inv:
  assumes inv: "rpc_inv ser par services serve y" and k: "k < length (rcCalls (syClient y))" "caPhase (rcCalls (syClient y) ! k) = Begun"
  shows "rpc_inv ser par services serve (y\<lparr>syClient := call_send ser k (syClient y)\<rparr>)"
proof -
  let ?c = "syClient y" and ?c' = "call_send ser k (syClient y)"
  have calls: "rcCalls ?c' = (rcCalls ?c)[k := (rcCalls ?c ! k)\<lparr>caPhase := Sent\<rparr>]"
    and out: "rcOutgoing ?c' = rcOutgoing ?c @ [request_of ser (rcCalls ?c ! k)]"
    and same: "rcId ?c' = rcId ?c" "rcOutstandings ?c' = rcOutstandings ?c" "rcDeleted ?c' = rcDeleted ?c" "rcDone ?c' = rcDone ?c"
      "rcReceived ?c' = rcReceived ?c" "rcDropped ?c' = rcDropped ?c"
    by (simp_all add: call_send_def set_phase_def)
  note ext = set_phase_ext[OF k(1) calls]
  have "calls_ok ?c'" by (rule calls_ok_phase[OF _ k(1) calls same(1)]) (use inv in \<open>simp add: rpc_inv_def\<close>)
  moreover have "contents_ok ser par serve (y\<lparr>syClient := ?c'\<rparr>)"
    by (rule contents_mono[of ser par serve y]) (use inv ext k out in \<open>auto simp: rpc_inv_def\<close>)
  moreover have "results_ok ser par serve ?c'"
  proof (rule results_mono[of ser par serve ?c])
    show "(caPhase (rcCalls ?c' ! j) = Recorded) = (caPhase (rcCalls ?c ! j) = Recorded)" if "j < length (rcCalls ?c)" for j
      using that k calls by (cases "j = k") auto
  qed (use inv ext same calls in \<open>auto simp: rpc_inv_def\<close>)
  moreover have "answered_ok ?c'"
    by (rule answered_mono[of ?c ser par serve]) (use inv ext same in \<open>auto simp: rpc_inv_def\<close>)
  moreover have "travelling (y\<lparr>syClient := ?c'\<rparr>) = sent_ids ?c'"
    using inv sent_ids_phase[OF k(1) calls] k(2) out same(5) by (simp add: rpc_inv_def travelling_def request_of_def)
  moreover have "routed_ok services (y\<lparr>syClient := ?c'\<rparr>)"
    by (rule routed_mono[of services y]) (use inv ext same in \<open>auto simp: rpc_inv_def\<close>)
  ultimately show ?thesis using inv by (simp add: rpc_inv_def)
qed

lemma record_inv:
  assumes inv: "rpc_inv ser par services serve y" and k: "k < length (rcCalls (syClient y))" "caPhase (rcCalls (syClient y) ! k) = Sent"
  shows "rpc_inv ser par services serve (y\<lparr>syClient := call_record k (syClient y)\<rparr>)"
proof -
  let ?c = "syClient y" and ?c' = "call_record k (syClient y)"
  have calls: "rcCalls ?c' = (rcCalls ?c)[k := (rcCalls ?c ! k)\<lparr>caPhase := Recorded\<rparr>]"
    and o: "rcOutstandings ?c' = std_map_put (caId (rcCalls ?c ! k)) k (rcOutstandings ?c)"
    and same: "rcId ?c' = rcId ?c" "rcOutgoing ?c' = rcOutgoing ?c" "rcDeleted ?c' = rcDeleted ?c" "rcDone ?c' = rcDone ?c"
      "rcReceived ?c' = rcReceived ?c" "rcDropped ?c' = rcDropped ?c"
    by (simp_all add: call_record_def set_phase_def)
  note ext = set_phase_ext[OF k(1) calls]
  note E = calls_extD[OF ext]
  have ok: "calls_ok ?c" and res: "results_ok ser par serve ?c" using inv by (auto simp: rpc_inv_def)
  have wf: "std_map_wf (rcOutstandings ?c)" using res by (simp add: results_ok_def)
  have ph: "caPhase (rcCalls ?c' ! j) = (if j = k then Recorded else caPhase (rcCalls ?c ! j))" if "j < length (rcCalls ?c)" for j
    using that calls by auto
  have len: "length (rcCalls ?c') = length (rcCalls ?c)" using calls by simp
  have nd: "k \<notin> set (rcDeleted ?c)" using res k(2) by (auto simp: results_ok_def)
  have "results_ok ser par serve ?c'"
    unfolding results_ok_def same
  proof (intro conjI allI impI ballI)
    show "std_map_wf (rcOutstandings ?c')" using wf o by (simp add: std_map_put_wf)
    fix n j assume "map_of (rcOutstandings ?c') n = Some j"
    then have "n = caId (rcCalls ?c ! k) \<and> j = k \<or> map_of (rcOutstandings ?c) n = Some j" using wf o by (auto split: if_splits)
    then have "j < length (rcCalls ?c) \<and> caPhase (rcCalls ?c' ! j) = Recorded \<and> caId (rcCalls ?c ! j) = n \<and> j \<notin> set (rcDeleted ?c)"
      using res k(1) ph nd unfolding results_ok_def by auto
    then show "j < length (rcCalls ?c')" "caPhase (rcCalls ?c' ! j) = Recorded" "caId (rcCalls ?c' ! j) = n" "j \<notin> set (rcDeleted ?c)"
      using len E(2) by auto
  next
    fix j assume j: "j < length (rcCalls ?c')" "caPhase (rcCalls ?c' ! j) = Recorded"
    show "j \<in> set (rcDeleted ?c) \<or> map_of (rcOutstandings ?c') (caId (rcCalls ?c' ! j)) = Some j"
    proof (cases "j = k")
      case True
      then show ?thesis using wf o E(2)[OF k(1)] by simp
    next
      case False
      have jl: "j < length (rcCalls ?c)" using j(1) len by simp
      have "caId (rcCalls ?c ! j) \<noteq> caId (rcCalls ?c ! k)" using id_inj[OF ok jl k(1)] False by auto
      moreover have "j \<in> set (rcDeleted ?c) \<or> map_of (rcOutstandings ?c) (caId (rcCalls ?c ! j)) = Some j"
        using res jl j(2) ph[OF jl] False by (auto simp: results_ok_def)
      ultimately show ?thesis using wf o E(2)[OF jl] by auto
    qed
  next
    show "map fst (rcDone ?c) = filter (\<lambda>j. caHasDone (rcCalls ?c' ! j)) (rcDeleted ?c)"
    proof -
      have "filter (\<lambda>j. caHasDone (rcCalls ?c' ! j)) (rcDeleted ?c) = filter (\<lambda>j. caHasDone (rcCalls ?c ! j)) (rcDeleted ?c)"
        by (rule filter_cong) (use res E(6) in \<open>auto simp: results_ok_def\<close>)
      then show ?thesis using res by (simp add: results_ok_def)
    qed
  next
    fix j assume "j \<in> set (rcDeleted ?c)"
    then have "j < length (rcCalls ?c)" "caPhase (rcCalls ?c ! j) = Recorded" using res by (auto simp: results_ok_def)
    then show "j < length (rcCalls ?c')" "caPhase (rcCalls ?c' ! j) = Recorded" using len ph by auto
  next
    fix x assume x: "x \<in> set (rcDone ?c)"
    then have "fst x \<in> set (map fst (rcDone ?c))" by simp
    then have "fst x \<in> set (rcDeleted ?c)" using res by (simp add: results_ok_def del: set_map)
    then have "fst x < length (rcCalls ?c)" using res by (auto simp: results_ok_def)
    then show "snd x = par (ser (answer ser par serve (rcCalls ?c' ! fst x)))" using x res E(8) by (auto simp: results_ok_def)
  qed (use res in \<open>auto simp: results_ok_def\<close>)
  moreover have "calls_ok ?c'" by (rule calls_ok_phase[OF ok k(1) calls same(1)])
  moreover have "contents_ok ser par serve (y\<lparr>syClient := ?c'\<rparr>)"
    by (rule contents_mono[of ser par serve y]) (use inv ext same in \<open>auto simp: rpc_inv_def\<close>)
  moreover have "answered_ok ?c'"
    by (rule answered_mono[of ?c ser par serve]) (use inv ext same in \<open>auto simp: rpc_inv_def\<close>)
  moreover have "travelling (y\<lparr>syClient := ?c'\<rparr>) = sent_ids ?c'"
    using inv sent_ids_phase[OF k(1) calls] k(2) same by (simp add: rpc_inv_def travelling_def)
  moreover have "routed_ok services (y\<lparr>syClient := ?c'\<rparr>)"
    by (rule routed_mono[of services y]) (use inv ext same in \<open>auto simp: rpc_inv_def\<close>)
  ultimately show ?thesis using inv by (simp add: rpc_inv_def)
qed


text \<open>A request is handed to its service, or ignored when there is no such method.\<close>

lemma request_served:
  assumes inv: "rpc_inv ser par services serve y" and msg: "rcOutgoing (syClient y) = msg # rest"
  obtains k where "k < length (rcCalls (syClient y))" "rmId msg = caId (rcCalls (syClient y) ! k)"
    "onRpcMessage par msg (syServer y) = Inr (let srv = (syServer y)\<lparr>rcReceived := rcReceived (syServer y) @ [rmId msg]\<rparr> in
       if registered services (rcCalls (syClient y) ! k)
       then srv\<lparr>rcServing := rcServing (syServer y) @ [(caId (rcCalls (syClient y) ! k), caService (rcCalls (syClient y) ! k),
         caMethod (rcCalls (syClient y) ! k), par (ser (caRequest (rcCalls (syClient y) ! k))))]\<rparr>
       else srv\<lparr>rcIgnored := rcIgnored (syServer y) @ [rmId msg]\<rparr>)"
proof -
  obtain k where k: "k < length (rcCalls (syClient y))" "msg = request_of ser (rcCalls (syClient y) ! k)"
    using inv msg unfolding rpc_inv_def contents_ok_def by auto
  have "rcServices (syServer y) = Some services" using inv by (simp add: rpc_inv_def)
  with k show ?thesis
    by (intro that[of k]) (auto simp: onRpcMessage_def Let_def request_of_def registered_def split: option.split)
qed

lemma outgoing_ok [simp]:
  "results_ok ser par serve (c\<lparr>rcOutgoing := out\<rparr>) = results_ok ser par serve c"
  "answered_ok (c\<lparr>rcOutgoing := out\<rparr>) = answered_ok c"
  "calls_ok (c\<lparr>rcOutgoing := out\<rparr>) = calls_ok c"
  "sent_ids (c\<lparr>rcOutgoing := out\<rparr>) = sent_ids c"
  by (simp_all add: results_ok_def answered_ok_def calls_ok_def sent_ids_def)

lemma request_inv:
  assumes inv: "rpc_inv ser par services serve y" and msg: "rcOutgoing (syClient y) = msg # rest" and srv: "onRpcMessage par msg (syServer y) = Inr srv"
  shows "rpc_inv ser par services serve (y\<lparr>syClient := (syClient y)\<lparr>rcOutgoing := rest\<rparr>, syServer := srv\<rparr>)"
proof -
  let ?y = "y\<lparr>syClient := (syClient y)\<lparr>rcOutgoing := rest\<rparr>, syServer := srv\<rparr>"
  obtain k where k: "k < length (rcCalls (syClient y))" "rmId msg = caId (rcCalls (syClient y) ! k)"
    and s: "srv = (let srv = (syServer y)\<lparr>rcReceived := rcReceived (syServer y) @ [rmId msg]\<rparr> in
       if registered services (rcCalls (syClient y) ! k)
       then srv\<lparr>rcServing := rcServing (syServer y) @ [(caId (rcCalls (syClient y) ! k), caService (rcCalls (syClient y) ! k),
         caMethod (rcCalls (syClient y) ! k), par (ser (caRequest (rcCalls (syClient y) ! k))))]\<rparr>
       else srv\<lparr>rcIgnored := rcIgnored (syServer y) @ [rmId msg]\<rparr>)"
    by (rule request_served[OF inv msg]) (use srv in auto)
  have ext: "calls_ext (syClient y) (syClient ?y)" by (rule ext_refl) simp
  have "contents_ok ser par serve ?y"
    by (rule contents_mono[of ser par serve y]) (use inv ext msg k s in \<open>auto simp: rpc_inv_def Let_def split: if_splits\<close>)
  moreover have "travelling ?y = travelling y" using msg s k(2) by (simp add: travelling_def Let_def)
  moreover have "routed_ok services ?y"
  proof -
    have id: "rmId msg \<in> call_ids services (syClient y) (registered services (rcCalls (syClient y) ! k))"
      using k by (auto simp: call_ids_def)
    have same: "call_ids services (syClient ?y) b = call_ids services (syClient y) b" for b by (simp add: call_ids_def)
    have "routed_ok services y" using inv by (simp add: rpc_inv_def)
    then show ?thesis using id k(2) s unfolding routed_ok_def same
      by (cases "registered services (rcCalls (syClient y) ! k)") (simp_all add: Let_def)
  qed
  ultimately show ?thesis using inv s by (simp add: rpc_inv_def Let_def)
qed

lemma serve_inv:
  assumes inv: "rpc_inv ser par services serve y" and i: "i < length (rcServing (syServer y))" "rcServing (syServer y) ! i = (n, s, m, r)"
  shows "rpc_inv ser par services serve (y\<lparr>syServer := doneCallback ser (serve s m r) n
      ((syServer y)\<lparr>rcServing := take i (rcServing (syServer y)) @ drop (Suc i) (rcServing (syServer y))\<rparr>)\<rparr>)"
proof -
  let ?S = "rcServing (syServer y)"
  let ?y = "y\<lparr>syServer := doneCallback ser (serve s m r) n ((syServer y)\<lparr>rcServing := take i ?S @ drop (Suc i) ?S\<rparr>)\<rparr>"
  have split: "?S = take i ?S @ (n, s, m, r) # drop (Suc i) ?S" using id_take_nth_drop[OF i(1)] i(2) by simp
  then have "(n, s, m, r) \<in> set ?S" using i nth_mem by metis
  then obtain k where k: "k < length (rcCalls (syClient y))" "n = caId (rcCalls (syClient y) ! k)"
      "serve s m r = answer ser par serve (rcCalls (syClient y) ! k)"
  proof -
    have "\<forall>e \<in> set ?S. \<exists>k < length (rcCalls (syClient y)). let c = rcCalls (syClient y) ! k
        in e = (caId c, caService c, caMethod c, par (ser (caRequest c)))"
      using inv by (simp add: rpc_inv_def contents_ok_def)
    from bspec[OF this \<open>(n, s, m, r) \<in> set ?S\<close>] show ?thesis using that by (auto simp: answer_def Let_def)
  qed
  have ext: "calls_ext (syClient y) (syClient ?y)" by (rule ext_refl) simp
  have "contents_ok ser par serve ?y"
  proof (rule contents_mono[of ser par serve y])
    fix e assume "e \<in> set (rcServing (syServer ?y))"
    then show "e \<in> set (rcServing (syServer y)) \<or> (\<exists>k<length (rcCalls (syClient y)). e = (caId (rcCalls (syClient y) ! k), caService (rcCalls (syClient y) ! k),
       caMethod (rcCalls (syClient y) ! k), par (ser (caRequest (rcCalls (syClient y) ! k)))))"
      by (auto simp: doneCallback_def dest: in_set_takeD in_set_dropD)
  qed (use inv ext k in \<open>auto simp: rpc_inv_def doneCallback_def\<close>)
  moreover have "travelling ?y = travelling y"
    using arg_cong[OF split, of "\<lambda>l. mset (map fst l)"] by (simp add: travelling_def doneCallback_def)
  moreover have "routed_ok services ?y"
  proof -
    have "set (take i ?S @ drop (Suc i) ?S) \<subseteq> set ?S" by (auto dest: in_set_takeD in_set_dropD)
    then have "fst ` set (take i ?S @ drop (Suc i) ?S) \<subseteq> fst ` set ?S" by (rule image_mono)
    moreover have "n \<in> fst ` set ?S" using \<open>(n, s, m, r) \<in> set ?S\<close> by force
    moreover have "routed_ok services y" using inv by (simp add: rpc_inv_def)
    ultimately show ?thesis by (auto simp: routed_ok_def doneCallback_def)
  qed
  ultimately show ?thesis using inv by (simp add: rpc_inv_def doneCallback_def)
qed

text \<open>The response of a call finds it when it is outstanding, and is dropped otherwise.\<close>

lemma response_matched:
  assumes inv: "rpc_inv ser par services serve y" and msg: "rcOutgoing (syServer y) = msg # rest"
  obtains k where "k < length (rcCalls (syClient y))" "rmId msg = caId (rcCalls (syClient y) ! k)"
    "map_of (rcOutstandings (syClient y)) (rmId msg) \<in> {None, Some k}"
    "onRpcMessage par msg (syClient y) = Inr (let c = (syClient y)\<lparr>rcReceived := rcReceived (syClient y) @ [rmId msg]\<rparr> in
       if map_of (rcOutstandings (syClient y)) (rmId msg) = None then c\<lparr>rcDropped := rcDropped (syClient y) @ [rmId msg]\<rparr>
       else c\<lparr>rcOutstandings := std_map_erase (rmId msg) (rcOutstandings (syClient y)),
         rcDone := rcDone (syClient y) @ (if caHasDone (rcCalls (syClient y) ! k) then [(k, par (ser (answer ser par serve (rcCalls (syClient y) ! k))))] else []),
         rcDeleted := rcDeleted (syClient y) @ [k]\<rparr>)"
proof -
  obtain k where k: "k < length (rcCalls (syClient y))" "rmType msg = RESPONSE" "rmId msg = caId (rcCalls (syClient y) ! k)"
      "rmResponse msg = Some (ser (answer ser par serve (rcCalls (syClient y) ! k)))"
    using inv msg unfolding rpc_inv_def contents_ok_def Let_def by auto
  have j: "j = k" if "map_of (rcOutstandings (syClient y)) (rmId msg) = Some j" for j
  proof -
    have "j < length (rcCalls (syClient y))" "caId (rcCalls (syClient y) ! j) = rmId msg"
      using inv that unfolding rpc_inv_def results_ok_def by blast+
    then show ?thesis using id_inj[of "syClient y" j k] inv k(1,3) by (simp add: rpc_inv_def)
  qed
  have m: "map_of (rcOutstandings (syClient y)) (rmId msg) \<in> {None, Some k}"
    using j by (cases "map_of (rcOutstandings (syClient y)) (rmId msg)") auto
  show ?thesis
    by (rule that[of k, OF k(1) k(3) m]) (use k m in \<open>auto simp: onRpcMessage_def Let_def\<close>)
qed

text \<open>A number is in one place only.\<close>

lemma sent_ids_distinct:
  assumes "calls_ok c"
  shows "count (sent_ids c) n \<le> 1"
proof -
  have "distinct (map caId (rcCalls c))" using id_inj[OF assms] by (auto simp: distinct_conv_nth)
  then have "count (mset (map caId (rcCalls c))) n \<le> 1" by (simp add: count_mset_0_iff distinct_count_atmost_1 del: mset_map)
  moreover have "sent_ids c \<subseteq># mset (map caId (rcCalls c))"
    unfolding sent_ids_def mset_map by (rule image_mset_subseteq_mono) simp
  ultimately show ?thesis using mset_subset_eq_count le_trans by metis
qed

lemma response_fresh:
  assumes inv: "rpc_inv ser par services serve y" and msg: "rcOutgoing (syServer y) = msg # rest"
  shows "rmId msg \<notin> set (rcReceived (syClient y))"
proof -
  have "count (travelling y) (rmId msg) \<le> 1" using inv sent_ids_distinct[of "syClient y"] by (simp add: rpc_inv_def)
  then have "count (mset (rcReceived (syClient y))) (rmId msg) = 0" using msg by (simp add: travelling_def)
  then show ?thesis by (simp add: count_mset_0_iff)
qed

lemma fresh_not_deleted:
  assumes "answered_ok c" and "caId (rcCalls c ! k) \<notin> set (rcReceived c)"
  shows "k \<notin> set (rcDeleted c)"
  using assms unfolding answered_ok_def by blast

lemma matched_results:
  assumes res: "results_ok ser par serve c" and calls: "calls_ok c" and k: "k < length (rcCalls c)" "map_of (rcOutstandings c) (caId (rcCalls c ! k)) = Some k"
  shows "results_ok ser par serve (c\<lparr>rcReceived := r, rcOutstandings := std_map_erase (caId (rcCalls c ! k)) (rcOutstandings c),
     rcDone := rcDone c @ (if caHasDone (rcCalls c ! k) then [(k, par (ser (answer ser par serve (rcCalls c ! k))))] else []),
     rcDeleted := rcDeleted c @ [k]\<rparr>)" (is "results_ok _ _ _ ?c'")
proof -
  let ?m = "std_map_erase (caId (rcCalls c ! k)) (rcOutstandings c)"
  note R = results_okD[OF res]
  have wf: "std_map_wf ?m" using R(1) by (rule std_map_erase_wf)
  have out: "j < length (rcCalls c) \<and> caPhase (rcCalls c ! j) = Recorded \<and> caId (rcCalls c ! j) = n \<and> j \<notin> set (rcDeleted c @ [k])"
    if "map_of ?m n = Some j" for n j
    using that R(2)[of n j] by (auto split: if_splits)
  have rec: "j \<in> set (rcDeleted c @ [k]) \<or> map_of ?m (caId (rcCalls c ! j)) = Some j"
    if "j < length (rcCalls c)" "caPhase (rcCalls c ! j) = Recorded" for j
    using R(3)[OF that] id_inj[OF calls that(1) k(1)] by auto
  have nk: "caPhase (rcCalls c ! k) = Recorded" "k \<notin> set (rcDeleted c)" using R(2)[OF k(2)] by auto
  have 1: "map_of ?m n = Some j \<longrightarrow> j < length (rcCalls ?c') \<and> caPhase (rcCalls ?c' ! j) = Recorded \<and> caId (rcCalls ?c' ! j) = n \<and> j \<notin> set (rcDeleted ?c')" for n j
    using out[of n j] by simp
  have 2: "caPhase (rcCalls ?c' ! j) = Recorded \<longrightarrow> j \<in> set (rcDeleted ?c') \<or> map_of ?m (caId (rcCalls ?c' ! j)) = Some j" if "j < length (rcCalls ?c')" for j
    using rec[of j] that by simp
  have 3: "distinct (rcDeleted ?c')" "j \<in> set (rcDeleted ?c') \<Longrightarrow> j < length (rcCalls ?c') \<and> caPhase (rcCalls ?c' ! j) = Recorded" for j
    using R(4) R(6)[of j] nk k(1) by auto
  have 4: "map fst (rcDone ?c') = filter (\<lambda>j. caHasDone (rcCalls ?c' ! j)) (rcDeleted ?c')" using R(5) by simp
  have 5: "snd x = par (ser (answer ser par serve (rcCalls ?c' ! fst x)))" if "x \<in> set (rcDone ?c')" for x
    using R(7)[of x] that by (auto split: if_splits)
  have m: "rcOutstandings ?c' = ?m" by simp
  show ?thesis
    unfolding results_ok_def m by (intro conjI allI impI ballI wf 3 4) (use 1 2 3 5 in blast)+
qed

lemma dropped_ok [simp]:
  "results_ok ser par serve (c\<lparr>rcReceived := r, rcDropped := d\<rparr>) = results_ok ser par serve c"
  by (simp add: results_ok_def)

lemma response_inv:
  assumes inv: "rpc_inv ser par services serve y" and msg: "rcOutgoing (syServer y) = msg # rest" and cl: "onRpcMessage par msg (syClient y) = Inr cl"
  shows "rpc_inv ser par services serve (y\<lparr>syServer := (syServer y)\<lparr>rcOutgoing := rest\<rparr>, syClient := cl\<rparr>)"
proof -
  let ?y = "y\<lparr>syServer := (syServer y)\<lparr>rcOutgoing := rest\<rparr>, syClient := cl\<rparr>" and ?c = "syClient y"
  obtain k where k: "k < length (rcCalls ?c)" "rmId msg = caId (rcCalls ?c ! k)" "map_of (rcOutstandings ?c) (rmId msg) \<in> {None, Some k}"
    and r: "onRpcMessage par msg ?c = Inr (let c = ?c\<lparr>rcReceived := rcReceived ?c @ [rmId msg]\<rparr> in
       if map_of (rcOutstandings ?c) (rmId msg) = None then c\<lparr>rcDropped := rcDropped ?c @ [rmId msg]\<rparr>
       else c\<lparr>rcOutstandings := std_map_erase (rmId msg) (rcOutstandings ?c),
         rcDone := rcDone ?c @ (if caHasDone (rcCalls ?c ! k) then [(k, par (ser (answer ser par serve (rcCalls ?c ! k))))] else []),
         rcDeleted := rcDeleted ?c @ [k]\<rparr>)"
    by (rule response_matched[OF inv msg]) assumption
  have I: "calls_ok ?c" "results_ok ser par serve ?c" "answered_ok ?c" "contents_ok ser par serve y" "travelling y = sent_ids ?c"
    using inv by (simp_all add: rpc_inv_def)
  have same: "rcCalls cl = rcCalls ?c" "rcId cl = rcId ?c" "rcOutgoing cl = rcOutgoing ?c" "rcReceived cl = rcReceived ?c @ [rmId msg]"
    using cl r by (auto simp: Let_def)
  have "calls_ok cl" "sent_ids cl = sent_ids ?c" using I(1) unfolding calls_ok_def sent_ids_def same by blast+
  moreover have "contents_ok ser par serve ?y"
    by (rule contents_mono[of ser par serve y]) (use I(4) ext_refl[of cl ?c] msg same in auto)
  moreover have "travelling ?y = travelling y" using msg same by (simp add: travelling_def)
  moreover have "results_ok ser par serve cl"
  proof (cases "map_of (rcOutstandings ?c) (rmId msg)")
    case None
    then show ?thesis using cl r I(2) by (auto simp: Let_def)
  next
    case (Some j)
    then show ?thesis using cl r k matched_results[OF I(2,1) k(1)] by (auto simp: Let_def)
  qed
  moreover have "answered_ok cl"
  proof -
    have "set (rcDropped cl) \<supseteq> set (rcDropped ?c)" "set (rcDeleted cl) \<supseteq> set (rcDeleted ?c)" "set (rcDeleted cl) \<subseteq> insert k (set (rcDeleted ?c))"
      "rmId msg \<in> set (rcDropped cl) \<or> k \<in> set (rcDeleted cl)"
      using cl r by (auto simp: Let_def split: if_splits)
    then show ?thesis using I(3) k(2) unfolding answered_ok_def same by (simp add: image_subset_iff) blast
  qed
  moreover have "routed_ok services ?y"
  proof -
    have same: "call_ids services cl b = call_ids services ?c b" for b using \<open>rcCalls cl = rcCalls ?c\<close> by (simp add: call_ids_def)
    have "routed_ok services y" using inv by (simp add: rpc_inv_def)
    then show ?thesis using msg \<open>rcReceived cl = rcReceived ?c @ [rmId msg]\<close> by (auto simp: routed_ok_def same)
  qed
  ultimately show ?thesis using inv by (simp add: rpc_inv_def)
qed

lemma rpc_reach_inv:
  assumes "(rpc_step ser par services serve)\<^sup>*\<^sup>* y0 y" and "rpc_init services y0"
  shows "rpc_inv ser par services serve y"
  using assms
proof (induction rule: rtranclp_induct)
  case base
  then show ?case by (rule rpc_init_inv)
next
  case (step y z)
  then have inv: "rpc_inv ser par services serve y" by simp
  from step.hyps(2) show ?case
    by cases (use inv in \<open>blast intro: begin_inv send_inv record_inv request_inv serve_inv response_inv\<close>)+
qed

subsection \<open>Calls and answers\<close>

lemma done_of:
  assumes "results_ok ser par serve c"
  shows "set (map fst (rcDone c)) = {k \<in> set (rcDeleted c). caHasDone (rcCalls c ! k)}"
  using results_okD(5)[OF assms] by simp

lemma recorded_runs:
  assumes inv: "rpc_inv ser par services serve y" and msg: "rcOutgoing (syServer y) = msg # rest"
    and k: "k < length (rcCalls (syClient y))" "caId (rcCalls (syClient y) ! k) = rmId msg" "caPhase (rcCalls (syClient y) ! k) = Recorded"
      "caHasDone (rcCalls (syClient y) ! k)" and cl: "onRpcMessage par msg (syClient y) = Inr cl"
  shows "(k, par (ser (answer ser par serve (rcCalls (syClient y) ! k)))) \<in> set (rcDone cl)"
proof -
  have I: "calls_ok (syClient y)" "results_ok ser par serve (syClient y)" "answered_ok (syClient y)" using inv by (simp_all add: rpc_inv_def)
  have "k \<notin> set (rcDeleted (syClient y))" using fresh_not_deleted[OF I(3)] response_fresh[OF inv msg] k(2) by simp
  then have out: "map_of (rcOutstandings (syClient y)) (rmId msg) = Some k" using results_okD(3)[OF I(2) k(1,3)] k(2) by simp
  show ?thesis
    by (rule response_matched[OF inv msg]) (use out cl id_inj[OF I(1) k(1)] k in \<open>auto simp: Let_def\<close>)
qed

lemma deleted_registered:
  assumes inv: "rpc_inv ser par services serve y" and k: "k \<in> set (rcDeleted (syClient y))"
  shows "registered services (rcCalls (syClient y) ! k)"
proof -
  have I: "calls_ok (syClient y)" "results_ok ser par serve (syClient y)" "answered_ok (syClient y)" "routed_ok services y"
    using inv by (simp_all add: rpc_inv_def)
  have "caId (rcCalls (syClient y) ! k) \<in> set (rcReceived (syClient y))" using I(3) k unfolding answered_ok_def by blast
  then have "caId (rcCalls (syClient y) ! k) \<in> call_ids services (syClient y) True" using I(4) by (auto simp: routed_ok_def)
  then obtain j where j: "j < length (rcCalls (syClient y))" "caId (rcCalls (syClient y) ! k) = caId (rcCalls (syClient y) ! j)"
      "registered services (rcCalls (syClient y) ! j)" by (auto simp: call_ids_def)
  moreover have "k < length (rcCalls (syClient y))" using results_okD(6)[OF I(2) k] by simp
  ultimately show ?thesis using id_inj[OF I(1), of k j] by simp
qed

lemma settled_calls:
  assumes inv: "rpc_inv ser par services serve y" and quiet: "rcOutgoing (syClient y) = []" "rcServing (syServer y) = []" "rcOutgoing (syServer y) = []"
    and k: "k < length (rcCalls (syClient y))" "caPhase (rcCalls (syClient y) ! k) \<noteq> Begun"
  shows "if registered services (rcCalls (syClient y) ! k)
    then k \<in> set (rcDeleted (syClient y)) \<or> caId (rcCalls (syClient y) ! k) \<in> set (rcDropped (syClient y))
    else k \<notin> set (rcDeleted (syClient y)) \<and> caId (rcCalls (syClient y) ! k) \<in> set (rcIgnored (syServer y))"
proof -
  have I: "calls_ok (syClient y)" "results_ok ser par serve (syClient y)" "answered_ok (syClient y)" "travelling y = sent_ids (syClient y)"
    "routed_ok services y"
    using inv by (simp_all add: rpc_inv_def)
  have only: "registered services (rcCalls (syClient y) ! k) = b" if "caId (rcCalls (syClient y) ! k) \<in> call_ids services (syClient y) b" for b
    using that id_inj[OF I(1) _ k(1)] by (auto simp: call_ids_def)
  have "caId (rcCalls (syClient y) ! k) \<in># sent_ids (syClient y)" using k by (auto simp: sent_ids_def)
  then have "caId (rcCalls (syClient y) ! k) \<in># travelling y" by (simp add: I(4))
  then have r: "caId (rcCalls (syClient y) ! k) \<in> set (rcReceived (syClient y)) \<or> caId (rcCalls (syClient y) ! k) \<in> set (rcIgnored (syServer y))"
    using quiet by (simp add: travelling_def)
  have route: "set (rcIgnored (syServer y)) \<subseteq> call_ids services (syClient y) False" "set (rcReceived (syClient y)) \<subseteq> call_ids services (syClient y) True"
    using I(5) by (simp_all add: routed_ok_def)
  { fix j assume "j \<in> set (rcDeleted (syClient y))" "caId (rcCalls (syClient y) ! k) = caId (rcCalls (syClient y) ! j)"
    then have "j = k" using id_inj[OF I(1), of j k] results_okD(6)[OF I(2), of j] k(1) by simp }
  note same = this
  show ?thesis
  proof (cases "registered services (rcCalls (syClient y) ! k)")
    case True
    then have "caId (rcCalls (syClient y) ! k) \<in> set (rcReceived (syClient y))" using r route(1) only by blast
    then show ?thesis using True I(3) same unfolding answered_ok_def by auto
  next
    case False
    then have "caId (rcCalls (syClient y) ! k) \<notin> set (rcReceived (syClient y))" using route(2) only by blast
    then show ?thesis using False r fresh_not_deleted[OF I(3)] by simp
  qed
qed

text \<open>Property C19. Remote calls are matched with their answers: whatever the interleaving of the calling threads, of the
  two loops and of the services, for fewer than \<open>2 ^ 64 - 1\<close> calls and messages that parse to what was serialized, a closure runs at most once, only for a call of a method
  that is registered, and with what the service computes from the request of its own call;
  no request and no response that is delivered makes its receiver fail; the response of a recorded call runs its closure;
  and once nothing is on its way every call that was sent and has a method either ran its closure or its response was dropped,
  while one without a method was ignored by the server and will never run its closure.\<close>

theorem rpc_calls_matched:
  assumes "(rpc_step ser par services serve)\<^sup>*\<^sup>* y0 y" and "rpc_init services y0" and "\<And>m. par (ser m) = m"
  shows "distinct (map fst (rcDone (syClient y)))
   \<and> (\<forall>x \<in> set (rcDone (syClient y)). fst x < length (rcCalls (syClient y))
        \<and> (let c = rcCalls (syClient y) ! fst x
           in caHasDone c \<and> registered services c \<and> snd x = serve (caService c) (caMethod c) (caRequest c)))
   \<and> (\<forall>msg rest. rcOutgoing (syClient y) = msg # rest \<longrightarrow> (\<exists>srv. onRpcMessage par msg (syServer y) = Inr srv))
   \<and> (\<forall>msg rest. rcOutgoing (syServer y) = msg # rest \<longrightarrow> (\<exists>cl. onRpcMessage par msg (syClient y) = Inr cl
        \<and> (\<forall>k < length (rcCalls (syClient y)). let c = rcCalls (syClient y) ! k in
             caId c = rmId msg \<and> caPhase c = Recorded \<and> caHasDone c \<longrightarrow> (k, serve (caService c) (caMethod c) (caRequest c)) \<in> set (rcDone cl))))
   \<and> (rcOutgoing (syClient y) = [] \<and> rcServing (syServer y) = [] \<and> rcOutgoing (syServer y) = [] \<longrightarrow>
        (\<forall>k < length (rcCalls (syClient y)). let c = rcCalls (syClient y) ! k in
          caPhase c \<noteq> Begun \<and> caHasDone c \<longrightarrow>
            (if registered services c then k \<in> fst ` set (rcDone (syClient y)) \<or> caId c \<in> set (rcDropped (syClient y))
             else k \<notin> fst ` set (rcDone (syClient y)) \<and> caId c \<in> set (rcIgnored (syServer y)))))"
  unfolding Let_def
proof (intro conjI allI impI ballI)
  have inv: "rpc_inv ser par services serve y" using assms(1,2) by (rule rpc_reach_inv)
  then have res: "results_ok ser par serve (syClient y)" by (simp add: rpc_inv_def)
  have ans: "par (ser (answer ser par serve c)) = serve (caService c) (caMethod c) (caRequest c)" for c by (simp add: answer_def assms(3))
  show "distinct (map fst (rcDone (syClient y)))" using results_okD(4,5)[OF res] by simp
  { fix x assume x: "x \<in> set (rcDone (syClient y))"
    then have "fst x \<in> set (map fst (rcDone (syClient y)))" by simp
    then have "fst x \<in> set (rcDeleted (syClient y)) \<and> caHasDone (rcCalls (syClient y) ! fst x)" unfolding done_of[OF res] by simp
    then show "fst x < length (rcCalls (syClient y))" "caHasDone (rcCalls (syClient y) ! fst x)"
      "registered services (rcCalls (syClient y) ! fst x)"
      "snd x = serve (caService (rcCalls (syClient y) ! fst x)) (caMethod (rcCalls (syClient y) ! fst x)) (caRequest (rcCalls (syClient y) ! fst x))"
      using results_okD(6,7)[OF res] x ans deleted_registered[OF inv] by auto }
  { fix msg rest assume "rcOutgoing (syClient y) = msg # rest"
    then show "\<exists>srv. onRpcMessage par msg (syServer y) = Inr srv" using request_served[OF inv] by metis }
  { fix msg rest assume msg: "rcOutgoing (syServer y) = msg # rest"
    then obtain cl where cl: "onRpcMessage par msg (syClient y) = Inr cl" using response_matched[OF inv] by metis
    then show "\<exists>cl. onRpcMessage par msg (syClient y) = Inr cl \<and> (\<forall>k < length (rcCalls (syClient y)).
        caId (rcCalls (syClient y) ! k) = rmId msg \<and> caPhase (rcCalls (syClient y) ! k) = Recorded \<and> caHasDone (rcCalls (syClient y) ! k) \<longrightarrow>
        (k, serve (caService (rcCalls (syClient y) ! k)) (caMethod (rcCalls (syClient y) ! k)) (caRequest (rcCalls (syClient y) ! k))) \<in> set (rcDone cl))"
      using recorded_runs[OF inv msg _ _ _ _ cl] unfolding ans by blast }
  { fix k assume quiet: "rcOutgoing (syClient y) = [] \<and> rcServing (syServer y) = [] \<and> rcOutgoing (syServer y) = []"
      and k: "k < length (rcCalls (syClient y))" "caPhase (rcCalls (syClient y) ! k) \<noteq> Begun \<and> caHasDone (rcCalls (syClient y) ! k)"
    note S = settled_calls[OF inv _ _ _ k(1)]
    have "k \<in> fst ` set (rcDone (syClient y)) \<longleftrightarrow> k \<in> set (rcDeleted (syClient y))" using done_of[OF res] k(2) by auto
    then show "if registered services (rcCalls (syClient y) ! k)
        then k \<in> fst ` set (rcDone (syClient y)) \<or> caId (rcCalls (syClient y) ! k) \<in> set (rcDropped (syClient y))
        else k \<notin> fst ` set (rcDone (syClient y)) \<and> caId (rcCalls (syClient y) ! k) \<in> set (rcIgnored (syServer y))"
      using S quiet k(2) by simp }
qed

text \<open>Two runs of one call of an echoing service: its response comes after the call is recorded, or before.\<close>

definition echo_services :: "(string \<times> string list) list" where
  "echo_services = [(''Echo'', [''say''])]"

definition echo_twice :: "string \<Rightarrow> string \<Rightarrow> string \<Rightarrow> string" where
  "echo_twice s m r = r @ r"

definition echo_sent :: "string rpc_system" where
  "echo_sent = \<lparr>syClient = call_send (\<lambda>m. m) 0 (call_begin ''Echo'' ''say'' ''hi'' True newRpcChannel),
     syServer = setServices echo_services newRpcChannel\<rparr>"

lemmas run_defs = newRpcChannel_def setServices_def call_begin_def call_send_def call_record_def set_phase_def request_of_def onRpcMessage_def
    doneCallback_def echo_services_def echo_twice_def echo_sent_def Let_def std_map_erase_def

lemma echo_sent_reached:
  "\<exists>y0. rpc_init echo_services y0 \<and> (rpc_step (\<lambda>m. m) (\<lambda>b. b) echo_services echo_twice)\<^sup>*\<^sup>* y0 echo_sent"
proof -
  let ?R = "rpc_step (\<lambda>m. m) (\<lambda>b. b) echo_services echo_twice"
  let ?y0 = "\<lparr>syClient = newRpcChannel, syServer = setServices echo_services newRpcChannel\<rparr> :: string rpc_system"
  let ?y1 = "?y0\<lparr>syClient := call_begin ''Echo'' ''say'' ''hi'' True (syClient ?y0)\<rparr>"
  have "?R ?y0 ?y1" by (rule step_begin) (simp_all add: run_defs)
  moreover have "?R ?y1 (?y1\<lparr>syClient := call_send (\<lambda>m. m) 0 (syClient ?y1)\<rparr>)" by (rule step_send) (simp_all add: run_defs)
  ultimately have "?R\<^sup>*\<^sup>* ?y0 echo_sent" by (simp add: echo_sent_def)
  then show ?thesis unfolding rpc_init_def by blast
qed

text \<open>A request on its way comes to the server, is served, and its response comes back.\<close>

lemma echo_round_trip:
  assumes out: "rcOutgoing (syClient y) = [request_of (\<lambda>m. m) (rcCalls (syClient echo_sent) ! 0)]"
    and srv: "syServer y = setServices echo_services newRpcChannel"
    and cl: "onRpcMessage (\<lambda>b. b) \<lparr>rmType = RESPONSE, rmId = 1, rmService = [], rmMethod = [], rmRequest = [], rmResponse = Some ''hihi''\<rparr>
       ((syClient y)\<lparr>rcOutgoing := []\<rparr>) = Inr cl"
  shows "\<exists>srv. (rpc_step (\<lambda>m. m) (\<lambda>b. b) echo_services echo_twice)\<^sup>*\<^sup>* y (y\<lparr>syServer := srv, syClient := cl\<rparr>)
    \<and> rcServing srv = [] \<and> rcOutgoing srv = []"
proof -
  let ?R = "rpc_step (\<lambda>m. m) (\<lambda>b. b) echo_services echo_twice"
  let ?srv = "(setServices echo_services newRpcChannel)\<lparr>rcReceived := [1], rcServing := [(1, ''Echo'', ''say'', ''hi'')]\<rparr>"
  let ?y4 = "y\<lparr>syClient := (syClient y)\<lparr>rcOutgoing := []\<rparr>, syServer := ?srv\<rparr>"
  let ?y5 = "?y4\<lparr>syServer := doneCallback (\<lambda>m. m) (echo_twice ''Echo'' ''say'' ''hi'') 1
      ((syServer ?y4)\<lparr>rcServing := take 0 (rcServing (syServer ?y4)) @ drop (Suc 0) (rcServing (syServer ?y4))\<rparr>)\<rparr>"
  let ?y6 = "?y5\<lparr>syServer := (syServer ?y5)\<lparr>rcOutgoing := []\<rparr>, syClient := cl\<rparr>"
  have 1: "?R y ?y4" by (rule step_request[OF out]) (simp add: run_defs srv)
  have 2: "?R ?y4 ?y5" by (rule step_serve) (simp_all add: run_defs)
  have 3: "?R ?y5 ?y6" by (rule step_response) (use cl in \<open>simp_all add: doneCallback_def setServices_def newRpcChannel_def echo_twice_def\<close>)
  have "?R\<^sup>*\<^sup>* y ?y6" using 1 2 3 by (meson converse_rtranclp_into_rtranclp r_into_rtranclp)
  then show ?thesis
    by (intro exI[of _ "(syServer ?y5)\<lparr>rcOutgoing := []\<rparr>"]) (simp add: doneCallback_def setServices_def newRpcChannel_def)
qed

lemma recorded_call_run:
  "\<exists>y0 y. rpc_init echo_services y0 \<and> (rpc_step (\<lambda>m. m) (\<lambda>b. b) echo_services echo_twice)\<^sup>*\<^sup>* y0 y
    \<and> rcDone (syClient y) = [(0, ''hihi'')]"
proof -
  let ?R = "rpc_step (\<lambda>m. m) (\<lambda>b. b) echo_services echo_twice"
  let ?y = "echo_sent\<lparr>syClient := call_record 0 (syClient echo_sent)\<rparr>"
  let ?cl = "(syClient ?y)\<lparr>rcOutgoing := [], rcReceived := [1], rcOutstandings := [], rcDone := [(0, ''hihi'')], rcDeleted := [0]\<rparr>"
  obtain y0 where y0: "rpc_init echo_services y0" "?R\<^sup>*\<^sup>* y0 echo_sent" using echo_sent_reached by blast
  have 1: "?R echo_sent ?y" by (rule step_record) (simp_all add: run_defs)
  obtain srv where srv: "?R\<^sup>*\<^sup>* ?y (?y\<lparr>syServer := srv, syClient := ?cl\<rparr>)"
    using echo_round_trip[of ?y ?cl] by (auto simp: run_defs)
  have "?R\<^sup>*\<^sup>* y0 (?y\<lparr>syServer := srv, syClient := ?cl\<rparr>)"
    using y0(2) 1 srv by (meson rtranclp.rtrancl_into_rtrancl rtranclp_trans)
  moreover have "rcDone (syClient (?y\<lparr>syServer := srv, syClient := ?cl\<rparr>)) = [(0, ''hihi'')]" by simp
  ultimately show ?thesis using y0(1) by blast
qed

theorem rpc_calls_matched_witness:
  "\<exists>y0 y. rpc_init echo_services y0 \<and> (rpc_step (\<lambda>m. m) (\<lambda>b. b) echo_services echo_twice)\<^sup>*\<^sup>* y0 y \<and> rcDone (syClient y) = [(0, ''hihi'')]
     \<and> echo_twice (caService (rcCalls (syClient y) ! 0)) (caMethod (rcCalls (syClient y) ! 0)) (caRequest (rcCalls (syClient y) ! 0)) = ''hihi''"
proof -
  obtain y0 y where y: "rpc_init echo_services y0" "(rpc_step (\<lambda>m. m) (\<lambda>b. b) echo_services echo_twice)\<^sup>*\<^sup>* y0 y"
    "rcDone (syClient y) = [(0, ''hihi'')]"
    using recorded_call_run by blast
  from rpc_calls_matched[OF y(2,1) refl] y(3)
  have "echo_twice (caService (rcCalls (syClient y) ! 0)) (caMethod (rcCalls (syClient y) ! 0)) (caRequest (rcCalls (syClient y) ! 0)) = ''hihi''"
    by (simp add: Let_def)
  then show ?thesis using y by blast
qed

text \<open>\<open>CallMethod\<close> sends before it records: the response may come in between. It is dropped, the call stays outstanding for
  ever, its closure never runs and its response object is never deleted.\<close>

lemma response_before_record_lost:
  "\<exists>y0 y. rpc_init echo_services y0 \<and> (rpc_step (\<lambda>m. m) (\<lambda>b. b) echo_services echo_twice)\<^sup>*\<^sup>* y0 y
    \<and> caPhase (rcCalls (syClient y) ! 0) = Recorded \<and> caHasDone (rcCalls (syClient y) ! 0) \<and> rcOutstandings (syClient y) = [(1, 0)]
    \<and> rcDone (syClient y) = [] \<and> rcOutgoing (syClient y) = [] \<and> rcServing (syServer y) = [] \<and> rcOutgoing (syServer y) = []"
proof -
  let ?R = "rpc_step (\<lambda>m. m) (\<lambda>b. b) echo_services echo_twice"
  let ?cl = "(syClient echo_sent)\<lparr>rcOutgoing := [], rcReceived := [1], rcDropped := [1]\<rparr>"
  obtain y0 where y0: "rpc_init echo_services y0" "?R\<^sup>*\<^sup>* y0 echo_sent" using echo_sent_reached by blast
  obtain srv where srv: "?R\<^sup>*\<^sup>* echo_sent (echo_sent\<lparr>syServer := srv, syClient := ?cl\<rparr>)" "rcServing srv = []" "rcOutgoing srv = []"
    using echo_round_trip[of echo_sent ?cl] by (auto simp: run_defs)
  let ?y = "echo_sent\<lparr>syServer := srv, syClient := ?cl\<rparr>"
  let ?z = "?y\<lparr>syClient := call_record 0 (syClient ?y)\<rparr>"
  have "?R ?y ?z" by (rule step_record) (simp_all add: run_defs)
  then have "?R\<^sup>*\<^sup>* y0 ?z" using y0(2) srv(1) by (meson rtranclp.rtrancl_into_rtrancl rtranclp_trans)
  moreover have "caPhase (rcCalls (syClient ?z) ! 0) = Recorded \<and> caHasDone (rcCalls (syClient ?z) ! 0) \<and> rcOutstandings (syClient ?z) = [(1, 0)]
    \<and> rcDone (syClient ?z) = [] \<and> rcOutgoing (syClient ?z) = [] \<and> rcServing (syServer ?z) = [] \<and> rcOutgoing (syServer ?z) = []"
    using srv(2,3) by (simp add: run_defs)
  ultimately show ?thesis using y0(1) by blast
qed

text \<open>A request for a service or a method that is not registered is passed over without an answer.\<close>

lemma unknown_method_not_answered:
  assumes "rcServices ch = Some services" and "rmType msg = REQUEST"
    and "case map_of services (rmService msg) of None \<Rightarrow> True | Some methods \<Rightarrow> rmMethod msg \<notin> set methods"
  shows "\<exists>ch'. onRpcMessage par msg ch = Inr ch' \<and> rcServing ch' = rcServing ch \<and> rcOutgoing ch' = rcOutgoing ch"
  using assms by (auto simp: onRpcMessage_def Let_def split: option.splits)

end
