(* ===== verification/Calendar.thy ===== *)
theory Calendar
  imports StdText
begin

text \<open>
  The text of a point in time (\<open>base/Timestamp.cc\<close>): broken-down UTC time as \<open>gmtime_r\<close> of the C library
  gives it, the padded numbers of \<open>printf\<close>, and \<open>Timestamp::toString\<close> and \<open>toFormattedString\<close>. The
  model of \<open>gmtime_r\<close> is checked against the count of days of the Gregorian calendar.
\<close>

subsection \<open>Broken-down time\<close>

record tm =
  tm_sec :: int
  tm_min :: int
  tm_hour :: int
  tm_mday :: int
  tm_mon :: int
  tm_year :: int

text \<open>Years are counted from March, so that the leap day is the last one; \<open>year_start\<close> is the number of days
  from the March of year 0 to that of year \<open>y\<close>, \<open>month_start\<close> from the first of March to that of a month.\<close>

definition year_start :: "int \<Rightarrow> int" where
  "year_start y = 365 * y + y div 4 - y div 100 + y div 400"

definition month_start :: "int \<Rightarrow> int" where
  "month_start mp = (153 * mp + 2) div 5"

definition year_day :: "int \<Rightarrow> int \<times> int" where
  "year_day n =
     (let c4 = n div 146097; r4 = n mod 146097;
          c1 = min 3 (r4 div 36524); r1 = r4 - 36524 * c1;
          q = r1 div 1461; rq = r1 mod 1461;
          e = min 3 (rq div 365)
      in (400 * c4 + 100 * c1 + 4 * q + e, rq - 365 * e))"

definition gmtime :: "int \<Rightarrow> tm" where
  "gmtime t =
     (let days = t div 86400; s = t mod 86400; (y, doy) = year_day (days + 719468);
          mp = (5 * doy + 2) div 153
      in \<lparr>tm_sec = s mod 60, tm_min = s div 60 mod 60, tm_hour = s div 3600, tm_mday = doy - month_start mp + 1,
          tm_mon = (if mp < 10 then mp + 2 else mp - 10), tm_year = (if mp < 10 then y else y + 1) - 1900\<rparr>)"

definition timegm :: "tm \<Rightarrow> int" where
  "timegm x =
     (let y = tm_year x + 1900; march = (if 2 \<le> tm_mon x then y else y - 1);
          mp = (if 2 \<le> tm_mon x then tm_mon x - 2 else tm_mon x + 10)
      in (year_start march + month_start mp + tm_mday x - 1 - 719468) * 86400 + tm_hour x * 3600 + tm_min x * 60 + tm_sec x)"

definition leap_year :: "int \<Rightarrow> bool" where
  "leap_year y \<longleftrightarrow> y mod 4 = 0 \<and> (y mod 100 \<noteq> 0 \<or> y mod 400 = 0)"

definition month_days :: "int \<Rightarrow> int \<Rightarrow> int" where
  "month_days y m = (if m = 1 then (if leap_year y then 29 else 28) else if m \<in> {3, 5, 8, 10} then 30 else 31)"

lemma year_day_parts:
  obtains c4 c1 q e where "year_day n = (400 * c4 + 100 * c1 + 4 * q + e, n - (146097 * c4 + 36524 * c1 + 1461 * q + 365 * e))"
    "0 \<le> c1" "c1 \<le> 3" "0 \<le> q" "q \<le> 24" "0 \<le> e" "e \<le> 3"
    "0 \<le> n - (146097 * c4 + 36524 * c1 + 1461 * q + 365 * e)"
    "n - (146097 * c4 + 36524 * c1 + 1461 * q + 365 * e) \<le> 364 \<or>
     n - (146097 * c4 + 36524 * c1 + 1461 * q + 365 * e) = 365 \<and> e = 3 \<and> (q < 24 \<or> c1 = 3)"
proof -
  define c4 r4 where "c4 = n div 146097" and "r4 = n mod 146097"
  define c1 where "c1 = min 3 (r4 div 36524)"
  define r1 where "r1 = r4 - 36524 * c1"
  define q rq where "q = r1 div 1461" and "rq = r1 mod 1461"
  define e where "e = min 3 (rq div 365)"
  have n: "n = 146097 * c4 + r4" "0 \<le> r4" "r4 \<le> 146096" by (simp_all add: c4_def r4_def)
  have c1: "0 \<le> c1" "c1 \<le> 3" "0 \<le> r1" "r1 \<le> 36523 \<or> r1 = 36524 \<and> c1 = 3" using n(2,3) by (auto simp: c1_def r1_def)
  have q: "r1 = 1461 * q + rq" "0 \<le> rq" "rq \<le> 1460" by (simp_all add: q_def rq_def)
  then have q': "0 \<le> q" "q \<le> 24" "rq = 1460 \<Longrightarrow> q < 24 \<or> c1 = 3" using c1 by auto
  have e: "0 \<le> e" "e \<le> 3" "0 \<le> rq - 365 * e" "rq - 365 * e \<le> 364 \<or> rq - 365 * e = 365 \<and> e = 3 \<and> rq = 1460" using q(2,3) by (auto simp: e_def)
  have d: "n - (146097 * c4 + 36524 * c1 + 1461 * q + 365 * e) = rq - 365 * e" using n(1) q(1) by (simp add: r1_def)
  have "year_day n = (400 * c4 + 100 * c1 + 4 * q + e, rq - 365 * e)"
    unfolding year_day_def Let_def c4_def[symmetric] r4_def[symmetric] c1_def[symmetric] r1_def[symmetric] q_def[symmetric]
      rq_def[symmetric] e_def[symmetric] by (rule refl)
  then show ?thesis by (intro that[of c4 c1 q e]) (use c1 q' e d in auto)
qed

lemma mod_top: "1 \<le> r \<Longrightarrow> r \<le> k \<Longrightarrow> (k * a + r) mod k = 0 \<longleftrightarrow> r = (k :: int)"
  by (cases "r = k") auto

lemma year_start_parts:
  assumes "0 \<le> c1" "c1 \<le> 3" "0 \<le> q" "q \<le> 24" "0 \<le> e" "e \<le> 3"
  shows "year_start (400 * c4 + 100 * c1 + 4 * q + e) = 146097 * c4 + 36524 * c1 + 1461 * q + 365 * e"
    and "leap_year (400 * c4 + 100 * c1 + 4 * q + e + 1) \<longleftrightarrow> e = 3 \<and> (q < 24 \<or> c1 = 3)"
proof -
  let ?y = "400 * c4 + 100 * c1 + 4 * q + e"
  have "?y div 4 = 100 * c4 + 25 * c1 + q" "?y div 100 = 4 * c4 + c1" "?y div 400 = c4" using assms by auto
  then show "year_start ?y = 146097 * c4 + 36524 * c1 + 1461 * q + 365 * e" by (simp add: year_start_def)
  have e: "?y + 1 = 4 * (100 * c4 + 25 * c1 + q) + (e + 1)" "?y + 1 = 100 * (4 * c4 + c1) + (4 * q + e + 1)"
    "?y + 1 = 400 * c4 + (100 * c1 + 4 * q + e + 1)" by simp_all
  have 4: "(?y + 1) mod 4 = 0 \<longleftrightarrow> e + 1 = 4" unfolding e(1) by (rule mod_top) (use assms in linarith)+
  have 100: "(?y + 1) mod 100 = 0 \<longleftrightarrow> 4 * q + e + 1 = 100" unfolding e(2) by (rule mod_top) (use assms in linarith)+
  have 400: "(?y + 1) mod 400 = 0 \<longleftrightarrow> 100 * c1 + 4 * q + e + 1 = 400" unfolding e(3) by (rule mod_top) (use assms in linarith)+
  show "leap_year (?y + 1) \<longleftrightarrow> e = 3 \<and> (q < 24 \<or> c1 = 3)" 
  proof (cases "e = 3")
    case e3: True
    show ?thesis
    proof (cases "q = 24")
      case True
      then show ?thesis unfolding leap_year_def 4 100 400 using e3 by simp
    next
      case False
      then have "q < 24" "4 * q + e + 1 \<noteq> 100" using e3 assms(4) by linarith+
      then show ?thesis unfolding leap_year_def 4 100 400 using e3 by simp
    qed
  next
    case False
    then show ?thesis unfolding leap_year_def 4 by simp
  qed
qed

lemma year_day_inverse:
  assumes "year_day n = (y, doy)"
  shows "year_start y + doy = n" "0 \<le> doy" "doy \<le> 364 \<or> doy = 365 \<and> leap_year (y + 1)"
  by (rule year_day_parts[of n]; use assms year_start_parts in \<open>auto simp: algebra_simps\<close>)+

text \<open>The month of a day: \<open>(5 * doy + 2) div 153\<close> counts from March.\<close>

lemma month_of_day:
  assumes "0 \<le> doy" "doy \<le> 365"
  defines "mp \<equiv> (5 * doy + 2) div 153"
  shows "0 \<le> mp" "mp \<le> 11" "month_start mp \<le> doy" "doy < month_start (mp + 1)"
proof -
  have mp: "153 * mp \<le> 5 * doy + 2" "5 * doy + 2 \<le> 153 * mp + 152" unfolding mp_def by simp_all
  show "0 \<le> mp" "mp \<le> 11" using mp assms(1,2) by linarith+
  have m: "5 * month_start k \<le> 153 * k + 2" "153 * k + 2 \<le> 5 * month_start k + 4" for k unfolding month_start_def by simp_all
  show "month_start mp \<le> doy" using mp m(1)[of mp] by linarith
  define M where "M = month_start (mp + 1)"
  have "153 * mp + 155 \<le> 5 * M + 4" using m(2)[of "mp + 1"] by (simp add: M_def)
  then show "doy < month_start (mp + 1)" unfolding M_def[symmetric] using mp by linarith
qed

lemma month_lengths:
  assumes "0 \<le> mp" "mp \<le> 10"
  shows "month_start (mp + 1) - month_start mp = (if mp \<in> {1, 3, 6, 8} then 30 else 31)"
proof -
  have "mp = 0 \<or> mp = 1 \<or> mp = 2 \<or> mp = 3 \<or> mp = 4 \<or> mp = 5 \<or> mp = 6 \<or> mp = 7 \<or> mp = 8 \<or> mp = 9 \<or> mp = 10" using assms by presburger
  then show ?thesis by (auto simp: month_start_def)
qed

lemma split_day: "s div 3600 * 3600 + s div 60 mod 60 * 60 + s mod 60 = (s :: int)"
proof -
  define a b c d where "a = s div 60" and "b = a div 60" and "c = a mod 60" and "d = s mod 60"
  have "s = a * 60 + d" "a = b * 60 + c" by (simp_all add: a_def b_def c_def d_def)
  then have "b * 3600 + c * 60 + d = s" by simp
  moreover have "b = s div 3600" by (simp add: b_def a_def zdiv_zmult2_eq[symmetric])
  ultimately show ?thesis by (simp add: a_def c_def d_def)
qed

text \<open>\<open>gmtime\<close> gives a date of the Gregorian calendar and a time of day, and they are the moment they were
  computed from.\<close>

theorem gmtime_is_calendar:
  shows "timegm (gmtime t) = t"
    and "0 \<le> tm_sec (gmtime t)" "tm_sec (gmtime t) < 60" "0 \<le> tm_min (gmtime t)" "tm_min (gmtime t) < 60"
    and "0 \<le> tm_hour (gmtime t)" "tm_hour (gmtime t) < 24" "0 \<le> tm_mon (gmtime t)" "tm_mon (gmtime t) < 12"
    and "1 \<le> tm_mday (gmtime t)" "tm_mday (gmtime t) \<le> month_days (tm_year (gmtime t) + 1900) (tm_mon (gmtime t))"
proof -
  obtain y doy where yd: "year_day (t div 86400 + 719468) = (y, doy)" by fastforce
  define mp where "mp = (5 * doy + 2) div 153"
  define s where "s = t mod 86400"
  note Y = year_day_inverse[OF yd]
  then have doy: "0 \<le> doy" "doy \<le> 365" by auto
  note M = month_of_day[OF doy, folded mp_def]
  have g: "gmtime t = \<lparr>tm_sec = s mod 60, tm_min = s div 60 mod 60, tm_hour = s div 3600, tm_mday = doy - month_start mp + 1,
          tm_mon = (if mp < 10 then mp + 2 else mp - 10), tm_year = (if mp < 10 then y else y + 1) - 1900\<rparr>"
    by (simp add: gmtime_def yd mp_def s_def Let_def)
  have s: "0 \<le> s" "s < 86400" "t = t div 86400 * 86400 + s" by (simp_all add: s_def)
  have hms: "s div 3600 * 3600 + s div 60 mod 60 * 60 + s mod 60 = s" by (rule split_day)
  have "timegm (gmtime t) = (year_start y + doy - 719468) * 86400 + (s div 3600 * 3600 + s div 60 mod 60 * 60 + s mod 60)"
    using M(1,2) by (simp add: timegm_def g Let_def)
  also have "\<dots> = t div 86400 * 86400 + s" unfolding Y(1) hms by simp
  finally show "timegm (gmtime t) = t" by (simp add: s_def)
  show "0 \<le> tm_sec (gmtime t)" "tm_sec (gmtime t) < 60" "0 \<le> tm_min (gmtime t)" "tm_min (gmtime t) < 60"
    "0 \<le> tm_hour (gmtime t)" "tm_hour (gmtime t) < 24" "0 \<le> tm_mon (gmtime t)" "tm_mon (gmtime t) < 12" "1 \<le> tm_mday (gmtime t)"
    using s(1,2) M by (simp_all add: g)
  show "tm_mday (gmtime t) \<le> month_days (tm_year (gmtime t) + 1900) (tm_mon (gmtime t))"
  proof (cases "mp = 11")
    case True
    then show ?thesis using Y(3) by (auto simp: g month_days_def month_start_def add.commute[of 1 y])
  next
    case False
    then show ?thesis using month_lengths[of mp] M by (auto simp: g month_days_def split: if_splits)
  qed
qed

subsection \<open>Text\<close>

text \<open>\<open>%0wd\<close> and \<open>%wd\<close>\<close>

definition zero_pad :: "nat \<Rightarrow> int \<Rightarrow> string" where
  "zero_pad w i =
     (let d = dec_nat (nat \<bar>i\<bar>)
      in if i < 0 then CHR ''-'' # replicate (w - 1 - length d) (CHR ''0'') @ d else replicate (w - length d) (CHR ''0'') @ d)"

definition blank_pad :: "nat \<Rightarrow> int \<Rightarrow> string" where
  "blank_pad w i = replicate (w - length (dec_int i)) (CHR '' '') @ dec_int i"

definition second_text :: "tm \<Rightarrow> string" where
  "second_text x = blank_pad 4 (tm_year x + 1900) @ zero_pad 2 (tm_mon x + 1) @ zero_pad 2 (tm_mday x) @ '' ''
     @ zero_pad 2 (tm_hour x) @ '':'' @ zero_pad 2 (tm_min x) @ '':'' @ zero_pad 2 (tm_sec x)"

definition ts_toString :: "int \<Rightarrow> string" where
  "ts_toString t =
     (let seconds = c_div t 1000000; microseconds = c_mod t 1000000
      in snprintf 31 (dec_int seconds @ ''.'' @ zero_pad 6 microseconds))"

definition toFormattedString :: "int \<Rightarrow> string" where
  "toFormattedString t =
     (let seconds = c_div t 1000000; microseconds = c_mod t 1000000; tm_time = gmtime seconds
      in snprintf 32 (second_text tm_time @ ''.'' @ zero_pad 6 microseconds))"

lemma length_zero_pad:
  assumes "0 \<le> i" and "i < 10 ^ w" and "0 < w"
  shows "length (zero_pad w i) = w"
proof -
  have "nat i < 10 ^ w" using assms(1,2) by (simp add: nat_less_iff)
  then have "length (dec_nat (nat i)) \<le> w" using assms(3) by (intro length_to_base) simp_all
  then show ?thesis using assms(1) by (simp add: zero_pad_def Let_def)
qed

lemma of_base_zeros [simp]: "of_base b (replicate k (CHR ''0'') @ s) = of_base b s"
proof -
  have "foldl (\<lambda>n c. n * b + digit_val c) 0 (replicate k (CHR ''0'')) = 0"
    by (induction k) (simp_all add: digit_val_def)
  then show ?thesis by (simp add: of_base_def)
qed

lemma of_zero_pad: "0 \<le> i \<Longrightarrow> int (of_base 10 (zero_pad w i)) = i"
  using of_to_base[of 10 "nat i"] by (simp add: zero_pad_def Let_def)

lemma length_to_base_ge: "2 \<le> b \<Longrightarrow> b ^ k \<le> n \<Longrightarrow> k < length (to_base b n)"
proof (induction k arbitrary: n)
  case (Suc k)
  have "b * 1 \<le> b * b ^ k" using Suc.prems(1) by (intro mult_left_mono) simp_all
  also have "\<dots> \<le> n" using Suc.prems(2) by simp
  finally have n: "\<not> n < b" by simp
  have "b ^ k \<le> n div b" using Suc.prems by (simp add: less_eq_div_iff_mult_less_eq mult.commute)
  then show ?case using Suc.IH Suc.prems(1) n by (simp add: to_base.simps[of b n])
qed (simp add: to_base_nonempty)

lemma four_digits:
  assumes "1000 \<le> y" and "y \<le> 9999"
  shows "blank_pad 4 y = zero_pad 4 y" "length (zero_pad 4 y) = 4"
proof -
  show "length (zero_pad 4 y) = 4" using assms by (intro length_zero_pad) simp_all
  have "3 < length (dec_nat (nat y))" using assms by (intro length_to_base_ge) (simp_all add: le_nat_iff)
  then show "blank_pad 4 y = zero_pad 4 y" using assms by (simp add: blank_pad_def zero_pad_def dec_int_def Let_def)
qed

text \<open>Reading the text back.\<close>

definition num_at :: "nat \<Rightarrow> nat \<Rightarrow> string \<Rightarrow> int" where
  "num_at i n s = int (of_base 10 (take n (drop i s)))"

definition read_formatted :: "string \<Rightarrow> int" where
  "read_formatted s =
     timegm \<lparr>tm_sec = num_at 15 2 s, tm_min = num_at 12 2 s, tm_hour = num_at 9 2 s, tm_mday = num_at 6 2 s,
       tm_mon = num_at 4 2 s - 1, tm_year = num_at 0 4 s - 1900\<rparr> * 1000000 + num_at 18 6 s"

definition read_seconds :: "string \<Rightarrow> int" where
  "read_seconds s =
     (let sec = takeWhile (\<lambda>c. c \<noteq> CHR ''.'') s
      in int (of_base 10 sec) * 1000000 + int (of_base 10 (drop (length sec + 1) s)))"

lemma second_text_parts:
  assumes "1000 \<le> tm_year (gmtime t) + 1900" and "tm_year (gmtime t) + 1900 \<le> 9999"
  shows "second_text (gmtime t) = zero_pad 4 (tm_year (gmtime t) + 1900) @ zero_pad 2 (tm_mon (gmtime t) + 1) @ zero_pad 2 (tm_mday (gmtime t)) @ '' ''
     @ zero_pad 2 (tm_hour (gmtime t)) @ '':'' @ zero_pad 2 (tm_min (gmtime t)) @ '':'' @ zero_pad 2 (tm_sec (gmtime t))"
    and "length (second_text (gmtime t)) = 17"
    and "length (zero_pad 2 (tm_mon (gmtime t) + 1)) = 2" "length (zero_pad 2 (tm_mday (gmtime t))) = 2" "length (zero_pad 2 (tm_hour (gmtime t))) = 2"
      "length (zero_pad 2 (tm_min (gmtime t))) = 2" "length (zero_pad 2 (tm_sec (gmtime t))) = 2"
proof -
  note G = gmtime_is_calendar[of t] and Y = four_digits[OF assms]
  have "month_days y m \<le> 31" for y m by (simp add: month_days_def)
  then have d: "tm_mday (gmtime t) \<le> 31" using G(11) order_trans by blast
  show l: "length (zero_pad 2 (tm_mon (gmtime t) + 1)) = 2" "length (zero_pad 2 (tm_mday (gmtime t))) = 2" "length (zero_pad 2 (tm_hour (gmtime t))) = 2"
      "length (zero_pad 2 (tm_min (gmtime t))) = 2" "length (zero_pad 2 (tm_sec (gmtime t))) = 2"
    by (rule length_zero_pad; use G d in simp)+
  show e: "second_text (gmtime t) = zero_pad 4 (tm_year (gmtime t) + 1900) @ zero_pad 2 (tm_mon (gmtime t) + 1) @ zero_pad 2 (tm_mday (gmtime t)) @ '' ''
     @ zero_pad 2 (tm_hour (gmtime t)) @ '':'' @ zero_pad 2 (tm_min (gmtime t)) @ '':'' @ zero_pad 2 (tm_sec (gmtime t))"
    by (simp add: second_text_def Y(1))
  show "length (second_text (gmtime t)) = 17" unfolding e by (simp add: l Y(2))
qed

text \<open>Property C32. The text of a timestamp determines it: \<open>toFormattedString\<close> is the calendar date and time of day of
  a moment of the years 1000 to 9999 not before the epoch, with microseconds, in 24 characters, and reading it back gives the
  same timestamp; so does reading back the seconds and microseconds of \<open>toString\<close>.\<close>

theorem timestamp_text_roundtrip:
  assumes "0 \<le> t" and "1000 \<le> tm_year (gmtime (t div 1000000)) + 1900" and "tm_year (gmtime (t div 1000000)) + 1900 \<le> 9999" and "t < 2 ^ 63"
  shows "length (toFormattedString t) = 24 \<and> read_formatted (toFormattedString t) = t \<and> read_seconds (ts_toString t) = t"
proof -
  define x where "x = gmtime (t div 1000000)"
  note P = second_text_parts[OF assms(2,3), folded x_def] and Y = four_digits(2)[OF assms(2,3), folded x_def]
    and G = gmtime_is_calendar[of "t div 1000000", folded x_def]
  have m: "length (zero_pad 6 (t mod 1000000)) = 6" by (rule length_zero_pad) simp_all
  have f: "toFormattedString t = second_text x @ ''.'' @ zero_pad 6 (t mod 1000000)"
    using P(2) m assms(1) by (simp add: toFormattedString_def snprintf_def x_def)
  have nonneg: "0 \<le> tm_year x + 1900" "0 \<le> tm_mon x + 1" "0 \<le> tm_mday x" "0 \<le> tm_hour x" "0 \<le> tm_min x" "0 \<le> tm_sec x"
    using G(2,4,6,8,10) assms(2) by (simp_all add: x_def)
  have "num_at 0 4 (toFormattedString t) = tm_year x + 1900" "num_at 4 2 (toFormattedString t) = tm_mon x + 1"
    "num_at 6 2 (toFormattedString t) = tm_mday x" "num_at 9 2 (toFormattedString t) = tm_hour x" "num_at 12 2 (toFormattedString t) = tm_min x"
    "num_at 15 2 (toFormattedString t) = tm_sec x" "num_at 18 6 (toFormattedString t) = t mod 1000000"
    unfolding f P(1) num_at_def using P(3-7) Y m by (simp_all add: of_zero_pad nonneg)
  then have "read_formatted (toFormattedString t) = timegm x * 1000000 + t mod 1000000" by (cases x) (simp add: read_formatted_def)
  also have "\<dots> = t" using G(1) by simp
  finally have 1: "read_formatted (toFormattedString t) = t" .
  have sec: "\<not> t div 1000000 < 0" using assms(1) by (simp add: pos_imp_zdiv_nonneg_iff not_less)
  have "nat (t div 1000000) < 10 ^ 19" using assms(1,4) by simp
  then have l: "length (dec_nat (nat (t div 1000000))) \<le> 19" by (intro length_to_base) simp_all
  have "ts_toString t = dec_nat (nat (t div 1000000)) @ ''.'' @ zero_pad 6 (t mod 1000000)"
    using assms(1) l m sec by (simp add: ts_toString_def snprintf_def dec_int_def Let_def)
  moreover have "takeWhile (\<lambda>c. c \<noteq> CHR ''.'') (dec_nat n @ ''.'' @ s) = dec_nat n" for n s
    using dec_nat_digits[of "CHR ''.''" n] by (subst takeWhile_append2) (auto simp: is_digit_def)
  ultimately have 2: "read_seconds (ts_toString t) = t"
    using of_to_base[of 10 "nat (t div 1000000)"] assms(1) by (simp add: read_seconds_def of_zero_pad pos_imp_zdiv_nonneg_iff)
  show ?thesis using 1 2 P(2) m by (simp add: f)
qed

theorem timestamp_text_roundtrip_witness:
  "toFormattedString 951782400000007 = ''20000229 00:00:00.000007'' \<and> read_formatted (toFormattedString 951782400000007) = 951782400000007"
proof -
  have g: "gmtime 951782400 = \<lparr>tm_sec = 0, tm_min = 0, tm_hour = 0, tm_mday = 29, tm_mon = 1, tm_year = 100\<rparr>" by code_simp
  have "toFormattedString 951782400000007 = ''20000229 00:00:00.000007''" by code_simp
  then show ?thesis using timestamp_text_roundtrip[of 951782400000007] by (simp add: g)
qed

end
