(* ===== verification/Logging.thy ===== *)
theory Logging
  imports Calendar LogStream
begin

text \<open>
  Log statements (\<open>base/Logging.h\<close>, \<open>Logging.cc\<close>, with the thread id text of \<open>CurrentThread.h\<close> and
  \<open>Thread.cc\<close>): a \<open>LOG_\<close> macro tests the level, constructs a \<open>Logger\<close>, streams its items and destroys it,
  which ends the line and hands it to the output function. A thread keeps the text of the last
  second it has logged and of its id. What the system answers to one statement (time, thread id,
  \<open>errno\<close> and its description) is an argument.
\<close>

subsection \<open>Levels and files\<close>

datatype log_level = TRACE | DEBUG | INFO | WARN | ERROR | FATAL

fun level_num :: "log_level \<Rightarrow> nat" where
  "level_num TRACE = 0"
| "level_num DEBUG = 1"
| "level_num INFO = 2"
| "level_num WARN = 3"
| "level_num ERROR = 4"
| "level_num FATAL = 5"

fun LogLevelName :: "log_level \<Rightarrow> string" where
  "LogLevelName TRACE = ''TRACE ''"
| "LogLevelName DEBUG = ''DEBUG ''"
| "LogLevelName INFO = ''INFO  ''"
| "LogLevelName WARN = ''WARN  ''"
| "LogLevelName ERROR = ''ERROR ''"
| "LogLevelName FATAL = ''FATAL ''"

definition initLogLevel :: "(string \<Rightarrow> bool) \<Rightarrow> log_level" where
  "initLogLevel getenv = (if getenv ''MUDUO_LOG_TRACE'' then TRACE else if getenv ''MUDUO_LOG_DEBUG'' then DEBUG else INFO)"

definition strrchr :: "char \<Rightarrow> string \<Rightarrow> nat option" where
  "strrchr c s = (if c \<in> set s then Some (length s - 1 - length (takeWhile (\<lambda>x. x \<noteq> c) (rev s))) else None)"

definition newSourceFile :: "string \<Rightarrow> string" where
  "newSourceFile filename = (case strrchr (CHR ''/'') filename of None \<Rightarrow> filename | Some slash \<Rightarrow> drop (slash + 1) filename)"

subsection \<open>Threads\<close>

record log_thread =
  t_time :: string
  t_lastSecond :: int
  t_cachedTid :: int
  t_tidString :: string

definition newLogThread :: log_thread where
  "newLogThread = \<lparr>t_time = [], t_lastSecond = 0, t_cachedTid = 0, t_tidString = []\<rparr>"

definition cacheTid :: "int \<Rightarrow> log_thread \<Rightarrow> log_thread res" where
  "cacheTid gettid th =
     (if t_cachedTid th = 0
      then let s = blank_pad 5 gettid @ '' ''
           in ensure (length s = 6) ''cacheTid: n == 6'' (Inr (th\<lparr>t_cachedTid := gettid, t_tidString := snprintf 32 s\<rparr>))
      else Inr th)"

text \<open>\<open>stream << T(str, len)\<close>\<close>

definition ls_T :: "string \<Rightarrow> nat \<Rightarrow> fixedbuf \<Rightarrow> fixedbuf res" where
  "ls_T str len b = ensure (length str = len) ''T: strlen(str) == len_'' (fb_append str b)"

definition formatTime :: "int \<Rightarrow> log_thread \<Rightarrow> fixedbuf \<Rightarrow> (log_thread \<times> fixedbuf) res" where
  "formatTime microSecondsSinceEpoch th b =
     (let seconds = c_div microSecondsSinceEpoch 1000000; microseconds = c_mod microSecondsSinceEpoch 1000000
      in bindR (if seconds \<noteq> t_lastSecond th
                then let text = second_text (gmtime seconds)
                     in ensure (length text = 17) ''formatTime: len == 17'' (Inr (th\<lparr>t_lastSecond := seconds, t_time := snprintf 32 text\<rparr>))
                else Inr th) (\<lambda>th1.
         bindR (newFmt (''.'' @ zero_pad 6 microseconds @ ''Z '')) (\<lambda>us.
         ensure (length us = 9) ''formatTime: us.length() == 9''
           (bindR (ls_T (t_time th1) 17 b) (\<lambda>b1.
            bindR (ls_T us 9 b1) (\<lambda>b2. Inr (th1, b2)))))))"

subsection \<open>Loggers\<close>

record logger =
  lgStream :: fixedbuf
  lgLevel :: log_level
  lgLine :: "32 word"
  lgBasename :: string

record log_env =
  evNow :: int
  evTid :: int
  evErrno :: "32 word"
  evStrerror :: "32 word \<Rightarrow> string"
  evGarbage :: string

definition newLogger_Impl :: "log_env \<Rightarrow> log_level \<Rightarrow> 32 word \<Rightarrow> string \<Rightarrow> 32 word \<Rightarrow> log_thread \<Rightarrow> (log_thread \<times> logger) res" where
  "newLogger_Impl env level savedErrno file line th =
     bindR (formatTime (evNow env) th (newFixedBuffer kSmallBuffer (evGarbage env))) (\<lambda>(th1, b1).
     bindR (cacheTid (evTid env) th1) (\<lambda>th2.
     bindR (ls_T (t_tidString th2) 6 b1) (\<lambda>b2.
     bindR (ls_T (LogLevelName level) 6 b2) (\<lambda>b3.
     bindR (if savedErrno \<noteq> 0
            then foldR ls_put [LCStr (evStrerror env savedErrno), LCStr '' (errno='', LInt savedErrno, LCStr '') ''] b3
            else Inr b3) (\<lambda>b4.
     Inr (th2, \<lparr>lgStream = b4, lgLevel = level, lgLine = line, lgBasename = file\<rparr>))))))"

definition logger_put :: "log_item list \<Rightarrow> logger \<Rightarrow> logger res" where
  "logger_put items lg = bindR (foldR ls_put items (lgStream lg)) (\<lambda>b. Inr (lg\<lparr>lgStream := b\<rparr>))"

definition newLogger :: "log_env \<Rightarrow> string \<Rightarrow> 32 word \<Rightarrow> log_thread \<Rightarrow> (log_thread \<times> logger) res" where
  "newLogger env file line th = newLogger_Impl env INFO 0 file line th"

definition newLogger_func :: "log_env \<Rightarrow> string \<Rightarrow> 32 word \<Rightarrow> log_level \<Rightarrow> string \<Rightarrow> log_thread \<Rightarrow> (log_thread \<times> logger) res" where
  "newLogger_func env file line level func th =
     bindR (newLogger_Impl env level 0 file line th) (\<lambda>(th1, lg).
     bindR (logger_put [LCStr func, LChar (CHR '' '')] lg) (\<lambda>lg1. Inr (th1, lg1)))"

definition newLogger_level :: "log_env \<Rightarrow> string \<Rightarrow> 32 word \<Rightarrow> log_level \<Rightarrow> log_thread \<Rightarrow> (log_thread \<times> logger) res" where
  "newLogger_level env file line level th = newLogger_Impl env level 0 file line th"

definition newLogger_abort :: "log_env \<Rightarrow> string \<Rightarrow> 32 word \<Rightarrow> bool \<Rightarrow> log_thread \<Rightarrow> (log_thread \<times> logger) res" where
  "newLogger_abort env file line toAbort th = newLogger_Impl env (if toAbort then FATAL else ERROR) (evErrno env) file line th"

text \<open>The process as its output sees it: the lines handed to \<open>g_output\<close>, how many of them were flushed by
  \<open>g_flush\<close>, and whether \<open>abort()\<close> has ended it.\<close>

record log_sink =
  skOut :: "string list"
  skFlushed :: nat
  skAborted :: bool

definition logger_finish :: "logger \<Rightarrow> logger res" where
  "logger_finish lg = logger_put [LCStr '' - '', LString (lgBasename lg), LChar (CHR '':''), LInt (lgLine lg), LChar (CHR 0x0A)] lg"

definition destroyLogger :: "logger \<Rightarrow> log_sink \<Rightarrow> log_sink res" where
  "destroyLogger lg sk =
     bindR (logger_finish lg) (\<lambda>lg1.
     let sk1 = sk\<lparr>skOut := skOut sk @ [asString (lgStream lg1)]\<rparr>
     in Inr (if lgLevel lg1 = FATAL then sk1\<lparr>skFlushed := length (skOut sk1), skAborted := True\<rparr> else sk1))"

subsection \<open>Statements\<close>

datatype log_macro = LOG_TRACE | LOG_DEBUG | LOG_INFO | LOG_WARN | LOG_ERROR | LOG_FATAL | LOG_SYSERR | LOG_SYSFATAL

record log_stmt =
  lsMacro :: log_macro
  lsFile :: string
  lsLine :: "32 word"
  lsFunc :: string
  lsItems :: "log_item list"
  lsEnv :: log_env

text \<open>The macros' conditions. The comment line inside \<open>LOG_TRACE\<close> ends its continuation, which leaves the header ill-formed as committed
  (\<open>Logging.h:122\<close>); the model reads the macro as it stands without the comment.\<close>

fun log_enabled :: "log_level \<Rightarrow> log_macro \<Rightarrow> bool" where
  "log_enabled l LOG_TRACE \<longleftrightarrow> level_num l \<le> level_num TRACE"
| "log_enabled l LOG_DEBUG \<longleftrightarrow> level_num l \<le> level_num DEBUG"
| "log_enabled l LOG_INFO \<longleftrightarrow> level_num l \<le> level_num INFO"
| "log_enabled l _ \<longleftrightarrow> True"

fun log_construct :: "log_macro \<Rightarrow> log_env \<Rightarrow> string \<Rightarrow> 32 word \<Rightarrow> string \<Rightarrow> log_thread \<Rightarrow> (log_thread \<times> logger) res" where
  "log_construct LOG_TRACE env file line func = newLogger_func env file line TRACE func"
| "log_construct LOG_DEBUG env file line func = newLogger_func env file line DEBUG func"
| "log_construct LOG_INFO env file line func = newLogger env file line"
| "log_construct LOG_WARN env file line func = newLogger_level env file line WARN"
| "log_construct LOG_ERROR env file line func = newLogger_level env file line ERROR"
| "log_construct LOG_FATAL env file line func = newLogger_level env file line FATAL"
| "log_construct LOG_SYSERR env file line func = newLogger_abort env file line False"
| "log_construct LOG_SYSFATAL env file line func = newLogger_abort env file line True"

definition log_do :: "log_level \<Rightarrow> log_stmt \<Rightarrow> log_thread \<times> log_sink \<Rightarrow> (log_thread \<times> log_sink) res" where
  "log_do g_logLevel st s =
     (case s of (th, sk) \<Rightarrow>
        if skAborted sk \<or> \<not> log_enabled g_logLevel (lsMacro st) then Inr (th, sk)
        else
          bindR (log_construct (lsMacro st) (lsEnv st) (newSourceFile (lsFile st)) (lsLine st) (lsFunc st) th) (\<lambda>(th1, lg).
          bindR (logger_put (lsItems st) lg) (\<lambda>lg1.
          bindR (destroyLogger lg1 sk) (\<lambda>sk1. Inr (th1, sk1)))))"

subsection \<open>The line of a statement\<close>

fun macro_level :: "log_macro \<Rightarrow> log_level" where
  "macro_level LOG_TRACE = TRACE"
| "macro_level LOG_DEBUG = DEBUG"
| "macro_level LOG_INFO = INFO"
| "macro_level LOG_WARN = WARN"
| "macro_level LOG_ERROR = ERROR"
| "macro_level LOG_FATAL = FATAL"
| "macro_level LOG_SYSERR = ERROR"
| "macro_level LOG_SYSFATAL = FATAL"

definition saved_errno :: "log_stmt \<Rightarrow> 32 word" where
  "saved_errno st = (if lsMacro st \<in> {LOG_SYSERR, LOG_SYSFATAL} then evErrno (lsEnv st) else 0)"

definition head_items :: "log_env \<Rightarrow> log_level \<Rightarrow> 32 word \<Rightarrow> log_item list" where
  "head_items env level err =
     [LString (second_text (gmtime (evNow env div 1000000))), LString (''.'' @ zero_pad 6 (evNow env mod 1000000) @ ''Z ''),
      LString (blank_pad 5 (evTid env) @ '' ''), LString (LogLevelName level)]
     @ (if err \<noteq> 0 then [LCStr (evStrerror env err), LCStr '' (errno='', LInt err, LCStr '') ''] else [])"

definition line_items :: "log_stmt \<Rightarrow> log_item list" where
  "line_items st = head_items (lsEnv st) (macro_level (lsMacro st)) (saved_errno st)
     @ (if lsMacro st \<in> {LOG_TRACE, LOG_DEBUG} then [LCStr (lsFunc st), LChar (CHR '' '')] else [])
     @ lsItems st
     @ [LCStr '' - '', LString (newSourceFile (lsFile st)), LChar (CHR '':''), LInt (lsLine st), LChar (CHR 0x0A)]"

text \<open>A stream of 4000 bytes takes each item whole or not at all.\<close>

definition log_line :: "log_stmt \<Rightarrow> string" where
  "log_line st = foldl (put_whole kSmallBuffer) [] (line_items st)"

definition stmt_ok :: "int \<Rightarrow> log_stmt \<Rightarrow> bool" where
  "stmt_ok tid st \<longleftrightarrow> evTid (lsEnv st) = tid \<and> 1000000 \<le> evNow (lsEnv st)
     \<and> 1000 \<le> tm_year (gmtime (evNow (lsEnv st) div 1000000)) + 1900 \<and> tm_year (gmtime (evNow (lsEnv st) div 1000000)) + 1900 \<le> 9999
     \<and> (\<forall>it \<in> set (lsItems st). item_ok it)"

definition thread_ok :: "int \<Rightarrow> log_thread \<Rightarrow> bool" where
  "thread_ok tid th \<longleftrightarrow> (t_lastSecond th \<noteq> 0 \<longrightarrow> t_time th = second_text (gmtime (t_lastSecond th)) \<and> length (t_time th) = 17)
     \<and> (t_cachedTid th \<noteq> 0 \<longrightarrow> t_cachedTid th = tid \<and> t_tidString th = blank_pad 5 tid @ '' '')"

lemma ls_T_string: "length s = n \<Longrightarrow> ls_T s n b = ls_put (LString s) b"
  by (simp add: ls_T_def ls_string_def)

lemma length_tid_text:
  assumes "0 < tid" and "tid < 100000"
  shows "length (blank_pad 5 tid @ '' '') = 6"
proof -
  have "nat tid < 10 ^ 5" using assms by simp
  then have "length (dec_nat (nat tid)) \<le> 5" by (intro length_to_base) simp_all
  then show ?thesis using assms(1) by (simp add: blank_pad_def dec_int_def)
qed

lemma formatTime_puts:
  assumes "thread_ok tid th" and "1000000 \<le> t" and "1000 \<le> tm_year (gmtime (t div 1000000)) + 1900" and "tm_year (gmtime (t div 1000000)) + 1900 \<le> 9999"
  obtains th' where "thread_ok tid th'" "\<And>b. formatTime t th b
    = bindR (foldR ls_put [LString (second_text (gmtime (t div 1000000))), LString (''.'' @ zero_pad 6 (t mod 1000000) @ ''Z '')] b) (\<lambda>b'. Inr (th', b'))"
proof -
  let ?s = "t div 1000000" and ?us = "''.'' @ zero_pad 6 (t mod 1000000) @ ''Z ''"
  let ?th = "if ?s \<noteq> t_lastSecond th then th\<lparr>t_lastSecond := ?s, t_time := second_text (gmtime ?s)\<rparr> else th"
  have l: "length (second_text (gmtime ?s)) = 17" by (rule second_text_parts(2)[OF assms(3,4)])
  have m: "length (zero_pad 6 (t mod 1000000)) = 6" by (rule length_zero_pad) simp_all
  have cd: "c_div t 1000000 = ?s" "c_mod t 1000000 = t mod 1000000" using assms(2) by simp_all
  have ok: "thread_ok tid ?th" using assms(1) l by (auto simp: thread_ok_def)
  have "1 \<le> ?s" using assms(2) by linarith
  then have tx: "t_time ?th = second_text (gmtime ?s)" using assms(1) by (auto simp: thread_ok_def)
  have "formatTime t th b = bindR (ls_T (t_time ?th) 17 b) (\<lambda>b1. bindR (ls_T ?us 9 b1) (\<lambda>b2. Inr (?th, b2)))" for b
    using l m unfolding formatTime_def cd Let_def by (simp add: newFmt_def snprintf_def)
  then have "formatTime t th b = bindR (foldR ls_put [LString (second_text (gmtime ?s)), LString ?us] b) (\<lambda>b'. Inr (?th, b'))" for b
    using l m by (simp add: tx ls_T_string bindR_assoc)
  then show ?thesis using that[OF ok] by blast
qed

lemma cacheTid_ok:
  assumes "thread_ok tid th" and "0 < tid" and "tid < 100000"
  obtains th' where "thread_ok tid th'" "cacheTid tid th = Inr th'" "t_tidString th' = blank_pad 5 tid @ '' ''"
proof (cases "t_cachedTid th = 0")
  case True
  let ?th = "th\<lparr>t_cachedTid := tid, t_tidString := blank_pad 5 tid @ '' ''\<rparr>"
  have "cacheTid tid th = Inr ?th" using True length_tid_text[OF assms(2,3)] by (simp add: cacheTid_def snprintf_def)
  moreover have "thread_ok tid ?th" using assms(1) by (auto simp: thread_ok_def)
  ultimately show ?thesis using that[of ?th] by simp
next
  case False
  then show ?thesis using assms(1) by (intro that[of th]) (auto simp: thread_ok_def cacheTid_def)
qed

lemma newLogger_puts:
  assumes "thread_ok (evTid env) th" and "0 < evTid env" and "evTid env < 100000" and "1000000 \<le> evNow env"
    and "1000 \<le> tm_year (gmtime (evNow env div 1000000)) + 1900" and "tm_year (gmtime (evNow env div 1000000)) + 1900 \<le> 9999"
  obtains th' where "thread_ok (evTid env) th'" "\<And>level err file line. newLogger_Impl env level err file line th
    = bindR (foldR ls_put (head_items env level err) (newFixedBuffer kSmallBuffer (evGarbage env)))
        (\<lambda>b. Inr (th', \<lparr>lgStream = b, lgLevel = level, lgLine = line, lgBasename = file\<rparr>))"
proof -
  obtain th1 where th1: "thread_ok (evTid env) th1" and f: "\<And>b. formatTime (evNow env) th b
    = bindR (foldR ls_put [LString (second_text (gmtime (evNow env div 1000000))), LString (''.'' @ zero_pad 6 (evNow env mod 1000000) @ ''Z '')] b)
        (\<lambda>b'. Inr (th1, b'))"
    by (rule formatTime_puts[OF assms(1,4-6)]) blast
  obtain th2 where th2: "thread_ok (evTid env) th2" "cacheTid (evTid env) th1 = Inr th2" "t_tidString th2 = blank_pad 5 (evTid env) @ '' ''"
    by (rule cacheTid_ok[OF th1 assms(2,3)]) blast
  have l: "length (LogLevelName level) = 6" for level by (cases level) simp_all
  have "newLogger_Impl env level err fl line th
    = bindR (foldR ls_put (head_items env level err) (newFixedBuffer kSmallBuffer (evGarbage env)))
        (\<lambda>b. Inr (th2, \<lparr>lgStream = b, lgLevel = level, lgLine = line, lgBasename = fl\<rparr>))" for level err fl line
    using th2(2,3) length_tid_text[OF assms(2,3)] l[of level]
    unfolding newLogger_Impl_def f head_items_def
    by (simp only: bindR_assoc bindR_Inr split_conv ls_T_string foldR.simps foldR_append append.simps) (simp add: bindR_assoc)
  then show ?thesis using that[OF th2(1)] by blast
qed

definition emit :: "log_stmt \<Rightarrow> log_sink \<Rightarrow> string \<Rightarrow> log_sink" where
  "emit st sk line =
     (let sk1 = sk\<lparr>skOut := skOut sk @ [line]\<rparr>
      in if macro_level (lsMacro st) = FATAL then sk1\<lparr>skFlushed := length (skOut sk1), skAborted := True\<rparr> else sk1)"

lemma log_do_puts:
  assumes "thread_ok tid th" and "0 < tid" and "tid < 100000" and "stmt_ok tid st" and "\<not> skAborted sk" and "log_enabled lvl (lsMacro st)"
  obtains th' where "thread_ok tid th'" "log_do lvl st (th, sk)
    = bindR (foldR ls_put (line_items st) (newFixedBuffer kSmallBuffer (evGarbage (lsEnv st)))) (\<lambda>b. Inr (th', emit st sk (asString b)))"
proof -
  have s: "evTid (lsEnv st) = tid" "1000000 \<le> evNow (lsEnv st)" "1000 \<le> tm_year (gmtime (evNow (lsEnv st) div 1000000)) + 1900"
    "tm_year (gmtime (evNow (lsEnv st) div 1000000)) + 1900 \<le> 9999"
    using assms(4) by (auto simp: stmt_ok_def)
  obtain th' where th': "thread_ok tid th'" and n: "\<And>level err fl line. newLogger_Impl (lsEnv st) level err fl line th
    = bindR (foldR ls_put (head_items (lsEnv st) level err) (newFixedBuffer kSmallBuffer (evGarbage (lsEnv st))))
        (\<lambda>b. Inr (th', \<lparr>lgStream = b, lgLevel = level, lgLine = line, lgBasename = fl\<rparr>))"
    by (rule newLogger_puts[of "lsEnv st" th]) (use assms(1-3) s in auto)
  have "log_construct (lsMacro st) (lsEnv st) fl (lsLine st) (lsFunc st) th
    = bindR (foldR ls_put (head_items (lsEnv st) (macro_level (lsMacro st)) (saved_errno st)
        @ (if lsMacro st \<in> {LOG_TRACE, LOG_DEBUG} then [LCStr (lsFunc st), LChar (CHR '' '')] else []))
        (newFixedBuffer kSmallBuffer (evGarbage (lsEnv st))))
      (\<lambda>b. Inr (th', \<lparr>lgStream = b, lgLevel = macro_level (lsMacro st), lgLine = lsLine st, lgBasename = fl\<rparr>))" for fl
    by (cases "lsMacro st") (simp_all add: n newLogger_def newLogger_func_def newLogger_level_def newLogger_abort_def saved_errno_def logger_put_def
        bindR_assoc foldR_append)
  then have "log_do lvl st (th, sk)
    = bindR (foldR ls_put (line_items st) (newFixedBuffer kSmallBuffer (evGarbage (lsEnv st)))) (\<lambda>b. Inr (th', emit st sk (asString b)))"
    using assms(5,6) unfolding log_do_def line_items_def append_assoc[symmetric] foldR_append[where xs = "_ @ lsItems st"]
    by (simp add: bindR_assoc foldR_append logger_put_def destroyLogger_def logger_finish_def emit_def Let_def del: append_assoc cong: if_cong)
  with th' show ?thesis using that by blast
qed

lemma line_items_ok: "stmt_ok tid st \<Longrightarrow> it \<in> set (line_items st) \<Longrightarrow> item_ok it"
  by (auto simp: line_items_def head_items_def stmt_ok_def split: if_splits)

lemma log_do_line:
  assumes "thread_ok tid th" and "0 < tid" and "tid < 100000" and "stmt_ok tid st" and "\<not> skAborted sk" and "log_enabled lvl (lsMacro st)"
  obtains th' where "thread_ok tid th'" "log_do lvl st (th, sk) = Inr (th', emit st sk (log_line st))"
proof -
  obtain th' where th': "thread_ok tid th'" and d: "log_do lvl st (th, sk)
    = bindR (foldR ls_put (line_items st) (newFixedBuffer kSmallBuffer (evGarbage (lsEnv st)))) (\<lambda>b. Inr (th', emit st sk (asString b)))"
    by (rule log_do_puts[OF assms]) blast
  have "wrote kSmallBuffer [] (newFixedBuffer kSmallBuffer (evGarbage (lsEnv st)))" by (rule newFixedBuffer_wrote) (simp add: kSmallBuffer_def)
  from ls_puts_wrote[OF this, of "line_items st"] line_items_ok[OF assms(4)]
  obtain b where "foldR ls_put (line_items st) (newFixedBuffer kSmallBuffer (evGarbage (lsEnv st))) = Inr b" "asString b = log_line st"
    by (cases "foldR ls_put (line_items st) (newFixedBuffer kSmallBuffer (evGarbage (lsEnv st)))") (auto simp: wrote_def log_line_def)
  then show ?thesis using that[OF th'] d by simp
qed

subsection \<open>Properties\<close>

text \<open>A line whose text leaves room for a number is complete.\<close>

lemma put_whole_fits:
  assumes "length line + length (concat (map item_text items)) + 32 \<le> cap"
  shows "foldl (put_whole cap) line items = line @ concat (map item_text items)"
  using assms
proof (induction items arbitrary: line)
  case (Cons it items)
  then have "put_whole cap line it = line @ item_text it" by (simp add: put_whole_def)
  then show ?case using Cons.IH[of "line @ item_text it"] Cons.prems by simp
qed simp

text \<open>What statements should do: the lines of those that are enabled, in order, up to the first fatal one.\<close>

fun log_spec :: "log_level \<Rightarrow> log_stmt list \<Rightarrow> log_sink \<Rightarrow> log_sink" where
  "log_spec lvl [] sk = sk"
| "log_spec lvl (st # sts) sk =
     (if skAborted sk \<or> \<not> log_enabled lvl (lsMacro st) then log_spec lvl sts sk else log_spec lvl sts (emit st sk (log_line st)))"

lemma log_run:
  assumes "0 < tid" and "tid < 100000" and "\<forall>st \<in> set sts. stmt_ok tid st" and "thread_ok tid th"
  shows "\<exists>th'. foldR (log_do lvl) sts (th, sk) = Inr (th', log_spec lvl sts sk)"
  using assms(3,4)
proof (induction sts arbitrary: th sk)
  case (Cons st sts)
  show ?case
  proof (cases "skAborted sk \<or> \<not> log_enabled lvl (lsMacro st)")
    case True
    then have "log_do lvl st (th, sk) = Inr (th, sk)" by (auto simp: log_do_def)
    then show ?thesis using Cons True by simp
  next
    case False
    obtain th' where th': "thread_ok tid th'" "log_do lvl st (th, sk) = Inr (th', emit st sk (log_line st))"
      by (rule log_do_line[OF Cons.prems(2) assms(1,2), of st sk lvl]) (use Cons.prems(1) False in auto)
    then show ?thesis using Cons.IH[OF _ th'(1)] Cons.prems(1) False by simp
  qed
qed simp

text \<open>Property C31. A thread whose id is positive and has at most five digits logs statements in any number and order, at times from one second after the epoch to the end of the
  year 9999 (the year has four digits), with items that are within their formatting buffers (a formatted item is shorter than 32 characters). Then no
  assertion of the logger fires and each enabled statement gives exactly one line: time with microseconds, thread
  id, level, description of \<open>errno\<close>, function, message, file and line number, each item whole or not at all, and all of them with the
  end of line when the text leaves 32 of the 4000 bytes. The cached text of the second and of the thread id is always that of the
  statement's own. The first fatal statement still gives its line, flushes, and ends the process.\<close>

theorem log_lines_exact:
  assumes "0 < tid" and "tid < 100000" and "\<forall>st \<in> set sts. stmt_ok tid st"
  shows "(\<exists>th. foldR (log_do lvl) sts (newLogThread, sk) = Inr (th, log_spec lvl sts sk))
    \<and> (\<forall>st \<in> set sts. length (concat (map item_text (line_items st))) + 32 \<le> 4000 \<longrightarrow> log_line st = concat (map item_text (line_items st)))"
  using log_run[OF assms, of newLogThread lvl sk] put_whole_fits[of "[]" "line_items _" kSmallBuffer]
  by (auto simp: thread_ok_def newLogThread_def log_line_def kSmallBuffer_def)

definition demo_stmt :: "log_macro \<Rightarrow> log_stmt" where
  "demo_stmt m = \<lparr>lsMacro = m, lsFile = ''net/a.cc'', lsLine = 7, lsFunc = ''f'', lsItems = [LCStr ''x''],
     lsEnv = \<lparr>evNow = 951782400000007, evTid = 42, evErrno = 2, evStrerror = (\<lambda>_. ''no file''), evGarbage = []\<rparr>\<rparr>"

theorem log_lines_exact_witness:
  "\<exists>th. foldR (log_do INFO) [demo_stmt LOG_DEBUG, demo_stmt LOG_SYSFATAL, demo_stmt LOG_INFO] (newLogThread, \<lparr>skOut = [], skFlushed = 0, skAborted = False\<rparr>)
     = Inr (th, \<lparr>skOut = [''20000229 00:00:00.000007Z    42 FATAL no file (errno=2) x - a.cc:7'' @ [CHR 0x0A]], skFlushed = 1, skAborted = True\<rparr>)"
proof -
  have ok: "stmt_ok 42 (demo_stmt m)" for m
  proof -
    have g: "gmtime 951782400 = \<lparr>tm_sec = 0, tm_min = 0, tm_hour = 0, tm_mday = 29, tm_mon = 1, tm_year = 100\<rparr>" by code_simp
    show ?thesis by (simp add: stmt_ok_def demo_stmt_def g)
  qed
  have l: "concat (map item_text (line_items (demo_stmt LOG_SYSFATAL)))
    = ''20000229 00:00:00.000007Z    42 FATAL no file (errno=2) x - a.cc:7'' @ [CHR 0x0A]" by code_simp
  have sts: "\<forall>st \<in> set [demo_stmt LOG_DEBUG, demo_stmt LOG_SYSFATAL, demo_stmt LOG_INFO]. stmt_ok 42 st" using ok by simp
  have line: "log_line (demo_stmt LOG_SYSFATAL) = ''20000229 00:00:00.000007Z    42 FATAL no file (errno=2) x - a.cc:7'' @ [CHR 0x0A]"
    using log_lines_exact[OF _ _ sts] l by simp
  have m: "lsMacro (demo_stmt m) = m" for m by (simp add: demo_stmt_def)
  from log_lines_exact[OF _ _ sts, of INFO "\<lparr>skOut = [], skFlushed = 0, skAborted = False\<rparr>"]
  show ?thesis by (simp add: m emit_def line)
qed

text \<open>A message that fills the line up leaves no room for its end: file, line number and the end of line are lost.\<close>

lemma long_message_loses_line_end:
  assumes "stmt_ok tid st" and "0 < tid" and "tid < 100000" and "lsMacro st = LOG_INFO" and "lsItems st = [LString (replicate 3961 (CHR ''x''))]"
  shows "last (log_line st) = CHR ''x''"
proof -
  let ?h = "concat (map item_text (head_items (lsEnv st) INFO 0))"
  have "length (second_text (gmtime (evNow (lsEnv st) div 1000000))) = 17" using assms(1) by (auto simp: stmt_ok_def intro: second_text_parts)
  moreover have "length (zero_pad 6 (evNow (lsEnv st) mod 1000000)) = 6" by (rule length_zero_pad) simp_all
  moreover have "length (blank_pad 5 (evTid (lsEnv st)) @ '' '') = 6" using length_tid_text[OF assms(2,3)] assms(1) by (simp add: stmt_ok_def)
  ultimately have h: "length ?h = 38" by (simp add: head_items_def)
  then have "foldl (put_whole 4000) [] (head_items (lsEnv st) INFO 0) = ?h" using put_whole_fits[of "[]" "head_items (lsEnv st) INFO 0" 4000] by simp
  then have "log_line st = foldl (put_whole 4000) (put_whole 4000 ?h (LString (replicate 3961 (CHR ''x''))))
      [LCStr '' - '', LString (newSourceFile (lsFile st)), LChar (CHR '':''), LInt (lsLine st), LChar (CHR 0x0A)]"
    using assms(4,5) by (simp add: log_line_def line_items_def saved_errno_def kSmallBuffer_def)
  also have "put_whole 4000 ?h (LString (replicate 3961 (CHR ''x''))) = ?h @ replicate 3961 (CHR ''x'')" using h by (simp add: put_whole_def)
  finally have 1: "log_line st = foldl (put_whole 4000) (?h @ replicate 3961 (CHR ''x''))
      [LCStr '' - '', LString (newSourceFile (lsFile st)), LChar (CHR '':''), LInt (lsLine st), LChar (CHR 0x0A)]" .
  have skip: "put_whole 4000 (?h @ replicate 3961 (CHR ''x'')) it = ?h @ replicate 3961 (CHR ''x'')" if "item_text it \<noteq> []" for it
    using that h by (simp add: put_whole_def)
  have "put_whole 4000 (?h @ replicate 3961 (CHR ''x'')) it = ?h @ replicate 3961 (CHR ''x'')" for it
    using skip[of it] by (cases "item_text it = []") (auto simp: put_whole_def)
  then have "log_line st = ?h @ replicate 3961 (CHR ''x'')" unfolding 1 by simp
  then show ?thesis by (simp add: last_append)
qed

text \<open>In the first second after the epoch the text of the second is never made.\<close>

lemma first_second_asserts:
  assumes "0 \<le> t" and "t < 1000000"
  shows "formatTime t newLogThread b = Inl (AssertFailed ''T: strlen(str) == len_'')"
proof -
  have "length (zero_pad 6 t) = 6" using assms by (intro length_zero_pad) simp_all
  then show ?thesis using assms by (simp add: formatTime_def newLogThread_def newFmt_def snprintf_def ls_T_def)
qed

end
