(* ===== verification/StringPiece.thy ===== *)
theory StringPiece
  imports StdText
begin

text \<open>
  Pieces of strings (\<open>base/StringPiece.h\<close>): a pointer into somebody else's characters and a length. A
  pointer is the object it points into with an offset, or null; reading outside the object is a
  \<open>BadAccess\<close>. The order the comparison operators compute is the lexicographic order of the characters.
\<close>

subsection \<open>Definitions\<close>

record string_piece =
  spPtr :: "(string \<times> nat) option"
  spLength :: int

text \<open>\<open>memcmp\<close> compares bytes as \<open>unsigned char\<close>. A negative \<open>int\<close> becomes a huge \<open>size_t\<close>.\<close>

fun byte_compare :: "string \<Rightarrow> string \<Rightarrow> int" where
  "byte_compare (x # xs) (y # ys) = (if x < y then -1 else if y < x then 1 else byte_compare xs ys)"
| "byte_compare _ _ = 0"

definition sp_bytes :: "(string \<times> nat) option \<Rightarrow> int \<Rightarrow> string res" where
  "sp_bytes p n =
     (if n = 0 then Inr []
      else case p of
             None \<Rightarrow> Inl (BadAccess ''StringPiece: null pointer'')
           | Some (obj, off) \<Rightarrow>
               if 0 < n \<and> off + nat n \<le> length obj then Inr (take (nat n) (drop off obj))
               else Inl (BadAccess ''StringPiece: out of range''))"

definition c_memcmp :: "(string \<times> nat) option \<Rightarrow> (string \<times> nat) option \<Rightarrow> int \<Rightarrow> int res" where
  "c_memcmp p q n = bindR (sp_bytes p n) (\<lambda>a. bindR (sp_bytes q n) (\<lambda>b. Inr (byte_compare a b)))"

definition newStringPiece :: string_piece where
  "newStringPiece = \<lparr>spPtr = None, spLength = 0\<rparr>"

definition newStringPiece_cstr :: "string \<Rightarrow> string_piece" where
  "newStringPiece_cstr str = \<lparr>spPtr = Some (str, 0), spLength = int32_of_size (length (takeWhile (\<lambda>c. c \<noteq> CHR 0x00) str))\<rparr>"

definition newStringPiece_string :: "string \<Rightarrow> string_piece" where
  "newStringPiece_string str = \<lparr>spPtr = Some (str, 0), spLength = int32_of_size (length str)\<rparr>"

definition newStringPiece_len :: "(string \<times> nat) option \<Rightarrow> int \<Rightarrow> string_piece" where
  "newStringPiece_len offset len = \<lparr>spPtr = offset, spLength = len\<rparr>"

definition sp_empty :: "string_piece \<Rightarrow> bool" where
  "sp_empty x \<longleftrightarrow> spLength x = 0"

definition sp_clear :: "string_piece \<Rightarrow> string_piece" where
  "sp_clear x = x\<lparr>spPtr := None, spLength := 0\<rparr>"

definition sp_set :: "(string \<times> nat) option \<Rightarrow> int \<Rightarrow> string_piece \<Rightarrow> string_piece" where
  "sp_set buffer len x = x\<lparr>spPtr := buffer, spLength := len\<rparr>"

definition sp_nth :: "string_piece \<Rightarrow> int \<Rightarrow> char res" where
  "sp_nth x i =
     (case spPtr x of
        None \<Rightarrow> Inl (BadAccess ''StringPiece: null pointer'')
      | Some (obj, off) \<Rightarrow>
          if 0 \<le> int off + i \<and> int off + i < int (length obj) then Inr (obj ! nat (int off + i))
          else Inl (BadAccess ''StringPiece: out of range''))"

definition remove_prefix :: "int \<Rightarrow> string_piece \<Rightarrow> string_piece res" where
  "remove_prefix n x =
     bindR (case spPtr x of
              None \<Rightarrow> if n = 0 then Inr None else Inl (BadAccess ''StringPiece: null pointer'')
            | Some (obj, off) \<Rightarrow>
                if 0 \<le> int off + n \<and> int off + n \<le> int (length obj) then Inr (Some (obj, nat (int off + n)))
                else Inl (BadAccess ''StringPiece: out of range''))
       (\<lambda>p. Inr (x\<lparr>spPtr := p, spLength := spLength x - n\<rparr>))"

definition remove_suffix :: "int \<Rightarrow> string_piece \<Rightarrow> string_piece" where
  "remove_suffix n x = x\<lparr>spLength := spLength x - n\<rparr>"

definition sp_eq :: "string_piece \<Rightarrow> string_piece \<Rightarrow> bool res" where
  "sp_eq x y =
     (if spLength x = spLength y then bindR (c_memcmp (spPtr x) (spPtr y) (spLength x)) (\<lambda>r. Inr (r = 0)) else Inr False)"

definition sp_noteq :: "string_piece \<Rightarrow> string_piece \<Rightarrow> bool res" where
  "sp_noteq x y = bindR (sp_eq x y) (\<lambda>b. Inr (\<not> b))"

text \<open>\<open>STRINGPIECE_BINARY_PREDICATE(cmp, auxcmp)\<close> and its four uses.\<close>

definition binary_predicate :: "(int \<Rightarrow> int \<Rightarrow> bool) \<Rightarrow> (int \<Rightarrow> int \<Rightarrow> bool) \<Rightarrow> string_piece \<Rightarrow> string_piece \<Rightarrow> bool res" where
  "binary_predicate cmp auxcmp x y =
     bindR (c_memcmp (spPtr x) (spPtr y) (if spLength x < spLength y then spLength x else spLength y))
       (\<lambda>r. Inr (auxcmp r 0 \<or> (r = 0 \<and> cmp (spLength x) (spLength y))))"

definition sp_less :: "string_piece \<Rightarrow> string_piece \<Rightarrow> bool res" where
  "sp_less = binary_predicate (<) (<)"

definition sp_less_eq :: "string_piece \<Rightarrow> string_piece \<Rightarrow> bool res" where
  "sp_less_eq = binary_predicate (\<le>) (<)"

definition sp_greater_eq :: "string_piece \<Rightarrow> string_piece \<Rightarrow> bool res" where
  "sp_greater_eq = binary_predicate (\<ge>) (>)"

definition sp_greater :: "string_piece \<Rightarrow> string_piece \<Rightarrow> bool res" where
  "sp_greater = binary_predicate (>) (>)"

definition sp_compare :: "string_piece \<Rightarrow> string_piece \<Rightarrow> int res" where
  "sp_compare x y =
     bindR (c_memcmp (spPtr x) (spPtr y) (if spLength x < spLength y then spLength x else spLength y))
       (\<lambda>r. Inr (if r = 0 then (if spLength x < spLength y then -1 else if spLength x > spLength y then 1 else r) else r))"

definition as_string :: "string_piece \<Rightarrow> string res" where
  "as_string x = sp_bytes (spPtr x) (spLength x)"

definition CopyToString :: "string_piece \<Rightarrow> string \<Rightarrow> string res" where
  "CopyToString x target = sp_bytes (spPtr x) (spLength x)"

definition starts_with :: "string_piece \<Rightarrow> string_piece \<Rightarrow> bool res" where
  "starts_with x y =
     (if spLength x \<ge> spLength y then bindR (c_memcmp (spPtr x) (spPtr y) (spLength y)) (\<lambda>r. Inr (r = 0)) else Inr False)"

subsection \<open>The text of a piece\<close>

definition sp_wf :: "string_piece \<Rightarrow> bool" where
  "sp_wf x \<longleftrightarrow> (case spPtr x of None \<Rightarrow> spLength x = 0 | Some (obj, off) \<Rightarrow> 0 \<le> spLength x \<and> int off + spLength x \<le> int (length obj))"

definition sp_text :: "string_piece \<Rightarrow> string" where
  "sp_text x = (case spPtr x of None \<Rightarrow> [] | Some (obj, off) \<Rightarrow> take (nat (spLength x)) (drop off obj))"

lemma sp_bytes_text:
  assumes "sp_wf x" and "0 \<le> n" and "n \<le> spLength x"
  shows "sp_bytes (spPtr x) n = Inr (take (nat n) (sp_text x))"
proof -
  have "off + nat n \<le> length obj" if "int off + spLength x \<le> int (length obj)" for off and obj :: string using assms(2,3) that by linarith
  then show ?thesis using assms by (auto simp: sp_bytes_def sp_wf_def sp_text_def min_def split: option.splits prod.splits)
qed

lemma length_sp_text: "sp_wf x \<Longrightarrow> spLength x = int (length (sp_text x))"
  by (auto simp: sp_wf_def sp_text_def split: option.splits prod.splits)

lemma c_memcmp_text:
  assumes "sp_wf x" and "sp_wf y" and "0 \<le> n" and "n \<le> spLength x" and "n \<le> spLength y"
  shows "c_memcmp (spPtr x) (spPtr y) n = Inr (byte_compare (take (nat n) (sp_text x)) (take (nat n) (sp_text y)))"
  using sp_bytes_text[OF assms(1,3,4)] sp_bytes_text[OF assms(2,3,5)] by (simp add: c_memcmp_def)

text \<open>Comparing the common length and then the lengths is the lexicographic order.\<close>

lemma byte_compare_lex:
  fixes a b :: string
  defines "r \<equiv> byte_compare (take (min (length a) (length b)) a) (take (min (length a) (length b)) b)"
  shows "r < 0 \<or> r = 0 \<and> length a < length b \<longleftrightarrow> a < b" "r > 0 \<or> r = 0 \<and> length a > length b \<longleftrightarrow> b < a"
    "r = 0 \<and> length a = length b \<longleftrightarrow> a = b"
  unfolding r_def
proof (induction a b rule: list_induct2')
  case (4 x xs y ys)
  { case 1 then show ?case using "4.IH" by (cases x y rule: linorder_cases) auto }
  { case 2 then show ?case using "4.IH" by (cases x y rule: linorder_cases) auto }
  { case 3 then show ?case using "4.IH" by (cases x y rule: linorder_cases) auto }
qed auto

lemma byte_compare_range: "byte_compare a b \<in> {-1, 0, 1}"
  by (induction a b rule: byte_compare.induct) auto

lemma common_compare:
  assumes "sp_wf x" and "sp_wf y"
  shows "c_memcmp (spPtr x) (spPtr y) (if spLength x < spLength y then spLength x else spLength y)
    = Inr (byte_compare (take (min (length (sp_text x)) (length (sp_text y))) (sp_text x)) (take (min (length (sp_text x)) (length (sp_text y))) (sp_text y)))"
  using c_memcmp_text[OF assms, of "if spLength x < spLength y then spLength x else spLength y"] length_sp_text[OF assms(1)] length_sp_text[OF assms(2)]
  by (simp add: min_def split: if_splits)

text \<open>On pieces that lie within their objects no operation reads outside them, \<open>as_string\<close> gives the characters of the
  piece, the six comparison operators and \<open>compare\<close> are the lexicographic order of the characters as unsigned bytes, a
  proper prefix coming first, and \<open>starts_with\<close> is the prefix relation; removing a prefix or a suffix removes it.\<close>

theorem string_piece_order:
  assumes "sp_wf x" and "sp_wf y" and "0 \<le> n" and "n \<le> spLength x"
  shows "as_string x = Inr (sp_text x)
    \<and> sp_eq x y = Inr (sp_text x = sp_text y) \<and> sp_noteq x y = Inr (sp_text x \<noteq> sp_text y)
    \<and> sp_less x y = Inr (sp_text x < sp_text y) \<and> sp_less_eq x y = Inr (sp_text x \<le> sp_text y)
    \<and> sp_greater_eq x y = Inr (sp_text y \<le> sp_text x) \<and> sp_greater x y = Inr (sp_text y < sp_text x)
    \<and> sp_compare x y = Inr (if sp_text x < sp_text y then -1 else if sp_text x = sp_text y then 0 else 1)
    \<and> starts_with x y = Inr (\<exists>rest. sp_text x = sp_text y @ rest)
    \<and> (\<exists>x'. remove_prefix n x = Inr x' \<and> sp_wf x' \<and> sp_text x' = drop (nat n) (sp_text x))
    \<and> sp_wf (remove_suffix n x) \<and> sp_text (remove_suffix n x) = take (length (sp_text x) - nat n) (sp_text x)"
proof (intro conjI)
  let ?a = "sp_text x" and ?b = "sp_text y"
  note L = length_sp_text[OF assms(1)] length_sp_text[OF assms(2)] and C = common_compare[OF assms(1,2)] and B = byte_compare_lex[of ?a ?b]
  define r where "r = byte_compare (take (min (length ?a) (length ?b)) ?a) (take (min (length ?a) (length ?b)) ?b)"
  note B = B[folded r_def] and C = C[folded r_def]
  show "as_string x = Inr ?a" using sp_bytes_text[OF assms(1), of "spLength x"] L(1) by (simp add: as_string_def)
  show eq: "sp_eq x y = Inr (?a = ?b)"
    using C L B(3) by (auto simp: sp_eq_def)
  then show "sp_noteq x y = Inr (?a \<noteq> ?b)" by (simp add: sp_noteq_def)
  show "sp_less x y = Inr (?a < ?b)" "sp_greater x y = Inr (?b < ?a)"
    unfolding sp_less_def sp_greater_def binary_predicate_def C bindR_Inr using B(1,2) L by simp_all
  have list_le_iff: "?a \<le> ?b \<longleftrightarrow> ?a < ?b \<or> ?a = ?b" "?b \<le> ?a \<longleftrightarrow> ?b < ?a \<or> ?a = ?b" by (auto simp: le_less)
  have "r < 0 \<or> r = 0 \<and> length ?a \<le> length ?b \<longleftrightarrow> ?a \<le> ?b"
    unfolding list_le_iff B(1)[symmetric] B(3)[symmetric] by linarith
  moreover have "r > 0 \<or> r = 0 \<and> length ?a \<ge> length ?b \<longleftrightarrow> ?b \<le> ?a"
    unfolding list_le_iff B(2)[symmetric] B(3)[symmetric] by linarith
  ultimately show "sp_less_eq x y = Inr (?a \<le> ?b)" "sp_greater_eq x y = Inr (?b \<le> ?a)"
    unfolding sp_less_eq_def sp_greater_eq_def binary_predicate_def C bindR_Inr using L by simp_all
  have "r \<in> {-1, 0, 1}" unfolding r_def by (rule byte_compare_range)
  then have rr: "r = -1 \<or> r = 0 \<or> r = 1" by simp
  have c: "sp_compare x y = Inr (if r = 0 then (if length ?a < length ?b then -1 else if length ?a > length ?b then 1 else 0) else r)"
    unfolding sp_compare_def C bindR_Inr by (simp add: L)
  show "sp_compare x y = Inr (if ?a < ?b then -1 else if ?a = ?b then 0 else 1)"
  proof (cases ?a ?b rule: linorder_cases)
    case less
    then have "r = -1 \<or> r = 0 \<and> length ?a < length ?b" using B(1) rr by auto
    then show ?thesis unfolding c using less by auto
  next
    case equal
    then have "r = 0 \<and> length ?a = length ?b" using B(3) by auto
    then show ?thesis unfolding c using equal by simp
  next
    case greater
    then have "r = 1 \<or> r = 0 \<and> length ?a > length ?b" using B(2) rr by auto
    then show ?thesis unfolding c using greater by auto
  qed
  show "starts_with x y = Inr (\<exists>rest. ?a = ?b @ rest)"
  proof (cases "spLength y \<le> spLength x")
    case True
    then have l: "length ?b \<le> length ?a" using L by simp
    have "c_memcmp (spPtr x) (spPtr y) (spLength y) = Inr (byte_compare (take (length ?b) ?a) ?b)"
      using c_memcmp_text[OF assms(1,2) _ True] L by simp
    moreover have "byte_compare (take (length ?b) ?a) ?b = 0 \<longleftrightarrow> take (length ?b) ?a = ?b"
      using byte_compare_lex(3)[of "take (length ?b) ?a" ?b] l by simp
    moreover have "take (length ?b) ?a = ?b \<longleftrightarrow> (\<exists>rest. ?a = ?b @ rest)" by (metis append_eq_conv_conj append_take_drop_id)
    ultimately show ?thesis using True by (simp add: starts_with_def)
  next
    case False
    then have "\<not> (\<exists>rest. ?a = ?b @ rest)" using L by auto
    then show ?thesis using False by (simp add: starts_with_def)
  qed
  show "\<exists>x'. remove_prefix n x = Inr x' \<and> sp_wf x' \<and> sp_text x' = drop (nat n) ?a"
    using assms by (auto simp: remove_prefix_def sp_wf_def sp_text_def drop_take nat_diff_distrib nat_add_distrib add.commute split: option.splits)
  show "sp_wf (remove_suffix n x)" using assms by (auto simp: remove_suffix_def sp_wf_def split: option.splits)
  have n: "length ?a - nat n = nat (spLength x - n)" using L(1) assms(3) by (simp add: nat_diff_distrib)
  show "sp_text (remove_suffix n x) = take (length ?a - nat n) ?a"
    unfolding n using assms(3) by (auto simp: remove_suffix_def sp_text_def min_def split: option.splits)
qed

theorem string_piece_order_witness:
  "sp_wf \<lparr>spPtr = Some (''xabcd'', 1), spLength = 2\<rparr> \<and> sp_wf (newStringPiece_string ''abz'')
   \<and> sp_less \<lparr>spPtr = Some (''xabcd'', 1), spLength = 2\<rparr> (newStringPiece_string ''abz'') = Inr True
   \<and> starts_with (newStringPiece_string ''abz'') \<lparr>spPtr = Some (''xabcd'', 1), spLength = 2\<rparr> = Inr True"
proof -
  let ?x = "\<lparr>spPtr = Some (''xabcd'', 1), spLength = 2\<rparr>" and ?y = "newStringPiece_string ''abz''"
  have wf: "sp_wf ?x" "sp_wf ?y" by code_simp+
  have t: "sp_text ?x = ''ab''" "sp_text ?y = ''abz''" by code_simp+
  have "''ab'' < ''abz''" by (simp add: less_char_def)
  then show ?thesis using string_piece_order[OF wf, of 0] string_piece_order[OF wf(2,1), of 0] wf t by (simp add: newStringPiece_string_def int32_of_size_small)
qed

end
