(* ===== verification/FastCgi.thy ===== *)
theory FastCgi
  imports Framing StdText
begin

unbundle bit_operations_syntax

text \<open>
  The FastCGI codec (\<open>examples/fastcgi/fastcgi.h\<close>, \<open>fastcgi.cc\<close>): a stream of records, each an eight byte
  header, content and padding, carries one request at a time: its start, its parameters as a stream of
  length-prefixed pairs, and its input. The request is handed to a callback when the input ends. The
  callback is the log of its calls; it may change what it is given, which the codec clears afterwards.
\<close>

subsection \<open>State\<close>

definition kRecordHeader :: nat where "kRecordHeader = 8"

definition kFcgiBeginRequest :: nat where "kFcgiBeginRequest = 1"
definition kFcgiEndRequest :: nat where "kFcgiEndRequest = 3"
definition kFcgiParams :: nat where "kFcgiParams = 4"
definition kFcgiStdin :: nat where "kFcgiStdin = 5"
definition kFcgiStdout :: nat where "kFcgiStdout = 6"
definition kFcgiResponder :: nat where "kFcgiResponder = 1"
definition kFcgiKeepConn :: nat where "kFcgiKeepConn = 1"

lemmas fcgi_consts = kRecordHeader_def kFcgiBeginRequest_def kFcgiEndRequest_def kFcgiParams_def kFcgiStdin_def kFcgiStdout_def
  kFcgiResponder_def kFcgiKeepConn_def

record fcgi_codec =
  fcGotRequest :: bool
  fcKeepConn :: bool
  fcStdin :: netbuf
  fcParamsStream :: netbuf
  fcParams :: "(string \<times> string) list"
  fcCalls :: "((string \<times> string) list \<times> char list) list"
  fcShut :: nat

definition newFastCgiCodec :: fcgi_codec where
  "newFastCgiCodec = \<lparr>fcGotRequest = False, fcKeepConn = False, fcStdin = newBuffer, fcParamsStream = newBuffer, fcParams = [],
     fcCalls = [], fcShut = 0\<rparr>"

subsection \<open>Parameters\<close>

definition fcgi_readLen :: "netbuf \<Rightarrow> (32 word \<times> netbuf) res" where
  "fcgi_readLen ps =
     (if readableBytes ps \<ge> 1 then
        bindR (peekInt8 ps) (\<lambda>byte.
        if byte AND 0x80 \<noteq> 0 then
          (if readableBytes ps \<ge> 4 then bindR (NetBuffer.readInt32 ps) (\<lambda>(v, ps'). Inr (v AND 0x7fffffff, ps')) else Inr (- 1, ps))
        else bindR (NetBuffer.readInt8 ps) (\<lambda>(v, ps'). Inr (scast v, ps')))
      else Inr (- 1, ps))"

lemma readableBytes_retrieveAsString:
  "retrieveAsString b n = Inr (s, b') \<Longrightarrow> readableBytes b' = readableBytes b - n"
  by (auto simp: retrieveAsString_def ensure_def bindR_eq_Inr Let_def dest!: readableBytes_retrieve split: if_splits)

lemma fcgi_readLen_shrinks:
  assumes "fcgi_readLen ps = Inr (v, ps')" and "v \<noteq> - 1"
  shows "readableBytes ps' < readableBytes ps"
  using assms by (auto simp: fcgi_readLen_def NetBuffer.readInt32_def NetBuffer.readInt8_def retrieveInt32_def retrieveInt8_def bindR_eq_Inr
      dest!: readableBytes_retrieve split: if_splits)

function parseAllParams :: "fcgi_codec \<Rightarrow> (bool \<times> fcgi_codec) res" where
  "parseAllParams fc =
     (if readableBytes (fcParamsStream fc) > 0 then
        bindR (fcgi_readLen (fcParamsStream fc)) (\<lambda>(nameLen, ps1).
        if nameLen = - 1 then Inr (False, fc\<lparr>fcParamsStream := ps1\<rparr>)
        else bindR (fcgi_readLen ps1) (\<lambda>(valueLen, ps2).
        if valueLen = - 1 then Inr (False, fc\<lparr>fcParamsStream := ps2\<rparr>)
        else if readableBytes ps2 \<ge> unat (nameLen + valueLen) then
          bindR (retrieveAsString ps2 (unat nameLen)) (\<lambda>(name, ps3).
          bindR (retrieveAsString ps3 (unat valueLen)) (\<lambda>(v, ps4).
          parseAllParams (fc\<lparr>fcParamsStream := ps4, fcParams := std_map_put name v (fcParams fc)\<rparr>)))
        else Inr (False, fc\<lparr>fcParamsStream := ps2\<rparr>)))
      else Inr (True, fc))"
  by pat_completeness auto
termination
  by (relation "measure (\<lambda>fc. readableBytes (fcParamsStream fc))")
     (auto dest!: fcgi_readLen_shrinks readableBytes_retrieveAsString)

declare parseAllParams.simps [simp del]

definition onParams :: "char list \<Rightarrow> fcgi_codec \<Rightarrow> (bool \<times> fcgi_codec) res" where
  "onParams content fc =
     (if length content > 0 then bindR (bufAppend (fcParamsStream fc) content) (\<lambda>b. Inr (True, fc\<lparr>fcParamsStream := b\<rparr>))
      else parseAllParams fc)"

definition onStdin :: "char list \<Rightarrow> fcgi_codec \<Rightarrow> fcgi_codec res" where
  "onStdin content fc =
     (if length content > 0 then bindR (bufAppend (fcStdin fc) content) (\<lambda>b. Inr (fc\<lparr>fcStdin := b\<rparr>))
      else Inr (fc\<lparr>fcGotRequest := True\<rparr>))"

subsection \<open>Records\<close>

definition be16 :: "char list \<Rightarrow> nat" where
  "be16 p = unat (networkToHost16 (load_le (take 2 p)))"

record fcgi_header =
  fhType :: nat
  fhId :: nat
  fhLength :: nat
  fhPadding :: nat

definition read_header :: "char list \<Rightarrow> fcgi_header" where
  "read_header h = \<lparr>fhType = of_char (h ! 1), fhId = be16 (drop 2 h), fhLength = be16 (drop 4 h), fhPadding = of_char (h ! 6)\<rparr>"

definition onBeginRequest :: "fcgi_header \<Rightarrow> netbuf \<Rightarrow> fcgi_codec \<Rightarrow> (bool \<times> fcgi_codec) res" where
  "onBeginRequest header buf fc =
     ensure (readableBytes buf \<ge> fhLength header) ''onBeginRequest: readableBytes() >= header.length''
    (ensure (fhType header = kFcgiBeginRequest) ''onBeginRequest: header.type''
      (if fhLength header \<ge> kRecordHeader then
         let role = be16 (range_at buf (peek buf + kRecordHeader) (peek buf + kRecordHeader + 2));
             flags = of_char (range_at buf (peek buf + kRecordHeader + 2) (peek buf + kRecordHeader + 3) ! 0)
         in if role = kFcgiResponder then Inr (True, fc\<lparr>fcKeepConn := (flags = kFcgiKeepConn)\<rparr>) else Inr (False, fc)
       else Inr (False, fc)))"

definition onRecord :: "fcgi_header \<Rightarrow> netbuf \<Rightarrow> fcgi_codec \<Rightarrow> fcgi_codec res" where
  "onRecord header buf fc =
     (let content = range_at buf (peek buf + kRecordHeader) (peek buf + kRecordHeader + fhLength header)
      in if fhType header = kFcgiBeginRequest then bindR (onBeginRequest header buf fc) (\<lambda>(ok, fc'). Inr fc')
         else if fhType header = kFcgiParams then bindR (onParams content fc) (\<lambda>(ok, fc'). Inr fc')
         else if fhType header = kFcgiStdin then onStdin content fc
         else Inr fc)"

function fcgi_parseRequest :: "netbuf \<Rightarrow> fcgi_codec \<Rightarrow> (fcgi_codec \<times> netbuf) res" where
  "fcgi_parseRequest buf fc =
     (if readableBytes buf \<ge> kRecordHeader then
        let header = read_header (range_at buf (peek buf) (peek buf + kRecordHeader));
            total = kRecordHeader + fhLength header + fhPadding header
        in if readableBytes buf \<ge> total
           then bindR (onRecord header buf fc) (\<lambda>fc1.
                bindR (NetBuffer.retrieve buf total) (\<lambda>buf1. fcgi_parseRequest buf1 fc1))
           else Inr (fc, buf)
      else Inr (fc, buf))"
  by pat_completeness auto
termination
  by (relation "measure (\<lambda>(buf, fc). readableBytes buf)") (auto dest!: readableBytes_retrieve simp: kRecordHeader_def)

declare fcgi_parseRequest.simps [simp del]

definition fcgi_finish :: "fcgi_codec \<Rightarrow> fcgi_codec" where
  "fcgi_finish fc =
     (if fcGotRequest fc
      then fc\<lparr>fcCalls := fcCalls fc @ [(fcParams fc, readable (fcStdin fc))], fcStdin := retrieveAll (fcStdin fc),
              fcParamsStream := retrieveAll (fcParamsStream fc), fcParams := [], fcGotRequest := False,
              fcShut := fcShut fc + (if fcKeepConn fc then 0 else 1)\<rparr>
      else fc)"

definition fcgi_onMessage :: "netbuf \<Rightarrow> fcgi_codec \<Rightarrow> (fcgi_codec \<times> netbuf) res" where
  "fcgi_onMessage buf fc = bindR (fcgi_parseRequest buf fc) (\<lambda>(fc1, buf1). Inr (fcgi_finish fc1, buf1))"

subsection \<open>Responses\<close>

definition record_header :: "nat \<Rightarrow> nat \<Rightarrow> nat \<Rightarrow> char list" where
  "record_header type len padding =
     [CHR 0x01, char_of type] @ store_le 2 (hostToNetwork16 1) @ store_le 2 (hostToNetwork16 (word_of_nat len)) @ [char_of padding, CHR 0x00]"

definition endStdout :: "netbuf \<Rightarrow> netbuf res" where
  "endStdout buf = bufAppend buf (record_header kFcgiStdout 0 0)"

definition endRequest :: "netbuf \<Rightarrow> netbuf res" where
  "endRequest buf =
     bindR (bufAppend buf (record_header kFcgiEndRequest kRecordHeader 0)) (\<lambda>b1.
     bindR (appendInt32 b1 0) (\<lambda>b2. appendInt32 b2 0))"

text \<open>\<open>-readableBytes() & 7\<close> in \<open>size_t\<close>\<close>

definition fcgi_padding :: "nat \<Rightarrow> nat" where
  "fcgi_padding n = unat ((- (word_of_nat n :: 64 word)) AND 7)"

definition fcgi_respond :: "netbuf \<Rightarrow> netbuf res" where
  "fcgi_respond response =
     bindR (if readableBytes response < 65536 \<and> prependableBytes response \<ge> kRecordHeader
            then let padding = fcgi_padding (readableBytes response)
                 in bindR (prepend response (record_header kFcgiStdout (readableBytes response) padding)) (\<lambda>b1.
                    bufAppend b1 (replicate padding (CHR 0x00)))
            else Inr response) (\<lambda>b2.
     bindR (endStdout b2) endRequest)"

subsection \<open>Records as frames\<close>

type_synonym fcgi_record = "nat \<times> char list \<times> char list"

definition fcgi_next :: "char list \<Rightarrow> (fcgi_record, unit) frame" where
  "fcgi_next xs =
     (if length xs < 8 then NeedMore
      else let h = read_header xs; total = 8 + fhLength h + fhPadding h
        in if length xs < total then NeedMore
           else Frame (fhType h, take (fhLength h) (drop 8 xs), take (fhPadding h) (drop (8 + fhLength h) xs)) total)"

lemma be16_take [simp]: "2 \<le> n \<Longrightarrow> be16 (take n xs) = be16 xs"
  by (simp add: be16_def min_def)

lemma read_header_take: "8 \<le> length xs \<Longrightarrow> 8 \<le> n \<Longrightarrow> read_header (take n xs) = read_header xs"
  by (simp add: read_header_def drop_take)

lemma read_header_append: "8 \<le> length xs \<Longrightarrow> read_header (xs @ ys) = read_header xs"
  using read_header_take[of "xs @ ys" "length xs"] by simp

interpretation fcgi: framing fcgi_next
  by unfold_locales (auto simp: fcgi_next_def Let_def read_header_append split: if_splits)

text \<open>What a record does to the codec.\<close>

definition record_do :: "fcgi_record \<Rightarrow> fcgi_codec \<Rightarrow> fcgi_codec res" where
  "record_do m fc =
     (case m of (t, content, padding) \<Rightarrow>
        if t = kFcgiBeginRequest
        then Inr (if 8 \<le> length content \<and> be16 content = kFcgiResponder then fc\<lparr>fcKeepConn := (of_char (content ! 2) = kFcgiKeepConn)\<rparr> else fc)
        else if t = kFcgiParams then bindR (onParams content fc) (\<lambda>(ok, fc'). Inr fc')
        else if t = kFcgiStdin then onStdin content fc
        else Inr fc)"

lemma onRecord_do:
  assumes wf: "buf_wf buf" and len: "8 + fhLength h \<le> length (readable buf)"
  shows "onRecord h buf fc = record_do (fhType h, take (fhLength h) (drop 8 (readable buf)), pad) fc"
proof -
  let ?R = "readable buf"
  have R: "readableBytes buf = length ?R" using wf by simp
  have c: "range_at buf (peek buf + 8) (peek buf + 8 + fhLength h) = take (fhLength h) (drop 8 ?R)"
    using range_at_sub[OF wf, of 8 "8 + fhLength h"] len R by (simp add: drop_take ac_simps)
  have b: "range_at buf (peek buf + kRecordHeader) (peek buf + kRecordHeader + 2) = take 2 (drop 8 ?R)"
      "range_at buf (peek buf + kRecordHeader + 2) (peek buf + kRecordHeader + 3) = take 1 (drop 10 ?R)"
    if "8 \<le> fhLength h"
    using range_at_sub[OF wf, of 8 10] range_at_sub[OF wf, of 10 11] that len R by (simp_all add: drop_take kRecordHeader_def add.commute)
  have "onBeginRequest h buf fc = Inr (8 \<le> fhLength h \<and> be16 (drop 8 ?R) = kFcgiResponder,
      if 8 \<le> fhLength h \<and> be16 (drop 8 ?R) = kFcgiResponder then fc\<lparr>fcKeepConn := (of_char (?R ! 10) = kFcgiKeepConn)\<rparr> else fc)"
    if "fhType h = kFcgiBeginRequest"
  proof (cases "8 \<le> fhLength h")
    case True
    then show ?thesis using that len R unfolding onBeginRequest_def b[OF True] Let_def by (simp add: kRecordHeader_def)
  next
    case False
    then show ?thesis using that len R by (simp add: onBeginRequest_def kRecordHeader_def)
  qed
  moreover have "be16 (take (fhLength h) (drop 8 ?R)) = be16 (drop 8 ?R)" if "8 \<le> fhLength h"
    using that by simp
  ultimately show ?thesis
    using len c by (auto simp: onRecord_def record_do_def kRecordHeader_def Let_def)
qed

lemma parseRequest_frames:
  assumes "buf_wf buf" and "frames fcgi_next (readable buf) = (ms, e, r)"
  shows "\<exists>b'. buf_wf b' \<and> readable b' = r \<and> fcgi_parseRequest buf fc = bindR (foldR record_do ms fc) (\<lambda>fc'. Inr (fc', b'))"
  using assms
proof (induction "readableBytes buf" arbitrary: buf ms fc rule: less_induct)
  case less
  let ?R = "readable buf"
  have R: "readableBytes buf = length ?R" using less.prems(1) by simp
  have hdr: "read_header (range_at buf (peek buf) (peek buf + 8)) = read_header ?R" if "8 \<le> length ?R"
    using that R range_at_peek[OF less.prems(1), of 8] read_header_take[of ?R 8] by simp
  show ?case
  proof (cases ?R rule: fcgi.frames_cases)
    case idle
    then have "fcgi_parseRequest buf fc = Inr (fc, buf)"
      using hdr by (subst fcgi_parseRequest.simps) (auto simp: R fcgi_next_def kRecordHeader_def Let_def split: if_splits)
    with idle less.prems show ?thesis by (intro exI[of _ buf]) auto
  next
    case (bad e')
    then show ?thesis by (auto simp: fcgi_next_def Let_def split: if_splits)
  next
    case (frame m n ms' e' r')
    define h where "h = read_header ?R"
    have f: "8 \<le> length ?R" "8 + fhLength h + fhPadding h \<le> length ?R" "n = 8 + fhLength h + fhPadding h"
        "m = (fhType h, take (fhLength h) (drop 8 ?R), take (fhPadding h) (drop (8 + fhLength h) ?R))"
      using frame(1) by (auto simp: fcgi_next_def h_def Let_def split: if_splits)
    obtain b1 where b1: "NetBuffer.retrieve buf n = Inr b1" "buf_wf b1" "readable b1 = drop n ?R"
      using retrieve_ok[OF less.prems(1), of n] f(2,3) by metis
    have on: "onRecord h buf fc = record_do m fc" using onRecord_do[OF less.prems(1), of h] f(2,4) by simp
    have one: "fcgi_parseRequest buf fc = bindR (record_do m fc) (\<lambda>fc1. fcgi_parseRequest b1 fc1)"
      using f(1-3) b1(1) hdr[OF f(1)] on by (subst fcgi_parseRequest.simps) (simp add: R kRecordHeader_def Let_def h_def[symmetric])
    have smaller: "readableBytes b1 < readableBytes buf" using b1 f R by (simp add: readableBytes_readable)
    have eq: "ms = m # ms'" "e' = e" "r' = r" using frame(4) less.prems(2) by auto
    have IH: "\<exists>b'. buf_wf b' \<and> readable b' = r \<and> fcgi_parseRequest b1 fc1 = bindR (foldR record_do ms' fc1) (\<lambda>fc'. Inr (fc', b'))" for fc1
      using less.hyps[OF smaller b1(2), of ms'] frame(3) b1(3) eq by auto
    show ?thesis using one eq(1) IH by (cases "record_do m fc") auto
  qed
qed

subsection \<open>Parameters on the wire\<close>

text \<open>A length below 128 is one byte, any other four bytes with the top bit set.\<close>

definition enc_len :: "nat \<Rightarrow> char list" where
  "enc_len n = (if n < 128 then [char_of n] else rev (store_le 4 (word_of_nat (2 ^ 31 + n) :: 32 word)))"

definition enc_pair :: "string \<times> string \<Rightarrow> char list" where
  "enc_pair p = enc_len (length (fst p)) @ enc_len (length (snd p)) @ fst p @ snd p"

lemma byte_top: "(w :: 8 word) AND 0x80 \<noteq> 0 \<longleftrightarrow> 128 \<le> unat w"
proof -
  have A: "\<forall>n \<in> set [0..<256]. ((word_of_nat n :: 8 word) AND 0x80 \<noteq> 0) = (128 \<le> n)" by code_simp
  have "unat w \<in> set [0..<256]" using unsigned_less[of w, where 'a = nat] by simp
  from bspec[OF A this] have "((word_of_nat (unat w) :: 8 word) AND 0x80 \<noteq> 0) = (128 \<le> unat w)" .
  then show ?thesis by simp
qed

lemma short_len:
  assumes "n < 128"
  shows "scast (word_of_nat n :: 8 word) = (word_of_nat n :: 32 word)"
proof -
  have "sint (word_of_nat n :: 8 word) = int n"
    using assms by (simp add: signed_of_nat signed_take_bit_int_eq_self)
  then show ?thesis by (simp add: scast_eq)
qed

lemma long_len:
  assumes "n < 2 ^ 31"
  shows "(word_of_nat (2 ^ 31 + n) :: 32 word) AND 0x7fffffff = word_of_nat n"
proof -
  have m: "(0x7fffffff :: 32 word) = mask 31" by (simp add: mask_eq_exp_minus_1)
  have "take_bit 31 (2 ^ 31 + n) = n" using assms by (simp add: take_bit_eq_mod)
  then have "take_bit 31 (word_of_nat (2 ^ 31 + n) :: 32 word) = word_of_nat n" by (simp only: take_bit_of_nat)
  then show ?thesis unfolding m by (simp only: take_bit_eq_mask)
qed

lemma fcgi_readLen_ok:
  assumes wf: "buf_wf b" and r: "readable b = enc_len n @ rest" and n: "n < 2 ^ 31"
  obtains b' where "fcgi_readLen b = Inr (word_of_nat n, b')" "buf_wf b'" "readable b' = rest"
proof (cases "n < 128")
  case True
  then have e: "enc_len n = [char_of n]" by (simp add: enc_len_def)
  have w: "load_le [char_of n] = (word_of_nat n :: 8 word)" using True by (simp add: load_le_def of_char_of)
  have u: "unat (word_of_nat n :: 8 word) = n" using True by (simp add: unat_of_nat take_bit_nat_eq_self)
  have l: "1 \<le> length (readable b)" using r e by simp
  obtain b' where b': "NetBuffer.retrieve b 1 = Inr b'" "buf_wf b'" "readable b' = drop 1 (readable b)"
    using retrieve_ok[OF wf l] by metis
  have p: "peekInt8 b = Inr (word_of_nat n)" using peekInt8_ok[OF wf l] r e w by simp
  have "readableBytes b = Suc (length rest)" using wf r e by (simp add: readableBytes_readable)
  then have "fcgi_readLen b = Inr (word_of_nat n, b')"
    using p b'(1) u True short_len[OF True] by (simp add: fcgi_readLen_def NetBuffer.readInt8_def retrieveInt8_def byte_top)
  then show ?thesis using that b' r e by simp
next
  case False
  let ?w = "word_of_nat (2 ^ 31 + n) :: 32 word"
  have e: "enc_len n = rev (store_le 4 ?w)" using False by (simp add: enc_len_def)
  have uw: "unat ?w = 2 ^ 31 + n" using n by (simp only: unat_of_nat) (simp add: take_bit_nat_eq_self)
  have l: "4 \<le> length (readable b)" using r e by simp
  obtain b' where b': "NetBuffer.readInt32 b = Inr (load_le (rev (take 4 (readable b))), b')" "buf_wf b'" "readable b' = drop 4 (readable b)"
    using readInt32_ok[OF wf l] by metis
  have v: "load_le (rev (take 4 (readable b))) = ?w" using r e by simp
  have "take 1 (readable b) = [char_of (unat ?w div 256 ^ 3)]"
    unfolding r e by (simp add: store_le_def upt_rec)
  then have p: "peekInt8 b = Inr (load_le [char_of (unat ?w div 256 ^ 3)])" using peekInt8_ok[OF wf] l by simp
  have top: "(2 ^ 31 + n) div 256 ^ 3 < 256" "128 \<le> (2 ^ 31 + n) div 256 ^ 3" using n by simp_all
  have "load_le [char_of (unat ?w div 256 ^ 3)] = (word_of_nat ((2 ^ 31 + n) div 256 ^ 3) :: 8 word)"
    using top(1) unfolding uw by (simp add: load_le_def of_char_of)
  moreover have "unat (word_of_nat ((2 ^ 31 + n) div 256 ^ 3) :: 8 word) = (2 ^ 31 + n) div 256 ^ 3"
    using top(1) by (simp add: unat_of_nat take_bit_nat_eq_self)
  ultimately have t: "load_le [char_of (unat ?w div 256 ^ 3)] AND 0x80 \<noteq> (0 :: 8 word)" unfolding byte_top using top(2) by simp
  have "readableBytes b = length (readable b)" using wf by simp
  then have "fcgi_readLen b = Inr (word_of_nat n, b')"
    using p b'(1) l t long_len[OF n] unfolding v by (simp add: fcgi_readLen_def)
  then show ?thesis using that b' r e by simp
qed

lemma word_len:
  shows "n < 2 ^ 32 \<Longrightarrow> unat (word_of_nat n :: 32 word) = n" and "n < 2 ^ 31 \<Longrightarrow> (word_of_nat n :: 32 word) \<noteq> - 1"
proof -
  show u: "unat (word_of_nat n :: 32 word) = n" if "n < 2 ^ 32" for n using that by (simp only: unat_of_nat) (simp add: take_bit_nat_eq_self)
  have "unat (- 1 :: 32 word) = 2 ^ 32 - 1" by (simp add: unsigned_minus_1_eq_mask mask_eq_exp_minus_1)
  then show "(word_of_nat n :: 32 word) \<noteq> - 1" if "n < 2 ^ 31" using u[of n] that by auto
qed

lemma parseAllParams_pairs:
  assumes "buf_wf (fcParamsStream fc)" and "readable (fcParamsStream fc) = concat (map enc_pair ps)"
    and "\<forall>p \<in> set ps. length (fst p) < 2 ^ 31 \<and> length (snd p) < 2 ^ 31"
  obtains b where "parseAllParams fc = Inr (True, fc\<lparr>fcParamsStream := b, fcParams := fold (\<lambda>p. std_map_put (fst p) (snd p)) ps (fcParams fc)\<rparr>)"
    "buf_wf b" "readable b = []"
  using assms
proof (induction ps arbitrary: fc thesis)
  case Nil
  then have "readableBytes (fcParamsStream fc) = 0" by (simp add: readableBytes_readable)
  then have "parseAllParams fc = Inr (True, fc)" by (simp add: parseAllParams.simps[of fc])
  then show ?case using Nil.prems(1)[of "fcParamsStream fc"] Nil.prems(2,3) by simp
next
  case (Cons p ps)
  obtain k v where p: "p = (k, v)" by (metis surj_pair)
  have n: "length k < 2 ^ 31" "length v < 2 ^ 31" using Cons.prems(4) p by auto
  let ?rest = "concat (map enc_pair ps)"
  have r: "readable (fcParamsStream fc) = enc_len (length k) @ enc_len (length v) @ k @ v @ ?rest"
    using Cons.prems(3) p by (simp add: enc_pair_def[of "(k, v)"])
  obtain b1 where b1: "fcgi_readLen (fcParamsStream fc) = Inr (word_of_nat (length k), b1)" "buf_wf b1" "readable b1 = enc_len (length v) @ k @ v @ ?rest"
    using fcgi_readLen_ok[OF Cons.prems(2) r n(1)] by metis
  obtain b2 where b2: "fcgi_readLen b1 = Inr (word_of_nat (length v), b2)" "buf_wf b2" "readable b2 = k @ v @ ?rest"
    using fcgi_readLen_ok[OF b1(2,3) n(2)] by metis
  obtain b3 where b3: "retrieveAsString b2 (length k) = Inr (k, b3)" "buf_wf b3" "readable b3 = v @ ?rest"
    using retrieveAsString_ok[OF b2(2), of "length k"] b2(3) by (metis append_eq_conv_conj le_add1 length_append)
  obtain b4 where b4: "retrieveAsString b3 (length v) = Inr (v, b4)" "buf_wf b4" "readable b4 = ?rest"
    using retrieveAsString_ok[OF b3(2), of "length v"] b3(3) by (metis append_eq_conv_conj le_add1 length_append)
  have u: "unat (word_of_nat (length k) :: 32 word) = length k" "unat (word_of_nat (length v) :: 32 word) = length v"
    "unat (word_of_nat (length k) + word_of_nat (length v) :: 32 word) = length k + length v"
    using n word_len(1)[of "length k"] word_len(1)[of "length v"] word_len(1)[of "length k + length v"] by simp_all
  have ne: "(word_of_nat (length k) :: 32 word) \<noteq> - 1" "(word_of_nat (length v) :: 32 word) \<noteq> - 1"
    using n word_len(2) by simp_all
  have pos: "readableBytes (fcParamsStream fc) > 0" using r Cons.prems(2) by (simp add: readableBytes_readable enc_len_def)
  have room: "length k + length v \<le> readableBytes b2" using b2(2,3) by (simp add: readableBytes_readable)
  let ?fc = "fc\<lparr>fcParamsStream := b4, fcParams := std_map_put k v (fcParams fc)\<rparr>"
  have step: "parseAllParams fc = parseAllParams ?fc"
    using pos b1(1) b2(1) b3(1) b4(1) u ne room by (simp add: parseAllParams.simps[of fc])
  show ?case
    by (rule Cons.IH[of ?fc]) (use Cons.prems(1,4) b4 step p in auto)
qed

subsection \<open>Requests\<close>

definition enc_record :: "fcgi_record \<Rightarrow> char list" where
  "enc_record m = (case m of (t, content, padding) \<Rightarrow> record_header t (length content) (length padding) @ content @ padding)"

definition record_ok :: "fcgi_record \<Rightarrow> bool" where
  "record_ok m \<longleftrightarrow> (case m of (t, content, padding) \<Rightarrow> t < 256 \<and> length content < 65536 \<and> length padding < 256)"

lemma be16_store: "n < 65536 \<Longrightarrow> be16 (store_le 2 (hostToNetwork16 (word_of_nat n)) @ rest) = n"
proof -
  assume n: "n < 65536"
  have "unat (word_of_nat n :: 16 word) = n" using n by (simp only: unat_of_nat) (simp add: take_bit_nat_eq_self)
  then show ?thesis by (simp add: be16_def hostToNetwork16_def networkToHost16_def)
qed

lemma store_two: "\<exists>a b. store_le 2 w = [a, b]"
  by (simp add: store_le_def numeral_2_eq_2)

lemma fcgi_next_enc:
  assumes "record_ok m"
  shows "fcgi_next (enc_record m @ rest) = Frame m (length (enc_record m))"
proof -
  obtain t c p where m: "m = (t, c, p)" by (metis prod_cases3)
  have k: "t < 256" "length c < 65536" "length p < 256" using assms m by (auto simp: record_ok_def)
  have l: "length (record_header t (length c) (length p)) = 8" by (simp add: record_header_def)
  have h: "read_header (record_header t (length c) (length p) @ xs) = \<lparr>fhType = t, fhId = 1, fhLength = length c, fhPadding = length p\<rparr>" for xs
  proof -
    obtain a b where ab: "store_le 2 (hostToNetwork16 1) = [a, b]" using store_two by blast
    obtain d e where de: "store_le 2 (hostToNetwork16 (word_of_nat (length c))) = [d, e]" using store_two by blast
    have "be16 (a # b # ys) = 1" "be16 (d # e # ys) = length c" for ys
      using be16_store[of 1 ys] be16_store[OF k(2), of ys] ab de by simp_all
    then show ?thesis using k unfolding read_header_def record_header_def ab de by (simp add: of_char_of)
  qed
  show ?thesis using l h by (simp add: fcgi_next_def enc_record_def m Let_def)
qed

text \<open>Only the end of the input completes a request.\<close>

definition ends_request :: "fcgi_record \<Rightarrow> bool" where
  "ends_request m \<longleftrightarrow> (case m of (t, content, padding) \<Rightarrow> t = kFcgiStdin \<and> content = [])"

lemma parseAllParams_keeps:
  "parseAllParams fc = Inr (ok, fc') \<Longrightarrow> fcGotRequest fc' = fcGotRequest fc \<and> fcCalls fc' = fcCalls fc"
proof (induction fc rule: parseAllParams.induct)
  case (1 fc)
  consider "\<not> readableBytes (fcParamsStream fc) > 0" | n b1 where "readableBytes (fcParamsStream fc) > 0" "fcgi_readLen (fcParamsStream fc) = Inr (n, b1)"
    using "1.prems"[unfolded parseAllParams.simps[of fc]] by (auto simp: bindR_eq_Inr split: if_split_asm)
  then show ?case
  proof cases
    case 1
    then show ?thesis using "1.prems" by (simp add: parseAllParams.simps[of fc])
  next
    case 2
    note A = this
    show ?thesis
    proof (cases "n = - 1")
      case True
      then show ?thesis using "1.prems" A by (auto simp: parseAllParams.simps[of fc])
    next
      case False
      then obtain m b2 where B: "fcgi_readLen b1 = Inr (m, b2)" using "1.prems" A by (auto simp: parseAllParams.simps[of fc] bindR_eq_Inr)
      show ?thesis
      proof (cases "m = - 1 \<or> \<not> unat (n + m) \<le> readableBytes b2")
        case True
        then show ?thesis using "1.prems" A B False by (auto simp: parseAllParams.simps[of fc] split: if_split_asm)
      next
        case ok: False
        obtain k b3 v b4 where C: "retrieveAsString b2 (unat n) = Inr (k, b3)" "retrieveAsString b3 (unat m) = Inr (v, b4)"
            "parseAllParams (fc\<lparr>fcParamsStream := b4, fcParams := std_map_put k v (fcParams fc)\<rparr>) = Inr (ok, fc')"
          using "1.prems" A B False ok by (auto simp: parseAllParams.simps[of fc] bindR_eq_Inr)
        show ?thesis using "1.IH"[OF A(1,2) _ _ B _ _ _ C(1) _ C(2) _ C(3)] False ok by simp
      qed
    qed
  qed
qed

lemmas parseAllParams_got = parseAllParams_keeps[THEN conjunct1]

lemmas parseAllParams_calls = parseAllParams_keeps[THEN conjunct2]

lemma record_do_got:
  assumes "record_do m fc = Inr fc'" and "\<not> ends_request m"
  shows "fcGotRequest fc' = fcGotRequest fc"
  using assms by (auto simp: record_do_def ends_request_def onParams_def onStdin_def bindR_eq_Inr fcgi_consts dest: parseAllParams_got split: if_splits)

text \<open>Feeding segments of the stream to the codec.\<close>

definition fcgi_feed :: "char list \<Rightarrow> fcgi_codec \<times> netbuf \<Rightarrow> (fcgi_codec \<times> netbuf) res" where
  "fcgi_feed seg s = (case s of (fc, buf) \<Rightarrow> bindR (bufAppend buf seg) (\<lambda>b. fcgi_onMessage b fc))"

definition record_step :: "fcgi_record \<Rightarrow> fcgi_codec \<Rightarrow> fcgi_codec res" where
  "record_step m fc = bindR (record_do m fc) (\<lambda>fc'. Inr (fcgi_finish fc'))"

lemma finish_got [simp]: "\<not> fcGotRequest (fcgi_finish fc)"
  by (simp add: fcgi_finish_def)

lemma finish_idle [simp]: "\<not> fcGotRequest fc \<Longrightarrow> fcgi_finish fc = fc"
  by (simp add: fcgi_finish_def)

lemma batch_steps:
  assumes "\<not> fcGotRequest fc" and "\<forall>m \<in> set (butlast ms). \<not> ends_request m"
  shows "bindR (foldR record_do ms fc) (\<lambda>fc'. Inr (fcgi_finish fc')) = foldR record_step ms fc"
  using assms
proof (induction ms arbitrary: fc)
  case (Cons m ms)
  show ?case
  proof (cases "ms = []")
    case True
    then show ?thesis by (simp add: record_step_def bindR_assoc)
  next
    case False
    then have m: "\<not> ends_request m" and rest: "\<forall>m \<in> set (butlast ms). \<not> ends_request m" using Cons.prems(2) by auto
    show ?thesis
    proof (cases "record_do m fc")
      case (Inr fc1)
      then have "\<not> fcGotRequest fc1" using record_do_got[OF Inr m] Cons.prems(1) by simp
      then show ?thesis using Cons.IH[OF _ rest] Inr by (simp add: record_step_def)
    qed (simp add: record_step_def)
  qed
qed simp

lemma record_steps_got: "foldR record_step ms fc = Inr fc' \<Longrightarrow> \<not> fcGotRequest fc \<Longrightarrow> \<not> fcGotRequest fc'"
proof (induction ms arbitrary: fc)
  case (Cons m ms)
  then obtain fc1 where "record_do m fc = Inr fc1" "foldR record_step ms (fcgi_finish fc1) = Inr fc'"
    by (auto simp: record_step_def[of m] bindR_eq_Inr)
  then show ?case using Cons.IH[of "fcgi_finish fc1"] by simp
qed simp

lemma feed_steps:
  assumes "buf_wf b" and "feed fcgi_next segs (readable b) = (ms, None, r)" and "\<not> fcGotRequest fc"
    and "\<forall>m \<in> set (butlast ms). \<not> ends_request m" and "foldR record_step ms fc = Inr fc'"
  shows "\<exists>b'. foldR fcgi_feed segs (fc, b) = Inr (fc', b') \<and> readable b' = r"
  using assms
proof (induction segs arbitrary: b ms fc)
  case (Cons seg segs)
  obtain b1 where b1: "bufAppend b seg = Inr b1" "buf_wf b1" "readable b1 = readable b @ seg" using bufAppend_ok[OF Cons.prems(1)] by metis
  obtain ms1 e1 r1 where one: "frames fcgi_next (readable b @ seg) = (ms1, e1, r1)" by (metis prod_cases3)
  with Cons.prems(2) have e1: "e1 = None" by (auto split: option.splits)
  obtain ms2 e2 r2 where two: "feed fcgi_next segs r1 = (ms2, e2, r2)" by (metis prod_cases3)
  have whole: "ms = ms1 @ ms2" "e2 = None" "r2 = r" using Cons.prems(2) one e1 two by auto
  obtain b2 where b2: "buf_wf b2" "readable b2 = r1" "fcgi_parseRequest b1 fc = bindR (foldR record_do ms1 fc) (\<lambda>fc'. Inr (fc', b2))"
    using parseRequest_frames[OF b1(2), of ms1 e1 r1 fc] one b1(3) by auto
  have last: "\<forall>m \<in> set (butlast ms1). \<not> ends_request m" "\<forall>m \<in> set (butlast ms2). \<not> ends_request m"
    using Cons.prems(4) whole(1) by (auto simp: butlast_append split: if_splits dest: in_set_butlastD)
  obtain fc1 where fc1: "foldR record_step ms1 fc = Inr fc1" "foldR record_step ms2 fc1 = Inr fc'"
    using Cons.prems(5) whole(1) by (auto simp: foldR_append bindR_eq_Inr)
  have "fcgi_onMessage b1 fc = bindR (bindR (foldR record_do ms1 fc) (\<lambda>fc'. Inr (fcgi_finish fc'))) (\<lambda>fc'. Inr (fc', b2))"
    using b2(3) by (simp add: fcgi_onMessage_def bindR_assoc)
  then have "fcgi_onMessage b1 fc = Inr (fc1, b2)" using batch_steps[OF Cons.prems(3) last(1)] fc1(1) by simp
  then have "fcgi_feed seg (fc, b) = Inr (fc1, b2)" using b1(1) by (simp add: fcgi_feed_def)
  moreover have "\<exists>b'. foldR fcgi_feed segs (fc1, b2) = Inr (fc', b') \<and> readable b' = r"
    by (rule Cons.IH[OF b2(1), of ms2]) (use two whole b2(2) last(2) fc1(2) record_steps_got[OF fc1(1) Cons.prems(3)] in auto)
  ultimately show ?case by auto
qed auto

definition begin_body :: "bool \<Rightarrow> char list" where
  "begin_body keep = [CHR 0x00, CHR 0x01, if keep then CHR 0x01 else CHR 0x00, CHR 0x00, CHR 0x00, CHR 0x00, CHR 0x00, CHR 0x00]"

text \<open>The records of a request: contents and padding of the parameter and input records as the web server cuts them.\<close>

definition request_records :: "bool \<Rightarrow> (char list \<times> char list) list \<Rightarrow> (char list \<times> char list) list \<Rightarrow> fcgi_record list" where
  "request_records keep pcs scs = (kFcgiBeginRequest, begin_body keep, []) # map (Pair kFcgiParams) pcs @ (kFcgiParams, [], [])
     # map (Pair kFcgiStdin) scs @ [(kFcgiStdin, [], [])]"

lemma params_steps:
  assumes "buf_wf (fcParamsStream fc)" and "\<not> fcGotRequest fc" and "\<forall>x \<in> set pcs. fst x \<noteq> []"
  shows "\<exists>b. foldR record_step (map (Pair kFcgiParams) pcs) fc = Inr (fc\<lparr>fcParamsStream := b\<rparr>) \<and> buf_wf b
    \<and> readable b = readable (fcParamsStream fc) @ concat (map fst pcs)"
  using assms
proof (induction pcs arbitrary: fc)
  case Nil
  then show ?case by (intro exI[of _ "fcParamsStream fc"]) simp
next
  case (Cons x pcs)
  obtain c p where x: "x = (c, p)" by (metis surj_pair)
  obtain b where b: "bufAppend (fcParamsStream fc) c = Inr b" "buf_wf b" "readable b = readable (fcParamsStream fc) @ c"
    using bufAppend_ok[OF Cons.prems(1)] by metis
  have "record_step (kFcgiParams, x) fc = Inr (fc\<lparr>fcParamsStream := b\<rparr>)"
    using Cons.prems(2,3) x b(1) by (simp add: record_step_def record_do_def onParams_def fcgi_consts)
  then show ?case using Cons.IH[of "fc\<lparr>fcParamsStream := b\<rparr>"] Cons.prems(2,3) b x by auto
qed

lemma stdin_steps:
  assumes "buf_wf (fcStdin fc)" and "\<not> fcGotRequest fc" and "\<forall>x \<in> set scs. fst x \<noteq> []"
  shows "\<exists>b. foldR record_step (map (Pair kFcgiStdin) scs) fc = Inr (fc\<lparr>fcStdin := b\<rparr>) \<and> buf_wf b
    \<and> readable b = readable (fcStdin fc) @ concat (map fst scs)"
  using assms
proof (induction scs arbitrary: fc)
  case Nil
  then show ?case by (intro exI[of _ "fcStdin fc"]) simp
next
  case (Cons x scs)
  obtain c p where x: "x = (c, p)" by (metis surj_pair)
  obtain b where b: "bufAppend (fcStdin fc) c = Inr b" "buf_wf b" "readable b = readable (fcStdin fc) @ c"
    using bufAppend_ok[OF Cons.prems(1)] by metis
  have "record_step (kFcgiStdin, x) fc = Inr (fc\<lparr>fcStdin := b\<rparr>)"
    using Cons.prems(2,3) x b(1) by (simp add: record_step_def record_do_def onStdin_def fcgi_consts)
  then show ?case using Cons.IH[of "fc\<lparr>fcStdin := b\<rparr>"] Cons.prems(2,3) b x by auto
qed

definition fcgi_idle :: "fcgi_codec \<Rightarrow> bool" where
  "fcgi_idle fc \<longleftrightarrow> \<not> fcGotRequest fc \<and> fcParams fc = [] \<and> buf_wf (fcStdin fc) \<and> readable (fcStdin fc) = []
     \<and> buf_wf (fcParamsStream fc) \<and> readable (fcParamsStream fc) = []"

lemma request_steps:
  assumes idle: "fcgi_idle fc" and ne: "\<forall>x \<in> set pcs. fst x \<noteq> []" "\<forall>x \<in> set scs. fst x \<noteq> []"
    and ps: "concat (map fst pcs) = concat (map enc_pair ps)" "\<forall>p \<in> set ps. length (fst p) < 2 ^ 31 \<and> length (snd p) < 2 ^ 31"
  obtains fc' where "foldR record_step (request_records keep pcs scs) fc = Inr fc'" "fcgi_idle fc'"
    "fcCalls fc' = fcCalls fc @ [(fold (\<lambda>p. std_map_put (fst p) (snd p)) ps [], concat (map fst scs))]"
    "fcShut fc' = fcShut fc + (if keep then 0 else 1)"
proof -
  let ?fc1 = "fc\<lparr>fcKeepConn := keep\<rparr>"
  note I = idle[unfolded fcgi_idle_def]
  have "store_le 2 (hostToNetwork16 (word_of_nat 1)) = [CHR 0x00, CHR 0x01]"
    by (simp only: store_hostToNetwork16) (simp add: store_le_def numeral_2_eq_2 char_of_def bit_0)
  then have "be16 (begin_body keep) = 1" using be16_store[of 1 "drop 2 (begin_body keep)"] by (simp add: begin_body_def)
  then have 1: "record_step (kFcgiBeginRequest, begin_body keep, []) fc = Inr ?fc1"
    using I by (auto simp: record_step_def record_do_def fcgi_consts begin_body_def)
  obtain b where b: "foldR record_step (map (Pair kFcgiParams) pcs) ?fc1 = Inr (?fc1\<lparr>fcParamsStream := b\<rparr>)" "buf_wf b"
      "readable b = concat (map enc_pair ps)"
    using params_steps[of ?fc1 pcs] I ne(1) ps(1) by auto
  let ?fc2 = "?fc1\<lparr>fcParamsStream := b\<rparr>" and ?map = "fold (\<lambda>p. std_map_put (fst p) (snd p)) ps []"
  obtain b' where b': "parseAllParams ?fc2 = Inr (True, ?fc2\<lparr>fcParamsStream := b', fcParams := ?map\<rparr>)" "buf_wf b'" "readable b' = []"
    using parseAllParams_pairs[of ?fc2 ps] b ps(2) I by auto
  let ?fc3 = "?fc2\<lparr>fcParamsStream := b', fcParams := ?map\<rparr>"
  have 3: "record_step (kFcgiParams, [], []) ?fc2 = Inr ?fc3"
    using b'(1) I by (simp add: record_step_def record_do_def onParams_def fcgi_consts)
  obtain d where d: "foldR record_step (map (Pair kFcgiStdin) scs) ?fc3 = Inr (?fc3\<lparr>fcStdin := d\<rparr>)" "buf_wf d" "readable d = concat (map fst scs)"
    using stdin_steps[of ?fc3 scs] I ne(2) by auto
  let ?fc4 = "fcgi_finish (?fc3\<lparr>fcStdin := d, fcGotRequest := True\<rparr>)"
  have 5: "record_step (kFcgiStdin, [], []) (?fc3\<lparr>fcStdin := d\<rparr>) = Inr ?fc4"
    by (simp add: record_step_def record_do_def onStdin_def fcgi_consts)
  have "foldR record_step (request_records keep pcs scs) fc = Inr ?fc4"
    using 1 b(1) 3 d(1) 5 by (simp add: request_records_def foldR_append)
  then show ?thesis
    by (rule that) (use b'(2,3) d(2,3) in \<open>simp_all add: fcgi_finish_def fcgi_idle_def\<close>)
qed

subsection \<open>Properties\<close>

lemma frames_of_records:
  assumes "\<forall>m \<in> set ms. record_ok m"
  shows "frames fcgi_next (concat (map enc_record ms)) = (ms, None, [])"
  by (rule fcgi.frames_encoded) (use assms fcgi_next_enc in \<open>auto simp: fcgi_next_def\<close>)

text \<open>Property C38. A FastCGI request reaches the callback as the web server meant it: however the web server cuts the stream of
  parameters and the input into records and pads them, and however the network cuts the stream of records into
  segments, no assertion fires, the callback is called exactly once, with the map of the parameters and the whole input,
  the connection is kept or shut down as asked, and the codec is ready for the next request.\<close>

theorem fastcgi_request_served:
  assumes "\<forall>x \<in> set pcs \<union> set scs. fst x \<noteq> [] \<and> length (fst x) < 65536 \<and> length (snd x) < 256"
    and "concat (map fst pcs) = concat (map enc_pair ps)" and "\<forall>p \<in> set ps. length (fst p) < 2 ^ 31 \<and> length (snd p) < 2 ^ 31"
    and "concat segs = concat (map enc_record (request_records keep pcs scs))"
  shows "\<exists>fc b. foldR fcgi_feed segs (newFastCgiCodec, newBuffer) = Inr (fc, b) \<and> readable b = [] \<and> fcgi_idle fc
    \<and> fcCalls fc = [(fold (\<lambda>p. std_map_put (fst p) (snd p)) ps [], concat (map fst scs))] \<and> fcShut fc = (if keep then 0 else 1)"
proof -
  let ?rs = "request_records keep pcs scs"
  have idle: "fcgi_idle newFastCgiCodec" by (simp add: fcgi_idle_def newFastCgiCodec_def)
  obtain fc where fc: "foldR record_step ?rs newFastCgiCodec = Inr fc" "fcgi_idle fc"
      "fcCalls fc = [(fold (\<lambda>p. std_map_put (fst p) (snd p)) ps [], concat (map fst scs))]" "fcShut fc = (if keep then 0 else 1)"
    by (rule request_steps[OF idle _ _ assms(2,3), of scs keep]) (use assms(1) in \<open>auto simp: newFastCgiCodec_def\<close>)
  have ok: "\<forall>m \<in> set ?rs. record_ok m"
  proof -
    have "length a < 65536 \<and> length b < 256" if "(a, b) \<in> set pcs \<or> (a, b) \<in> set scs" for a b using assms(1) that by force
    then show ?thesis by (auto simp: request_records_def record_ok_def begin_body_def fcgi_consts)
  qed
  have "frames fcgi_next (concat segs) = (?rs, None, [])" unfolding assms(4) by (rule frames_of_records[OF ok])
  then have f: "feed fcgi_next segs (readable newBuffer) = (?rs, None, [])"
    by (intro fcgi.feed_segments) (simp_all add: frames.simps[of fcgi_next "[]"] fcgi_next_def)
  have "\<forall>m \<in> set (butlast ?rs). \<not> ends_request m"
  proof -
    have "([], b) \<notin> set scs" for b using assms(1) by force
    then show ?thesis by (auto simp: request_records_def ends_request_def butlast_append fcgi_consts)
  qed
  from feed_steps[OF newBuffer_wf f _ this fc(1)] fc(2-4) show ?thesis by (auto simp: newFastCgiCodec_def)
qed

theorem fastcgi_request_served_witness:
  "\<exists>fc b. foldR fcgi_feed [concat (map enc_record (request_records True [(enc_pair (''A'', ''xy''), ''..'')] [(''in'', []), (''put'', [])]))]
       (newFastCgiCodec, newBuffer) = Inr (fc, b) \<and> fcCalls fc = [([(''A'', ''xy'')], ''input'')] \<and> fcShut fc = 0"
proof -
  have e: "enc_pair (''A'', ''xy'') = [CHR 0x01, CHR 0x02] @ ''Axy''" by code_simp
  let ?pcs = "[(enc_pair (''A'', ''xy''), ''..'')]" and ?scs = "[(''in'', []), (''put'', [])]" and ?ps = "[(''A'', ''xy'')]"
  let ?segs = "[concat (map enc_record (request_records True ?pcs ?scs))]"
  have "\<forall>x \<in> set ?pcs \<union> set ?scs. fst x \<noteq> [] \<and> length (fst x) < 65536 \<and> length (snd x) < 256" by (simp add: e)
  from fastcgi_request_served[OF this, of ?ps ?segs True] obtain fc b where
    "foldR fcgi_feed ?segs (newFastCgiCodec, newBuffer) = Inr (fc, b)"
    "fcCalls fc = [(fold (\<lambda>p. std_map_put (fst p) (snd p)) ?ps [], concat (map fst ?scs))]" "fcShut fc = (if True then 0 else 1)"
    by force
  then show ?thesis by (intro exI conjI) (assumption | simp)+
qed

lemma fcgi_padding_eq: "fcgi_padding n = (8 - n mod 8) mod 8"
proof -
  have m: "(7 :: 64 word) = mask 3" by (simp add: mask_eq_exp_minus_1)
  have "uint (- (word_of_nat n :: 64 word)) = (- (int n mod 2 ^ 64)) mod 2 ^ 64"
    by (simp add: uint_word_ariths(4) unsigned_of_nat take_bit_eq_mod zmod_int)
  then have "uint (- (word_of_nat n :: 64 word)) mod 8 = (- int n) mod 8"
    by (simp add: mod_mod_cancel mod_minus_eq)
  moreover have "uint (take_bit 3 (- (word_of_nat n :: 64 word))) = uint (- (word_of_nat n :: 64 word)) mod 8"
    by (simp only: unsigned_take_bit_eq) (simp add: take_bit_eq_mod)
  ultimately have "int (fcgi_padding n) = (- int n) mod 8"
    by (simp add: fcgi_padding_def m take_bit_eq_mask[symmetric])
  also have "(- int n) mod 8 = int ((8 - n mod 8) mod 8)"
  proof -
    have "n mod 8 < 8" "(- int n) mod 8 = (- int (n mod 8)) mod 8" by (simp_all add: zmod_int mod_minus_eq)
    then show ?thesis by (cases "n mod 8 = 0") (auto simp: of_nat_diff zmod_zminus1_eq_if)
  qed
  finally show ?thesis by simp
qed

lemma padded: "8 dvd n + fcgi_padding n"
proof (cases "n mod 8 = 0")
  case False
  have "n + (8 - n mod 8) = 8 * (n div 8) + 8" using div_mult_mod_eq[of n 8] mod_less_divisor[of 8 n] by linarith
  then show ?thesis using False by (simp add: fcgi_padding_eq)
qed (simp add: fcgi_padding_eq mod_eq_0_iff_dvd)

text \<open>A response is a well-formed stream of records: one output record with exactly the bytes of the response, padded to a
  multiple of eight, the end of the output, and the end of the request; its length is a multiple of eight.\<close>

theorem fastcgi_response_records:
  assumes "buf_wf buf" and "length (readable buf) < 65536" and "8 \<le> prependableBytes buf"
  shows "\<exists>b pad. fcgi_respond buf = Inr b \<and> length pad < 8 \<and> 8 dvd length (readable b)
    \<and> frames fcgi_next (readable b) = ([(kFcgiStdout, readable buf, pad), (kFcgiStdout, [], []), (kFcgiEndRequest, replicate 8 (CHR 0x00), [])], None, [])"
proof -
  let ?R = "readable buf" and ?p = "fcgi_padding (length (readable buf))"
  let ?pad = "replicate ?p (CHR 0x00)"
  have R: "readableBytes buf = length ?R" using assms(1) by simp
  have h: "length (record_header t l p) = 8" for t l p by (simp add: record_header_def)
  obtain b1 where b1: "prepend buf (record_header kFcgiStdout (length ?R) ?p) = Inr b1" "buf_wf b1"
      "readable b1 = record_header kFcgiStdout (length ?R) ?p @ ?R"
    by (rule prepend_ok[OF assms(1), of "record_header kFcgiStdout (length ?R) ?p"]) (use assms(3) h in simp, blast)
  obtain b2 where b2: "bufAppend b1 ?pad = Inr b2" "buf_wf b2" "readable b2 = readable b1 @ ?pad" using bufAppend_ok[OF b1(2)] by metis
  obtain b3 where b3: "bufAppend b2 (record_header kFcgiStdout 0 0) = Inr b3" "buf_wf b3" "readable b3 = readable b2 @ record_header kFcgiStdout 0 0"
    using bufAppend_ok[OF b2(2)] by metis
  obtain b4 where b4: "bufAppend b3 (record_header kFcgiEndRequest 8 0) = Inr b4" "buf_wf b4" "readable b4 = readable b3 @ record_header kFcgiEndRequest 8 0"
    using bufAppend_ok[OF b3(2)] by metis
  have z: "store_le 4 (hostToNetwork32 0) = replicate 4 (CHR 0x00)"
    by (simp only: store_hostToNetwork32) (simp add: store_le_def map_replicate_const char_of_def)
  obtain b5 where b5: "appendInt32 b4 0 = Inr b5" "buf_wf b5" "readable b5 = readable b4 @ replicate 4 (CHR 0x00)"
    using bufAppend_ok[OF b4(2)] unfolding appendInt32_def z by metis
  obtain b6 where b6: "appendInt32 b5 0 = Inr b6" "buf_wf b6" "readable b6 = readable b5 @ replicate 4 (CHR 0x00)"
    using bufAppend_ok[OF b5(2)] unfolding appendInt32_def z by metis
  have run: "fcgi_respond buf = Inr b6"
    using b1(1) b2(1) b3(1) b4(1) b5(1) b6(1) R assms(2,3)
    by (simp add: fcgi_respond_def endStdout_def endRequest_def kRecordHeader_def Let_def)
  let ?ms = "[(kFcgiStdout, ?R, ?pad), (kFcgiStdout, [], []), (kFcgiEndRequest, replicate 8 (CHR 0x00), [])]"
  have p: "?p < 8" by (simp add: fcgi_padding_eq)
  have all: "readable b6 = concat (map enc_record ?ms)"
    using b1(3) b2(3) b3(3) b4(3) b5(3) b6(3) by (simp add: enc_record_def replicate_add[of 4 4, symmetric])
  have "frames fcgi_next (readable b6) = (?ms, None, [])"
    unfolding all by (rule frames_of_records) (use assms(2) p in \<open>simp add: record_ok_def fcgi_consts\<close>)
  moreover have "8 dvd length ?R + ?p" by (rule padded)
  then have "8 dvd length (readable b6)" unfolding all by (simp add: enc_record_def h)
  ultimately show ?thesis using run p by (intro exI[of _ b6] exI[of _ ?pad]) simp
qed

theorem fastcgi_response_records_witness:
  "\<exists>buf b pad. bufAppend newBuffer ''out'' = Inr buf \<and> fcgi_respond buf = Inr b \<and> length pad < 8 \<and> 8 dvd length (readable b)
    \<and> frames fcgi_next (readable b) = ([(kFcgiStdout, ''out'', pad), (kFcgiStdout, [], []), (kFcgiEndRequest, replicate 8 (CHR 0x00), [])], None, [])"
proof -
  obtain buf where buf: "bufAppend newBuffer ''out'' = Inr buf" "buf_wf buf" "readable buf = ''out''" "kCheapPrepend \<le> readerIndex buf"
  proof -
    have "kCheapPrepend \<le> readerIndex newBuffer" by (simp add: newBuffer_def)
    then show ?thesis using that bufAppend_ok[OF newBuffer_wf, of "''out''"] newBuffer_readable by (metis append_Nil)
  qed
  then have "length (readable buf) < 65536" "8 \<le> prependableBytes buf" by (simp_all add: prependableBytes_def kCheapPrepend_def)
  from fastcgi_response_records[OF buf(2) this] buf(1,3) show ?thesis by auto
qed

text \<open>Requests that arrive together are not told apart: a message calls the callback at most once.\<close>

lemma parseRequest_calls: "fcgi_parseRequest buf fc = Inr (fc', buf') \<Longrightarrow> fcCalls fc' = fcCalls fc"
proof (induction buf fc rule: fcgi_parseRequest.induct)
  case (1 buf fc)
  have "fcCalls fc1 = fcCalls fc" if "onRecord h buf fc = Inr fc1" for h fc1
    using that by (auto simp: onRecord_def onBeginRequest_def onParams_def onStdin_def bindR_eq_Inr ensure_eq_Inr Let_def
        dest: parseAllParams_calls split: if_splits)
  then show ?case using "1.prems"[unfolded fcgi_parseRequest.simps[of buf fc]] "1.IH" by (auto simp: bindR_eq_Inr Let_def split: if_splits)
qed

lemma one_call_per_message:
  assumes "fcgi_onMessage buf fc = Inr (fc', buf')"
  shows "length (fcCalls fc') \<le> length (fcCalls fc) + 1"
  using assms parseRequest_calls[of buf fc] by (auto simp: fcgi_onMessage_def bindR_eq_Inr fcgi_finish_def)

end
