(* ===== verification/ChatServers.thy ===== *)
theory ChatServers
  imports Muduo_Prelude "HOL-Library.Sublist"
begin

text \<open>
  The chat servers of \<open>examples/asio/chat\<close>, which send every message to every connection: with one thread (\<open>server.cc\<close>), with
  a mutex (\<open>server_threaded.cc\<close>), with a list shared by reference count and copied on write
  (\<open>server_threaded_efficient.cc\<close>), and with a list per IO thread (\<open>server_threaded_highperformance.cc\<close>). Connections are
  numbers in the order of their pointers, sets of them lists in that order; what \<open>codec_.send\<close>
  sends is a log. Statements under a mutex are one step; others interleave.
\<close>

subsection \<open>One list\<close>

record chat =
  chConns :: "nat list"
  chOut :: "nat \<Rightarrow> (nat \<times> string) list"

definition newChat :: chat where
  "newChat = \<lparr>chConns = [], chOut = (\<lambda>_. [])\<rparr>"

definition chat_onConnection :: "nat \<Rightarrow> bool \<Rightarrow> chat \<Rightarrow> chat" where
  "chat_onConnection c connected s =
     (if connected then s\<lparr>chConns := insort_insert c (chConns s)\<rparr> else s\<lparr>chConns := remove1 c (chConns s)\<rparr>)"

text \<open>The sends of thread \<open>t\<close>\<close>

definition chat_onStringMessage :: "nat \<Rightarrow> string \<Rightarrow> chat \<Rightarrow> chat" where
  "chat_onStringMessage t message s = s\<lparr>chOut := (chOut s)(t := chOut s t @ map (\<lambda>c. (c, message)) (chConns s))\<rparr>"

text \<open>\<open>server_threaded.cc\<close>: the same under the mutex.\<close>

datatype chat_event = ChConn nat bool | ChMessage nat string

definition th_onConnection :: "nat \<Rightarrow> bool \<Rightarrow> chat \<Rightarrow> chat" where
  "th_onConnection c connected s =
     (if connected then s\<lparr>chConns := insort_insert c (chConns s)\<rparr> else s\<lparr>chConns := remove1 c (chConns s)\<rparr>)"

definition th_onStringMessage :: "nat \<Rightarrow> string \<Rightarrow> chat \<Rightarrow> chat" where
  "th_onStringMessage t message s = s\<lparr>chOut := (chOut s)(t := chOut s t @ map (\<lambda>c. (c, message)) (chConns s))\<rparr>"

fun th_step :: "chat_event \<Rightarrow> chat \<Rightarrow> chat" where
  "th_step (ChConn c up) s = th_onConnection c up s"
| "th_step (ChMessage t m) s = th_onStringMessage t m s"

subsection \<open>Copy on write\<close>

text \<open>A thread between \<open>getConnectionList\<close> and the end of \<open>onStringMessage\<close>: the list it holds, its iterator, the message.\<close>

record reader =
  rdList :: nat
  rdNext :: nat
  rdMsg :: string

text \<open>The store of lists with their reference counts, the pointer \<open>connections_\<close>, the connection whose
  \<open>onConnection\<close> holds the mutex, the threads that send, what was sent, and the critical sections in order.\<close>

record cow =
  cwStore :: "nat \<Rightarrow> nat list option"
  cwRef :: "nat \<Rightarrow> nat"
  cwFresh :: nat
  cwCur :: nat
  cwWriter :: "(nat \<times> bool) option"
  cwReaders :: "nat \<Rightarrow> reader option"
  cwOut :: "nat \<Rightarrow> (nat \<times> string) list"
  cwHist :: "chat_event list"

definition newCow :: cow where
  "newCow = \<lparr>cwStore = (\<lambda>_. None)(0 := Some []), cwRef = (\<lambda>_. 0)(0 := 1), cwFresh = 1, cwCur = 0, cwWriter = None,
     cwReaders = (\<lambda>_. None), cwOut = (\<lambda>_. []), cwHist = []\<rparr>"

text \<open>A \<open>shared_ptr\<close> to \<open>a\<close> goes away.\<close>

definition cow_release :: "nat \<Rightarrow> cow \<Rightarrow> cow" where
  "cow_release a s =
     (let n = cwRef s a - 1
      in s\<lparr>cwRef := (cwRef s)(a := n), cwStore := (if n = 0 then (cwStore s)(a := None) else cwStore s)\<rparr>)"

text \<open>\<open>onConnection\<close> up to the assertion: take the mutex, copy the list unless nobody else holds it.\<close>

definition cow_lock :: "nat \<Rightarrow> bool \<Rightarrow> cow \<Rightarrow> cow res" where
  "cow_lock c connected s =
     (if cwWriter s = None then
        (if cwRef s (cwCur s) \<noteq> 1 then
           (case cwStore s (cwCur s) of
              None \<Rightarrow> Inl (BadAccess ''onConnection: *connections_'')
            | Some l \<Rightarrow>
                let a = cwFresh s;
                    s1 = s\<lparr>cwStore := (cwStore s)(a \<mapsto> l), cwRef := (cwRef s)(a := 1), cwFresh := a + 1, cwCur := a\<rparr>
                in Inr ((cow_release (cwCur s) s1)\<lparr>cwWriter := Some (c, connected)\<rparr>))
         else Inr (s\<lparr>cwWriter := Some (c, connected)\<rparr>))
      else Inr s)"

text \<open>The assertion and the change of the list; the mutex is released.\<close>

definition cow_modify :: "cow \<Rightarrow> cow res" where
  "cow_modify s =
     (case cwWriter s of
        None \<Rightarrow> Inr s
      | Some (c, connected) \<Rightarrow>
          ensure (cwRef s (cwCur s) = 1) ''onConnection: connections_.unique()''
          (case cwStore s (cwCur s) of
             None \<Rightarrow> Inl (BadAccess ''onConnection: connections_->'')
           | Some l \<Rightarrow>
               Inr (s\<lparr>cwStore := (cwStore s)(cwCur s \<mapsto> (if connected then insort_insert c l else remove1 c l)),
                      cwWriter := None, cwHist := cwHist s @ [ChConn c connected]\<rparr>)))"

definition getConnectionList :: "nat \<Rightarrow> string \<Rightarrow> cow \<Rightarrow> cow res" where
  "getConnectionList t message s =
     (if cwWriter s = None \<and> cwReaders s t = None
      then Inr (s\<lparr>cwRef := (cwRef s)(cwCur s := cwRef s (cwCur s) + 1),
                  cwReaders := (cwReaders s)(t \<mapsto> \<lparr>rdList = cwCur s, rdNext = 0, rdMsg = message\<rparr>),
                  cwHist := cwHist s @ [ChMessage t message]\<rparr>)
      else Inr s)"

text \<open>A turn of the loop of \<open>onStringMessage\<close>: one send, or its end.\<close>

definition cow_turn :: "nat \<Rightarrow> cow \<Rightarrow> cow res" where
  "cow_turn t s =
     (case cwReaders s t of
        None \<Rightarrow> Inr s
      | Some r \<Rightarrow>
          (case cwStore s (rdList r) of
             None \<Rightarrow> Inl (BadAccess ''onStringMessage: connections->'')
           | Some l \<Rightarrow>
               if rdNext r < length l
               then Inr (s\<lparr>cwOut := (cwOut s)(t := cwOut s t @ [(l ! rdNext r, rdMsg r)]),
                           cwReaders := (cwReaders s)(t \<mapsto> r\<lparr>rdNext := rdNext r + 1\<rparr>)\<rparr>)
               else Inr (cow_release (rdList r) (s\<lparr>cwReaders := (cwReaders s)(t := None)\<rparr>))))"

datatype cow_event = CowLock nat bool | CowModify | CowGet nat string | CowTurn nat

fun cow_step :: "cow_event \<Rightarrow> cow \<Rightarrow> cow res" where
  "cow_step (CowLock c up) s = cow_lock c up s"
| "cow_step CowModify s = cow_modify s"
| "cow_step (CowGet t m) s = getConnectionList t m s"
| "cow_step (CowTurn t) s = cow_turn t s"

subsection \<open>Copy on write implements the mutex\<close>

definition cow_pending :: "cow \<Rightarrow> nat \<Rightarrow> (nat \<times> string) list" where
  "cow_pending s t =
     (case cwReaders s t of
        None \<Rightarrow> []
      | Some r \<Rightarrow> (case cwStore s (rdList r) of None \<Rightarrow> [] | Some l \<Rightarrow> map (\<lambda>c. (c, rdMsg r)) (drop (rdNext r) l)))"

definition holders :: "(nat \<Rightarrow> reader option) \<Rightarrow> nat \<Rightarrow> nat set" where
  "holders rs a = {t. \<exists>r. rs t = Some r \<and> rdList r = a}"

definition cow_inv :: "cow \<Rightarrow> bool" where
  "cow_inv s \<longleftrightarrow>
     finite (dom (cwReaders s)) \<and> cwCur s < cwFresh s
   \<and> (\<forall>a. cwRef s a = (if a = cwCur s then 1 else 0) + card (holders (cwReaders s) a))
   \<and> (\<forall>a. 0 < cwRef s a \<longrightarrow> cwStore s a \<noteq> None \<and> a < cwFresh s)
   \<and> (cwWriter s \<noteq> None \<longrightarrow> cwRef s (cwCur s) = 1)
   \<and> cwStore s (cwCur s) = Some (chConns (fold th_step (cwHist s) newChat))
   \<and> (\<forall>t. cwOut s t @ cow_pending s t = chOut (fold th_step (cwHist s) newChat) t)"

lemma cow_invI:
  assumes "finite (dom (cwReaders s))" "cwCur s < cwFresh s"
    and "\<And>a. cwRef s a = (if a = cwCur s then 1 else 0) + card (holders (cwReaders s) a)"
    and "\<And>a. 0 < cwRef s a \<Longrightarrow> cwStore s a \<noteq> None \<and> a < cwFresh s"
    and "cwWriter s \<noteq> None \<Longrightarrow> cwRef s (cwCur s) = 1"
    and "cwStore s (cwCur s) = Some (chConns (fold th_step (cwHist s) newChat))"
    and "\<And>t. cwOut s t @ cow_pending s t = chOut (fold th_step (cwHist s) newChat) t"
  shows "cow_inv s"
  unfolding cow_inv_def using assms by blast

lemma finite_holders: "finite (dom rs) \<Longrightarrow> finite (holders rs a)"
  by (rule finite_subset[of _ "dom rs"]) (auto simp: holders_def)

lemma holders_upd: "holders (rs(t \<mapsto> r)) a = (if rdList r = a then insert t (holders rs a) else holders rs a - {t})"
  by (auto simp: holders_def)

lemma holders_none: "holders (rs(t := None)) a = holders rs a - {t}"
  by (auto simp: holders_def)

lemma held_ref: "cow_inv s \<Longrightarrow> cwReaders s t = Some r \<Longrightarrow> 0 < card (holders (cwReaders s) (rdList r))"
  using finite_holders by (auto simp: cow_inv_def card_gt_0_iff holders_def)

lemma pending_cong:
  assumes "cwReaders s' t = cwReaders s t" and "\<And>r. cwReaders s t = Some r \<Longrightarrow> cwStore s' (rdList r) = cwStore s (rdList r)"
  shows "cow_pending s' t = cow_pending s t"
  using assms by (auto simp: cow_pending_def split: option.split)

lemma held_unchanged:
  assumes "cow_inv s" and "cwReaders s t = Some r"
  shows "rdList r < cwFresh s" "cwStore s (rdList r) \<noteq> None" "0 < cwRef s (rdList r)"
  using held_ref[OF assms] assms(1) by (auto simp: cow_inv_def)

lemma cow_lock_inv:
  assumes inv: "cow_inv s"
  shows "holds {} (cow_lock c up s) cow_inv"
proof (cases "cwWriter s = None \<and> cwRef s (cwCur s) \<noteq> 1")
  case True
  let ?cur = "cwCur s" and ?a = "cwFresh s" and ?l = "chConns (fold th_step (cwHist s) newChat)"
  note I = inv[unfolded cow_inv_def]
  have refs: "cwRef s a = (if a = ?cur then 1 else 0) + card (holders (cwReaders s) a)" for a using I by blast
  have live: "cwStore s a \<noteq> None \<and> a < cwFresh s" if "0 < cwRef s a" for a using I that by blast
  have l: "cwStore s ?cur = Some ?l" using I by blast
  have cur: "?cur < ?a" using I by blast
  have fresh: "card (holders (cwReaders s) ?a) = 0" using live[of ?a] refs[of ?a] cur by fastforce
  define s' where "s' = (cow_release ?cur (s\<lparr>cwStore := (cwStore s)(?a \<mapsto> ?l), cwRef := (cwRef s)(?a := 1), cwFresh := ?a + 1, cwCur := ?a\<rparr>))
      \<lparr>cwWriter := Some (c, up)\<rparr>"
  have eq: "cow_lock c up s = Inr s'" using True l by (simp add: cow_lock_def s'_def Let_def)
  have f: "cwCur s' = ?a" "cwFresh s' = ?a + 1" "cwReaders s' = cwReaders s" "cwOut s' = cwOut s" "cwHist s' = cwHist s" "cwWriter s' = Some (c, up)"
    "cwRef s' = (cwRef s)(?a := 1, ?cur := cwRef s ?cur - 1)"
    using cur by (simp_all add: s'_def cow_release_def Let_def)
  have st: "cwStore s' b = (if b = ?a then Some ?l else if b = ?cur \<and> cwRef s ?cur = 1 then None else cwStore s b)" if "b \<noteq> ?cur \<or> 1 < cwRef s ?cur \<or> b = ?a" for b
    using that cur by (auto simp: s'_def cow_release_def Let_def)
  have big: "1 < cwRef s ?cur" using True refs[of ?cur] by simp
  have store: "cwStore s' b = (if b = ?a then Some ?l else cwStore s b)" for b using st[of b] big by auto
  have r1: "cwRef s' b = (if b = ?a then 1 else 0) + card (holders (cwReaders s) b)" for b
    using refs[of b] refs[of ?cur] fresh cur by (simp add: f(7))
  have pend: "cow_pending s' t = cow_pending s t" for t
    by (rule pending_cong) (use f(3) held_unchanged(1)[OF inv, of t] store in auto)
  have "cwStore s' b \<noteq> None \<and> b < cwFresh s'" if "0 < cwRef s' b" for b
    using live[of b] that cur refs[of b] r1[of b] unfolding store f(2) by (cases "b = ?a") auto
  moreover have "cwRef s' ?a = 1" using r1[of ?a] fresh by simp
  ultimately have "cow_inv s'" unfolding cow_inv_def f(1,3-6) pend store using I r1 by (simp add: f(2))
  then show ?thesis using eq by simp
next
  case False
  have pend: "cow_pending (s\<lparr>cwWriter := w\<rparr>) t = cow_pending s t" for w t by (rule pending_cong) simp_all
  have "cow_inv (s\<lparr>cwWriter := Some (c, up)\<rparr>)" if "cwRef s (cwCur s) = 1"
    using inv that unfolding cow_inv_def pend by simp
  then show ?thesis using inv False by (auto simp: cow_lock_def)
qed

lemma cow_modify_inv:
  assumes inv: "cow_inv s"
  shows "holds {} (cow_modify s) cow_inv"
proof (cases "cwWriter s")
  case (Some w)
  obtain c up where w: "w = (c, up)" by (metis surj_pair)
  let ?cur = "cwCur s" and ?ch = "fold th_step (cwHist s) newChat"
  note I = inv[unfolded cow_inv_def]
  have one: "cwRef s ?cur = 1" using I Some by blast
  have l: "cwStore s ?cur = Some (chConns ?ch)" using I by blast
  have "cwRef s ?cur = (if ?cur = ?cur then 1 else 0) + card (holders (cwReaders s) ?cur)" using I by blast
  then have "card (holders (cwReaders s) ?cur) = 0" using one by simp
  then have none: "cwReaders s t = Some r \<Longrightarrow> rdList r \<noteq> ?cur" for t r using held_ref[OF inv, of t r] by auto
  define s' where "s' = s\<lparr>cwStore := (cwStore s)(?cur \<mapsto> (if up then insort_insert c (chConns ?ch) else remove1 c (chConns ?ch))),
      cwWriter := None, cwHist := cwHist s @ [ChConn c up]\<rparr>"
  have eq: "cow_modify s = Inr s'" using Some w one l by (simp add: cow_modify_def s'_def)
  have pend: "cow_pending s' t = cow_pending s t" for t
    by (rule pending_cong) (use none[of t] in \<open>auto simp: s'_def\<close>)
  have "cow_inv s'" unfolding cow_inv_def using I pend by (simp add: s'_def th_onConnection_def)
  then show ?thesis using eq by simp
qed (use inv in \<open>simp add: cow_modify_def\<close>)

lemma cow_get_inv:
  assumes inv: "cow_inv s"
  shows "holds {} (getConnectionList t m s) cow_inv"
proof (cases "cwWriter s = None \<and> cwReaders s t = None")
  case True
  let ?cur = "cwCur s" and ?ch = "fold th_step (cwHist s) newChat"
  note I = inv[unfolded cow_inv_def]
  have refs: "cwRef s a = (if a = ?cur then 1 else 0) + card (holders (cwReaders s) a)" for a using I by blast
  let ?rs = "(cwReaders s)(t \<mapsto> \<lparr>rdList = ?cur, rdNext = 0, rdMsg = m\<rparr>)"
  define s' where "s' = s\<lparr>cwRef := (cwRef s)(?cur := cwRef s ?cur + 1), cwReaders := ?rs, cwHist := cwHist s @ [ChMessage t m]\<rparr>"
  have eq: "getConnectionList t m s = Inr s'" using True by (simp add: getConnectionList_def s'_def)
  have "t \<notin> holders (cwReaders s) a" for a using True by (simp add: holders_def)
  then have h: "card (holders ?rs a) = card (holders (cwReaders s) a) + (if a = ?cur then 1 else 0)" for a
    using I by (auto simp: holders_upd finite_holders)
  have rf: "cwRef s' a = (if a = cwCur s' then 1 else 0) + card (holders (cwReaders s') a)" for a
    using refs[of a] h[of a] by (cases "a = ?cur") (simp_all add: s'_def)
  have lv: "cwStore s' a \<noteq> None \<and> a < cwFresh s'" if "0 < cwRef s' a" for a
  proof -
    have "0 < cwRef s a" using that refs[of ?cur] by (cases "a = ?cur") (simp_all add: s'_def)
    then show ?thesis using I by (simp add: s'_def)
  qed
  have ou: "cwOut s' u @ cow_pending s' u = chOut (fold th_step (cwHist s') newChat) u" for u
  proof -
    have "cwOut s u @ cow_pending s u = chOut ?ch u" "cwStore s ?cur = Some (chConns ?ch)" using I by blast+
    moreover have "cow_pending s' u = cow_pending s u" if "u \<noteq> t" by (rule pending_cong) (use that in \<open>simp_all add: s'_def\<close>)
    ultimately show ?thesis using True
      by (cases "u = t") (auto simp: s'_def cow_pending_def[of _ t] th_onStringMessage_def)
  qed
  have "cow_inv s'"
    by (rule cow_invI[OF _ _ rf lv _ _ ou]) (use I True in \<open>simp_all add: s'_def th_onStringMessage_def\<close>)
  then show ?thesis using eq by simp
qed (use inv in \<open>auto simp: getConnectionList_def\<close>)

lemma cow_turn_inv:
  assumes inv: "cow_inv s"
  shows "holds {} (cow_turn t s) cow_inv"
proof (cases "cwReaders s t")
  case (Some r)
  let ?a = "rdList r" and ?ch = "fold th_step (cwHist s) newChat"
  note I = inv[unfolded cow_inv_def]
  have refs: "cwRef s a = (if a = cwCur s then 1 else 0) + card (holders (cwReaders s) a)" for a using I by blast
  have live: "cwStore s a \<noteq> None \<and> a < cwFresh s" if "0 < cwRef s a" for a using I that by blast
  have outs: "cwOut s u @ cow_pending s u = chOut ?ch u" for u using I by blast
  have fin: "finite (holders (cwReaders s) a)" for a using I finite_holders by blast
  have cur: "cwStore s (cwCur s) = Some (chConns ?ch)" "cwCur s < cwFresh s" using I by blast+
  have wr: "cwWriter s \<noteq> None \<longrightarrow> cwRef s (cwCur s) = 1" using I by blast
  have t: "t \<in> holders (cwReaders s) ?a" using Some by (simp add: holders_def)
  obtain l where l: "cwStore s ?a = Some l" using held_unchanged(2)[OF inv Some] by blast
  show ?thesis
  proof (cases "rdNext r < length l")
    case True
    define s' where "s' = s\<lparr>cwOut := (cwOut s)(t := cwOut s t @ [(l ! rdNext r, rdMsg r)]),
        cwReaders := (cwReaders s)(t \<mapsto> r\<lparr>rdNext := rdNext r + 1\<rparr>)\<rparr>"
    have h: "holders (cwReaders s') = holders (cwReaders s)" using Some by (auto simp: s'_def holders_def fun_eq_iff)
    have "cwOut s' u @ cow_pending s' u = chOut ?ch u" for u
    proof -
      have "cow_pending s' u = cow_pending s u" if "u \<noteq> t" by (rule pending_cong) (use that in \<open>simp_all add: s'_def\<close>)
      then show ?thesis using outs[of u] Some l True
        by (cases "u = t") (simp_all add: s'_def cow_pending_def[of _ t] Cons_nth_drop_Suc[symmetric])
    qed
    then have ou: "cwOut s' u @ cow_pending s' u = chOut (fold th_step (cwHist s') newChat) u" for u by (simp add: s'_def)
    have "cow_inv s'"
    proof (rule cow_invI[OF _ _ _ _ _ _ ou])
      show "finite (dom (cwReaders s'))" using I by (simp add: s'_def)
      show "cwRef s' a = (if a = cwCur s' then 1 else 0) + card (holders (cwReaders s') a)" for a
        using refs[of a] unfolding h by (simp add: s'_def)
      show "cwStore s' a \<noteq> None \<and> a < cwFresh s'" if "0 < cwRef s' a" for a using live[of a] that by (simp add: s'_def)
    qed (use wr cur in \<open>simp_all add: s'_def\<close>)
    then show ?thesis using Some l True by (simp add: cow_turn_def s'_def)
  next
    case False
    define s' where "s' = cow_release ?a (s\<lparr>cwReaders := (cwReaders s)(t := None)\<rparr>)"
    have f: "cwCur s' = cwCur s" "cwFresh s' = cwFresh s" "cwReaders s' = (cwReaders s)(t := None)" "cwOut s' = cwOut s" "cwHist s' = cwHist s"
        "cwWriter s' = cwWriter s" "cwRef s' = (cwRef s)(?a := cwRef s ?a - 1)"
      by (simp_all add: s'_def cow_release_def Let_def)
    have store: "cwStore s' b = cwStore s b" if "0 < cwRef s' b" for b
      using that by (auto simp: s'_def cow_release_def Let_def)
    have hc: "card (holders (cwReaders s') b) = card (holders (cwReaders s) b) - (if b = ?a then 1 else 0)" for b
    proof (cases "b = ?a")
      case False
      then have "t \<notin> holders (cwReaders s) b" using Some by (simp add: holders_def)
      then show ?thesis using False by (simp add: f(3) holders_none)
    qed (use t fin in \<open>simp add: f(3) holders_none\<close>)
    have pos: "0 < card (holders (cwReaders s) ?a)" by (rule held_ref[OF inv Some])
    have r1: "cwRef s' b = (if b = cwCur s then 1 else 0) + card (holders (cwReaders s') b)" for b
      using refs[of b] hc[of b] pos by (cases "b = ?a") (simp_all add: f(7))
    have out: "cwOut s' u @ cow_pending s' u = chOut ?ch u" for u
    proof (cases "u = t")
      case True
      then show ?thesis using outs[of t] Some l False by (simp add: f(3,4) cow_pending_def)
    next
      case ne: False
      have "cow_pending s' u = cow_pending s u"
      proof (cases "cwReaders s u")
        case r': (Some r')
        then have "u \<in> holders (cwReaders s') (rdList r')" using ne by (simp add: f(3) holders_def)
        moreover have "finite (holders (cwReaders s') (rdList r'))" using fin by (simp add: f(3) holders_none)
        ultimately have "0 < card (holders (cwReaders s') (rdList r'))" by (auto simp: card_gt_0_iff)
        then have "0 < cwRef s' (rdList r')" using r1[of "rdList r'"] by simp
        then show ?thesis using store r' ne by (simp add: cow_pending_def f(3))
      qed (use ne in \<open>simp add: cow_pending_def f(3)\<close>)
      then show ?thesis using outs[of u] ne by (simp add: f(4))
    qed
    have live': "cwStore s' b \<noteq> None \<and> b < cwFresh s'" if "0 < cwRef s' b" for b
      using store[OF that] live[of b] that by (auto simp: f(2,7) split: if_splits)
    have cur': "cwStore s' (cwCur s) = Some (chConns ?ch)" using store[of "cwCur s"] r1[of "cwCur s"] cur(1) by simp
    have wr': "cwWriter s \<noteq> None \<longrightarrow> cwRef s' (cwCur s) = 1"
      using wr refs[of "cwCur s"] pos by (auto simp: f(7))
    have "finite (dom (cwReaders s'))" using I by (simp add: f(3))
    then have "cow_inv s'" unfolding cow_inv_def f(1,4-6) using r1 out live' cur' wr' cur(2) by (simp add: f(2,4))
    then show ?thesis using Some l False by (simp add: cow_turn_def s'_def)
  qed
qed (use inv in \<open>simp add: cow_turn_def\<close>)

lemma cow_init_inv: "cow_inv newCow"
  by (simp add: cow_inv_def newCow_def newChat_def holders_def cow_pending_def)

lemma cow_step_inv: "cow_inv s \<Longrightarrow> holds {} (cow_step e s) cow_inv"
  by (cases e) (simp_all add: cow_lock_inv cow_modify_inv cow_get_inv cow_turn_inv)

text \<open>Property C22. The copy-on-write chat server behaves as the one with the mutex: for every interleaving of connections and
  messages of any number of threads, the assertion that the list is not shared when it is changed never fails, no list is used
  after it was freed, the list of connections is that of the server with the mutex after
  the same critical sections, and what each thread has sent, with what it still has to send, is what that
  server sends.\<close>

theorem cow_refines_mutex:
  "\<exists>s. foldR cow_step evs newCow = Inr s
     \<and> cwStore s (cwCur s) = Some (chConns (fold th_step (cwHist s) newChat))
     \<and> (\<forall>t. cwOut s t @ cow_pending s t = chOut (fold th_step (cwHist s) newChat) t)"
proof -
  have "holds {} (foldR cow_step evs newCow) cow_inv"
    by (rule holds_foldR) (simp_all add: cow_step_inv cow_init_inv)
  then obtain s where "foldR cow_step evs newCow = Inr s" "cow_inv s" by (auto simp: holds_def split: sum.splits)
  then show ?thesis unfolding cow_inv_def by blast
qed

subsection \<open>A list per thread\<close>

text \<open>The loops, each thread's instance of \<open>ThreadLocalSingleton\<close>, the functors queued in each loop (messages to distribute), the
  message whose \<open>onStringMessage\<close> holds the mutex with the loops it has still to queue it in, and what was sent to each
  connection. \<open>hpRan\<close> and \<open>hpPosted\<close> record what each loop ran and the messages in the order of the mutex.\<close>

record hp_chat =
  hpLoops :: "nat list"
  hpInst :: "nat \<Rightarrow> nat list option"
  hpQueue :: "nat \<Rightarrow> string list"
  hpPoster :: "(string \<times> nat list) option"
  hpOut :: "nat \<Rightarrow> string list"
  hpRan :: "nat \<Rightarrow> string list"
  hpPosted :: "string list"

definition newHpChat :: hp_chat where
  "newHpChat = \<lparr>hpLoops = [], hpInst = (\<lambda>_. None), hpQueue = (\<lambda>_. []), hpPoster = None, hpOut = (\<lambda>_. []), hpRan = (\<lambda>_. []), hpPosted = []\<rparr>"

definition tls_instance :: "nat \<Rightarrow> hp_chat \<Rightarrow> nat list \<times> hp_chat" where
  "tls_instance l s = (case hpInst s l of None \<Rightarrow> ([], s\<lparr>hpInst := (hpInst s)(l \<mapsto> [])\<rparr>) | Some cs \<Rightarrow> (cs, s))"

definition threadInit :: "nat \<Rightarrow> hp_chat \<Rightarrow> hp_chat res" where
  "threadInit l s =
     ensure (hpInst s l = None) ''threadInit: connections_.pointer() == NULL''
     (let s1 = snd (tls_instance l s)
      in ensure (hpInst s1 l \<noteq> None) ''threadInit: connections_.pointer() != NULL''
         (Inr (s1\<lparr>hpLoops := insort_insert l (hpLoops s1)\<rparr>)))"

definition hp_onConnection :: "nat \<Rightarrow> nat \<Rightarrow> bool \<Rightarrow> hp_chat \<Rightarrow> hp_chat" where
  "hp_onConnection l c connected s =
     (case tls_instance l s of (cs, s1) \<Rightarrow>
        s1\<lparr>hpInst := (hpInst s1)(l \<mapsto> (if connected then insort_insert c cs else remove1 c cs))\<rparr>)"

text \<open>\<open>onStringMessage\<close> takes the mutex, queues the functor in one loop after the other, and releases it.\<close>

definition hp_lock :: "string \<Rightarrow> hp_chat \<Rightarrow> hp_chat" where
  "hp_lock message s =
     (case hpPoster s of
        None \<Rightarrow> s\<lparr>hpPoster := Some (message, hpLoops s), hpPosted := hpPosted s @ [message]\<rparr>
      | Some _ \<Rightarrow> s)"

definition hp_queueInLoop :: "hp_chat \<Rightarrow> hp_chat" where
  "hp_queueInLoop s =
     (case hpPoster s of
        None \<Rightarrow> s
      | Some (message, []) \<Rightarrow> s\<lparr>hpPoster := None\<rparr>
      | Some (message, l # ls) \<Rightarrow> s\<lparr>hpQueue := (hpQueue s)(l := hpQueue s l @ [message]), hpPoster := Some (message, ls)\<rparr>)"

definition distributeMessage :: "nat \<Rightarrow> string \<Rightarrow> hp_chat \<Rightarrow> hp_chat" where
  "distributeMessage l message s =
     (case tls_instance l s of (cs, s1) \<Rightarrow> s1\<lparr>hpOut := fold (\<lambda>c out. out(c := out c @ [message])) cs (hpOut s1)\<rparr>)"

text \<open>Loop \<open>l\<close> runs its next functor.\<close>

definition hp_run :: "nat \<Rightarrow> hp_chat \<Rightarrow> hp_chat" where
  "hp_run l s =
     (case hpQueue s l of
        [] \<Rightarrow> s
      | m # q \<Rightarrow> distributeMessage l m (s\<lparr>hpQueue := (hpQueue s)(l := q), hpRan := (hpRan s)(l := hpRan s l @ [m])\<rparr>))"

datatype hp_event = HpConn nat bool | HpMessage string | HpQueue | HpRun nat

text \<open>The loop of a connection never changes.\<close>

fun hp_step :: "(nat \<Rightarrow> nat) \<Rightarrow> hp_event \<Rightarrow> hp_chat \<Rightarrow> hp_chat" where
  "hp_step home (HpConn c up) s = hp_onConnection (home c) c up s"
| "hp_step home (HpMessage m) s = hp_lock m s"
| "hp_step home HpQueue s = hp_queueInLoop s"
| "hp_step home (HpRun l) s = hp_run l s"

lemma threadInits:
  assumes "distinct ls"
  shows "\<exists>s. foldR threadInit ls newHpChat = Inr s \<and> sorted (hpLoops s) \<and> distinct (hpLoops s) \<and> set (hpLoops s) = set ls
    \<and> (\<forall>l. hpInst s l = (if l \<in> set ls then Some [] else None))
    \<and> s = newHpChat\<lparr>hpLoops := hpLoops s, hpInst := hpInst s\<rparr>"
  using assms
proof (induction ls rule: rev_induct)
  case Nil
  then show ?case by (simp add: newHpChat_def)
next
  case (snoc l ls)
  then obtain s where s: "foldR threadInit ls newHpChat = Inr s" "sorted (hpLoops s)" "distinct (hpLoops s)" "set (hpLoops s) = set ls"
      "\<forall>l. hpInst s l = (if l \<in> set ls then Some [] else None)" "s = newHpChat\<lparr>hpLoops := hpLoops s, hpInst := hpInst s\<rparr>"
    by auto
  have l: "hpInst s l = None" using s(5) snoc.prems by simp
  let ?s = "s\<lparr>hpInst := (hpInst s)(l \<mapsto> []), hpLoops := insort_insert l (hpLoops s)\<rparr>"
  have step: "threadInit l s = Inr ?s" using l by (simp add: threadInit_def tls_instance_def Let_def)
  have "?s = newHpChat\<lparr>hpLoops := hpLoops ?s, hpInst := hpInst ?s\<rparr>" by (subst s(6)) simp
  moreover have "sorted (hpLoops ?s)" "set (hpLoops ?s) = set (ls @ [l])" using s(2,4) by (auto simp: sorted_insort_insert set_insort_insert)
  moreover have "distinct (hpLoops ?s)" using s(3) by (simp add: insort_insert_key_def distinct_insort)
  moreover have "\<forall>k. hpInst ?s k = (if k \<in> set (ls @ [l]) then Some [] else None)" using s(5) by simp
  moreover have "foldR threadInit (ls @ [l]) newHpChat = Inr ?s" using s(1) step by (simp add: foldR_append)
  ultimately show ?case by blast
qed

text \<open>What loop \<open>l\<close> has been given: every message, but for the one that is being queued.\<close>

definition hp_given :: "hp_chat \<Rightarrow> nat \<Rightarrow> string list" where
  "hp_given s l = (case hpPoster s of Some (m, rest) \<Rightarrow> if l \<in> set rest then butlast (hpPosted s) else hpPosted s | None \<Rightarrow> hpPosted s)"

definition hp_order_inv :: "hp_chat \<Rightarrow> bool" where
  "hp_order_inv s \<longleftrightarrow>
     distinct (hpLoops s) \<and> (\<forall>l. l \<notin> set (hpLoops s) \<longrightarrow> hpQueue s l = [])
   \<and> (\<forall>m rest. hpPoster s = Some (m, rest) \<longrightarrow> distinct rest \<and> set rest \<subseteq> set (hpLoops s) \<and> hpPosted s \<noteq> [] \<and> last (hpPosted s) = m)
   \<and> (\<forall>l \<in> set (hpLoops s). hpRan s l @ hpQueue s l = hp_given s l)"

definition hp_conn_inv :: "(nat \<Rightarrow> nat) \<Rightarrow> nat set \<Rightarrow> hp_chat \<Rightarrow> bool" where
  "hp_conn_inv home seen s \<longleftrightarrow>
     (\<forall>l \<in> set (hpLoops s). \<exists>cs. hpInst s l = Some cs \<and> distinct cs
        \<and> (\<forall>c \<in> set cs. home c = l \<and> c \<in> seen \<and> suffix (hpOut s c) (hpRan s l)))
   \<and> (\<forall>c. sublist (hpOut s c) (hpRan s (home c))) \<and> (\<forall>c. c \<notin> seen \<longrightarrow> hpOut s c = [])"

lemma distribute_out:
  "distinct cs \<Longrightarrow> fold (\<lambda>c out. out(c := out c @ [m])) cs out c = out c @ (if c \<in> set cs then [m] else [])"
  by (induction cs arbitrary: out) auto

lemma hp_lock_order: "hp_order_inv s \<Longrightarrow> hp_order_inv (hp_lock m s)"
  by (auto simp: hp_order_inv_def hp_lock_def hp_given_def split: option.split)

lemma hp_queue_order:
  assumes inv: "hp_order_inv s"
  shows "hp_order_inv (hp_queueInLoop s)"
proof (cases "hpPoster s")
  case (Some p)
  obtain m rest where p: "p = (m, rest)" by (metis surj_pair)
  show ?thesis
  proof (cases rest)
    case Nil
    then show ?thesis using inv Some p by (auto simp: hp_order_inv_def hp_queueInLoop_def hp_given_def)
  next
    case (Cons l ls)
    note I = inv[unfolded hp_order_inv_def]
    have h: "distinct (l # ls)" "l \<in> set (hpLoops s)" "set ls \<subseteq> set (hpLoops s)" "hpPosted s \<noteq> []" "last (hpPosted s) = m"
      using I Some p Cons by auto
    have q: "hpRan s l @ hpQueue s l = butlast (hpPosted s)" using I h(2) Some p Cons by (auto simp: hp_given_def)
    have "butlast (hpPosted s) @ [m] = hpPosted s" using h(4,5) append_butlast_last_id by metis
    then have q': "hpRan s l @ hpQueue s l @ [m] = hpPosted s" using q by (metis append_assoc)
    let ?s = "s\<lparr>hpQueue := (hpQueue s)(l := hpQueue s l @ [m]), hpPoster := Some (m, ls)\<rparr>"
    have "hpRan ?s k @ hpQueue ?s k = hp_given ?s k" if "k \<in> set (hpLoops s)" for k
      using I that q' h(1) Some p Cons by (auto simp: hp_given_def)
    then have "hp_order_inv ?s" unfolding hp_order_inv_def using I h by auto
    then show ?thesis using Some p Cons by (simp add: hp_queueInLoop_def)
  qed
qed (use inv in \<open>simp add: hp_queueInLoop_def\<close>)

lemma hp_run_order:
  assumes "hp_order_inv s"
  shows "hp_order_inv (hp_run l s)"
proof (cases "hpQueue s l")
  case (Cons m q)
  have f: "hpLoops (hp_run l s) = hpLoops s" "hpPoster (hp_run l s) = hpPoster s" "hpPosted (hp_run l s) = hpPosted s"
      "hpQueue (hp_run l s) = (hpQueue s)(l := q)" "hpRan (hp_run l s) = (hpRan s)(l := hpRan s l @ [m])"
    using Cons by (simp_all add: hp_run_def distributeMessage_def tls_instance_def split: option.split)
  have "hpRan (hp_run l s) k @ hpQueue (hp_run l s) k = hpRan s k @ hpQueue s k" for k using Cons by (simp add: f)
  then show ?thesis using assms Cons unfolding hp_order_inv_def hp_given_def f(1-4) by auto
qed (use assms in \<open>simp add: hp_run_def\<close>)

lemma hp_conn_order: "hp_order_inv s \<Longrightarrow> hp_order_inv (hp_onConnection l c up s)"
  by (auto simp: hp_order_inv_def hp_onConnection_def tls_instance_def hp_given_def split: option.split)

lemma hp_step_order: "hp_order_inv s \<Longrightarrow> hp_order_inv (hp_step home e s)"
  by (cases e) (simp_all add: hp_lock_order hp_queue_order hp_run_order hp_conn_order)

lemma hp_conn_up:
  assumes inv: "hp_conn_inv home seen s" and new: "c \<notin> seen" "home c \<in> set (hpLoops s)"
  shows "hp_conn_inv home (insert c seen) (hp_onConnection (home c) c True s)"
proof -
  note I = inv[unfolded hp_conn_inv_def]
  obtain cs where cs: "hpInst s (home c) = Some cs" "distinct cs" "\<forall>d \<in> set cs. home d = home c \<and> d \<in> seen \<and> suffix (hpOut s d) (hpRan s (home c))"
    using I new(2) by blast
  have eq: "hp_onConnection (home c) c True s = s\<lparr>hpInst := (hpInst s)(home c \<mapsto> insort_insert c cs)\<rparr>"
    using cs(1) by (simp add: hp_onConnection_def tls_instance_def)
  have d: "distinct (insort_insert c cs)" using cs(2) by (simp add: insort_insert_key_def distinct_insort)
  have empty: "hpOut s c = []" using I new(1) by blast
  have "\<exists>cs. ((hpInst s)(home c \<mapsto> insort_insert c cs')) l = Some cs \<and> distinct cs
      \<and> (\<forall>d \<in> set cs. home d = l \<and> d \<in> insert c seen \<and> suffix (hpOut s d) (hpRan s l))"
    if "l \<in> set (hpLoops s)" "cs' = cs" for l cs'
    using I that cs d empty by (cases "l = home c") (auto simp: set_insort_insert)
  then show ?thesis unfolding hp_conn_inv_def eq using I by auto
qed

lemma hp_conn_down:
  assumes inv: "hp_conn_inv home seen s" and "home c \<in> set (hpLoops s)"
  shows "hp_conn_inv home seen (hp_onConnection (home c) c False s)"
proof -
  note I = inv[unfolded hp_conn_inv_def]
  obtain cs where cs: "hpInst s (home c) = Some cs" "distinct cs" "\<forall>d \<in> set cs. home d = home c \<and> d \<in> seen \<and> suffix (hpOut s d) (hpRan s (home c))"
    using I assms(2) by blast
  have eq: "hp_onConnection (home c) c False s = s\<lparr>hpInst := (hpInst s)(home c \<mapsto> remove1 c cs)\<rparr>"
    using cs(1) by (simp add: hp_onConnection_def tls_instance_def)
  have "\<exists>cs. ((hpInst s)(home c \<mapsto> remove1 c cs')) l = Some cs \<and> distinct cs
      \<and> (\<forall>d \<in> set cs. home d = l \<and> d \<in> seen \<and> suffix (hpOut s d) (hpRan s l))"
    if "l \<in> set (hpLoops s)" "cs' = cs" for l cs'
    using I that cs by (cases "l = home c") auto
  then show ?thesis unfolding hp_conn_inv_def eq using I by auto
qed

lemma hp_run_conn:
  assumes inv: "hp_conn_inv home seen s" and ord: "hp_order_inv s"
  shows "hp_conn_inv home seen (hp_run l s)"
proof (cases "hpQueue s l")
  case (Cons m q)
  note I = inv[unfolded hp_conn_inv_def]
  have l: "l \<in> set (hpLoops s)" using ord Cons by (auto simp: hp_order_inv_def)
  then obtain cs where cs: "hpInst s l = Some cs" "distinct cs" "\<forall>d \<in> set cs. home d = l \<and> d \<in> seen \<and> suffix (hpOut s d) (hpRan s l)"
    using I by blast
  have f: "hpLoops (hp_run l s) = hpLoops s" "hpInst (hp_run l s) = hpInst s" "hpRan (hp_run l s) = (hpRan s)(l := hpRan s l @ [m])"
    using Cons cs(1) by (simp_all add: hp_run_def distributeMessage_def tls_instance_def)
  have out: "hpOut (hp_run l s) c = hpOut s c @ (if c \<in> set cs then [m] else [])" for c
    using Cons cs(1) distribute_out[OF cs(2), of m "hpOut s" c] by (simp add: hp_run_def distributeMessage_def tls_instance_def)
  have other: "k \<noteq> l \<Longrightarrow> k \<in> set (hpLoops s) \<Longrightarrow> hpInst s k = Some ds \<Longrightarrow> d \<in> set ds \<Longrightarrow> d \<notin> set cs" for k ds d
    using I cs(3) by fastforce
  have "\<exists>ds. hpInst s k = Some ds \<and> distinct ds
      \<and> (\<forall>d \<in> set ds. home d = k \<and> d \<in> seen \<and> suffix (hpOut (hp_run l s) d) (((hpRan s)(l := hpRan s l @ [m])) k))"
    if k: "k \<in> set (hpLoops s)" for k
  proof (cases "k = l")
    case True
    then show ?thesis using cs out by (auto simp: suffix_def)
  next
    case False
    then show ?thesis using I k other[OF False k] out by fastforce
  qed
  moreover have "sublist (hpOut (hp_run l s) c) (((hpRan s)(l := hpRan s l @ [m])) (home c))" for c
  proof (cases "c \<in> set cs")
    case True
    then have "suffix (hpOut s c) (hpRan s l)" "home c = l" using cs(3) by auto
    then show ?thesis using out[of c] True by (auto simp: suffix_def sublist_def) (metis append_assoc append_Nil2)
  next
    case False
    have "sublist (hpOut s c) (hpRan s (home c))" using I by blast
    then show ?thesis using out[of c] False by (auto simp: sublist_append_rightI sublist_order.order_trans)
  qed
  moreover have "c \<notin> seen \<Longrightarrow> hpOut (hp_run l s) c = []" for c using I cs(3) out[of c] by auto
  ultimately show ?thesis unfolding hp_conn_inv_def f by blast
qed (use inv in \<open>simp add: hp_run_def\<close>)

fun hp_ups :: "hp_event list \<Rightarrow> nat list" where
  "hp_ups [] = []"
| "hp_ups (HpConn c True # evs) = c # hp_ups evs"
| "hp_ups (_ # evs) = hp_ups evs"

lemma hp_ups_append: "hp_ups (xs @ ys) = hp_ups xs @ hp_ups ys"
  by (induction xs rule: hp_ups.induct) auto

lemma hp_loops [simp]: "hpLoops (hp_step home e s) = hpLoops s"
  by (cases e) (auto simp: hp_onConnection_def tls_instance_def hp_lock_def hp_queueInLoop_def hp_run_def distributeMessage_def
      split: option.split list.split prod.split)

lemma hp_steps_inv:
  assumes "hp_order_inv s0" "hp_conn_inv home {} s0" and "\<And>c. home c \<in> set (hpLoops s0)" and "distinct (hp_ups evs)"
  shows "hp_order_inv (fold (hp_step home) evs s0) \<and> hp_conn_inv home (set (hp_ups evs)) (fold (hp_step home) evs s0)
    \<and> hpLoops (fold (hp_step home) evs s0) = hpLoops s0"
  using assms(4)
proof (induction evs rule: rev_induct)
  case (snoc e evs)
  let ?s = "fold (hp_step home) evs s0"
  have IH: "hp_order_inv ?s" "hp_conn_inv home (set (hp_ups evs)) ?s" "hpLoops ?s = hpLoops s0"
    using snoc by (auto simp: hp_ups_append)
  have home: "home c \<in> set (hpLoops ?s)" for c using IH(3) assms(3) by simp
  have "hp_conn_inv home (set (hp_ups (evs @ [e]))) (hp_step home e ?s)"
  proof (cases e)
    case (HpConn c up)
    then show ?thesis
    proof (cases up)
      case True
      then have "c \<notin> set (hp_ups evs)" using snoc.prems HpConn by (simp add: hp_ups_append)
      then show ?thesis using hp_conn_up[OF IH(2) _ home] HpConn True by (simp add: hp_ups_append)
    qed (use hp_conn_down[OF IH(2) home] HpConn in \<open>simp add: hp_ups_append\<close>)
  next
    case (HpRun l)
    then show ?thesis using hp_run_conn[OF IH(2,1)] by (simp add: hp_ups_append)
  qed (use IH(2) in \<open>auto simp: hp_ups_append hp_conn_inv_def hp_lock_def hp_queueInLoop_def split: option.split list.split prod.split\<close>)
  then show ?case using hp_step_order[OF IH(1)] IH(3) by simp
qed (use assms in simp)

text \<open>Property C23. The chat server with a list per thread sends messages in one order to everybody: with any threads, under
  every interleaving of messages, connections and loops (each connection comes up once, in the thread of its loop),
  no assertion fires, every loop distributes the messages in the order of the mutex, and what any connection is sent is an
  unbroken stretch of that one order, up to the last message its loop has distributed while the connection is
  up.\<close>

theorem chat_total_order:
  assumes "distinct ls" and "\<And>c. home c \<in> set ls" and "distinct (hp_ups evs)"
  shows "\<exists>s0 s. foldR threadInit ls newHpChat = Inr s0 \<and> s = fold (hp_step home) evs s0
    \<and> (\<forall>c. sublist (hpOut s c) (hpPosted s))
    \<and> (\<forall>l \<in> set ls. prefix (hpRan s l) (hpPosted s) \<and> (\<exists>cs. hpInst s l = Some cs \<and> (\<forall>c \<in> set cs. suffix (hpOut s c) (hpRan s l))))"
proof -
  obtain s0 where s0: "foldR threadInit ls newHpChat = Inr s0" "distinct (hpLoops s0)" "set (hpLoops s0) = set ls"
      "\<forall>l. hpInst s0 l = (if l \<in> set ls then Some [] else None)" "s0 = newHpChat\<lparr>hpLoops := hpLoops s0, hpInst := hpInst s0\<rparr>"
    using threadInits[OF assms(1)] by blast
  have fields: "hpQueue s0 = (\<lambda>_. [])" "hpPoster s0 = None" "hpOut s0 = (\<lambda>_. [])" "hpRan s0 = (\<lambda>_. [])" "hpPosted s0 = []"
    by (subst s0(5), simp add: newHpChat_def)+
  have "hp_order_inv s0" "hp_conn_inv home {} s0"
    using s0(2,3,4) by (simp_all add: hp_order_inv_def hp_conn_inv_def hp_given_def fields)
  then have inv: "hp_order_inv (fold (hp_step home) evs s0)" "hp_conn_inv home (set (hp_ups evs)) (fold (hp_step home) evs s0)"
      "hpLoops (fold (hp_step home) evs s0) = hpLoops s0"
    using hp_steps_inv[of s0 home evs] assms(2,3) s0(3) by auto
  define s where "s = fold (hp_step home) evs s0"
  have L: "set (hpLoops s) = set ls" using inv(3) s0(3) by (simp add: s_def)
  have pre: "prefix (hpRan s l) (hpPosted s)" if "l \<in> set ls" for l
  proof -
    have "hpRan s l @ hpQueue s l = hp_given s l" using inv(1) that L unfolding s_def[symmetric] hp_order_inv_def by blast
    then have "prefix (hpRan s l) (hp_given s l)" by (metis prefixI)
    moreover have "prefix (hp_given s l) (hpPosted s)" by (auto simp: hp_given_def prefixeq_butlast split: option.split)
    ultimately show ?thesis using prefix_order.trans by blast
  qed
  have C: "hp_conn_inv home (set (hp_ups evs)) s" using inv(2) by (simp add: s_def)
  have "sublist (hpOut s c) (hpPosted s)" for c
  proof -
    have "sublist (hpOut s c) (hpRan s (home c))" using C unfolding hp_conn_inv_def by blast
    then show ?thesis using pre[OF assms(2)[of c]] sublist_order.order_trans prefix_imp_sublist by blast
  qed
  moreover have "\<exists>cs. hpInst s l = Some cs \<and> (\<forall>c \<in> set cs. suffix (hpOut s c) (hpRan s l))" if "l \<in> set ls" for l
    using C that L unfolding hp_conn_inv_def by blast
  ultimately show ?thesis using s0(1) pre s_def by blast
qed

theorem chat_total_order_witness:
  "\<exists>s0 s. foldR threadInit [1, 2] newHpChat = Inr s0
    \<and> s = fold (hp_step (\<lambda>c. if c = 7 then 1 else 2)) [HpConn 7 True, HpMessage ''a'', HpQueue, HpRun 1, HpQueue, HpQueue, HpConn 8 True, HpRun 2] s0
    \<and> sublist (hpOut s 8) (hpPosted s) \<and> prefix (hpRan s 1) (hpPosted s)"
proof -
  let ?evs = "[HpConn 7 True, HpMessage ''a'', HpQueue, HpRun 1, HpQueue, HpQueue, HpConn 8 True, HpRun 2]"
  have "distinct [1 :: nat, 2]" "\<And>c. (if c = (7 :: nat) then 1 else 2) \<in> set [1 :: nat, 2]" "distinct (hp_ups ?evs)" by simp_all
  from chat_total_order[where home = "\<lambda>c. if c = 7 then 1 else 2", OF this] obtain s0 s where s: "foldR threadInit [1, 2] newHpChat = Inr s0"
      "s = fold (hp_step (\<lambda>c. if c = 7 then 1 else 2)) ?evs s0" "\<forall>c. sublist (hpOut s c) (hpPosted s)"
      "\<forall>l \<in> set [1, 2]. prefix (hpRan s l) (hpPosted s)"
    by (elim exE conjE) (rule that, assumption+, simp)
  have "sublist (hpOut s 8) (hpPosted s)" using s(3) by (rule spec)
  moreover have "prefix (hpRan s 1) (hpPosted s)" using s(4) by (rule bspec) simp
  ultimately show ?thesis using s(1,2) by (intro exI conjI)
qed

end
