(* ===== verification/Inspector.thy ===== *)
theory Inspector
  imports HttpServer "HOL-Library.Product_Lexorder"
begin

text \<open>
  The inspector of a running process (\<open>net/inspect/Inspector.cc\<close>, \<open>ProcessInspector.cc\<close>): an HTTP
  callback that finds a registered command by the first two segments of the path and hands it the
  others. A command's callback may be an empty \<open>boost::function\<close> (\<open>None\<close>). What
  \<open>ProcessInfo\<close> reports, whose source is not in the repository, is an argument.
\<close>

subsection \<open>Paths\<close>

text \<open>\<open>std::string::find(c, start)\<close>\<close>

definition find_from :: "char \<Rightarrow> string \<Rightarrow> nat \<Rightarrow> nat option" where
  "find_from c s start = find (\<lambda>i. s ! i = c) [start..<length s]"

lemma find_from_Some: "find_from c s start = Some p \<Longrightarrow> start \<le> p \<and> p < length s"
  by (auto simp: find_from_def find_Some_iff)

text \<open>The loop of \<open>split\<close> from offset \<open>start\<close>.\<close>

function split_loop :: "string \<Rightarrow> nat \<Rightarrow> string list \<Rightarrow> string list" where
  "split_loop str start result =
     (case find_from CHR ''/'' str start of
        Some pos \<Rightarrow>
          split_loop str (pos + 1) (if pos > start then result @ [take (pos - start) (drop start str)] else result)
      | None \<Rightarrow> if start < length str then result @ [drop start str] else result)"
  by pat_completeness auto
termination
  by (relation "measure (\<lambda>(str, start, result). length str - start)") (auto dest!: find_from_Some)

declare split_loop.simps [simp del]

definition ins_split :: "string \<Rightarrow> string list" where
  "ins_split str = split_loop str 0 []"

subsection \<open>Commands\<close>

type_synonym inspect_cb = "http_method \<Rightarrow> string list \<Rightarrow> string"

record inspector =
  insCommands :: "(string \<times> (string \<times> inspect_cb option) list) list"
  insHelps :: "(string \<times> (string \<times> string) list) list"

text \<open>\<open>m[k]\<close> of a map of maps\<close>

definition inner :: "string \<Rightarrow> (string \<times> ('k \<times> 'v) list) list \<Rightarrow> ('k \<times> 'v) list" where
  "inner k m = (case map_of m k of Some l \<Rightarrow> l | None \<Rightarrow> [])"

definition ins_add :: "string \<Rightarrow> string \<Rightarrow> inspect_cb option \<Rightarrow> string \<Rightarrow> inspector \<Rightarrow> inspector" where
  "ins_add module command cb help ins =
     ins\<lparr>insCommands := std_map_put module (std_map_put command cb (inner module (insCommands ins))) (insCommands ins),
         insHelps := std_map_put module (std_map_put command help (inner module (insHelps ins))) (insHelps ins)\<rparr>"

definition help_line :: "string \<Rightarrow> string \<Rightarrow> string \<Rightarrow> string" where
  "help_line module command help = ''/'' @ module @ ''/'' @ command @ [CHR 0x09] @ help @ [CHR 0x0A]"

definition ins_ok_text :: "string \<Rightarrow> http_response \<Rightarrow> http_response" where
  "ins_ok_text body resp = (rs_setContentType ''text/plain'' (resp\<lparr>rsStatusCode := 200, rsStatusMessage := ''OK''\<rparr>))\<lparr>rsBody := body\<rparr>"

definition ins_not_found :: "http_response \<Rightarrow> http_response" where
  "ins_not_found resp = resp\<lparr>rsStatusCode := k404NotFound, rsStatusMessage := ''Not Found''\<rparr>"

definition ins_onRequest :: "inspector \<Rightarrow> http_request \<Rightarrow> http_response \<Rightarrow> http_response" where
  "ins_onRequest ins req resp =
     (if rqPath req = ''/''
      then ins_ok_text (concat (map (\<lambda>(module, list). concat (map (\<lambda>(command, help). help_line module command help) list)) (insHelps ins))) resp
      else (case ins_split (rqPath req) of
              module # command # args \<Rightarrow>
                (case map_of (insCommands ins) module of
                   Some commList \<Rightarrow>
                     (case map_of commList command of
                        Some (Some cb) \<Rightarrow> ins_ok_text (cb (rqMethod req) args) resp
                      | _ \<Rightarrow> ins_not_found resp)
                 | None \<Rightarrow> ins_not_found resp)
            | _ \<Rightarrow> ins_not_found resp))"

subsection \<open>The process inspector\<close>

record process_info =
  piPid :: int
  piStatus :: string
  piOpenedFiles :: int
  piThreads :: "int list"

definition pi_pid :: "process_info \<Rightarrow> inspect_cb" where
  "pi_pid info m args = snprintf 32 (dec_int (piPid info))"

definition pi_procStatus :: "process_info \<Rightarrow> inspect_cb" where
  "pi_procStatus info m args = piStatus info"

definition pi_openedFiles :: "process_info \<Rightarrow> inspect_cb" where
  "pi_openedFiles info m args = snprintf 32 (dec_int (piOpenedFiles info))"

definition pi_threads :: "process_info \<Rightarrow> inspect_cb" where
  "pi_threads info m args = fold (\<lambda>t result. result @ snprintf 32 (dec_int t @ [CHR 0x0A])) (piThreads info) []"

definition registerCommands :: "process_info \<Rightarrow> inspector \<Rightarrow> inspector" where
  "registerCommands info =
     ins_add ''proc'' ''threads'' (Some (pi_threads info)) ''list /proc/self/task''
   \<circ> ins_add ''proc'' ''opened_files'' (Some (pi_openedFiles info)) ''count /proc/self/fd''
   \<circ> ins_add ''proc'' ''status'' (Some (pi_procStatus info)) ''print /proc/self/status''
   \<circ> ins_add ''proc'' ''pid'' (Some (pi_pid info)) ''print pid''"

text \<open>The constructor, with whether it runs in the main thread and whether \<open>g_globalInspector\<close> is set; it
  sets it, and queues the start of the server.\<close>

definition newInspector :: "process_info \<Rightarrow> bool \<Rightarrow> bool \<Rightarrow> (bool \<times> inspector) res" where
  "newInspector info main global =
     ensure main ''Inspector: isMainThread()''
    (ensure (\<not> global) ''Inspector: g_globalInspector == 0''
      (Inr (True, registerCommands info \<lparr>insCommands = [], insHelps = []\<rparr>)))"

definition destroyInspector :: "bool \<Rightarrow> bool \<Rightarrow> bool res" where
  "destroyInspector main global = ensure main ''~Inspector: isMainThread()'' (Inr False)"

subsection \<open>Segments of a path\<close>

fun fields :: "string \<Rightarrow> string list" where
  "fields [] = [[]]"
| "fields (c # cs) = (if c = CHR ''/'' then [] # fields cs else (c # hd (fields cs)) # tl (fields cs))"

definition segments :: "string \<Rightarrow> string list" where
  "segments s = filter (\<lambda>f. f \<noteq> []) (fields s)"

lemma fields_ne [simp]: "fields s \<noteq> []"
  by (cases s) auto

lemma fields_plain: "CHR ''/'' \<notin> set s \<Longrightarrow> fields s = [s]"
  by (induction s) auto

lemma fields_slash: "CHR ''/'' \<notin> set s \<Longrightarrow> fields (s @ CHR ''/'' # t) = s # fields t"
  by (induction s) auto

lemma split_loop_segments: "split_loop str start result = result @ segments (drop start str)"
proof (induction str start result rule: split_loop.induct)
  case (1 str start result)
  show ?case
  proof (cases "find_from CHR ''/'' str start")
    case None
    have "CHR ''/'' \<notin> set (drop start str)"
    proof
      assume "CHR ''/'' \<in> set (drop start str)"
      then obtain i where "i < length str - start" "str ! (start + i) = CHR ''/''" by (auto simp: in_set_conv_nth)
      then show False using None by (auto simp: find_from_def find_None_iff dest: spec[of _ "start + i"])
    qed
    then show ?thesis using None by (simp add: split_loop.simps[of str start] segments_def fields_plain)
  next
    case (Some p)
    then obtain k where k: "k < length str - start" "p = start + k" "str ! p = CHR ''/''" "\<forall>j < k. str ! (start + j) \<noteq> CHR ''/''"
      by (auto simp: find_from_def find_Some_iff)
    have p: "start \<le> p" "p < length str" using k by auto
    let ?s = "take (p - start) (drop start str)"
    have s: "CHR ''/'' \<notin> set ?s"
    proof
      assume "CHR ''/'' \<in> set ?s"
      then obtain i where "i < p - start" "str ! (start + i) = CHR ''/''" using p by (auto simp: in_set_conv_nth)
      then show False using k by simp
    qed
    have "drop start str = ?s @ CHR ''/'' # drop (p + 1) str"
      using p k(3) id_take_nth_drop[of "p - start" "drop start str"] by simp
    then have "fields (drop start str) = ?s # fields (drop (p + 1) str)" using fields_slash[OF s] by metis
    moreover have "?s = [] \<longleftrightarrow> \<not> start < p" using p by auto
    ultimately show ?thesis using Some "1.IH"[OF Some] p by (auto simp: split_loop.simps[of str start] segments_def)
  qed
qed

lemma split_segments: "ins_split s = segments s"
  by (simp add: ins_split_def split_loop_segments)

text \<open>Every path names its segments.\<close>

lemma segments_path:
  assumes "\<forall>x \<in> set segs. x \<noteq> [] \<and> CHR ''/'' \<notin> set x"
  shows "segments (concat (map (\<lambda>x. CHR ''/'' # x) segs)) = segs"
proof -
  have "fields (x @ concat (map (\<lambda>x. CHR ''/'' # x) xs)) = x # xs" if "\<forall>y \<in> set (x # xs). CHR ''/'' \<notin> set y" for x xs
    using that
  proof (induction xs arbitrary: x)
    case (Cons y ys)
    then show ?case using fields_slash[of x] by simp
  qed (simp add: fields_plain)
  note f = this
  show ?thesis
  proof (cases segs)
    case (Cons x xs)
    have "filter (\<lambda>f. f \<noteq> []) (x # xs) = x # xs" using assms Cons by (intro filter_True) auto
    then show ?thesis using f[of x xs] assms Cons by (simp add: segments_def)
  qed (simp add: segments_def)
qed

subsection \<open>The registry\<close>

text \<open>A sorted map is determined by its lookups.\<close>

lemma std_map_unique: "std_map_wf a \<Longrightarrow> std_map_wf b \<Longrightarrow> map_of a = map_of b \<Longrightarrow> a = b"
proof -
  assume wf: "std_map_wf a" "std_map_wf b" and eq: "map_of a = map_of b"
  have d: "sorted (map fst x) \<and> distinct (map fst x)" if "std_map_wf x" for x :: "('a \<times> 'b) list"
    using that by (simp add: std_map_wf_def strict_sorted_iff)
  have "set a = set b" using eq map_of_inject_set d[OF wf(1)] d[OF wf(2)] by metis
  moreover have "inj_on fst (set a)" using d[OF wf(1)] by (simp add: distinct_map)
  ultimately show ?thesis using map_sorted_distinct_set_unique[of fst a b] d[OF wf(1)] d[OF wf(2)] by simp
qed

text \<open>The entries of a map of maps as one map from pairs of keys.\<close>

definition flat :: "(string \<times> (string \<times> 'v) list) list \<Rightarrow> ((string \<times> string) \<times> 'v) list" where
  "flat m = concat (map (\<lambda>(k, l). map (\<lambda>(c, v). ((k, c), v)) l) m)"

definition nested_wf :: "(string \<times> (string \<times> 'v) list) list \<Rightarrow> bool" where
  "nested_wf m \<longleftrightarrow> std_map_wf m \<and> (\<forall>(k, l) \<in> set m. std_map_wf l)"

definition put2 :: "string \<Rightarrow> string \<Rightarrow> 'v \<Rightarrow> (string \<times> (string \<times> 'v) list) list \<Rightarrow> (string \<times> (string \<times> 'v) list) list" where
  "put2 k c v m = std_map_put k (std_map_put c v (inner k m)) m"

lemma flat_wf: "nested_wf m \<Longrightarrow> std_map_wf (flat m)"
proof (induction m)
  case (Cons e m)
  obtain k l where e: "e = (k, l)" by (metis surj_pair)
  have "std_map_wf (flat m)" using Cons by (auto simp: nested_wf_def std_map_wf_def)
  moreover have "std_map_wf l" "\<forall>x \<in> set m. k < fst x" using Cons.prems e by (auto simp: nested_wf_def std_map_wf_def)
  ultimately show ?case using e by (auto simp: flat_def std_map_wf_def sorted_wrt_append sorted_wrt_map comp_def case_prod_beta)
qed (simp add: flat_def std_map_wf_def)

lemma inner_wf: "nested_wf m \<Longrightarrow> std_map_wf (inner k m)"
  by (auto simp: inner_def nested_wf_def std_map_wf_def split: option.split dest!: map_of_SomeD)

lemma put_elem: "e \<in> set (std_map_put k v m) \<Longrightarrow> e = (k, v) \<or> e \<in> set m"
  by (induction m) (auto split: if_splits)

lemma put2_wf: "nested_wf m \<Longrightarrow> nested_wf (put2 k c v m)"
  using inner_wf[of m k] by (auto simp: nested_wf_def put2_def intro!: std_map_put_wf dest!: put_elem)

lemma map_of_flat: "nested_wf m \<Longrightarrow> map_of (flat m) (k, c) = map_of (inner k m) c"
proof (induction m)
  case (Cons e m)
  obtain k' l where e: "e = (k', l)" by (metis surj_pair)
  have wf: "nested_wf m" and lt: "\<forall>x \<in> set m. k' < fst x" using Cons.prems e by (auto simp: nested_wf_def std_map_wf_def)
  have l: "map_of (map (\<lambda>(c, v). ((k', c), v)) l) (k, c) = (if k = k' then map_of l c else None)"
    by (induction l) auto
  have none: "map_of m k' = None" using lt by (auto simp: map_of_eq_None_iff)
  then have "map_of (flat m) (k', c) = None" using Cons.IH[OF wf] none by (cases "k = k'") (auto simp: inner_def flat_def map_of_eq_None_iff dest: lt[rule_format])
  then show ?case using Cons.IH[OF wf] l e none by (auto simp: flat_def inner_def map_add_def split: option.split)
qed (simp add: flat_def inner_def)

lemma put2_lookup: "nested_wf m \<Longrightarrow> map_of (flat (put2 k c v m)) = (map_of (flat m))((k, c) \<mapsto> v)"
proof (rule ext)
  fix x :: "string \<times> string"
  assume wf: "nested_wf m"
  obtain k' c' where x: "x = (k', c')" by (metis surj_pair)
  have "map_of (inner k' (put2 k c v m)) = (if k' = k then (map_of (inner k m))(c \<mapsto> v) else map_of (inner k' m))"
    using wf inner_wf[OF wf, of k] by (auto simp: put2_def inner_def nested_wf_def)
  then show "map_of (flat (put2 k c v m)) x = ((map_of (flat m))((k, c) \<mapsto> v)) x"
    using map_of_flat[OF wf] map_of_flat[OF put2_wf[OF wf]] x by auto
qed

lemma flat_put2: "nested_wf m \<Longrightarrow> flat (put2 k c v m) = std_map_put (k, c) v (flat m)"
  by (rule std_map_unique) (simp_all add: flat_wf put2_wf std_map_put_wf put2_lookup)

type_synonym registration = "string \<times> string \<times> inspect_cb option \<times> string"

definition reg_commands :: "registration list \<Rightarrow> ((string \<times> string) \<times> inspect_cb option) list" where
  "reg_commands adds = fold (\<lambda>(m, c, cb, help). std_map_put (m, c) cb) adds []"

definition reg_helps :: "registration list \<Rightarrow> ((string \<times> string) \<times> string) list" where
  "reg_helps adds = fold (\<lambda>(m, c, cb, help). std_map_put (m, c) help) adds []"

definition add_all :: "registration list \<Rightarrow> inspector \<Rightarrow> inspector" where
  "add_all adds = fold (\<lambda>(m, c, cb, help). ins_add m c cb help) adds"

lemma add_all_flat:
  assumes "nested_wf (insCommands ins)" "nested_wf (insHelps ins)"
  shows "nested_wf (insCommands (add_all adds ins)) \<and> nested_wf (insHelps (add_all adds ins))
    \<and> flat (insCommands (add_all adds ins)) = fold (\<lambda>(m, c, cb, help). std_map_put (m, c) cb) adds (flat (insCommands ins))
    \<and> flat (insHelps (add_all adds ins)) = fold (\<lambda>(m, c, cb, help). std_map_put (m, c) help) adds (flat (insHelps ins))"
  using assms
proof (induction adds arbitrary: ins)
  case (Cons a adds)
  obtain m c cb h where a: "a = (m, c, cb, h)" by (metis prod_cases4)
  have "insCommands (ins_add m c cb h ins) = put2 m c cb (insCommands ins)" "insHelps (ins_add m c cb h ins) = put2 m c h (insHelps ins)"
    by (simp_all add: ins_add_def put2_def)
  then show ?case using Cons.IH[of "ins_add m c cb h ins"] Cons.prems a by (simp add: add_all_def put2_wf flat_put2)
qed (simp add: add_all_def)

abbreviation no_commands :: inspector where
  "no_commands \<equiv> \<lparr>insCommands = [], insHelps = []\<rparr>"

lemma add_all_none:
  shows "nested_wf (insCommands (add_all adds no_commands))" and "nested_wf (insHelps (add_all adds no_commands))"
    and "flat (insCommands (add_all adds no_commands)) = reg_commands adds"
    and "flat (insHelps (add_all adds no_commands)) = reg_helps adds"
  using add_all_flat[of no_commands adds]
  by (simp_all add: nested_wf_def std_map_wf_def reg_commands_def reg_helps_def) (simp_all add: flat_def)

lemma find_command:
  assumes "nested_wf m"
  shows "(case map_of m k of Some l \<Rightarrow> map_of l c | None \<Rightarrow> None) = map_of (flat m) (k, c)"
  using map_of_flat[OF assms, of k c] by (auto simp: inner_def split: option.split)

definition proc_commands :: "process_info \<Rightarrow> registration list" where
  "proc_commands info =
     [(''proc'', ''pid'', Some (pi_pid info), ''print pid''),
      (''proc'', ''status'', Some (pi_procStatus info), ''print /proc/self/status''),
      (''proc'', ''opened_files'', Some (pi_openedFiles info), ''count /proc/self/fd''),
      (''proc'', ''threads'', Some (pi_threads info), ''list /proc/self/task'')]"

lemma newInspector_registry: "newInspector info True False = Inr (True, add_all (proc_commands info) no_commands)"
  by (simp add: newInspector_def registerCommands_def proc_commands_def add_all_def)

subsection \<open>Properties\<close>

text \<open>What the registry says of a request: at the root one line per registered command, in order, with its last help
  text; at any other path the command registered last under the first two non-empty segments is called
  with the others as arguments; without such a command, or with an empty callback, the answer is 404.\<close>

definition registry_response :: "registration list \<Rightarrow> http_method \<Rightarrow> string \<Rightarrow> http_response \<Rightarrow> http_response" where
  "registry_response adds method path resp =
     (if path = ''/'' then ins_ok_text (concat (map (\<lambda>((m, c), h). help_line m c h) (reg_helps adds))) resp
      else case segments path of
             m # c # args \<Rightarrow> (case map_of (reg_commands adds) (m, c) of
                                Some (Some cb) \<Rightarrow> ins_ok_text (cb method args) resp
                              | _ \<Rightarrow> ins_not_found resp)
           | _ \<Rightarrow> ins_not_found resp)"

lemma inspector_dispatch:
  "ins_onRequest (add_all adds no_commands) req resp = registry_response adds (rqMethod req) (rqPath req) resp"
proof -
  let ?ins = "add_all adds no_commands"
  have one: "concat (map (\<lambda>(command, h). help_line a command h) l) = concat (map (\<lambda>((m, c), h). help_line m c h) (map (\<lambda>(c, v). ((a, c), v)) l))" for a l
    by (induction l) auto
  have lines: "concat (map (\<lambda>(module, list). concat (map (\<lambda>(command, h). help_line module command h) list)) m)
      = concat (map (\<lambda>((m, c), h). help_line m c h) (flat m))" for m
    by (induction m) (auto simp: flat_def one)
  have c: "(case map_of (insCommands ?ins) m of
             Some l \<Rightarrow> (case map_of l c of Some (Some cb) \<Rightarrow> P cb | _ \<Rightarrow> Q) | None \<Rightarrow> Q)
         = (case map_of (reg_commands adds) (m, c) of Some (Some cb) \<Rightarrow> P cb | _ \<Rightarrow> Q)" for m c P and Q :: http_response
    using find_command[OF add_all_none(1)[of adds], of c m] add_all_none(3)[of adds] by (auto split: option.split)
  show ?thesis unfolding ins_onRequest_def registry_response_def lines split_segments add_all_none(4)
    by (auto simp: c split: list.split)
qed

lemma onRequest_text:
  assumes "\<bar>rsStatusCode r\<bar> < 10 ^ 18" "length (rsBody r) < 10 ^ 13" and "r = cb req (newHttpResponse (wants_close req))"
  shows "http_onRequest cb req = Inr (HoSend (response_text r) # (if rsClose r then [HoShutdown] else []))"
proof -
  obtain b where b: "appendToBuffer r newBuffer = Inr b" "buf_wf b" "readable b = response_text r"
    using http_response_whole[OF newBuffer_wf assms(1,2)] by auto
  have "readableBytes b = length (response_text r)" using b(2,3) by (metis readableBytes_readable)
  then have "range_at b (peek b) (peek b + readableBytes b) = response_text r"
    using range_at_peek[OF b(2), of "readableBytes b"] b(3) by simp
  then show ?thesis using b(1) assms(3) by (simp add: http_onRequest_def Let_def)
qed

lemma registry_response_head:
  shows "rsClose (registry_response adds m p r) = rsClose r" and "\<bar>rsStatusCode (registry_response adds m p r)\<bar> < 10 ^ 18"
  by (auto simp: registry_response_def ins_ok_text_def ins_not_found_def rs_setContentType_def rs_addHeader_def k404NotFound_def
      split: list.split option.split)

definition inspector_answer :: "registration list \<Rightarrow> http_method \<Rightarrow> string \<Rightarrow> http_version \<Rightarrow> (string \<times> string) list \<Rightarrow> http_response" where
  "inspector_answer adds method path v hs =
     registry_response adds method path (newHttpResponse (wants_close (newHttpRequest\<lparr>rqVersion := v, rqHeaders := header_map hs []\<rparr>)))"

text \<open>Property C21. The inspector answers over the network as its registry says: whatever commands were registered, in whatever
  order, and however the network cuts a request, its one answer is the text of the response the registry
  determines: the list of all commands at the root, the result of the command named by the first two
  segments of the path (however many slashes it has) on the method and the other segments, or 404; and the connection is shut
  down exactly when the request asks for it.\<close>

theorem inspector_over_http:
  assumes "request_ok method path v hs" and "length (rsBody (inspector_answer adds method path v hs)) < 10 ^ 13"
    and "concat (map snd segs) = request_text method path v hs" and "\<And>ts. ts \<in> set segs \<Longrightarrow> snd ts \<noteq> []"
  shows "\<exists>b ctx. http_deliver (ins_onRequest (add_all adds no_commands)) segs newBuffer newHttpContext
      = Some (Inr (HoSend (response_text (inspector_answer adds method path v hs)) # (if rsClose (inspector_answer adds method path v hs) then [HoShutdown] else []), b, ctx)) \<and> readable b = []"
proof -
  let ?cb = "ins_onRequest (add_all adds no_commands)" and ?a = "inspector_answer adds method path v hs"
  obtain req outs b ctx where r: "http_onRequest ?cb req = Inr outs"
      "http_deliver ?cb segs newBuffer newHttpContext = Some (Inr (outs, b, ctx))" "readable b = []"
      "rqMethod req = method" "rqPath req = path" "rqVersion req = v" "rqHeaders req = header_map hs []"
    using http_request_served[OF assms(1,3,4), of ?cb] by blast
  have cl: "wants_close req = wants_close (newHttpRequest\<lparr>rqVersion := v, rqHeaders := header_map hs []\<rparr>)"
    using r(6,7) by (simp add: wants_close_def rq_getHeader_def)
  then have a: "?a = ?cb req (newHttpResponse (wants_close req))" unfolding inspector_dispatch inspector_answer_def r(4,5) by simp
  have "\<bar>rsStatusCode ?a\<bar> < 10 ^ 18" unfolding inspector_answer_def by (rule registry_response_head)
  from onRequest_text[of ?a ?cb req, OF this assms(2) a] r(1-3) show ?thesis by auto
qed

theorem inspector_over_http_witness:
  "\<exists>b ctx. http_deliver (ins_onRequest (add_all (proc_commands \<lparr>piPid = 42, piStatus = [], piOpenedFiles = 3, piThreads = [42]\<rparr>) no_commands))
      (map (\<lambda>ch. (7, [ch])) (request_text kGet ''/proc//pid'' kHttp11 [])) newBuffer newHttpContext
      = Some (Inr ([HoSend (response_text (ins_ok_text ''42'' (newHttpResponse False)))], b, ctx)) \<and> readable b = []"
proof -
  let ?info = "\<lparr>piPid = 42, piStatus = [], piOpenedFiles = 3, piThreads = [42]\<rparr>"
  let ?segs = "map (\<lambda>ch. (7 :: int, [ch])) (request_text kGet ''/proc//pid'' kHttp11 [])"
  have ok: "request_ok kGet ''/proc//pid'' kHttp11 []" by (simp add: request_ok_def cr_def)
  have one: "concat (map (snd \<circ> (\<lambda>ch. (7 :: int, [ch]))) xs) = xs" for xs :: string by (induction xs) auto
  have cl: "wants_close (newHttpRequest\<lparr>rqVersion := kHttp11, rqHeaders := header_map [] []\<rparr>) = False"
    by (simp add: wants_close_def rq_getHeader_def header_map_def)
  have n: "dec_nat 42 = ''42''" by code_simp
  have "map_of (reg_commands (proc_commands ?info)) (''proc'', ''pid'') = Some (Some (pi_pid ?info))"
    by (simp add: reg_commands_def proc_commands_def less_prod_def')
  then have ans: "registry_response (proc_commands ?info) kGet ''/proc//pid'' (newHttpResponse False) = ins_ok_text ''42'' (newHttpResponse False)"
    by (simp add: registry_response_def segments_def pi_pid_def dec_int_def n snprintf_def)
  then have a: "inspector_answer (proc_commands ?info) kGet ''/proc//pid'' kHttp11 [] = ins_ok_text ''42'' (newHttpResponse False)"
    unfolding inspector_answer_def cl .
  then have len: "length (rsBody (inspector_answer (proc_commands ?info) kGet ''/proc//pid'' kHttp11 [])) < 10 ^ 13" by (simp add: ins_ok_text_def)
  have segs: "concat (map snd ?segs) = request_text kGet ''/proc//pid'' kHttp11 []" by (simp add: one)
  have ne: "snd ts \<noteq> []" if "ts \<in> set ?segs" for ts using that by auto
  have "\<exists>b ctx. http_deliver (ins_onRequest (add_all (proc_commands ?info) no_commands)) ?segs newBuffer newHttpContext
      = Some (Inr (HoSend (response_text (ins_ok_text ''42'' (newHttpResponse False)))
          # (if rsClose (ins_ok_text ''42'' (newHttpResponse False)) then [HoShutdown] else []), b, ctx)) \<and> readable b = []"
    using inspector_over_http[OF ok len segs ne] unfolding a .
  then show ?thesis by (simp add: ins_ok_text_def rs_setContentType_def rs_addHeader_def newHttpResponse_def)
qed

end
