(* ===== verification/FileUtil.thy ===== *)
theory FileUtil
  imports Muduo_Prelude
begin

text \<open>
  \<open>base/FileUtil.cc\<close> (reading small files, with whatever \<open>open\<close>, \<open>fstat\<close>, \<open>read\<close> and \<open>pread\<close> return as
  arguments) and \<open>base/Atomic.h\<close> (atomic counters of 32 or 64 bits).
\<close>

subsection \<open>Small files\<close>

definition kBufferSize :: nat where "kBufferSize = 65536"
definition EISDIR :: int where "EISDIR = 21"

record small_file =
  sfFd :: int
  sfErr :: int
  sfBuf :: "char list"

text \<open>The constructor: what \<open>open\<close> returns, errno, and what the uninitialised \<open>buf_\<close> holds.\<close>

definition newSmallFile :: "int \<Rightarrow> int \<Rightarrow> char list \<Rightarrow> small_file" where
  "newSmallFile fd errno garbage = \<lparr>sfFd = fd, sfErr = (if fd < 0 then errno else 0), sfBuf = garbage[0 := CHR 0x00]\<rparr>"

text \<open>The destructor closes the descriptor it was given.\<close>

definition destroySmallFile :: "small_file \<Rightarrow> int option" where
  "destroySmallFile sf = (if sfFd sf \<ge> 0 then Some (sfFd sf) else None)"

datatype file_mode = Regular | Directory | OtherMode

record file_stat =
  stMode :: file_mode
  stSize :: int
  stMtime :: int
  stCtime :: int

text \<open>The results of \<open>fstat\<close> and \<open>read\<close>, an errno or a value; the kernel's state is \<open>'s\<close>, and a read takes the state and
  the number of bytes asked for. It returns at most that many (the others are dropped here, as if it had).\<close>

type_synonym 's reader = "'s \<Rightarrow> nat \<Rightarrow> (int + char list) \<times> 's"

text \<open>\<open>memcpy\<close> to the start of an array\<close>

definition overwrite :: "char list \<Rightarrow> char list \<Rightarrow> char list" where
  "overwrite d buf = d @ drop (length d) buf"

text \<open>The read loop: the error, the content, the kernel and the buffer it leaves.\<close>

function read_loop :: "'s reader \<Rightarrow> nat \<Rightarrow> int \<Rightarrow> char list \<Rightarrow> 's \<Rightarrow> char list \<Rightarrow> int \<times> char list \<times> 's \<times> char list" where
  "read_loop rd limit err content k buf =
     (if length content < limit then
        let toRead = min (limit - length content) kBufferSize
        in case rd k toRead of
             (Inr d, k1) \<Rightarrow>
               let got = take toRead d
               in if length got > 0 then read_loop rd limit err (content @ got) k1 (overwrite got buf)
                  else (err, content, k1, buf)
           | (Inl errno, k1) \<Rightarrow> (errno, content, k1, buf)
      else (err, content, k, buf))"
  by pat_completeness auto
termination
  by (relation "measure (\<lambda>(rd, limit, err, content, k, buf). limit - length content)") (auto simp: Let_def kBufferSize_def intro!: diff_less_mono2)

declare read_loop.simps [simp del]

record read_result =
  rrErr :: int
  rrContent :: "char list"
  rrSize :: "int option"
  rrMtime :: "int option"
  rrCtime :: "int option"

text \<open>\<open>readToString\<close>, with which of the three output arguments are given, what \<open>content\<close> held before, and the answer of
  \<open>fstat\<close>. The conversion of \<open>maxSize\<close> to \<open>size_t\<close> wraps; \<open>reserve\<close> throws on a negative number, converted the same way.\<close>

definition readToString ::
  "'s reader \<Rightarrow> (int + file_stat) \<Rightarrow> int \<Rightarrow> char list \<Rightarrow> bool \<Rightarrow> bool \<Rightarrow> bool \<Rightarrow> 's \<Rightarrow> small_file \<Rightarrow> (read_result \<times> 's \<times> small_file) res" where
  "readToString rd fstat maxSize old wantSize wantM wantC k sf =
     (if sfFd sf \<ge> 0 then
        let st = (if wantSize then Some fstat else None);
            (err, sz, m, c) =
              (case st of
                 None \<Rightarrow> (sfErr sf, None, None, None)
               | Some (Inr s) \<Rightarrow>
                   (if stMode s = Directory then EISDIR else sfErr sf,
                    if stMode s = Regular then Some (stSize s) else None,
                    if wantM then Some (stMtime s) else None,
                    if wantC then Some (stCtime s) else None)
               | Some (Inl errno) \<Rightarrow> (errno, None, None, None))
        in if (case sz of Some n \<Rightarrow> min maxSize n < 0 | None \<Rightarrow> False) then Inl (Thrown ''length_error'')
           else (case read_loop rd (nat (maxSize mod 2 ^ 64)) err [] k (sfBuf sf) of
                   (err', content, k', buf) \<Rightarrow>
                     Inr (\<lparr>rrErr = err', rrContent = content, rrSize = sz, rrMtime = m, rrCtime = c\<rparr>, k', sf\<lparr>sfBuf := buf\<rparr>))
      else Inr (\<lparr>rrErr = sfErr sf, rrContent = old, rrSize = None, rrMtime = None, rrCtime = None\<rparr>, k, sf))"

text \<open>\<open>readToBuffer\<close>, given what \<open>pread\<close> at offset 0 returns: the error, the size reported, the file.\<close>

definition readToBuffer :: "(nat \<Rightarrow> int + char list) \<Rightarrow> small_file \<Rightarrow> int \<times> int option \<times> small_file" where
  "readToBuffer pread sf =
     (if sfFd sf \<ge> 0 then
        (case pread (kBufferSize - 1) of
           Inr d \<Rightarrow>
             let got = take (kBufferSize - 1) d
             in (sfErr sf, Some (int (length got)), sf\<lparr>sfBuf := (overwrite got (sfBuf sf))[length got := CHR 0x00]\<rparr>)
         | Inl errno \<Rightarrow> (errno, None, sf))
      else (sfErr sf, None, sf))"

text \<open>\<open>readFile\<close>: the result, and the descriptor it closes.\<close>

definition readFile ::
  "'s reader \<Rightarrow> int \<Rightarrow> int \<Rightarrow> char list \<Rightarrow> (int + file_stat) \<Rightarrow> int \<Rightarrow> char list \<Rightarrow> bool \<Rightarrow> bool \<Rightarrow> bool \<Rightarrow> 's \<Rightarrow> (read_result \<times> int option) res" where
  "readFile rd fd errno garbage fstat maxSize old wantSize wantM wantC k =
     bindR (readToString rd fstat maxSize old wantSize wantM wantC k (newSmallFile fd errno garbage)) (\<lambda>(r, k', sf).
     Inr (r, destroySmallFile sf))"

subsection \<open>Files\<close>

text \<open>A file read from an offset, with reads as short as the kernel likes, as long as they make progress.\<close>

definition file_reader :: "char list \<Rightarrow> (nat \<Rightarrow> nat \<Rightarrow> nat) \<Rightarrow> nat reader" where
  "file_reader F short pos n = (let m = min (short pos n) (length F - pos) in (Inr (take m (drop pos F)), pos + m))"

lemma read_loop_bound:
  "length content \<le> limit \<Longrightarrow> read_loop rd limit err content k buf = (err', content', k', buf') \<Longrightarrow>
   length content' \<le> limit \<and> (\<exists>more. content' = content @ more)"
proof (induction rd limit err content k buf rule: read_loop.induct)
  case (1 rd limit err content k buf)
  let ?n = "min (limit - length content) kBufferSize"
  obtain a k1 where a: "rd k ?n = (a, k1)" by (metis surj_pair)
  show ?case
  proof (cases "\<exists>d. length content < limit \<and> a = Inr d \<and> 0 < length (take ?n d)")
    case True
    then obtain d where d: "length content < limit" "a = Inr d" "0 < length (take ?n d)" by blast
    have "read_loop rd limit err (content @ take ?n d) k1 (overwrite (take ?n d) buf) = (err', content', k', buf')"
      using "1.prems"(2) d a by (subst (asm) read_loop.simps) (simp add: Let_def)
    moreover have "length (content @ take ?n d) \<le> limit" using d(1) by simp
    ultimately show ?thesis using "1.IH"[OF d(1) refl a[symmetric] d(2) refl d(3)] by auto
  next
    case False
    then have "content' = content"
      using "1.prems"(2) a by (subst (asm) read_loop.simps) (auto simp: Let_def split: if_splits sum.splits)
    then show ?thesis using "1.prems"(1) by simp
  qed
qed

lemma read_loop_file:
  assumes short: "\<And>p n. 0 < n \<Longrightarrow> 1 \<le> short p n \<and> short p n \<le> n"
  shows "content = take (length content) F \<Longrightarrow> length content \<le> limit \<Longrightarrow> length content \<le> length F \<Longrightarrow>
    \<exists>k' buf'. read_loop (file_reader F short) limit err content (length content) buf = (err, take limit F, k', buf')"
proof (induction "limit - length content" arbitrary: content buf rule: less_induct)
  case less
  let ?n = "length content" and ?rd = "file_reader F short"
  show ?case
  proof (cases "?n < limit \<and> ?n < length F")
    case True
    define toRead where "toRead = min (limit - ?n) kBufferSize"
    have pos: "0 < toRead" using True by (simp add: toRead_def kBufferSize_def)
    define m where "m = min (short ?n toRead) (length F - ?n)"
    have s: "1 \<le> short ?n toRead" "short ?n toRead \<le> toRead" using short[OF pos, of ?n] by auto
    have "m \<le> short ?n toRead" "m \<le> length F - ?n" "0 < m" using s True by (simp_all add: m_def)
    moreover have "toRead \<le> limit - ?n" by (simp add: toRead_def)
    ultimately have m: "0 < m" "m \<le> toRead" "m \<le> length F - ?n" "m \<le> limit - ?n" using s by linarith+
    let ?d = "take m (drop ?n F)"
    have d: "take toRead ?d = ?d" "length ?d = m" using m by simp_all
    have nx: "content @ ?d = take (?n + m) F" using less.prems(1) by (metis take_add)
    have len: "length (content @ ?d) = ?n + m" using d(2) by simp
    have "read_loop ?rd limit err content ?n buf = read_loop ?rd limit err (content @ ?d) (?n + m) (overwrite ?d buf)"
      using True d m(1) s(1) pos by (subst read_loop.simps) (simp add: file_reader_def Let_def toRead_def[symmetric] m_def[symmetric])
    moreover have "\<exists>k' buf'. read_loop ?rd limit err (content @ ?d) (length (content @ ?d)) (overwrite ?d buf) = (err, take limit F, k', buf')"
      by (rule less.hyps) (use m True less.prems nx len in simp_all)
    ultimately show ?thesis unfolding len by simp
  next
    case False
    then have "content = take limit F" using less.prems by (metis le_neq_implies_less min.absorb_iff2 take_all_iff take_take)
    moreover have "file_reader F short ?n (min (limit - ?n) kBufferSize) = (Inr [], ?n)" if "?n < limit"
      using False that by (simp add: file_reader_def)
    ultimately show ?thesis by (subst read_loop.simps) (auto simp: Let_def)
  qed
qed

text \<open>A file is read up to the limit, however short its reads are: content, size and times are those of the file, no error
  is reported, and the descriptor is closed.\<close>

theorem readFile_whole:
  assumes "\<And>p n. 0 < n \<Longrightarrow> 1 \<le> short p n \<and> short p n \<le> n" and "0 \<le> maxSize" "maxSize < 2 ^ 31" and "0 \<le> fd"
    and "stMode st = Regular" "stSize st = int (length F)"
  shows "readFile (file_reader F short) fd errno garbage (Inr st) maxSize old True True True 0
    = Inr (\<lparr>rrErr = 0, rrContent = take (nat maxSize) F, rrSize = Some (int (length F)), rrMtime = Some (stMtime st), rrCtime = Some (stCtime st)\<rparr>, Some fd)"
proof -
  have m: "maxSize mod 2 ^ 64 = maxSize" using assms(2,3) by (intro mod_pos_pos_trivial) simp_all
  obtain k' buf' where "read_loop (file_reader F short) (nat maxSize) 0 [] 0 (garbage[0 := CHR 0x00]) = (0, take (nat maxSize) F, k', buf')"
    using read_loop_file[of short "[]" F "nat maxSize" 0 "garbage[0 := CHR 0x00]"] assms(1) by auto
  then show ?thesis using assms(2,4-6) m by (simp add: readFile_def readToString_def newSmallFile_def destroySmallFile_def)
qed

text \<open>Whatever the kernel answers, the content never exceeds the limit, and an error of \<open>open\<close> leaves everything as it was.\<close>

lemma readToString_bounded:
  assumes "readToString rd st maxSize old ws wm wc k sf = Inr (r, k', sf')" and "0 \<le> sfFd sf" and "0 \<le> maxSize" "maxSize < 2 ^ 31"
  shows "length (rrContent r) \<le> nat maxSize"
proof -
  have m: "maxSize mod 2 ^ 64 = maxSize" using assms(3,4) by (intro mod_pos_pos_trivial) simp_all
  show ?thesis using assms(1,2) m
    by (auto simp: readToString_def Let_def split: prod.splits if_splits dest!: read_loop_bound[rotated])
qed

lemma readFile_open_error:
  "fd < 0 \<Longrightarrow> readFile rd fd errno garbage st maxSize old ws wm wc k
    = Inr (\<lparr>rrErr = errno, rrContent = old, rrSize = None, rrMtime = None, rrCtime = None\<rparr>, None)"
  by (simp add: readFile_def readToString_def newSmallFile_def destroySmallFile_def)

text \<open>The times are only reported to a caller that asks for the size as well.\<close>

lemma times_need_size:
  assumes "readToString rd st maxSize old False True True k sf = Inr (r, k', sf')"
  shows "rrMtime r = None \<and> rrCtime r = None"
  using assms by (auto simp: readToString_def split: if_splits prod.splits)

text \<open>The buffer always holds a terminated string of at most 65535 bytes, which is the start of the file.\<close>

lemma readToBuffer_string:
  assumes "length (sfBuf sf) = kBufferSize" and "0 \<le> sfFd sf" "pread (kBufferSize - 1) = Inr d"
  shows "\<exists>n sf'. readToBuffer pread sf = (sfErr sf, Some (int n), sf') \<and> n < kBufferSize \<and> length (sfBuf sf') = kBufferSize
    \<and> take n (sfBuf sf') = take 65535 d \<and> sfBuf sf' ! n = CHR 0x00"
  using assms by (simp add: readToBuffer_def Let_def kBufferSize_def overwrite_def nth_append min_def)

subsection \<open>Atomic integers\<close>

text \<open>Each operation is one atomic instruction on \<open>value_\<close> (addition after \<open>__sync_fetch_and_add\<close> is the caller's own): the
  result and the new value.\<close>

definition at_new :: "'w::len word" where "at_new = 0"

definition at_get :: "'w::len word \<Rightarrow> 'w word \<times> 'w word" where
  "at_get v = (v, if v = 0 then 0 else v)"

definition getAndAdd :: "'w::len word \<Rightarrow> 'w word \<Rightarrow> 'w word \<times> 'w word" where
  "getAndAdd x v = (v, v + x)"

definition addAndGet :: "'w::len word \<Rightarrow> 'w word \<Rightarrow> 'w word \<times> 'w word" where
  "addAndGet x v = (case getAndAdd x v of (old, v') \<Rightarrow> (old + x, v'))"

definition incrementAndGet :: "'w::len word \<Rightarrow> 'w word \<times> 'w word" where
  "incrementAndGet = addAndGet 1"

definition decrementAndGet :: "'w::len word \<Rightarrow> 'w word \<times> 'w word" where
  "decrementAndGet = addAndGet (- 1)"

definition at_add :: "'w::len word \<Rightarrow> 'w word \<Rightarrow> 'w word" where
  "at_add x v = snd (getAndAdd x v)"

definition at_increment :: "'w::len word \<Rightarrow> 'w word" where
  "at_increment v = snd (incrementAndGet v)"

definition at_decrement :: "'w::len word \<Rightarrow> 'w word" where
  "at_decrement v = snd (decrementAndGet v)"

definition getAndSet :: "'w::len word \<Rightarrow> 'w word \<Rightarrow> 'w word \<times> 'w word" where
  "getAndSet x v = (v, x)"

text \<open>The results of \<open>n\<close> calls of \<open>incrementAndGet\<close>, by whatever threads, in the order of their instructions.\<close>

fun tickets :: "nat \<Rightarrow> 'w::len word \<Rightarrow> 'w word list" where
  "tickets 0 v = []"
| "tickets (Suc n) v = (case incrementAndGet v of (r, v') \<Rightarrow> r # tickets n v')"

lemma tickets_eq: "tickets n v = map (\<lambda>i. v + word_of_nat (Suc i)) [0..<n]"
proof (induction n arbitrary: v)
  case (Suc n)
  have "map (\<lambda>i. v + word_of_nat (Suc i)) [0..<Suc n] = (v + 1) # map (\<lambda>i. v + 1 + word_of_nat (Suc i)) [0..<n]"
    by (simp add: upt_conv_Cons map_Suc_upt[symmetric] algebra_simps del: upt_Suc)
  then show ?case using Suc.IH by (simp add: incrementAndGet_def addAndGet_def getAndAdd_def del: upt_Suc)
qed simp

text \<open>Numbers drawn from a counter are different as long as fewer than \<open>2 ^ w\<close> are drawn.\<close>

lemma tickets_distinct:
  fixes v :: "'w::len word"
  assumes "n \<le> 2 ^ LENGTH('w)"
  shows "distinct (tickets n v)"
proof -
  have "inj_on (\<lambda>i. v + word_of_nat (Suc i)) {0..<n}"
  proof (rule inj_onI)
    fix i j assume ij: "i \<in> {0..<n}" "j \<in> {0..<n}" "v + word_of_nat (Suc i) = v + word_of_nat (Suc j)"
    then have "(word_of_nat i :: 'w word) = word_of_nat j" by simp
    then have "i mod 2 ^ LENGTH('w) = j mod 2 ^ LENGTH('w)" by (simp add: word_of_nat_eq_iff take_bit_eq_mod)
    then show "i = j" using ij assms by simp
  qed
  then show ?thesis by (simp add: tickets_eq distinct_map)
qed

end
