(* ===== verification/Threads.thy ===== *)
theory Threads
  imports Logging FileUtil
begin

text \<open>
  \<open>base/Mutex.h\<close>, \<open>Condition.h\<close> and \<open>Thread.cc\<close>: a mutex that remembers the thread that holds it, under any interleaving of
  threads that lock, unlock and wait on its condition; and the life of a thread. A thread is known by its id, which is not zero; the \<open>pthread\<close>
  mutex is its owner.
\<close>

subsection \<open>Mutex and condition\<close>

text \<open>Where a thread is: outside; inside \<open>lock\<close> before it writes \<open>holder_\<close>; between \<open>lock\<close> and \<open>unlock\<close>; inside \<open>unlock\<close> after it cleared
  \<open>holder_\<close>; inside \<open>Condition::wait\<close>; or back from such a wait and still to unlock.\<close>

datatype lock_phase = Outside | Locking | Inside | Unlocking | Waiting | BackFromWait

record mutex =
  mxOwner :: "nat option"
  mxHolder :: nat
  mxPhase :: "nat \<Rightarrow> lock_phase"

definition newMutexLock :: mutex where
  "newMutexLock = \<lparr>mxOwner = None, mxHolder = 0, mxPhase = (\<lambda>_. Outside)\<rparr>"

definition isLockedByThisThread :: "nat \<Rightarrow> mutex \<Rightarrow> bool" where
  "isLockedByThisThread tid m \<longleftrightarrow> mxHolder m = tid"

definition assertLocked :: "nat \<Rightarrow> mutex \<Rightarrow> unit res" where
  "assertLocked tid m = ensure (isLockedByThisThread tid m) ''assertLocked: isLockedByThisThread()'' (Inr ())"

definition destroyMutexLock :: "mutex \<Rightarrow> unit res" where
  "destroyMutexLock m = ensure (mxHolder m = 0) ''~MutexLock: holder_ == 0''
     (ensure (mxOwner m = None) ''~MutexLock: pthread_mutex_destroy'' (Inr ()))"

definition mx_phase :: "nat \<Rightarrow> lock_phase \<Rightarrow> mutex \<Rightarrow> mutex" where
  "mx_phase t p m = m\<lparr>mxPhase := (mxPhase m)(t := p)\<rparr>"

text \<open>\<open>lock\<close>: \<open>pthread_mutex_lock\<close>, then the assignment. \<open>unlock\<close>: the assignment, then \<open>pthread_mutex_unlock\<close>.\<close>

definition lock_acquire :: "nat \<Rightarrow> mutex \<Rightarrow> mutex" where
  "lock_acquire t m = mx_phase t Locking (m\<lparr>mxOwner := Some t\<rparr>)"

definition lock_assign :: "nat \<Rightarrow> mutex \<Rightarrow> mutex" where
  "lock_assign t m = mx_phase t Inside (m\<lparr>mxHolder := t\<rparr>)"

definition unlock_assign :: "nat \<Rightarrow> mutex \<Rightarrow> mutex" where
  "unlock_assign t m = mx_phase t Unlocking (m\<lparr>mxHolder := 0\<rparr>)"

definition unlock_release :: "nat \<Rightarrow> mutex \<Rightarrow> mutex" where
  "unlock_release t m = mx_phase t Outside (m\<lparr>mxOwner := None\<rparr>)"

text \<open>\<open>pthread_cond_wait\<close> releases the mutex, and acquires it again before it returns; \<open>holder_\<close> is not touched.\<close>

definition cond_wait_begin :: "nat \<Rightarrow> mutex \<Rightarrow> mutex" where
  "cond_wait_begin t m = mx_phase t Waiting (m\<lparr>mxOwner := None\<rparr>)"

definition cond_wait_end :: "nat \<Rightarrow> mutex \<Rightarrow> mutex" where
  "cond_wait_end t m = mx_phase t BackFromWait (m\<lparr>mxOwner := Some t\<rparr>)"

text \<open>The steps of the threads; \<open>waits\<close> says whether they use the condition.\<close>

inductive mx_step :: "bool \<Rightarrow> mutex \<Rightarrow> mutex \<Rightarrow> bool" for waits where
  mx_acquire: "0 < t \<Longrightarrow> mxPhase m t = Outside \<Longrightarrow> mxOwner m = None \<Longrightarrow> mx_step waits m (lock_acquire t m)"
| mx_assign: "mxPhase m t = Locking \<Longrightarrow> mx_step waits m (lock_assign t m)"
| mx_clear: "mxPhase m t = Inside \<or> mxPhase m t = BackFromWait \<Longrightarrow> mx_step waits m (unlock_assign t m)"
| mx_release: "mxPhase m t = Unlocking \<Longrightarrow> mx_step waits m (unlock_release t m)"
| mx_wait: "waits \<Longrightarrow> mxPhase m t = Inside \<or> mxPhase m t = BackFromWait \<Longrightarrow> mx_step waits m (cond_wait_begin t m)"
| mx_wake: "mxPhase m t = Waiting \<Longrightarrow> mxOwner m = None \<Longrightarrow> mx_step waits m (cond_wait_end t m)"

inductive_cases mx_stepE: "mx_step waits m m'"

definition owns :: "lock_phase \<Rightarrow> bool" where
  "owns p \<longleftrightarrow> p \<in> {Locking, Inside, Unlocking, BackFromWait}"

lemma owns_simps [simp]: "owns Locking" "owns Inside" "owns Unlocking" "owns BackFromWait" "\<not> owns Outside" "\<not> owns Waiting"
  by (simp_all add: owns_def)

definition mx_inv :: "bool \<Rightarrow> mutex \<Rightarrow> bool" where
  "mx_inv waits m \<longleftrightarrow>
     (\<forall>t. owns (mxPhase m t) \<longleftrightarrow> mxOwner m = Some t) \<and> mxPhase m 0 = Outside
   \<and> (\<forall>t. mxPhase m t = Inside \<longrightarrow> mxHolder m = t)
   \<and> (\<forall>t. mxHolder m = t \<and> 0 < t \<longrightarrow> mxPhase m t \<in> {Inside, Waiting, BackFromWait})
   \<and> (\<not> waits \<longrightarrow> (\<forall>t. mxPhase m t \<notin> {Waiting, BackFromWait}))"

lemmas mx_ops = lock_acquire_def lock_assign_def unlock_assign_def unlock_release_def cond_wait_begin_def cond_wait_end_def mx_phase_def

lemma mx_owner_unique: "mx_inv w m \<Longrightarrow> owns (mxPhase m t) \<Longrightarrow> owns (mxPhase m u) \<Longrightarrow> t = u"
  by (auto simp: mx_inv_def)

text \<open>A step of thread \<open>t\<close> to phase \<open>p\<close>.\<close>

lemma mx_upd_inv:
  assumes inv: "mx_inv w m" and t: "0 < t" "mxOwner m = None \<or> mxOwner m = Some t" and own: "mxOwner m' = (if owns p then Some t else None)"
    and ph: "mxPhase m' = (mxPhase m)(t := p)" and w: "\<not> w \<Longrightarrow> p \<notin> {Waiting, BackFromWait}"
    and h: "mxHolder m' = t \<and> p = Inside \<or> mxHolder m' = 0 \<and> p = Unlocking
      \<or> mxHolder m' = mxHolder m \<and> p \<noteq> Inside \<and> (mxHolder m = t \<longrightarrow> p \<in> {Waiting, BackFromWait})"
  shows "mx_inv w m'"
proof -
  have D1: "owns (mxPhase m u) \<longleftrightarrow> mxOwner m = Some u" for u using inv unfolding mx_inv_def by blast
  have D4: "mxHolder m = u \<Longrightarrow> 0 < u \<Longrightarrow> mxPhase m u \<in> {Inside, Waiting, BackFromWait}" for u using inv unfolding mx_inv_def by blast
  have D5: "\<not> w \<Longrightarrow> mxPhase m u \<notin> {Waiting, BackFromWait}" for u using inv unfolding mx_inv_def by blast
  have nz: "mxPhase m 0 = Outside" using inv unfolding mx_inv_def by blast
  have other: "\<not> owns (mxPhase m u)" if "u \<noteq> t" for u using D1[of u] t(2) that by auto
  have "owns (mxPhase m' u) \<longleftrightarrow> mxOwner m' = Some u" for u using other[of u] own ph by (cases "u = t") auto
  moreover have "mxPhase m' 0 = Outside" using nz t(1) ph by simp
  moreover have "mxHolder m' = u" if "mxPhase m' u = Inside" for u
    using other[of u] h ph that by (cases "u = t") auto
  moreover have "mxPhase m' u \<in> {Inside, Waiting, BackFromWait}" if "mxHolder m' = u \<and> 0 < u" for u
    using D4[of u] h ph that t(1) by (cases "u = t") auto
  moreover have "mxPhase m' u \<notin> {Waiting, BackFromWait}" if "\<not> w" for u using D5[OF that, of u] w[OF that] ph by (cases "u = t") auto
  ultimately show ?thesis unfolding mx_inv_def by blast
qed

lemma mx_step_inv:
  assumes inv: "mx_inv w m" and "mx_step w m m'"
  shows "mx_inv w m'"
proof -
  have nz: "0 < u" if "mxPhase m u \<noteq> Outside" for u using inv that unfolding mx_inv_def by (cases u) auto
  have D1: "owns (mxPhase m u) \<Longrightarrow> mxOwner m = Some u" for u using inv unfolding mx_inv_def by blast
  have D4: "mxHolder m = u \<Longrightarrow> 0 < u \<Longrightarrow> mxPhase m u \<in> {Inside, Waiting, BackFromWait}" for u using inv unfolding mx_inv_def by blast
  have D5: "\<not> w \<Longrightarrow> mxPhase m u \<notin> {Waiting, BackFromWait}" for u using inv unfolding mx_inv_def by blast
  from assms(2) show ?thesis
  proof cases
    case (mx_acquire t)
    show ?thesis by (rule mx_upd_inv[OF inv, of t _ Locking]) (use mx_acquire D4[of t] in \<open>auto simp: mx_ops\<close>)
  next
    case (mx_assign t)
    show ?thesis by (rule mx_upd_inv[OF inv, of t _ Inside]) (use mx_assign nz[of t] D1[of t] in \<open>auto simp: mx_ops\<close>)
  next
    case (mx_clear t)
    show ?thesis by (rule mx_upd_inv[OF inv, of t _ Unlocking]) (use mx_clear nz[of t] D1[of t] in \<open>auto simp: mx_ops\<close>)
  next
    case (mx_release t)
    show ?thesis by (rule mx_upd_inv[OF inv, of t _ Outside]) (use mx_release nz[of t] D1[of t] D4[of t] in \<open>auto simp: mx_ops\<close>)
  next
    case (mx_wait t)
    show ?thesis by (rule mx_upd_inv[OF inv, of t _ Waiting]) (use mx_wait nz[of t] D1[of t] in \<open>auto simp: mx_ops\<close>)
  next
    case (mx_wake t)
    show ?thesis by (rule mx_upd_inv[OF inv, of t _ BackFromWait]) (use mx_wake nz[of t] D5[of t] in \<open>auto simp: mx_ops\<close>)
  qed
qed

text \<open>The mutex knows its holder, under every interleaving: at most one thread is between \<open>lock\<close> and
  \<open>unlock\<close>; \<open>isLockedByThisThread\<close> never says yes to a thread that is outside; and unless some thread waits on a
  condition it says yes to the thread that holds the mutex.\<close>

theorem mutex_holder_exact:
  assumes "reach (\<lambda>m. m = newMutexLock) (mx_step waits) m" and "0 < t"
  shows "(\<forall>u. owns (mxPhase m t) \<and> owns (mxPhase m u) \<longrightarrow> t = u)
    \<and> (mxPhase m t = Outside \<longrightarrow> \<not> isLockedByThisThread t m)
    \<and> (\<not> waits \<longrightarrow> (isLockedByThisThread t m \<longleftrightarrow> mxPhase m t = Inside))"
proof -
  have inv: "mx_inv waits m"
  proof (rule reach_invariant[OF assms(1)])
    show "mx_inv waits m" if "m = newMutexLock" for m using that by (auto simp: mx_inv_def newMutexLock_def owns_def)
  qed (rule mx_step_inv)
  have "\<forall>u. owns (mxPhase m t) \<and> owns (mxPhase m u) \<longrightarrow> t = u" using mx_owner_unique[OF inv] by blast
  moreover have D: "mxHolder m = t \<Longrightarrow> mxPhase m t \<in> {Inside, Waiting, BackFromWait}" "mxPhase m t = Inside \<Longrightarrow> mxHolder m = t"
      "\<not> waits \<Longrightarrow> mxPhase m t \<notin> {Waiting, BackFromWait}"
    using inv assms(2) unfolding mx_inv_def by blast+
  then have "mxPhase m t = Outside \<longrightarrow> \<not> isLockedByThisThread t m" "\<not> waits \<longrightarrow> (isLockedByThisThread t m \<longleftrightarrow> mxPhase m t = Inside)"
    unfolding isLockedByThisThread_def by auto
  ultimately show ?thesis by blast
qed

theorem mutex_holder_exact_witness:
  "isLockedByThisThread 7 (lock_assign 7 (lock_acquire 7 newMutexLock)) \<longleftrightarrow> mxPhase (lock_assign 7 (lock_acquire 7 newMutexLock)) 7 = Inside"
proof -
  let ?m1 = "lock_acquire 7 newMutexLock"
  have "reach (\<lambda>m. m = newMutexLock) (mx_step False) newMutexLock" by (simp add: reach_init)
  moreover have "mx_step False newMutexLock ?m1" by (rule mx_acquire) (simp_all add: newMutexLock_def)
  moreover have "mx_step False ?m1 (lock_assign 7 ?m1)" by (rule mx_assign) (simp add: mx_ops)
  ultimately have "reach (\<lambda>m. m = newMutexLock) (mx_step False) (lock_assign 7 ?m1)" by (metis reach_step)
  from mutex_holder_exact[OF this, of 7] show ?thesis by simp
qed

text \<open>A thread that comes back from a wait holds the mutex, but if another thread has locked it meanwhile the mutex does not know: thread 1
  locks and waits, thread 2 locks and unlocks, thread 1 wakes up.\<close>

lemma wait_forgets_holder:
  "\<exists>m. reach (\<lambda>m. m = newMutexLock) (mx_step True) m \<and> mxOwner m = Some 1 \<and> assertLocked 1 m = Inl (AssertFailed ''assertLocked: isLockedByThisThread()'')"
proof -
  let ?s1 = "lock_acquire 1 newMutexLock" let ?s2 = "lock_assign 1 ?s1" let ?s3 = "cond_wait_begin 1 ?s2"
  let ?s4 = "lock_acquire 2 ?s3" let ?s5 = "lock_assign 2 ?s4" let ?s6 = "unlock_assign 2 ?s5" let ?s7 = "unlock_release 2 ?s6"
  let ?s8 = "cond_wait_end 1 ?s7"
  have "reach (\<lambda>m. m = newMutexLock) (mx_step True) newMutexLock" by (simp add: reach_init)
  moreover have "mx_step True newMutexLock ?s1" by (rule mx_acquire) (simp_all add: newMutexLock_def)
  moreover have "mx_step True ?s1 ?s2" by (rule mx_assign) (simp add: mx_ops)
  moreover have "mx_step True ?s2 ?s3" by (rule mx_wait) (simp_all add: mx_ops)
  moreover have "mx_step True ?s3 ?s4" by (rule mx_acquire) (simp_all add: mx_ops newMutexLock_def)
  moreover have "mx_step True ?s4 ?s5" by (rule mx_assign) (simp add: mx_ops)
  moreover have "mx_step True ?s5 ?s6" by (rule mx_clear) (simp add: mx_ops)
  moreover have "mx_step True ?s6 ?s7" by (rule mx_release) (simp add: mx_ops)
  moreover have "mx_step True ?s7 ?s8" by (rule mx_wake) (simp_all add: mx_ops newMutexLock_def)
  ultimately have "reach (\<lambda>m. m = newMutexLock) (mx_step True) ?s8" by (metis reach_step)
  moreover have "mxOwner ?s8 = Some 1 \<and> assertLocked 1 ?s8 = Inl (AssertFailed ''assertLocked: isLockedByThisThread()'')"
    by (simp add: mx_ops assertLocked_def isLockedByThisThread_def)
  ultimately show ?thesis by blast
qed

subsection \<open>Threads\<close>

record thread =
  thStarted :: bool
  thTid :: int
  thName :: string

text \<open>The constructor counts the threads.\<close>

definition newThread :: "string \<Rightarrow> 32 word \<Rightarrow> thread \<times> 32 word" where
  "newThread n created = (\<lparr>thStarted = False, thTid = 0, thName = n\<rparr>, at_increment created)"

definition thread_start :: "int \<Rightarrow> thread \<Rightarrow> thread res" where
  "thread_start errno th =
     ensure (\<not> thStarted th) ''start: !started_''
     (if errno \<noteq> 0 then Inl (Aborted ''Failed in pthread_create'') else Inr (th\<lparr>thStarted := True\<rparr>))"

definition thread_join :: "int \<Rightarrow> thread \<Rightarrow> int res" where
  "thread_join joined th = ensure (thStarted th) ''join: started_'' (Inr joined)"

text \<open>What the thread function does, and the variables of the running thread: its cached id and its name.\<close>

datatype func_outcome = Returns | ThrowsException | ThrowsStdException | ThrowsOther

record thread_locals =
  tlLog :: log_thread
  tlName :: string

definition runInThread :: "int \<Rightarrow> func_outcome \<Rightarrow> thread \<times> thread_locals \<Rightarrow> (thread \<times> thread_locals) res" where
  "runInThread gettid func s =
     (case s of (th, lo) \<Rightarrow>
        bindR (cacheTid gettid (tlLog lo)) (\<lambda>log.
        let th1 = th\<lparr>thTid := t_cachedTid log\<rparr>; lo1 = lo\<lparr>tlLog := log, tlName := thName th\<rparr>
        in case func of
             Returns \<Rightarrow> Inr (th1, lo1\<lparr>tlName := ''finished''\<rparr>)
           | ThrowsException \<Rightarrow> Inl (Aborted (''exception caught in Thread '' @ thName th))
           | ThrowsStdException \<Rightarrow> Inl (Aborted (''exception caught in Thread '' @ thName th))
           | ThrowsOther \<Rightarrow> Inl (Thrown (''unknown exception caught in Thread '' @ thName th))))"

text \<open>In the child of a fork, and when the program starts.\<close>

definition afterFork :: "int \<Rightarrow> thread_locals \<Rightarrow> thread_locals res" where
  "afterFork gettid lo =
     bindR (cacheTid gettid ((tlLog lo)\<lparr>t_cachedTid := 0\<rparr>)) (\<lambda>log. Inr (lo\<lparr>tlLog := log, tlName := ''main''\<rparr>))"

definition threadNameInitializer :: "int \<Rightarrow> thread_locals \<Rightarrow> thread_locals res" where
  "threadNameInitializer gettid lo = bindR (cacheTid gettid (tlLog lo)) (\<lambda>log. Inr (lo\<lparr>tlLog := log, tlName := ''main''\<rparr>))"

definition isMainThread :: "int \<Rightarrow> int \<Rightarrow> log_thread \<Rightarrow> bool res" where
  "isMainThread gettid getpid log = bindR (cacheTid gettid log) (\<lambda>log'. Inr (t_cachedTid log' = getpid))"

text \<open>A forked child knows its own id, whatever its parent had cached: it takes itself for the main thread exactly when it is.\<close>

lemma fork_refreshes_tid:
  assumes "0 < tid" "tid < 100000"
  obtains lo' where "afterFork tid lo = Inr lo'" "t_cachedTid (tlLog lo') = tid" "tlName lo' = ''main''"
    "isMainThread tid pid (tlLog lo') = Inr (tid = pid)"
proof -
  let ?log = "(tlLog lo)\<lparr>t_cachedTid := 0\<rparr>"
  have "cacheTid tid ?log = Inr (?log\<lparr>t_cachedTid := tid, t_tidString := snprintf 32 (blank_pad 5 tid @ '' '')\<rparr>)"
    using length_tid_text[OF assms] by (simp add: cacheTid_def)
  then show ?thesis using assms by (intro that[of "lo\<lparr>tlLog := ?log\<lparr>t_cachedTid := tid, t_tidString := snprintf 32 (blank_pad 5 tid @ '' '')\<rparr>, tlName := ''main''\<rparr>"])
    (simp_all add: afterFork_def isMainThread_def cacheTid_def)
qed

end
