(* ===== verification/RpcServer.thy ===== *)
theory RpcServer
  imports RpcChannel
begin

text \<open>
  \<open>net/protorpc/RpcServer.cc\<close>: a channel per connection, owned by the connection's context, all with a pointer to the server's one
  map of services. A service may answer at any time; the closure it runs for that holds a bare pointer
  to the channel. Channels are known by their connection, which comes up once.
\<close>

subsection \<open>State and operations\<close>

record 'm rpc_server =
  rvServices :: "(string \<times> string list) list"
  rvContext :: "nat \<Rightarrow> 'm rpc_channel option"

definition newRpcServer :: "'m rpc_server" where
  "newRpcServer = \<lparr>rvServices = [], rvContext = (\<lambda>_. None)\<rparr>"

text \<open>A service with its full name and its methods.\<close>

definition registerService :: "string \<Rightarrow> string list \<Rightarrow> 'm rpc_server \<Rightarrow> 'm rpc_server" where
  "registerService full_name methods s = s\<lparr>rvServices := std_map_put full_name methods (rvServices s)\<rparr>"

definition rpc_onConnection :: "nat \<Rightarrow> bool \<Rightarrow> 'm rpc_server \<Rightarrow> 'm rpc_server" where
  "rpc_onConnection conn connected s =
     (if connected then s\<lparr>rvContext := (rvContext s)(conn \<mapsto> setServices (rvServices s) newRpcChannel)\<rparr>
      else s\<lparr>rvContext := (rvContext s)(conn := None)\<rparr>)"

text \<open>A message and an answer reach the channel through its bare pointer. The map of services is read through the pointer, as it is then.\<close>

definition with_channel :: "nat \<Rightarrow> ('m rpc_channel \<Rightarrow> 'm rpc_channel res) \<Rightarrow> 'm rpc_server \<Rightarrow> 'm rpc_server res" where
  "with_channel conn f s =
     (case rvContext s conn of
        None \<Rightarrow> Inl (BadAccess ''RpcChannel'')
      | Some ch \<Rightarrow> bindR (f (setServices (rvServices s) ch)) (\<lambda>ch'. Inr (s\<lparr>rvContext := (rvContext s)(conn \<mapsto> ch')\<rparr>)))"

datatype 'm rpc_event = RvRegister string "string list" | RvUp nat | RvDown nat | RvMessage nat rpc_message | RvAnswer nat 'm "64 word"

fun rv_step :: "('m \<Rightarrow> string) \<Rightarrow> (string \<Rightarrow> 'm) \<Rightarrow> 'm rpc_event \<Rightarrow> 'm rpc_server \<Rightarrow> 'm rpc_server res" where
  "rv_step ser par (RvRegister n ms) s = Inr (registerService n ms s)"
| "rv_step ser par (RvUp c) s = Inr (rpc_onConnection c True s)"
| "rv_step ser par (RvDown c) s = Inr (rpc_onConnection c False s)"
| "rv_step ser par (RvMessage c msg) s = with_channel c (onRpcMessage par msg) s"
| "rv_step ser par (RvAnswer c r n) s = with_channel c (\<lambda>ch. Inr (doneCallback ser r n ch)) s"

subsection \<open>Answers\<close>

text \<open>What the server has answered on a connection.\<close>

definition rv_answers :: "nat \<Rightarrow> 'm rpc_server \<Rightarrow> rpc_message list" where
  "rv_answers c s = (case rvContext s c of None \<Rightarrow> [] | Some ch \<Rightarrow> rcOutgoing ch)"

definition rv_requests :: "nat \<Rightarrow> 'm rpc_server \<Rightarrow> (64 word \<times> string \<times> string \<times> 'm) list" where
  "rv_requests c s = (case rvContext s c of None \<Rightarrow> [] | Some ch \<Rightarrow> rcServing ch)"

text \<open>A request for a registered method reaches the service with its number, whenever the service was registered, and only
  on its own connection.\<close>

lemma request_reaches_service:
  assumes "rvContext s c = Some ch" and "map_of (rvServices s) sv = Some ms" "m \<in> set ms"
    and "msg = \<lparr>rmType = REQUEST, rmId = n, rmService = sv, rmMethod = m, rmRequest = bytes, rmResponse = r\<rparr>"
  shows "\<exists>s'. rv_step ser par (RvMessage c msg) s = Inr s' \<and> rv_requests c s' = rv_requests c s @ [(n, sv, m, par bytes)]
    \<and> (\<forall>d. d \<noteq> c \<longrightarrow> rvContext s' d = rvContext s d) \<and> rvServices s' = rvServices s"
  using assms by (simp add: with_channel_def onRpcMessage_def setServices_def rv_requests_def Let_def)

text \<open>A service that answers after its connection went down runs its closure on a channel that was deleted with the context.\<close>

lemma late_answer_use_after_free:
  "bindR (rv_step ser par (RvDown c) s) (rv_step ser par (RvAnswer c r n)) = Inl (BadAccess ''RpcChannel'')"
  by (simp add: rpc_onConnection_def with_channel_def)

end
