(* ===== verification/Socks4a.thy ===== *)
theory Socks4a
  imports NetBuffer InetAddress
begin

text \<open>
  The SOCKS 4a proxy (\<open>examples/socks4a/socks4a.cc\<close>, \<open>tunnel.h\<close>): the first bytes of a connection name a
  target, by address or by host name; the proxy connects to it and relays. Connections do not interact, so this is the state of one: its input buffer, its
  entry in \<open>g_tunnels\<close> (the address the tunnel's client connects to), whether its context holds the client connection,
  what was sent to either side, how far the connections to the peer (\<open>serverConn_\<close>) and to the target (\<open>client_\<close>'s) have come, and whether the
  client's callbacks still hold the tunnel. A connection accepts data only while it is open; one that was shut down on
  this side still receives. Events that cannot happen (data on a connection that is not there, a second end) change nothing. What \<open>gethostbyname\<close> finds is an argument.
\<close>

subsection \<open>State and operations\<close>

datatype link = LkNone | LkOpen | LkShut | LkGone

record socks =
  skInput :: netbuf
  skTunnel :: "sockaddr_in option"
  skContext :: bool
  skToPeer :: "char list"
  skToTarget :: "char list"
  skPeer :: link
  skClient :: link
  skWired :: bool

definition newSocks :: socks where
  "newSocks = \<lparr>skInput = newBuffer, skTunnel = None, skContext = False, skToPeer = [], skToTarget = [], skPeer = LkOpen, skClient = LkNone,
     skWired = False\<rparr>"

text \<open>\<open>send\<close> and \<open>shutdown\<close> do something on an open connection only; \<open>send(Buffer*)\<close> then empties the buffer.\<close>

definition peer_send :: "char list \<Rightarrow> socks \<Rightarrow> socks" where
  "peer_send d s = (if skPeer s = LkOpen then s\<lparr>skToPeer := skToPeer s @ d\<rparr> else s)"

definition link_shutdown :: "link \<Rightarrow> link" where
  "link_shutdown l = (if l = LkOpen then LkShut else l)"

definition peer_shutdown :: "socks \<Rightarrow> socks" where
  "peer_shutdown s = s\<lparr>skPeer := link_shutdown (skPeer s)\<rparr>"

definition target_send :: "socks \<Rightarrow> socks" where
  "target_send s =
     (let buf = skInput s
      in if skClient s = LkOpen
         then s\<lparr>skToTarget := skToTarget s @ range_at buf (peek buf) (peek buf + readableBytes buf), skInput := retrieveAll buf\<rparr>
         else s)"

abbreviation nul_char :: char where "nul_char \<equiv> CHR 0x00"

definition granted :: "char list" where "granted = [CHR 0x00, CHR 0x5a] @ ''UVWXYZ''"
definition rejected :: "char list" where "rejected = [CHR 0x00, CHR 0x5b] @ ''UVWXYZ''"

text \<open>The request, once the end \<open>where\<close> of the user id is known (offsets from \<open>peek()\<close>): \<open>None\<close> if the host name is incomplete, else whether it is
  okay, the address, and the end of the request.\<close>

definition socks_target :: "(string \<Rightarrow> 32 word option) \<Rightarrow> char list \<Rightarrow> nat \<Rightarrow> (bool \<times> sockaddr_in \<times> nat) option" where
  "socks_target gethostbyname bytes where0 =
     (let addr = bzero_sockaddr\<lparr>sin_family := AF_INET, sin_port := load_le (take 2 (drop 2 bytes)), sin_addr := load_le (take 4 (drop 4 bytes))\<rparr>
      in if networkToHost32 (sin_addr addr) < 256
         then let rest = drop (where0 + 1) bytes; endOfHostName = std_find nul_char rest
              in if endOfHostName \<noteq> length rest
                 then (case gethostbyname (take endOfHostName rest) of
                         Some a \<Rightarrow> Some (True, addr\<lparr>sin_addr := a\<rparr>, where0 + 1 + endOfHostName)
                       | None \<Rightarrow> Some (False, addr, where0 + 1 + endOfHostName))
                 else None
         else Some (True, addr, where0))"

text \<open>The constructor, \<open>setup\<close>, \<open>connect\<close> and the entry in \<open>g_tunnels\<close>.\<close>

definition tunnel_setup :: "sockaddr_in \<Rightarrow> socks \<Rightarrow> socks" where
  "tunnel_setup addr s = s\<lparr>skTunnel := Some addr, skWired := True\<rparr>"

definition onServerMessage :: "(string \<Rightarrow> 32 word option) \<Rightarrow> socks \<Rightarrow> socks res" where
  "onServerMessage gethostbyname s =
     (let buf = skInput s; n = readableBytes buf; bytes = range_at buf (peek buf) (peek buf + n)
      in if skTunnel s = None then
           (if n > 128 then Inr (peer_shutdown s)
            else if n > 8 then
              (let where0 = 8 + std_find nul_char (drop 8 bytes)
               in if where0 \<noteq> n then
                    (case socks_target gethostbyname bytes where0 of
                       None \<Rightarrow> Inr s
                     | Some (okay, addr, where1) \<Rightarrow>
                         if bytes ! 0 = CHR 0x04 \<and> bytes ! 1 = CHR 0x01 \<and> okay
                         then bindR (retrieveUntil buf (peek buf + where1 + 1)) (\<lambda>buf1.
                              Inr (peer_send granted ((tunnel_setup addr s)\<lparr>skInput := buf1\<rparr>)))
                         else Inr (peer_shutdown (peer_send rejected s)))
                  else Inr s)
            else Inr s)
         else if skContext s then Inr (target_send s)
         else Inr s)"

definition tunnel_disconnect :: "socks \<Rightarrow> socks" where
  "tunnel_disconnect s = s\<lparr>skClient := link_shutdown (skClient s)\<rparr>"

definition onServerConnection :: "bool \<Rightarrow> socks \<Rightarrow> socks" where
  "onServerConnection connected s =
     (if connected then s else if skTunnel s \<noteq> None then (tunnel_disconnect s)\<lparr>skTunnel := None\<rparr> else s)"

text \<open>The tunnel: its client connection comes up or goes down, and brings data.\<close>

definition tunnel_teardown :: "socks \<Rightarrow> socks" where
  "tunnel_teardown s = peer_shutdown (s\<lparr>skWired := False, skContext := False\<rparr>)"

definition onClientConnection :: "bool \<Rightarrow> socks \<Rightarrow> socks" where
  "onClientConnection connected s =
     (if connected then
        let s1 = s\<lparr>skContext := True\<rparr>
        in if readableBytes (skInput s1) > 0 then target_send s1 else s1
      else tunnel_teardown s)"

definition onClientMessage :: "char list \<Rightarrow> socks \<Rightarrow> socks" where
  "onClientMessage buf s = peer_send buf s"

text \<open>Too much waits to be sent to either side, and the tunnel (held by a weak pointer) may be gone.\<close>

definition tunnel_onHighWaterMark :: "bool \<Rightarrow> socks \<Rightarrow> socks" where
  "tunnel_onHighWaterMark alive s = (if alive then tunnel_disconnect s else s)"

text \<open>What the loop brings: a segment from the peer or its end, the target's connection coming up, its data or its end, and
  too much output on either side. The tunnel lives while \<open>g_tunnels\<close> or the client's callbacks hold it.\<close>

datatype socks_event = SkSegment "char list" | SkPeerDown | SkUp | SkData "char list" | SkDown | SkHigh

fun socks_step :: "(string \<Rightarrow> 32 word option) \<Rightarrow> socks_event \<Rightarrow> socks \<Rightarrow> socks res" where
  "socks_step g (SkSegment seg) s =
     (if skPeer s = LkGone then Inr s else bindR (bufAppend (skInput s) seg) (\<lambda>b. onServerMessage g (s\<lparr>skInput := b\<rparr>)))"
| "socks_step g SkPeerDown s = Inr (if skPeer s = LkGone then s else onServerConnection False (s\<lparr>skPeer := LkGone\<rparr>))"
| "socks_step g SkUp s = Inr (if skClient s = LkNone \<and> skWired s then onClientConnection True (s\<lparr>skClient := LkOpen\<rparr>) else s)"
| "socks_step g (SkData d) s = Inr (if skClient s \<in> {LkOpen, LkShut} then onClientMessage d s else s)"
| "socks_step g SkDown s = Inr (if skClient s \<in> {LkOpen, LkShut} then onClientConnection False (s\<lparr>skClient := LkGone\<rparr>) else s)"
| "socks_step g SkHigh s = Inr (tunnel_onHighWaterMark (skTunnel s \<noteq> None \<or> skWired s) s)"

subsection \<open>Requests\<close>

text \<open>The request a client writes: by address (\<open>host = None\<close>), or by name with an address below 256.\<close>

definition socks_request :: "16 word \<Rightarrow> 32 word \<Rightarrow> string \<Rightarrow> string option \<Rightarrow> char list" where
  "socks_request port ip user host = [CHR 0x04, CHR 0x01] @ store_le 2 port @ store_le 4 ip @ user @ [nul_char]
     @ (case host of None \<Rightarrow> [] | Some h \<Rightarrow> h @ [nul_char])"

definition names_target :: "(string \<Rightarrow> 32 word option) \<Rightarrow> 32 word \<Rightarrow> string \<Rightarrow> string option \<Rightarrow> 32 word \<Rightarrow> bool" where
  "names_target g ip user host target \<longleftrightarrow> nul_char \<notin> set user
     \<and> (case host of None \<Rightarrow> \<not> networkToHost32 ip < 256 \<and> target = ip
        | Some h \<Rightarrow> networkToHost32 ip < 256 \<and> nul_char \<notin> set h \<and> g h = Some target)"

definition target_addr :: "16 word \<Rightarrow> 32 word \<Rightarrow> sockaddr_in" where
  "target_addr port target = bzero_sockaddr\<lparr>sin_family := AF_INET, sin_port := port, sin_addr := target\<rparr>"

lemma socks_bytes:
  assumes "bytes = [a, b] @ store_le 2 (port :: 16 word) @ store_le 4 (ip :: 32 word) @ rest"
  shows "take 2 (drop 2 bytes) = store_le 2 port" "take 4 (drop 4 bytes) = store_le 4 ip" "drop 8 bytes = rest"
    "bytes ! 0 = a" "bytes ! 1 = b" "length bytes = 8 + length rest"
proof -
  obtain p1 p2 where p: "store_le 2 port = [p1, p2]" by (simp add: store_le_def numeral_2_eq_2)
  obtain i1 i2 i3 i4 where i: "store_le 4 ip = [i1, i2, i3, i4]" by (simp add: store_le_def upt_rec)
  show "take 2 (drop 2 bytes) = store_le 2 port" "take 4 (drop 4 bytes) = store_le 4 ip" "drop 8 bytes = rest"
    "bytes ! 0 = a" "bytes ! 1 = b" "length bytes = 8 + length rest"
    unfolding assms p i by simp_all
qed

lemma onServerMessage_bytes:
  assumes "buf_wf (skInput s)" "skTunnel s = None" and "bytes = readable (skInput s)"
  shows "onServerMessage g s =
     (if length bytes > 128 then Inr (peer_shutdown s)
      else if length bytes > 8 \<and> nul_char \<in> set (drop 8 bytes) then
        (case socks_target g bytes (8 + std_find nul_char (drop 8 bytes)) of
           None \<Rightarrow> Inr s
         | Some (okay, addr, where1) \<Rightarrow>
             if bytes ! 0 = CHR 0x04 \<and> bytes ! 1 = CHR 0x01 \<and> okay
             then bindR (retrieveUntil (skInput s) (peek (skInput s) + where1 + 1)) (\<lambda>buf1.
                  Inr (peer_send granted ((tunnel_setup addr s)\<lparr>skInput := buf1\<rparr>)))
             else Inr (peer_shutdown (peer_send rejected s)))
      else Inr s)"
proof -
  have n: "readableBytes (skInput s) = length bytes" using assms(1,3) by (metis readableBytes_readable)
  have r: "range_at (skInput s) (peek (skInput s)) (peek (skInput s) + length bytes) = bytes"
    using range_at_peek[OF assms(1), of "length bytes"] n assms(3) by simp
  have f: "8 + std_find nul_char (drop 8 bytes) = length bytes \<longleftrightarrow> nul_char \<notin> set (drop 8 bytes)" if "length bytes > 8"
    using that std_find_neq_iff[of nul_char "drop 8 bytes"] by auto
  show ?thesis unfolding onServerMessage_def Let_def n r using assms(2) f by auto
qed

lemma first_cut: "xs @ c # ys = us @ c # vs \<Longrightarrow> c \<notin> set xs \<Longrightarrow> c \<notin> set us \<Longrightarrow> xs = us \<and> ys = vs"
proof (induction xs arbitrary: us)
  case Nil
  then show ?case by (cases us) auto
next
  case (Cons x xs)
  then show ?case by (cases us) auto
qed

text \<open>An incomplete request waits.\<close>

lemma incomplete_request:
  assumes "names_target g ip user host target" and "buf_wf (skInput s)" "skTunnel s = None"
    and pre: "socks_request port ip user host = readable (skInput s) @ tail" "tail \<noteq> []" and "length (readable (skInput s)) \<le> 128"
  shows "onServerMessage g s = Inr s"
proof (cases "length (readable (skInput s)) > 8 \<and> nul_char \<in> set (drop 8 (readable (skInput s)))")
  case True
  let ?P = "readable (skInput s)" and ?h = "case host of None \<Rightarrow> [] | Some h \<Rightarrow> h @ [nul_char]"
  note T = assms(1)[unfolded names_target_def]
  have req: "drop 8 (?P @ tail) = user @ [nul_char] @ ?h" unfolding pre(1)[symmetric] socks_request_def
    by (rule socks_bytes(3)) simp
  then have split: "drop 8 ?P @ tail = user @ nul_char # ?h" using True by simp
  obtain ps qs where d: "drop 8 ?P = ps @ nul_char # qs" "nul_char \<notin> set ps" using True split_list_first by metis
  have eq: "ps = user \<and> qs @ tail = ?h" using first_cut[of ps nul_char "qs @ tail" user ?h] split d T by simp
  obtain h where h: "host = Some h" using eq pre(2) by (cases host) auto
  have no: "nul_char \<notin> set qs"
  proof
    assume "nul_char \<in> set qs"
    then have "nul_char \<in> set (butlast (qs @ tail))" using pre(2) by (simp add: butlast_append)
    then show False using eq h T by simp
  qed
  have w: "std_find nul_char (drop 8 ?P) = length user" using d eq by simp
  have "drop (8 + length user + 1) ?P = drop (length user + 1) (drop 8 ?P)" by (simp add: ac_simps)
  then have rest: "drop (8 + length user + 1) ?P = qs" using d(1) eq by simp
  have "take 4 (drop 4 ?P) = store_le 4 ip"
  proof -
    have "take 4 (drop 4 (?P @ tail)) = store_le 4 ip" unfolding pre(1)[symmetric] socks_request_def by (rule socks_bytes(2)) simp
    then show ?thesis using True by simp
  qed
  then have "socks_target g ?P (8 + length user) = None"
    using rest no h T by (simp add: socks_target_def Let_def)
  then show ?thesis unfolding onServerMessage_bytes[OF assms(2,3) refl] w using assms(6) by simp
next
  case False
  then show ?thesis using onServerMessage_bytes[OF assms(2,3) refl, of g] assms(6) by auto
qed

text \<open>A complete request is granted.\<close>

lemma complete_request:
  assumes "names_target g ip user host target" and wf: "buf_wf (skInput s)" and "skTunnel s = None"
    and r: "readable (skInput s) = socks_request port ip user host @ early" and "length (readable (skInput s)) \<le> 128"
  obtains b where "onServerMessage g s = Inr (peer_send granted ((tunnel_setup (target_addr port target) s)\<lparr>skInput := b\<rparr>))"
    "buf_wf b" "readable b = early"
proof -
  let ?R = "readable (skInput s)" and ?h = "case host of None \<Rightarrow> [] | Some h \<Rightarrow> h @ [nul_char]"
  note T = assms(1)[unfolded names_target_def]
  have R: "?R = [CHR 0x04, CHR 0x01] @ store_le 2 port @ store_le 4 ip @ (user @ nul_char # ?h @ early)" using r by (simp add: socks_request_def)
  note B = socks_bytes[OF R]
  have w: "std_find nul_char (drop 8 ?R) = length user" "nul_char \<in> set (drop 8 ?R)" using B(3) T by simp_all
  define end1 where "end1 = 8 + length user + length ?h"
  have "drop (8 + length user + 1) ?R = drop (length user + 1) (drop 8 ?R)" by (simp add: ac_simps)
  then have rest: "drop (8 + length user + 1) ?R = ?h @ early" using B(3) by simp
  have tgt: "socks_target g ?R (8 + length user) = Some (True, target_addr port target, end1)"
    using T rest B(1,2) by (cases host) (simp_all add: socks_target_def Let_def target_addr_def end1_def)
  have len: "end1 + 1 \<le> length ?R" using B(6) by (simp add: end1_def)
  obtain b where b: "retrieveUntil (skInput s) (peek (skInput s) + end1 + 1) = Inr b" "buf_wf b" "readable b = drop (end1 + 1) ?R"
    by (rule retrieveUntil_ok[OF wf, of "end1 + 1" "peek (skInput s) + end1 + 1"]) (use len in auto)
  have "drop (end1 + 1) ?R = drop (length user + 1 + length ?h) (drop 8 ?R)" by (simp add: end1_def ac_simps)
  then have e: "readable b = early" using b(3) B(3) by simp
  have "length ?R > 8" using B(6) by simp
  then have "onServerMessage g s = Inr (peer_send granted ((tunnel_setup (target_addr port target) s)\<lparr>skInput := b\<rparr>))"
    unfolding onServerMessage_bytes[OF wf assms(3) refl] w(1) tgt using w(2) assms(5) B(4,5) b(1) by simp
  then show ?thesis using that b(2) e by blast
qed

text \<open>The request phase: before the request is complete nothing happens, after it the tunnel is there.\<close>

definition asked :: "sockaddr_in \<Rightarrow> char list \<Rightarrow> char list \<Rightarrow> socks \<Rightarrow> bool" where
  "asked addr req got s \<longleftrightarrow> buf_wf (skInput s) \<and> \<not> skContext s \<and> skToTarget s = [] \<and> skPeer s = LkOpen \<and> skClient s = LkNone
     \<and> (if length got < length req then skTunnel s = None \<and> \<not> skWired s \<and> skToPeer s = [] \<and> readable (skInput s) = got
        else skTunnel s = Some addr \<and> skWired s \<and> skToPeer s = granted \<and> readable (skInput s) = drop (length req) got)"

lemma asked_step:
  assumes T: "names_target g ip user host target" and A: "asked (target_addr port target) (socks_request port ip user host) got s"
    and w: "socks_request port ip user host @ early = got @ seg @ later" and "length (socks_request port ip user host @ early) \<le> 128"
  shows "\<exists>s'. socks_step g (SkSegment seg) s = Inr s' \<and> asked (target_addr port target) (socks_request port ip user host) (got @ seg) s'"
proof -
  let ?req = "socks_request port ip user host" and ?addr = "target_addr port target"
  have wf: "buf_wf (skInput s)" using A by (simp add: asked_def)
  obtain b where b: "bufAppend (skInput s) seg = Inr b" "buf_wf b" "readable b = readable (skInput s) @ seg" using bufAppend_ok[OF wf] by metis
  let ?s = "s\<lparr>skInput := b\<rparr>"
  have step: "socks_step g (SkSegment seg) s = onServerMessage g ?s" using b(1) A by (simp add: asked_def)
  have small: "length (got @ seg) \<le> 128" using assms(4) w by (metis append_assoc le_add1 le_trans length_append)
  consider "length (got @ seg) < length ?req" | "length got < length ?req" "length ?req \<le> length (got @ seg)" | "length ?req \<le> length got" by linarith
  then show ?thesis
  proof cases
    case 1
    then have a: "skTunnel s = None" "skToPeer s = []" "readable (skInput s) = got" "\<not> skContext s" "skToTarget s = []" "skPeer s = LkOpen" "skClient s = LkNone" "\<not> skWired s"
      using A by (auto simp: asked_def)
    obtain tail where "?req = (got @ seg) @ tail" "tail \<noteq> []"
    proof -
      have "?req = take (length ?req) ((got @ seg) @ later)" using w by (metis append_assoc append_eq_conv_conj)
      then have "?req = (got @ seg) @ take (length ?req - length (got @ seg)) later" using 1 by simp
      then show ?thesis using that 1 by (metis append_Nil2 less_irrefl)
    qed
    then have "onServerMessage g ?s = Inr ?s"
      by (intro incomplete_request[OF T, of _ port]) (use b a small in simp_all)
    then show ?thesis using step 1 a b by (auto simp: asked_def)
  next
    case 2
    then have a: "skTunnel s = None" "skToPeer s = []" "readable (skInput s) = got" "\<not> skContext s" "skToTarget s = []" "skPeer s = LkOpen" "skClient s = LkNone" "\<not> skWired s"
      using A by (auto simp: asked_def)
    have r: "readable (skInput ?s) = ?req @ drop (length ?req) (got @ seg)"
    proof -
      have "take (length ?req) (got @ seg) = ?req" using w 2(2) by (metis append_assoc append_eq_append_conv_if append_eq_conv_conj)
      then show ?thesis using b(3) a(3) by (metis append_take_drop_id select_convs(1) surjective update_convs(1))
    qed
    obtain b' where "onServerMessage g ?s = Inr (peer_send granted ((tunnel_setup ?addr ?s)\<lparr>skInput := b'\<rparr>))"
        "buf_wf b'" "readable b' = drop (length ?req) (got @ seg)"
      by (rule complete_request[OF T _ _ r]) (use b a small in simp_all)
    then show ?thesis using step 2 a by (auto simp: asked_def tunnel_setup_def peer_send_def)
  next
    case 3
    then have a: "skTunnel s = Some ?addr" "skToPeer s = granted" "readable (skInput s) = drop (length ?req) got" "\<not> skContext s" "skToTarget s = []" "skPeer s = LkOpen" "skClient s = LkNone" "skWired s"
      using A by (auto simp: asked_def)
    have "onServerMessage g ?s = Inr ?s" using a by (simp add: onServerMessage_def Let_def)
    then show ?thesis using step 3 a b by (auto simp: asked_def)
  qed
qed

lemma asked_steps:
  assumes T: "names_target g ip user host target" and "length (socks_request port ip user host @ early) \<le> 128"
  shows "asked (target_addr port target) (socks_request port ip user host) got s \<Longrightarrow> got @ concat segs = socks_request port ip user host @ early \<Longrightarrow>
    \<exists>s'. foldR (socks_step g) (map SkSegment segs) s = Inr s'
      \<and> asked (target_addr port target) (socks_request port ip user host) (got @ concat segs) s'"
proof (induction segs arbitrary: got s)
  case (Cons seg segs)
  obtain s1 where s1: "socks_step g (SkSegment seg) s = Inr s1" "asked (target_addr port target) (socks_request port ip user host) (got @ seg) s1"
  proof -
    have w: "socks_request port ip user host @ early = got @ seg @ concat segs" using Cons.prems(2) by simp
    show ?thesis using asked_step[OF T Cons.prems(1) w assms(2)] that by blast
  qed
  with Cons.IH[OF s1(2)] Cons.prems(2) show ?case by auto
qed auto

text \<open>What the events say of the two sides: what the peer sends before its end; what the target sends from its coming up until its own or the peer's end; and
  how far the connection to the target comes.\<close>

fun from_peer :: "socks_event list \<Rightarrow> char list" where
  "from_peer [] = []"
| "from_peer (SkSegment seg # evs) = seg @ from_peer evs"
| "from_peer (SkPeerDown # evs) = []"
| "from_peer (_ # evs) = from_peer evs"

fun from_target :: "bool \<Rightarrow> socks_event list \<Rightarrow> char list" where
  "from_target up [] = []"
| "from_target up (SkUp # evs) = from_target True evs"
| "from_target up (SkData d # evs) = (if up then d else []) @ from_target up evs"
| "from_target up (SkDown # evs) = (if up then [] else from_target up evs)"
| "from_target up (SkPeerDown # evs) = []"
| "from_target up (_ # evs) = from_target up evs"

fun target_link :: "bool \<Rightarrow> link \<Rightarrow> socks_event list \<Rightarrow> link" where
  "target_link peer l [] = l"
| "target_link peer l (SkUp # evs) = target_link peer (if l = LkNone then LkOpen else l) evs"
| "target_link peer l (SkDown # evs) = target_link peer (if l = LkNone then LkNone else LkGone) evs"
| "target_link peer l (SkHigh # evs) = target_link peer (link_shutdown l) evs"
| "target_link peer l (SkPeerDown # evs) = target_link False (if peer then link_shutdown l else l) evs"
| "target_link peer l (_ # evs) = target_link peer l evs"

definition relaying :: "sockaddr_in \<Rightarrow> socks \<Rightarrow> bool" where
  "relaying addr s \<longleftrightarrow> buf_wf (skInput s) \<and> skTunnel s = (if skPeer s = LkGone then None else Some addr)
     \<and> (skContext s \<longleftrightarrow> skClient s \<in> {LkOpen, LkShut}) \<and> (skWired s \<longleftrightarrow> skClient s \<noteq> LkGone) \<and> (skClient s = LkGone \<longrightarrow> skPeer s \<noteq> LkOpen)
     \<and> (skClient s = LkOpen \<longrightarrow> readable (skInput s) = [])"

text \<open>One event, whatever follows it.\<close>

definition relayed :: "socks \<Rightarrow> socks_event list \<Rightarrow> char list \<times> char list \<times> link \<times> bool" where
  "relayed s evs = (skToTarget s @ readable (skInput s) @ (if skPeer s = LkGone then [] else from_peer evs),
     skToPeer s @ (if skPeer s = LkOpen then from_target (skClient s \<in> {LkOpen, LkShut}) evs else []),
     target_link (skPeer s \<noteq> LkGone) (skClient s) evs, skPeer s = LkGone \<or> SkPeerDown \<in> set evs)"

lemma target_send_relaying:
  assumes "buf_wf (skInput s)" "skClient s = LkOpen"
  shows "target_send s = s\<lparr>skToTarget := skToTarget s @ readable (skInput s), skInput := retrieveAll (skInput s)\<rparr>"
proof -
  have "range_at (skInput s) (peek (skInput s)) (peek (skInput s) + readableBytes (skInput s)) = readable (skInput s)"
    using range_at_peek[OF assms(1), of "readableBytes (skInput s)"] assms(1) by (metis order_refl readableBytes_readable take_all)
  then show ?thesis using assms(2) by (simp add: target_send_def Let_def)
qed

lemmas socks_defs = onClientConnection_def onServerConnection_def onClientMessage_def tunnel_teardown_def tunnel_disconnect_def
  tunnel_onHighWaterMark_def peer_send_def peer_shutdown_def link_shutdown_def

lemma relay_step:
  assumes R: "relaying addr s"
  shows "\<exists>s'. socks_step g e s = Inr s' \<and> relaying addr s' \<and> relayed s' evs = relayed s (e # evs)"
proof (cases e)
  case (SkSegment seg)
  have wf: "buf_wf (skInput s)" using R by (simp add: relaying_def)
  obtain b where b: "bufAppend (skInput s) seg = Inr b" "buf_wf b" "readable b = readable (skInput s) @ seg" using bufAppend_ok[OF wf] by metis
  show ?thesis
  proof (cases "skPeer s \<noteq> LkGone \<and> skClient s = LkOpen")
    case True
    then have "onServerMessage g (s\<lparr>skInput := b\<rparr>) = Inr (s\<lparr>skToTarget := skToTarget s @ readable b, skInput := retrieveAll b\<rparr>)"
      using R b target_send_relaying[of "s\<lparr>skInput := b\<rparr>"] by (simp add: relaying_def onServerMessage_def Let_def)
    then show ?thesis using True R SkSegment b by (simp add: relaying_def relayed_def)
  next
    case False
    then have "onServerMessage g (s\<lparr>skInput := b\<rparr>) = Inr (s\<lparr>skInput := b\<rparr>)" if "skPeer s \<noteq> LkGone"
      using R that by (simp add: relaying_def onServerMessage_def target_send_def Let_def)
    then show ?thesis using False R SkSegment b by (cases "skPeer s = LkGone") (simp_all add: relaying_def relayed_def)
  qed
next
  case SkUp
  have wf: "buf_wf (skInput s)" using R by (simp add: relaying_def)
  have n: "readable (skInput s) = []" if "readableBytes (skInput s) = 0" using that wf by (metis length_0_conv readableBytes_readable)
  show ?thesis
    using R SkUp n wf target_send_relaying[of "s\<lparr>skClient := LkOpen, skContext := True\<rparr>"]
    by (cases "skClient s"; cases "readableBytes (skInput s) > 0")
      (simp_all add: relaying_def relayed_def onClientConnection_def Let_def)
qed (use R in \<open>cases "skClient s"; cases "skPeer s"; simp add: relaying_def relayed_def socks_defs\<close>)+

lemma relay_steps:
  "relaying addr s \<Longrightarrow> \<exists>s'. foldR (socks_step g) evs s = Inr s' \<and> relaying addr s' \<and> relayed s' [] = relayed s evs"
proof (induction evs arbitrary: s)
  case (Cons e evs)
  obtain s1 where "socks_step g e s = Inr s1" "relaying addr s1" "relayed s1 evs = relayed s (e # evs)"
    using relay_step[OF Cons.prems] by metis
  then show ?case using Cons.IH by force
qed auto

subsection \<open>Properties\<close>

text \<open>Property C25. The proxy connects where it is asked to and relays: a request by address or by host name, cut into
  any segments, with the first bytes of data behind it (request and data up to 128 bytes together), opens one tunnel to exactly that address and port and is
  granted once. From then on, whatever happens in whatever order (data from the peer before or after the target's connection comes up, data from the target, the
  end of either side, too much output waiting): every byte the peer sends is passed on in order or still waits in the input buffer, and none waits while
  the target's connection is open; the peer gets, behind the reply, exactly what the target sends from its coming up until either side ends; the target's connection
  is shut down by the peer's end or by the high-water mark, the tunnel is forgotten with the peer, and no assertion fires.\<close>

theorem socks_tunnel_relays:
  assumes "names_target g ip user host target" and "concat segs = socks_request port ip user host @ early"
    and "length (socks_request port ip user host @ early) \<le> 128"
  shows "\<exists>s. foldR (socks_step g) (map SkSegment segs @ evs) newSocks = Inr s
    \<and> skTunnel s = (if SkPeerDown \<in> set evs then None else Some (target_addr port target)) \<and> skClient s = target_link True LkNone evs
    \<and> skToTarget s @ readable (skInput s) = early @ from_peer evs \<and> (skClient s = LkOpen \<longrightarrow> readable (skInput s) = [])
    \<and> skToPeer s = granted @ from_target False evs"
proof -
  let ?req = "socks_request port ip user host" and ?addr = "target_addr port target"
  have "asked ?addr ?req [] newSocks" by (simp add: asked_def newSocks_def socks_request_def)
  from asked_steps[OF assms(1,3) this, of segs] assms(2)
  obtain s1 where s1: "foldR (socks_step g) (map SkSegment segs) newSocks = Inr s1" "asked ?addr ?req (?req @ early) s1" by auto
  have "relaying ?addr s1" and r: "relayed s1 evs = (early @ from_peer evs, granted @ from_target False evs, target_link True LkNone evs, SkPeerDown \<in> set evs)"
    using s1(2) by (simp_all add: asked_def relaying_def relayed_def)
  from relay_steps[OF this(1), of g evs]
  obtain s where "foldR (socks_step g) evs s1 = Inr s" "relaying ?addr s" "relayed s [] = relayed s1 evs" by blast
  moreover from this(3)
  have "relayed s [] = (early @ from_peer evs, granted @ from_target False evs, target_link True LkNone evs, SkPeerDown \<in> set evs)" unfolding r .
  ultimately show ?thesis using s1(1) by (clarsimp simp: foldR_append relaying_def relayed_def[of s]) (simp split: if_splits)
qed

theorem socks_tunnel_relays_witness:
  "\<exists>s. foldR (socks_step (\<lambda>h. if h = ''ab'' then Some 42 else None))
       (map (\<lambda>c. SkSegment [c]) (socks_request 80 (hostToNetwork32 1) ''me'' (Some ''ab''))
         @ [SkSegment ''GET'', SkUp, SkSegment ''x'', SkData ''ok'', SkHigh, SkSegment ''y'', SkData ''!'', SkDown, SkPeerDown]) newSocks = Inr s
     \<and> skTunnel s = None \<and> skClient s = LkGone \<and> skToTarget s @ readable (skInput s) = ''GETxy'' \<and> skToPeer s = granted @ ''ok!''"
proof -
  let ?g = "\<lambda>h. if h = ''ab'' then Some (42 :: 32 word) else None"
    and ?evs = "[SkSegment ''GET'', SkUp, SkSegment ''x'', SkData ''ok'', SkHigh, SkSegment ''y'', SkData ''!'', SkDown, SkPeerDown]"
  let ?req = "socks_request 80 (hostToNetwork32 1) ''me'' (Some ''ab'')"
  have "networkToHost32 (hostToNetwork32 1) = 1" by simp
  then have 1: "names_target ?g (hostToNetwork32 1) ''me'' (Some ''ab'') 42" by (simp add: names_target_def)
  have 2: "concat (map (\<lambda>c. [c]) ?req) = ?req @ []" by (induction ?req) auto
  have 3: "length (?req @ []) \<le> 128" by (simp add: socks_request_def)
  have "map SkSegment (map (\<lambda>c. [c]) ?req) = map (\<lambda>c. SkSegment [c]) ?req" by simp
  then show ?thesis using socks_tunnel_relays[OF 1 2 3, of ?evs] by (auto simp: comp_def link_shutdown_def)
qed

text \<open>A peer that leaves before the target's connection is up: \<open>disconnect\<close> finds no connection to shut, and the one that comes up afterwards
  stays open, its tunnel in no map and held by the callbacks only.\<close>

lemma peer_leaves_before_target_up:
  assumes "relaying addr s" "skClient s = LkNone" "skPeer s \<noteq> LkGone"
  shows "\<exists>s'. foldR (socks_step g) [SkPeerDown, SkUp] s = Inr s' \<and> skTunnel s' = None \<and> skPeer s' = LkGone \<and> skClient s' = LkOpen \<and> skWired s'"
proof -
  obtain s' where s': "foldR (socks_step g) [SkPeerDown, SkUp] s = Inr s'" "relaying addr s'" "relayed s' [] = relayed s [SkPeerDown, SkUp]"
    using relay_steps[OF assms(1)] by blast
  then show ?thesis using assms(2,3) by (auto simp: relaying_def relayed_def link_shutdown_def)
qed

text \<open>Data that arrives with the request counts against the limit for requests: more than 128 bytes in one read are refused.\<close>

lemma large_first_read_refused:
  assumes "buf_wf (skInput s)" "skTunnel s = None" "128 < length (readable (skInput s))"
  shows "onServerMessage g s = Inr (peer_shutdown s)"
  using onServerMessage_bytes[OF assms(1,2) refl, of g] assms(3) by simp

end
