(* ===== verification/Spec2Isabelle.thy ===== *)
theory Spec2Isabelle
  imports LengthCodec EPollPoller PollPoller TimerThreads ConnectionLife EventLoop Connector Acceptor TcpServer TcpClient
    HttpServer LogStream LogFile AsyncLogging BlockingQueues ThreadPool ProtoCodec IdleConnection Demux PubSub RpcChannel
    Logging StringPiece FastCgi ChatServers Inspector Threads RpcServer Socks4a
begin

text \<open>
  Verification of the muduo network library (\<open>src/muduo\<close>), a C++ library of non-blocking TCP
  servers and clients in the reactor pattern: one \<open>EventLoop\<close> per thread waits in a \<open>Poller\<close> for
  events on descriptors, dispatches them through \<open>Channel\<close>s to the objects that own them
  (\<open>TcpConnection\<close>, \<open>Acceptor\<close>, \<open>Connector\<close>, \<open>TimerQueue\<close>) and runs the functors other threads
  have queued in it. The repository builds in Debug mode, so every \<open>assert\<close> is live: a failed
  assertion, an \<open>abort()\<close>, a thrown exception and an access outside an array are values of type
  \<open>fault\<close>, and an operation that can meet one returns \<open>fault + 'a\<close>.

  \<^bold>\<open>Theories and what they model.\<close>

  \<^item> \<open>Muduo_Prelude\<close>: faults and results, C integer conversions, pieces of the C++ library,
    reachability. \<open>StdText\<close>: numbers in text, \<open>snprintf\<close>, \<open>std::map\<close>. \<open>Endian\<close>: \<open>net/Endian.h\<close>.
  \<^item> \<open>NetBuffer\<close>: \<open>net/Buffer.h\<close>, \<open>Buffer.cc\<close>. The two-index byte vector is a byte queue with room
    to prepend; locale \<open>byte_fifo\<close> is its interface.
  \<^item> \<open>Framing\<close>: cutting messages out of a byte stream, the interface of the codecs. Locale
    \<open>framing\<close> shows once that segmentation does not matter, locale \<open>framed_codec\<close> carries that to a
    receive loop on a buffer. \<open>LengthCodec\<close> (\<open>examples/asio/chat/codec.h\<close>) and \<open>ProtoCodec\<close>
    (\<open>net/protorpc/RpcCodec.cc\<close>, \<open>examples/protobuf/codec/codec.cc\<close>) are its instances, and so are the
    packets of \<open>Multiplexer\<close> and the lines of \<open>PubSub\<close>.
  \<^item> \<open>RpcChannel\<close>, \<open>RpcServer\<close>: the files of these names under \<open>net/protorpc\<close>, the calls of one connection and their answers as a step
    relation of calling threads, two loops and services; requests the server does not know are ignored, as in the code.
  \<^item> \<open>Channel\<close>, \<open>PollerContract\<close>, \<open>EPollPoller\<close>, \<open>PollPoller\<close>: \<open>net/Channel.*\<close>, \<open>net/Poller.h\<close>,
    \<open>net/poller/*\<close>. Locale \<open>poller_contract\<close> states what a poller promises (after any legal
    sequence of calls the kernel watches exactly the registered interest); both pollers interpret
    it.
  \<^item> \<open>TimerQueue\<close>: \<open>net/Timer*\<close> with timers in an explicit heap, so that use after \<open>delete\<close>, leaks and
    reuse of addresses are visible. \<open>TimerThreads\<close>: the same queue with \<open>addTimer\<close> and \<open>cancel\<close> called by other threads, as the
    functors they hand to the loop.
  \<^item> \<open>EventLoop\<close>, \<open>EventLoopThreadPool\<close>: \<open>net/EventLoop*\<close>, threads as step relations at the
    granularity of critical sections and system calls, with functors the loop's thread queues before \<open>loop()\<close>.
  \<^item> \<open>TcpConnection\<close>, \<open>ConnectionLife\<close>, \<open>Connector\<close>, \<open>Acceptor\<close>, \<open>InetAddress\<close>, \<open>TcpServer\<close>,
    \<open>TcpClient\<close>: the files of
    these names under \<open>net\<close>. A connection goes through its destruction too, and a shutdown by another thread is a test and an assignment with
    events between them; it records its calls on the poller, and this theory replays
    the calls of many connections, whose descriptor numbers are reused, on both pollers. The acceptor runs beside threads that open and close descriptors; the client counts
    the holders of its connector, so that the connector's destructor runs when the last is gone.
  \<^item> \<open>HttpParse\<close>, \<open>HttpServer\<close>: \<open>net/http\<close>. \<open>Inspector\<close>: \<open>net/inspect\<close>, a server of registered commands on top of it.
  \<^item> \<open>Monitor\<close>, \<open>BlockingQueues\<close>, \<open>ThreadPool\<close>: the objects of \<open>base\<close> that are guarded by a mutex with
    condition variables. Locale \<open>monitor\<close> shows that every interleaving of threads is sequential,
    \<open>fifo_monitor\<close> that order is kept, \<open>signalling_monitor\<close> that no wake-up is lost. \<open>Threads\<close>: the mutex itself, with the holder
    it remembers, and the life of a thread.
  \<^item> \<open>StringPiece\<close>, \<open>Calendar\<close> (\<open>Timestamp.cc\<close>), \<open>LogStream\<close>, \<open>Logging\<close>, \<open>LogFile\<close>, \<open>AsyncLogging\<close>: the files of these
    names under \<open>base\<close>: the text of moments, what is streamed into a line, the line of a log statement, the files a log is
    cut into, and the thread that writes them behind the others. \<open>FileUtil\<close>: \<open>FileUtil.cc\<close> and \<open>Atomic.h\<close>.
  \<^item> \<open>IdleConnection\<close> (\<open>examples/idleconnection\<close>, the timing wheel and the sorted list that close idle
    connections), \<open>Multiplexer\<close> and \<open>Demux\<close> (\<open>examples/multiplexer\<close>, many connections carried by one),
    \<open>PubSub\<close> (\<open>examples/hub\<close>), \<open>FastCgi\<close> (\<open>examples/fastcgi\<close>),
    \<open>ChatServers\<close> (\<open>examples/asio/chat\<close>, four ways to share the list of connections),
    \<open>Socks4a\<close> (\<open>examples/socks4a\<close>, one proxied connection with the ends of both sides and the high-water marks): the example servers with state of their own.

  \<^bold>\<open>State and operations.\<close> A class is a record of its data members, an operation a function from
  the record to the record, or to a result. System calls are arguments: what \<open>read\<close> finds, how much
  \<open>write\<close> takes, which errno \<open>connect\<close> returns, in general quantified over; \<open>epoll_ctl\<close> is an
  arbitrary function with its documented behaviour as hypothesis. User callbacks are lists of the
  calls they make back into the object. Components that run on behalf of several threads have an
  inductive step relation, and their properties hold in every reachable state.

  \<^bold>\<open>What is shown.\<close> Safety: no assertion fires and no deleted object is used, for connections,
  servers, timers, connectors, pollers and queues, whatever the network and the threads do.
  Functional behaviour: byte streams arrive complete and in order, timers fire once and when due,
  descriptors are watched exactly as asked, HTTP requests and RPC messages are parsed into what was
  written. Liveness in the form of enabledness: a pending shutdown completes when the output
  drains, a wake-up is never lost, the earliest timer is armed. Where the code does not keep such a
  promise under conditions its own callers can create, the theorem names the exception and a lemma exhibits the run
  (a shutdown that overtakes a close, a timer that fires before \<open>addTimer\<close> has returned, a functor queued before \<open>loop()\<close>, a client destroyed in the turn it
  connected, a reserve descriptor that cannot be reopened, a call of an unknown method, data for a lost backend).

  \<^bold>\<open>Bounds and fuel.\<close> No definition needs fuel: loops over data are structural or have a measure; the
  parse loop of the HTTP server is shown to return; the receive loop of the protobuf codecs, which
  may indeed run forever, is a partial function whose value \<open>None\<close> means that it does not return.
  Sizes are natural numbers, with the wrap-around of \<open>size_t\<close> subtraction and the conversions to
  \<open>int\<close> written out; integers on the wire are words of their width.

  \<^bold>\<open>Not modelled.\<close> Thin wrappers of system calls (\<open>Socket\<close>, most of \<open>SocketsOps\<close>,
  \<open>ProcessInfo\<close>, \<open>Singleton\<close>, \<open>ThreadLocal\<close>), the example programs beside those named above, and the tests.
\<close>

subsection \<open>Connections on a poller\<close>

text \<open>The connections of one loop: each has run some legal sequence of events, to its end or not, and
  \<open>xs\<close> is some interleaving of the calls they made on the poller. A connection keeps its descriptor
  open until \<open>connectDestroyed\<close> took it off the poller; the kernel may give the number to another
  connection from then on, not before.\<close>

definition connections_of_loop :: "(nat \<Rightarrow> int) \<Rightarrow> (nat \<Rightarrow> conn) \<Rightarrow> poller_call list \<Rightarrow> bool" where
  "connections_of_loop fd c xs \<longleftrightarrow> fds_own fd {} xs
   \<and> (\<forall>i. (\<exists>evs. conn_legal_run evs (newConn i (fd i)) = Some (Inr (c i))) \<and> calls_of i xs = cnPoller (c i))"

definition conn_live :: "conn \<Rightarrow> bool" where
  "conn_live c \<longleftrightarrow> cnState c = kConnected \<or> cnState c = kDisconnecting"

lemma connection_view:
  assumes "conn_legal_run evs (newConn i f) = Some (Inr c)"
  shows "legal_run legal (\<lambda>_. f) {} (cnPoller c) (Map.empty, \<lambda>_. 0)"
    and "spec_watched (spec_run (\<lambda>_. f) (cnPoller c) (Map.empty, \<lambda>_. 0)) f
       = (if conn_live c then Some (rw_mask True (readable (cnOutput c) \<noteq> [])) else None)"
proof -
  have ok: "conn_ok c" using conn_run_ok_new[OF assms] by simp
  have id: "cnId c = i" "chFd (cnChannel c) = f"
    using conn_legal_run_ids[OF conn_okI(1)[OF newConn_inv] assms] by (auto simp: same_ids_def newConn_def newChannel_def)
  have nz: "rw_mask True w \<noteq> 0" for w by (cases w) (simp_all add: rw_mask_ops)
  have "legal_run legal (\<lambda>_. f) {} (cnPoller c) (Map.empty, \<lambda>_. 0)
    \<and> spec_watched (spec_run (\<lambda>_. f) (cnPoller c) (Map.empty, \<lambda>_. 0)) f
       = (if conn_live c then Some (rw_mask True (readable (cnOutput c) \<noteq> [])) else None)"
  proof (cases "conn_gone c")
    case True
    then show ?thesis using ok id by (simp add: conn_ok_def conn_finished_def conn_dead_def conn_live_def spec_watched_def)
  next
    case False
    then have "conn_inv c" using ok by (simp add: conn_ok_def)
    note D = conn_invD[OF this]
    show ?thesis using D(5,6,7,10) id nz
      by (cases "cnState c") (auto simp: poller_tracks_def spec_watched_def spec_run_def[of _ "[]"] pending_def conn_live_def)
  qed
  then show "legal_run legal (\<lambda>_. f) {} (cnPoller c) (Map.empty, \<lambda>_. 0)"
    and "spec_watched (spec_run (\<lambda>_. f) (cnPoller c) (Map.empty, \<lambda>_. 0)) f
       = (if conn_live c then Some (rw_mask True (readable (cnOutput c) \<noteq> [])) else None)" by simp_all
qed

definition watches_live :: "(nat \<Rightarrow> int) \<Rightarrow> (nat \<Rightarrow> conn) \<Rightarrow> (int \<rightharpoonup> 32 word) \<Rightarrow> bool" where
  "watches_live fd c w \<longleftrightarrow>
     (\<forall>i. conn_live (c i) \<longrightarrow> w (fd i) = Some (rw_mask True (readable (cnOutput (c i)) \<noteq> [])))
   \<and> (\<forall>f. w f \<noteq> None \<longrightarrow> (\<exists>i. conn_live (c i) \<and> fd i = f))"

lemma connections_legal:
  assumes "connections_of_loop fd c xs"
  shows "legal_run legal fd {} xs (Map.empty, \<lambda>_. 0)"
    and "watches_live fd c (spec_watched (spec_run fd xs (Map.empty, \<lambda>_. 0)))"
proof -
  have own: "fds_own fd {} xs" using assms by (simp add: connections_of_loop_def)
  have calls: "calls_of j xs = cnPoller (c j)" for j using assms by (simp add: connections_of_loop_def)
  have run: "\<exists>evs. conn_legal_run evs (newConn j (fd j)) = Some (Inr (c j))" for j
    using assms by (simp add: connections_of_loop_def)
  have en: "enrolled fd {} (Map.empty, \<lambda>_. 0)" by (simp add: enrolled_def)
  have vw: "own_view fd {} j (Map.empty, \<lambda>_. 0) (Map.empty, \<lambda>_. 0)" for j by (simp add: own_view_def)
  show "legal_run legal fd {} xs (Map.empty, \<lambda>_. 0)"
  proof (rule legal_run_interleave[OF own en])
    fix j
    obtain evs where "conn_legal_run evs (newConn j (fd j)) = Some (Inr (c j))" using run by blast
    from connection_view(1)[OF this] show "\<exists>U' RM'. own_view fd {} j (Map.empty, \<lambda>_. 0) RM' \<and> (j \<in> {} \<longrightarrow> j \<in> U')
        \<and> legal_run legal (\<lambda>_. fd j) U' (calls_of j xs) RM'"
      using vw[of j] by (auto simp: calls)
  qed
  let ?solo = "\<lambda>j. spec_run (\<lambda>_. fd j) (calls_of j xs) (Map.empty, \<lambda>_. 0)"
  have solo: "spec_watched (?solo j) (fd j)
      = (if conn_live (c j) then Some (rw_mask True (readable (cnOutput (c j)) \<noteq> [])) else None)" for j
    using connection_view(2) run calls by metis
  note E = spec_run_enrolled[OF own en vw]
  note W = spec_watched_enrolled[OF E[THEN conjunct1], where RM' = ?solo, OF E[THEN conjunct2]]
  show "watches_live fd c (spec_watched (spec_run fd xs (Map.empty, \<lambda>_. 0)))"
    unfolding watches_live_def
  proof (intro conjI allI impI)
    fix i assume "conn_live (c i)"
    then show "spec_watched (spec_run fd xs (Map.empty, \<lambda>_. 0)) (fd i) = Some (rw_mask True (readable (cnOutput (c i)) \<noteq> []))"
      using solo[of i] by (intro W(1)) simp
  next
    fix f assume "spec_watched (spec_run fd xs (Map.empty, \<lambda>_. 0)) f \<noteq> None"
    then obtain m where "spec_watched (spec_run fd xs (Map.empty, \<lambda>_. 0)) f = Some m" by blast
    from W(2)[OF this] show "\<exists>i. conn_live (c i) \<and> fd i = f" using solo by (metis option.distinct(1))
  qed
qed

text \<open>Two connections on descriptor 5, the second after the first was destroyed.\<close>

definition reuse_calls :: "poller_call list" where
  "reuse_calls = [Interest 0 EnableReading, Interest 0 DisableAll, Unregister 0, Interest 1 EnableReading]"

definition reuse_fd :: "nat \<Rightarrow> int" where
  "reuse_fd i = (if i < 2 then 5 else int i + 5)"

lemma demo_connections:
  "\<exists>c. connections_of_loop reuse_fd c reuse_calls \<and> conn_live (c 1) \<and> readable (cnOutput (c 1)) = []"
proof -
  obtain c0 where c0: "conn_legal_run [EvEstablished [], EvDestroyed []] (newConn 0 5) = Some (Inr c0)"
      "cnPoller c0 = [Interest 0 EnableReading, Interest 0 DisableAll, Unregister 0]"
    by (simp add: newConn_def connectEstablished_def connectDestroyed_def connected_def conn_callback_def chan_interest_def tie_def
        newChannel_def conn_legal_def conn_gone_def isNoneEvent_def events_defs kNoneEvent_def Let_def)
  obtain c1 where c1: "conn_legal_run [EvEstablished []] (newConn 1 5) = Some (Inr c1)" "cnState c1 = kConnected"
      "cnPoller c1 = [Interest 1 EnableReading]" "readable (cnOutput c1) = []"
    by (simp add: newConn_def connectEstablished_def connected_def conn_callback_def chan_interest_def conn_legal_def conn_gone_def)
  define c where "c i = (if i = 0 then c0 else if i = 1 then c1 else newConn i (reuse_fd i))" for i
  have run: "\<exists>evs. conn_legal_run evs (newConn i (reuse_fd i)) = Some (Inr (c i))" for i
  proof -
    consider "i = 0" | "i = 1" | "i \<noteq> 0" "i \<noteq> 1" by blast
    then show ?thesis
    proof cases
      case 1
      then have "newConn i (reuse_fd i) = newConn 0 5" "c i = c0" by (simp_all add: c_def reuse_fd_def)
      then show ?thesis using c0(1) by metis
    next
      case 2
      then have "newConn i (reuse_fd i) = newConn 1 5" "c i = c1" by (simp_all add: c_def reuse_fd_def)
      then show ?thesis using c1(1) by metis
    next
      case 3
      then have "conn_legal_run [] (newConn i (reuse_fd i)) = Some (Inr (c i))" by (simp add: c_def)
      then show ?thesis by blast
    qed
  qed
  have calls: "calls_of i reuse_calls = cnPoller (c i)" for i
    using c0(2) c1(3) by (simp add: calls_of_def reuse_calls_def c_def newConn_def)
  have "fds_own reuse_fd {} reuse_calls" by (simp add: reuse_calls_def)
  then have "connections_of_loop reuse_fd c reuse_calls" using run calls by (simp add: connections_of_loop_def)
  moreover have "conn_live (c 1)" "readable (cnOutput (c 1)) = []" using c1(2,4) by (simp_all add: c_def conn_live_def)
  ultimately show ?thesis by blast
qed



text \<open>The same on \<open>poll(2)\<close>.\<close>

theorem connections_on_poll:
  assumes fds: "\<And>i. 0 \<le> fd i" and conns: "connections_of_loop fd c xs"
  shows "\<exists>s. foldR (do_call (pp_interest cur) (pp_remove cur)) xs (newPollPoller cur (\<lambda>i. newChannel (fd i))) = Inr s
    \<and> watches_live fd c (pp_watched s)"
proof -
  let ?h = "\<lambda>i. newChannel (fd i)"
  have start: "pp_state (newPollPoller cur ?h) = (Map.empty, \<lambda>_. 0)" "pp_fd_of (newPollPoller cur ?h) = fd"
    by (auto simp: pp_state_def pp_fd_of_def newPollPoller_def newChannel_def)
  have inv: "pp_inv cur (newPollPoller cur ?h)"
    by (rule newPollPoller_inv) (use fds in \<open>simp_all add: newChannel_def is_rw_mask_def\<close>)
  have "pollp.fresh_upto {} (newPollPoller cur ?h)"
    by (simp add: pollp.fresh_upto_def pp_fresh_def newPollPoller_def newChannel_def)
  from pollp.run_watched[OF inv, unfolded start, OF connections_legal(1)[OF conns] this]
  show ?thesis using connections_legal(2)[OF conns] by auto
qed

theorem connections_on_poll_witness:
  "\<exists>s. foldR (do_call (pp_interest 1) (pp_remove 1)) reuse_calls
        (newPollPoller 1 (\<lambda>i. newChannel (reuse_fd i))) = Inr s
     \<and> pp_watched s 5 = Some (rw_mask True False)"
proof -
  obtain c where c: "connections_of_loop reuse_fd c reuse_calls" "conn_live (c 1)"
      "readable (cnOutput (c 1)) = []" using demo_connections by blast
  have fds: "0 \<le> reuse_fd i" for i by (simp add: reuse_fd_def)
  from connections_on_poll[where cur = 1, OF fds c(1)] obtain s where
    s: "foldR (do_call (pp_interest 1) (pp_remove 1)) reuse_calls
        (newPollPoller 1 (\<lambda>i. newChannel (reuse_fd i))) = Inr s"
      "watches_live reuse_fd c (pp_watched s)"
    by blast
  from s(2) c(2,3) have "pp_watched s (reuse_fd 1) = Some (rw_mask True False)" by (simp add: watches_live_def)
  with s(1) show ?thesis by (auto simp: reuse_fd_def)
qed

end
